(* ===== verification/Go_Prelude.thy ===== *)
theory Go_Prelude
  imports Main "HOL-Library.AList" "HOL-Library.Signed_Division" "HOL-Library.Word"
begin

text \<open>
  The part of Go and of its standard library that the components share, with the lemmas that
  carry their proofs:
  \<^item> signed 64-bit integers (Go's \<open>int\<close>, \<open>int64\<close>, \<open>time.Duration\<close> on a 64-bit platform): values
    are \<^typ>\<open>int\<close>, and \<open>wrap64\<close> is applied where an operation may leave the range;
  \<^item> \<open>time.Time\<close> as nanoseconds since the Unix epoch, with \<open>Sub\<close> (saturating), \<open>Add\<close>,
    \<open>Truncate\<close> and \<open>UnixNano\<close> (wrapping);
  \<^item> Go maps as association lists with distinct keys (\<open>len\<close> is \<^const>\<open>length\<close>);
  \<^item> error values with \<open>errors.Is\<close>, and the error of a context;
  \<^item> the ASCII part of \<open>strings.ToLower\<close> and \<open>strings.TrimSpace\<close>, and \<open>strings.Split\<close> at one byte.
\<close>

section \<open>Collections of facts\<close>

named_theorems go_time "arithmetic of times and durations"
named_theorems go_map "lookup, size and keys of Go maps"

section \<open>Signed 64-bit integers\<close>

definition in_int64 :: "int \<Rightarrow> bool" where
  "in_int64 x \<longleftrightarrow> - (2 ^ 63) \<le> x \<and> x < 2 ^ 63"

definition max_int64 :: int where
  "max_int64 = 2 ^ 63 - 1"

definition wrap64 :: "int \<Rightarrow> int" where
  "wrap64 x = (x + 2 ^ 63) mod 2 ^ 64 - 2 ^ 63"

definition saturate64 :: "int \<Rightarrow> int" where
  "saturate64 x = max (- (2 ^ 63)) (min (2 ^ 63 - 1) x)"

lemma wrap64_id: "in_int64 x \<Longrightarrow> wrap64 x = x"
  unfolding wrap64_def in_int64_def by (subst mod_pos_pos_trivial) simp_all

lemma in_int64_wrap64 [simp]: "in_int64 (wrap64 x)"
proof -
  have "0 \<le> (x + 2 ^ 63) mod 2 ^ 64" and "(x + 2 ^ 63) mod 2 ^ 64 < (2 ^ 64 :: int)"
    by simp_all
  then show ?thesis unfolding in_int64_def wrap64_def by simp
qed

lemma saturate64_id [go_time]: "in_int64 x \<Longrightarrow> saturate64 x = x"
  by (simp add: saturate64_def in_int64_def)

lemma saturate64_mono: "x \<le> y \<Longrightarrow> saturate64 x \<le> saturate64 y"
  by (simp add: saturate64_def)

lemma saturate64_nonneg [simp]: "0 \<le> saturate64 x \<longleftrightarrow> 0 \<le> x"
  by (auto simp: saturate64_def)

lemma saturate64_le: "0 \<le> x \<Longrightarrow> saturate64 x \<le> x"
  by (simp add: saturate64_def)

text \<open>
  A comparison with an in-range bound sees through the saturation: this is how every timeout of
  the library is tested (\<open>now.Sub(t) > d\<close>).
\<close>

lemma saturate64_gt_iff [go_time]: "in_int64 d \<Longrightarrow> d < max_int64 \<Longrightarrow> d < saturate64 x \<longleftrightarrow> d < x"
  by (auto simp: saturate64_def in_int64_def max_int64_def)

lemma saturate64_ge_iff [go_time]: "in_int64 d \<Longrightarrow> d \<le> saturate64 x \<longleftrightarrow> d \<le> x \<or> d = - (2 ^ 63)"
  by (auto simp: saturate64_def in_int64_def)

text \<open>Go divides integers towards zero.\<close>

lemma sdiv_nonneg_div: "0 \<le> a \<Longrightarrow> 0 < b \<Longrightarrow> a sdiv b = (a div b :: int)"
  by (simp add: signed_divide_int_def sgn_if)

section \<open>Times and durations\<close>

type_synonym time = int
type_synonym duration = int

definition second :: duration where
  "second = 1000000000"

definition minute :: duration where
  "minute = 60 * second"

definition hour :: duration where
  "hour = 60 * minute"

text \<open>\<open>time.Time{}\<close> is January 1, year 1, 00:00 UTC.\<close>

definition zero_time :: time where
  "zero_time = - 62135596800 * 1000000000"

definition time_sub :: "time \<Rightarrow> time \<Rightarrow> duration" where
  "time_sub t u = saturate64 (t - u)"

definition time_add :: "time \<Rightarrow> duration \<Rightarrow> time" where
  "time_add t d = t + d"

definition unix_nano :: "time \<Rightarrow> int" where
  "unix_nano t = wrap64 t"

text \<open>\<open>t.Truncate(d)\<close> rounds down to a multiple of \<open>d\<close> since the zero time.\<close>

definition time_truncate :: "time \<Rightarrow> duration \<Rightarrow> time" where
  "time_truncate t d = (if d \<le> 0 then t else t - (t - zero_time) mod d)"

lemma time_truncate_le [go_time]: "time_truncate t d \<le> t"
  by (simp add: time_truncate_def)

lemma time_truncate_gt [go_time]: "0 < d \<Longrightarrow> t - d < time_truncate t d"
  by (simp add: time_truncate_def)

lemma time_truncate_mono: "t \<le> u \<Longrightarrow> time_truncate t d \<le> time_truncate u d"
proof (cases "0 < d")
  case True
  assume "t \<le> u"
  then have "(t - zero_time) div d \<le> (u - zero_time) div d"
    using True by (simp add: zdiv_mono1)
  then have "d * ((t - zero_time) div d) \<le> d * ((u - zero_time) div d)"
    using True by (simp add: mult_left_mono)
  with True show ?thesis
    by (simp add: time_truncate_def minus_mod_eq_mult_div [symmetric] algebra_simps)
qed (simp add: time_truncate_def)

section \<open>Go maps\<close>

text \<open>
  A Go map is an association list with distinct keys: \<^const>\<open>map_of\<close> is the lookup,
  \<open>mput\<close> the assignment \<open>m[k] = v\<close>, \<open>mdel\<close> the builtin \<open>delete\<close>, and \<^const>\<open>length\<close> the builtin
  \<open>len\<close>. The order of the pairs is not observable in Go; where an iteration's order matters, the
  order is an argument of the operation.
\<close>

type_synonym ('k, 'v) gomap = "('k \<times> 'v) list"

abbreviation mput :: "'k \<Rightarrow> 'v \<Rightarrow> ('k, 'v) gomap \<Rightarrow> ('k, 'v) gomap" where
  "mput \<equiv> AList.update"

abbreviation mdel :: "'k \<Rightarrow> ('k, 'v) gomap \<Rightarrow> ('k, 'v) gomap" where
  "mdel \<equiv> AList.delete"

definition map_ok :: "('k, 'v) gomap \<Rightarrow> bool" where
  "map_ok m \<longleftrightarrow> distinct (map fst m)"

definition keys_of :: "('k, 'v) gomap \<Rightarrow> 'k set" where
  "keys_of m = dom (map_of m)"

lemma map_ok_Nil [simp]: "map_ok []"
  by (simp add: map_ok_def)

lemma map_ok_mput [simp]: "map_ok m \<Longrightarrow> map_ok (mput k v m)"
  by (simp add: map_ok_def distinct_update)

lemma map_ok_mdel [simp]: "map_ok m \<Longrightarrow> map_ok (mdel k m)"
  by (simp add: map_ok_def distinct_delete)

lemma map_ok_filter [simp]: "map_ok m \<Longrightarrow> map_ok (filter p m)"
  unfolding map_ok_def by (induction m) (auto dest: filter_is_subset [THEN subsetD])

lemma map_of_mput [go_map]: "map_of (mput k v m) = (map_of m)(k \<mapsto> v)"
  by (rule update_conv')

lemma map_of_mdel [go_map]: "map_of (mdel k m) = (map_of m)(k := None)"
  by (rule delete_conv')

lemma map_of_filter_ok:
  "map_ok m \<Longrightarrow> map_of (filter (\<lambda>(k, v). P k v) m) k =
     (case map_of m k of None \<Rightarrow> None | Some v \<Rightarrow> if P k v then Some v else None)"
  unfolding map_ok_def
  by (induction m) (auto split: option.splits simp: map_of_eq_None_iff)

lemma keys_of_Nil [go_map]: "keys_of [] = {}"
  by (simp add: keys_of_def)

lemma keys_of_mput [go_map]: "keys_of (mput k v m) = insert k (keys_of m)"
  by (simp add: keys_of_def go_map)

lemma keys_of_mdel [go_map]: "keys_of (mdel k m) = keys_of m - {k}"
  by (simp add: keys_of_def go_map)

lemma keys_of_fst: "keys_of m = fst ` set m"
  by (simp add: keys_of_def dom_map_of_conv_image_fst)

lemma length_card_keys: "map_ok m \<Longrightarrow> length m = card (keys_of m)"
  unfolding map_ok_def keys_of_fst by (metis distinct_card length_map set_map)

lemma finite_keys_of [simp]: "finite (keys_of m)"
  by (simp add: keys_of_def finite_dom_map_of)

lemma length_mput [go_map]:
  "map_ok m \<Longrightarrow> length (mput k v m) = (if k \<in> keys_of m then length m else Suc (length m))"
  by (simp add: length_card_keys go_map insert_absorb)

lemma length_mdel [go_map]:
  "map_ok m \<Longrightarrow> length (mdel k m) = (if k \<in> keys_of m then length m - 1 else length m)"
  by (simp add: length_card_keys go_map)

lemma length_mdel_less: "map_ok m \<Longrightarrow> k \<in> keys_of m \<Longrightarrow> length (mdel k m) < length m"
  by (simp only: length_card_keys map_ok_mdel keys_of_mdel card_Diff1_less finite_keys_of)

lemma set_mput_subset: "set (mput k v m) \<subseteq> insert (k, v) (set m)"
  by (induction m) auto

lemma mem_keys_of: "k \<in> keys_of m \<longleftrightarrow> (\<exists>v. map_of m k = Some v)"
  by (auto simp: keys_of_def)

lemma keys_of_eq_empty [simp]: "keys_of m = {} \<longleftrightarrow> m = []"
  by (simp add: keys_of_fst)

lemma set_mdel_subset: "set (mdel k m) \<subseteq> set m"
  by (auto simp: AList.delete_eq)

lemma int_length_mdel: "map_ok m \<Longrightarrow> map_of m k \<noteq> None \<Longrightarrow> int (length (mdel k m)) = int (length m) - 1"
  using length_mdel [of m k] mem_keys_of [of k m] length_mdel_less [of m k] by auto

section \<open>Error values\<close>

text \<open>
  An error is a sentinel (identified by its message: every sentinel of the library has its own),
  a context's error, an error wrapped with a message (\<open>fmt.Errorf\<close> with \<open>%w\<close>) or a join.
  \<open>errors_is\<close> is \<open>errors.Is\<close>: it walks the chain and the joined errors.
\<close>

datatype error =
    Canceled
  | DeadlineExceeded
  | Err string
  | Wrap string error
  | Join "error list"

fun errors_is :: "error \<Rightarrow> error \<Rightarrow> bool" where
  "errors_is Canceled t = (t = Canceled)"
| "errors_is DeadlineExceeded t = (t = DeadlineExceeded)"
| "errors_is (Err m) t = (t = Err m)"
| "errors_is (Wrap m e) t = (t = Wrap m e \<or> errors_is e t)"
| "errors_is (Join es) t = (t = Join es \<or> list_ex (\<lambda>e. errors_is e t) es)"

lemma errors_is_refl [simp]: "errors_is e e"
  by (cases e) simp_all

text \<open>\<open>ctx.Err()\<close> at one moment: nil, or why the context ended.\<close>

type_synonym ctx_err = "error option"

section \<open>Runs of a step relation\<close>

lemma rtranclp_invariant:
  assumes "r\<^sup>*\<^sup>* s t" and "P s" and "\<And>x y. P x \<Longrightarrow> r x y \<Longrightarrow> P y"
  shows "P t"
  using assms(1,2) by (induction rule: rtranclp_induct) (blast intro: assms(3))+

end
