(* ===== verification/Go_Strings.thy ===== *)
theory Go_Strings
  imports Go_Prelude
begin

text \<open>
  The functions of Go's \<open>strings\<close> package that the library calls, on byte strings. \<open>ToLower\<close> and
  \<open>TrimSpace\<close> are their ASCII behaviour: bytes from 128 upwards are left alone, so for a string
  with such bytes (multi-byte letters, Unicode spaces) the Go functions may do more.
\<close>

definition ascii_lower :: "char \<Rightarrow> char" where
  "ascii_lower c = (let n = (of_char c :: nat) in if 65 \<le> n \<and> n \<le> 90 then char_of (n + 32) else c)"

definition to_lower :: "string \<Rightarrow> string" where
  "to_lower = map ascii_lower"

definition is_space :: "char \<Rightarrow> bool" where
  "is_space c \<longleftrightarrow> (let n = (of_char c :: nat) in (9 \<le> n \<and> n \<le> 13) \<or> n = 32)"

definition trim_space :: "string \<Rightarrow> string" where
  "trim_space s = rev (dropWhile is_space (rev (dropWhile is_space s)))"

fun split_on :: "char \<Rightarrow> string \<Rightarrow> string list" where
  "split_on c [] = [[]]"
| "split_on c (x # xs) =
     (if x = c then [] # split_on c xs
      else (case split_on c xs of [] \<Rightarrow> [[x]] | p # ps \<Rightarrow> (x # p) # ps))"

fun join_with :: "char \<Rightarrow> string list \<Rightarrow> string" where
  "join_with c [] = []"
| "join_with c [p] = p"
| "join_with c (p # q # ps) = p @ c # join_with c (q # ps)"

lemma split_on_nonempty [simp]: "split_on c s \<noteq> []"
  by (cases s) (auto split: list.splits)

text \<open>Splitting and joining are inverse to each other, on strings and on separator-free parts.\<close>

lemma join_split [simp]: "join_with c (split_on c s) = s"
proof (induction s)
  case (Cons x xs)
  obtain p ps where sp: "split_on c xs = p # ps"
    by (cases "split_on c xs") auto
  with Cons show ?case by (cases ps) auto
qed simp

lemma split_on_parts: "p \<in> set (split_on c s) \<Longrightarrow> c \<notin> set p"
  by (induction s arbitrary: p) (auto split: if_splits list.splits)

lemma split_on_append:
  "c \<notin> set p \<Longrightarrow> split_on c (p @ c # s) = p # split_on c s"
  by (induction p) (auto split: list.splits)

lemma split_on_free: "c \<notin> set p \<Longrightarrow> split_on c p = [p]"
  by (induction p) auto

lemma split_join:
  "ps \<noteq> [] \<Longrightarrow> (\<And>p. p \<in> set ps \<Longrightarrow> c \<notin> set p) \<Longrightarrow> split_on c (join_with c ps) = ps"
  by (induction c ps rule: join_with.induct) (auto simp: split_on_append split_on_free)

lemma of_char_ascii_lower:
  "(of_char (ascii_lower c) :: nat) =
     (if 65 \<le> (of_char c :: nat) \<and> (of_char c :: nat) \<le> 90 then of_char c + 32 else of_char c)"
  by (auto simp: ascii_lower_def Let_def)

lemma ascii_lower_idem [simp]: "ascii_lower (ascii_lower c) = ascii_lower c"
  unfolding ascii_lower_def [of "ascii_lower c"] Let_def of_char_ascii_lower by auto

lemma is_space_ascii_lower [simp]: "is_space (ascii_lower c) = is_space c"
  by (auto simp: is_space_def Let_def of_char_ascii_lower)

lemma to_lower_idem [simp]: "to_lower (to_lower s) = to_lower s"
  by (simp add: to_lower_def)

lemma dropWhile_to_lower: "dropWhile is_space (to_lower s) = to_lower (dropWhile is_space s)"
  by (induction s) (auto simp: to_lower_def)

lemma rev_to_lower: "rev (to_lower s) = to_lower (rev s)"
  by (simp add: to_lower_def rev_map)

lemma trim_space_to_lower: "trim_space (to_lower s) = to_lower (trim_space s)"
  by (simp add: trim_space_def dropWhile_to_lower rev_to_lower)

lemma dropWhile_rev_dropWhile:
  "dropWhile P (rev (dropWhile P (rev (dropWhile P s)))) = rev (dropWhile P (rev (dropWhile P s)))"
proof (cases "dropWhile P s")
  case (Cons x xs)
  have np: "\<not> P x" using hd_dropWhile [of P s] Cons by simp
  have "rev (dropWhile P (rev (x # xs))) = x # rev (dropWhile P (rev xs))"
    using np by (induction xs rule: rev_induct) (auto simp: dropWhile_append)
  with Cons np show ?thesis by simp
next
  case Nil
  show ?thesis by (simp only: Nil rev.simps dropWhile.simps)
qed

lemma trim_space_idem [simp]: "trim_space (trim_space s) = trim_space s"
  unfolding trim_space_def
  by (simp add: dropWhile_rev_dropWhile)

section \<open>Trimming a set of bytes\<close>

text \<open>\<open>strings.Trim\<close> with a cutset, of which \<^const>\<open>trim_space\<close> is an instance.\<close>

definition trim_chars :: "(char \<Rightarrow> bool) \<Rightarrow> string \<Rightarrow> string" where
  "trim_chars p s = rev (dropWhile p (rev (dropWhile p s)))"

lemma trim_space_chars: "trim_space = trim_chars is_space"
  by (simp add: trim_space_def trim_chars_def fun_eq_iff)

section \<open>Suffixes\<close>

text \<open>\<open>strings.HasSuffix\<close> and \<open>strings.TrimSuffix\<close>.\<close>

definition has_suffix :: "string \<Rightarrow> string \<Rightarrow> bool" where
  "has_suffix s suf \<longleftrightarrow> length suf \<le> length s \<and> drop (length s - length suf) s = suf"

definition trim_suffix :: "string \<Rightarrow> string \<Rightarrow> string" where
  "trim_suffix s suf = (if has_suffix s suf then take (length s - length suf) s else s)"

section \<open>Big-endian numbers\<close>

text \<open>\<open>big.Int.SetBytes\<close>: the strings of a length stand for the numbers below a power of 256.\<close>

definition big_endian :: "string \<Rightarrow> nat" where
  "big_endian bs = foldl (\<lambda>n c. 256 * n + of_char c) 0 bs"

lemma big_endian_Nil [simp]: "big_endian [] = 0"
  by (simp add: big_endian_def)

lemma big_endian_snoc: "big_endian (bs @ [c]) = 256 * big_endian bs + of_char c"
  by (simp add: big_endian_def)

lemma big_endian_split:
  "big_endian (bs @ [c]) div 256 = big_endian bs" "big_endian (bs @ [c]) mod 256 = of_char c"
  by (simp_all add: big_endian_snoc)

lemma big_endian_less: "big_endian bs < 256 ^ length bs"
proof (induction bs rule: rev_induct)
  case (snoc c bs)
  have "256 * big_endian bs + of_char c < 256 * (big_endian bs + 1)" by simp
  also have "\<dots> \<le> 256 * 256 ^ length bs" using snoc by (intro mult_le_mono2) simp
  finally show ?case by (simp add: big_endian_snoc)
qed simp

lemma big_endian_inj: "length bs = length cs \<Longrightarrow> big_endian bs = big_endian cs \<Longrightarrow> bs = cs"
proof (induction bs arbitrary: cs rule: rev_induct)
  case (snoc b bs)
  then obtain ds d where cs: "cs = ds @ [d]" "length ds = length bs" by (cases cs rule: rev_cases) auto
  have "big_endian bs = big_endian ds" "(of_char b :: nat) = of_char d"
    using snoc.prems(2) big_endian_split [of bs b] big_endian_split [of ds d] unfolding cs by simp_all
  with snoc.IH [of ds] cs show ?case by simp
qed simp

lemma big_endian_surj: "n < 256 ^ k \<Longrightarrow> \<exists>bs. length bs = k \<and> big_endian bs = n"
proof (induction k arbitrary: n)
  case (Suc k)
  then have "n div 256 < 256 ^ k" by (simp add: less_mult_imp_div_less mult.commute)
  from Suc.IH [OF this] obtain bs where bs: "length bs = k" "big_endian bs = n div 256" by blast
  have "big_endian (bs @ [char_of (n mod 256)]) = n"
    using bs(2) by (simp only: big_endian_snoc of_char_of) simp
  with bs(1) show ?case by (intro exI [of _ "bs @ [char_of (n mod 256)]"]) simp
qed simp

lemma big_endian_bij: "bij_betw big_endian {bs. length bs = k} {..<256 ^ k}"
  unfolding bij_betw_def inj_on_def
  using big_endian_inj big_endian_surj big_endian_less by (auto simp: image_iff) metis

section \<open>Decimal numbers\<close>

text \<open>\<open>strconv.Itoa\<close> and \<open>strconv.Atoi\<close> (an optional sign, at least one digit, in range).\<close>

fun itoa_nat :: "nat \<Rightarrow> string" where
  "itoa_nat n = (if n < 10 then [char_of (48 + n)] else itoa_nat (n div 10) @ [char_of (48 + n mod 10)])"

declare itoa_nat.simps [simp del]

definition itoa :: "int \<Rightarrow> string" where
  "itoa n = (if n < 0 then CHR ''-'' # itoa_nat (nat (- n)) else itoa_nat (nat n))"

definition digit_of :: "char \<Rightarrow> nat option" where
  "digit_of c = (let n = (of_char c :: nat) in if 48 \<le> n \<and> n \<le> 57 then Some (n - 48) else None)"

fun digits_value :: "nat \<Rightarrow> string \<Rightarrow> nat option" where
  "digits_value acc [] = Some acc"
| "digits_value acc (c # cs) =
     (case digit_of c of None \<Rightarrow> None | Some d \<Rightarrow> digits_value (10 * acc + d) cs)"

definition digits :: "string \<Rightarrow> nat option" where
  "digits s = (if s = [] then None else digits_value 0 s)"

definition atoi :: "string \<Rightarrow> int option" where
  "atoi s =
     (let v = (case s of
                 [] \<Rightarrow> None
               | c # cs \<Rightarrow>
                   if c = CHR ''-'' then map_option (\<lambda>n. - int n) (digits cs)
                   else if c = CHR ''+'' then map_option int (digits cs)
                   else map_option int (digits s))
      in case v of None \<Rightarrow> None | Some n \<Rightarrow> if in_int64 n then Some n else None)"

lemma digits_value_append:
  "digits_value acc (s @ t) = Option.bind (digits_value acc s) (\<lambda>v. digits_value v t)"
  by (induction acc s rule: digits_value.induct) (auto split: option.splits)

lemma digit_of_char: "d < 10 \<Longrightarrow> digit_of (char_of (48 + d)) = Some d"
  by (simp add: digit_of_def Let_def)

lemma digits_value_itoa: "digits_value 0 (itoa_nat n) = Some n"
proof (induction n rule: itoa_nat.induct)
  case (1 n)
  show ?case
  proof (cases "n < 10")
    case True
    then show ?thesis by (simp add: itoa_nat.simps [of n] digit_of_char)
  next
    case False
    with 1 show ?thesis
      by (simp add: itoa_nat.simps [of n] digits_value_append digit_of_char)
  qed
qed

lemma itoa_nat_hd:
  "itoa_nat n \<noteq> [] \<and> hd (itoa_nat n) \<noteq> CHR ''-'' \<and> hd (itoa_nat n) \<noteq> CHR ''+''"
proof (induction n rule: itoa_nat.induct)
  case (1 n)
  have d: "hd [char_of (48 + m)] \<noteq> CHR ''-'' \<and> hd [char_of (48 + m)] \<noteq> CHR ''+''" if "m < 10" for m :: nat
  proof -
    have "of_char (char_of (48 + m) :: char) = 48 + m" using that by simp
    then have "char_of (48 + m) = c \<Longrightarrow> of_char c = 48 + m" for c by auto
    from this [of "CHR ''-''"] this [of "CHR ''+''"] show ?thesis by auto
  qed
  show ?case
  proof (cases "n < 10")
    case True
    with d [of n] show ?thesis unfolding itoa_nat.simps [of n] by simp
  next
    case False
    with 1 show ?thesis unfolding itoa_nat.simps [of n] by simp
  qed
qed

lemma digits_itoa: "digits (itoa_nat n) = Some n"
  using digits_value_itoa [of n] itoa_nat_hd [of n] by (simp add: digits_def)

lemma atoi_itoa [simp]: "in_int64 n \<Longrightarrow> atoi (itoa n) = Some n"
  using itoa_nat_hd [of "nat n"] digits_itoa [of "nat n"] digits_itoa [of "nat (- n)"]
  by (cases "itoa_nat (nat n)") (auto simp: atoi_def itoa_def Let_def)

lemma atoi_in_int64: "atoi s = Some n \<Longrightarrow> in_int64 n"
  by (auto simp: atoi_def Let_def split: option.splits if_splits)

end
