(* ===== verification/Fsm.thy ===== *)
theory Fsm
  imports Go_Strings
begin

text \<open>
  Package \<open>fsm\<close> (\<open>src/fsm/fsm.go\<close>): a declarative finite state machine. \<open>NewMachine\<close> indexes the
  allowed transitions by the string \<open>from + NUL + to + NUL + action\<close>; the theorems relate the
  lookups in that index to membership in the list of transitions.
\<close>

record Transition =
  tFrom :: string
  tTo :: string
  tAction :: string

record fsm_Config =
  Transitions :: "Transition list"
  States :: "(string, bool) gomap"

record Machine =
  config :: fsm_Config
  transitions :: "(string, unit) gomap"

datatype fsm_error =
    InvalidSource string
  | InvalidDestination string
  | IllegalTransition string string string

abbreviation nul :: char where
  "nul \<equiv> CHR 0x00"

definition transitionKey :: "string \<Rightarrow> string \<Rightarrow> string \<Rightarrow> string" where
  "transitionKey from to action = from @ [nul] @ to @ [nul] @ action"

text \<open>One iteration of the loop of \<open>NewMachine\<close>, and the constructor.\<close>

definition addTransition ::
  "(string, bool) gomap \<times> (string, unit) gomap \<Rightarrow> Transition
     \<Rightarrow> (string, bool) gomap \<times> (string, unit) gomap" where
  "addTransition st t =
     (let states = mput (tTo t) True (mput (tFrom t) True (fst st));
          tmap = mput (transitionKey (tFrom t) (tTo t) (tAction t)) () (snd st)
      in (states, tmap))"

definition NewMachine :: "Transition list \<Rightarrow> Machine" where
  "NewMachine ts =
     (let (states, tmap) = foldl addTransition ([], []) ts
      in \<lparr>config = \<lparr>Transitions = ts, States = states\<rparr>, transitions = tmap\<rparr>)"

definition CanTransition :: "Machine \<Rightarrow> string \<Rightarrow> string \<Rightarrow> string \<Rightarrow> bool" where
  "CanTransition m fromState toState action =
     (map_of (transitions m) (transitionKey fromState toState action) \<noteq> None)"

text \<open>Reading a missing key of a \<open>map[string]bool\<close> gives \<open>false\<close>.\<close>

definition is_state :: "Machine \<Rightarrow> string \<Rightarrow> bool" where
  "is_state m s = (case map_of (States (config m)) s of None \<Rightarrow> False | Some b \<Rightarrow> b)"

definition ValidateTransition ::
  "Machine \<Rightarrow> string \<Rightarrow> string \<Rightarrow> string \<Rightarrow> fsm_error option" where
  "ValidateTransition m fromState toState action =
     (if \<not> is_state m fromState then Some (InvalidSource fromState)
      else if \<not> is_state m toState then Some (InvalidDestination toState)
      else if CanTransition m fromState toState action then None
      else Some (IllegalTransition fromState toState action))"

section \<open>The index is exact for NUL-free state names\<close>

definition nul_free :: "string \<Rightarrow> bool" where
  "nul_free s \<longleftrightarrow> nul \<notin> set s"

lemma append_sep_eq:
  "c \<notin> set a \<Longrightarrow> c \<notin> set b \<Longrightarrow> a @ c # x = b @ c # y \<longleftrightarrow> a = b \<and> x = y"
proof (induction a arbitrary: b)
  case (Cons d a)
  then show ?case by (cases b) auto
next
  case Nil
  then show ?case by (cases b) auto
qed

lemma transitionKey_inj:
  "nul_free f \<Longrightarrow> nul_free t \<Longrightarrow> nul_free f' \<Longrightarrow> nul_free t' \<Longrightarrow>
   transitionKey f t a = transitionKey f' t' a' \<longleftrightarrow> f = f' \<and> t = t' \<and> a = a'"
  by (simp add: transitionKey_def nul_free_def append_sep_eq)

lemma foldl_addTransition:
  fixes S T
  defines "key \<equiv> \<lambda>t. transitionKey (tFrom t) (tTo t) (tAction t)"
  shows "map_of (fst (foldl addTransition (S, T) ts)) =
           (\<lambda>s. if s \<in> tFrom ` set ts \<union> tTo ` set ts then Some True else map_of S s)"
    and "map_of (snd (foldl addTransition (S, T) ts)) =
           (\<lambda>k. if k \<in> key ` set ts then Some () else map_of T k)"
  by (induction ts arbitrary: S T)
    (auto simp: addTransition_def key_def Let_def go_map fun_eq_iff)

lemma is_state_NewMachine:
  "is_state (NewMachine ts) s \<longleftrightarrow> s \<in> tFrom ` set ts \<union> tTo ` set ts"
  by (simp add: is_state_def NewMachine_def foldl_addTransition case_prod_beta)

lemma CanTransition_key:
  "CanTransition (NewMachine ts) f t a \<longleftrightarrow>
     transitionKey f t a \<in> (\<lambda>t. transitionKey (tFrom t) (tTo t) (tAction t)) ` set ts"
  by (simp add: CanTransition_def NewMachine_def foldl_addTransition case_prod_beta)

definition names_ok :: "Transition list \<Rightarrow> bool" where
  "names_ok ts = list_all (\<lambda>t. nul_free (tFrom t) \<and> nul_free (tTo t)) ts"

lemma CanTransition_NewMachine:
  assumes "names_ok ts" and "nul_free f" and "nul_free t"
  shows "CanTransition (NewMachine ts) f t a \<longleftrightarrow> \<lparr>tFrom = f, tTo = t, tAction = a\<rparr> \<in> set ts"
proof
  assume "CanTransition (NewMachine ts) f t a"
  then obtain u where u: "u \<in> set ts"
    and "transitionKey f t a = transitionKey (tFrom u) (tTo u) (tAction u)"
    by (auto simp: CanTransition_key)
  with assms have "f = tFrom u \<and> t = tTo u \<and> a = tAction u"
    by (simp add: transitionKey_inj names_ok_def list_all_iff)
  then have "\<lparr>tFrom = f, tTo = t, tAction = a\<rparr> = u" by simp
  with u show "\<lparr>tFrom = f, tTo = t, tAction = a\<rparr> \<in> set ts" by simp
next
  assume "\<lparr>tFrom = f, tTo = t, tAction = a\<rparr> \<in> set ts"
  then show "CanTransition (NewMachine ts) f t a"
    by (force simp: CanTransition_key)
qed

text \<open>
  The contract of the machine, over the list of transitions alone: which error a query gets,
  and that exactly the listed triples are allowed.
\<close>

definition validate_spec :: "Transition list \<Rightarrow> string \<Rightarrow> string \<Rightarrow> string \<Rightarrow> fsm_error option" where
  "validate_spec ts f t a =
     (if \<lparr>tFrom = f, tTo = t, tAction = a\<rparr> \<in> set ts then None
      else if f \<notin> tFrom ` set ts \<union> tTo ` set ts then Some (InvalidSource f)
      else if t \<notin> tFrom ` set ts \<union> tTo ` set ts then Some (InvalidDestination t)
      else Some (IllegalTransition f t a))"

text \<open>
  C4: for a machine whose declared state names contain no NUL byte, \<open>ValidateTransition\<close> on
  NUL-free state names computes exactly the declarative contract: it accepts the triples of the
  transition list and no others, and otherwise names the first unknown state, or the triple.
\<close>

theorem ValidateTransition_spec:
  assumes "names_ok ts" and "nul_free f" and "nul_free t"
  shows "ValidateTransition (NewMachine ts) f t a = validate_spec ts f t a"
  using assms
  by (force simp: ValidateTransition_def validate_spec_def is_state_NewMachine
      CanTransition_NewMachine)

theorem ValidateTransition_spec_witness:
  "ValidateTransition
     (NewMachine [\<lparr>tFrom = ''draft'', tTo = ''open'', tAction = ''submit''\<rparr>]) ''open'' ''draft'' ''submit''
     = Some (IllegalTransition ''open'' ''draft'' ''submit'')"
proof -
  let ?ts = "[\<lparr>tFrom = ''draft'', tTo = ''open'', tAction = ''submit''\<rparr>]"
  have "names_ok ?ts" and "nul_free ''open''" and "nul_free ''draft''"
    by (simp_all add: names_ok_def nul_free_def)
  from ValidateTransition_spec [OF this, of "''submit''"] show ?thesis
    by (simp add: validate_spec_def)
qed

end
