(* ===== verification/Rbac.thy ===== *)
theory Rbac
  imports Go_Strings
begin

text \<open>
  Packages \<open>rbac\<close> (\<open>src/rbac/engine.go\<close>) and \<open>rbaccontext\<close> (\<open>src/rbaccontext/rbaccontext.go\<close>):
  the wildcard permission matcher and the permission set carried by a request's context.
\<close>

definition wild :: string where
  "wild = ''*''"

text \<open>
  The loop of \<open>Match\<close> over the pattern's segments: \<open>Some b\<close> is a \<open>return b\<close> inside the loop, \<open>None\<close>
  the loop's end. The caller has checked that the pattern has no more segments than the request,
  so the equation for a request that ends first is never used (the code would index past the end).
\<close>

fun match_loop :: "string list \<Rightarrow> string list \<Rightarrow> bool option" where
  "match_loop [] rs = None"
| "match_loop (p # ps) (r # rs) =
     (if p = wild then (if ps = [] then Some True else match_loop ps rs)
      else if p \<noteq> r then Some False
      else match_loop ps rs)"
| "match_loop (p # ps) [] = None"

definition normalise :: "string \<Rightarrow> string" where
  "normalise s = trim_space (to_lower s)"

definition Match :: "string \<Rightarrow> string \<Rightarrow> bool" where
  "Match pattern0 requested0 =
     (let pattern = normalise pattern0; requested = normalise requested0 in
      if pattern = [] \<or> requested = [] then False
      else if pattern = wild \<or> pattern = ''*:*'' then True
      else if pattern = requested then True
      else
        let patternParts = split_on (CHR '':'') pattern;
            requestedParts = split_on (CHR '':'') requested in
        if length patternParts > length requestedParts then False
        else case match_loop patternParts requestedParts of
               Some b \<Rightarrow> b
             | None \<Rightarrow> length patternParts = length requestedParts)"

fun HasPermission :: "string list \<Rightarrow> string \<Rightarrow> bool" where
  "HasPermission [] requiredPerm = False"
| "HasPermission (pattern # userPerms) requiredPerm =
     (if Match pattern requiredPerm then True else HasPermission userPerms requiredPerm)"

fun HasAnyPermission :: "string list \<Rightarrow> string list \<Rightarrow> bool" where
  "HasAnyPermission userPerms [] = False"
| "HasAnyPermission userPerms (req # requiredPerms) =
     (if HasPermission userPerms req then True else HasAnyPermission userPerms requiredPerms)"

fun HasAllPermissions :: "string list \<Rightarrow> string list \<Rightarrow> bool" where
  "HasAllPermissions userPerms [] = True"
| "HasAllPermissions userPerms (req # requiredPerms) =
     (if \<not> HasPermission userPerms req then False else HasAllPermissions userPerms requiredPerms)"

section \<open>Permissions in a context\<close>

text \<open>
  \<open>permSet\<close> is a Go map used as a set; a context carries one or none. \<open>Permissions\<close> lists the keys
  in the map's iteration order, which Go leaves open: the order is the association list's, and
  the theorems hold for every one.
\<close>

type_synonym permSet = "(string, unit) gomap"
type_synonym rbac_ctx = "permSet option"

definition WithPermissions :: "string list \<Rightarrow> rbac_ctx" where
  "WithPermissions perms = Some (foldl (\<lambda>m p. mput p () m) [] perms)"

definition Permissions :: "rbac_ctx \<Rightarrow> string list" where
  "Permissions ctx = (case ctx of None \<Rightarrow> [] | Some m \<Rightarrow> map fst m)"

definition Can :: "rbac_ctx \<Rightarrow> string \<Rightarrow> bool" where
  "Can ctx permission =
     (case ctx of
        None \<Rightarrow> False
      | Some m \<Rightarrow> if map_of m permission \<noteq> None then True
                  else HasPermission (Permissions ctx) permission)"

definition CanAny :: "rbac_ctx \<Rightarrow> string list \<Rightarrow> bool" where
  "CanAny ctx permissions =
     (case ctx of None \<Rightarrow> False | Some m \<Rightarrow> HasAnyPermission (Permissions ctx) permissions)"

definition CanAll :: "rbac_ctx \<Rightarrow> string list \<Rightarrow> bool" where
  "CanAll ctx permissions =
     (case ctx of None \<Rightarrow> False | Some m \<Rightarrow> HasAllPermissions (Permissions ctx) permissions)"

section \<open>The matcher computes segment-wise wildcard matching\<close>

definition seg_ok :: "string \<Rightarrow> string \<Rightarrow> bool" where
  "seg_ok p r \<longleftrightarrow> p = wild \<or> p = r"

text \<open>
  The reference: every segment of the pattern is a wildcard or equal, and the request is as long
  as the pattern or goes on where the pattern ends in a wildcard.
\<close>

definition segments_match :: "string list \<Rightarrow> string list \<Rightarrow> bool" where
  "segments_match ps rs \<longleftrightarrow>
     length ps \<le> length rs \<and> list_all2 seg_ok ps (take (length ps) rs) \<and>
     (length ps = length rs \<or> last ps = wild)"

lemma match_loop_spec:
  "ps \<noteq> [] \<Longrightarrow> length ps \<le> length rs \<Longrightarrow>
     (case match_loop ps rs of Some b \<Rightarrow> b | None \<Rightarrow> length ps = length rs) = segments_match ps rs"
proof (induction ps rs rule: match_loop.induct)
  case (2 p ps r rs)
  show ?case
  proof (cases "ps = []")
    case False
    have "segments_match (p # ps) (r # rs) \<longleftrightarrow> seg_ok p r \<and> segments_match ps rs"
      using False by (auto simp: segments_match_def)
    with 2 False show ?thesis
      by (cases "p = wild") (auto simp: seg_ok_def split: option.splits)
  qed (auto simp: segments_match_def seg_ok_def)
qed simp_all

lemma segments_match_refl: "segments_match ps ps"
  by (simp add: segments_match_def list_all2_conv_all_nth seg_ok_def)

lemma Match_iff:
  "Match p r \<longleftrightarrow>
     normalise p \<noteq> [] \<and> normalise r \<noteq> [] \<and>
     (normalise p = ''*:*'' \<or>
      segments_match (split_on (CHR '':'') (normalise p)) (split_on (CHR '':'') (normalise r)))"
  (is "_ \<longleftrightarrow> ?np \<and> ?nr \<and> (?all \<or> segments_match ?ps ?rs)")
proof -
  have star: "normalise p = wild \<Longrightarrow> segments_match ?ps ?rs"
    by (cases ?rs) (auto simp: segments_match_def wild_def seg_ok_def)
  have eq: "normalise p = normalise r \<Longrightarrow> segments_match ?ps ?rs"
    by (simp add: segments_match_refl)
  have len: "segments_match ?ps ?rs \<Longrightarrow> length ?ps \<le> length ?rs"
    by (simp add: segments_match_def)
  show ?thesis
    using star eq len match_loop_spec [of ?ps ?rs]
    by (auto simp: Match_def Let_def split: if_splits)
qed

lemma HasPermission_iff: "HasPermission ps r \<longleftrightarrow> (\<exists>p\<in>set ps. Match p r)"
  by (induction ps) auto

lemma HasAnyPermission_iff: "HasAnyPermission ps rs \<longleftrightarrow> (\<exists>r\<in>set rs. HasPermission ps r)"
  by (induction rs) auto

lemma HasAllPermissions_iff: "HasAllPermissions ps rs \<longleftrightarrow> (\<forall>r\<in>set rs. HasPermission ps r)"
  by (induction rs) auto

lemma foldl_perms: "fst ` set (foldl (\<lambda>m p. mput p () m) m ps) = fst ` set m \<union> set ps"
  by (induction ps arbitrary: m) (auto simp: dom_update)

lemma set_Permissions: "set (Permissions (WithPermissions ps)) = set ps"
  using foldl_perms [of "[]" ps] by (simp add: Permissions_def WithPermissions_def)

lemma Match_refl: "normalise p \<noteq> [] \<Longrightarrow> Match p p"
  by (simp add: Match_iff segments_match_refl)

lemma Can_WithPermissions:
  "Can (WithPermissions ps) p \<longleftrightarrow> p \<in> set ps \<or> (\<exists>q\<in>set ps. Match q p)"
proof -
  obtain m where m: "WithPermissions ps = Some m" by (simp add: WithPermissions_def)
  have k: "map_of m p \<noteq> None \<longleftrightarrow> p \<in> set ps"
    using m set_Permissions [of ps] by (simp add: Permissions_def map_of_eq_None_iff)
  show ?thesis
    using k set_Permissions [of ps] by (auto simp: Can_def m HasPermission_iff)
qed

lemma CanAny_WithPermissions:
  "CanAny (WithPermissions ps) rs \<longleftrightarrow> (\<exists>r\<in>set rs. \<exists>q\<in>set ps. Match q r)"
proof -
  obtain m where "WithPermissions ps = Some m" by (simp add: WithPermissions_def)
  with set_Permissions [of ps] show ?thesis
    by (simp add: CanAny_def HasAnyPermission_iff HasPermission_iff)
qed

lemma CanAll_WithPermissions:
  "CanAll (WithPermissions ps) rs \<longleftrightarrow> (\<forall>r\<in>set rs. \<exists>q\<in>set ps. Match q r)"
proof -
  obtain m where "WithPermissions ps = Some m" by (simp add: WithPermissions_def)
  with set_Permissions [of ps] show ?thesis
    by (simp add: CanAll_def HasAllPermissions_iff HasPermission_iff)
qed

text \<open>
  C3: \<open>Engine.Match\<close> with its early returns, its index loop and its length tests decides exactly
  the declarative relation: both sides non-blank after trimming and lower-casing, and either the
  pattern is \<open>*:*\<close> or its segments match the request's position by position, where a final
  wildcard also covers every further segment.
\<close>

theorem Match_correct:
  "Match pattern requested \<longleftrightarrow>
     normalise pattern \<noteq> [] \<and> normalise requested \<noteq> [] \<and>
     (normalise pattern = ''*:*'' \<or>
      segments_match (split_on (CHR '':'') (normalise pattern))
        (split_on (CHR '':'') (normalise requested)))"
  by (rule Match_iff)

text \<open>
  For a non-blank permission the three guards of a context agree: \<open>Can\<close>, \<open>CanAny\<close> with the one
  permission and \<open>CanAll\<close> with the one permission all hold exactly when some granted pattern
  matches; a context without permissions grants nothing.
\<close>

theorem Can_agrees:
  assumes "normalise p \<noteq> []"
  shows "Can (WithPermissions ps) p = (\<exists>q\<in>set ps. Match q p) \<and>
         CanAny (WithPermissions ps) [p] = Can (WithPermissions ps) p \<and>
         CanAll (WithPermissions ps) [p] = Can (WithPermissions ps) p \<and>
         \<not> Can None p"
  using assms Match_refl [of p]
  by (auto simp: Can_WithPermissions CanAny_WithPermissions CanAll_WithPermissions)
    (simp add: Can_def)

theorem Can_agrees_witness:
  "Can (WithPermissions [''po:*'']) ''PO:create'' \<and> CanAny (WithPermissions [''po:*'']) [''PO:create'']"
proof -
  have n: "normalise ''PO:create'' \<noteq> []"
    by code_simp
  have "Match ''po:*'' ''PO:create''" by code_simp
  with Can_agrees [OF n, of "[''po:*'']"] show ?thesis by simp
qed

end
