(* ===== verification/Breaker.thy ===== *)
theory Breaker
  imports Go_Prelude
begin

text \<open>
  What the two circuit breakers of package \<open>circuitbreaker\<close> share (\<open>src/circuitbreaker/circuitbreaker.go\<close>):
  states, options and metrics; the abstract half-open protocol (\<open>bview\<close>, \<open>spec_can\<close>, \<open>spec_probe\<close>)
  that both implement; the system of concurrent \<open>Execute\<close> calls over any breaker (\<open>brk_step\<close>: one
  step per critical section); and the locale \<open>breaker\<close>, the contract of an implementation, in which
  the properties of every reachable state are proved once for both.
\<close>

datatype State = StateClosed | StateOpen | StateHalfOpen

fun State_String :: "State \<Rightarrow> string" where
  "State_String StateClosed = ''CLOSED''"
| "State_String StateOpen = ''OPEN''"
| "State_String StateHalfOpen = ''HALF_OPEN''"

text \<open>The values of the metrics collectors: two counters and the state gauge.\<close>

record cb_Metrics =
  mRequests :: nat
  mFailures :: nat
  mState :: State

text \<open>
  The options a breaker is built from. The callback \<open>onStateChange\<close> is observed through the
  notifications the operations emit, so the option is whether one is registered; the clock is
  read by the caller of the model, which passes the current time.
\<close>

record options =
  o_onStateChange :: bool
  o_maxHalfOpen :: int

definition no_options :: options where
  "no_options = \<lparr>o_onStateChange = False, o_maxHalfOpen = 0\<rparr>"

definition WithOnStateChange :: "bool \<Rightarrow> options \<Rightarrow> options" where
  "WithOnStateChange fn o1 = o1\<lparr>o_onStateChange := fn\<rparr>"

definition WithHalfOpenProbes :: "int \<Rightarrow> options \<Rightarrow> options" where
  "WithHalfOpenProbes n o1 = (if n > 0 then o1\<lparr>o_maxHalfOpen := n\<rparr> else o1)"

definition ErrCircuitOpen :: error where
  "ErrCircuitOpen = Err ''circuit breaker is open''"

text \<open>A call of the protected function, and \<open>Execute\<close> itself, returns an error or nil, or panics.\<close>

datatype outcome = Returns "error option" | Panics

text \<open>A pending notification \<open>fn(from, to)\<close>, or nil.\<close>

type_synonym notify = "(State \<times> State) option"

section \<open>The half-open protocol\<close>

record bview =
  v_state :: State
  v_openedAt :: time
  v_inflight :: int

definition spec_can :: "time \<Rightarrow> duration \<Rightarrow> int \<Rightarrow> bview \<Rightarrow> bview \<times> bool \<times> bool" where
  "spec_can now rt mh v =
     (case v_state v of
        StateClosed \<Rightarrow> (v, True, False)
      | StateOpen \<Rightarrow>
          (if time_sub now (v_openedAt v) > rt
           then (v\<lparr>v_state := StateHalfOpen, v_inflight := 1\<rparr>, True, True)
           else (v, False, False))
      | StateHalfOpen \<Rightarrow>
          (if v_inflight v < mh then (v\<lparr>v_inflight := v_inflight v + 1\<rparr>, True, True)
           else (v, False, False)))"

text \<open>A probe's result: \<open>None\<close> is success, a cancellation is neither, a panic counts as failure.\<close>

definition is_canceled :: "error option \<Rightarrow> bool" where
  "is_canceled e = (case e of None \<Rightarrow> False | Some x \<Rightarrow> errors_is x Canceled)"

definition trip :: "time \<Rightarrow> bview \<Rightarrow> bview" where
  "trip now v = v\<lparr>v_state := StateOpen, v_openedAt := now\<rparr>"

definition release :: "bview \<Rightarrow> bview" where
  "release v = v\<lparr>v_inflight := max 0 (v_inflight v - 1)\<rparr>"

definition spec_probe :: "error option \<Rightarrow> time \<Rightarrow> bview \<Rightarrow> bview" where
  "spec_probe e now v =
     (if e = None then (release v)\<lparr>v_state := StateClosed\<rparr>
      else if is_canceled e then release v
      else trip now (release v))"

definition notify_of :: "bool \<Rightarrow> State \<Rightarrow> State \<Rightarrow> notify" where
  "notify_of cb from to = (if cb \<and> from \<noteq> to then Some (from, to) else None)"

section \<open>Concurrent executions\<close>

text \<open>
  Any number of goroutines run \<open>Execute\<close>. Between its two critical sections (admission and
  recording the result) a call is in flight, as a probe or as a normal call; the state counts
  both. Time never goes back between steps. A call that is refused, or whose context has ended
  before admission, leaves no trace but the change admission itself made.
\<close>

record 'b bsys =
  brk :: 'b
  probes :: nat
  normals :: nat
  clk :: time

inductive brk_step ::
  "(time \<Rightarrow> 'b \<Rightarrow> 'b \<times> bool \<times> bool \<times> notify) \<Rightarrow>
   (bool \<Rightarrow> error option \<Rightarrow> time \<Rightarrow> 'b \<Rightarrow> 'b \<times> notify) \<Rightarrow>
   (bool \<Rightarrow> time \<Rightarrow> 'b \<Rightarrow> 'b \<times> notify) \<Rightarrow> 'b bsys \<Rightarrow> 'b bsys \<Rightarrow> bool"
  for can rcd pnc where
  admit_probe: "clk s \<le> now \<Longrightarrow> can now (brk s) = (b, True, True, n) \<Longrightarrow>
     brk_step can rcd pnc s (s\<lparr>brk := b, probes := Suc (probes s), clk := now\<rparr>)"
| admit_normal: "clk s \<le> now \<Longrightarrow> can now (brk s) = (b, True, False, n) \<Longrightarrow>
     brk_step can rcd pnc s (s\<lparr>brk := b, normals := Suc (normals s), clk := now\<rparr>)"
| refuse: "clk s \<le> now \<Longrightarrow> can now (brk s) = (b, False, p, n) \<Longrightarrow>
     brk_step can rcd pnc s (s\<lparr>brk := b, clk := now\<rparr>)"
| finish_probe: "clk s \<le> now \<Longrightarrow> probes s = Suc k \<Longrightarrow> rcd True e now (brk s) = (b, n) \<Longrightarrow>
     brk_step can rcd pnc s (s\<lparr>brk := b, probes := k, clk := now\<rparr>)"
| finish_normal: "clk s \<le> now \<Longrightarrow> normals s = Suc k \<Longrightarrow> rcd False e now (brk s) = (b, n) \<Longrightarrow>
     brk_step can rcd pnc s (s\<lparr>brk := b, normals := k, clk := now\<rparr>)"
| panic_probe: "clk s \<le> now \<Longrightarrow> probes s = Suc k \<Longrightarrow> pnc True now (brk s) = (b, n) \<Longrightarrow>
     brk_step can rcd pnc s (s\<lparr>brk := b, probes := k, clk := now\<rparr>)"
| panic_normal: "clk s \<le> now \<Longrightarrow> normals s = Suc k \<Longrightarrow> pnc False now (brk s) = (b, n) \<Longrightarrow>
     brk_step can rcd pnc s (s\<lparr>brk := b, normals := k, clk := now\<rparr>)"

definition start_sys :: "time \<Rightarrow> 'b \<Rightarrow> 'b bsys" where
  "start_sys t b = \<lparr>brk = b, probes = 0, normals = 0, clk = t\<rparr>"

text \<open>The same steps as an executable function of a schedule, to compute concrete runs.\<close>

datatype bevent =
    Admit time
  | FinishProbe "error option" time
  | FinishNormal "error option" time
  | PanicProbe time
  | PanicNormal time

fun brk_exec where
  "brk_exec can rcd pnc (Admit now) s =
     (if clk s > now then None
      else case can now (brk s) of (b, a, p, n) \<Rightarrow>
        Some (if \<not> a then s\<lparr>brk := b, clk := now\<rparr>
              else if p then s\<lparr>brk := b, probes := Suc (probes s), clk := now\<rparr>
              else s\<lparr>brk := b, normals := Suc (normals s), clk := now\<rparr>))"
| "brk_exec can rcd pnc (FinishProbe e now) s =
     (if clk s > now \<or> probes s = 0 then None
      else case rcd True e now (brk s) of (b, n) \<Rightarrow>
        Some (s\<lparr>brk := b, probes := probes s - 1, clk := now\<rparr>))"
| "brk_exec can rcd pnc (FinishNormal e now) s =
     (if clk s > now \<or> normals s = 0 then None
      else case rcd False e now (brk s) of (b, n) \<Rightarrow>
        Some (s\<lparr>brk := b, normals := normals s - 1, clk := now\<rparr>))"
| "brk_exec can rcd pnc (PanicProbe now) s =
     (if clk s > now \<or> probes s = 0 then None
      else case pnc True now (brk s) of (b, n) \<Rightarrow>
        Some (s\<lparr>brk := b, probes := probes s - 1, clk := now\<rparr>))"
| "brk_exec can rcd pnc (PanicNormal now) s =
     (if clk s > now \<or> normals s = 0 then None
      else case pnc False now (brk s) of (b, n) \<Rightarrow>
        Some (s\<lparr>brk := b, normals := normals s - 1, clk := now\<rparr>))"

fun brk_run where
  "brk_run can rcd pnc [] s = Some s"
| "brk_run can rcd pnc (ev # evs) s = Option.bind (brk_exec can rcd pnc ev s) (brk_run can rcd pnc evs)"

text \<open>The edges of the three-state machine the package documents.\<close>

definition legal_edge :: "State \<Rightarrow> State \<Rightarrow> bool" where
  "legal_edge from to \<longleftrightarrow> from = to \<or>
     (from, to) \<in> {(StateClosed, StateOpen), (StateOpen, StateHalfOpen),
                   (StateHalfOpen, StateOpen), (StateHalfOpen, StateClosed)}"

lemma brk_exec_step: "brk_exec can rcd pnc ev s = Some s' \<Longrightarrow> brk_step can rcd pnc s s'"
  by (induction can rcd pnc ev s rule: brk_exec.induct)
    (auto split: if_splits prod.splits intro: brk_step.intros)

lemma brk_run_steps: "brk_run can rcd pnc evs s = Some s' \<Longrightarrow> (brk_step can rcd pnc)\<^sup>*\<^sup>* s s'"
proof (induction evs arbitrary: s)
  case (Cons ev evs)
  then obtain s1 where "brk_exec can rcd pnc ev s = Some s1" and "brk_run can rcd pnc evs s1 = Some s'"
    by (auto simp: bind_eq_Some_conv)
  with Cons.IH show ?case by (metis brk_exec_step converse_rtranclp_into_rtranclp)
qed simp

section \<open>The contract of an implementation\<close>

text \<open>
  \<open>view\<close> projects an implementation's state to the protocol; \<open>rt\<close> and \<open>mh\<close> are the reset timeout and
  the probe limit in force (after defaults); \<open>ok\<close> is the implementation's invariant, which may
  rely on a call being in flight (\<open>live\<close>: defaults have been applied by an admission).
\<close>

locale breaker =
  fixes can :: "time \<Rightarrow> 'b \<Rightarrow> 'b \<times> bool \<times> bool \<times> notify"
    and rcd :: "bool \<Rightarrow> error option \<Rightarrow> time \<Rightarrow> 'b \<Rightarrow> 'b \<times> notify"
    and pnc :: "bool \<Rightarrow> time \<Rightarrow> 'b \<Rightarrow> 'b \<times> notify"
    and view :: "'b \<Rightarrow> bview"
    and rt :: "'b \<Rightarrow> duration"
    and mh :: "'b \<Rightarrow> int"
    and ok :: "'b \<Rightarrow> bool"
    and live :: "'b \<Rightarrow> bool"
  assumes can_view: "ok b \<Longrightarrow> can now b = (b', a, p, n) \<Longrightarrow>
      (view b', a, p) = spec_can now (rt b) (mh b) (view b)"
    and can_ok: "ok b \<Longrightarrow> can now b = (b', a, p, n) \<Longrightarrow> ok b' \<and> live b' \<and> mh b' = mh b"
    and rcd_probe_view: "ok b \<Longrightarrow> live b \<Longrightarrow> rcd True e now b = (b', n) \<Longrightarrow>
      view b' = spec_probe e now (view b)"
    and rcd_normal_view: "ok b \<Longrightarrow> live b \<Longrightarrow> rcd False e now b = (b', n) \<Longrightarrow>
      view b' = view b \<or> v_state (view b) = StateClosed \<and> view b' = trip now (view b)"
    and rcd_ok: "ok b \<Longrightarrow> live b \<Longrightarrow> rcd p e now b = (b', n) \<Longrightarrow> ok b' \<and> live b' \<and> mh b' = mh b"
    and pnc_probe_view: "ok b \<Longrightarrow> live b \<Longrightarrow> pnc True now b = (b', n) \<Longrightarrow>
      view b' = trip now (release (view b))"
    and pnc_normal_view: "ok b \<Longrightarrow> live b \<Longrightarrow> pnc False now b = (b', n) \<Longrightarrow>
      view b' = view b \<or> v_state (view b) = StateClosed \<and> view b' = trip now (view b)"
    and pnc_ok: "ok b \<Longrightarrow> live b \<Longrightarrow> pnc p now b = (b', n) \<Longrightarrow> ok b' \<and> live b' \<and> mh b' = mh b"
    and mh_pos: "ok b \<Longrightarrow> 0 < mh b"
begin

definition fresh :: "'b \<Rightarrow> bool" where
  "fresh b \<longleftrightarrow> ok b \<and> v_state (view b) = StateClosed \<and> v_inflight (view b) = 0"

definition base_inv :: "'b bsys \<Rightarrow> bool" where
  "base_inv s \<longleftrightarrow> ok (brk s) \<and> (0 < probes s + normals s \<longrightarrow> live (brk s)) \<and>
     0 \<le> v_inflight (view (brk s)) \<and> v_inflight (view (brk s)) \<le> mh (brk s)"

definition single_inv :: "'b bsys \<Rightarrow> bool" where
  "single_inv s \<longleftrightarrow> base_inv s \<and>
     (if v_state (view (brk s)) = StateHalfOpen then int (probes s) = v_inflight (view (brk s))
      else probes s = 0)"

text \<open>
  What a step does to the protocol's view: an admission, a probe's end, or a normal call's end.
\<close>

lemma panic_is_probe_failure: "trip now (release v) = spec_probe (Some (Err m)) now v"
  by (simp add: spec_probe_def is_canceled_def)

lemma step_ok:
  assumes "brk_step can rcd pnc s s'" and "base_inv s"
  shows "ok (brk s') \<and> live (brk s') \<and> mh (brk s') = mh (brk s)"
  using assms
proof (cases rule: brk_step.cases)
  case (admit_probe now b n)
  with assms(2) can_ok [OF _ admit_probe(3)] show ?thesis by (simp add: base_inv_def)
next
  case (admit_normal now b n)
  with assms(2) can_ok [OF _ admit_normal(3)] show ?thesis by (simp add: base_inv_def)
next
  case (refuse now b p n)
  with assms(2) can_ok [OF _ refuse(3)] show ?thesis by (simp add: base_inv_def)
next
  case (finish_probe now k e b n)
  with assms(2) rcd_ok [OF _ _ finish_probe(4)] show ?thesis by (simp add: base_inv_def)
next
  case (finish_normal now k e b n)
  with assms(2) rcd_ok [OF _ _ finish_normal(4)] show ?thesis by (simp add: base_inv_def)
next
  case (panic_probe now k b n)
  with assms(2) pnc_ok [OF _ _ panic_probe(4)] show ?thesis by (simp add: base_inv_def)
next
  case (panic_normal now k b n)
  with assms(2) pnc_ok [OF _ _ panic_normal(4)] show ?thesis by (simp add: base_inv_def)
qed

lemma step_view:
  assumes "brk_step can rcd pnc s s'" and "base_inv s"
  shows "(\<exists>now a p. spec_can now (rt (brk s)) (mh (brk s)) (view (brk s)) = (view (brk s'), a, p) \<and>
            probes s' = (if a \<and> p then Suc (probes s) else probes s)) \<or>
         (\<exists>e now. probes s = Suc (probes s') \<and> view (brk s') = spec_probe e now (view (brk s))) \<or>
         (probes s' = probes s \<and>
            (view (brk s') = view (brk s) \<or>
             v_state (view (brk s)) = StateClosed \<and> (\<exists>now. view (brk s') = trip now (view (brk s)))))"
  using assms
proof (induction rule: brk_step.induct)
  case (admit_probe s now b n)
  then have "ok (brk s)" by (simp add: base_inv_def)
  from can_view [OF this admit_probe(2)] show ?case
    by (intro disjI1 exI [of _ now] exI [of _ True] exI [of _ True]) simp
next
  case (admit_normal s now b n)
  then have "ok (brk s)" by (simp add: base_inv_def)
  from can_view [OF this admit_normal(2)] show ?case
    by (intro disjI1 exI [of _ now] exI [of _ True] exI [of _ False]) simp
next
  case (refuse s now b p n)
  then have "ok (brk s)" by (simp add: base_inv_def)
  from can_view [OF this refuse(2)] show ?case
    by (intro disjI1 exI [of _ now] exI [of _ False] exI [of _ p]) simp
next
  case (finish_probe s now k e b n)
  then have "ok (brk s)" and "live (brk s)" by (simp_all add: base_inv_def)
  from rcd_probe_view [OF this finish_probe(3)] finish_probe(2) show ?case
    by (intro disjI2 disjI1 exI [of _ e] exI [of _ now]) simp
next
  case (finish_normal s now k e b n)
  then have "ok (brk s)" and "live (brk s)" by (simp_all add: base_inv_def)
  from rcd_normal_view [OF this finish_normal(3)] show ?case
    by (intro disjI2) auto
next
  case (panic_probe s now k b n)
  then have "ok (brk s)" and "live (brk s)" by (simp_all add: base_inv_def)
  from pnc_probe_view [OF this panic_probe(3)] panic_probe(2)
  show ?case
    by (intro disjI2 disjI1 exI [of _ "Some (Err [])"] exI [of _ now])
      (simp add: panic_is_probe_failure [of _ _ "[]", symmetric])
next
  case (panic_normal s now k b n)
  then have "ok (brk s)" and "live (brk s)" by (simp_all add: base_inv_def)
  from pnc_normal_view [OF this panic_normal(3)] show ?case
    by (intro disjI2) auto
qed

lemma spec_can_inflight:
  assumes "spec_can now r m v = (v', a, p)" and "0 < m"
    and "0 \<le> v_inflight v" and "v_inflight v \<le> m"
  shows "0 \<le> v_inflight v' \<and> v_inflight v' \<le> m"
  using assms by (auto simp: spec_can_def split: State.splits if_splits)

lemma spec_probe_inflight:
  "0 \<le> v_inflight v \<Longrightarrow> v_inflight v \<le> m \<Longrightarrow> 0 < m \<Longrightarrow>
     0 \<le> v_inflight (spec_probe e now v) \<and> v_inflight (spec_probe e now v) \<le> m"
  by (auto simp: spec_probe_def release_def trip_def)

lemma base_inv_step:
  assumes "base_inv s" and "brk_step can rcd pnc s s'"
  shows "base_inv s'"
proof -
  let ?v = "view (brk s)" and ?v' = "view (brk s')"
  from assms(1) have m: "0 < mh (brk s)" and i: "0 \<le> v_inflight ?v" "v_inflight ?v \<le> mh (brk s)"
    by (simp_all add: base_inv_def mh_pos)
  have "0 \<le> v_inflight ?v' \<and> v_inflight ?v' \<le> mh (brk s)"
    using step_view [OF assms(2,1)]
  proof (elim disjE exE conjE)
    fix now a p assume "spec_can now (rt (brk s)) (mh (brk s)) ?v = (?v', a, p)"
    then show ?thesis by (rule spec_can_inflight [OF _ m i])
  next
    fix e now assume "?v' = spec_probe e now ?v"
    then show ?thesis by (simp only: spec_probe_inflight [OF i m])
  qed (simp_all add: i trip_def)
  with step_ok [OF assms(2,1)] show ?thesis by (simp add: base_inv_def)
qed

lemma single_inv_step:
  assumes "single_inv s" and "mh (brk s) = 1" and "brk_step can rcd pnc s s'"
  shows "single_inv s' \<and> legal_edge (v_state (view (brk s))) (v_state (view (brk s')))"
proof -
  have b: "base_inv s" using assms(1) by (simp add: single_inv_def)
  from base_inv_step [OF b assms(3)] have b': "base_inv s'" .
  from step_ok [OF assms(3) b] assms(2) have m': "mh (brk s') = 1" by simp
  from b b' assms(2) m' have i: "v_inflight (view (brk s)) \<in> {0, 1}" "v_inflight (view (brk s')) \<in> {0, 1}"
    by (auto simp: base_inv_def)
  show ?thesis
    using step_view [OF assms(3) b]
  proof (elim disjE exE conjE)
    fix now a p
    assume c: "spec_can now (rt (brk s)) (mh (brk s)) (view (brk s)) = (view (brk s'), a, p)"
      and "probes s' = (if a \<and> p then Suc (probes s) else probes s)"
    with c [symmetric] assms(1,2) b' i show ?thesis
      by (auto simp: single_inv_def spec_can_def legal_edge_def split: State.splits if_splits)
  next
    fix e now
    assume "probes s = Suc (probes s')" and "view (brk s') = spec_probe e now (view (brk s))"
    with assms(1) b' i show ?thesis
      by (auto simp: single_inv_def spec_probe_def release_def trip_def legal_edge_def
          split: if_splits)
  next
    fix now
    assume "probes s' = probes s" and "v_state (view (brk s)) = StateClosed"
      and "view (brk s') = trip now (view (brk s))"
    with assms(1) b' show ?thesis by (auto simp: single_inv_def trip_def legal_edge_def)
  next
    assume "probes s' = probes s" and "view (brk s') = view (brk s)"
    with assms(1) b' show ?thesis by (auto simp: single_inv_def legal_edge_def split: if_splits)
  qed
qed

lemma fresh_start: "fresh b \<Longrightarrow> single_inv (start_sys t b)"
  by (auto simp: fresh_def single_inv_def base_inv_def start_sys_def mh_pos less_imp_le)

lemma reachable_base:
  assumes "fresh b0" and "(brk_step can rcd pnc)\<^sup>*\<^sup>* (start_sys t0 b0) s"
  shows "base_inv s"
proof (rule rtranclp_invariant [OF assms(2)])
  show "base_inv (start_sys t0 b0)" using fresh_start [OF assms(1)] by (simp add: single_inv_def)
qed (rule base_inv_step)

lemma reachable_single:
  assumes "fresh b0" and "mh b0 = 1" and "(brk_step can rcd pnc)\<^sup>*\<^sup>* (start_sys t0 b0) s"
  shows "single_inv s \<and> mh (brk s) = 1"
proof (rule rtranclp_invariant [OF assms(3)])
  show "single_inv (start_sys t0 b0) \<and> mh (brk (start_sys t0 b0)) = 1"
    using fresh_start [OF assms(1)] assms(2) by (simp add: start_sys_def)
next
  fix x y
  assume x: "single_inv x \<and> mh (brk x) = 1" and st: "brk_step can rcd pnc x y"
  then have "base_inv x" by (simp add: single_inv_def)
  with step_ok [OF st] single_inv_step [OF _ _ st] x show "single_inv y \<and> mh (brk y) = 1" by simp
qed

text \<open>
  The promises to the clients. The counter of probes in flight stays within the configured limit;
  with the default limit of one it is exact, so at most one probe runs at a time and none outside
  the half-open state, and the circuit moves only along the documented edges.
\<close>

lemma reachable_inflight_bounded:
  assumes "fresh b0" and "(brk_step can rcd pnc)\<^sup>*\<^sup>* (start_sys t0 b0) s"
  shows "0 \<le> v_inflight (view (brk s)) \<and> v_inflight (view (brk s)) \<le> mh (brk s)"
  using reachable_base [OF assms] by (simp add: base_inv_def)

lemma reachable_single_probe:
  assumes "fresh b0" and "mh b0 = 1" and "(brk_step can rcd pnc)\<^sup>*\<^sup>* (start_sys t0 b0) s"
  shows "probes s \<le> 1 \<and> (0 < probes s \<longrightarrow> v_state (view (brk s)) = StateHalfOpen)"
  using reachable_single [OF assms] by (auto simp: single_inv_def base_inv_def split: if_splits)

lemma reachable_legal_edges:
  assumes "fresh b0" and "mh b0 = 1" and "(brk_step can rcd pnc)\<^sup>*\<^sup>* (start_sys t0 b0) s"
    and "brk_step can rcd pnc s s'"
  shows "legal_edge (v_state (view (brk s))) (v_state (view (brk s')))"
  using reachable_single [OF assms(1-3)] single_inv_step [OF _ _ assms(4)] by simp

text \<open>Fail fast: while the circuit is open and the timeout has not passed, nothing is admitted.\<close>

lemma open_refuses:
  assumes "ok b" and "v_state (view b) = StateOpen" and "time_sub now (v_openedAt (view b)) \<le> rt b"
    and "can now b = (b', a, p, n)"
  shows "\<not> a \<and> view b' = view b"
  using can_view [OF assms(1,4)] assms(2,3) by (simp add: spec_can_def)

end

end
