(* ===== verification/Breaker_Consecutive.thy ===== *)
theory Breaker_Consecutive
  imports Breaker
begin

text \<open>
  \<open>ConsecutiveBreaker\<close> (\<open>src/circuitbreaker/consecutive.go\<close>): the breaker that trips after a number of
  consecutive failures. Each critical section (the code between \<open>cb.mu.Lock()\<close> and \<open>cb.mu.Unlock()\<close>)
  is one function of the breaker's state and of the time the clock shows; \<open>Execute\<close> composes them
  around a call of the protected function, which may change the breaker's state (other
  goroutines, or a nested call). The failure counter is a mathematical integer: it never passes
  \<open>maxFailures\<close>, as shown below, so the 64-bit counter of the code does not wrap.
\<close>

record ConsecutiveBreaker =
  cb_state :: State
  cb_failures :: int
  cb_maxFailures :: int
  cb_resetTimeout :: duration
  cb_openedAt :: time
  cb_halfOpenInFlight :: int
  cb_maxHalfOpen :: int
  cb_onStateChange :: bool
  cb_metrics :: cb_Metrics

definition NewConsecutiveBreaker ::
  "int \<Rightarrow> duration \<Rightarrow> (options \<Rightarrow> options) list \<Rightarrow> ConsecutiveBreaker" where
  "NewConsecutiveBreaker maxFailures resetTimeout opts =
     (let o1 = foldl (\<lambda>o1 opt. opt o1) no_options opts;
          maxHalfOpen = (if o_maxHalfOpen o1 \<le> 0 then 1 else o_maxHalfOpen o1)
      in \<lparr>cb_state = StateClosed, cb_failures = 0, cb_maxFailures = maxFailures,
          cb_resetTimeout = resetTimeout, cb_openedAt = zero_time, cb_halfOpenInFlight = 0,
          cb_maxHalfOpen = maxHalfOpen, cb_onStateChange = o_onStateChange o1,
          cb_metrics = \<lparr>mRequests = 0, mFailures = 0, mState = StateClosed\<rparr>\<rparr>)"

definition cb_initDefaults :: "ConsecutiveBreaker \<Rightarrow> ConsecutiveBreaker" where
  "cb_initDefaults cb =
     cb\<lparr>cb_maxFailures := (if cb_maxFailures cb \<le> 0 then 5 else cb_maxFailures cb),
        cb_resetTimeout := (if cb_resetTimeout cb \<le> 0 then 60 * second else cb_resetTimeout cb),
        cb_maxHalfOpen := (if cb_maxHalfOpen cb \<le> 0 then 1 else cb_maxHalfOpen cb)\<rparr>"

definition cb_transition :: "State \<Rightarrow> ConsecutiveBreaker \<Rightarrow> ConsecutiveBreaker \<times> notify" where
  "cb_transition to cb =
     (if cb_state cb = to then (cb, None)
      else (cb\<lparr>cb_state := to, cb_metrics := (cb_metrics cb)\<lparr>mState := to\<rparr>\<rparr>,
            if cb_onStateChange cb then Some (cb_state cb, to) else None))"

definition cb_decrementHalfOpen :: "ConsecutiveBreaker \<Rightarrow> ConsecutiveBreaker" where
  "cb_decrementHalfOpen cb =
     (let n = cb_halfOpenInFlight cb - 1 in cb\<lparr>cb_halfOpenInFlight := (if n < 0 then 0 else n)\<rparr>)"

definition cb_incFailures :: "ConsecutiveBreaker \<Rightarrow> ConsecutiveBreaker" where
  "cb_incFailures cb = cb\<lparr>cb_metrics := (cb_metrics cb)\<lparr>mFailures := Suc (mFailures (cb_metrics cb))\<rparr>\<rparr>"

definition cb_incRequests :: "ConsecutiveBreaker \<Rightarrow> ConsecutiveBreaker" where
  "cb_incRequests cb = cb\<lparr>cb_metrics := (cb_metrics cb)\<lparr>mRequests := Suc (mRequests (cb_metrics cb))\<rparr>\<rparr>"

definition cb_canExecute :: "time \<Rightarrow> ConsecutiveBreaker \<Rightarrow> ConsecutiveBreaker \<times> bool \<times> bool \<times> notify" where
  "cb_canExecute now cb0 =
     (let cb = cb_initDefaults cb0 in
      case cb_state cb of
        StateClosed \<Rightarrow> (cb, True, False, None)
      | StateOpen \<Rightarrow>
          (if time_sub now (cb_openedAt cb) > cb_resetTimeout cb then
             let (cb1, n) = cb_transition StateHalfOpen cb
             in (cb1\<lparr>cb_halfOpenInFlight := 1\<rparr>, True, True, n)
           else (cb, False, False, None))
      | StateHalfOpen \<Rightarrow>
          (if cb_halfOpenInFlight cb < cb_maxHalfOpen cb
           then (cb\<lparr>cb_halfOpenInFlight := cb_halfOpenInFlight cb + 1\<rparr>, True, True, None)
           else (cb, False, False, None)))"

definition cb_recordResult ::
  "bool \<Rightarrow> error option \<Rightarrow> time \<Rightarrow> ConsecutiveBreaker \<Rightarrow> ConsecutiveBreaker \<times> notify \<times> error option" where
  "cb_recordResult isProbe err now cb0 =
     (if isProbe then
        let cb = cb_decrementHalfOpen cb0 in
        (case err of
           Some e \<Rightarrow>
             if errors_is e Canceled then (cb, None, err)
             else let (cb1, n) = cb_transition StateOpen (cb_incFailures (cb\<lparr>cb_openedAt := now\<rparr>))
                  in (cb1, n, err)
         | None \<Rightarrow> let (cb1, n) = cb_transition StateClosed (cb\<lparr>cb_failures := 0\<rparr>) in (cb1, n, None))
      else if cb_state cb0 = StateClosed then
        (case err of
           Some e \<Rightarrow>
             if errors_is e Canceled then (cb0, None, err)
             else let cb = cb_incFailures (cb0\<lparr>cb_failures := cb_failures cb0 + 1\<rparr>) in
               if cb_failures cb \<ge> cb_maxFailures cb then
                 let (cb1, n) = cb_transition StateOpen (cb\<lparr>cb_openedAt := now\<rparr>) in (cb1, n, err)
               else (cb, None, err)
         | None \<Rightarrow> (cb0\<lparr>cb_failures := 0\<rparr>, None, err))
      else (cb0, None, err))"

definition cb_onPanic :: "bool \<Rightarrow> time \<Rightarrow> ConsecutiveBreaker \<Rightarrow> ConsecutiveBreaker \<times> notify" where
  "cb_onPanic isProbe now cb =
     (if isProbe then
        cb_transition StateOpen (cb_incFailures ((cb_decrementHalfOpen cb)\<lparr>cb_openedAt := now\<rparr>))
      else if cb_state cb = StateClosed then
        let cb1 = cb_incFailures (cb\<lparr>cb_failures := cb_failures cb + 1\<rparr>) in
        if cb_failures cb1 \<ge> cb_maxFailures cb1
        then cb_transition StateOpen (cb1\<lparr>cb_openedAt := now\<rparr>) else (cb1, None)
      else (cb, None))"

text \<open>
  \<open>Execute\<close>: \<open>ctx1\<close> and \<open>ctx2\<close> are \<open>ctx.Err()\<close> before admission and after the call, \<open>now1\<close> and \<open>now2\<close> the
  times of the two critical sections. The third component lists the notifications delivered.
\<close>

definition cb_Execute ::
  "ctx_err \<Rightarrow> time \<Rightarrow> (ConsecutiveBreaker \<Rightarrow> ConsecutiveBreaker \<times> outcome) \<Rightarrow> ctx_err \<Rightarrow> time
     \<Rightarrow> ConsecutiveBreaker \<Rightarrow> outcome \<times> ConsecutiveBreaker \<times> notify list" where
  "cb_Execute ctx1 now1 req ctx2 now2 cb =
     (case ctx1 of
        Some e \<Rightarrow> (Returns (Some e), cb, [])
      | None \<Rightarrow>
          let (cb1, allowed, isProbe, n1) = cb_canExecute now1 cb in
          if \<not> allowed then (Returns (Some ErrCircuitOpen), cb1, [n1])
          else
            let (cb2, out) = req (cb_incRequests cb1) in
            case out of
              Panics \<Rightarrow> let (cb3, n2) = cb_onPanic isProbe now2 cb2 in (Panics, cb3, [n1, n2])
            | Returns err0 \<Rightarrow>
                let err = (if err0 = None then ctx2 else err0);
                    (cb3, n2, recErr) = cb_recordResult isProbe err now2 cb2
                in (Returns recErr, cb3, [n1, n2]))"

definition cb_State :: "time \<Rightarrow> ConsecutiveBreaker \<Rightarrow> State" where
  "cb_State now cb =
     (if cb_state cb = StateOpen \<and> time_sub now (cb_openedAt cb) > cb_resetTimeout cb
      then StateHalfOpen else cb_state cb)"

definition cb_Failures :: "ConsecutiveBreaker \<Rightarrow> int" where
  "cb_Failures cb = cb_failures cb"

section \<open>The consecutive breaker implements the protocol\<close>

definition cb_view :: "ConsecutiveBreaker \<Rightarrow> bview" where
  "cb_view cb = \<lparr>v_state = cb_state cb, v_openedAt = cb_openedAt cb, v_inflight = cb_halfOpenInFlight cb\<rparr>"

definition cb_live :: "ConsecutiveBreaker \<Rightarrow> bool" where
  "cb_live cb \<longleftrightarrow> 0 < cb_maxFailures cb \<and> 0 < cb_resetTimeout cb \<and> 0 < cb_maxHalfOpen cb"

text \<open>
  The invariant of the counter: while the circuit is closed, it is below the threshold in force.
\<close>

definition cb_ok :: "ConsecutiveBreaker \<Rightarrow> bool" where
  "cb_ok cb \<longleftrightarrow> 0 \<le> cb_failures cb \<and>
     (cb_state cb = StateClosed \<longrightarrow> cb_failures cb < cb_maxFailures (cb_initDefaults cb))"

definition cb_rcd :: "bool \<Rightarrow> error option \<Rightarrow> time \<Rightarrow> ConsecutiveBreaker \<Rightarrow> ConsecutiveBreaker \<times> notify" where
  "cb_rcd isProbe err now cb = (case cb_recordResult isProbe err now cb of (cb1, n, e) \<Rightarrow> (cb1, n))"

lemmas cb_defs = cb_view_def cb_live_def cb_ok_def cb_initDefaults_def cb_transition_def
  cb_decrementHalfOpen_def cb_incFailures_def Let_def

lemma cb_initDefaults_live: "cb_live cb \<Longrightarrow> cb_initDefaults cb = cb"
  by (simp add: cb_live_def cb_initDefaults_def)

lemma cb_recordResult_err: "snd (snd (cb_recordResult p e now cb)) = e"
  by (auto simp: cb_recordResult_def Let_def split: option.splits prod.splits)

interpretation cbr: breaker cb_canExecute cb_rcd cb_onPanic cb_view
  "\<lambda>cb. cb_resetTimeout (cb_initDefaults cb)" "\<lambda>cb. cb_maxHalfOpen (cb_initDefaults cb)" cb_ok cb_live
proof (unfold_locales, goal_cases)
  case (1 b now b' a p n)
  then show ?case
    by (auto simp: cb_canExecute_def cb_defs spec_can_def second_def split: State.splits if_splits)
next
  case (2 b now b' a p n)
  then show ?case
    by (auto simp: cb_canExecute_def cb_defs second_def split: State.splits if_splits)
next
  case (3 b e now b' n)
  then show ?case
    by (auto simp: cb_rcd_def cb_recordResult_def cb_defs spec_probe_def is_canceled_def trip_def
        release_def split: option.splits if_splits)
next
  case (4 b e now b' n)
  then show ?case
    by (auto simp: cb_rcd_def cb_recordResult_def cb_defs trip_def split: option.splits if_splits)
next
  case (5 b p e now b' n)
  then show ?case
    by (auto simp: cb_rcd_def cb_recordResult_def cb_defs split: option.splits if_splits)
next
  case (6 b now b' n)
  then show ?case
    by (auto simp: cb_onPanic_def cb_defs trip_def release_def split: if_splits)
next
  case (7 b now b' n)
  then show ?case by (auto simp: cb_onPanic_def cb_defs trip_def split: if_splits)
next
  case (8 b p now b' n)
  then show ?case by (auto simp: cb_onPanic_def cb_defs split: if_splits)
next
  case (9 b)
  then show ?case by (simp add: cb_defs)
qed

section \<open>Properties of the consecutive breaker\<close>

abbreviation cb_step :: "ConsecutiveBreaker bsys \<Rightarrow> ConsecutiveBreaker bsys \<Rightarrow> bool" where
  "cb_step \<equiv> brk_step cb_canExecute cb_rcd cb_onPanic"

abbreviation cb_run :: "bevent list \<Rightarrow> ConsecutiveBreaker bsys \<Rightarrow> ConsecutiveBreaker bsys option" where
  "cb_run \<equiv> brk_run cb_canExecute cb_rcd cb_onPanic"

lemma fresh_NewConsecutiveBreaker: "cbr.fresh (NewConsecutiveBreaker mf rt opts)"
  by (simp add: cbr.fresh_def NewConsecutiveBreaker_def cb_defs)

lemma reachable_cb_ok:
  assumes "cb_step\<^sup>*\<^sup>* (start_sys t0 (NewConsecutiveBreaker mf rt opts)) s"
  shows "cb_ok (brk s)"
  using cbr.reachable_base [OF fresh_NewConsecutiveBreaker assms] by (simp add: cbr.base_inv_def)

lemma cb_view_sel [simp]:
  "v_state (cb_view cb) = cb_state cb" "v_openedAt (cb_view cb) = cb_openedAt cb"
  "v_inflight (cb_view cb) = cb_halfOpenInFlight cb"
  by (simp_all add: cb_view_def)

text \<open>
  C1: with the default of one half-open probe, in every state reachable by any interleaving of
  concurrent executions of a newly built breaker at most one probe is in flight, a probe is in
  flight only while the circuit is half-open, and every step moves the circuit along a
  documented edge (closed to open, open to half-open, half-open to open or closed) or not at all.
\<close>

theorem cb_single_probe_and_legal_edges:
  assumes "cb_maxHalfOpen (NewConsecutiveBreaker mf rt opts) = 1"
    and "cb_step\<^sup>*\<^sup>* (start_sys t0 (NewConsecutiveBreaker mf rt opts)) s"
    and "cb_step s s'"
  shows "probes s \<le> 1 \<and> (0 < probes s \<longrightarrow> cb_state (brk s) = StateHalfOpen) \<and>
         legal_edge (cb_state (brk s)) (cb_state (brk s'))"
proof -
  have m: "cb_maxHalfOpen (cb_initDefaults (NewConsecutiveBreaker mf rt opts)) = 1"
    using assms(1) by (simp add: cb_initDefaults_def)
  note F = fresh_NewConsecutiveBreaker [of mf rt opts]
  from cbr.reachable_single_probe [OF F m assms(2)] cbr.reachable_legal_edges [OF F m assms(2,3)]
  show ?thesis by simp
qed

theorem cb_single_probe_and_legal_edges_witness:
  "\<exists>s s'. cb_step s s' \<and> probes s = 1 \<and> cb_state (brk s) = StateHalfOpen \<and>
     legal_edge (cb_state (brk s)) (cb_state (brk s'))"
proof -
  let ?b = "NewConsecutiveBreaker 1 10 []"
  let ?evs = "[Admit 0, FinishNormal (Some (Err ''boom'')) 1, Admit 12]"
  define s where "s = the (cb_run ?evs (start_sys 0 ?b))"
  define s' where "s' = the (brk_exec cb_canExecute cb_rcd cb_onPanic (FinishProbe None 13) s)"
  have s: "cb_run ?evs (start_sys 0 ?b) = Some s" and p: "probes s = 1"
    and h: "cb_state (brk s) = StateHalfOpen"
    unfolding s_def by code_simp+
  have "brk_exec cb_canExecute cb_rcd cb_onPanic (FinishProbe None 13) s = Some s'"
    unfolding s'_def s_def by code_simp
  then have "cb_step s s'" by (rule brk_exec_step)
  moreover have "cb_maxHalfOpen ?b = 1" by code_simp
  ultimately show ?thesis
    using cb_single_probe_and_legal_edges [OF _ brk_run_steps [OF s]] p h by blast
qed

text \<open>
  For every configuration, in every reachable state of the concurrent system the failure
  counter is non-negative and, while the circuit is closed, below the threshold in force; the
  count of probes in flight lies between zero and the configured limit.
\<close>

theorem cb_counters_bounded:
  assumes "cb_step\<^sup>*\<^sup>* (start_sys t0 (NewConsecutiveBreaker mf rt opts)) s"
  shows "0 \<le> cb_failures (brk s) \<and>
         (cb_state (brk s) = StateClosed \<longrightarrow>
            cb_failures (brk s) < cb_maxFailures (cb_initDefaults (brk s))) \<and>
         0 \<le> cb_halfOpenInFlight (brk s) \<and>
         cb_halfOpenInFlight (brk s) \<le> cb_maxHalfOpen (cb_initDefaults (brk s))"
  using reachable_cb_ok [OF assms]
    cbr.reachable_inflight_bounded [OF fresh_NewConsecutiveBreaker assms]
  by (simp add: cb_ok_def)

theorem cb_counters_bounded_witness:
  "\<exists>s :: ConsecutiveBreaker bsys. cb_failures (brk s) = 2 \<and> cb_state (brk s) = StateClosed \<and>
     cb_failures (brk s) < cb_maxFailures (cb_initDefaults (brk s))"
proof -
  let ?evs = "[Admit 0, Admit 0, FinishNormal (Some (Err ''boom'')) 1, PanicNormal 2]"
  define s where "s = the (cb_run ?evs (start_sys 0 (NewConsecutiveBreaker 3 10 [])))"
  have s: "cb_run ?evs (start_sys 0 (NewConsecutiveBreaker 3 10 [])) = Some s"
    and "cb_failures (brk s) = 2" and "cb_state (brk s) = StateClosed"
    unfolding s_def by code_simp+
  with cb_counters_bounded [OF brk_run_steps [OF s]] show ?thesis by blast
qed

subsection \<open>Tripping, failing fast and recovering\<close>

text \<open>The run of consecutive failures at the end of a history; a cancellation neither extends nor ends it.\<close>

fun streak_upd :: "int \<Rightarrow> error option \<Rightarrow> int" where
  "streak_upd k None = 0"
| "streak_upd k (Some e) = (if errors_is e Canceled then k else k + 1)"

definition streak :: "error option list \<Rightarrow> int" where
  "streak es = foldl streak_upd 0 es"

text \<open>A sequence of calls, each the time of admission, the time of its end and the function's result.\<close>

fun cb_calls :: "(time \<times> time \<times> error option) list \<Rightarrow> ConsecutiveBreaker \<Rightarrow> ConsecutiveBreaker" where
  "cb_calls [] cb = cb"
| "cb_calls ((t1, t2, e) # cs) cb =
     cb_calls cs (fst (snd (cb_Execute None t1 (\<lambda>b. (b, Returns e)) None t2 cb)))"

lemma cb_calls_append: "cb_calls (cs @ ds) cb = cb_calls ds (cb_calls cs cb)"
  by (induction cs arbitrary: cb) auto

lemma cb_Execute_closed:
  assumes "cb_state cb = StateClosed" and "0 < cb_maxFailures cb"
  shows "let cb1 = fst (snd (cb_Execute None t1 (\<lambda>b. (b, Returns e)) None t2 cb)) in
         cb_failures cb1 = streak_upd (cb_failures cb) e \<and> cb_maxFailures cb1 = cb_maxFailures cb \<and>
         cb_state cb1 = (if e \<noteq> None \<and> \<not> is_canceled e \<and> cb_failures cb + 1 \<ge> cb_maxFailures cb
                         then StateOpen else StateClosed)"
  using assms
  by (auto simp: cb_Execute_def cb_canExecute_def cb_recordResult_def cb_incRequests_def cb_defs
      is_canceled_def split: option.splits if_splits)

lemma streak_snoc: "streak (es @ [e]) = streak_upd (streak es) e"
  by (simp add: streak_def)

lemma streak_upd_less:
  "k < m \<Longrightarrow> 0 < m \<Longrightarrow>
     streak_upd k e < m \<longleftrightarrow> \<not> (e \<noteq> None \<and> \<not> is_canceled e \<and> k + 1 \<ge> m)"
  by (cases e) (auto simp: is_canceled_def)

lemma cb_calls_streak:
  assumes "0 < mf"
    and "\<And>n. n < length cs \<Longrightarrow> streak (take n (map (\<lambda>(t1, t2, e). e) cs)) < mf"
  shows "let cb = cb_calls cs (NewConsecutiveBreaker mf rt opts); k = streak (map (\<lambda>(t1, t2, e). e) cs) in
         cb_failures cb = k \<and> cb_maxFailures cb = mf \<and>
         cb_state cb = (if k < mf then StateClosed else StateOpen)"
  using assms(2)
proof (induction cs rule: rev_induct)
  case Nil
  from assms(1) show ?case by (simp add: streak_def NewConsecutiveBreaker_def Let_def)
next
  case (snoc c cs)
  obtain t1 t2 e where c: "c = (t1, t2, e)" by (cases c)
  let ?es = "map (\<lambda>(t1, t2, e). e) cs"
  have lt: "streak ?es < mf" using snoc.prems [of "length cs"] by simp
  have "\<And>n. n < length cs \<Longrightarrow> streak (take n ?es) < mf"
    using snoc.prems by (metis append_take_drop_id length_append less_SucI length_append_singleton
        length_map map_append take_append diff_is_0_eq less_imp_le take_0 append_Nil2)
  from snoc.IH [OF this] lt have
    "cb_failures (cb_calls cs (NewConsecutiveBreaker mf rt opts)) = streak ?es"
    "cb_maxFailures (cb_calls cs (NewConsecutiveBreaker mf rt opts)) = mf"
    "cb_state (cb_calls cs (NewConsecutiveBreaker mf rt opts)) = StateClosed"
    by (simp_all add: Let_def)
  with cb_Execute_closed [of "cb_calls cs (NewConsecutiveBreaker mf rt opts)" t1 e t2] assms(1)
    streak_upd_less [OF lt assms(1), of e]
  show ?case by (simp add: c cb_calls_append streak_snoc Let_def)
qed

text \<open>
  C2: the breaker trips, for the first time, exactly when the run of consecutive failures reaches the
  threshold. For any history of calls completed one after the other, without panics, whose proper
  prefixes stay below the threshold (so up to and including the first trip), the counter is
  the length of the current run (cancelled calls not counted, a success resets it), and the
  circuit is closed while the run is below the threshold and open when it has reached it.
\<close>

theorem cb_trips_exactly_at_threshold:
  assumes "0 < mf"
    and "\<And>n. n < length cs \<Longrightarrow> streak (take n (map (\<lambda>(t1, t2, e). e) cs)) < mf"
  shows "let cb = cb_calls cs (NewConsecutiveBreaker mf rt opts); k = streak (map (\<lambda>(t1, t2, e). e) cs) in
         cb_failures cb = k \<and> cb_state cb = (if k < mf then StateClosed else StateOpen)"
  using cb_calls_streak [OF assms] by (simp add: Let_def)

theorem cb_trips_exactly_at_threshold_witness:
  "cb_state (cb_calls [(0, 1, Some (Err ''a'')), (2, 3, Some Canceled), (4, 5, Some (Err ''b''))]
      (NewConsecutiveBreaker 2 10 [])) = StateOpen"
proof -
  let ?cs = "[(0, 1, Some (Err ''a'')), (2, 3, Some Canceled), (4, 5, Some (Err ''b''))] :: (time \<times> time \<times> error option) list"
  have "streak (take n (map (\<lambda>(t1, t2, e). e) ?cs)) < 2" if "n < length ?cs" for n
  proof -
    from that have "n = 0 \<or> n = 1 \<or> n = 2" by auto
    then show ?thesis by (auto simp: streak_def)
  qed
  from cb_trips_exactly_at_threshold [of 2 ?cs 10 "[]", OF _ this] show ?thesis
    by (simp add: Let_def streak_def)
qed

text \<open>
  An open circuit fails fast. While no more than the reset timeout has passed since it
  opened, \<open>Execute\<close> returns \<open>ErrCircuitOpen\<close> whatever the protected function would do, leaves the
  breaker as it was (defaults apart) and notifies nobody; a context that has already ended is
  returned as it is, without touching the breaker.
\<close>

theorem cb_open_fails_fast:
  assumes "cb_state cb = StateOpen"
    and "time_sub now (cb_openedAt cb) \<le> cb_resetTimeout (cb_initDefaults cb)"
  shows "cb_Execute None now req ctx2 now2 cb = (Returns (Some ErrCircuitOpen), cb_initDefaults cb, [None]) \<and>
         cb_Execute (Some e) now req ctx2 now2 cb = (Returns (Some e), cb, [])"
  using assms by (auto simp: cb_Execute_def cb_canExecute_def cb_initDefaults_def Let_def)

theorem cb_open_fails_fast_witness:
  "\<exists>cb. cb_state cb = StateOpen \<and>
     cb_Execute None 11 (\<lambda>b. (b, Panics)) None 12 cb = (Returns (Some ErrCircuitOpen), cb_initDefaults cb, [None])"
proof -
  define cb where "cb = cb_calls [(0, 1, Some (Err ''a''))] (NewConsecutiveBreaker 1 10 [])"
  have h: "cb_state cb = StateOpen"
    and t: "time_sub 11 (cb_openedAt cb) \<le> cb_resetTimeout (cb_initDefaults cb)"
    unfolding cb_def by code_simp+
  from h cb_open_fails_fast [OF h t] show ?thesis by blast
qed

text \<open>
  An open circuit recovers. Once more than the reset timeout has passed, the next \<open>Execute\<close>
  runs the function as a probe: its success closes the circuit and clears the counter, and its
  failure (an error that is not a cancellation) opens the circuit again at the time of the failure.
\<close>

theorem cb_probe_decides:
  assumes "cb_state cb = StateOpen"
    and "time_sub now1 (cb_openedAt cb) > cb_resetTimeout (cb_initDefaults cb)"
  shows "(let (out, cb1, ns) = cb_Execute None now1 (\<lambda>b. (b, Returns None)) None now2 cb in
          out = Returns None \<and> cb_state cb1 = StateClosed \<and> cb_failures cb1 = 0 \<and>
          cb_halfOpenInFlight cb1 = 0) \<and>
         (\<not> errors_is e Canceled \<longrightarrow>
          (let (out, cb1, ns) = cb_Execute None now1 (\<lambda>b. (b, Returns (Some e))) None now2 cb in
           out = Returns (Some e) \<and> cb_state cb1 = StateOpen \<and> cb_openedAt cb1 = now2 \<and>
           cb_halfOpenInFlight cb1 = 0))"
  using assms
  by (auto simp: cb_Execute_def cb_canExecute_def cb_recordResult_def cb_incRequests_def cb_defs
      split: if_splits)

theorem cb_probe_decides_witness:
  "\<exists>cb. cb_state cb = StateOpen \<and>
     (let (out, cb1, ns) = cb_Execute None 12 (\<lambda>b. (b, Returns None)) None 13 cb in
      out = Returns None \<and> cb_state cb1 = StateClosed)"
proof -
  define cb where "cb = cb_calls [(0, 1, Some (Err ''a''))] (NewConsecutiveBreaker 1 10 [])"
  have h: "cb_state cb = StateOpen"
    and t: "time_sub 12 (cb_openedAt cb) > cb_resetTimeout (cb_initDefaults cb)"
    unfolding cb_def by code_simp+
  from h cb_probe_decides [OF h t, of 13] show ?thesis by (auto simp: case_prod_beta Let_def)
qed

subsection \<open>More than one probe\<close>

text \<open>
  With a limit of two concurrent probes the protocol loses track of them. A run exists in
  which, after one of two probes has failed and the circuit has reopened, three probes are in
  flight at once although the limit is two; and one in which the success of a probe left over
  from the earlier half-open period closes the open circuit one nanosecond after it opened,
  although the reset timeout is ten.
\<close>

theorem cb_stale_probes_escape_the_limit:
  "(\<exists>s. cb_step\<^sup>*\<^sup>* (start_sys 0 (NewConsecutiveBreaker 1 10 [WithHalfOpenProbes 2])) s \<and>
        cb_maxHalfOpen (brk s) = 2 \<and> probes s = 3) \<and>
   (\<exists>s s'. cb_step\<^sup>*\<^sup>* (start_sys 0 (NewConsecutiveBreaker 1 10 [WithHalfOpenProbes 2])) s \<and>
        cb_step s s' \<and> cb_state (brk s) = StateOpen \<and> cb_state (brk s') = StateClosed \<and>
        clk s' - cb_openedAt (brk s) = 1)"
proof -
  let ?s0 = "start_sys 0 (NewConsecutiveBreaker 1 10 [WithHalfOpenProbes 2])"
  let ?evs = "[Admit 0, FinishNormal (Some (Err ''boom'')) 0, Admit 11, Admit 11,
     FinishProbe (Some (Err ''boom'')) 12]"
  define s1 where "s1 = the (cb_run (?evs @ [Admit 23, Admit 23]) ?s0)"
  define s2 where "s2 = the (cb_run ?evs ?s0)"
  define s3 where "s3 = the (brk_exec cb_canExecute cb_rcd cb_onPanic (FinishProbe None 13) s2)"
  have 1: "cb_run (?evs @ [Admit 23, Admit 23]) ?s0 = Some s1"
    and "cb_maxHalfOpen (brk s1) = 2" and "probes s1 = 3"
    unfolding s1_def by code_simp+
  moreover have 2: "cb_run ?evs ?s0 = Some s2" and "cb_state (brk s2) = StateOpen"
    unfolding s2_def by code_simp+
  moreover have 3: "brk_exec cb_canExecute cb_rcd cb_onPanic (FinishProbe None 13) s2 = Some s3"
    and "cb_state (brk s3) = StateClosed" and "clk s3 - cb_openedAt (brk s2) = 1"
    unfolding s3_def s2_def by code_simp+
  ultimately show ?thesis
    using brk_run_steps [OF 1] brk_run_steps [OF 2] brk_exec_step [OF 3] by blast
qed

end
