(* ===== verification/Float64.thy ===== *)
theory Float64
  imports Go_Prelude "HOL-Library.Log_Nat"
begin

text \<open>
  IEEE 754 double precision as the code uses it: values are exact rationals, and \<open>fl64\<close> rounds the
  exact result of an operation to the nearest number with a 53-bit significand, ties to even.
  The exponent range is not bounded: every operand in the library is an \<open>int64\<close>, a quotient of two
  of them, a configured ratio in (0, 1] or a product with at most \<open>2^30\<close>, so neither overflow nor
  a subnormal result can occur. The lemmas give the three facts the components rely on: rounding is
  monotone, exact on integers up to \<open>2^53\<close>, and has a relative error of at most \<open>2^-53\<close>.
\<close>

definition log2_floor :: "rat \<Rightarrow> int" where
  "log2_floor x =
     (let (n, d) = quotient_of x; k = bitlen n - bitlen d in if 2 powi k \<le> x then k else k - 1)"

definition round_even :: "rat \<Rightarrow> int" where
  "round_even q =
     (let f = \<lfloor>q\<rfloor>; r = q - of_int f in
      if r < 1 / 2 then f else if r > 1 / 2 then f + 1 else if even f then f else f + 1)"

definition fl64 :: "rat \<Rightarrow> rat" where
  "fl64 x =
     (if x = 0 then 0
      else let e = log2_floor \<bar>x\<bar> - 52
           in sgn x * of_int (round_even (\<bar>x\<bar> / 2 powi e)) * 2 powi e)"

text \<open>\<open>float64(n)\<close> for an integer, the division of two floats, and \<open>int(x)\<close> (truncation).\<close>

definition float64_of :: "int \<Rightarrow> rat" where
  "float64_of n = fl64 (of_int n)"

definition fdiv :: "rat \<Rightarrow> rat \<Rightarrow> rat" where
  "fdiv x y = fl64 (x / y)"

definition fmul :: "rat \<Rightarrow> rat \<Rightarrow> rat" where
  "fmul x y = fl64 (x * y)"

definition fadd :: "rat \<Rightarrow> rat \<Rightarrow> rat" where
  "fadd x y = fl64 (x + y)"

definition trunc_int :: "rat \<Rightarrow> int" where
  "trunc_int x = (if 0 \<le> x then \<lfloor>x\<rfloor> else - \<lfloor>- x\<rfloor>)"

section \<open>The exponent\<close>

lemma bitlen_bounds_rat:
  assumes "0 < n"
  shows "(2 :: rat) powi (bitlen n - 1) \<le> of_int n \<and> of_int n < (2 :: rat) powi bitlen n"
proof -
  from assms have b: "2 ^ nat (bitlen n - 1) \<le> n" "n < 2 ^ nat (bitlen n)" "0 < bitlen n"
    using bitlen_bounds [OF assms] bitlen_le_iff_power [of n 0] assms by auto
  have "(2 :: rat) ^ nat (bitlen n - 1) \<le> of_int n"
    using b(1) by (metis of_int_le_iff of_int_numeral of_int_power)
  moreover have "of_int n < (2 :: rat) ^ nat (bitlen n)"
    using b(2) by (metis of_int_less_iff of_int_numeral of_int_power)
  ultimately show ?thesis using b(3) by (simp add: power_int_def)
qed

lemma log2_floor_bounds:
  assumes "0 < x"
  shows "2 powi log2_floor x \<le> x \<and> x < 2 powi (log2_floor x + 1)"
proof -
  obtain n d where q: "quotient_of x = (n, d)" by fastforce
  have d: "0 < d" using quotient_of_denom_pos [OF q] .
  have x: "x = of_int n / of_int d" using quotient_of_div [OF q] .
  with assms d have n: "0 < n" by (simp add: zero_less_divide_iff)
  let ?k = "bitlen n - bitlen d"
  note bn = bitlen_bounds_rat [OF n] and bd = bitlen_bounds_rat [OF d]
  have "x < 2 powi bitlen n / 2 powi (bitlen d - 1)"
    unfolding x using bn bd d n
    by (intro frac_less) (auto intro: order_trans)
  also have "\<dots> = (2 :: rat) powi (?k + 1)"
    by (simp add: power_int_diff power_int_add)
  finally have hi: "x < 2 powi (?k + 1)" .
  have "2 powi (?k - 1) = (2 :: rat) powi (bitlen n - 1) / 2 powi bitlen d"
    by (simp add: power_int_diff)
  also have "\<dots> \<le> x"
    unfolding x using bn bd d n by (intro frac_le) auto
  finally have lo: "2 powi (?k - 1) \<le> x" .
  show ?thesis using hi lo by (simp add: log2_floor_def q Let_def)
qed

lemma log2_floor_unique:
  assumes "0 < x" and "2 powi k \<le> x" and "x < 2 powi (k + 1)"
  shows "log2_floor x = k"
proof -
  let ?l = "log2_floor x"
  have "(2 :: rat) powi ?l < 2 powi (k + 1)" "(2 :: rat) powi k < 2 powi (?l + 1)"
    using log2_floor_bounds [OF assms(1)] assms(2,3) by linarith+
  then have "?l < k + 1" "k < ?l + 1"
    by (meson one_less_numeral_iff power_int_increasing not_less semiring_norm(76)
        less_imp_le one_le_numeral linorder_not_le)+
  then show ?thesis by linarith
qed

lemma log2_floor_mono:
  assumes "0 < x" and "x \<le> y"
  shows "log2_floor x \<le> log2_floor y"
proof (rule ccontr)
  assume "\<not> ?thesis"
  then have "log2_floor y + 1 \<le> log2_floor x" by simp
  then have "(2 :: rat) powi (log2_floor y + 1) \<le> 2 powi log2_floor x"
    by (intro power_int_increasing) simp_all
  with log2_floor_bounds [of x] log2_floor_bounds [of y] assms show False by simp
qed

section \<open>Rounding to an integer\<close>

lemma round_even_of_int [simp]: "round_even (of_int n) = n"
  by (simp add: round_even_def)

lemma round_even_bounds: "of_int (round_even q) \<le> q + 1 / 2 \<and> q - 1 / 2 \<le> of_int (round_even q)"
  unfolding round_even_def Let_def
  by (auto simp: not_less) linarith+

lemma round_even_floor: "round_even q = \<lfloor>q\<rfloor> \<or> round_even q = \<lfloor>q\<rfloor> + 1"
  by (simp add: round_even_def Let_def)

lemma round_even_mono:
  assumes "p \<le> q"
  shows "round_even p \<le> round_even q"
proof (cases "\<lfloor>p\<rfloor> = \<lfloor>q\<rfloor>")
  case True
  with assms show ?thesis by (auto simp: round_even_def Let_def)
next
  case False
  with floor_mono [OF assms] have "\<lfloor>p\<rfloor> + 1 \<le> \<lfloor>q\<rfloor>" by simp
  with round_even_floor [of p] round_even_floor [of q] show ?thesis by linarith
qed

section \<open>Rounding to double precision\<close>

lemma fl64_0 [simp]: "fl64 0 = 0"
  by (simp add: fl64_def)

lemma fl64_pos:
  "0 < x \<Longrightarrow> fl64 x = of_int (round_even (x / 2 powi (log2_floor x - 52))) * 2 powi (log2_floor x - 52)"
  by (simp add: fl64_def Let_def)

lemma powi_cancel: "(2 :: rat) powi a / 2 powi b = 2 powi (a - b)"
  by (simp add: power_int_diff)

text \<open>The binade of the result: rounding stays between the powers of two around the argument.\<close>

lemma fl64_binade:
  assumes "0 < x"
  shows "2 powi log2_floor x \<le> fl64 x \<and> fl64 x \<le> 2 powi (log2_floor x + 1)"
proof -
  let ?l = "log2_floor x" and ?e = "log2_floor x - 52"
  note b = log2_floor_bounds [OF assms]
  have p: "0 < (2 :: rat) powi ?e" by simp
  have "of_int (2 ^ 52) = (2 :: rat) powi ?l / 2 powi ?e"
    by (simp add: powi_cancel)
  also have "\<dots> \<le> x / 2 powi ?e" using b p by (simp add: divide_right_mono)
  finally have lo: "2 ^ 52 \<le> round_even (x / 2 powi ?e)"
    using round_even_mono by (metis round_even_of_int)
  have "x / 2 powi ?e \<le> 2 powi (?l + 1) / 2 powi ?e"
    using b p by (simp add: divide_right_mono)
  also have "\<dots> = of_int (2 ^ 53)" by (simp add: powi_cancel)
  finally have hi: "round_even (x / 2 powi ?e) \<le> 2 ^ 53"
    using round_even_mono by (metis round_even_of_int)
  have "2 powi ?l = of_int (2 ^ 52) * (2 :: rat) powi ?e"
    by (simp add: power_int_diff)
  moreover have "2 powi (?l + 1) = of_int (2 ^ 53) * (2 :: rat) powi ?e"
    by (simp add: power_int_diff power_int_add)
  ultimately show ?thesis
    using lo hi p unfolding fl64_pos [OF assms]
    by (metis mult_right_mono less_imp_le of_int_le_iff)
qed

lemma fl64_nonneg [simp]: "0 \<le> x \<Longrightarrow> 0 \<le> fl64 x"
  using fl64_binade [of x] by (cases "x = 0") (auto intro: order_trans [rotated])

lemma fl64_mono:
  assumes "0 \<le> x" and "x \<le> y"
  shows "fl64 x \<le> fl64 y"
proof (cases "x = 0")
  case True
  with assms show ?thesis by simp
next
  case False
  with assms have x: "0 < x" and y: "0 < y" by auto
  show ?thesis
  proof (cases "log2_floor x = log2_floor y")
    case True
    have "x / 2 powi (log2_floor y - 52) \<le> y / 2 powi (log2_floor y - 52)"
      using assms by (simp add: divide_right_mono)
    then show ?thesis
      unfolding fl64_pos [OF x] fl64_pos [OF y] True
      by (intro mult_right_mono) (simp_all add: round_even_mono)
  next
    case False
    with log2_floor_mono [OF x assms(2)] have "log2_floor x + 1 \<le> log2_floor y" by simp
    then have "(2 :: rat) powi (log2_floor x + 1) \<le> 2 powi log2_floor y"
      by (intro power_int_increasing) simp_all
    with fl64_binade [OF x] fl64_binade [OF y] show ?thesis by linarith
  qed
qed

lemma fl64_half_ulp:
  assumes "0 < x"
  shows "\<bar>fl64 x - x\<bar> \<le> 2 powi (log2_floor x - 52) / 2"
proof -
  let ?e = "log2_floor x - 52"
  let ?q = "x / 2 powi ?e"
  have p: "0 < (2 :: rat) powi ?e" by simp
  have "fl64 x - x = (of_int (round_even ?q) - ?q) * 2 powi ?e"
    by (simp add: fl64_pos [OF assms] left_diff_distrib)
  moreover have "\<bar>of_int (round_even ?q) - ?q\<bar> \<le> 1 / 2"
    using round_even_bounds [of ?q] unfolding abs_le_iff by linarith
  ultimately show ?thesis
    using p mult_right_mono [of "\<bar>of_int (round_even ?q) - ?q\<bar>" "1 / 2" "2 powi ?e"]
    by (simp add: abs_mult)
qed

lemma fl64_error:
  assumes "0 \<le> x"
  shows "\<bar>fl64 x - x\<bar> \<le> x / 2 ^ 53"
proof (cases "x = 0")
  case False
  with assms have x: "0 < x" by simp
  have "2 powi (log2_floor x - 52) / 2 = 2 powi log2_floor x / (2 :: rat) ^ 53"
    by (simp add: power_int_diff)
  also have "\<dots> \<le> x / 2 ^ 53"
    using log2_floor_bounds [OF x] by (simp add: divide_right_mono)
  finally show ?thesis using fl64_half_ulp [OF x] by linarith
qed simp

text \<open>Integers up to \<open>2^53\<close> are represented exactly.\<close>

lemma fl64_scaled_int:
  assumes "0 < x" and "x / 2 powi (log2_floor x - 52) = of_int m"
  shows "fl64 x = x"
proof -
  have "fl64 x = of_int m * 2 powi (log2_floor x - 52)"
    unfolding fl64_pos [OF assms(1)] assms(2) by simp
  also have "\<dots> = x" unfolding assms(2) [symmetric] by simp
  finally show ?thesis .
qed

lemma fl64_nat:
  assumes "0 \<le> n" and "n \<le> 2 ^ 53"
  shows "fl64 (of_int n) = of_int n"
proof (cases "n = 0")
  case False
  with assms have n: "0 < (of_int n :: rat)" by simp
  let ?l = "log2_floor (of_int n)"
  have l0: "0 \<le> ?l"
  proof (rule ccontr)
    assume "\<not> ?thesis"
    then have "(2 :: rat) powi (?l + 1) \<le> 2 powi 0" by (intro power_int_increasing) auto
    with log2_floor_bounds [OF n] assms False show False by auto
  qed
  show ?thesis
  proof (cases "?l \<le> 52")
    case True
    have "(of_int n :: rat) / 2 powi (?l - 52) = of_int n * 2 powi (52 - ?l)"
      by (simp add: field_simps power_int_diff)
    also have "\<dots> = of_int (n * 2 ^ nat (52 - ?l))"
      using True by (simp add: power_int_def)
    finally show ?thesis using fl64_scaled_int [OF n] by blast
  next
    case False
    then have "(2 :: rat) powi 53 \<le> 2 powi ?l" by (intro power_int_increasing) auto
    with log2_floor_bounds [OF n] have "(2 :: rat) ^ 53 \<le> of_int n" by simp
    then have "2 ^ 53 \<le> n" by (metis of_int_le_iff of_int_numeral of_int_power)
    with assms have e: "(of_int n :: rat) = 2 powi 53" by simp
    moreover have "log2_floor (2 powi 53) = 53" by (rule log2_floor_unique) simp_all
    ultimately show ?thesis by (simp add: fl64_pos power_int_diff) (simp add: round_even_def)
  qed
qed simp

lemma float64_of_exact: "0 \<le> n \<Longrightarrow> n \<le> 2 ^ 53 \<Longrightarrow> float64_of n = of_int n"
  by (simp add: float64_of_def fl64_nat)

lemma float64_of_mono: "0 \<le> m \<Longrightarrow> m \<le> n \<Longrightarrow> float64_of m \<le> float64_of n"
  by (simp add: float64_of_def fl64_mono)

lemma float64_of_nonneg [simp]: "0 \<le> n \<Longrightarrow> 0 \<le> float64_of n"
  by (simp add: float64_of_def)

lemma fl64_1 [simp]: "fl64 1 = 1"
  using fl64_nat [of 1] by simp

lemma fl64_ge_int: "0 \<le> n \<Longrightarrow> n \<le> 2 ^ 53 \<Longrightarrow> of_int n \<le> x \<Longrightarrow> of_int n \<le> fl64 x"
  using fl64_mono [of "of_int n" x] fl64_nat [of n] by simp

lemma fl64_le_int: "n \<le> 2 ^ 53 \<Longrightarrow> 0 \<le> x \<Longrightarrow> x \<le> of_int n \<Longrightarrow> fl64 x \<le> of_int n"
  using fl64_mono [of x "of_int n"] fl64_nat [of n] by (metis of_int_0_le_iff order_trans)

text \<open>
  Adding an integer before rounding adds at least that integer to the integer part of the result,
  for sums below \<open>2^52\<close>: where \<open>x\<close> is rounded up to an integer, so is \<open>x + n\<close>.
\<close>

lemma round_even_ge:
  assumes "of_int m - 1 / 2 \<le> q" and "of_int m - 1 / 2 = q \<Longrightarrow> even m"
  shows "m \<le> round_even q"
proof (cases "of_int m \<le> q")
  case True
  then show ?thesis using round_even_mono [OF True] by simp
next
  case False
  then have f: "\<lfloor>q\<rfloor> = m - 1" using assms(1) by linarith
  have "1 / 2 \<le> q - of_int \<lfloor>q\<rfloor>" unfolding f using assms(1) by simp
  moreover have "even m" if "q - of_int \<lfloor>q\<rfloor> = 1 / 2" using assms(2) that unfolding f by simp
  ultimately show ?thesis unfolding round_even_def Let_def f by fastforce
qed

lemma powi_neg: "f < 0 \<Longrightarrow> (2 :: rat) powi f * 2 ^ nat (- f) = 1"
  by (simp add: power_int_def flip: power_mult_distrib)

text \<open>The integer \<open>k\<close> lies within half a unit in the last place above \<open>y\<close>: rounding reaches it.\<close>

lemma fl64_reaches:
  assumes "0 < y" and "log2_floor y < 52" and "of_int k - y \<le> 2 powi (log2_floor y - 52) / 2"
  shows "of_int k \<le> fl64 y"
proof -
  let ?f = "log2_floor y - 52"
  let ?K = "k * 2 ^ nat (- ?f)"
  have f: "?f < 0" using assms(2) by simp
  have p: "0 < (2 :: rat) powi ?f" by simp
  have K: "of_int ?K * (2 :: rat) powi ?f = of_int k"
    using powi_neg [OF f] by (simp add: mult.assoc mult.commute)
  then have "of_int ?K = of_int k / (2 :: rat) powi ?f"
    using p by (metis nonzero_eq_divide_eq less_irrefl)
  then have "of_int ?K - y / 2 powi ?f = (of_int k - y) / 2 powi ?f"
    by (simp only: diff_divide_distrib)
  also have "\<dots> \<le> 1 / 2" using assms(3) p by (simp add: divide_le_eq)
  finally have a: "of_int ?K - 1 / 2 \<le> y / 2 powi ?f" by linarith
  have "even ?K" using f by (simp add: even_mult_iff)
  from round_even_ge [OF a this] have "of_int ?K * 2 powi ?f \<le> fl64 y"
    unfolding fl64_pos [OF assms(1)] using p by (intro mult_right_mono) (simp_all only: of_int_le_iff less_imp_le)
  then show ?thesis unfolding K .
qed

lemma fl64_floor_add:
  assumes "0 \<le> x" and "0 \<le> n" and "x + of_int n < 2 ^ 52"
  shows "\<lfloor>fl64 x\<rfloor> + n \<le> \<lfloor>fl64 (x + of_int n)\<rfloor>"
proof (cases "x = 0")
  case True
  with assms(3) have "(of_int n :: rat) < of_int (2 ^ 52)" by simp
  then have "n \<le> 2 ^ 53" unfolding of_int_less_iff by simp
  with True assms(2) show ?thesis by (simp add: fl64_nat)
next
  case False
  let ?m = "\<lfloor>fl64 x\<rfloor>" and ?y = "x + of_int n"
  have x: "0 < x" "0 < ?y" using False assms by auto
  have x52: "x < 2 ^ 52" using assms by (meson le_add_same_cancel1 of_int_0_le_iff order_le_less_trans)
  have "fl64 ?y \<le> of_int (2 ^ 52)" using assms x by (intro fl64_le_int) simp_all
  have fx: "fl64 x \<le> of_int (2 ^ 52)" using x52 x by (intro fl64_le_int) simp_all
  then have m52: "?m \<le> 2 ^ 52" by (simp add: floor_le_iff)
  have m0: "0 \<le> ?m" using fl64_nonneg [OF assms(1)] by simp
  have "of_int (?m + n) \<le> fl64 ?y"
  proof (cases "of_int ?m \<le> x")
    case True
    then have "of_int (?m + n) \<le> ?y" by simp
    moreover from this assms(3) have "(of_int (?m + n) :: rat) < of_int (2 ^ 52)" by simp
    then have "?m + n \<le> 2 ^ 53" unfolding of_int_less_iff by simp
    ultimately show ?thesis using m0 assms(2) by (intro fl64_ge_int) auto
  next
    case False
    have lt: "x < of_int ?m" using False by simp
    have "fl64 x \<le> of_int ?m" using lt m52 x by (intro fl64_le_int) auto
    then have eq: "fl64 x = of_int ?m" by linarith
    have l: "log2_floor ?y < 52"
    proof (rule ccontr)
      assume "\<not> ?thesis"
      then have "(2 :: rat) powi 52 \<le> 2 powi log2_floor ?y" by (intro power_int_increasing) auto
      with log2_floor_bounds [OF x(2)] assms(3) show False by simp
    qed
    have "(2 :: rat) powi (log2_floor x - 52) \<le> 2 powi (log2_floor ?y - 52)"
      using log2_floor_mono [OF x(1), of ?y] assms(2) by (intro power_int_increasing) auto
    moreover have "of_int (?m + n) - ?y = fl64 x - x" using eq by simp
    ultimately have "of_int (?m + n) - ?y \<le> 2 powi (log2_floor ?y - 52) / 2"
      using fl64_half_ulp [OF x(1)] by linarith
    from fl64_reaches [OF x(2) l this] show ?thesis .
  qed
  then show ?thesis by (simp add: le_floor_iff)
qed

section \<open>Evaluation on integers\<close>

text \<open>
  The same functions computed with integer shifts and divisions only, for evaluating concrete runs.
\<close>

lemma powi_le_frac:
  assumes "0 < d"
  shows "(2 :: rat) powi k \<le> of_int n / of_int d \<longleftrightarrow>
         (if 0 \<le> k then d * 2 ^ nat k \<le> n else d \<le> n * 2 ^ nat (- k))"
proof (cases "0 \<le> k")
  case True
  have "(2 :: rat) powi k \<le> of_int n / of_int d \<longleftrightarrow> of_int (d * 2 ^ nat k) \<le> (of_int n :: rat)"
    using assms True by (simp add: power_int_def pos_le_divide_eq mult.commute)
  with True show ?thesis by (simp only: of_int_le_iff if_True)
next
  case False
  have "(2 :: rat) powi k \<le> of_int n / of_int d \<longleftrightarrow> of_int d \<le> (of_int (n * 2 ^ nat (- k)) :: rat)"
    using assms False by (simp add: power_int_def field_simps)
  with False show ?thesis by (simp only: of_int_le_iff if_False)
qed

lemma log2_floor_code [code]:
  "log2_floor x =
     (let (n, d) = quotient_of x; k = bitlen n - bitlen d in
      if (if 0 \<le> k then d * 2 ^ nat k \<le> n else d \<le> n * 2 ^ nat (- k)) then k else k - 1)"
proof -
  obtain n d where q: "quotient_of x = (n, d)" by fastforce
  note P = powi_le_frac [OF quotient_of_denom_pos [OF q], of _ n, folded quotient_of_div [OF q]]
  show ?thesis unfolding log2_floor_def q Let_def prod.case P ..
qed

definition round_frac :: "int \<Rightarrow> int \<Rightarrow> int" where
  "round_frac p q =
     (let f = p div q; r = p mod q in
      if 2 * r < q then f else if 2 * r > q then f + 1 else if even f then f else f + 1)"

lemma round_even_frac:
  assumes "0 < q"
  shows "round_even (of_int p / of_int q) = round_frac p q"
proof -
  have f: "\<lfloor>of_int p / of_int q :: rat\<rfloor> = p div q" by (simp add: floor_divide_of_int_eq)
  have r: "of_int p / of_int q - of_int (p div q) = (of_int (p mod q) / of_int q :: rat)"
    using assms by (simp add: field_simps flip: of_int_mult of_int_add)
  have "of_int (p mod q) / of_int q < (1 / 2 :: rat) \<longleftrightarrow> of_int (2 * (p mod q)) < (of_int q :: rat)"
    "of_int (p mod q) / of_int q > (1 / 2 :: rat) \<longleftrightarrow> of_int (2 * (p mod q)) > (of_int q :: rat)"
    using assms by (simp_all add: field_simps)
  then show ?thesis
    unfolding round_even_def round_frac_def f r Let_def by (simp only: of_int_less_iff)
qed

lemma fl64_code [code]:
  "fl64 x =
     (if x = 0 then 0
      else
        let (n, d) = quotient_of \<bar>x\<bar>; e = log2_floor \<bar>x\<bar> - 52 in
        if 0 \<le> e then sgn x * of_int (round_frac n (d * 2 ^ nat e) * 2 ^ nat e)
        else sgn x * Fract (round_frac (n * 2 ^ nat (- e)) d) (2 ^ nat (- e)))"
proof (cases "x = 0")
  case False
  obtain n d where q: "quotient_of \<bar>x\<bar> = (n, d)" by fastforce
  have d: "0 < d" by (rule quotient_of_denom_pos [OF q])
  have x: "\<bar>x\<bar> = of_int n / of_int d" by (rule quotient_of_div [OF q])
  define e where "e = log2_floor \<bar>x\<bar> - 52"
  show ?thesis
  proof (cases "0 \<le> e")
    case True
    have "\<bar>x\<bar> / 2 powi e = of_int n / of_int (d * 2 ^ nat e)"
      unfolding x using True by (simp add: power_int_def)
    moreover have "0 < d * 2 ^ nat e" using d by simp
    ultimately have "round_even (\<bar>x\<bar> / 2 powi e) = round_frac n (d * 2 ^ nat e)"
      by (simp only: round_even_frac)
    with False True show ?thesis by (simp add: fl64_def q Let_def e_def [symmetric] power_int_def)
  next
    case neg: False
    have "\<bar>x\<bar> / 2 powi e = of_int (n * 2 ^ nat (- e)) / of_int d"
      unfolding x using neg by (simp add: power_int_def field_simps)
    then have "round_even (\<bar>x\<bar> / 2 powi e) = round_frac (n * 2 ^ nat (- e)) d"
      using d by (simp only: round_even_frac)
    with False neg show ?thesis
      by (simp add: fl64_def q Let_def e_def [symmetric] power_int_def Fract_of_int_quotient field_simps)
  qed
qed (simp add: fl64_def)

end
