(* ===== verification/Breaker_Ratio.thy ===== *)
theory Breaker_Ratio
  imports Breaker Float64
begin

text \<open>
  \<open>RatioBreaker\<close> (\<open>src/circuitbreaker/ratio.go\<close>): the breaker that trips when the share of failed
  requests in a rolling time window reaches a ratio. The records are the slice of the code, oldest
  first; the ratio is computed in double precision. Like the consecutive breaker it implements the
  half-open protocol, by an interpretation of the locale \<open>breaker\<close>.
\<close>

record reqRecord =
  r_ts :: time
  r_failed :: bool

record RatioBreaker =
  rb_state :: State
  rb_failureRatio :: rat
  rb_minRequests :: int
  rb_window :: duration
  rb_resetTimeout :: duration
  rb_openedAt :: time
  rb_halfOpenInFlight :: int
  rb_maxHalfOpen :: int
  rb_records :: "reqRecord list"
  rb_failureCount :: int
  rb_onStateChange :: bool
  rb_metrics :: cb_Metrics

definition NewRatioBreaker ::
  "rat \<Rightarrow> int \<Rightarrow> duration \<Rightarrow> duration \<Rightarrow> (options \<Rightarrow> options) list \<Rightarrow> RatioBreaker" where
  "NewRatioBreaker failureRatio minRequests window resetTimeout opts =
     (let o1 = foldl (\<lambda>o1 opt. opt o1) no_options opts
      in \<lparr>rb_state = StateClosed,
          rb_failureRatio = (if failureRatio \<le> 0 \<or> failureRatio > 1 then 1 / 2 else failureRatio),
          rb_minRequests = (if minRequests \<le> 0 then 10 else minRequests),
          rb_window = (if window \<le> 0 then 10 * second else window),
          rb_resetTimeout = (if resetTimeout \<le> 0 then 30 * second else resetTimeout),
          rb_openedAt = zero_time, rb_halfOpenInFlight = 0,
          rb_maxHalfOpen = (if o_maxHalfOpen o1 \<le> 0 then 1 else o_maxHalfOpen o1),
          rb_records = [], rb_failureCount = 0, rb_onStateChange = o_onStateChange o1,
          rb_metrics = \<lparr>mRequests = 0, mFailures = 0, mState = StateClosed\<rparr>\<rparr>)"

text \<open>
  The arguments of \<open>make([]reqRecord, 0, minRequests*2)\<close> in the constructor: the capacity wraps around, and a
  negative one is a run-time panic. \<open>NewRatioBreaker\<close> above is the breaker when \<open>make\<close> returns. The ratio is a
  finite double; a NaN, which passes both comparisons, is not a value of the model.
\<close>

definition rb_make_panics :: "int \<Rightarrow> bool" where
  "rb_make_panics minRequests = (wrap64 ((if minRequests \<le> 0 then 10 else minRequests) * 2) < 0)"

lemma rb_make_ok: "minRequests < 2 ^ 62 \<Longrightarrow> \<not> rb_make_panics minRequests"
  by (auto simp: rb_make_panics_def wrap64_id in_int64_def)

lemma rb_make_overflows: "rb_make_panics (2 ^ 62)"
  by code_simp

definition rb_initDefaults :: "RatioBreaker \<Rightarrow> RatioBreaker" where
  "rb_initDefaults rb =
     rb\<lparr>rb_failureRatio := (if rb_failureRatio rb \<le> 0 \<or> rb_failureRatio rb > 1 then 1 / 2 else rb_failureRatio rb),
        rb_minRequests := (if rb_minRequests rb \<le> 0 then 10 else rb_minRequests rb),
        rb_window := (if rb_window rb \<le> 0 then 10 * second else rb_window rb),
        rb_resetTimeout := (if rb_resetTimeout rb \<le> 0 then 30 * second else rb_resetTimeout rb),
        rb_maxHalfOpen := (if rb_maxHalfOpen rb \<le> 0 then 1 else rb_maxHalfOpen rb)\<rparr>"

definition rb_transition :: "State \<Rightarrow> RatioBreaker \<Rightarrow> RatioBreaker \<times> notify" where
  "rb_transition to rb =
     (if rb_state rb = to then (rb, None)
      else (rb\<lparr>rb_state := to, rb_metrics := (rb_metrics rb)\<lparr>mState := to\<rparr>\<rparr>,
            if rb_onStateChange rb then Some (rb_state rb, to) else None))"

definition rb_decrementHalfOpen :: "RatioBreaker \<Rightarrow> RatioBreaker" where
  "rb_decrementHalfOpen rb =
     (let n = rb_halfOpenInFlight rb - 1 in rb\<lparr>rb_halfOpenInFlight := (if n < 0 then 0 else n)\<rparr>)"

definition rb_incFailures :: "RatioBreaker \<Rightarrow> RatioBreaker" where
  "rb_incFailures rb = rb\<lparr>rb_metrics := (rb_metrics rb)\<lparr>mFailures := Suc (mFailures (rb_metrics rb))\<rparr>\<rparr>"

definition rb_incRequests :: "RatioBreaker \<Rightarrow> RatioBreaker" where
  "rb_incRequests rb = rb\<lparr>rb_metrics := (rb_metrics rb)\<lparr>mRequests := Suc (mRequests (rb_metrics rb))\<rparr>\<rparr>"

text \<open>The pruning loop of \<open>evaluateRatio\<close>: the records left from \<open>validIdx\<close> on, and the failure count.\<close>

fun rb_prune :: "time \<Rightarrow> reqRecord list \<Rightarrow> int \<Rightarrow> reqRecord list \<times> int" where
  "rb_prune cutoff [] n = ([], n)"
| "rb_prune cutoff (r # rs) n =
     (if r_ts r < cutoff then rb_prune cutoff rs (if r_failed r then n - 1 else n) else (r # rs, n))"

definition rb_evaluateRatio :: "time \<Rightarrow> RatioBreaker \<Rightarrow> RatioBreaker \<times> notify" where
  "rb_evaluateRatio now rb0 =
     (let cutoff = time_add now (- rb_window rb0);
          (rs, n) = rb_prune cutoff (rb_records rb0) (rb_failureCount rb0);
          rb = rb0\<lparr>rb_records := rs, rb_failureCount := n\<rparr>;
          total = int (length rs)
      in if total \<ge> rb_minRequests rb then
           let ratio = fdiv (float64_of (rb_failureCount rb)) (float64_of total) in
           if ratio \<ge> rb_failureRatio rb then rb_transition StateOpen (rb\<lparr>rb_openedAt := now\<rparr>)
           else (rb, None)
         else (rb, None))"

definition rb_append :: "time \<Rightarrow> bool \<Rightarrow> RatioBreaker \<Rightarrow> RatioBreaker" where
  "rb_append now failed rb =
     (let rb1 = rb\<lparr>rb_records := rb_records rb @ [\<lparr>r_ts = now, r_failed = failed\<rparr>]\<rparr> in
      if failed then rb_incFailures (rb1\<lparr>rb_failureCount := rb_failureCount rb1 + 1\<rparr>) else rb1)"

definition rb_canExecute :: "time \<Rightarrow> RatioBreaker \<Rightarrow> RatioBreaker \<times> bool \<times> bool \<times> notify" where
  "rb_canExecute now rb0 =
     (let rb = rb_initDefaults rb0 in
      case rb_state rb of
        StateClosed \<Rightarrow> (rb, True, False, None)
      | StateOpen \<Rightarrow>
          (if time_sub now (rb_openedAt rb) > rb_resetTimeout rb then
             let (rb1, n) = rb_transition StateHalfOpen rb
             in (rb1\<lparr>rb_halfOpenInFlight := 1\<rparr>, True, True, n)
           else (rb, False, False, None))
      | StateHalfOpen \<Rightarrow>
          (if rb_halfOpenInFlight rb < rb_maxHalfOpen rb
           then (rb\<lparr>rb_halfOpenInFlight := rb_halfOpenInFlight rb + 1\<rparr>, True, True, None)
           else (rb, False, False, None)))"

definition rb_recordResult ::
  "bool \<Rightarrow> error option \<Rightarrow> time \<Rightarrow> RatioBreaker \<Rightarrow> RatioBreaker \<times> notify" where
  "rb_recordResult isProbe err now rb0 =
     (if isProbe then
        let rb = rb_decrementHalfOpen rb0 in
        (case err of
           Some e \<Rightarrow>
             if errors_is e Canceled then (rb, None)
             else rb_transition StateOpen (rb_incFailures (rb\<lparr>rb_openedAt := now\<rparr>))
         | None \<Rightarrow> rb_transition StateClosed (rb\<lparr>rb_records := [], rb_failureCount := 0\<rparr>))
      else if rb_state rb0 = StateClosed then
        if is_canceled err then (rb0, None)
        else rb_evaluateRatio now (rb_append now (err \<noteq> None) rb0)
      else (rb0, None))"

definition rb_onPanic :: "bool \<Rightarrow> time \<Rightarrow> RatioBreaker \<Rightarrow> RatioBreaker \<times> notify" where
  "rb_onPanic isProbe now rb =
     (if isProbe then
        rb_transition StateOpen (rb_incFailures ((rb_decrementHalfOpen rb)\<lparr>rb_openedAt := now\<rparr>))
      else if rb_state rb = StateClosed then rb_evaluateRatio now (rb_append now True rb)
      else (rb, None))"

text \<open>\<open>Execute\<close>, with the arguments of \<open>cb_Execute\<close>.\<close>

definition rb_Execute ::
  "ctx_err \<Rightarrow> time \<Rightarrow> (RatioBreaker \<Rightarrow> RatioBreaker \<times> outcome) \<Rightarrow> ctx_err \<Rightarrow> time
     \<Rightarrow> RatioBreaker \<Rightarrow> outcome \<times> RatioBreaker \<times> notify list" where
  "rb_Execute ctx1 now1 req ctx2 now2 rb =
     (case ctx1 of
        Some e \<Rightarrow> (Returns (Some e), rb, [])
      | None \<Rightarrow>
          let (rb1, allowed, isProbe, n1) = rb_canExecute now1 rb in
          if \<not> allowed then (Returns (Some ErrCircuitOpen), rb1, [n1])
          else
            let (rb2, out) = req (rb_incRequests rb1) in
            case out of
              Panics \<Rightarrow> let (rb3, n2) = rb_onPanic isProbe now2 rb2 in (Panics, rb3, [n1, n2])
            | Returns err0 \<Rightarrow>
                let err = (if err0 = None then ctx2 else err0);
                    (rb3, n2) = rb_recordResult isProbe err now2 rb2
                in (Returns err, rb3, [n1, n2]))"

definition rb_State :: "time \<Rightarrow> RatioBreaker \<Rightarrow> State" where
  "rb_State now rb =
     (if rb_state rb = StateOpen \<and> time_sub now (rb_openedAt rb) > rb_resetTimeout rb
      then StateHalfOpen else rb_state rb)"

definition rb_Failures :: "RatioBreaker \<Rightarrow> int" where
  "rb_Failures rb = rb_failureCount rb"

section \<open>The records and the failure count\<close>

definition fails :: "reqRecord list \<Rightarrow> int" where
  "fails rs = int (length (filter r_failed rs))"

lemma fails_simps [simp]:
  "fails [] = 0" "fails (r # rs) = (if r_failed r then 1 else 0) + fails rs"
  "fails (rs @ qs) = fails rs + fails qs"
  by (simp_all add: fails_def)

lemma fails_bounds: "0 \<le> fails rs \<and> fails rs \<le> int (length rs)"
  by (simp add: fails_def)

lemma rb_prune_records: "fst (rb_prune c rs n) = dropWhile (\<lambda>r. r_ts r < c) rs"
  by (induction c rs n rule: rb_prune.induct) auto

lemma rb_prune_count: "n = fails rs \<Longrightarrow> snd (rb_prune c rs n) = fails (fst (rb_prune c rs n))"
  by (induction c rs n rule: rb_prune.induct) auto

lemma dropWhile_sorted:
  "sorted (map r_ts rs) \<Longrightarrow> dropWhile (\<lambda>r. r_ts r < c) rs = filter (\<lambda>r. c \<le> r_ts r) rs"
proof (induction rs)
  case (Cons r rs)
  show ?case
  proof (cases "r_ts r < c")
    case False
    with Cons.prems have "\<forall>q \<in> set (r # rs). c \<le> r_ts q" by fastforce
    then have "filter (\<lambda>q. c \<le> r_ts q) (r # rs) = r # rs" by (simp only: filter_True)
    with False show ?thesis by simp
  qed (use Cons in simp)
qed simp

section \<open>The ratio breaker implements the protocol\<close>

definition rb_view :: "RatioBreaker \<Rightarrow> bview" where
  "rb_view rb = \<lparr>v_state = rb_state rb, v_openedAt = rb_openedAt rb, v_inflight = rb_halfOpenInFlight rb\<rparr>"

definition rb_live :: "RatioBreaker \<Rightarrow> bool" where
  "rb_live rb \<longleftrightarrow> 0 < rb_failureRatio rb \<and> rb_failureRatio rb \<le> 1 \<and> 0 < rb_minRequests rb \<and>
     0 < rb_window rb \<and> 0 < rb_resetTimeout rb \<and> 0 < rb_maxHalfOpen rb"

text \<open>The test of \<open>evaluateRatio\<close>, on any list of records.\<close>

definition over_ratio :: "rat \<Rightarrow> int \<Rightarrow> reqRecord list \<Rightarrow> bool" where
  "over_ratio fr mr rs \<longleftrightarrow>
     mr \<le> int (length rs) \<and> fr \<le> fdiv (float64_of (fails rs)) (float64_of (int (length rs)))"

definition rb_ok :: "RatioBreaker \<Rightarrow> bool" where
  "rb_ok rb \<longleftrightarrow> rb_failureCount rb = fails (rb_records rb) \<and>
     (rb_state rb = StateClosed \<longrightarrow>
        \<not> over_ratio (rb_failureRatio (rb_initDefaults rb)) (rb_minRequests (rb_initDefaults rb)) (rb_records rb))"

lemmas rb_defs = rb_view_def rb_live_def rb_initDefaults_def rb_transition_def
  rb_decrementHalfOpen_def rb_incFailures_def Let_def

lemma rb_evaluateRatio_eq:
  assumes "rb_failureCount rb = fails (rb_records rb)"
  shows "rb_evaluateRatio now rb =
     (let rs = dropWhile (\<lambda>r. r_ts r < now - rb_window rb) (rb_records rb);
          rb1 = rb\<lparr>rb_records := rs, rb_failureCount := fails rs\<rparr>
      in if over_ratio (rb_failureRatio rb) (rb_minRequests rb) rs
         then rb_transition StateOpen (rb1\<lparr>rb_openedAt := now\<rparr>) else (rb1, None))"
  using rb_prune_count [OF assms] rb_prune_records
  by (simp add: rb_evaluateRatio_def over_ratio_def time_add_def Let_def case_prod_beta)

lemma rb_append_count:
  "rb_failureCount rb = fails (rb_records rb) \<Longrightarrow>
   rb_failureCount (rb_append now f rb) = fails (rb_records (rb_append now f rb))"
  by (simp add: rb_append_def rb_incFailures_def Let_def)

lemma rb_append_sel [simp]:
  "rb_state (rb_append now f rb) = rb_state rb" "rb_view (rb_append now f rb) = rb_view rb"
  "rb_failureRatio (rb_append now f rb) = rb_failureRatio rb"
  "rb_minRequests (rb_append now f rb) = rb_minRequests rb"
  "rb_window (rb_append now f rb) = rb_window rb"
  "rb_resetTimeout (rb_append now f rb) = rb_resetTimeout rb"
  "rb_maxHalfOpen (rb_append now f rb) = rb_maxHalfOpen rb"
  "rb_records (rb_append now f rb) = rb_records rb @ [\<lparr>r_ts = now, r_failed = f\<rparr>]"
  by (simp_all add: rb_append_def rb_incFailures_def rb_view_def Let_def)

text \<open>Evaluating the ratio keeps the invariant, and trips a closed circuit or leaves its view alone.\<close>

lemma rb_evaluateRatio_step:
  assumes "rb_failureCount rb = fails (rb_records rb)" and "rb_live rb" and "rb_state rb = StateClosed"
    and "rb_evaluateRatio now rb = (rb', n)"
  shows "rb_ok rb' \<and> rb_live rb' \<and> rb_maxHalfOpen rb' = rb_maxHalfOpen rb \<and>
         (rb_view rb' = rb_view rb \<or> rb_view rb' = trip now (rb_view rb))"
  using assms
  by (auto simp: rb_evaluateRatio_eq rb_ok_def rb_defs trip_def split: if_splits)

lemma rb_live_append [simp]: "rb_live (rb_append now f rb) = rb_live rb"
  by (simp add: rb_live_def)

lemma rb_live_initDefaults: "rb_live (rb_initDefaults rb)"
  by (simp add: rb_live_def rb_initDefaults_def second_def)

lemma rb_initDefaults_live: "rb_live rb \<Longrightarrow> rb_initDefaults rb = rb"
  by (simp add: rb_live_def rb_initDefaults_def)

lemma rb_ok_record:
  assumes "rb_ok rb" and "rb_live rb" and "rb_state rb = StateClosed"
    and "rb_evaluateRatio now (rb_append now f rb) = (rb', n)"
  shows "rb_ok rb' \<and> rb_live rb' \<and> rb_maxHalfOpen rb' = rb_maxHalfOpen rb \<and>
         (rb_view rb' = rb_view rb \<or> rb_view rb' = trip now (rb_view rb))"
  using rb_evaluateRatio_step [OF rb_append_count _ _ assms(4)] assms(1-3) by (simp add: rb_ok_def)

lemma over_ratio_Nil [simp]: "0 < mr \<Longrightarrow> \<not> over_ratio fr mr []"
  by (simp add: over_ratio_def)

lemma rb_probe_laws:
  assumes "rb_ok rb" and "rb_live rb"
  shows "rb_recordResult True e now rb = (rb', n) \<Longrightarrow>
           rb_view rb' = spec_probe e now (rb_view rb) \<and> rb_ok rb' \<and> rb_live rb' \<and>
           rb_maxHalfOpen rb' = rb_maxHalfOpen rb"
    and "rb_onPanic True now rb = (rb', n) \<Longrightarrow>
           rb_view rb' = trip now (release (rb_view rb)) \<and> rb_ok rb' \<and> rb_live rb' \<and>
           rb_maxHalfOpen rb' = rb_maxHalfOpen rb"
  using assms
  by (auto simp: rb_recordResult_def rb_onPanic_def rb_ok_def rb_defs spec_probe_def is_canceled_def
      trip_def release_def split: option.splits if_splits)

lemma rb_normal_laws:
  assumes "rb_ok rb" and "rb_live rb"
    and "rb_recordResult False e now rb = (rb', n) \<or> rb_onPanic False now rb = (rb', n)"
  shows "rb_ok rb' \<and> rb_live rb' \<and> rb_maxHalfOpen rb' = rb_maxHalfOpen rb \<and>
         (rb_view rb' = rb_view rb \<or>
          v_state (rb_view rb) = StateClosed \<and> rb_view rb' = trip now (rb_view rb))"
  using assms rb_ok_record [OF assms(1,2)]
  by (auto simp: rb_recordResult_def rb_onPanic_def rb_view_def split: if_splits)

lemma rb_initDefaults_sel [simp]:
  "rb_state (rb_initDefaults rb) = rb_state rb" "rb_view (rb_initDefaults rb) = rb_view rb"
  "rb_openedAt (rb_initDefaults rb) = rb_openedAt rb"
  "rb_halfOpenInFlight (rb_initDefaults rb) = rb_halfOpenInFlight rb"
  by (simp_all add: rb_initDefaults_def rb_view_def)

lemma rb_ok_initDefaults: "rb_ok rb \<Longrightarrow> rb_ok (rb_initDefaults rb)"
  unfolding rb_ok_def rb_initDefaults_live [OF rb_live_initDefaults] by (simp add: rb_initDefaults_def)

lemma rb_can_view:
  assumes "rb_canExecute now b = (b', a, p, n)"
  shows "(rb_view b', a, p) = spec_can now (rb_resetTimeout (rb_initDefaults b))
           (rb_maxHalfOpen (rb_initDefaults b)) (rb_view b)"
  using assms unfolding rb_canExecute_def Let_def
  by (cases "rb_state b") (auto simp: rb_view_def rb_transition_def spec_can_def split: if_splits)

lemma rb_can_ok:
  assumes "rb_ok b" and "rb_canExecute now b = (b', a, p, n)"
  shows "rb_ok b' \<and> rb_live b' \<and> rb_maxHalfOpen b' = rb_maxHalfOpen (rb_initDefaults b)"
  using assms(2) rb_ok_initDefaults [OF assms(1)] rb_live_initDefaults [of b]
  unfolding rb_canExecute_def Let_def
  by (cases "rb_state b")
    (auto simp: rb_ok_def rb_initDefaults_live rb_live_def rb_transition_def split: if_splits)

interpretation rbr: breaker rb_canExecute rb_recordResult rb_onPanic rb_view
  "\<lambda>rb. rb_resetTimeout (rb_initDefaults rb)" "\<lambda>rb. rb_maxHalfOpen (rb_initDefaults rb)" rb_ok rb_live
proof (unfold_locales, goal_cases)
  case (1 b now b' a p n)
  from 1(2) show ?case by (rule rb_can_view)
next
  case (2 b now b' a p n)
  from rb_can_ok [OF 2] rb_initDefaults_live show ?case by metis
next
  case (3 b e now b' n)
  then show ?case using rb_probe_laws(1) by blast
next
  case (4 b e now b' n)
  then show ?case using rb_normal_laws by blast
next
  case (5 b p e now b' n)
  then show ?case
    using rb_probe_laws(1) [of b e now b' n] rb_normal_laws [of b e now b' n] by (cases p) (auto simp: rb_initDefaults_live)
next
  case (6 b now b' n)
  then show ?case using rb_probe_laws(2) by blast
next
  case (7 b now b' n)
  then show ?case using rb_normal_laws by blast
next
  case (8 b p now b' n)
  then show ?case
    using rb_probe_laws(2) [of b now b' n] rb_normal_laws [of b None now b' n] by (cases p) (auto simp: rb_initDefaults_live)
next
  case (9 b)
  then show ?case by (simp add: rb_initDefaults_def)
qed

section \<open>Properties of the ratio breaker\<close>

abbreviation rb_step :: "RatioBreaker bsys \<Rightarrow> RatioBreaker bsys \<Rightarrow> bool" where
  "rb_step \<equiv> brk_step rb_canExecute rb_recordResult rb_onPanic"

abbreviation rb_run :: "bevent list \<Rightarrow> RatioBreaker bsys \<Rightarrow> RatioBreaker bsys option" where
  "rb_run \<equiv> brk_run rb_canExecute rb_recordResult rb_onPanic"

lemma rb_live_New: "rb_live (NewRatioBreaker fr mr w rt opts)"
  by (simp add: NewRatioBreaker_def rb_live_def second_def Let_def)

lemma rb_New_sel:
  "rb_state (NewRatioBreaker fr mr w rt opts) = StateClosed"
  "rb_records (NewRatioBreaker fr mr w rt opts) = []"
  "rb_failureCount (NewRatioBreaker fr mr w rt opts) = 0"
  "rb_halfOpenInFlight (NewRatioBreaker fr mr w rt opts) = 0"
  by (simp_all add: NewRatioBreaker_def Let_def)

lemma rb_fresh_New: "rbr.fresh (NewRatioBreaker fr mr w rt opts)"
proof -
  have "0 < rb_minRequests (NewRatioBreaker fr mr w rt opts)"
    using rb_live_New by (simp add: rb_live_def)
  then show ?thesis
    by (simp add: rbr.fresh_def rb_ok_def rb_initDefaults_live rb_live_New rb_New_sel rb_view_def)
qed

text \<open>
  The ratio breaker runs the same state machine. With one half-open probe allowed, in every
  state reachable by concurrent executions at most one probe is in flight, and only while half-open,
  and every step moves along a documented edge.
\<close>

theorem rb_single_probe_and_legal_edges:
  assumes "rb_maxHalfOpen (NewRatioBreaker fr mr w rt opts) = 1"
    and "rb_step\<^sup>*\<^sup>* (start_sys t0 (NewRatioBreaker fr mr w rt opts)) s"
    and "rb_step s s'"
  shows "probes s \<le> 1 \<and> (0 < probes s \<longrightarrow> rb_state (brk s) = StateHalfOpen) \<and>
         legal_edge (rb_state (brk s)) (rb_state (brk s'))"
proof -
  have m: "rb_maxHalfOpen (rb_initDefaults (NewRatioBreaker fr mr w rt opts)) = 1"
    using assms(1) by (simp add: rb_initDefaults_live rb_live_New)
  note F = rb_fresh_New [of fr mr w rt opts]
  from rbr.reachable_single_probe [OF F m assms(2)] rbr.reachable_legal_edges [OF F m assms(2,3)]
  show ?thesis by (simp add: rb_view_def)
qed

theorem rb_single_probe_and_legal_edges_witness:
  "\<exists>s s'. rb_step s s' \<and> probes s = 1 \<and> rb_state (brk s) = StateHalfOpen \<and>
     legal_edge (rb_state (brk s)) (rb_state (brk s'))"
proof -
  let ?b = "NewRatioBreaker (1 / 2) 2 100 10 []"
  let ?evs = "[Admit 0, Admit 0, FinishNormal None 1, FinishNormal (Some (Err ''boom'')) 2, Admit 13]"
  define s where "s = the (rb_run ?evs (start_sys 0 ?b))"
  define s' where "s' = the (brk_exec rb_canExecute rb_recordResult rb_onPanic (FinishProbe None 14) s)"
  have s: "rb_run ?evs (start_sys 0 ?b) = Some s" and p: "probes s = 1"
    and h: "rb_state (brk s) = StateHalfOpen"
    unfolding s_def by code_simp+
  have "brk_exec rb_canExecute rb_recordResult rb_onPanic (FinishProbe None 14) s = Some s'"
    unfolding s'_def s_def by code_simp
  then have "rb_step s s'" by (rule brk_exec_step)
  moreover have "rb_maxHalfOpen ?b = 1" by code_simp
  ultimately show ?thesis
    using rb_single_probe_and_legal_edges [OF _ brk_run_steps [OF s]] p h by blast
qed

text \<open>
  In every reachable state of the concurrent system the failure count is exactly the number of
  failed records kept, and while the circuit is closed the records kept do not reach the ratio.
\<close>

theorem rb_count_exact:
  assumes "rb_step\<^sup>*\<^sup>* (start_sys t0 (NewRatioBreaker fr mr w rt opts)) s"
  shows "rb_Failures (brk s) = fails (rb_records (brk s)) \<and>
         (rb_state (brk s) = StateClosed \<longrightarrow>
          \<not> over_ratio (rb_failureRatio (rb_initDefaults (brk s)))
              (rb_minRequests (rb_initDefaults (brk s))) (rb_records (brk s)))"
  using rbr.reachable_base [OF rb_fresh_New assms]
  by (simp add: rbr.base_inv_def rb_ok_def rb_Failures_def)

theorem rb_count_exact_witness:
  "\<exists>s :: RatioBreaker bsys. rb_Failures (brk s) = 1 \<and> length (rb_records (brk s)) = 3 \<and>
     rb_state (brk s) = StateClosed \<and> fails (rb_records (brk s)) = 1"
proof -
  let ?evs = "[Admit 0, Admit 0, Admit 0, FinishNormal None 1, FinishNormal None 2, PanicNormal 3]"
  define s where "s = the (rb_run ?evs (start_sys 0 (NewRatioBreaker (1 / 2) 2 100 10 [])))"
  have s: "rb_run ?evs (start_sys 0 (NewRatioBreaker (1 / 2) 2 100 10 [])) = Some s"
    and "rb_Failures (brk s) = 1" and "length (rb_records (brk s)) = 3"
    and "rb_state (brk s) = StateClosed"
    unfolding s_def by code_simp+
  with rb_count_exact [OF brk_run_steps [OF s]] show ?thesis by metis
qed

subsection \<open>The rolling window\<close>

text \<open>
  A history of calls as in the consecutive breaker; \<open>outcomes\<close> are the calls that count (not
  cancelled), and \<open>rolling\<close> those no older than the window when the last of them ended.
\<close>

fun rb_calls :: "(time \<times> time \<times> error option) list \<Rightarrow> RatioBreaker \<Rightarrow> RatioBreaker" where
  "rb_calls [] rb = rb"
| "rb_calls ((t1, t2, e) # cs) rb =
     rb_calls cs (fst (snd (rb_Execute None t1 (\<lambda>b. (b, Returns e)) None t2 rb)))"

definition outcomes :: "(time \<times> time \<times> error option) list \<Rightarrow> reqRecord list" where
  "outcomes cs = map (\<lambda>(t1, t2, e). \<lparr>r_ts = t2, r_failed = (e \<noteq> None)\<rparr>)
     (filter (\<lambda>(t1, t2, e). \<not> is_canceled e) cs)"

definition rolling :: "duration \<Rightarrow> reqRecord list \<Rightarrow> reqRecord list" where
  "rolling w rs = filter (\<lambda>r. r_ts (last rs) - w \<le> r_ts r) rs"

lemma rb_calls_append: "rb_calls (cs @ ds) rb = rb_calls ds (rb_calls cs rb)"
  by (induction cs arbitrary: rb) auto

lemma outcomes_snoc:
  "outcomes (cs @ [(t1, t2, e)]) =
     outcomes cs @ (if is_canceled e then [] else [\<lparr>r_ts = t2, r_failed = (e \<noteq> None)\<rparr>])"
  by (simp add: outcomes_def)

lemma rolling_snoc:
  assumes "sorted (map r_ts (rs @ [r]))" and "0 < w"
  shows "filter (\<lambda>q. r_ts r - w \<le> r_ts q) (rolling w rs @ [r]) = rolling w (rs @ [r])"
proof (cases "rs = []")
  case False
  then have "r_ts (last rs) \<le> r_ts r"
    using assms(1) by (auto simp: sorted_append)
  then have "filter (\<lambda>q. r_ts r - w \<le> r_ts q) (rolling w rs) = filter (\<lambda>q. r_ts r - w \<le> r_ts q) rs"
    unfolding rolling_def filter_filter by (intro filter_cong) auto
  then show ?thesis by (simp add: rolling_def)
qed (simp add: rolling_def)

lemma rb_Execute_closed:
  assumes "rb_state rb = StateClosed" and "rb_live rb"
  shows "fst (snd (rb_Execute None t1 (\<lambda>b. (b, Returns e)) None t2 rb)) =
         (if is_canceled e then rb_incRequests rb
          else fst (rb_evaluateRatio t2 (rb_append t2 (e \<noteq> None) (rb_incRequests rb))))"
proof -
  have "rb_canExecute t1 rb = (rb, True, False, None)"
    using assms by (simp add: rb_canExecute_def rb_initDefaults_live Let_def)
  moreover have "rb_state (rb_incRequests rb) = StateClosed"
    using assms(1) by (simp add: rb_incRequests_def)
  ultimately show ?thesis
    by (cases e) (simp_all add: rb_Execute_def rb_recordResult_def case_prod_beta)
qed

lemma rb_record_closed:
  assumes "rb_state rb = StateClosed" and "rb_live rb" and "rb_failureCount rb = fails (rb_records rb)"
    and "sorted (map r_ts (rb_records rb @ [\<lparr>r_ts = t2, r_failed = f\<rparr>]))"
    and rs: "filter (\<lambda>q. t2 - rb_window rb \<le> r_ts q) (rb_records rb @ [\<lparr>r_ts = t2, r_failed = f\<rparr>]) = rs"
  shows "let rb1 = fst (rb_evaluateRatio t2 (rb_append t2 f (rb_incRequests rb))) in
         rb_records rb1 = rs \<and> rb_failureCount rb1 = fails rs \<and> rb_live rb1 \<and>
         rb_window rb1 = rb_window rb \<and> rb_failureRatio rb1 = rb_failureRatio rb \<and>
         rb_minRequests rb1 = rb_minRequests rb \<and>
         rb_state rb1 = (if over_ratio (rb_failureRatio rb) (rb_minRequests rb) rs
                         then StateOpen else StateClosed)"
proof -
  let ?rb = "rb_incRequests rb"
  have q: "rb_state ?rb = StateClosed" "rb_records ?rb = rb_records rb" "rb_window ?rb = rb_window rb"
    "rb_failureCount ?rb = fails (rb_records ?rb)" "rb_failureRatio ?rb = rb_failureRatio rb"
    "rb_minRequests ?rb = rb_minRequests rb" "rb_live ?rb"
    using assms(1-3) by (simp_all add: rb_incRequests_def rb_live_def)
  have l: "rb_live (rb_append t2 f ?rb)" using q by simp
  have e: "rb_evaluateRatio t2 (rb_append t2 f ?rb) =
     (let rb1 = (rb_append t2 f ?rb)\<lparr>rb_records := rs, rb_failureCount := fails rs\<rparr>
      in if over_ratio (rb_failureRatio rb) (rb_minRequests rb) rs
         then rb_transition StateOpen (rb1\<lparr>rb_openedAt := t2\<rparr>) else (rb1, None))"
    unfolding rb_evaluateRatio_eq [OF rb_append_count [OF q(4)]] rb_append_sel q(2,3,5,6)
      dropWhile_sorted [OF assms(4)] rs by (simp only: Let_def)
  show ?thesis
    using l q unfolding e by (simp add: rb_transition_def rb_live_def Let_def)
qed

lemma rb_calls_rolling:
  fixes fr mr w rt opts
  defines "b0 \<equiv> NewRatioBreaker fr mr w rt opts"
  assumes "sorted (map r_ts (outcomes cs))"
    and "\<And>n. n < length cs \<Longrightarrow>
          \<not> over_ratio (rb_failureRatio b0) (rb_minRequests b0) (rolling (rb_window b0) (outcomes (take n cs)))"
  shows "let rb = rb_calls cs b0; rs = rolling (rb_window b0) (outcomes cs) in
         rb_records rb = rs \<and> rb_failureCount rb = fails rs \<and> rb_live rb \<and>
         rb_window rb = rb_window b0 \<and> rb_failureRatio rb = rb_failureRatio b0 \<and>
         rb_minRequests rb = rb_minRequests b0 \<and>
         rb_state rb = (if over_ratio (rb_failureRatio b0) (rb_minRequests b0) rs
                        then StateOpen else StateClosed)"
  using assms(2,3)
proof (induction cs rule: rev_induct)
  case Nil
  have "0 < rb_minRequests b0" using rb_live_New unfolding b0_def rb_live_def by blast
  then show ?case
    by (simp add: b0_def rb_live_New rb_New_sel outcomes_def rolling_def Let_def)
next
  case (snoc c cs)
  obtain t1 t2 e where c: "c = (t1, t2, e)" by (cases c)
  let ?r = "\<lparr>r_ts = t2, r_failed = (e \<noteq> None)\<rparr>"
  let ?rb = "rb_calls cs b0" and ?R = "rolling (rb_window b0) (outcomes cs)"
  have w: "0 < rb_window b0" using rb_live_New unfolding b0_def rb_live_def by blast
  have nt: "\<not> over_ratio (rb_failureRatio b0) (rb_minRequests b0) ?R"
    using snoc.prems(2) [of "length cs"] by simp
  have so: "sorted (map r_ts (outcomes cs))"
    using snoc.prems(1) by (simp add: c outcomes_snoc sorted_append)
  have "\<not> over_ratio (rb_failureRatio b0) (rb_minRequests b0)
      (rolling (rb_window b0) (outcomes (take n cs)))" if "n < length cs" for n
    using snoc.prems(2) [of n] that by simp
  from snoc.IH [OF so this] nt have ih: "rb_records ?rb = ?R" "rb_failureCount ?rb = fails ?R"
    "rb_live ?rb" "rb_window ?rb = rb_window b0" "rb_failureRatio ?rb = rb_failureRatio b0"
    "rb_minRequests ?rb = rb_minRequests b0" "rb_state ?rb = StateClosed"
    by (simp_all add: Let_def)
  show ?case
  proof (cases "is_canceled e")
    case True
    then have "rb_calls (cs @ [c]) b0 = rb_incRequests ?rb"
      using ih by (auto simp: c rb_calls_append rb_Execute_def rb_canExecute_def rb_initDefaults_live
          rb_recordResult_def is_canceled_def rb_incRequests_def Let_def split: option.splits)
    with True ih nt show ?thesis
      by (simp add: c outcomes_snoc rb_incRequests_def rb_live_def Let_def)
  next
    case False
    have s2: "sorted (map r_ts (outcomes cs @ [?r]))"
      using snoc.prems(1) False by (simp add: c outcomes_snoc)
    have "sorted (map r_ts (?R @ [?r]))"
      using s2 by (auto simp: sorted_append rolling_def intro: sorted_filter)
    note R = rb_record_closed [of ?rb t2 "e \<noteq> None" "rolling (rb_window b0) (outcomes cs @ [?r])",
        unfolded ih, OF refl ih(3) refl this rolling_snoc [OF s2 w, unfolded reqRecord.select_convs]]
    have "let rb1 = fst (rb_evaluateRatio t2 (rb_append t2 (e \<noteq> None) (rb_incRequests ?rb)));
              rs = rolling (rb_window b0) (outcomes cs @ [?r]) in
         rb_records rb1 = rs \<and> rb_failureCount rb1 = fails rs \<and> rb_live rb1 \<and>
         rb_window rb1 = rb_window b0 \<and> rb_failureRatio rb1 = rb_failureRatio b0 \<and>
         rb_minRequests rb1 = rb_minRequests b0 \<and>
         rb_state rb1 = (if over_ratio (rb_failureRatio b0) (rb_minRequests b0) rs
                         then StateOpen else StateClosed)"
      using R by (simp only: Let_def)
    with False show ?thesis
      by (simp only: c rb_calls_append rb_calls.simps rb_Execute_closed [OF ih(7,3)] outcomes_snoc if_False)
  qed
qed

text \<open>
  C7: the breaker trips, for the first time, exactly when the rolling window reaches the ratio. For any
  history of calls one after the other, without panics, whose outcomes are in the order of time and whose
  proper prefixes did not trip it (so up to and including the first trip), the breaker keeps
  exactly the outcomes of the rolling window (cancelled calls are not outcomes), counts their
  failures, and is open if and only if the window holds at least \<open>minRequests\<close> outcomes of which
  the failed share, computed in double precision, is at least \<open>failureRatio\<close>.
\<close>

theorem rb_trips_exactly_at_ratio:
  assumes "sorted (map r_ts (outcomes cs))"
    and "\<And>n. n < length cs \<Longrightarrow>
          \<not> over_ratio (rb_failureRatio (NewRatioBreaker fr mr w rt opts))
              (rb_minRequests (NewRatioBreaker fr mr w rt opts))
              (rolling (rb_window (NewRatioBreaker fr mr w rt opts)) (outcomes (take n cs)))"
  shows "let b0 = NewRatioBreaker fr mr w rt opts; rb = rb_calls cs b0;
             rs = rolling (rb_window b0) (outcomes cs) in
         rb_records rb = rs \<and> rb_failureCount rb = fails rs \<and>
         rb_state rb = (if over_ratio (rb_failureRatio b0) (rb_minRequests b0) rs
                        then StateOpen else StateClosed)"
  using rb_calls_rolling [OF assms] by (simp add: Let_def)

theorem rb_trips_exactly_at_ratio_witness:
  "rb_state (rb_calls [(0, 0, None), (40, 50, None), (60, 70, Some (Err ''b''))]
      (NewRatioBreaker (1 / 2) 2 60 10 [])) = StateOpen"
proof -
  let ?cs = "[(0, 0, None), (40, 50, None), (60, 70, Some (Err ''b''))] :: (time \<times> time \<times> error option) list"
  let ?b = "NewRatioBreaker (1 / 2) 2 60 10 []"
  have p: "\<not> over_ratio (rb_failureRatio ?b) (rb_minRequests ?b) (rolling (rb_window ?b) (outcomes (take n ?cs)))"
    if "n < length ?cs" for n
  proof -
    from that have "n = 0 \<or> n = 1 \<or> n = 2" by auto
    then show ?thesis by (elim disjE) (hypsubst, code_simp)+
  qed
  have s: "sorted (map r_ts (outcomes ?cs))" by code_simp
  have "over_ratio (rb_failureRatio ?b) (rb_minRequests ?b) (rolling (rb_window ?b) (outcomes ?cs))"
    by code_simp
  with rb_trips_exactly_at_ratio [OF s p] show ?thesis by (simp only: Let_def if_True)
qed

end
