(* ===== verification/Real_IP.thy ===== *)
theory Real_IP
  imports Go_Strings
begin

text \<open>
  Client address extraction (\<open>src/ratelimit/realip.go\<close>). What the code takes from package \<open>net\<close> is the
  record \<open>net_ops\<close> of functions (parsing and printing addresses, CIDR parsing, membership of a
  network, splitting host and port), an argument of the definitions: every lemma holds whatever
  these functions do, so none depends on the syntax of addresses. A request is its peer address
  and its headers, in order. A nil request or network does not occur.
\<close>

record ('ip, 'net) net_ops =
  ParseIP :: "string \<Rightarrow> 'ip option"
  IP_String :: "'ip \<Rightarrow> string"
  To4 :: "'ip \<Rightarrow> bool"
  ParseCIDR :: "string \<Rightarrow> 'net option"
  Contains :: "'net \<Rightarrow> 'ip \<Rightarrow> bool"
  SplitHostPort :: "string \<Rightarrow> string option"

record http_request =
  RemoteAddr :: string
  Header :: "(string \<times> string) list"

definition header_values :: "string \<Rightarrow> http_request \<Rightarrow> string list" where
  "header_values h r = map snd (filter (\<lambda>(k, v). k = h) (Header r))"

definition header_get :: "string \<Rightarrow> http_request \<Rightarrow> string" where
  "header_get h r = (case header_values h r of [] \<Rightarrow> [] | v # vs \<Rightarrow> v)"

text \<open>The package's own space trimmer: two index loops over space, tab, CR and LF.\<close>

definition rip_space :: "char \<Rightarrow> bool" where
  "rip_space c \<longleftrightarrow> c = CHR '' '' \<or> c = CHR 0x09 \<or> c = CHR 0x0D \<or> c = CHR 0x0A"

fun trim_left :: "string \<Rightarrow> string" where
  "trim_left [] = []"
| "trim_left (c # s) = (if rip_space c then trim_left s else c # s)"

definition trimSpace :: "string \<Rightarrow> string" where
  "trimSpace s = rev (trim_left (rev (trim_left s)))"

definition ExtractIP :: "('ip, 'net) net_ops \<Rightarrow> string \<Rightarrow> string" where
  "ExtractIP net remoteAddr0 =
     (let remoteAddr = trim_space remoteAddr0 in
      if remoteAddr = [] then []
      else let host = (case SplitHostPort net remoteAddr of None \<Rightarrow> remoteAddr | Some h \<Rightarrow> h)
           in trim_chars (\<lambda>c. c = CHR ''['' \<or> c = CHR '']'') host)"

fun IsTrusted :: "('ip, 'net) net_ops \<Rightarrow> 'ip \<Rightarrow> 'net list \<Rightarrow> bool" where
  "IsTrusted net ip [] = False"
| "IsTrusted net ip (n # ns) = (if Contains net n ip then True else IsTrusted net ip ns)"

definition ParseCIDRorIP :: "('ip, 'net) net_ops \<Rightarrow> string \<Rightarrow> 'net option" where
  "ParseCIDRorIP net s0 =
     (let s = trim_space s0 in
      if s = [] then None
      else if CHR ''/'' \<in> set s then ParseCIDR net s
      else case ParseIP net s of
             None \<Rightarrow> None
           | Some ip \<Rightarrow> if To4 net ip then ParseCIDR net (s @ ''/32'') else ParseCIDR net (s @ ''/128''))"

text \<open>The two nested loops of \<open>ParseTrustedProxies\<close>.\<close>

fun parse_parts :: "('ip, 'net) net_ops \<Rightarrow> string list \<Rightarrow> 'net list" where
  "parse_parts net [] = []"
| "parse_parts net (c0 # cs) =
     (let c = trim_space c0 in
      if c = [] then parse_parts net cs
      else case ParseCIDRorIP net c of Some n \<Rightarrow> n # parse_parts net cs | None \<Rightarrow> parse_parts net cs)"

definition ParseTrustedProxies :: "('ip, 'net) net_ops \<Rightarrow> string list \<Rightarrow> 'net list" where
  "ParseTrustedProxies net cidrs = concat (map (\<lambda>raw. parse_parts net (split_on CHR '','' raw)) cidrs)"

text \<open>\<open>parseXFF\<close>: the hops in header order, then the loop from the last to the first.\<close>

definition xff_parts :: "http_request \<Rightarrow> string list" where
  "xff_parts r = filter (\<lambda>p. p \<noteq> [])
     (map trimSpace (concat (map (split_on CHR '','') (header_values ''X-Forwarded-For'' r))))"

fun xff_loop :: "('ip, 'net) net_ops \<Rightarrow> 'net list \<Rightarrow> string list \<Rightarrow> string \<Rightarrow> string" where
  "xff_loop net trusted [] leftmostValid = leftmostValid"
| "xff_loop net trusted (p # ps) leftmostValid =
     (case ParseIP net (ExtractIP net p) of
        None \<Rightarrow> xff_loop net trusted ps leftmostValid
      | Some ip \<Rightarrow>
          if \<not> IsTrusted net ip trusted then IP_String net ip
          else xff_loop net trusted ps (IP_String net ip))"

definition parseXFF :: "('ip, 'net) net_ops \<Rightarrow> http_request \<Rightarrow> 'net list \<Rightarrow> string" where
  "parseXFF net r trusted = xff_loop net trusted (rev (xff_parts r)) []"

definition RealIP :: "('ip, 'net) net_ops \<Rightarrow> http_request \<Rightarrow> 'net list \<Rightarrow> string" where
  "RealIP net r trusted =
     (let remoteIP = ExtractIP net (RemoteAddr r) in
      if trusted = [] then remoteIP
      else case ParseIP net remoteIP of
        None \<Rightarrow> remoteIP
      | Some directIP \<Rightarrow>
          if \<not> IsTrusted net directIP trusted then remoteIP
          else
            let ip = parseXFF net r trusted; xri = header_get ''X-Real-Ip'' r in
            if ip \<noteq> [] then ip
            else if xri \<noteq> [] then
              (case ParseIP net (ExtractIP net (trimSpace xri)) of
                 Some ip2 \<Rightarrow> IP_String net ip2
               | None \<Rightarrow> remoteIP)
            else remoteIP)"

definition RealIPWithProxies :: "('ip, 'net) net_ops \<Rightarrow> http_request \<Rightarrow> string list \<Rightarrow> string" where
  "RealIPWithProxies net r cidrs = RealIP net r (ParseTrustedProxies net cidrs)"

definition DefaultKeyFunc :: "('ip, 'net) net_ops \<Rightarrow> http_request \<Rightarrow> string" where
  "DefaultKeyFunc net r = RealIP net r []"

definition KeyFuncWithTrustedProxies :: "('ip, 'net) net_ops \<Rightarrow> string list \<Rightarrow> http_request \<Rightarrow> string" where
  "KeyFuncWithTrustedProxies net cidrs = (let trusted = ParseTrustedProxies net cidrs in (\<lambda>r. RealIP net r trusted))"

section \<open>Lemmas\<close>

lemma trim_left_dropWhile: "trim_left s = dropWhile rip_space s"
  by (induction s) auto

lemma IsTrusted_iff: "IsTrusted net ip ns \<longleftrightarrow> (\<exists>n \<in> set ns. Contains net n ip)"
  by (induction ns) auto

text \<open>A hop the loop passes over: not an address, or a trusted one.\<close>

definition passes :: "('ip, 'net) net_ops \<Rightarrow> 'net list \<Rightarrow> string \<Rightarrow> bool" where
  "passes net trusted p \<longleftrightarrow>
     (case ParseIP net (ExtractIP net p) of None \<Rightarrow> True | Some ip \<Rightarrow> IsTrusted net ip trusted)"

lemma xff_loop_stops:
  assumes "\<forall>p \<in> set ps. passes net trusted p" and "ParseIP net (ExtractIP net q) = Some ip"
    and "\<not> IsTrusted net ip trusted"
  shows "xff_loop net trusted (ps @ q # qs) l = IP_String net ip"
  using assms by (induction ps arbitrary: l) (auto simp: passes_def split: option.splits)

definition peer_trusted :: "('ip, 'net) net_ops \<Rightarrow> http_request \<Rightarrow> 'net list \<Rightarrow> bool" where
  "peer_trusted net r trusted \<longleftrightarrow>
     (case ParseIP net (ExtractIP net (RemoteAddr r)) of None \<Rightarrow> False | Some d \<Rightarrow> IsTrusted net d trusted)"

lemma RealIP_trusted_peer:
  assumes "peer_trusted net r trusted" and "parseXFF net r trusted \<noteq> []"
  shows "RealIP net r trusted = parseXFF net r trusted"
  using assms by (cases trusted) (auto simp: RealIP_def peer_trusted_def Let_def split: option.splits)

lemma RealIP_untrusted_peer:
  "\<not> peer_trusted net r trusted \<Longrightarrow> RealIP net r trusted = ExtractIP net (RemoteAddr r)"
  by (auto simp: RealIP_def peer_trusted_def Let_def split: option.splits)

section \<open>Spoofing\<close>

text \<open>
  C10: the address cannot be spoofed. (1) When the peer is not a trusted proxy (in particular when
  none is configured), the result is the peer's address whatever the headers say. (2) When the peer
  is trusted and the forwarded hops, over all \<open>X-Forwarded-For\<close> headers in order, are
  \<open>forged @ [q] @ hops\<close> with \<open>q\<close> an untrusted address and every later hop trusted or malformed, the
  result is \<open>q\<close>: nothing a client writes to the left of the address its own proxy appended counts.
\<close>

theorem RealIP_not_spoofable:
  "(\<not> peer_trusted net r trusted \<longrightarrow> RealIP net r trusted = ExtractIP net (RemoteAddr r)) \<and>
   (peer_trusted net r trusted \<and> xff_parts r = forged @ q # hops \<and>
    (\<forall>h \<in> set hops. passes net trusted h) \<and> ParseIP net (ExtractIP net q) = Some ip \<and>
    \<not> IsTrusted net ip trusted \<and> IP_String net ip \<noteq> [] \<longrightarrow>
    RealIP net r trusted = IP_String net ip)"
proof (intro conjI impI)
  assume a: "peer_trusted net r trusted \<and> xff_parts r = forged @ q # hops \<and>
    (\<forall>h \<in> set hops. passes net trusted h) \<and> ParseIP net (ExtractIP net q) = Some ip \<and>
    \<not> IsTrusted net ip trusted \<and> IP_String net ip \<noteq> []"
  then have "parseXFF net r trusted = IP_String net ip"
    by (simp add: parseXFF_def xff_loop_stops)
  with RealIP_trusted_peer [of net r trusted] a show "RealIP net r trusted = IP_String net ip" by simp
qed (rule RealIP_untrusted_peer)

text \<open>
  The witness takes the addresses of a toy network: an address is a non-empty string of digits and
  dots, a network is a prefix.
\<close>

definition toy_net :: "(string, string) net_ops" where
  "toy_net = \<lparr>ParseIP = (\<lambda>s. if s \<noteq> [] \<and> list_all (\<lambda>c. c = CHR ''.'' \<or> digit_of c \<noteq> None) s then Some s else None),
     IP_String = (\<lambda>s. s), To4 = (\<lambda>s. True), ParseCIDR = (\<lambda>s. Some (takeWhile (\<lambda>c. c \<noteq> CHR ''/'') s)),
     Contains = (\<lambda>n s. take (length n) s = n),
     SplitHostPort = (\<lambda>s. if CHR '':'' \<in> set s then Some (takeWhile (\<lambda>c. c \<noteq> CHR '':'') s) else None)\<rparr>"

theorem RealIP_not_spoofable_witness:
  "RealIP toy_net \<lparr>RemoteAddr = ''10.0.0.1:80'', Header = [(''X-Forwarded-For'', ''6.6.6.6, 8.8.8.8, 10.0.0.2'')]\<rparr> [''10.'']
     = ''8.8.8.8'' \<and>
   RealIP toy_net \<lparr>RemoteAddr = ''9.9.9.9:80'', Header = [(''X-Forwarded-For'', ''6.6.6.6'')]\<rparr> [''10.''] = ''9.9.9.9''"
proof -
  let ?r = "\<lparr>RemoteAddr = ''10.0.0.1:80'', Header = [(''X-Forwarded-For'', ''6.6.6.6, 8.8.8.8, 10.0.0.2'')]\<rparr>"
  let ?r2 = "\<lparr>RemoteAddr = ''9.9.9.9:80'', Header = [(''X-Forwarded-For'', ''6.6.6.6'')]\<rparr>"
  have "peer_trusted toy_net ?r [''10.'']" "xff_parts ?r = [''6.6.6.6''] @ ''8.8.8.8'' # [''10.0.0.2'']"
    "\<forall>h \<in> set [''10.0.0.2'']. passes toy_net [''10.''] h"
    "ParseIP toy_net (ExtractIP toy_net ''8.8.8.8'') = Some ''8.8.8.8''"
    "\<not> IsTrusted toy_net ''8.8.8.8'' [''10.'']" "IP_String toy_net ''8.8.8.8'' \<noteq> []"
    by code_simp+
  then have "RealIP toy_net ?r [''10.''] = IP_String toy_net ''8.8.8.8''"
    using RealIP_not_spoofable [of toy_net ?r "[''10.'']" "[''6.6.6.6'']" "''8.8.8.8''" "[''10.0.0.2'']" "''8.8.8.8''"]
    by blast
  moreover have "\<not> peer_trusted toy_net ?r2 [''10.'']" "ExtractIP toy_net (RemoteAddr ?r2) = ''9.9.9.9''"
    by code_simp+
  ultimately show ?thesis
    using RealIP_not_spoofable [of toy_net ?r2 "[''10.'']"] by (simp add: toy_net_def)
qed

end
