(* ===== verification/Rate_Limiter.thy ===== *)
theory Rate_Limiter
  imports Real_IP
begin

text \<open>
  The interface \<open>Limiter\<close> and the middleware over it (\<open>src/ratelimit/limiter.go\<close>). The locale
  \<open>keyed_limiter\<close> is the contract of an implementation, in terms of what a key may still spend
  (\<open>avail\<close>) and of the keys it accepts; the middleware's guarantees are proved from it once, for the
  token bucket, the sliding window and the limiter on a database table. A limiter's operations take the time the clock shows. The laws speak of requests
  for fewer than \<open>2^62\<close> events: the sliding window's comparison wraps around beyond.
\<close>

text \<open>What the middleware does with a request: it answers itself, or sets headers and calls the next handler.\<close>

datatype mw_result =
    Answered int "(string \<times> string) list" string
  | Forwarded "(string \<times> string) list"

definition StatusTooManyRequests :: int where
  "StatusTooManyRequests = 429"

definition too_many_body :: string where
  "too_many_body = ''{\"error\":\"too many requests\",\"code\":\"RATE_LIMITED\"}''"

definition pick_keyFunc :: "('r \<Rightarrow> string) \<Rightarrow> ('r \<Rightarrow> string) option list \<Rightarrow> 'r \<Rightarrow> string" where
  "pick_keyFunc dflt kfs = (case kfs of Some kf # _ \<Rightarrow> kf | _ \<Rightarrow> dflt)"

definition NewWithLimiter ::
  "(time \<Rightarrow> string \<Rightarrow> 'l \<Rightarrow> 'l \<times> bool) \<Rightarrow> (time \<Rightarrow> string \<Rightarrow> 'l \<Rightarrow> 'l \<times> int) \<Rightarrow>
   ('r \<Rightarrow> string) \<Rightarrow> time \<Rightarrow> 'r \<Rightarrow> 'l \<Rightarrow> 'l \<times> mw_result" where
  "NewWithLimiter allow remaining kf now r l =
     (let key = kf r; (l1, ok) = allow now key l in
      if \<not> ok then
        (l1, Answered StatusTooManyRequests
               [(''RateLimit-Remaining'', ''0''), (''X-RateLimit-Remaining'', ''0''),
                (''Retry-After'', ''1''), (''Content-Type'', ''application/json'')] too_many_body)
      else
        let (l2, rem) = remaining now key l1 in
        (l2, Forwarded [(''RateLimit-Remaining'', itoa rem), (''X-RateLimit-Remaining'', itoa rem)]))"

text \<open>A burst: the requests with these keys, one after the other at one moment.\<close>

fun mw_burst where
  "mw_burst allow remaining now [] l = (l, [])"
| "mw_burst allow remaining now (k # ks) l =
     (let (l1, res) = NewWithLimiter allow remaining (\<lambda>k. k) now k l;
          (l2, rs) = mw_burst allow remaining now ks l1
      in (l2, res # rs))"

definition forwarded :: "mw_result \<Rightarrow> bool" where
  "forwarded res = (case res of Forwarded _ \<Rightarrow> True | Answered _ _ _ \<Rightarrow> False)"

section \<open>The contract\<close>

locale keyed_limiter =
  fixes allowN :: "time \<Rightarrow> string \<Rightarrow> int \<Rightarrow> 'l \<Rightarrow> 'l \<times> bool"
    and remaining :: "time \<Rightarrow> string \<Rightarrow> 'l \<Rightarrow> 'l \<times> int"
    and reset :: "string \<Rightarrow> 'l \<Rightarrow> 'l"
    and avail :: "time \<Rightarrow> string \<Rightarrow> 'l \<Rightarrow> int"
    and lim :: "'l \<Rightarrow> int"
    and ok :: "time \<Rightarrow> 'l \<Rightarrow> bool"
    and accepts :: "string \<Rightarrow> bool"
  assumes allow_iff: "ok now l \<Longrightarrow> 0 < n \<Longrightarrow> n < 2 ^ 62 \<Longrightarrow> snd (allowN now k n l) \<longleftrightarrow> n \<le> avail now k l"
    and allow_ok: "ok now l \<Longrightarrow> n < 2 ^ 62 \<Longrightarrow> ok now (fst (allowN now k n l)) \<and> lim (fst (allowN now k n l)) = lim l"
    and allow_spends: "ok now l \<Longrightarrow> 0 < n \<Longrightarrow> n \<le> avail now k l \<Longrightarrow>
          avail now k (fst (allowN now k n l)) \<le> avail now k l - n"
    and refuse_keeps: "ok now l \<Longrightarrow> n < 2 ^ 62 \<Longrightarrow> avail now k l < n \<Longrightarrow> 0 < n \<Longrightarrow> avail now k (fst (allowN now k n l)) = avail now k l"
    and other_keys: "ok now l \<Longrightarrow> n < 2 ^ 62 \<Longrightarrow> k' \<noteq> k \<Longrightarrow> avail now k' (fst (allowN now k n l)) = avail now k' l"
    and remaining_val: "ok now l \<Longrightarrow> snd (remaining now k l) = max 0 (avail now k l)"
    and remaining_keeps: "ok now l \<Longrightarrow> ok now (fst (remaining now k l)) \<and> lim (fst (remaining now k l)) = lim l \<and>
          avail now k' (fst (remaining now k l)) = avail now k' l"
    and avail_le: "ok now l \<Longrightarrow> avail now k l \<le> lim l"
    and lim_bounds: "ok now l \<Longrightarrow> 0 < lim l \<and> lim l < 2 ^ 62"
    and reset_full: "ok now l \<Longrightarrow> accepts k \<Longrightarrow> ok now (reset k l) \<and> avail now k (reset k l) = lim l"
    and reset_other: "ok now l \<Longrightarrow> k' \<noteq> k \<Longrightarrow> avail now k' (reset k l) = avail now k' l"
begin

abbreviation mw :: "time \<Rightarrow> string \<Rightarrow> 'l \<Rightarrow> 'l \<times> mw_result" where
  "mw \<equiv> NewWithLimiter (\<lambda>now k. allowN now k 1) remaining (\<lambda>k. k)"

text \<open>One request: forwarded exactly when the key has something left, which it then spends.\<close>

lemma mw_step:
  assumes "ok now l"
  shows "let (l', res) = mw now k l in
         ok now l' \<and> lim l' = lim l \<and> (forwarded res \<longleftrightarrow> 1 \<le> avail now k l) \<and>
         avail now k l' \<le> avail now k l - (if forwarded res then 1 else 0) \<and>
         (\<forall>k'. k' \<noteq> k \<longrightarrow> avail now k' l' = avail now k' l)"
proof -
  obtain l1 a where e: "allowN now k 1 l = (l1, a)" by fastforce
  have a: "a \<longleftrightarrow> 1 \<le> avail now k l" using allow_iff [OF assms, of 1 k] e by simp
  have o: "ok now l1" "lim l1 = lim l" using allow_ok [OF assms, of 1 k] e by simp_all
  have k: "k' \<noteq> k \<Longrightarrow> avail now k' l1 = avail now k' l" for k'
    using other_keys [OF assms, of 1 k' k] e by simp
  show ?thesis
  proof (cases a)
    case True
    obtain l2 rem where r: "remaining now k l1 = (l2, rem)" by fastforce
    have "avail now k l1 \<le> avail now k l - 1"
      using allow_spends [OF assms, of 1 k] a True e by simp
    moreover have "ok now l2" "lim l2 = lim l1" "\<And>k'. avail now k' l2 = avail now k' l1"
      using remaining_keeps [OF o(1), of k] r by simp_all
    ultimately show ?thesis
      using True a o k by (simp add: NewWithLimiter_def e r forwarded_def)
  next
    case False
    have "avail now k l1 = avail now k l"
      using refuse_keeps [OF assms, of 1 k] a False e by simp
    with False a o k show ?thesis by (simp add: NewWithLimiter_def e forwarded_def)
  qed
qed

lemma remaining_header:
  assumes "ok now l" and "mw now k l = (l', Forwarded hs)"
  shows "\<exists>m. hs = [(''RateLimit-Remaining'', itoa m), (''X-RateLimit-Remaining'', itoa m)] \<and>
             m = max 0 (avail now k l') \<and> m < lim l"
proof -
  obtain l1 a where e: "allowN now k 1 l = (l1, a)" by fastforce
  obtain l2 rem where r: "remaining now k l1 = (l2, rem)" by fastforce
  have a and h: "l' = l2" "hs = [(''RateLimit-Remaining'', itoa rem), (''X-RateLimit-Remaining'', itoa rem)]"
    using assms(2) by (auto simp: NewWithLimiter_def e r split: if_splits)
  have o: "ok now l1" using allow_ok [OF assms(1), of 1 k] e by simp
  have "1 \<le> avail now k l" using allow_iff [OF assms(1), of 1 k] e \<open>a\<close> by simp
  then have "avail now k l1 \<le> avail now k l - 1"
    using allow_spends [OF assms(1), of 1 k] e by simp
  then have "avail now k l1 < lim l" using avail_le [OF assms(1), of k] by simp
  moreover have "rem = max 0 (avail now k l1)" "avail now k l2 = avail now k l1"
    using remaining_val [OF o, of k] remaining_keeps [OF o, of k k] r by simp_all
  ultimately show ?thesis using h lim_bounds [OF assms(1)] by auto
qed

text \<open>In a burst no key gets more requests through than it has left, so never more than the limit.\<close>

lemma burst_bound:
  assumes "ok now l"
  shows "let (l', rs) = mw_burst (\<lambda>now k. allowN now k 1) remaining now ks l in
         int (length (filter (\<lambda>(k', r). k' = k \<and> forwarded r) (zip ks rs))) \<le> max 0 (avail now k l)"
  using assms
proof (induction ks arbitrary: l)
  case (Cons j ks)
  obtain l1 r where m: "mw now j l = (l1, r)" by fastforce
  obtain l2 rs where b: "mw_burst (\<lambda>now k. allowN now k 1) remaining now ks l1 = (l2, rs)" by fastforce
  note S = mw_step [OF Cons.prems, of j, unfolded m, simplified]
  from Cons.IH [of l1] S b have
    "int (length (filter (\<lambda>(k', r). k' = k \<and> forwarded r) (zip ks rs))) \<le> max 0 (avail now k l1)"
    by simp
  with S m b show ?case by (cases "j = k") (auto split: if_splits)
qed simp

lemma after_reset_allowed:
  assumes "ok now l" and "0 < n" and "n \<le> lim l" and "accepts k"
  shows "snd (allowN now k n (reset k l))"
  using reset_full [OF assms(1,4)] allow_iff [of now "reset k l" n k] lim_bounds [OF assms(1)] assms by simp

end

text \<open>The limiters that keep their state in memory accept every key and admit a request for no events.\<close>

locale limiter = keyed_limiter allowN remaining reset avail lim ok "\<lambda>_. True"
  for allowN remaining reset avail lim ok +
  assumes allow_nonpos: "n \<le> 0 \<Longrightarrow> allowN now k n l = (l, True)"

end
