(* ===== verification/Token_Bucket.thy ===== *)
theory Token_Bucket
  imports Rate_Limiter
begin

text \<open>
  \<open>TokenBucketLimiter\<close> (\<open>src/ratelimit/token_bucket.go\<close>): one bucket per key, refilled lazily when it is
  used, and dropped by a sweep once it has been idle. An operation reads the clock once (\<open>now\<close>); the
  keys' buckets are the values of a map, since each call locks the bucket it uses. An operation is one
  step; the code finds the bucket under the lock of the limiter and takes from it under the bucket's own,
  so a sweep or a \<open>Reset\<close> by another goroutine between the two is not in the model. The test hook
  \<open>preLockHook\<close> is not set. The proofs rest on a potential per key (\<open>tb_credit\<close>, in nanoseconds): time
  adds at most its own length, an admission of \<open>n\<close> takes \<open>n\<close> refill periods away.
\<close>

record tbBucket =
  tb_tokens :: int
  tb_last :: time

record TokenBucketLimiter =
  tb_buckets :: "(string, tbBucket) gomap"
  tb_capacity :: int
  tb_refillRate :: duration
  tb_lastGC :: time
  tb_gcInterval :: duration
  tb_idleTimeout :: duration

definition NewTokenBucket :: "time \<Rightarrow> int \<Rightarrow> duration \<Rightarrow> TokenBucketLimiter" where
  "NewTokenBucket now capacity refillRate =
     \<lparr>tb_buckets = [], tb_capacity = (if capacity \<le> 0 then 1 else capacity),
      tb_refillRate = (if refillRate \<le> 0 then second else refillRate),
      tb_lastGC = now, tb_gcInterval = 5 * minute, tb_idleTimeout = 5 * minute\<rparr>"

definition tb_initDefaults :: "time \<Rightarrow> TokenBucketLimiter \<Rightarrow> TokenBucketLimiter" where
  "tb_initDefaults now l =
     l\<lparr>tb_capacity := (if tb_capacity l \<le> 0 then 1 else tb_capacity l),
       tb_refillRate := (if tb_refillRate l \<le> 0 then second else tb_refillRate l),
       tb_lastGC := (if tb_lastGC l = zero_time then now else tb_lastGC l),
       tb_gcInterval := (if tb_gcInterval l \<le> 0 then 5 * minute else tb_gcInterval l),
       tb_idleTimeout := (if tb_idleTimeout l \<le> 0 then 5 * minute else tb_idleTimeout l)\<rparr>"

definition tb_maybeGC :: "time \<Rightarrow> TokenBucketLimiter \<Rightarrow> TokenBucketLimiter" where
  "tb_maybeGC now l =
     (if time_sub now (tb_lastGC l) < tb_gcInterval l then l
      else let cutoff = time_add now (- tb_idleTimeout l)
           in l\<lparr>tb_buckets := filter (\<lambda>(k, b). \<not> tb_last b < cutoff) (tb_buckets l), tb_lastGC := now\<rparr>)"

definition tb_getBucket :: "time \<Rightarrow> string \<Rightarrow> TokenBucketLimiter \<Rightarrow> TokenBucketLimiter \<times> tbBucket" where
  "tb_getBucket now key l =
     (case map_of (tb_buckets l) key of
        Some b \<Rightarrow> (l, b)
      | None \<Rightarrow>
          let l1 = tb_maybeGC now (tb_initDefaults now l) in
          case map_of (tb_buckets l1) key of
            Some b \<Rightarrow> (l1, b)
          | None \<Rightarrow>
              let b = \<lparr>tb_tokens = tb_capacity l1, tb_last = now\<rparr>
              in (l1\<lparr>tb_buckets := mput key b (tb_buckets l1)\<rparr>, b))"

text \<open>The refill at the head of \<open>AllowN\<close>; the division truncates, and \<open>int\<close> additions wrap.\<close>

definition tb_refill :: "time \<Rightarrow> TokenBucketLimiter \<Rightarrow> tbBucket \<Rightarrow> tbBucket" where
  "tb_refill now l b =
     (let elapsed = time_sub now (tb_last b); refill = elapsed sdiv tb_refillRate l in
      if refill > 0 then
        let tokens = wrap64 (tb_tokens b + refill) in
        if tokens \<ge> tb_capacity l then b\<lparr>tb_tokens := tb_capacity l, tb_last := now\<rparr>
        else b\<lparr>tb_tokens := tokens, tb_last := time_add (tb_last b) (wrap64 (refill * tb_refillRate l))\<rparr>
      else b)"

definition tb_AllowN :: "time \<Rightarrow> string \<Rightarrow> int \<Rightarrow> TokenBucketLimiter \<Rightarrow> TokenBucketLimiter \<times> bool" where
  "tb_AllowN now key n l =
     (if n \<le> 0 then (l, True)
      else
        let (l1, b0) = tb_getBucket now key l;
            b = tb_refill now l1 b0
        in if tb_tokens b < n then (l1\<lparr>tb_buckets := mput key b (tb_buckets l1)\<rparr>, False)
           else (l1\<lparr>tb_buckets := mput key (b\<lparr>tb_tokens := tb_tokens b - n\<rparr>) (tb_buckets l1)\<rparr>, True))"

definition tb_Allow :: "time \<Rightarrow> string \<Rightarrow> TokenBucketLimiter \<Rightarrow> TokenBucketLimiter \<times> bool" where
  "tb_Allow now key l = tb_AllowN now key 1 l"

definition tb_Remaining :: "time \<Rightarrow> string \<Rightarrow> TokenBucketLimiter \<Rightarrow> TokenBucketLimiter \<times> int" where
  "tb_Remaining now key l =
     (let (l1, b) = tb_getBucket now key l;
          elapsed = time_sub now (tb_last b);
          refill = elapsed sdiv tb_refillRate l1;
          tokens = wrap64 (tb_tokens b + refill)
      in (l1, if tokens > tb_capacity l1 then tb_capacity l1 else tokens))"

definition tb_Reset :: "string \<Rightarrow> TokenBucketLimiter \<Rightarrow> TokenBucketLimiter" where
  "tb_Reset key l = l\<lparr>tb_buckets := mdel key (tb_buckets l)\<rparr>"

section \<open>Invariant\<close>

text \<open>Clock readings between 1970 and 2116, so that no difference saturates and no sum wraps.\<close>

definition sane_time :: "time \<Rightarrow> bool" where
  "sane_time t \<longleftrightarrow> 0 \<le> t \<and> t < 2 ^ 62"

definition tb_bucket_ok :: "time \<Rightarrow> TokenBucketLimiter \<Rightarrow> tbBucket \<Rightarrow> bool" where
  "tb_bucket_ok now l b \<longleftrightarrow>
     0 \<le> tb_tokens b \<and> tb_tokens b \<le> tb_capacity l \<and> 0 \<le> tb_last b \<and> tb_last b \<le> now"

definition tb_ok :: "time \<Rightarrow> TokenBucketLimiter \<Rightarrow> bool" where
  "tb_ok now l \<longleftrightarrow> sane_time now \<and> map_ok (tb_buckets l) \<and>
     0 < tb_capacity l \<and> tb_capacity l < 2 ^ 62 \<and> 0 < tb_refillRate l \<and> 0 < tb_gcInterval l \<and>
     0 < tb_idleTimeout l \<and> sane_time (tb_lastGC l) \<and>
     (\<forall>k b. map_of (tb_buckets l) k = Some b \<longrightarrow> tb_bucket_ok now l b)"

lemma tb_ok_later: "tb_ok now l \<Longrightarrow> now \<le> now' \<Longrightarrow> sane_time now' \<Longrightarrow> tb_ok now' l"
  unfolding tb_ok_def tb_bucket_ok_def by force

lemma tb_ok_New: "sane_time now \<Longrightarrow> c < 2 ^ 62 \<Longrightarrow> tb_ok now (NewTokenBucket now c r)"
  by (auto simp: tb_ok_def NewTokenBucket_def second_def minute_def)

text \<open>What a bucket is worth at a time: whole tokens, and the exact credit in nanoseconds.\<close>

definition tb_worth :: "time \<Rightarrow> TokenBucketLimiter \<Rightarrow> tbBucket \<Rightarrow> int" where
  "tb_worth now l b = min (tb_capacity l) (tb_tokens b + (now - tb_last b) div tb_refillRate l)"

definition tb_avail :: "time \<Rightarrow> string \<Rightarrow> TokenBucketLimiter \<Rightarrow> int" where
  "tb_avail now k l =
     (case map_of (tb_buckets l) k of None \<Rightarrow> tb_capacity l | Some b \<Rightarrow> tb_worth now l b)"

lemma sane_sub:
  assumes "sane_time now" and "0 \<le> t" and "t \<le> now"
  shows "time_sub now t = now - t"
  using assms by (simp add: time_sub_def saturate64_id in_int64_def sane_time_def)

lemma tb_refill_bounds:
  assumes "sane_time now" and "tb_bucket_ok now l b" and "0 < tb_refillRate l" and "tb_capacity l < 2 ^ 62"
  shows "time_sub now (tb_last b) sdiv tb_refillRate l = (now - tb_last b) div tb_refillRate l"
    and "0 \<le> (now - tb_last b) div tb_refillRate l"
    and "wrap64 (tb_tokens b + (now - tb_last b) div tb_refillRate l) =
         tb_tokens b + (now - tb_last b) div tb_refillRate l"
    and "wrap64 ((now - tb_last b) div tb_refillRate l * tb_refillRate l) =
         (now - tb_last b) div tb_refillRate l * tb_refillRate l"
proof -
  let ?e = "now - tb_last b" and ?r = "tb_refillRate l"
  have e: "0 \<le> ?e" "?e < 2 ^ 62" using assms(1,2) by (auto simp: sane_time_def tb_bucket_ok_def)
  then show "time_sub now (tb_last b) sdiv ?r = ?e div ?r"
    using assms by (simp add: sane_sub tb_bucket_ok_def sdiv_nonneg_div)
  show p: "0 \<le> ?e div ?r" using e assms(3) by (simp add: pos_imp_zdiv_nonneg_iff)
  have le: "?e div ?r * ?r \<le> ?e"
    using assms(3) by (metis div_mult_mod_eq e(1) le_add_same_cancel1 pos_mod_sign)
  have "?e div ?r \<le> ?e div ?r * ?r" using p assms(3) by (simp add: mult_le_cancel_left1)
  with le e(2) have "?e div ?r < 2 ^ 62" by linarith
  with p assms(2,4) show "wrap64 (tb_tokens b + ?e div ?r) = tb_tokens b + ?e div ?r"
    by (intro wrap64_id) (simp add: in_int64_def tb_bucket_ok_def)
  have "0 \<le> ?e div ?r * ?r" using p assms(3) by simp
  then have "in_int64 (?e div ?r * ?r)"
    unfolding in_int64_def using order_le_less_trans [OF le e(2)] by (auto intro: order_trans [rotated])
  then show "wrap64 (?e div ?r * ?r) = ?e div ?r * ?r" by (rule wrap64_id)
qed

text \<open>The refill in one formula, and what it keeps.\<close>

lemma tb_refill_eq:
  assumes "sane_time now" and "tb_bucket_ok now l b" and "0 < tb_refillRate l" and "tb_capacity l < 2 ^ 62"
  defines "q \<equiv> (now - tb_last b) div tb_refillRate l"
  shows "tb_refill now l b =
     (if q = 0 then b
      else if tb_tokens b + q \<ge> tb_capacity l then \<lparr>tb_tokens = tb_capacity l, tb_last = now\<rparr>
      else \<lparr>tb_tokens = tb_tokens b + q, tb_last = tb_last b + q * tb_refillRate l\<rparr>)"
  using tb_refill_bounds [OF assms(1-4)]
  by (cases b) (auto simp: tb_refill_def time_add_def q_def Let_def)

lemma tb_refill_ok:
  assumes "sane_time now" and "tb_bucket_ok now l b" and "0 < tb_refillRate l"
    and "0 < tb_capacity l" and "tb_capacity l < 2 ^ 62"
  shows "tb_bucket_ok now l (tb_refill now l b) \<and> tb_tokens (tb_refill now l b) = tb_worth now l b \<and>
         now - tb_last (tb_refill now l b) < tb_refillRate l"
proof -
  let ?r = "tb_refillRate l"
  define q m where "q = (now - tb_last b) div ?r" and "m = (now - tb_last b) mod ?r"
  have b: "0 \<le> q" using tb_refill_bounds(2) [OF assms(1-3,5)] by (simp add: q_def)
  have m: "now = tb_last b + q * ?r + m" "0 \<le> m" "m < ?r"
    using assms(3) by (simp_all add: q_def m_def)
  have p: "0 \<le> q * ?r" using b assms(3) by simp
  have w: "0 \<le> tb_tokens b" "tb_tokens b \<le> tb_capacity l" "0 \<le> tb_last b" "tb_last b \<le> now"
    using assms(2) by (simp_all add: tb_bucket_ok_def)
  then have n: "0 \<le> now" by simp
  note F = tb_refill_eq [OF assms(1-3,5), folded q_def]
  consider "q = 0" | "q \<noteq> 0" "tb_capacity l \<le> tb_tokens b + q" | "q \<noteq> 0" "tb_tokens b + q < tb_capacity l"
    by linarith
  then show ?thesis
  proof cases
    case 1
    then have "now - tb_last b < ?r" using m by simp
    with 1 w show ?thesis by (simp add: F tb_bucket_ok_def tb_worth_def q_def [symmetric])
  next
    case 2
    with w n assms(3,4) show ?thesis by (simp add: F tb_bucket_ok_def tb_worth_def q_def [symmetric])
  next
    case 3
    have "now - (tb_last b + q * ?r) < ?r" "tb_last b + q * ?r \<le> now" using m by linarith+
    with 3 w b p show ?thesis by (simp add: F tb_bucket_ok_def tb_worth_def q_def [symmetric])
  qed
qed

section \<open>Looking a bucket up\<close>

definition tb_same_config :: "TokenBucketLimiter \<Rightarrow> TokenBucketLimiter \<Rightarrow> bool" where
  "tb_same_config l l1 \<longleftrightarrow> tb_capacity l1 = tb_capacity l \<and> tb_refillRate l1 = tb_refillRate l \<and>
     tb_gcInterval l1 = tb_gcInterval l \<and> tb_idleTimeout l1 = tb_idleTimeout l"

text \<open>The sweep drops only buckets idle for longer than \<open>idleTimeout\<close>.\<close>

definition tb_swept :: "time \<Rightarrow> TokenBucketLimiter \<Rightarrow> TokenBucketLimiter \<Rightarrow> string \<Rightarrow> bool" where
  "tb_swept now l l1 k \<longleftrightarrow> map_of (tb_buckets l1) k = None \<and>
     (\<exists>b. map_of (tb_buckets l) k = Some b \<and> tb_last b < now - tb_idleTimeout l)"

lemma tb_initDefaults_ok: "tb_ok now l \<Longrightarrow> tb_initDefaults now l = l"
  by (simp add: tb_ok_def tb_initDefaults_def sane_time_def zero_time_def)

lemma tb_maybeGC_lookup:
  "map_ok (tb_buckets l) \<Longrightarrow>
   map_of (tb_buckets (tb_maybeGC now l)) k = map_of (tb_buckets l) k \<or> tb_swept now l (tb_maybeGC now l) k"
  by (auto simp: tb_maybeGC_def tb_swept_def time_add_def Let_def map_of_filter_ok split: option.splits)

lemma tb_maybeGC_ok:
  assumes "tb_ok now l"
  shows "tb_ok now (tb_maybeGC now l) \<and> tb_same_config l (tb_maybeGC now l)"
proof -
  have "map_ok (tb_buckets l)" using assms by (simp add: tb_ok_def)
  from tb_maybeGC_lookup [OF this, of now] have
    "map_of (tb_buckets (tb_maybeGC now l)) k = Some b \<Longrightarrow> map_of (tb_buckets l) k = Some b" for k b
    by (metis option.distinct(1) tb_swept_def)
  moreover have "tb_same_config l (tb_maybeGC now l)"
    by (simp add: tb_same_config_def tb_maybeGC_def Let_def)
  moreover have "map_ok (tb_buckets (tb_maybeGC now l))" "sane_time (tb_lastGC (tb_maybeGC now l))"
    using assms by (simp_all add: tb_ok_def tb_maybeGC_def Let_def)
  ultimately show ?thesis
    using assms unfolding tb_ok_def tb_bucket_ok_def tb_same_config_def by metis
qed

lemma tb_getBucket_spec:
  assumes "tb_ok now l" and "tb_getBucket now k l = (l1, b)"
  shows "tb_ok now l1" and "tb_same_config l l1" and "map_of (tb_buckets l1) k = Some b"
    and "map_of (tb_buckets l) k = Some b \<or>
         map_of (tb_buckets l) k = None \<and> b = \<lparr>tb_tokens = tb_capacity l, tb_last = now\<rparr>"
    and "k' \<noteq> k \<Longrightarrow> map_of (tb_buckets l1) k' = map_of (tb_buckets l) k' \<or> tb_swept now l l1 k'"
proof -
  let ?g = "tb_maybeGC now l"
  have g: "tb_ok now ?g" "tb_same_config l ?g" using tb_maybeGC_ok [OF assms(1)] by simp_all
  have lk: "map_of (tb_buckets ?g) j = map_of (tb_buckets l) j \<or> tb_swept now l ?g j" for j
    using tb_maybeGC_lookup assms(1) by (simp add: tb_ok_def)
  have n: "map_of (tb_buckets ?g) k = None" if "map_of (tb_buckets l) k = None"
    using lk [of k] that by (auto simp: tb_swept_def)
  let ?b = "\<lparr>tb_tokens = tb_capacity l, tb_last = now\<rparr>"
  have c: "map_of (tb_buckets l) k = Some b \<and> l1 = l \<or>
      map_of (tb_buckets l) k = None \<and> b = ?b \<and> l1 = ?g\<lparr>tb_buckets := mput k ?b (tb_buckets ?g)\<rparr>"
    using assms(2) n g(2)
    by (auto simp: tb_getBucket_def tb_initDefaults_ok [OF assms(1)] tb_same_config_def Let_def
        split: option.splits)
  have "tb_ok now (?g\<lparr>tb_buckets := mput k ?b (tb_buckets ?g)\<rparr>)"
    using g assms(1)
    by (auto simp: tb_ok_def go_map tb_bucket_ok_def tb_same_config_def sane_time_def split: if_splits)
  with c assms(1) show "tb_ok now l1" by auto
  from c g(2) show "tb_same_config l l1" by (auto simp: tb_same_config_def)
  from c show "map_of (tb_buckets l1) k = Some b" by (auto simp: go_map)
  from c show "map_of (tb_buckets l) k = Some b \<or> map_of (tb_buckets l) k = None \<and> b = ?b" by auto
  show "map_of (tb_buckets l1) k' = map_of (tb_buckets l) k' \<or> tb_swept now l l1 k'" if "k' \<noteq> k"
    using c lk [of k'] that by (auto simp: go_map tb_swept_def)
qed

lemma tb_getBucket_avail:
  assumes "tb_ok now l" and "tb_getBucket now k l = (l1, b)"
  shows "tb_bucket_ok now l1 b" and "tb_worth now l1 b = tb_avail now k l"
proof -
  note G = tb_getBucket_spec [OF assms]
  from G(1,3) show "tb_bucket_ok now l1 b" by (simp add: tb_ok_def)
  from G(2,4) show "tb_worth now l1 b = tb_avail now k l"
    by (auto simp: tb_avail_def tb_worth_def tb_same_config_def)
qed

text \<open>Storing an updated bucket back under its key.\<close>

lemma tb_put_ok:
  "tb_ok now l1 \<Longrightarrow> tb_bucket_ok now l1 b \<Longrightarrow> tb_ok now (l1\<lparr>tb_buckets := mput k b (tb_buckets l1)\<rparr>)"
  by (auto simp: tb_ok_def go_map tb_bucket_ok_def)

section \<open>Operations\<close>

text \<open>\<open>AllowN\<close> on its admitting and its refusing branch.\<close>

lemma tb_AllowN_cases:
  assumes "tb_ok now l" and "0 < n" and "tb_AllowN now k n l = (l', a)"
  obtains l1 b where "tb_getBucket now k l = (l1, b)" and "a \<longleftrightarrow> n \<le> tb_avail now k l"
    and "l' = l1\<lparr>tb_buckets := mput k ((tb_refill now l1 b)\<lparr>tb_tokens := tb_avail now k l - (if a then n else 0)\<rparr>)
                    (tb_buckets l1)\<rparr>"
proof -
  obtain l1 b where G: "tb_getBucket now k l = (l1, b)" by fastforce
  note S = tb_getBucket_spec(1) [OF assms(1) G] and A = tb_getBucket_avail [OF assms(1) G]
  have "tb_tokens (tb_refill now l1 b) = tb_avail now k l"
    using tb_refill_ok [of now l1 b] S A by (simp add: tb_ok_def)
  with assms(2,3) G that [OF G] show thesis
    by (cases "tb_refill now l1 b") (auto simp: tb_AllowN_def Let_def split: if_splits)
qed

lemma tb_AllowN_bucket:
  assumes "tb_ok now l" and "tb_getBucket now k l = (l1, b)" and "0 < n"
    and "a \<longrightarrow> n \<le> tb_avail now k l"
  shows "tb_bucket_ok now l1 ((tb_refill now l1 b)\<lparr>tb_tokens := tb_avail now k l - (if a then n else 0)\<rparr>)"
proof -
  note S = tb_getBucket_spec(1) [OF assms(1,2)] and A = tb_getBucket_avail [OF assms(1,2)]
  from tb_refill_ok [of now l1 b] S A assms(3,4) show ?thesis
    by (auto simp: tb_ok_def tb_bucket_ok_def)
qed

lemma tb_AllowN_ok:
  assumes "tb_ok now l"
  shows "tb_ok now (fst (tb_AllowN now k n l)) \<and> tb_same_config l (fst (tb_AllowN now k n l))"
proof (cases "0 < n")
  case True
  obtain l' a where e: "tb_AllowN now k n l = (l', a)" by fastforce
  from tb_AllowN_cases [OF assms True e] obtain l1 b where c: "tb_getBucket now k l = (l1, b)"
    "a \<longleftrightarrow> n \<le> tb_avail now k l"
    "l' = l1\<lparr>tb_buckets := mput k ((tb_refill now l1 b)\<lparr>tb_tokens := tb_avail now k l - (if a then n else 0)\<rparr>)
                    (tb_buckets l1)\<rparr>" .
  note S = tb_getBucket_spec(1,2) [OF assms c(1)]
  have "tb_ok now l'" unfolding c(3)
    by (rule tb_put_ok [OF S(1)]) (use tb_AllowN_bucket [OF assms c(1) True] c(2) in blast)
  moreover have "tb_same_config l l'" using S(2) by (simp add: c(3) tb_same_config_def)
  ultimately show ?thesis by (simp add: e)
qed (use assms in \<open>simp add: tb_AllowN_def tb_same_config_def\<close>)

lemma tb_Remaining_spec:
  assumes "tb_ok now l"
  shows "snd (tb_Remaining now k l) = tb_avail now k l \<and>
         fst (tb_Remaining now k l) = fst (tb_getBucket now k l)"
proof -
  obtain l1 b where G: "tb_getBucket now k l = (l1, b)" by fastforce
  note S = tb_getBucket_spec(1) [OF assms G] and A = tb_getBucket_avail [OF assms G]
  from tb_refill_bounds(1,3) [of now l1 b] S A show ?thesis
    by (auto simp: tb_Remaining_def G tb_ok_def tb_worth_def Let_def)
qed

lemma tb_avail_bounds: "tb_ok now l \<Longrightarrow> 0 \<le> tb_avail now k l \<and> tb_avail now k l \<le> tb_capacity l"
  by (auto simp: tb_avail_def tb_worth_def tb_ok_def tb_bucket_ok_def pos_imp_zdiv_nonneg_iff
      split: option.splits)

text \<open>A sweep is invisible when a bucket idle for \<open>idleTimeout\<close> is full again.\<close>

definition tb_transparent :: "TokenBucketLimiter \<Rightarrow> bool" where
  "tb_transparent l \<longleftrightarrow> tb_capacity l * tb_refillRate l \<le> tb_idleTimeout l"

lemma tb_swept_worth:
  assumes "tb_ok now l" and "tb_transparent l" and "map_of (tb_buckets l) k = Some b"
    and "tb_last b < now - tb_idleTimeout l"
  shows "tb_worth now l b = tb_capacity l"
proof -
  have "tb_capacity l * tb_refillRate l div tb_refillRate l \<le> (now - tb_last b) div tb_refillRate l"
    using assms by (intro zdiv_mono1) (auto simp: tb_transparent_def tb_ok_def)
  moreover have "0 \<le> tb_tokens b" "0 < tb_refillRate l" using assms(1,3) by (auto simp: tb_ok_def tb_bucket_ok_def)
  ultimately show ?thesis by (simp add: tb_worth_def)
qed

lemma tb_getBucket_other:
  assumes "tb_ok now l" and "tb_transparent l" and "k' \<noteq> k"
  shows "tb_avail now k' (fst (tb_getBucket now k l)) = tb_avail now k' l"
proof -
  obtain l1 b where G: "tb_getBucket now k l = (l1, b)" by fastforce
  note S = tb_getBucket_spec(2) [OF assms(1) G] tb_getBucket_spec(5) [OF assms(1) G assms(3)]
  from S(2) show ?thesis
  proof
    assume "tb_swept now l l1 k'"
    then obtain b' where "map_of (tb_buckets l1) k' = None" "map_of (tb_buckets l) k' = Some b'"
      "tb_last b' < now - tb_idleTimeout l" by (auto simp: tb_swept_def)
    with tb_swept_worth [OF assms(1,2)] S(1) show ?thesis
      by (simp add: G tb_avail_def tb_same_config_def)
  qed (use S(1) in \<open>simp add: G tb_avail_def tb_worth_def tb_same_config_def split: option.splits\<close>)
qed

lemma tb_AllowN_avail:
  assumes "tb_ok now l" and "0 < n" and "tb_AllowN now k n l = (l', a)"
  shows "a \<longleftrightarrow> n \<le> tb_avail now k l"
    and "tb_avail now k l' = tb_avail now k l - (if a then n else 0)"
    and "tb_transparent l \<Longrightarrow> k' \<noteq> k \<Longrightarrow> tb_avail now k' l' = tb_avail now k' l"
proof -
  from tb_AllowN_cases [OF assms] obtain l1 b where c: "tb_getBucket now k l = (l1, b)"
    "a \<longleftrightarrow> n \<le> tb_avail now k l"
    "l' = l1\<lparr>tb_buckets := mput k ((tb_refill now l1 b)\<lparr>tb_tokens := tb_avail now k l - (if a then n else 0)\<rparr>)
                    (tb_buckets l1)\<rparr>" .
  then show "a \<longleftrightarrow> n \<le> tb_avail now k l" by simp
  note S = tb_getBucket_spec(1,2) [OF assms(1) c(1)] and A = tb_getBucket_avail [OF assms(1) c(1)]
  have r: "tb_bucket_ok now l1 (tb_refill now l1 b)" "now - tb_last (tb_refill now l1 b) < tb_refillRate l1"
    using tb_refill_ok [of now l1 b] S(1) A by (simp_all add: tb_ok_def)
  then have "(now - tb_last (tb_refill now l1 b)) div tb_refillRate l1 = 0"
    by (simp add: tb_bucket_ok_def div_pos_pos_trivial)
  moreover have "tb_avail now k l' = min (tb_capacity l1) (tb_avail now k l - (if a then n else 0) +
      (now - tb_last (tb_refill now l1 b)) div tb_refillRate l1)"
    unfolding c(3) tb_avail_def [of now k "l1\<lparr>tb_buckets := _\<rparr>"] by (simp add: go_map tb_worth_def)
  ultimately show "tb_avail now k l' = tb_avail now k l - (if a then n else 0)"
    using tb_avail_bounds [OF assms(1), of k] assms(2) S(2) by (simp add: tb_same_config_def)
  show "tb_avail now k' l' = tb_avail now k' l" if "tb_transparent l" "k' \<noteq> k"
    using tb_getBucket_other [OF assms(1) that] that(2)
    by (simp add: c(1,3) tb_avail_def go_map tb_worth_def split: option.splits)
qed

section \<open>The token bucket is a limiter\<close>

definition tb_good :: "time \<Rightarrow> TokenBucketLimiter \<Rightarrow> bool" where
  "tb_good now l \<longleftrightarrow> tb_ok now l \<and> tb_transparent l"

lemma tb_transparent_config: "tb_same_config l l' \<Longrightarrow> tb_transparent l' = tb_transparent l"
  by (simp add: tb_same_config_def tb_transparent_def)

lemma tb_getBucket_keeps:
  assumes "tb_good now l"
  shows "tb_good now (fst (tb_getBucket now k l)) \<and>
         tb_capacity (fst (tb_getBucket now k l)) = tb_capacity l \<and>
         tb_avail now k' (fst (tb_getBucket now k l)) = tb_avail now k' l"
proof -
  obtain l1 b where G: "tb_getBucket now k l = (l1, b)" by fastforce
  have o: "tb_ok now l" "tb_transparent l" using assms by (simp_all add: tb_good_def)
  note S = tb_getBucket_spec(1-3) [OF o(1) G]
  have "tb_avail now k l1 = tb_avail now k l"
    using tb_getBucket_avail(2) [OF o(1) G] S(3) by (simp add: tb_avail_def)
  with tb_getBucket_other [OF o, of k' k] S o tb_transparent_config [OF S(2)] show ?thesis
    by (cases "k' = k") (auto simp: G tb_good_def tb_same_config_def)
qed

lemma tb_Reset_avail:
  "tb_avail now k' (tb_Reset k l) = (if k' = k then tb_capacity l else tb_avail now k' l)"
  by (simp add: tb_Reset_def tb_avail_def go_map tb_worth_def split: option.splits)

lemma tb_Reset_ok: "tb_ok now l \<Longrightarrow> tb_ok now (tb_Reset k l)"
  by (auto simp: tb_Reset_def tb_ok_def go_map tb_bucket_ok_def split: if_splits)

lemmas tb_AllowN_fst_snd = tb_AllowN_avail [OF _ _ prod.collapse [symmetric]]

interpretation tbl: limiter tb_AllowN tb_Remaining tb_Reset tb_avail tb_capacity tb_good
proof (unfold_locales, goal_cases)
  case (1 now l n k)
  then show ?case
    using tb_AllowN_fst_snd(1) [of now l n k]
    by (simp add: tb_good_def)
next
  case (2 now l n k)
  then show ?case
    using tb_AllowN_ok [of now l k n] tb_transparent_config
    by (auto simp: tb_good_def tb_same_config_def tb_transparent_def)
next
  case (3 now l n k)
  then show ?case
    using tb_AllowN_fst_snd(1,2) [of now l n k]
    by (simp add: tb_good_def)
next
  case (4 now l n k)
  then show ?case
    using tb_AllowN_fst_snd(1,2) [of now l n k]
    by (simp add: tb_good_def)
next
  case (5 now l n k' k)
  then show ?case
    using tb_AllowN_fst_snd(3) [of now l n k' k]
    by (cases "0 < n") (simp_all add: tb_good_def tb_AllowN_def)
next
  case (6 now l k)
  then show ?case
    using tb_Remaining_spec [of now l k] tb_avail_bounds [of now l k] by (simp add: tb_good_def)
next
  case (7 now l k k')
  then show ?case
    using tb_Remaining_spec [of now l k] tb_getBucket_keeps [of now l k k'] by (simp add: tb_good_def)
next
  case (8 now l k)
  then show ?case using tb_avail_bounds [of now l k] by (simp add: tb_good_def)
next
  case (9 now l)
  then show ?case by (simp add: tb_good_def tb_ok_def)
next
  case (10 now l k)
  then show ?case
    using tb_Reset_ok [of now l k] tb_Reset_avail [of now k k l]
    by (simp add: tb_good_def tb_transparent_def tb_Reset_def)
next
  case (11 now l k' k)
  then show ?case by (simp add: tb_Reset_avail)
next
  case (12 n now k l)
  then show ?case by (simp add: tb_AllowN_def)
qed

section \<open>The long-run rate\<close>

text \<open>The credit of a key in nanoseconds; it never passes one refill period above a full bucket.\<close>

definition tb_credit :: "time \<Rightarrow> string \<Rightarrow> TokenBucketLimiter \<Rightarrow> int" where
  "tb_credit now k l =
     (case map_of (tb_buckets l) k of
        None \<Rightarrow> tb_capacity l * tb_refillRate l
      | Some b \<Rightarrow> min (tb_capacity l * tb_refillRate l + tb_refillRate l - 1)
                      (tb_tokens b * tb_refillRate l + (now - tb_last b)))"

datatype tb_op = OpAllow string int | OpRemaining string | OpReset string

fun tb_exec :: "time \<Rightarrow> tb_op \<Rightarrow> TokenBucketLimiter \<Rightarrow> TokenBucketLimiter \<times> bool" where
  "tb_exec now (OpAllow k n) l = tb_AllowN now k n l"
| "tb_exec now (OpRemaining k) l = (fst (tb_Remaining now k l), True)"
| "tb_exec now (OpReset k) l = (tb_Reset k l, True)"

text \<open>The events admitted for a key over a timed sequence of operations on all keys.\<close>

fun tb_admitted :: "string \<Rightarrow> (time \<times> tb_op) list \<Rightarrow> TokenBucketLimiter \<Rightarrow> int" where
  "tb_admitted k [] l = 0"
| "tb_admitted k ((t, op) # ops) l =
     (let (l1, a) = tb_exec t op l in
      (case op of OpAllow k' n \<Rightarrow> if k' = k \<and> 0 < n \<and> a then n else 0 | _ \<Rightarrow> 0) + tb_admitted k ops l1)"

lemma tb_credit_bounds:
  "tb_ok now l \<Longrightarrow> 0 \<le> tb_credit now k l \<and> tb_credit now k l \<le> tb_capacity l * tb_refillRate l + tb_refillRate l - 1"
  using mult_pos_pos [of "tb_capacity l" "tb_refillRate l"]
  by (auto simp: tb_credit_def tb_ok_def tb_bucket_ok_def split: option.splits intro!: add_pos_pos)

lemma tb_credit_later:
  "tb_ok now l \<Longrightarrow> now \<le> now' \<Longrightarrow> tb_credit now' k l \<le> tb_credit now k l + (now' - now)"
  by (auto simp: tb_credit_def split: option.splits)

lemma tb_refill_credit:
  assumes "sane_time now" and "tb_bucket_ok now l b" and "0 < tb_refillRate l" and "tb_capacity l < 2 ^ 62"
  shows "tb_tokens (tb_refill now l b) * tb_refillRate l + (now - tb_last (tb_refill now l b))
         \<le> tb_tokens b * tb_refillRate l + (now - tb_last b)"
proof -
  let ?r = "tb_refillRate l" and ?q = "(now - tb_last b) div tb_refillRate l"
  have "?q * ?r \<le> now - tb_last b"
    using assms(3) div_mult_mod_eq [of "now - tb_last b" ?r] pos_mod_sign [OF assms(3), of "now - tb_last b"]
    by linarith
  moreover have "tb_capacity l * ?r \<le> (tb_tokens b + ?q) * ?r" if "tb_capacity l \<le> tb_tokens b + ?q"
    using that assms(3) by (simp add: mult_right_mono)
  ultimately show ?thesis
    unfolding tb_refill_eq [OF assms] by (auto simp: algebra_simps)
qed

lemma tb_getBucket_credit:
  assumes "tb_ok now l" and "tb_getBucket now k l = (l1, b)"
  shows "tb_tokens b * tb_refillRate l + (now - tb_last b) = tb_capacity l * tb_refillRate l
           \<and> map_of (tb_buckets l) k = None \<or> map_of (tb_buckets l) k = Some b"
  using tb_getBucket_spec(4) [OF assms] by auto

lemma tb_AllowN_credit:
  assumes "tb_ok now l" and "0 < n" and "tb_AllowN now k n l = (l', a)"
  shows "tb_credit now k l' + (if a then n * tb_refillRate l else 0) \<le> tb_credit now k l"
proof -
  from tb_AllowN_cases [OF assms] obtain l1 b where c: "tb_getBucket now k l = (l1, b)"
    "l' = l1\<lparr>tb_buckets := mput k ((tb_refill now l1 b)\<lparr>tb_tokens := tb_avail now k l - (if a then n else 0)\<rparr>)
                    (tb_buckets l1)\<rparr>" by metis
  note S = tb_getBucket_spec(1,2,4) [OF assms(1) c(1)] and A = tb_getBucket_avail [OF assms(1) c(1)]
  let ?B = "tb_refill now l1 b" and ?r = "tb_refillRate l"
  have p: "sane_time now" "0 < tb_refillRate l1" "0 < tb_capacity l1" "tb_capacity l1 < 2 ^ 62"
    using S(1) by (simp_all add: tb_ok_def)
  have R: "tb_tokens ?B = tb_avail now k l" "now - tb_last ?B < ?r" "tb_avail now k l \<le> tb_capacity l"
    using tb_refill_ok [OF p(1) A(1) p(2-4)] A(2) S(2) tb_avail_bounds [OF assms(1), of k]
    by (simp_all add: tb_same_config_def)
  have rc: "tb_avail now k l * ?r + (now - tb_last ?B) \<le> tb_tokens b * ?r + (now - tb_last b)"
    using tb_refill_credit [OF p(1) A(1) p(2,4)] R(1) S(2) by (simp add: tb_same_config_def)
  have cap: "tb_avail now k l * ?r \<le> tb_capacity l * ?r"
    using R(3) p(2) S(2) by (simp add: tb_same_config_def mult_right_mono)
  have "tb_avail now k l * ?r + (now - tb_last ?B) \<le> tb_credit now k l"
    using rc cap R(2) S(3) by (auto simp: tb_credit_def)
  moreover have "tb_credit now k l' \<le> (tb_avail now k l - (if a then n else 0)) * ?r + (now - tb_last ?B)"
    using S(2) by (simp add: c(2) tb_credit_def go_map tb_same_config_def)
  ultimately show ?thesis by (auto simp: left_diff_distrib)
qed

lemma tb_swept_credit:
  assumes "tb_ok now l" and "tb_transparent l" and "tb_same_config l l1"
    and "map_of (tb_buckets l1) k = map_of (tb_buckets l) k \<or> tb_swept now l l1 k"
  shows "tb_credit now k l1 \<le> tb_credit now k l"
  using assms(4)
proof
  assume "tb_swept now l l1 k"
  then obtain b where s: "map_of (tb_buckets l1) k = None" "map_of (tb_buckets l) k = Some b"
    "tb_last b < now - tb_idleTimeout l" by (auto simp: tb_swept_def)
  have "0 \<le> tb_tokens b" "0 < tb_refillRate l" using assms(1) s(2) by (auto simp: tb_ok_def tb_bucket_ok_def)
  then have "0 \<le> tb_tokens b * tb_refillRate l" by simp
  with s assms(2,3) \<open>0 < tb_refillRate l\<close> show ?thesis
    by (simp add: tb_credit_def tb_transparent_def tb_same_config_def)
qed (use assms(3) in \<open>simp add: tb_credit_def tb_same_config_def split: option.splits\<close>)

lemma tb_getBucket_credit_le:
  assumes "tb_good now l"
  shows "tb_credit now k (fst (tb_getBucket now j l)) \<le> tb_credit now k l"
proof -
  obtain l1 b where G: "tb_getBucket now j l = (l1, b)" by fastforce
  have o: "tb_ok now l" "tb_transparent l" using assms by (simp_all add: tb_good_def)
  note S = tb_getBucket_spec [OF o(1) G]
  show ?thesis
  proof (cases "k = j")
    case True
    have "0 < tb_refillRate l" using o(1) by (simp add: tb_ok_def)
    with True S(2,3,4) show ?thesis by (auto simp: G tb_credit_def tb_same_config_def)
  next
    case False
    from tb_swept_credit [OF o S(2) S(5) [OF False]] show ?thesis by (simp add: G)
  qed
qed

lemma tb_exec_credit:
  assumes "tb_good now l" and "op \<noteq> OpReset k" and "tb_exec now op l = (l', a)"
  shows "tb_good now l' \<and> tb_capacity l' = tb_capacity l \<and> tb_refillRate l' = tb_refillRate l \<and>
         tb_credit now k l' +
           (case op of OpAllow k' n \<Rightarrow> if k' = k \<and> 0 < n \<and> a then n else 0 | _ \<Rightarrow> 0) * tb_refillRate l
         \<le> tb_credit now k l"
proof (cases op)
  case (OpAllow j n)
  have o: "tb_ok now l" "tb_transparent l" using assms(1) by (simp_all add: tb_good_def)
  have e: "tb_AllowN now j n l = (l', a)" using assms(3) OpAllow by simp
  have w: "tb_ok now l'" "tb_same_config l l'" using tb_AllowN_ok [OF o(1), of j n] e by simp_all
  have "tb_credit now k l' + (if j = k \<and> 0 < n \<and> a then n else 0) * tb_refillRate l \<le> tb_credit now k l"
  proof (cases "0 < n \<and> j \<noteq> k")
    case True
    from tb_AllowN_cases [OF o(1) _ e] True obtain l1 b where c: "tb_getBucket now j l = (l1, b)"
      "l' = l1\<lparr>tb_buckets := mput j ((tb_refill now l1 b)\<lparr>tb_tokens := tb_avail now j l - (if a then n else 0)\<rparr>)
                    (tb_buckets l1)\<rparr>" by metis
    then have "tb_credit now k l' = tb_credit now k l1"
      using True by (auto simp: tb_credit_def go_map split: option.splits)
    with tb_getBucket_credit_le [OF assms(1), of k j] c(1) True show ?thesis by simp
  next
    case False
    then show ?thesis
      using tb_AllowN_credit [OF o(1) _ e, of ] e by (cases "0 < n") (auto simp: tb_AllowN_def split: if_splits)
  qed
  with OpAllow w o tb_transparent_config show ?thesis by (simp add: tb_good_def tb_same_config_def tb_transparent_def)
next
  case (OpRemaining j)
  obtain l1 b where G: "tb_getBucket now j l = (l1, b)" by fastforce
  have o: "tb_ok now l" using assms(1) by (simp add: tb_good_def)
  have "l' = l1" using assms(3) OpRemaining tb_Remaining_spec [OF o, of j] G by simp
  with OpRemaining tb_getBucket_credit_le [OF assms(1), of k j] tb_getBucket_keeps [OF assms(1), of j]
    tb_getBucket_spec(2) [OF o G] show ?thesis by (simp add: G tb_same_config_def)
next
  case (OpReset j)
  with assms tb_Reset_ok [of now l j] show ?thesis
    by (auto simp: tb_good_def tb_transparent_def tb_credit_def go_map tb_Reset_def split: option.splits)
qed

lemma tb_admitted_bound:
  assumes "tb_good t0 l" and "sorted (t0 # map fst ops @ [t1])" and "sane_time t1"
    and "\<forall>(t, op) \<in> set ops. op \<noteq> OpReset k"
  shows "tb_admitted k ops l * tb_refillRate l \<le> tb_credit t0 k l + (t1 - t0)"
  using assms
proof (induction ops arbitrary: t0 l)
  case Nil
  then show ?case using tb_credit_bounds [of t0 l k] by (simp add: tb_good_def)
next
  case (Cons p ops)
  obtain t op where p: "p = (t, op)" by (cases p)
  obtain l' a where e: "tb_exec t op l = (l', a)" by fastforce
  have t: "t0 \<le> t" "t \<le> t1" using Cons.prems(2) by (auto simp: p)
  have o: "tb_ok t0 l" "sane_time t"
    using Cons.prems(1,3) t by (auto simp: tb_good_def tb_ok_def sane_time_def)
  have g: "tb_good t l"
    using Cons.prems(1) tb_ok_later [OF o(1) t(1) o(2)] by (simp add: tb_good_def)
  have "op \<noteq> OpReset k" using Cons.prems(4) by (simp add: p)
  note X = tb_exec_credit [OF g this e]
  have "tb_admitted k ops l' * tb_refillRate l' \<le> tb_credit t k l' + (t1 - t)"
    using Cons.prems X by (intro Cons.IH) (auto simp: p)
  with X tb_credit_later [OF o(1) t(1), of k] show ?case
    by (simp add: p e distrib_right)
qed

section \<open>Properties of the token bucket\<close>

lemma tb_good_New:
  assumes "sane_time t" and "c < 2 ^ 62"
    and "(if c \<le> 0 then 1 else c) * (if r \<le> 0 then second else r) \<le> 5 * minute"
  shows "tb_good t (NewTokenBucket t c r)"
  using tb_ok_New [OF assms(1,2)] assms(3) by (simp add: tb_good_def tb_transparent_def NewTokenBucket_def)

text \<open>
  C8: the long-run rate. Whatever operations are run on a new token bucket, on any keys, between
  \<open>t0\<close> and \<open>t1\<close> (sweeps of idle buckets included, no reset of the key itself), a key is admitted at
  most \<open>capacity + (t1 - t0) / refillRate\<close> events, provided a full refill takes no longer than the
  idle timeout of five minutes.
\<close>

theorem tb_rate_bound:
  assumes "sane_time t0" and "sane_time t1" and "c < 2 ^ 62" and "0 < c" and "0 < r"
    and "c * r \<le> 5 * minute"
    and "sorted (t0 # map fst ops @ [t1])" and "\<forall>(t, op) \<in> set ops. op \<noteq> OpReset k"
  shows "tb_admitted k ops (NewTokenBucket t0 c r) \<le> c + (t1 - t0) div r"
proof -
  let ?l = "NewTokenBucket t0 c r"
  have "tb_good t0 ?l" using assms by (intro tb_good_New) simp_all
  from tb_admitted_bound [OF this assms(7,2,8)]
  have "tb_admitted k ops ?l * r \<le> c * r + (t1 - t0)"
    using assms(4,5) by (simp add: NewTokenBucket_def tb_credit_def)
  then have "tb_admitted k ops ?l * r div r \<le> (c * r + (t1 - t0)) div r"
    using assms(5) by (intro zdiv_mono1)
  then show ?thesis using assms(5) by simp
qed

theorem tb_rate_bound_witness:
  "tb_admitted ''k'' [(0, OpAllow ''k'' 2), (5, OpAllow ''k'' 1), (12, OpAllow ''k'' 1)] (NewTokenBucket 0 2 10) = 3 \<and>
   tb_admitted ''k'' [(0, OpAllow ''k'' 2), (5, OpAllow ''k'' 1), (12, OpAllow ''k'' 1)] (NewTokenBucket 0 2 10)
     \<le> 2 + (19 - 0) div 10"
proof
  let ?ops = "[(0, OpAllow ''k'' 2), (5, OpAllow ''k'' 1), (12, OpAllow ''k'' 1)]"
  show "tb_admitted ''k'' ?ops (NewTokenBucket 0 2 10) = 3" by code_simp
  show "tb_admitted ''k'' ?ops (NewTokenBucket 0 2 10) \<le> 2 + (19 - 0) div 10"
    by (rule tb_rate_bound) (simp_all add: sane_time_def minute_def second_def)
qed

text \<open>
  What an operation decides. In every state that satisfies the invariant, \<open>AllowN\<close> admits \<open>n > 0\<close>
  events exactly when the key has at least \<open>n\<close> tokens after the refill (\<open>tb_avail\<close>, which
  \<open>Remaining\<close> reports), leaves \<open>tb_avail - n\<close> of them or, on refusal, all of them, and keeps every
  bucket between zero and the capacity.
\<close>

theorem tb_AllowN_decides:
  assumes "tb_ok now l" and "0 < n"
  shows "let (l', a) = tb_AllowN now k n l in
         (a \<longleftrightarrow> n \<le> tb_avail now k l) \<and> snd (tb_Remaining now k l) = tb_avail now k l \<and>
         snd (tb_Remaining now k l') = tb_avail now k l - (if a then n else 0) \<and>
         tb_ok now l' \<and> 0 \<le> tb_avail now k l' \<and> tb_avail now k l' \<le> tb_capacity l"
proof -
  obtain l' a where e: "tb_AllowN now k n l = (l', a)" by fastforce
  have w: "tb_ok now l'" "tb_capacity l' = tb_capacity l"
    using tb_AllowN_ok [OF assms(1), of k n] e by (simp_all add: tb_same_config_def)
  from tb_AllowN_avail(1,2) [OF assms e] tb_Remaining_spec [OF assms(1), of k]
    tb_Remaining_spec [OF w(1), of k] tb_avail_bounds [OF w(1), of k] w
  show ?thesis by (simp add: e)
qed

theorem tb_AllowN_decides_witness:
  "tb_AllowN 5 ''k'' 3 (NewTokenBucket 0 2 10) = (fst (tb_AllowN 5 ''k'' 3 (NewTokenBucket 0 2 10)), False) \<and>
   snd (tb_AllowN 5 ''k'' 2 (NewTokenBucket 0 2 10)) \<and>
   snd (tb_Remaining 5 ''k'' (fst (tb_AllowN 5 ''k'' 2 (NewTokenBucket 0 2 10)))) = 0"
proof -
  have "tb_ok 5 (NewTokenBucket 0 2 10)"
    by (rule tb_ok_later [OF tb_ok_New]) (simp_all add: sane_time_def)
  moreover have "tb_avail 5 ''k'' (NewTokenBucket 0 2 10) = 2" by code_simp
  ultimately show ?thesis
    using tb_AllowN_decides [of 5 "NewTokenBucket 0 2 10" 3 "''k''"]
      tb_AllowN_decides [of 5 "NewTokenBucket 0 2 10" 2 "''k''"]
    by (auto simp: case_prod_beta Let_def prod_eq_iff)
qed

text \<open>
  The sweep of idle buckets hands out tokens when the bucket refills slower than the idle
  timeout. With ten tokens per hour (what \<open>New(10, time.Hour)\<close> builds: a refill every six minutes),
  a key that spent its ten tokens is admitted ten more six minutes later, as soon as another key's
  first request has run the sweep: twenty events where the rate allows eleven.
\<close>

theorem tb_sweep_refills_slow_buckets:
  "tb_admitted ''k'' [(0, OpAllow ''k'' 10), (6 * minute, OpAllow ''other'' 1), (6 * minute, OpAllow ''k'' 10)]
     (NewTokenBucket 0 10 (6 * minute)) = 20 \<and>
   10 + (6 * minute - 0) div (6 * minute) = 11"
  by (intro conjI) code_simp+

end
