(* ===== verification/Sliding_Window.thy ===== *)
theory Sliding_Window
  imports Rate_Limiter Float64
begin

text \<open>
  \<open>SlidingWindowLimiter\<close> (\<open>src/ratelimit/sliding_window.go\<close>): per key, the counts of the current and
  of the previous aligned window; the estimate weighs the previous one by the part of it the sliding
  window still covers, in double precision. As in \<open>Token_Bucket\<close>, an operation reads the clock
  once and the entries are values of a map.
\<close>

record swEntry =
  sw_currWindowStart :: time
  sw_currCount :: int
  sw_prevCount :: int

record SlidingWindowLimiter =
  sw_windows :: "(string, swEntry) gomap"
  sw_limit :: int
  sw_window :: duration
  sw_lastGC :: time
  sw_gcInterval :: duration
  sw_idleTimeout :: duration

definition NewSlidingWindow :: "time \<Rightarrow> int \<Rightarrow> duration \<Rightarrow> SlidingWindowLimiter" where
  "NewSlidingWindow now limit window =
     \<lparr>sw_windows = [], sw_limit = (if limit \<le> 0 then 1 else limit),
      sw_window = (if window \<le> 0 then minute else window),
      sw_lastGC = now, sw_gcInterval = 5 * minute, sw_idleTimeout = 5 * minute\<rparr>"

definition sw_initDefaults :: "time \<Rightarrow> SlidingWindowLimiter \<Rightarrow> SlidingWindowLimiter" where
  "sw_initDefaults now l =
     l\<lparr>sw_limit := (if sw_limit l \<le> 0 then 1 else sw_limit l),
       sw_window := (if sw_window l \<le> 0 then minute else sw_window l),
       sw_lastGC := (if sw_lastGC l = zero_time then now else sw_lastGC l),
       sw_gcInterval := (if sw_gcInterval l \<le> 0 then 5 * minute else sw_gcInterval l),
       sw_idleTimeout := (if sw_idleTimeout l \<le> 0 then 5 * minute else sw_idleTimeout l)\<rparr>"

definition sw_maybeGC :: "time \<Rightarrow> SlidingWindowLimiter \<Rightarrow> SlidingWindowLimiter" where
  "sw_maybeGC now l =
     (if time_sub now (sw_lastGC l) < sw_gcInterval l then l
      else let cutoff = time_add now (- sw_idleTimeout l)
           in l\<lparr>sw_windows := filter (\<lambda>(k, e). \<not> sw_currWindowStart e < cutoff) (sw_windows l), sw_lastGC := now\<rparr>)"

definition sw_getEntry :: "time \<Rightarrow> string \<Rightarrow> SlidingWindowLimiter \<Rightarrow> SlidingWindowLimiter \<times> swEntry" where
  "sw_getEntry now key l =
     (case map_of (sw_windows l) key of
        Some e \<Rightarrow> (l, e)
      | None \<Rightarrow>
          let l1 = sw_maybeGC now (sw_initDefaults now l) in
          case map_of (sw_windows l1) key of
            Some e \<Rightarrow> (l1, e)
          | None \<Rightarrow>
              let e = \<lparr>sw_currWindowStart = time_truncate now (sw_window l1), sw_currCount = 0, sw_prevCount = 0\<rparr>
              in (l1\<lparr>sw_windows := mput key e (sw_windows l1)\<rparr>, e))"

definition sw_advance :: "time \<Rightarrow> duration \<Rightarrow> swEntry \<Rightarrow> swEntry" where
  "sw_advance now window e =
     (let currentWindow = time_truncate now window in
      if currentWindow = sw_currWindowStart e then e
      else if currentWindow = time_add (sw_currWindowStart e) window then
        e\<lparr>sw_currWindowStart := currentWindow, sw_currCount := 0, sw_prevCount := sw_currCount e\<rparr>
      else if currentWindow > time_add (sw_currWindowStart e) window then
        e\<lparr>sw_currWindowStart := currentWindow, sw_currCount := 0, sw_prevCount := 0\<rparr>
      else e)"

definition sw_estimatedCount :: "time \<Rightarrow> duration \<Rightarrow> swEntry \<Rightarrow> swEntry \<times> rat" where
  "sw_estimatedCount now window e0 =
     (let e = sw_advance now window e0;
          timeInCurrentWindow = max 0 (min window (time_sub now (sw_currWindowStart e)));
          prevWeight = fdiv (float64_of (window - timeInCurrentWindow)) (float64_of window)
      in (e, fadd (fmul (float64_of (sw_prevCount e)) prevWeight) (float64_of (sw_currCount e))))"

definition sw_AllowN :: "time \<Rightarrow> string \<Rightarrow> int \<Rightarrow> SlidingWindowLimiter \<Rightarrow> SlidingWindowLimiter \<times> bool" where
  "sw_AllowN now key n l =
     (if n \<le> 0 then (l, True)
      else
        let (l1, e0) = sw_getEntry now key l;
            (e, est) = sw_estimatedCount now (sw_window l1) e0
        in if wrap64 (trunc_int est + n) > sw_limit l1
           then (l1\<lparr>sw_windows := mput key e (sw_windows l1)\<rparr>, False)
           else (l1\<lparr>sw_windows := mput key (e\<lparr>sw_currCount := wrap64 (sw_currCount e + n)\<rparr>) (sw_windows l1)\<rparr>, True))"

definition sw_Allow :: "time \<Rightarrow> string \<Rightarrow> SlidingWindowLimiter \<Rightarrow> SlidingWindowLimiter \<times> bool" where
  "sw_Allow now key l = sw_AllowN now key 1 l"

definition sw_Remaining :: "time \<Rightarrow> string \<Rightarrow> SlidingWindowLimiter \<Rightarrow> SlidingWindowLimiter \<times> int" where
  "sw_Remaining now key l =
     (let (l1, e0) = sw_getEntry now key l;
          (e, est) = sw_estimatedCount now (sw_window l1) e0
      in (l1\<lparr>sw_windows := mput key e (sw_windows l1)\<rparr>, max 0 (sw_limit l1 - trunc_int est)))"

definition sw_Reset :: "string \<Rightarrow> SlidingWindowLimiter \<Rightarrow> SlidingWindowLimiter" where
  "sw_Reset key l = l\<lparr>sw_windows := mdel key (sw_windows l)\<rparr>"

section \<open>Invariant\<close>

definition aligned :: "duration \<Rightarrow> time \<Rightarrow> bool" where
  "aligned w t \<longleftrightarrow> w dvd (t - zero_time)"

definition sw_entry_ok :: "time \<Rightarrow> SlidingWindowLimiter \<Rightarrow> swEntry \<Rightarrow> bool" where
  "sw_entry_ok now l e \<longleftrightarrow> aligned (sw_window l) (sw_currWindowStart e) \<and>
     sw_currWindowStart e \<le> time_truncate now (sw_window l) \<and>
     0 \<le> sw_currCount e \<and> sw_currCount e \<le> sw_limit l \<and> 0 \<le> sw_prevCount e \<and> sw_prevCount e \<le> sw_limit l"

definition sw_ok :: "time \<Rightarrow> SlidingWindowLimiter \<Rightarrow> bool" where
  "sw_ok now l \<longleftrightarrow> map_ok (sw_windows l) \<and> 0 < sw_limit l \<and> sw_limit l < 2 ^ 50 \<and>
     0 < sw_window l \<and> sw_window l < 2 ^ 63 \<and> 0 < sw_gcInterval l \<and> 0 < sw_idleTimeout l \<and>
     sw_lastGC l \<noteq> zero_time \<and> now \<noteq> zero_time \<and>
     (\<forall>k e. map_of (sw_windows l) k = Some e \<longrightarrow> sw_entry_ok now l e)"

lemma aligned_truncate: "0 < w \<Longrightarrow> aligned w (time_truncate t w)"
  by (simp add: aligned_def time_truncate_def) (metis add_diff_eq diff_add_eq_diff_diff_swap diff_right_commute dvd_minus_mod)

lemma aligned_less:
  assumes "aligned w s" and "aligned w t" and "s < t"
  shows "s + w \<le> t"
proof -
  have "w dvd (t - s)" using assms(1,2) dvd_diff [of w "t - zero_time" "s - zero_time"]
    by (simp add: aligned_def)
  with assms(3) zdvd_imp_le [of w "t - s"] show ?thesis by simp
qed

lemma sw_ok_later: "sw_ok now l \<Longrightarrow> now \<le> now' \<Longrightarrow> now' \<noteq> zero_time \<Longrightarrow> sw_ok now' l"
  unfolding sw_ok_def sw_entry_ok_def using time_truncate_mono by (meson order_trans)

lemma sw_ok_New:
  "n < 2 ^ 50 \<Longrightarrow> w < 2 ^ 63 \<Longrightarrow> t \<noteq> zero_time \<Longrightarrow> sw_ok t (NewSlidingWindow t n w)"
  by (simp add: sw_ok_def NewSlidingWindow_def second_def minute_def)

text \<open>The entry after \<open>advance\<close> counts the window that holds \<open>now\<close>.\<close>

lemma sw_advance_eq:
  assumes "aligned w (sw_currWindowStart e)" and "sw_currWindowStart e \<le> time_truncate now w" and "0 < w"
  shows "sw_advance now w e =
     \<lparr>sw_currWindowStart = time_truncate now w,
      sw_currCount = (if sw_currWindowStart e = time_truncate now w then sw_currCount e else 0),
      sw_prevCount = (if sw_currWindowStart e = time_truncate now w then sw_prevCount e
                      else if sw_currWindowStart e + w = time_truncate now w then sw_currCount e else 0)\<rparr>"
proof (cases "sw_currWindowStart e = time_truncate now w")
  case True
  then show ?thesis by (cases e) (simp add: sw_advance_def)
next
  case False
  then have "sw_currWindowStart e + w \<le> time_truncate now w"
    using aligned_less [OF assms(1) aligned_truncate [OF assms(3)]] assms(2) by simp
  with False show ?thesis by (cases e) (auto simp: sw_advance_def time_add_def Let_def)
qed

lemma sw_advance_ok:
  assumes "sw_entry_ok now l e" and "0 < sw_window l" and "0 < sw_limit l"
  shows "sw_entry_ok now l (sw_advance now (sw_window l) e) \<and>
         sw_currWindowStart (sw_advance now (sw_window l) e) = time_truncate now (sw_window l)"
  using assms sw_advance_eq [of "sw_window l" e now] aligned_truncate [of "sw_window l" now]
  by (simp add: sw_entry_ok_def)

lemma sw_advance_idem:
  "sw_currWindowStart e = time_truncate now w \<Longrightarrow> sw_advance now w e = e"
  by (simp add: sw_advance_def)

text \<open>The estimate, and the amount it leaves.\<close>

definition sw_weight :: "time \<Rightarrow> duration \<Rightarrow> rat" where
  "sw_weight now w =
     fdiv (float64_of (w - max 0 (min w (time_sub now (time_truncate now w))))) (float64_of w)"

definition sw_est :: "time \<Rightarrow> duration \<Rightarrow> swEntry \<Rightarrow> rat" where
  "sw_est now w e = fadd (fmul (float64_of (sw_prevCount e)) (sw_weight now w)) (float64_of (sw_currCount e))"

lemma sw_estimatedCount_eq:
  assumes "sw_entry_ok now l e" and "0 < sw_window l" and "0 < sw_limit l"
  shows "sw_estimatedCount now (sw_window l) e =
     (sw_advance now (sw_window l) e, sw_est now (sw_window l) (sw_advance now (sw_window l) e))"
  using sw_advance_ok [OF assms] by (simp add: sw_estimatedCount_def sw_est_def sw_weight_def Let_def)

lemma sw_weight_bounds:
  assumes "0 < w"
  shows "0 \<le> sw_weight now w \<and> sw_weight now w \<le> 1"
proof -
  let ?d = "w - max 0 (min w (time_sub now (time_truncate now w)))"
  have d: "0 \<le> ?d" "?d \<le> w" using assms by auto
  have "float64_of ?d \<le> float64_of w" by (rule float64_of_mono [OF d])
  moreover have "0 \<le> float64_of ?d" using d(1) by simp
  ultimately have "0 \<le> float64_of ?d / float64_of w" "float64_of ?d / float64_of w \<le> 1"
    by (auto simp: divide_le_eq_1 intro: divide_nonneg_nonneg)
  then show ?thesis
    using fl64_mono [of "float64_of ?d / float64_of w" 1] by (simp add: sw_weight_def fdiv_def)
qed

lemma sw_prev_bounds:
  assumes "0 < w" and "0 \<le> p" and "p < 2 ^ 50"
  shows "0 \<le> fmul (float64_of p) (sw_weight now w) \<and> fmul (float64_of p) (sw_weight now w) \<le> of_int p"
proof -
  have f: "float64_of p = of_int p" using assms by (simp add: float64_of_exact)
  have "(of_int p :: rat) * sw_weight now w \<le> of_int p * 1" "0 \<le> of_int p * sw_weight now w"
    using sw_weight_bounds [OF assms(1), of now] assms(2) by (intro mult_left_mono mult_nonneg_nonneg; simp)+
  then show ?thesis
    using assms(3) fl64_le_int [of p "of_int p * sw_weight now w"] by (simp add: fmul_def f)
qed

lemma sw_est_sum:
  assumes "sw_entry_ok now l e" and "sw_ok now l"
  shows "sw_est now (sw_window l) e =
     fl64 (fmul (float64_of (sw_prevCount e)) (sw_weight now (sw_window l)) + of_int (sw_currCount e))"
  using assms by (simp add: sw_est_def fadd_def sw_ok_def sw_entry_ok_def float64_of_exact)

lemma sw_est_bounds:
  assumes "sw_entry_ok now l e" and "sw_ok now l"
  shows "of_int (sw_currCount e) \<le> sw_est now (sw_window l) e"
    and "sw_est now (sw_window l) e \<le> of_int (2 * sw_limit l)"
    and "0 \<le> sw_est now (sw_window l) e"
proof -
  let ?x = "fmul (float64_of (sw_prevCount e)) (sw_weight now (sw_window l))"
  have c: "0 < sw_window l" "0 \<le> sw_prevCount e" "sw_prevCount e < 2 ^ 50" "0 \<le> sw_currCount e"
    "sw_currCount e \<le> sw_limit l" "sw_limit l < 2 ^ 50" "sw_prevCount e \<le> sw_limit l"
    using assms by (auto simp: sw_ok_def sw_entry_ok_def)
  note P = sw_prev_bounds [OF c(1-3), of now]
  have u: "?x \<le> of_int (sw_limit l)" "(of_int (sw_currCount e) :: rat) \<le> of_int (sw_limit l)"
    using P c(5,7) by (meson of_int_le_iff order_trans)+
  show l: "of_int (sw_currCount e) \<le> sw_est now (sw_window l) e"
    unfolding sw_est_sum [OF assms] using P c by (intro fl64_ge_int) auto
  show "sw_est now (sw_window l) e \<le> of_int (2 * sw_limit l)"
    unfolding sw_est_sum [OF assms] using P u c by (intro fl64_le_int) auto
  show "0 \<le> sw_est now (sw_window l) e" using l c(4) by (meson of_int_0_le_iff order_trans)
qed

section \<open>Looking an entry up\<close>

definition sw_same_config :: "SlidingWindowLimiter \<Rightarrow> SlidingWindowLimiter \<Rightarrow> bool" where
  "sw_same_config l l1 \<longleftrightarrow> sw_limit l1 = sw_limit l \<and> sw_window l1 = sw_window l \<and>
     sw_gcInterval l1 = sw_gcInterval l \<and> sw_idleTimeout l1 = sw_idleTimeout l"

definition sw_swept :: "time \<Rightarrow> SlidingWindowLimiter \<Rightarrow> SlidingWindowLimiter \<Rightarrow> string \<Rightarrow> bool" where
  "sw_swept now l l1 k \<longleftrightarrow> map_of (sw_windows l1) k = None \<and>
     (\<exists>e. map_of (sw_windows l) k = Some e \<and> sw_currWindowStart e < now - sw_idleTimeout l)"

definition sw_empty :: "time \<Rightarrow> duration \<Rightarrow> swEntry" where
  "sw_empty now w = \<lparr>sw_currWindowStart = time_truncate now w, sw_currCount = 0, sw_prevCount = 0\<rparr>"

text \<open>The entry an operation works on: the stored one, brought forward, or an empty one.\<close>

definition sw_cur :: "time \<Rightarrow> string \<Rightarrow> SlidingWindowLimiter \<Rightarrow> swEntry" where
  "sw_cur now k l =
     (case map_of (sw_windows l) k of None \<Rightarrow> sw_empty now (sw_window l) | Some e \<Rightarrow> sw_advance now (sw_window l) e)"

definition sw_avail :: "time \<Rightarrow> string \<Rightarrow> SlidingWindowLimiter \<Rightarrow> int" where
  "sw_avail now k l = sw_limit l - \<lfloor>sw_est now (sw_window l) (sw_cur now k l)\<rfloor>"

lemma sw_initDefaults_ok: "sw_ok now l \<Longrightarrow> sw_initDefaults now l = l"
  by (simp add: sw_ok_def sw_initDefaults_def)

lemma sw_maybeGC_lookup:
  "map_ok (sw_windows l) \<Longrightarrow>
   map_of (sw_windows (sw_maybeGC now l)) k = map_of (sw_windows l) k \<or> sw_swept now l (sw_maybeGC now l) k"
  by (auto simp: sw_maybeGC_def sw_swept_def time_add_def Let_def map_of_filter_ok split: option.splits)

lemma sw_maybeGC_ok:
  assumes "sw_ok now l"
  shows "sw_ok now (sw_maybeGC now l) \<and> sw_same_config l (sw_maybeGC now l)"
proof -
  have "map_ok (sw_windows l)" using assms by (simp add: sw_ok_def)
  from sw_maybeGC_lookup [OF this, of now] have
    "map_of (sw_windows (sw_maybeGC now l)) k = Some b \<Longrightarrow> map_of (sw_windows l) k = Some b" for k b
    by (metis option.distinct(1) sw_swept_def)
  moreover have "sw_same_config l (sw_maybeGC now l)"
    by (simp add: sw_same_config_def sw_maybeGC_def Let_def)
  moreover have "map_ok (sw_windows (sw_maybeGC now l))" "sw_lastGC (sw_maybeGC now l) \<noteq> zero_time"
    using assms by (simp_all add: sw_ok_def sw_maybeGC_def Let_def)
  ultimately show ?thesis
    using assms unfolding sw_ok_def sw_entry_ok_def sw_same_config_def by metis
qed

lemma sw_empty_ok: "sw_ok now l \<Longrightarrow> sw_entry_ok now l (sw_empty now (sw_window l))"
  by (simp add: sw_ok_def sw_entry_ok_def sw_empty_def aligned_truncate)

lemma sw_put_ok:
  "sw_ok now l \<Longrightarrow> sw_entry_ok now l e \<Longrightarrow> sw_ok now (l\<lparr>sw_windows := mput k e (sw_windows l)\<rparr>)"
  by (auto simp: sw_ok_def go_map sw_entry_ok_def)

lemma sw_getEntry_spec:
  assumes "sw_ok now l" and "sw_getEntry now k l = (l1, e)"
  shows "sw_ok now l1" and "sw_same_config l l1" and "map_of (sw_windows l1) k = Some e"
    and "sw_advance now (sw_window l) e = sw_cur now k l"
    and "k' \<noteq> k \<Longrightarrow> map_of (sw_windows l1) k' = map_of (sw_windows l) k' \<or> sw_swept now l l1 k'"
proof -
  let ?g = "sw_maybeGC now l" and ?e = "sw_empty now (sw_window l)"
  have g: "sw_ok now ?g" "sw_same_config l ?g" using sw_maybeGC_ok [OF assms(1)] by simp_all
  have lk: "map_of (sw_windows ?g) j = map_of (sw_windows l) j \<or> sw_swept now l ?g j" for j
    using sw_maybeGC_lookup assms(1) by (simp add: sw_ok_def)
  have n: "map_of (sw_windows ?g) k = None" if "map_of (sw_windows l) k = None"
    using lk [of k] that by (auto simp: sw_swept_def)
  have c: "map_of (sw_windows l) k = Some e \<and> l1 = l \<or>
      map_of (sw_windows l) k = None \<and> e = ?e \<and> l1 = ?g\<lparr>sw_windows := mput k ?e (sw_windows ?g)\<rparr>"
    using assms(2) n g(2)
    by (auto simp: sw_getEntry_def sw_initDefaults_ok [OF assms(1)] sw_same_config_def sw_empty_def Let_def
        split: option.splits)
  have "sw_entry_ok now ?g ?e" using sw_empty_ok [OF g(1)] g(2) by (simp add: sw_same_config_def)
  from sw_put_ok [OF g(1) this] c assms(1) show "sw_ok now l1" by auto
  from c g(2) show "sw_same_config l l1" by (auto simp: sw_same_config_def)
  from c show "map_of (sw_windows l1) k = Some e" by (auto simp: go_map)
  from c show "sw_advance now (sw_window l) e = sw_cur now k l"
    by (auto simp: sw_cur_def sw_advance_idem sw_empty_def)
  show "map_of (sw_windows l1) k' = map_of (sw_windows l) k' \<or> sw_swept now l l1 k'" if "k' \<noteq> k"
    using c lk [of k'] that by (auto simp: go_map sw_swept_def)
qed

lemma sw_cur_ok:
  assumes "sw_ok now l"
  shows "sw_entry_ok now l (sw_cur now k l) \<and> sw_currWindowStart (sw_cur now k l) = time_truncate now (sw_window l)"
proof -
  have p: "0 < sw_window l" "0 < sw_limit l" using assms by (simp_all add: sw_ok_def)
  show ?thesis
  proof (cases "map_of (sw_windows l) k")
    case None
    with sw_empty_ok [OF assms] show ?thesis by (simp add: sw_cur_def sw_empty_def)
  next
    case (Some e)
    then have "sw_entry_ok now l e" using assms by (simp add: sw_ok_def)
    from sw_advance_ok [OF this p] Some show ?thesis by (simp add: sw_cur_def)
  qed
qed

text \<open>A stored, advanced entry of an operation's key is the current one at the same time.\<close>

lemma sw_cur_put:
  assumes "sw_currWindowStart e = time_truncate now (sw_window l)"
  shows "sw_cur now k' (l\<lparr>sw_windows := mput k e (sw_windows l)\<rparr>) = (if k' = k then e else sw_cur now k' l)"
  using assms by (simp add: sw_cur_def go_map sw_advance_idem split: option.split)

section \<open>Operations\<close>

lemma sw_entry_ok_config: "sw_same_config l l1 \<Longrightarrow> sw_entry_ok now l1 e = sw_entry_ok now l e"
  by (simp add: sw_entry_ok_def sw_same_config_def)

lemma trunc_int_floor: "0 \<le> x \<Longrightarrow> trunc_int x = \<lfloor>x\<rfloor>"
  by (simp add: trunc_int_def)

lemma sw_op_spec:
  assumes "sw_ok now l" and "sw_getEntry now k l = (l1, e0)"
  shows "sw_estimatedCount now (sw_window l1) e0 = (sw_cur now k l, sw_est now (sw_window l) (sw_cur now k l))"
    and "sw_entry_ok now l1 (sw_cur now k l)"
    and "trunc_int (sw_est now (sw_window l) (sw_cur now k l)) = sw_limit l - sw_avail now k l"
proof -
  note G = sw_getEntry_spec [OF assms]
  have p: "0 < sw_window l1" "0 < sw_limit l1" and e: "sw_entry_ok now l1 e0" and w: "sw_window l1 = sw_window l"
    using G(1,2,3) by (simp_all add: sw_ok_def sw_same_config_def)
  show "sw_estimatedCount now (sw_window l1) e0 = (sw_cur now k l, sw_est now (sw_window l) (sw_cur now k l))"
    using sw_estimatedCount_eq [OF e p] G(4) w by simp
  show "sw_entry_ok now l1 (sw_cur now k l)"
    using sw_cur_ok [OF assms(1), of k] sw_entry_ok_config [OF G(2)] by blast
  have "0 \<le> sw_est now (sw_window l) (sw_cur now k l)"
    using sw_est_bounds(3) [OF _ assms(1)] sw_cur_ok [OF assms(1)] by blast
  then show "trunc_int (sw_est now (sw_window l) (sw_cur now k l)) = sw_limit l - sw_avail now k l"
    by (simp add: trunc_int_floor sw_avail_def)
qed

lemma sw_avail_bounds:
  assumes "sw_ok now l"
  shows "- sw_limit l \<le> sw_avail now k l" and "sw_avail now k l \<le> sw_limit l - sw_currCount (sw_cur now k l)"
    and "0 \<le> sw_currCount (sw_cur now k l)"
proof -
  have e: "sw_entry_ok now l (sw_cur now k l)" using sw_cur_ok [OF assms] by blast
  note B = sw_est_bounds [OF e assms]
  from B(1) have "sw_currCount (sw_cur now k l) \<le> \<lfloor>sw_est now (sw_window l) (sw_cur now k l)\<rfloor>"
    by (simp add: le_floor_iff)
  then show "sw_avail now k l \<le> sw_limit l - sw_currCount (sw_cur now k l)" by (simp add: sw_avail_def)
  from B(2) have "\<lfloor>sw_est now (sw_window l) (sw_cur now k l)\<rfloor> \<le> 2 * sw_limit l"
    by (metis floor_mono floor_of_int)
  then show "- sw_limit l \<le> sw_avail now k l" by (simp add: sw_avail_def)
  show "0 \<le> sw_currCount (sw_cur now k l)" using e by (simp add: sw_entry_ok_def)
qed

lemma sw_AllowN_eq:
  assumes "sw_ok now l" and "0 < n" and "n < 2 ^ 62" and "sw_getEntry now k l = (l1, e0)"
  defines "e \<equiv> sw_cur now k l"
  shows "sw_AllowN now k n l =
     (if n \<le> sw_avail now k l
      then (l1\<lparr>sw_windows := mput k (e\<lparr>sw_currCount := sw_currCount e + n\<rparr>) (sw_windows l1)\<rparr>, True)
      else (l1\<lparr>sw_windows := mput k e (sw_windows l1)\<rparr>, False))"
proof -
  note S = sw_op_spec [OF assms(1,4), folded e_def] and B = sw_avail_bounds [OF assms(1), of k, folded e_def]
  have lim: "sw_limit l1 = sw_limit l" "sw_limit l < 2 ^ 50" "0 < sw_limit l"
    using sw_getEntry_spec(2) [OF assms(1,4)] assms(1) by (simp_all add: sw_same_config_def sw_ok_def)
  have "in_int64 (sw_limit l - sw_avail now k l + n)"
    using B lim assms(2,3) by (simp add: in_int64_def)
  then have w: "wrap64 (sw_limit l - sw_avail now k l + n) = sw_limit l - sw_avail now k l + n" by (rule wrap64_id)
  have "n \<le> sw_avail now k l \<Longrightarrow> in_int64 (sw_currCount e + n)"
    using B lim assms(2) by (simp add: in_int64_def)
  with w S(1,3) lim assms(2) show ?thesis
    by (auto simp: sw_AllowN_def assms(4) wrap64_id Let_def)
qed

lemma sw_entry_admit:
  assumes "sw_ok now l" and "0 < n" and "n \<le> sw_avail now k l"
  defines "e \<equiv> sw_cur now k l"
  shows "sw_entry_ok now l (e\<lparr>sw_currCount := sw_currCount e + n\<rparr>)"
  using sw_cur_ok [OF assms(1), of k, THEN conjunct1] sw_avail_bounds(2) [OF assms(1), of k] assms(2,3)
  by (simp add: sw_entry_ok_def e_def)

lemma sw_AllowN_ok:
  assumes "sw_ok now l" and "n < 2 ^ 62"
  shows "sw_ok now (fst (sw_AllowN now k n l)) \<and> sw_same_config l (fst (sw_AllowN now k n l))"
proof (cases "0 < n")
  case True
  obtain l1 e0 where G: "sw_getEntry now k l = (l1, e0)" by fastforce
  note S = sw_getEntry_spec(1,2) [OF assms(1) G]
  have "sw_entry_ok now l1 (sw_cur now k l)" by (rule sw_op_spec(2) [OF assms(1) G])
  moreover have "n \<le> sw_avail now k l \<Longrightarrow> sw_entry_ok now l1 ((sw_cur now k l)\<lparr>sw_currCount := sw_currCount (sw_cur now k l) + n\<rparr>)"
    using sw_entry_admit [OF assms(1) True] sw_entry_ok_config [OF S(2)] by blast
  ultimately show ?thesis
    using S sw_put_ok [OF S(1)] by (auto simp: sw_AllowN_eq [OF assms(1) True assms(2) G] sw_same_config_def)
qed (use assms in \<open>simp add: sw_AllowN_def sw_same_config_def\<close>)

text \<open>A sweep is invisible when an entry idle for \<open>idleTimeout\<close> has left both windows.\<close>

definition sw_transparent :: "SlidingWindowLimiter \<Rightarrow> bool" where
  "sw_transparent l \<longleftrightarrow> 2 * sw_window l \<le> sw_idleTimeout l"

lemma sw_swept_cur:
  assumes "sw_ok now l" and "sw_transparent l" and "map_of (sw_windows l) k = Some e"
    and "sw_currWindowStart e < now - sw_idleTimeout l"
  shows "sw_cur now k l = sw_empty now (sw_window l)"
proof -
  have p: "0 < sw_window l" and e: "sw_entry_ok now l e" using assms(1,3) by (simp_all add: sw_ok_def)
  have "now - sw_window l < time_truncate now (sw_window l)" using time_truncate_gt [OF p] .
  with assms(2,4) p have "sw_currWindowStart e + sw_window l < time_truncate now (sw_window l)"
    by (simp add: sw_transparent_def)
  with sw_advance_eq [of "sw_window l" e now] e p assms(3) show ?thesis
    by (simp add: sw_cur_def sw_empty_def sw_entry_ok_def)
qed

lemma sw_getEntry_cur:
  assumes "sw_ok now l" and "sw_transparent l" and "sw_getEntry now k l = (l1, e0)"
  shows "sw_cur now k' l1 = sw_cur now k' l"
proof (cases "k' = k")
  case True
  with sw_getEntry_spec(2,3,4) [OF assms(1,3)] show ?thesis
    by (simp add: sw_cur_def [of now k l1] sw_same_config_def)
next
  case False
  note S = sw_getEntry_spec(2) [OF assms(1,3)] sw_getEntry_spec(5) [OF assms(1,3) False]
  from S(2) show ?thesis
  proof
    assume "sw_swept now l l1 k'"
    then obtain e where "map_of (sw_windows l1) k' = None" "map_of (sw_windows l) k' = Some e"
      "sw_currWindowStart e < now - sw_idleTimeout l" by (auto simp: sw_swept_def)
    with sw_swept_cur [OF assms(1,2)] S(1) show ?thesis
      by (simp add: sw_cur_def [of now k' l1] sw_same_config_def)
  qed (use S(1) in \<open>simp add: sw_cur_def sw_same_config_def split: option.split\<close>)
qed

text \<open>What an operation leaves as the current entries of all keys.\<close>

lemma sw_AllowN_cur:
  assumes "sw_ok now l" and "sw_transparent l" and "0 < n" and "n < 2 ^ 62"
  shows "sw_cur now k' (fst (sw_AllowN now k n l)) =
     (if k' = k \<and> n \<le> sw_avail now k l
      then (sw_cur now k l)\<lparr>sw_currCount := sw_currCount (sw_cur now k l) + n\<rparr> else sw_cur now k' l)"
proof -
  obtain l1 e0 where G: "sw_getEntry now k l = (l1, e0)" by fastforce
  have "sw_window l1 = sw_window l" using sw_getEntry_spec(2) [OF assms(1) G] by (simp add: sw_same_config_def)
  with sw_AllowN_eq [OF assms(1,3,4) G] sw_cur_ok [OF assms(1), of k] sw_getEntry_cur [OF assms(1,2) G]
  show ?thesis by (simp add: sw_cur_put)
qed

lemma sw_Remaining_spec:
  assumes "sw_ok now l" and "sw_transparent l"
  shows "snd (sw_Remaining now k l) = max 0 (sw_avail now k l)"
    and "sw_cur now k' (fst (sw_Remaining now k l)) = sw_cur now k' l"
    and "sw_ok now (fst (sw_Remaining now k l))" and "sw_same_config l (fst (sw_Remaining now k l))"
proof -
  obtain l1 e0 where G: "sw_getEntry now k l = (l1, e0)" by fastforce
  note S = sw_getEntry_spec(1,2) [OF assms(1) G] and P = sw_op_spec [OF assms(1) G]
  have c: "sw_window l1 = sw_window l" "sw_limit l1 = sw_limit l" using S(2) by (simp_all add: sw_same_config_def)
  have R: "sw_Remaining now k l = (l1\<lparr>sw_windows := mput k (sw_cur now k l) (sw_windows l1)\<rparr>, max 0 (sw_avail now k l))"
    by (simp add: sw_Remaining_def G P c(2))
  show "snd (sw_Remaining now k l) = max 0 (sw_avail now k l)" by (simp add: R)
  show "sw_cur now k' (fst (sw_Remaining now k l)) = sw_cur now k' l"
    using sw_cur_ok [OF assms(1), of k] sw_getEntry_cur [OF assms G] by (simp add: R sw_cur_put c)
  show "sw_ok now (fst (sw_Remaining now k l))" using sw_put_ok [OF S(1) P(2)] by (simp add: R)
  show "sw_same_config l (fst (sw_Remaining now k l))" using S(2) by (simp add: R sw_same_config_def)
qed

section \<open>The sliding window is a limiter\<close>

definition sw_good :: "time \<Rightarrow> SlidingWindowLimiter \<Rightarrow> bool" where
  "sw_good now l \<longleftrightarrow> sw_ok now l \<and> sw_transparent l"

lemma sw_avail_cong:
  "sw_same_config l l' \<Longrightarrow> sw_cur now k l' = sw_cur now k l \<Longrightarrow> sw_avail now k l' = sw_avail now k l"
  by (simp add: sw_avail_def sw_same_config_def)

lemma sw_transparent_config: "sw_same_config l l' \<Longrightarrow> sw_transparent l' = sw_transparent l"
  by (simp add: sw_transparent_def sw_same_config_def)

text \<open>An admission of \<open>n\<close> takes at least \<open>n\<close> off what the estimate leaves, rounding included.\<close>

lemma sw_AllowN_spends:
  assumes "sw_ok now l" and "sw_transparent l" and "0 < n" and "n \<le> sw_avail now k l"
  shows "sw_avail now k (fst (sw_AllowN now k n l)) \<le> sw_avail now k l - n"
proof -
  let ?e = "sw_cur now k l" and ?l = "fst (sw_AllowN now k n l)"
  let ?f = "?e\<lparr>sw_currCount := sw_currCount ?e + n\<rparr>"
  let ?x = "fmul (float64_of (sw_prevCount ?e)) (sw_weight now (sw_window l)) + of_int (sw_currCount ?e)"
  have lim: "sw_limit l < 2 ^ 50" "0 < sw_window l" using assms(1) by (simp_all add: sw_ok_def)
  have n: "n \<le> sw_limit l" "n < 2 ^ 62"
    using assms(4) sw_avail_bounds(2,3) [OF assms(1), of k] lim(1) by auto
  have e: "sw_entry_ok now l ?e" using sw_cur_ok [OF assms(1)] by blast
  have p: "0 \<le> sw_prevCount ?e" "sw_prevCount ?e \<le> sw_limit l" "0 \<le> sw_currCount ?e" "sw_currCount ?e \<le> sw_limit l"
    using e by (simp_all add: sw_entry_ok_def)
  note P = sw_prev_bounds [OF lim(2) p(1), of now] lim(1) p(2)
  have "?x + of_int n \<le> of_int (sw_prevCount ?e + sw_currCount ?e + n)" "0 \<le> ?x" using P p(3) by simp_all
  moreover have "sw_prevCount ?e + sw_currCount ?e + n \<le> 2 ^ 52 - 1" using p n lim(1) by simp
  then have "(of_int (sw_prevCount ?e + sw_currCount ?e + n) :: rat) \<le> of_int (2 ^ 52 - 1)"
    by (simp only: of_int_le_iff)
  ultimately have "\<lfloor>fl64 ?x\<rfloor> + n \<le> \<lfloor>fl64 (?x + of_int n)\<rfloor>"
    using assms(3) by (intro fl64_floor_add) simp_all
  moreover have "sw_est now (sw_window l) ?f = fl64 (?x + of_int n)"
    using sw_est_sum [OF sw_entry_admit [OF assms(1,3,4)] assms(1)] by (simp add: add.assoc)
  moreover have "sw_est now (sw_window l) ?e = fl64 ?x" by (rule sw_est_sum [OF e assms(1)])
  moreover have "sw_cur now k ?l = ?f" using sw_AllowN_cur [OF assms(1-3) n(2), of k k] assms(4) by simp
  moreover have "sw_same_config l ?l" using sw_AllowN_ok [OF assms(1) n(2)] by blast
  ultimately show ?thesis by (simp add: sw_avail_def sw_same_config_def)
qed

lemma sw_Reset_cur:
  "sw_cur now k' (sw_Reset k l) = (if k' = k then sw_empty now (sw_window l) else sw_cur now k' l)"
  by (simp add: sw_Reset_def sw_cur_def go_map split: option.split)

lemma sw_est_empty: "sw_est now w (sw_empty now w) = 0"
  by (simp add: sw_est_def sw_empty_def float64_of_def fmul_def fadd_def)

interpretation swl: limiter sw_AllowN sw_Remaining sw_Reset sw_avail sw_limit sw_good
proof (unfold_locales, goal_cases)
  case (1 now l n k)
  obtain l1 e0 where G: "sw_getEntry now k l = (l1, e0)" by fastforce
  from 1 sw_AllowN_eq [OF _ _ _ G] show ?case by (simp add: sw_good_def)
next
  case (2 now l n k)
  then show ?case
    using sw_AllowN_ok [of now l n k] by (auto simp: sw_good_def sw_same_config_def sw_transparent_def)
next
  case (3 now l n k)
  then show ?case by (simp add: sw_good_def sw_AllowN_spends)
next
  case (4 now l n k)
  then show ?case
    using sw_AllowN_ok [of now l n k] sw_AllowN_cur [of now l n k k]
    by (intro sw_avail_cong) (simp_all add: sw_good_def)
next
  case (5 now l n k' k)
  then show ?case
    using sw_AllowN_ok [of now l n k] sw_AllowN_cur [of now l n k' k]
    by (cases "0 < n") (auto simp: sw_good_def sw_AllowN_def [of _ _ n] intro!: sw_avail_cong)
next
  case (6 now l k)
  then show ?case by (simp add: sw_good_def sw_Remaining_spec(1))
next
  case (7 now l k k')
  then have o: "sw_ok now l" "sw_transparent l" by (simp_all add: sw_good_def)
  from sw_Remaining_spec(2-4) [OF o] sw_transparent_config o(2) show ?case
    by (auto simp: sw_good_def sw_same_config_def sw_transparent_def intro!: sw_avail_cong)
next
  case (8 now l k)
  then show ?case using sw_avail_bounds(2,3) [of now l k] by (simp add: sw_good_def)
next
  case (9 now l)
  then show ?case by (simp add: sw_good_def sw_ok_def)
next
  case (10 now l k)
  have "sw_good now (sw_Reset k l)"
    using 10 by (auto simp: sw_good_def sw_ok_def sw_Reset_def go_map sw_entry_ok_def sw_transparent_def split: if_splits)
  then show ?case
    by (simp add: sw_avail_def sw_Reset_cur) (simp add: sw_Reset_def sw_est_empty)
next
  case (11 now l k' k)
  then show ?case by (simp add: sw_avail_def sw_Reset_cur) (simp add: sw_Reset_def)
next
  case (12 n now k l)
  then show ?case by (simp add: sw_AllowN_def)
qed

section \<open>Properties of the sliding window\<close>

text \<open>The events admitted for a key over a timed sequence of \<open>AllowN\<close> calls on all keys.\<close>

fun sw_run :: "(time \<times> string \<times> int) list \<Rightarrow> SlidingWindowLimiter \<Rightarrow> SlidingWindowLimiter" where
  "sw_run [] l = l"
| "sw_run ((t, j, n) # ops) l = sw_run ops (fst (sw_AllowN t j n l))"

fun sw_admitted :: "string \<Rightarrow> (time \<times> string \<times> int) list \<Rightarrow> SlidingWindowLimiter \<Rightarrow> int" where
  "sw_admitted k [] l = 0"
| "sw_admitted k ((t, j, n) # ops) l =
     (let (l1, a) = sw_AllowN t j n l in (if j = k \<and> 0 < n \<and> a then n else 0) + sw_admitted k ops l1)"

lemma sw_admitted_append: "sw_admitted k (as @ bs) l = sw_admitted k as l + sw_admitted k bs (sw_run as l)"
  by (induction as arbitrary: l) (auto simp: case_prod_beta)

definition sw_calls_ok :: "time \<Rightarrow> (time \<times> string \<times> int) list \<Rightarrow> bool" where
  "sw_calls_ok t0 ops \<longleftrightarrow> zero_time < t0 \<and> sorted (t0 # map fst ops) \<and> (\<forall>(t, j, n) \<in> set ops. n < 2 ^ 62)"

lemma sw_good_AllowN:
  assumes "sw_good t0 l" and "t0 \<le> t" and "zero_time < t0" and "n < 2 ^ 62"
  shows "sw_good t l \<and> sw_good t (fst (sw_AllowN t j n l)) \<and> sw_same_config l (fst (sw_AllowN t j n l))"
proof -
  have o: "sw_ok t l" using assms sw_ok_later [of t0 l t] by (auto simp: sw_good_def)
  from sw_AllowN_ok [OF o assms(4), of j] o assms(1) sw_transparent_config show ?thesis
    by (auto simp: sw_good_def sw_same_config_def sw_transparent_def)
qed

lemma sw_run_good:
  assumes "sw_good t0 l" and "sw_calls_ok t0 ops"
  shows "sw_good (last (t0 # map fst ops)) (sw_run ops l) \<and> sw_same_config l (sw_run ops l)"
  using assms
proof (induction ops arbitrary: t0 l)
  case (Cons p ops)
  obtain t j n where p: "p = (t, j, n)" by (cases p)
  have t: "t0 \<le> t" "zero_time < t0" "n < 2 ^ 62" using Cons.prems(2) by (auto simp: p sw_calls_ok_def)
  note G = sw_good_AllowN [OF Cons.prems(1) t, of j]
  have "sw_calls_ok t ops" using Cons.prems(2) t by (auto simp: p sw_calls_ok_def)
  from Cons.IH [OF _ this] G show ?case by (auto simp: p sw_same_config_def)
qed (simp add: sw_same_config_def)

lemma sw_cur_window:
  "time_truncate t' (sw_window l) = time_truncate t (sw_window l) \<Longrightarrow> sw_cur t' k l = sw_cur t k l"
  by (simp add: sw_cur_def sw_advance_def sw_empty_def split: option.split)

text \<open>Within one aligned window the counter of the key counts every admission.\<close>

lemma sw_admitted_aligned:
  assumes "sw_good t0 l" and "sw_calls_ok t0 ops"
    and "\<forall>(t, j, n) \<in> set ops. time_truncate t (sw_window l) = w0" and "time_truncate t0 (sw_window l) = w0"
  shows "sw_admitted k ops l + sw_currCount (sw_cur t0 k l) \<le> sw_limit l"
  using assms
proof (induction ops arbitrary: t0 l)
  case Nil
  then have "sw_entry_ok t0 l (sw_cur t0 k l)" using sw_cur_ok [of t0 l k] by (simp add: sw_good_def)
  then show ?case by (simp add: sw_entry_ok_def)
next
  case (Cons p ops)
  obtain t j n where p: "p = (t, j, n)" by (cases p)
  have t: "t0 \<le> t" "zero_time < t0" "n < 2 ^ 62" using Cons.prems(2) by (auto simp: p sw_calls_ok_def)
  let ?l = "fst (sw_AllowN t j n l)"
  note G = sw_good_AllowN [OF Cons.prems(1) t, of j]
  have o: "sw_ok t l" "sw_transparent l" using G by (auto simp: sw_good_def)
  have w: "sw_window ?l = sw_window l" "sw_limit ?l = sw_limit l" using G by (simp_all add: sw_same_config_def)
  have c0: "sw_cur t k l = sw_cur t0 k l" using Cons.prems(3,4) by (intro sw_cur_window) (simp add: p)
  have "sw_calls_ok t ops" using Cons.prems(2) t by (auto simp: p sw_calls_ok_def)
  then have ih: "sw_admitted k ops ?l + sw_currCount (sw_cur t k ?l) \<le> sw_limit ?l"
    using Cons.prems(3) G by (intro Cons.IH) (auto simp: p w)
  show ?case
  proof (cases "0 < n")
    case True
    have "snd (sw_AllowN t j n l) \<longleftrightarrow> n \<le> sw_avail t j l"
      using swl.allow_iff [of t l n j] G True t by blast
    with ih sw_AllowN_cur [OF o True t(3), of k j] c0 True w show ?thesis
      by (auto simp: p case_prod_beta split: if_splits)
  next
    case False
    with ih c0 show ?thesis by (simp add: p sw_AllowN_def)
  qed
qed

lemma sw_admitted_aligned_le:
  assumes "sw_good t0 l" and "sw_calls_ok t0 ops"
    and "\<forall>(t, j, n) \<in> set ops. time_truncate t (sw_window l) = time_truncate t0 (sw_window l)"
  shows "sw_admitted k ops l \<le> sw_limit l"
  using sw_admitted_aligned [OF assms refl, of k] sw_avail_bounds(3) [of t0 l k] assms(1)
  by (auto simp: sw_good_def)

text \<open>A stretch of time no longer than the window meets at most two aligned windows.\<close>

lemma truncate_two:
  assumes "0 < w" and "t0 \<le> t" and "t < t0 + w"
  shows "time_truncate t w = time_truncate t0 w \<or> time_truncate t w = time_truncate t0 w + w"
proof (rule ccontr)
  let ?a = "time_truncate t0 w" and ?b = "time_truncate t w"
  assume n: "\<not> ?thesis"
  have ab: "?a \<le> ?b" by (rule time_truncate_mono [OF assms(2)])
  have al: "aligned w ?a" "aligned w ?b" using assms(1) by (simp_all add: aligned_truncate)
  from n ab have "?a + w \<le> ?b" using aligned_less [OF al] by auto
  moreover have "aligned w (?a + w)" using al(1) by (auto simp: aligned_def) (metis add_diff_eq diff_add_eq dvd_add_triv_right_iff)
  ultimately have "?a + w + w \<le> ?b" using aligned_less [OF _ al(2), of "?a + w"] n by linarith
  with time_truncate_le [of t w] time_truncate_gt [OF assms(1), of t0] assms(3) show False by simp
qed

lemma sw_split_calls:
  fixes t0 w ops
  assumes "sw_calls_ok t0 ops"
  defines "f \<equiv> \<lambda>c :: time \<times> string \<times> int. time_truncate (fst c) w = time_truncate t0 w"
  shows "ops = takeWhile f ops @ dropWhile f ops" and "sw_calls_ok t0 (takeWhile f ops)"
    and "dropWhile f ops = c # cs \<Longrightarrow> sw_calls_ok (fst c) (c # cs) \<and> t0 \<le> fst c \<and>
          last (t0 # map fst (takeWhile f ops)) \<le> fst c"
proof -
  show s: "ops = takeWhile f ops @ dropWhile f ops" by simp
  have "sorted (t0 # map fst (takeWhile f ops @ dropWhile f ops))" "zero_time < t0"
    "\<forall>(t, j, n) \<in> set (takeWhile f ops @ dropWhile f ops). n < 2 ^ 62"
    using assms(1) unfolding sw_calls_ok_def s [symmetric] by blast+
  note F = this [unfolded map_append]
  then show "sw_calls_ok t0 (takeWhile f ops)"
    by (auto simp: sw_calls_ok_def sorted_append dest: set_takeWhileD)
  show "sw_calls_ok (fst c) (c # cs) \<and> t0 \<le> fst c \<and> last (t0 # map fst (takeWhile f ops)) \<le> fst c"
    if "dropWhile f ops = c # cs"
    using F last_in_set [of "t0 # map fst (takeWhile f ops)"] unfolding that
    by (auto simp: sw_calls_ok_def sorted_append)
qed

lemma sw_two_windows:
  assumes "sw_good t0 l" and "sw_calls_ok t0 ops" and "\<forall>c \<in> set ops. fst c < t0 + sw_window l"
  shows "sw_admitted k ops l \<le> 2 * sw_limit l"
proof -
  let ?w = "sw_window l"
  let ?f = "\<lambda>c :: time \<times> string \<times> int. time_truncate (fst c) ?w = time_truncate t0 ?w"
  let ?as = "takeWhile ?f ops" and ?bs = "dropWhile ?f ops"
  have w: "0 < ?w" "0 < sw_limit l" using assms(1) by (simp_all add: sw_good_def sw_ok_def)
  note S = sw_split_calls [OF assms(2), where w = ?w]
  have a: "sw_admitted k ?as l \<le> sw_limit l"
    by (rule sw_admitted_aligned_le [OF assms(1) S(2)]) (auto dest: set_takeWhileD)
  have b: "sw_admitted k ?bs (sw_run ?as l) \<le> sw_limit l"
  proof (cases ?bs)
    case (Cons c cs)
    note R = sw_run_good [OF assms(1) S(2)] and C = S(3) [OF Cons]
    have z: "zero_time < t0" using assms(2) by (simp add: sw_calls_ok_def)
    have g: "sw_good (fst c) (sw_run ?as l)"
      using R C z sw_ok_later by (auto simp: sw_good_def)
    have nf: "\<not> ?f c" using hd_dropWhile [of ?f ops] Cons by auto
    have T: "time_truncate (fst d) ?w = time_truncate (fst c) ?w" if "d \<in> set (c # cs)" for d
    proof -
      have d: "fst c \<le> fst d" using C that by (auto simp: sw_calls_ok_def)
      have "d \<in> set ops" "c \<in> set ops" using that Cons by (metis set_dropWhileD list.set_intros(1))+
      then have "fst d < t0 + ?w" "fst c < t0 + ?w" using assms(3) by auto
      with truncate_two [OF w(1), of t0 "fst d"] truncate_two [OF w(1), of t0 "fst c"] C d nf
        time_truncate_mono [OF d, of ?w] w(1) show ?thesis by linarith
    qed
    have W: "sw_window (sw_run ?as l) = ?w" using R by (simp add: sw_same_config_def)
    have "sw_admitted k (c # cs) (sw_run ?as l) \<le> sw_limit (sw_run ?as l)"
      by (rule sw_admitted_aligned_le [OF g conjunct1 [OF C]]) (unfold W, use T in fastforce)
    with R Cons show ?thesis by (simp add: sw_same_config_def)
  qed (use w in \<open>simp only: sw_admitted.simps less_imp_le\<close>)
  have "sw_admitted k ops l = sw_admitted k ?as l + sw_admitted k ?bs (sw_run ?as l)"
    unfolding sw_admitted_append [symmetric] by simp
  with a b show ?thesis by simp
qed


text \<open>Ten seconds per window, from the Unix epoch (a multiple of ten seconds since the zero time).\<close>

definition sw_calls_over :: "(time \<times> string \<times> int) list" where
  "sw_calls_over = [(9 * second, ''k'', 4), (15 * second, ''k'', 2)]"


text \<open>
  The limit is not a bound on every sliding window, contrary to the constructor's comment
  (``maximum number of requests allowed within any sliding window''): with a limit of four per ten
  seconds, six events are admitted within six seconds.
\<close>

theorem sw_exceeds_limit_in_a_window:
  "sw_admitted ''k'' sw_calls_over (NewSlidingWindow (9 * second) 4 (10 * second)) = 6 \<and>
   15 * second - 9 * second < 10 * second"
  by (intro conjI) code_simp+

text \<open>
  The comparison wraps around. When one event has been counted, a request for \<open>2^63 - 1\<close> events
  is admitted (the sum overflows to a negative number), and from then on a limit of four lets a
  hundred events through; and with a window longer than the idle timeout a sweep, run by another
  key's first request, drops the count of the current window: eight of four.
\<close>

theorem sw_wraps_and_sweeps:
  "snd (sw_AllowN 0 ''k'' (2 ^ 63 - 1) (sw_run [(0, ''k'', 1)] (NewSlidingWindow 0 4 second))) \<and>
   snd (sw_AllowN 0 ''k'' 100 (sw_run [(0, ''k'', 1), (0, ''k'', 2 ^ 63 - 1)] (NewSlidingWindow 0 4 second))) \<and>
   sw_admitted ''k'' [(0, ''k'', 4), (6 * minute, ''other'', 1), (6 * minute, ''k'', 4)]
     (NewSlidingWindow 0 4 hour) = 8"
  by (intro conjI) code_simp+

end
