(* ===== verification/Rate_Middleware.thy ===== *)
theory Rate_Middleware
  imports Token_Bucket Sliding_Window
begin

text \<open>
  The packaged middleware of \<open>src/ratelimit/ratelimit.go\<close>: options, \<open>New\<close>, \<open>NewGlobal\<close> and \<open>NewAuth\<close>,
  on top of the token bucket and the client address. The two metrics are counters of the state.
\<close>

record 'net rl_options =
  o_trustedProxies :: "'net list"

record rl_Metrics =
  rl_allowed :: nat
  rl_blocked :: nat

record 'net rl_mw =
  rl_cfg :: "'net rl_options"
  rl_capacity :: int
  rl_window :: duration
  rl_limiter :: TokenBucketLimiter
  rl_metrics :: rl_Metrics

definition WithTrustedIPNets :: "'net list \<Rightarrow> 'net rl_options \<Rightarrow> 'net rl_options" where
  "WithTrustedIPNets nets o1 = o1\<lparr>o_trustedProxies := o_trustedProxies o1 @ nets\<rparr>"

definition WithTrustedProxies :: "('ip, 'net) net_ops \<Rightarrow> string list \<Rightarrow> 'net rl_options \<Rightarrow> 'net rl_options" where
  "WithTrustedProxies net cidrs o1 =
     o1\<lparr>o_trustedProxies := o_trustedProxies o1 @ ParseTrustedProxies net cidrs\<rparr>"

definition DefaultTrustedCIDRs :: "string list" where
  "DefaultTrustedCIDRs =
     [''127.0.0.1/8'', ''10.0.0.0/8'', ''172.16.0.0/12'', ''192.168.0.0/16'', ''::1/128'', ''fc00::/7'']"

definition WithDefaultTrustedProxies :: "('ip, 'net) net_ops \<Rightarrow> 'net rl_options \<Rightarrow> 'net rl_options" where
  "WithDefaultTrustedProxies net = WithTrustedProxies net DefaultTrustedCIDRs"

text \<open>The constructor, and the handler it returns.\<close>

definition rl_New :: "time \<Rightarrow> int \<Rightarrow> duration \<Rightarrow> ('net rl_options \<Rightarrow> 'net rl_options) list \<Rightarrow> 'net rl_mw" where
  "rl_New now capacity0 window0 opts =
     (let cfg = foldl (\<lambda>o1 opt. opt o1) \<lparr>o_trustedProxies = []\<rparr> opts;
          capacity = (if capacity0 \<le> 0 then 1 else capacity0);
          window = (if window0 \<le> 0 then minute else window0);
          r = window sdiv capacity;
          refillRate = (if r \<le> 0 then 1 else r)
      in \<lparr>rl_cfg = cfg, rl_capacity = capacity, rl_window = window,
          rl_limiter = NewTokenBucket now capacity refillRate,
          rl_metrics = \<lparr>rl_allowed = 0, rl_blocked = 0\<rparr>\<rparr>)"

definition rl_serve ::
  "('ip, 'net) net_ops \<Rightarrow> time \<Rightarrow> http_request \<Rightarrow> 'net rl_mw \<Rightarrow> 'net rl_mw \<times> mw_result" where
  "rl_serve net now r m =
     (let ip = RealIP net r (o_trustedProxies (rl_cfg m));
          (l1, ok) = tb_Allow now ip (rl_limiter m) in
      if \<not> ok then
        (m\<lparr>rl_limiter := l1, rl_metrics := (rl_metrics m)\<lparr>rl_blocked := Suc (rl_blocked (rl_metrics m))\<rparr>\<rparr>,
         Answered StatusTooManyRequests
           [(''RateLimit-Limit'', itoa (rl_capacity m)), (''RateLimit-Remaining'', ''0''),
            (''RateLimit-Reset'', itoa (time_add now (rl_window m) div second)),
            (''Retry-After'', ''60''), (''Content-Type'', ''application/json'')] too_many_body)
      else
        let (l2, rem) = tb_Remaining now ip l1 in
        (m\<lparr>rl_limiter := l2, rl_metrics := (rl_metrics m)\<lparr>rl_allowed := Suc (rl_allowed (rl_metrics m))\<rparr>\<rparr>,
         Forwarded [(''RateLimit-Limit'', itoa (rl_capacity m)), (''RateLimit-Remaining'', itoa rem)]))"

definition rl_NewGlobal :: "time \<Rightarrow> ('net rl_options \<Rightarrow> 'net rl_options) list \<Rightarrow> 'net rl_mw" where
  "rl_NewGlobal now opts = rl_New now 200 minute opts"

definition rl_NewAuth :: "time \<Rightarrow> ('net rl_options \<Rightarrow> 'net rl_options) list \<Rightarrow> 'net rl_mw" where
  "rl_NewAuth now opts = rl_New now 10 minute opts"

section \<open>Runs of requests\<close>

fun rl_run :: "('ip, 'net) net_ops \<Rightarrow> (time \<times> http_request) list \<Rightarrow> 'net rl_mw \<Rightarrow> 'net rl_mw" where
  "rl_run net [] m = m"
| "rl_run net ((t, r) # rs) m = rl_run net rs (fst (rl_serve net t r m))"

text \<open>How many requests of a client address reach the next handler.\<close>

fun rl_passed :: "('ip, 'net) net_ops \<Rightarrow> string \<Rightarrow> (time \<times> http_request) list \<Rightarrow> 'net rl_mw \<Rightarrow> int" where
  "rl_passed net ip [] m = 0"
| "rl_passed net ip ((t, r) # rs) m =
     (let (m1, res) = rl_serve net t r m in
      (if RealIP net r (o_trustedProxies (rl_cfg m)) = ip \<and> forwarded res then 1 else 0) + rl_passed net ip rs m1)"

lemma rl_serve_split:
  fixes net :: "('ip, 'net) net_ops"
  assumes "tb_good t (rl_limiter m)" and "rl_serve net t r m = (m1, res)"
  defines "k \<equiv> RealIP net r (o_trustedProxies (rl_cfg m))"
  shows "tb_good t (rl_limiter m1) \<and> rl_cfg m1 = rl_cfg m \<and>
         tb_refillRate (rl_limiter m1) = tb_refillRate (rl_limiter m) \<and>
         (forwarded res \<longleftrightarrow> 1 \<le> tb_avail t k (rl_limiter m)) \<and>
         tb_credit t ip (rl_limiter m1) +
           (if k = ip \<and> forwarded res then tb_refillRate (rl_limiter m) else 0) \<le> tb_credit t ip (rl_limiter m)"
proof -
  obtain l1 a where e: "tb_AllowN t k 1 (rl_limiter m) = (l1, a)" by fastforce
  have x: "tb_exec t (OpAllow k 1) (rl_limiter m) = (l1, a)" using e by simp
  note A = tb_exec_credit [OF assms(1) _ x, of ip]
  then have g: "tb_good t l1" by simp
  have a: "a \<longleftrightarrow> 1 \<le> tb_avail t k (rl_limiter m)"
    using tb_AllowN_avail(1) [OF _ _ e] assms(1) by (simp add: tb_good_def)
  obtain l2 rem where r: "tb_Remaining t k l1 = (l2, rem)" by fastforce
  have y: "tb_exec t (OpRemaining k) l1 = (l2, True)" using r by simp
  note B = tb_exec_credit [OF g _ y, of ip]
  from assms(2) A B a show ?thesis
    by (auto simp: rl_serve_def tb_Allow_def e r forwarded_def k_def [symmetric] Let_def split: if_splits)
qed

lemma rl_passed_bound:
  assumes "tb_good t0 (rl_limiter m)" and "sorted (t0 # map fst rs @ [t1])" and "sane_time t1"
  shows "rl_passed net ip rs m * tb_refillRate (rl_limiter m) \<le> tb_credit t0 ip (rl_limiter m) + (t1 - t0)"
  using assms
proof (induction rs arbitrary: t0 m)
  case Nil
  then show ?case using tb_credit_bounds [of t0 "rl_limiter m" ip] by (simp add: tb_good_def)
next
  case (Cons p rs)
  obtain t r where p: "p = (t, r)" by (cases p)
  obtain m1 res where e: "rl_serve net t r m = (m1, res)" by fastforce
  have t: "t0 \<le> t" "t \<le> t1" using Cons.prems(2) by (auto simp: p)
  have o: "tb_ok t0 (rl_limiter m)" "sane_time t"
    using Cons.prems(1,3) t by (auto simp: tb_good_def tb_ok_def sane_time_def)
  have g: "tb_good t (rl_limiter m)"
    using Cons.prems(1) tb_ok_later [OF o(1) t(1) o(2)] by (simp add: tb_good_def)
  note S = rl_serve_split [OF g e, of ip]
  have "rl_passed net ip rs m1 * tb_refillRate (rl_limiter m1) \<le> tb_credit t ip (rl_limiter m1) + (t1 - t)"
    using Cons.prems S by (intro Cons.IH) (auto simp: p)
  with S tb_credit_later [OF o(1) t(1), of ip] show ?case
    by (auto simp: p e distrib_right split: if_splits)
qed

lemma rl_metrics_count:
  "rl_allowed (rl_metrics (rl_run net rs m)) + rl_blocked (rl_metrics (rl_run net rs m)) =
   rl_allowed (rl_metrics m) + rl_blocked (rl_metrics m) + length rs"
  by (induction rs arbitrary: m) (auto simp: rl_serve_def case_prod_beta Let_def)

section \<open>Properties of the middleware\<close>

definition rl_refill :: "int \<Rightarrow> duration \<Rightarrow> duration" where
  "rl_refill c w = (if w div c \<le> 0 then 1 else w div c)"

lemma rl_New_good:
  assumes "sane_time t0" and "0 < c" and "c < 2 ^ 62" and "0 < w" and "c * rl_refill c w \<le> 5 * minute"
  shows "tb_good t0 (rl_limiter (rl_New t0 c w opts))"
    and "rl_limiter (rl_New t0 c w opts) = NewTokenBucket t0 c (rl_refill c w)"
proof -
  have "0 < rl_refill c w" by (simp add: rl_refill_def)
  moreover show "rl_limiter (rl_New t0 c w opts) = NewTokenBucket t0 c (rl_refill c w)"
    using assms(2,4) by (simp add: rl_New_def rl_refill_def sdiv_nonneg_div Let_def)
  ultimately show "tb_good t0 (rl_limiter (rl_New t0 c w opts))"
    using tb_good_New [OF assms(1,3)] assms(2,5) by simp
qed

text \<open>
  C11: the middleware limits every client address. With a capacity and a window whose refill fits
  the idle timeout (both packaged limits do), whatever requests arrive from whatever clients between
  its creation at \<open>t0\<close> and \<open>t1\<close>, at most \<open>capacity + (t1 - t0) / (window / capacity)\<close> requests of one
  client address reach the next handler, and every request is counted once, as allowed or as blocked.
\<close>

theorem rl_client_bound:
  assumes "sane_time t0" and "sane_time t1" and "0 < c" and "c < 2 ^ 62" and "0 < w"
    and "c * rl_refill c w \<le> 5 * minute" and "sorted (t0 # map fst rs @ [t1])"
  shows "rl_passed net ip rs (rl_New t0 c w opts) \<le> c + (t1 - t0) div rl_refill c w \<and>
         rl_allowed (rl_metrics (rl_run net rs (rl_New t0 c w opts))) +
         rl_blocked (rl_metrics (rl_run net rs (rl_New t0 c w opts))) = length rs"
proof -
  let ?m = "rl_New t0 c w opts" and ?r = "rl_refill c w"
  note G = rl_New_good [OF assms(1,3,4,5,6), of opts]
  have r: "0 < ?r" by (simp add: rl_refill_def)
  have "rl_passed net ip rs ?m * ?r \<le> c * ?r + (t1 - t0)"
    using rl_passed_bound [OF G(1) assms(7,2), of net ip] G(2) assms(3) r
    by (simp add: NewTokenBucket_def tb_credit_def)
  then have "rl_passed net ip rs ?m * ?r div ?r \<le> (c * ?r + (t1 - t0)) div ?r"
    using r by (intro zdiv_mono1)
  moreover have "rl_allowed (rl_metrics ?m) + rl_blocked (rl_metrics ?m) = 0"
    by (simp add: rl_New_def Let_def)
  ultimately show ?thesis using r rl_metrics_count [of net rs ?m] by simp
qed

definition rl_req :: "string \<Rightarrow> http_request" where
  "rl_req a = \<lparr>RemoteAddr = a, Header = []\<rparr>"

theorem rl_client_bound_witness:
  "rl_passed toy_net ''9.9.9.9'' (replicate 12 (0, rl_req ''9.9.9.9'') @ [(6 * second, rl_req ''9.9.9.9'')])
     (rl_NewAuth 0 []) \<le> 10 + (6 * second - 0) div (6 * second)"
proof -
  have "rl_refill 10 minute = 6 * second" by (simp add: rl_refill_def minute_def second_def)
  moreover have "sorted (0 # map fst (replicate 12 (0, rl_req ''9.9.9.9'') @ [(6 * second, rl_req ''9.9.9.9'')]) @ [6 * second])"
    by code_simp
  ultimately show ?thesis
    using rl_client_bound [of 0 "6 * second" 10 minute
        "replicate 12 (0, rl_req ''9.9.9.9'') @ [(6 * second, rl_req ''9.9.9.9'')]" toy_net "''9.9.9.9''" "[]"]
    unfolding rl_NewAuth_def by (simp add: sane_time_def minute_def second_def)
qed

text \<open>
  ``capacity: maximum requests allowed in window'' is not what is enforced: the bucket starts
  full and refills while the window runs. With three requests per minute, five requests of one client
  pass within the first 59 seconds.
\<close>

theorem rl_window_admits_more_than_capacity:
  "rl_passed toy_net ''9.9.9.9''
     (replicate 3 (0, rl_req ''9.9.9.9'') @ [(20 * second, rl_req ''9.9.9.9''), (59 * second, rl_req ''9.9.9.9'')])
     (rl_New 0 3 minute []) = 5"
  by code_simp

text \<open>
  The generic middleware over either limiter. At one moment, from any state that satisfies the
  limiter's invariant, a burst of requests with any keys lets through no more requests of a key than
  the limiter has left for it (never more than its limit), and after \<open>Reset\<close> a key has its whole
  limit again.
\<close>

theorem mw_burst_bounded:
  "(tb_good now l \<longrightarrow>
      (let (l', rs) = mw_burst (\<lambda>now k. tb_AllowN now k 1) tb_Remaining now ks l in
       int (length (filter (\<lambda>(k', r). k' = k \<and> forwarded r) (zip ks rs))) \<le> max 0 (tb_avail now k l)) \<and>
      tb_avail now k l \<le> tb_capacity l \<and> snd (tb_AllowN now k (tb_capacity l) (tb_Reset k l))) \<and>
   (sw_good now s \<longrightarrow>
      (let (s', rs) = mw_burst (\<lambda>now k. sw_AllowN now k 1) sw_Remaining now ks s in
       int (length (filter (\<lambda>(k', r). k' = k \<and> forwarded r) (zip ks rs))) \<le> max 0 (sw_avail now k s)) \<and>
      sw_avail now k s \<le> sw_limit s \<and> snd (sw_AllowN now k (sw_limit s) (sw_Reset k s)))"
  using tbl.burst_bound [of now l ks k] swl.burst_bound [of now s ks k] tbl.avail_le [of now l k]
    swl.avail_le [of now s k] tbl.lim_bounds [of now l] swl.lim_bounds [of now s]
    tbl.after_reset_allowed [of now l "tb_capacity l" k] swl.after_reset_allowed [of now s "sw_limit s" k]
  by simp

theorem mw_burst_bounded_witness:
  "snd (tb_AllowN 0 ''k'' 2 (tb_Reset ''k'' (NewTokenBucket 0 2 10))) \<and>
   snd (sw_AllowN 0 ''k'' 4 (sw_Reset ''k'' (NewSlidingWindow 0 4 second)))"
proof -
  have "tb_good 0 (NewTokenBucket 0 2 10)"
    by (rule tb_good_New) (simp_all add: sane_time_def minute_def second_def)
  moreover have "sw_ok 0 (NewSlidingWindow 0 4 second)"
    by (rule sw_ok_New) (simp_all add: second_def zero_time_def)
  then have "sw_good 0 (NewSlidingWindow 0 4 second)"
    by (simp add: sw_good_def sw_transparent_def NewSlidingWindow_def minute_def second_def)
  moreover have "tb_capacity (NewTokenBucket 0 2 10) = 2" "sw_limit (NewSlidingWindow 0 4 second) = 4"
    by (simp_all add: NewTokenBucket_def NewSlidingWindow_def)
  ultimately show ?thesis
    using mw_burst_bounded [of 0 "NewTokenBucket 0 2 10" "[]" "''k''" "NewSlidingWindow 0 4 second"] by simp
qed

end
