(* ===== verification/Dll.thy ===== *)
theory Dll
  imports Go_Prelude
begin

text \<open>
  The doubly linked lists of the cache back ends (\<open>addToFront\<close>, \<open>removeNode\<close> of \<open>src/cache/lru.go\<close> and
  \<open>src/cache/fifo.go\<close>, \<open>pushFront\<close> and \<open>remove\<close> of \<open>src/cache/lfu.go\<close>) on an explicit heap: a node
  is found at its address, its \<open>prev\<close> and \<open>next\<close> fields are addresses or nil, and the assignments are
  the code's, one by one. A node type extends the record \<open>links\<close>, so the three back ends share the
  list operations. \<open>is_dll h d xs\<close> says that the list with ends \<open>d\<close> holds exactly the nodes \<open>xs\<close>, in
  this order, in both directions.
\<close>

record links =
  n_prev :: "nat option"
  n_next :: "nat option"

type_synonym 'm heap = "nat \<Rightarrow> 'm links_scheme"

record dlist =
  d_head :: "nat option"
  d_tail :: "nat option"

definition dl_empty :: dlist where
  "dl_empty = \<lparr>d_head = None, d_tail = None\<rparr>"

definition addToFront :: "nat \<Rightarrow> 'm heap \<times> dlist \<Rightarrow> 'm heap \<times> dlist" where
  "addToFront node hd0 =
     (let (h, d) = hd0;
          h = h(node := (h node)\<lparr>n_prev := None, n_next := d_head d\<rparr>);
          h = (case d_head d of None \<Rightarrow> h | Some x \<Rightarrow> h(x := (h x)\<lparr>n_prev := Some node\<rparr>));
          d = d\<lparr>d_head := Some node\<rparr>
      in (h, if d_tail d = None then d\<lparr>d_tail := Some node\<rparr> else d))"

definition removeNode :: "nat \<Rightarrow> 'm heap \<times> dlist \<Rightarrow> 'm heap \<times> dlist" where
  "removeNode node hd0 =
     (let (h, d) = hd0;
          (h, d) = (case n_prev (h node) of
                      Some p \<Rightarrow> (h(p := (h p)\<lparr>n_next := n_next (h node)\<rparr>), d)
                    | None \<Rightarrow> (h, d\<lparr>d_head := n_next (h node)\<rparr>));
          (h, d) = (case n_next (h node) of
                      Some q \<Rightarrow> (h(q := (h q)\<lparr>n_prev := n_prev (h node)\<rparr>), d)
                    | None \<Rightarrow> (h, d\<lparr>d_tail := n_prev (h node)\<rparr>))
      in (h(node := (h node)\<lparr>n_prev := None, n_next := None\<rparr>), d))"

definition moveToFront :: "nat \<Rightarrow> 'm heap \<times> dlist \<Rightarrow> 'm heap \<times> dlist" where
  "moveToFront node hd0 =
     (if d_head (snd hd0) = Some node then hd0 else addToFront node (removeNode node hd0))"

section \<open>Segments\<close>

definition first_or :: "nat list \<Rightarrow> nat option \<Rightarrow> nat option" where
  "first_or xs q = (case xs of [] \<Rightarrow> q | x # _ \<Rightarrow> Some x)"

definition last_or :: "nat option \<Rightarrow> nat list \<Rightarrow> nat option" where
  "last_or p xs = (if xs = [] then p else Some (last xs))"

text \<open>The nodes \<open>xs\<close> are linked in this order, with \<open>p\<close> before the first and \<open>q\<close> after the last.\<close>

fun seg :: "'m heap \<Rightarrow> nat option \<Rightarrow> nat list \<Rightarrow> nat option \<Rightarrow> bool" where
  "seg h p [] q \<longleftrightarrow> True"
| "seg h p (a # as) q \<longleftrightarrow> n_prev (h a) = p \<and> n_next (h a) = first_or as q \<and> seg h (Some a) as q"

definition is_dll :: "'m heap \<Rightarrow> dlist \<Rightarrow> nat list \<Rightarrow> bool" where
  "is_dll h d xs \<longleftrightarrow> distinct xs \<and> seg h None xs None \<and>
     d_head d = first_or xs None \<and> d_tail d = last_or None xs"

lemma first_or_simps [simp]:
  "first_or [] q = q" "first_or (x # xs) q = Some x" "first_or (xs @ ys) q = first_or xs (first_or ys q)"
  by (simp_all add: first_or_def split: list.split)

lemma last_or_simps [simp]:
  "last_or p [] = p" "last_or p (xs @ [x]) = Some x" "last_or p (x # xs) = last_or (Some x) xs"
  "last_or p (xs @ y # ys) = last_or (Some y) ys"
  by (simp_all add: last_or_def)

lemma seg_append:
  "seg h p (xs @ ys) q \<longleftrightarrow> seg h p xs (first_or ys q) \<and> seg h (last_or p xs) ys q"
  by (induction xs arbitrary: p) auto

lemma seg_frame: "(\<And>a. a \<in> set xs \<Longrightarrow> h' a = h a) \<Longrightarrow> seg h' p xs q = seg h p xs q"
  by (induction xs arbitrary: p) auto

lemma seg_upd [simp]: "a \<notin> set xs \<Longrightarrow> seg (h(a := n)) p xs q = seg h p xs q"
  by (rule seg_frame) auto

text \<open>Redirecting the pointer that enters or leaves a segment.\<close>

lemma seg_set_prev:
  "seg h p (a # as) q \<Longrightarrow> a \<notin> set as \<Longrightarrow> seg (h(a := (h a)\<lparr>n_prev := p'\<rparr>)) p' (a # as) q"
  by simp

lemma seg_set_next:
  "seg h p (xs @ [b]) q \<Longrightarrow> b \<notin> set xs \<Longrightarrow> seg (h(b := (h b)\<lparr>n_next := q'\<rparr>)) p (xs @ [b]) q'"
  by (simp add: seg_append)

section \<open>The operations on the list of nodes\<close>

lemma addToFront_dll:
  assumes "is_dll h d xs" and "a \<notin> set xs" and "addToFront a (h, d) = (h', d')"
  shows "is_dll h' d' (a # xs)"
proof (cases xs)
  case Nil
  with assms show ?thesis by (auto simp: addToFront_def is_dll_def Let_def)
next
  case (Cons x ys)
  with assms have "x \<notin> set ys" "a \<noteq> x" by (auto simp: is_dll_def)
  with assms Cons show ?thesis
    by (auto simp: addToFront_def is_dll_def Let_def last_or_def split: if_splits)
qed

text \<open>Removing from the middle: the part before the node and the part after it are joined.\<close>

lemma removeNode_seg:
  assumes "seg h None (xs @ a # ys) None" and "distinct (xs @ a # ys)"
    and "d_head d = first_or (xs @ a # ys) None" and "d_tail d = last_or None (xs @ a # ys)"
    and "removeNode a (h, d) = (h', d')"
  shows "seg h' None (xs @ ys) None \<and> d_head d' = first_or (xs @ ys) None \<and> d_tail d' = last_or None (xs @ ys)"
proof (cases xs rule: rev_cases)
  case Nil
  show ?thesis
  proof (cases ys)
    case Nil
    with \<open>xs = []\<close> assms show ?thesis by (auto simp: removeNode_def Let_def)
  next
    case (Cons y zs)
    with \<open>xs = []\<close> assms show ?thesis by (auto simp: removeNode_def Let_def last_or_def)
  qed
next
  case (snoc us p)
  have p: "n_prev (h a) = Some p" "p \<noteq> a" "p \<notin> set us" "p \<notin> set ys" "a \<notin> set us" "a \<notin> set ys" "set us \<inter> set ys = {}"
    using assms(1,2) by (auto simp: snoc seg_append)
  show ?thesis
  proof (cases ys)
    case Nil
    with assms p show ?thesis
      by (auto simp: removeNode_def Let_def snoc seg_append)
  next
    case (Cons y zs)
    then have y: "n_next (h a) = Some y" "y \<noteq> a" "y \<noteq> p" "y \<notin> set us" "y \<notin> set zs"
      using assms(1,2) p by (auto simp: snoc seg_append)
    with assms p Cons show ?thesis
      by (auto simp: removeNode_def Let_def snoc seg_append last_or_def)
  qed
qed

lemma removeNode_dll:
  assumes "is_dll h d xs" and "a \<in> set xs" and "removeNode a (h, d) = (h', d')"
  shows "is_dll h' d' (remove1 a xs)"
proof -
  obtain us ys where xs: "xs = us @ a # ys" "a \<notin> set us" using split_list_first [OF assms(2)] by blast
  have "remove1 a xs = us @ ys" using xs by (simp add: remove1_append)
  with assms removeNode_seg [of h us a ys d h' d'] xs(1) show ?thesis
    by (auto simp: is_dll_def)
qed

text \<open>The operations touch links only: every node keeps its other fields.\<close>

lemma addToFront_more: "addToFront a (h, d) = (h', d') \<Longrightarrow> links.more (h' b) = links.more (h b)"
  by (auto simp: addToFront_def Let_def split: option.splits if_splits)

lemma removeNode_more: "removeNode a (h, d) = (h', d') \<Longrightarrow> links.more (h' b) = links.more (h b)"
  by (auto simp: removeNode_def Let_def split: option.splits if_splits)

lemma moveToFront_dll:
  assumes "is_dll h d xs" and "a \<in> set xs" and "moveToFront a (h, d) = (h', d')"
  shows "is_dll h' d' (a # remove1 a xs)"
proof (cases "d_head d = Some a")
  case True
  with assms(1,2) have "xs = a # tl xs" by (cases xs) (auto simp: is_dll_def)
  then have "a # remove1 a xs = xs" by (metis remove1.simps(2))
  with assms True show ?thesis by (simp add: moveToFront_def)
next
  case False
  obtain h1 d1 where r: "removeNode a (h, d) = (h1, d1)" by fastforce
  have "a \<notin> set (remove1 a xs)" using assms(1) by (simp add: is_dll_def)
  with addToFront_dll [OF removeNode_dll [OF assms(1,2) r]] assms(3) False r show ?thesis
    by (simp add: moveToFront_def)
qed

lemma moveToFront_more: "moveToFront a (h, d) = (h', d') \<Longrightarrow> links.more (h' b) = links.more (h b)"
  using removeNode_more [of a h d _ _ b] addToFront_more [of a _ _ h' d' b]
  by (cases "removeNode a (h, d)") (fastforce simp: moveToFront_def split: if_splits)

lemma is_dll_empty [simp]: "is_dll h dl_empty []"
  by (simp add: is_dll_def dl_empty_def)

text \<open>A change of the other fields of a node, or of a node outside the list, keeps the list.\<close>

lemma is_dll_frame:
  assumes "\<And>a. a \<in> set xs \<Longrightarrow> n_prev (h' a) = n_prev (h a) \<and> n_next (h' a) = n_next (h a)"
  shows "is_dll h' d xs = is_dll h d xs"
proof -
  have "seg h' p xs q = seg h p xs q" for p q
    using assms by (induction xs arbitrary: p) auto
  then show ?thesis by (simp add: is_dll_def)
qed

lemma is_dll_tail: "is_dll h d xs \<Longrightarrow> d_tail d = (if xs = [] then None else Some (last xs))"
  by (simp add: is_dll_def last_or_def)

text \<open>The operations write to nodes of the list only.\<close>

lemma seg_neighbours:
  "seg h p xs q \<Longrightarrow> a \<in> set xs \<Longrightarrow> n_prev (h a) = Some b \<Longrightarrow> b \<in> set xs \<or> p = Some b"
  "seg h p xs q \<Longrightarrow> a \<in> set xs \<Longrightarrow> n_next (h a) = Some b \<Longrightarrow> b \<in> set xs \<or> q = Some b"
proof (induction xs arbitrary: p)
  case (Cons x xs)
  { case 1 with Cons.IH(1) [of "Some x"] show ?case by auto }
  { case 2 with Cons.IH(2) [of "Some x"] show ?case by (cases xs) auto }
qed simp_all

lemma removeNode_frame:
  assumes "is_dll h d xs" and "a \<in> set xs" and "removeNode a (h, d) = (h', d')" and "b \<notin> set xs"
  shows "h' b = h b"
proof -
  have s: "seg h None xs None" using assms(1) by (simp add: is_dll_def)
  have "n_prev (h a) \<noteq> Some b" "n_next (h a) \<noteq> Some b" "b \<noteq> a"
    using seg_neighbours [OF s assms(2), of b] assms(2,4) by auto
  with assms(3) show ?thesis
    by (auto simp: removeNode_def Let_def split: option.splits if_splits)
qed

lemma addToFront_frame:
  assumes "is_dll h d xs" and "addToFront a (h, d) = (h', d')" and "b \<notin> set xs" and "b \<noteq> a"
  shows "h' b = h b"
  using assms by (cases xs) (auto simp: is_dll_def addToFront_def Let_def split: if_splits)

end
