(* ===== verification/Cache_Spec.thy ===== *)
theory Cache_Spec
  imports Go_Prelude
begin

text \<open>
  What the cache back ends of package \<open>cache\<close> share (\<open>src/cache/cache.go\<close>): metrics, expiration,
  \<open>GetOrFetch\<close>, and the locale \<open>cache_backend\<close>, the contract of a back end (what a lookup returns after
  a set or a delete, the capacity, at most one victim per set), from which the guarantees for every
  history of operations are proved once. \<open>unix_nano\<close> of an expiration wraps as in the code.
\<close>

record cache_Metrics =
  c_hits :: nat
  c_misses :: nat
  c_evictions :: nat

definition no_cache_metrics :: cache_Metrics where
  "no_cache_metrics = \<lparr>c_hits = 0, c_misses = 0, c_evictions = 0\<rparr>"

abbreviation inc_hits :: "cache_Metrics \<Rightarrow> cache_Metrics" where
  "inc_hits m \<equiv> m\<lparr>c_hits := Suc (c_hits m)\<rparr>"

abbreviation inc_misses :: "cache_Metrics \<Rightarrow> cache_Metrics" where
  "inc_misses m \<equiv> m\<lparr>c_misses := Suc (c_misses m)\<rparr>"

abbreviation inc_evictions :: "cache_Metrics \<Rightarrow> cache_Metrics" where
  "inc_evictions m \<equiv> m\<lparr>c_evictions := Suc (c_evictions m)\<rparr>"

text \<open>\<open>node.expiration > 0 && node.expiration <= now\<close>, and the expiration a \<open>Set\<close> computes.\<close>

definition expired :: "int \<Rightarrow> time \<Rightarrow> bool" where
  "expired expiration now \<longleftrightarrow> expiration > 0 \<and> expiration \<le> unix_nano now"

definition exp_of :: "time \<Rightarrow> duration list \<Rightarrow> int" where
  "exp_of now ttl = (case ttl of t # _ \<Rightarrow> if t > 0 then unix_nano (time_add now t) else 0 | [] \<Rightarrow> 0)"

text \<open>
  \<open>GetOrFetch\<close> of the three list back ends. \<open>ctx1\<close> is \<open>ctx.Err()\<close> at entry, \<open>fetched\<close> what \<open>fetchFn\<close>
  returns, and \<open>ctx2\<close> the context's error when the \<open>select\<close> takes the \<open>ctx.Done()\<close> branch. The function
  given to \<open>singleflight\<close> runs to its end in either case; the call models the goroutine that runs it.
  The last component says whether \<open>fetchFn\<close> was called.
\<close>

definition GetOrFetch ::
  "(time \<Rightarrow> string \<Rightarrow> 'c \<Rightarrow> 'c \<times> 'v option) \<Rightarrow> (time \<Rightarrow> string \<Rightarrow> 'v \<Rightarrow> duration list \<Rightarrow> 'c \<Rightarrow> 'c) \<Rightarrow>
   ctx_err \<Rightarrow> time \<Rightarrow> string \<Rightarrow> duration \<Rightarrow> error + 'v \<Rightarrow> time \<Rightarrow> ctx_err \<Rightarrow> 'c \<Rightarrow> 'c \<times> (error + 'v) \<times> bool" where
  "GetOrFetch get put ctx1 now1 key ttl fetched now2 ctx2 c =
     (case ctx1 of
        Some e \<Rightarrow> (c, Inl e, False)
      | None \<Rightarrow>
          let (c1, r) = get now1 key c in
          case r of
            Some v \<Rightarrow> (c1, Inr v, False)
          | None \<Rightarrow>
              let c2 = (case fetched of Inl _ \<Rightarrow> c1 | Inr v \<Rightarrow> put now2 key v [ttl] c1)
              in (c2, case ctx2 of Some e \<Rightarrow> Inl e | None \<Rightarrow> fetched, True))"

section \<open>Histories\<close>

datatype 'v cache_op = OGet time string | OSet time string 'v "duration list" | ODelete string

fun cache_exec where
  "cache_exec get put del (OGet now k) c = fst (get now k c)"
| "cache_exec get put del (OSet now k v ttl) c = put now k v ttl c"
| "cache_exec get put del (ODelete k) c = del k c"

fun cache_run where
  "cache_run get put del [] c = c"
| "cache_run get put del (op # ops) c = cache_run get put del ops (cache_exec get put del op c)"

text \<open>What the last write to a key left: its value and expiration, or nothing.\<close>

fun written1 :: "string \<Rightarrow> 'v cache_op \<Rightarrow> ('v \<times> int) option \<Rightarrow> ('v \<times> int) option" where
  "written1 k (OGet now j) w = w"
| "written1 k (OSet now j v ttl) w = (if j = k then Some (v, exp_of now ttl) else w)"
| "written1 k (ODelete j) w = (if j = k then None else w)"

fun written :: "string \<Rightarrow> 'v cache_op list \<Rightarrow> ('v \<times> int) option \<Rightarrow> ('v \<times> int) option" where
  "written k [] w = w"
| "written k (op # ops) w = written k ops (written1 k op w)"

fun keys_set :: "'v cache_op list \<Rightarrow> string set" where
  "keys_set [] = {}"
| "keys_set (OSet now k v ttl # ops) = insert k (keys_set ops)"
| "keys_set (OGet now k # ops) = keys_set ops"
| "keys_set (ODelete k # ops) = keys_set ops"

text \<open>The clock readings a history writes with satisfy \<open>okt\<close>.\<close>

fun op_ok :: "(time \<Rightarrow> bool) \<Rightarrow> 'v cache_op \<Rightarrow> bool" where
  "op_ok okt (OSet now k v ttl) = okt now"
| "op_ok okt (OGet now k) = True"
| "op_ok okt (ODelete k) = True"

lemma op_ok_True [simp]: "op_ok (\<lambda>_. True) op"
  by (cases op) simp_all

lemma finite_keys_set [simp]: "finite (keys_set ops)"
  by (induction ops rule: keys_set.induct) auto

section \<open>The contract\<close>

locale cache_backend =
  fixes dead :: "int \<Rightarrow> time \<Rightarrow> bool"
    and okt :: "time \<Rightarrow> bool"
    and get :: "time \<Rightarrow> string \<Rightarrow> 'c \<Rightarrow> 'c \<times> 'v option"
    and put :: "time \<Rightarrow> string \<Rightarrow> 'v \<Rightarrow> duration list \<Rightarrow> 'c \<Rightarrow> 'c"
    and del :: "string \<Rightarrow> 'c \<Rightarrow> 'c"
    and len :: "'c \<Rightarrow> int"
    and lookup :: "'c \<Rightarrow> string \<Rightarrow> ('v \<times> int) option"
    and cap :: "'c \<Rightarrow> int"
    and inv :: "'c \<Rightarrow> bool"
  assumes dead_zero: "\<not> dead 0 now"
    and get_result: "inv c \<Longrightarrow> snd (get now k c) =
        (case lookup c k of None \<Rightarrow> None | Some (v, e) \<Rightarrow> if dead e now then None else Some v)"
    and get_lookup: "inv c \<Longrightarrow> lookup (fst (get now k c)) k' =
        (if k' = k \<and> (\<exists>v e. lookup c k = Some (v, e) \<and> expired e now) then None else lookup c k')"
    and get_inv: "inv c \<Longrightarrow> inv (fst (get now k c)) \<and> cap (fst (get now k c)) = cap c"
    and put_same: "inv c \<Longrightarrow> okt now \<Longrightarrow> lookup (put now k v ttl c) k = Some (v, exp_of now ttl)"
    and put_other: "inv c \<Longrightarrow> okt now \<Longrightarrow> k' \<noteq> k \<Longrightarrow>
        lookup (put now k v ttl c) k' = lookup c k' \<or> lookup (put now k v ttl c) k' = None"
    and put_room: "inv c \<Longrightarrow> okt now \<Longrightarrow> k' \<noteq> k \<Longrightarrow> lookup c k \<noteq> None \<or> len c < cap c \<Longrightarrow>
        lookup (put now k v ttl c) k' = lookup c k'"
    and put_victim: "inv c \<Longrightarrow> okt now \<Longrightarrow> \<exists>j. \<forall>k'. k' \<noteq> k \<longrightarrow> k' \<noteq> j \<longrightarrow> lookup (put now k v ttl c) k' = lookup c k'"
    and put_inv: "inv c \<Longrightarrow> okt now \<Longrightarrow> inv (put now k v ttl c) \<and> cap (put now k v ttl c) = cap c"
    and del_lookup: "inv c \<Longrightarrow> lookup (del k c) k' = (if k' = k then None else lookup c k')"
    and del_inv: "inv c \<Longrightarrow> inv (del k c) \<and> cap (del k c) = cap c"
    and len_card: "inv c \<Longrightarrow> finite (dom (lookup c)) \<and> len c = int (card (dom (lookup c)))"
    and len_cap: "inv c \<Longrightarrow> len c \<le> cap c"
begin

abbreviation run :: "'v cache_op list \<Rightarrow> 'c \<Rightarrow> 'c" where
  "run \<equiv> cache_run get put del"

lemma exec_inv: "inv c \<Longrightarrow> op_ok okt op \<Longrightarrow> inv (cache_exec get put del op c) \<and> cap (cache_exec get put del op c) = cap c"
  using get_inv put_inv del_inv by (cases op) auto

lemma run_inv: "inv c \<Longrightarrow> \<forall>op \<in> set ops. op_ok okt op \<Longrightarrow> inv (run ops c) \<and> cap (run ops c) = cap c"
  by (induction ops arbitrary: c) (simp_all add: exec_inv)

text \<open>The size never passes the capacity, and counts the keys.\<close>

lemma run_capacity: "inv c \<Longrightarrow> \<forall>op \<in> set ops. op_ok okt op \<Longrightarrow> len (run ops c) \<le> cap c \<and> len (run ops c) = int (card (dom (lookup (run ops c))))"
  using run_inv [of c ops] len_cap [of "run ops c"] len_card [of "run ops c"] by simp

text \<open>A cache never invents a value: what it holds for a key is what was last written to the key.\<close>

lemma exec_written:
  assumes "inv c" and "\<And>k x. lookup c k = Some x \<Longrightarrow> w k = Some x" and "op_ok okt op"
    and "lookup (cache_exec get put del op c) k = Some x"
  shows "written1 k op (w k) = Some x"
proof (cases op)
  case (OGet now j)
  with assms(2,4) get_lookup [OF assms(1), of now j k] show ?thesis by (auto split: if_splits)
next
  case (OSet now j v ttl)
  show ?thesis
  proof (cases "j = k")
    case False
    then have "lookup c k = Some x"
      using assms(3,4) put_other [OF assms(1), of now k j v ttl] OSet by auto
    with assms(2) False OSet show ?thesis by simp
  qed (use assms(3,4) put_same [OF assms(1)] OSet in simp)
next
  case (ODelete j)
  with assms(2,4) del_lookup [OF assms(1), of j k] show ?thesis by (auto split: if_splits)
qed

lemma run_written:
  assumes "inv c" and "\<And>k x. lookup c k = Some x \<Longrightarrow> w k = Some x" and "\<forall>op \<in> set ops. op_ok okt op"
    and "lookup (run ops c) k = Some x"
  shows "written k ops (w k) = Some x"
  using assms
proof (induction ops arbitrary: c w)
  case (Cons op ops)
  let ?c = "cache_exec get put del op c" and ?w = "\<lambda>k. written1 k op (w k)"
  have o: "op_ok okt op" using Cons.prems(3) by simp
  then have "inv ?c" using exec_inv [OF Cons.prems(1)] by blast
  moreover have "\<And>k x. lookup ?c k = Some x \<Longrightarrow> ?w k = Some x"
    using exec_written [of c w op] Cons.prems(1,2) o by blast
  ultimately show ?case using Cons.IH [of ?c ?w] Cons.prems(3,4) by simp
qed simp

lemma get_coherent:
  assumes "inv c" and "lookup c = Map.empty" and "\<forall>op \<in> set ops. op_ok okt op"
    and "snd (get now k (run ops c)) = Some v"
  shows "\<exists>e. written k ops None = Some (v, e) \<and> \<not> dead e now"
proof -
  have i: "inv (run ops c)" using run_inv [OF assms(1,3)] by blast
  from assms(4) get_result [OF i, of now k] obtain e where
    "lookup (run ops c) k = Some (v, e)" "\<not> dead e now"
    by (auto split: option.splits if_splits)
  with run_written [OF assms(1), of "\<lambda>_. None"] assms(2,3) show ?thesis by fastforce
qed

text \<open>
  As long as no more keys than the capacity are set, nothing is evicted: a value without an
  expiration is returned whenever it was the last one written.
\<close>

lemma put_no_eviction:
  assumes "inv c" and "dom (lookup c) \<subseteq> K" and "finite K" and "k \<in> K" and "int (card K) \<le> cap c" and "okt now"
    and "k' \<noteq> k"
  shows "lookup (put now k v ttl c) k' = lookup c k'"
proof (cases "lookup c k")
  case None
  then have "dom (lookup c) \<subset> K" using assms(2,4) by (auto simp: domI)
  then have "card (dom (lookup c)) < card K" using assms(3) by (simp add: psubset_card_mono)
  with len_card [OF assms(1)] assms(5) have "len c < cap c" by simp
  with put_room [OF assms(1,6,7)] show ?thesis by blast
qed (use put_room [OF assms(1,6,7)] in blast)

lemma run_keeps:
  assumes "inv c" and "dom (lookup c) \<subseteq> K" and "finite K" and "keys_set ops \<subseteq> K"
    and "int (card K) \<le> cap c" and "\<And>v. w = Some (v, 0) \<Longrightarrow> lookup c k = Some (v, 0)"
    and "\<forall>op \<in> set ops. op_ok okt op" and "written k ops w = Some (v, 0)"
  shows "lookup (run ops c) k = Some (v, 0)"
  using assms
proof (induction ops arbitrary: c w)
  case (Cons op ops)
  let ?c = "cache_exec get put del op c"
  have o: "op_ok okt op" using Cons.prems(7) by simp
  have i: "inv ?c" "cap ?c = cap c" using exec_inv [OF Cons.prems(1) o] by blast+
  have "dom (lookup ?c) \<subseteq> K \<and>
      (\<forall>v. written1 k op w = Some (v, 0) \<longrightarrow> lookup ?c k = Some (v, 0))"
  proof (cases op)
    case (OGet now j)
    with Cons.prems(2,6) get_lookup [OF Cons.prems(1), of now j] show ?thesis
      by (auto simp: expired_def split: if_splits)
  next
    case (OSet now j v' ttl)
    then have j: "j \<in> K" using Cons.prems(4) by simp
    have t: "okt now" using o OSet by simp
    note N = put_no_eviction [OF Cons.prems(1-3) j Cons.prems(5) t]
    have "j' \<in> K" if "j' \<in> dom (lookup ?c)" for j'
      using N [of j' v' ttl] Cons.prems(2) j OSet that by (cases "j' = j") (auto simp: dom_def)
    moreover have "lookup ?c k = Some (v, 0)" if "written1 k op w = Some (v, 0)" for v
      using N [of k v' ttl] put_same [OF Cons.prems(1) t, of j v' ttl] Cons.prems(6) OSet that
      by (cases "j = k") auto
    ultimately show ?thesis by blast
  next
    case (ODelete j)
    with Cons.prems(2,6) del_lookup [OF Cons.prems(1), of j] show ?thesis by (auto split: if_splits)
  qed
  moreover have "keys_set ops \<subseteq> K" using Cons.prems(4) by (cases op) auto
  ultimately have "lookup (run ops ?c) k = Some (v, 0)"
    using Cons.prems(3,5,7,8) i by (intro Cons.IH [of ?c "written1 k op w"]) auto
  then show ?case by simp
qed simp

lemma no_loss_within_capacity:
  assumes "inv c" and "lookup c = Map.empty" and "int (card (keys_set ops)) \<le> cap c"
    and "\<forall>op \<in> set ops. op_ok okt op" and "written k ops None = Some (v, 0)"
  shows "snd (get now k (run ops c)) = Some v"
proof -
  have "lookup (run ops c) k = Some (v, 0)"
    by (rule run_keeps [where K = "keys_set ops" and w = None]) (use assms in auto)
  with get_result [of "run ops c" now k] run_inv [OF assms(1,4)] dead_zero [of now] show ?thesis
    by auto
qed

text \<open>\<open>GetOrFetch\<close>: a hit does not fetch; a miss fetches once and leaves the value in the cache.\<close>

lemma getOrFetch_spec:
  assumes "inv c" and "okt now2" and "GetOrFetch get put None now1 k ttl fetched now2 ctx2 c = (c', r, called)"
  shows "called \<longleftrightarrow> snd (get now1 k c) = None"
    and "\<not> called \<Longrightarrow> snd (get now1 k c) = Some v \<Longrightarrow> r = Inr v"
    and "called \<Longrightarrow> r = (case ctx2 of Some e \<Rightarrow> Inl e | None \<Rightarrow> fetched)"
    and "called \<Longrightarrow> fetched = Inr v \<Longrightarrow> lookup c' k = Some (v, exp_of now2 [ttl])"
    and "called \<Longrightarrow> fetched = Inl e \<Longrightarrow> c' = fst (get now1 k c)"
    and "inv c'"
proof -
  obtain c1 g where g: "get now1 k c = (c1, g)" by fastforce
  have i: "inv c1" using get_inv [OF assms(1), of now1 k] g by simp
  note F = assms(3) [unfolded GetOrFetch_def g, simplified]
  show "called \<longleftrightarrow> snd (get now1 k c) = None" using F g by (auto split: option.splits)
  show "\<not> called \<Longrightarrow> snd (get now1 k c) = Some v \<Longrightarrow> r = Inr v" using F g by simp
  show "called \<Longrightarrow> r = (case ctx2 of Some e \<Rightarrow> Inl e | None \<Rightarrow> fetched)"
    using F by (auto simp: Let_def split: option.splits)
  show "called \<Longrightarrow> fetched = Inr v \<Longrightarrow> lookup c' k = Some (v, exp_of now2 [ttl])"
    using F put_same [OF i assms(2)] by (auto simp: Let_def split: option.splits)
  show "called \<Longrightarrow> fetched = Inl e \<Longrightarrow> c' = fst (get now1 k c)"
    using F g by (auto simp: Let_def split: option.splits)
  show "inv c'" using F i put_inv [OF i assms(2)] by (auto simp: Let_def split: option.splits sum.splits)
qed

end

end
