(* ===== verification/Cache_Queue.thy ===== *)
theory Cache_Queue
  imports Dll Cache_Spec
begin

text \<open>
  The LRU and FIFO back ends (\<open>src/cache/lru.go\<close>, \<open>src/cache/fifo.go\<close>): a map from keys to nodes and a
  doubly linked list of the nodes, on the heap of \<open>Dll\<close>. The two Go structs have the same fields and
  the same list operations; they differ in whether a use moves the node to the front. \<open>q_rel c es\<close>
  relates a back end to the list of its entries, newest first, on which the two policies are
  specified (\<open>lru_get\<close>, \<open>lru_set\<close>, \<open>fifo_get\<close>, \<open>fifo_set\<close>).
\<close>

record 'v qNode = links +
  q_key :: string
  q_value :: 'v
  q_expiration :: int

record 'v qBackend =
  q_capacity :: int
  q_items :: "(string, nat) gomap"
  q_heap :: "nat \<Rightarrow> 'v qNode"
  q_list :: dlist
  q_metrics :: cache_Metrics
  q_fresh :: nat

text \<open>\<open>q_fresh\<close> is the next address an allocation returns; \<open>z\<close> fills the unallocated part of the heap.\<close>

definition newQBackend :: "'v qNode \<Rightarrow> int \<Rightarrow> 'v qBackend" where
  "newQBackend z capacity =
     \<lparr>q_capacity = (if capacity \<le> 0 then 128 else capacity), q_items = [], q_heap = (\<lambda>_. z),
      q_list = dl_empty, q_metrics = no_cache_metrics, q_fresh = 0\<rparr>"

definition q_removeNode :: "nat \<Rightarrow> 'v qBackend \<Rightarrow> 'v qBackend" where
  "q_removeNode node c =
     (let (h, d) = removeNode node (q_heap c, q_list c) in c\<lparr>q_heap := h, q_list := d\<rparr>)"

definition q_addToFront :: "nat \<Rightarrow> 'v qBackend \<Rightarrow> 'v qBackend" where
  "q_addToFront node c =
     (let (h, d) = addToFront node (q_heap c, q_list c) in c\<lparr>q_heap := h, q_list := d\<rparr>)"

definition q_moveToFront :: "nat \<Rightarrow> 'v qBackend \<Rightarrow> 'v qBackend" where
  "q_moveToFront node c =
     (let (h, d) = moveToFront node (q_heap c, q_list c) in c\<lparr>q_heap := h, q_list := d\<rparr>)"

definition q_unlink :: "nat \<Rightarrow> string \<Rightarrow> 'v qBackend \<Rightarrow> 'v qBackend" where
  "q_unlink node key c = (let c1 = q_removeNode node c in c1\<lparr>q_items := mdel key (q_items c1)\<rparr>)"

definition q_evictOldest :: "'v qBackend \<Rightarrow> 'v qBackend" where
  "q_evictOldest c =
     (case d_tail (q_list c) of
        None \<Rightarrow> c
      | Some oldest \<Rightarrow>
          let c1 = q_unlink oldest (q_key (q_heap c oldest)) c
          in c1\<lparr>q_metrics := inc_evictions (q_metrics c1)\<rparr>)"

definition q_insert :: "string \<Rightarrow> 'v \<Rightarrow> int \<Rightarrow> 'v qBackend \<Rightarrow> 'v qBackend" where
  "q_insert key value ex c =
     (let a = q_fresh c;
          c1 = c\<lparr>q_heap := (q_heap c)(a := \<lparr>n_prev = None, n_next = None, q_key = key, q_value = value,
                                              q_expiration = ex\<rparr>),
                 q_fresh := Suc a\<rparr>;
          c2 = q_addToFront a c1
      in c2\<lparr>q_items := mput key a (q_items c2)\<rparr>)"

definition q_expire :: "nat \<Rightarrow> string \<Rightarrow> 'v qBackend \<Rightarrow> 'v qBackend" where
  "q_expire node key c =
     (let c1 = q_unlink node key c in c1\<lparr>q_metrics := inc_misses (inc_evictions (q_metrics c1))\<rparr>)"

definition lru_Get :: "time \<Rightarrow> string \<Rightarrow> 'v qBackend \<Rightarrow> 'v qBackend \<times> 'v option" where
  "lru_Get now key c =
     (case map_of (q_items c) key of
        None \<Rightarrow> (c\<lparr>q_metrics := inc_misses (q_metrics c)\<rparr>, None)
      | Some node \<Rightarrow>
          if expired (q_expiration (q_heap c node)) now then (q_expire node key c, None)
          else
            let c1 = q_moveToFront node c
            in (c1\<lparr>q_metrics := inc_hits (q_metrics c1)\<rparr>, Some (q_value (q_heap c1 node))))"

definition q_update :: "nat \<Rightarrow> 'v \<Rightarrow> int \<Rightarrow> 'v qBackend \<Rightarrow> 'v qBackend" where
  "q_update node value ex c =
     c\<lparr>q_heap := (q_heap c)(node := (q_heap c node)\<lparr>q_value := value, q_expiration := ex\<rparr>)\<rparr>"

definition lru_Set :: "time \<Rightarrow> string \<Rightarrow> 'v \<Rightarrow> duration list \<Rightarrow> 'v qBackend \<Rightarrow> 'v qBackend" where
  "lru_Set now key value ttl c =
     (let ex = exp_of now ttl in
      case map_of (q_items c) key of
        Some node \<Rightarrow> q_moveToFront node (q_update node value ex c)
      | None \<Rightarrow>
          let c1 = (if int (length (q_items c)) \<ge> q_capacity c then q_evictOldest c else c)
          in q_insert key value ex c1)"

definition fifo_Get :: "time \<Rightarrow> string \<Rightarrow> 'v qBackend \<Rightarrow> 'v qBackend \<times> 'v option" where
  "fifo_Get now key c =
     (case map_of (q_items c) key of
        None \<Rightarrow> (c\<lparr>q_metrics := inc_misses (q_metrics c)\<rparr>, None)
      | Some node \<Rightarrow>
          if expired (q_expiration (q_heap c node)) now then (q_expire node key c, None)
          else (c\<lparr>q_metrics := inc_hits (q_metrics c)\<rparr>, Some (q_value (q_heap c node))))"

definition fifo_Set :: "time \<Rightarrow> string \<Rightarrow> 'v \<Rightarrow> duration list \<Rightarrow> 'v qBackend \<Rightarrow> 'v qBackend" where
  "fifo_Set now key value ttl c =
     (let ex = exp_of now ttl in
      case map_of (q_items c) key of
        Some node \<Rightarrow> q_update node value ex c
      | None \<Rightarrow>
          let c1 = (if int (length (q_items c)) \<ge> q_capacity c then q_evictOldest c else c)
          in q_insert key value ex c1)"

definition q_Delete :: "string \<Rightarrow> 'v qBackend \<Rightarrow> 'v qBackend" where
  "q_Delete key c =
     (case map_of (q_items c) key of None \<Rightarrow> c | Some node \<Rightarrow> q_unlink node key c)"

definition lru_GetOrFetch ::
  "ctx_err \<Rightarrow> time \<Rightarrow> string \<Rightarrow> duration \<Rightarrow> error + 'v \<Rightarrow> time \<Rightarrow> ctx_err \<Rightarrow> 'v qBackend \<Rightarrow> 'v qBackend \<times> (error + 'v) \<times> bool" where
  "lru_GetOrFetch = GetOrFetch lru_Get lru_Set"

definition fifo_GetOrFetch ::
  "ctx_err \<Rightarrow> time \<Rightarrow> string \<Rightarrow> duration \<Rightarrow> error + 'v \<Rightarrow> time \<Rightarrow> ctx_err \<Rightarrow> 'v qBackend \<Rightarrow> 'v qBackend \<times> (error + 'v) \<times> bool" where
  "fifo_GetOrFetch = GetOrFetch fifo_Get fifo_Set"

definition q_Len :: "'v qBackend \<Rightarrow> int" where
  "q_Len c = int (length (q_items c))"

section \<open>The policies on lists of entries\<close>

type_synonym 'v entries = "(string \<times> 'v \<times> int) list"

definition drop_key :: "string \<Rightarrow> 'v entries \<Rightarrow> 'v entries" where
  "drop_key k es = filter (\<lambda>e. fst e \<noteq> k) es"

definition lru_get :: "time \<Rightarrow> string \<Rightarrow> 'v entries \<Rightarrow> 'v entries \<times> 'v option" where
  "lru_get now k es =
     (case map_of es k of
        None \<Rightarrow> (es, None)
      | Some (v, e) \<Rightarrow> if expired e now then (drop_key k es, None) else ((k, v, e) # drop_key k es, Some v))"

definition lru_set :: "int \<Rightarrow> time \<Rightarrow> string \<Rightarrow> 'v \<Rightarrow> duration list \<Rightarrow> 'v entries \<Rightarrow> 'v entries" where
  "lru_set cap now k v ttl es =
     (k, v, exp_of now ttl) #
     (if map_of es k \<noteq> None then drop_key k es else if int (length es) \<ge> cap then butlast es else es)"

definition fifo_get :: "time \<Rightarrow> string \<Rightarrow> 'v entries \<Rightarrow> 'v entries \<times> 'v option" where
  "fifo_get now k es =
     (case map_of es k of
        None \<Rightarrow> (es, None)
      | Some (v, e) \<Rightarrow> if expired e now then (drop_key k es, None) else (es, Some v))"

definition fifo_set :: "int \<Rightarrow> time \<Rightarrow> string \<Rightarrow> 'v \<Rightarrow> duration list \<Rightarrow> 'v entries \<Rightarrow> 'v entries" where
  "fifo_set cap now k v ttl es =
     (if map_of es k \<noteq> None then map (\<lambda>e. if fst e = k then (k, v, exp_of now ttl) else e) es
      else (k, v, exp_of now ttl) # (if int (length es) \<ge> cap then butlast es else es))"

section \<open>The relation\<close>

definition ent :: "'v qNode \<Rightarrow> string \<times> 'v \<times> int" where
  "ent n = (q_key n, q_value n, q_expiration n)"

definition q_nodes :: "'v qBackend \<Rightarrow> nat list \<Rightarrow> bool" where
  "q_nodes c xs \<longleftrightarrow> is_dll (q_heap c) (q_list c) xs \<and> map_ok (q_items c) \<and>
     distinct (map (\<lambda>a. q_key (q_heap c a)) xs) \<and>
     (\<forall>k a. map_of (q_items c) k = Some a \<longleftrightarrow> a \<in> set xs \<and> q_key (q_heap c a) = k) \<and>
     (\<forall>a \<in> set xs. a < q_fresh c) \<and> 0 < q_capacity c"

definition q_rel :: "'v qBackend \<Rightarrow> 'v entries \<Rightarrow> bool" where
  "q_rel c es \<longleftrightarrow> (\<exists>xs. q_nodes c xs \<and> es = map (\<lambda>a. ent (q_heap c a)) xs)"

lemma q_nodes_metrics [simp]: "q_nodes (c\<lparr>q_metrics := m\<rparr>) xs = q_nodes c xs"
  by (simp add: q_nodes_def)

lemma q_rel_metrics [simp]: "q_rel (c\<lparr>q_metrics := m\<rparr>) es = q_rel c es"
  by (simp add: q_rel_def)

lemma more_ent: "links.more n = links.more n' \<Longrightarrow> q_key n = q_key n' \<and> ent n = ent n'"
  by (cases n; cases n') (simp add: ent_def)

lemma map_remove1_key:
  assumes "distinct (map (\<lambda>a. fst (f a)) xs)" and "a \<in> set xs"
  shows "map f (remove1 a xs) = filter (\<lambda>e. fst e \<noteq> fst (f a)) (map f xs)"
  using assms
proof (induction xs)
  case (Cons x xs)
  have x: "fst (f x) \<notin> (\<lambda>a. fst (f a)) ` set xs" using Cons.prems(1) by simp
  have d: "fst (f y) \<noteq> fst (f x)" if "y \<in> set xs" for y
    using x imageI [OF that, of "\<lambda>a. fst (f a)"] by auto
  show ?case
  proof (cases "x = a")
    case True
    with d have "filter (\<lambda>e. fst e \<noteq> fst (f a)) (map f xs) = map f xs" by (intro filter_True) auto
    with True show ?thesis by simp
  next
    case False
    then have a: "a \<in> set xs" using Cons.prems(2) by simp
    have "fst (f x) \<noteq> fst (f a)" using d [OF a] by metis
    with Cons.IH Cons.prems(1) a False show ?thesis by simp
  qed
qed simp

lemma q_item_of:
  "q_nodes c xs \<Longrightarrow> map_of (q_items c) k = Some a \<longleftrightarrow> a \<in> set xs \<and> q_key (q_heap c a) = k"
  unfolding q_nodes_def by blast

lemma q_no_item:
  "q_nodes c xs \<Longrightarrow> map_of (q_items c) k = None \<Longrightarrow> a \<in> set xs \<Longrightarrow> q_key (q_heap c a) \<noteq> k"
  using q_item_of [of c xs k a] by auto

lemma q_lookup_entries:
  assumes "q_nodes c xs"
  shows "map_of (map (\<lambda>a. ent (q_heap c a)) xs) k =
     map_option (\<lambda>a. (q_value (q_heap c a), q_expiration (q_heap c a))) (map_of (q_items c) k)"
proof (cases "map_of (q_items c) k")
  case None
  have "fst (ent (q_heap c a)) \<noteq> k" if "a \<in> set xs" for a
    using q_no_item [OF assms None that] by (simp add: ent_def)
  then have "k \<notin> fst ` set (map (\<lambda>a. ent (q_heap c a)) xs)" by (simp only: set_map image_image image_iff) blast
  then have "map_of (map (\<lambda>a. ent (q_heap c a)) xs) k = None" by (simp only: map_of_eq_None_iff not_False_eq_True)
  with None show ?thesis by (simp only: option.map)
next
  case (Some a)
  then have a: "a \<in> set xs" "q_key (q_heap c a) = k" using q_item_of [OF assms] by blast+
  have "distinct (map fst (map (\<lambda>a. ent (q_heap c a)) xs))"
    using assms by (simp add: q_nodes_def ent_def comp_def)
  moreover have "ent (q_heap c a) \<in> set (map (\<lambda>a. ent (q_heap c a)) xs)" using a(1) by simp
  then have "(k, q_value (q_heap c a), q_expiration (q_heap c a)) \<in> set (map (\<lambda>a. ent (q_heap c a)) xs)"
    using a(2) by (simp only: ent_def)
  ultimately show ?thesis using Some by (simp only: map_of_is_SomeI option.map)
qed

lemma q_length:
  assumes "q_nodes c xs"
  shows "length (q_items c) = length xs"
proof -
  have "keys_of (q_items c) = (\<lambda>a. q_key (q_heap c a)) ` set xs"
    using assms by (auto simp: keys_of_def q_nodes_def)
  then have "card (keys_of (q_items c)) = card (set (map (\<lambda>a. q_key (q_heap c a)) xs))" by simp
  also have "\<dots> = length xs" using assms by (simp add: q_nodes_def distinct_card del: set_map)
  finally show ?thesis using assms by (simp add: length_card_keys q_nodes_def)
qed

text \<open>The list operations on the relation.\<close>

lemma q_nodes_links:
  assumes "q_nodes c xs" and "is_dll h d ys" and "set ys = set xs"
    and "\<And>a. links.more (h a) = links.more (q_heap c a)"
  shows "q_nodes (c\<lparr>q_heap := h, q_list := d\<rparr>) ys"
proof -
  have k: "q_key (h a) = q_key (q_heap c a)" for a using more_ent [OF assms(4)] by blast
  have "distinct xs" using assms(1) by (auto simp: q_nodes_def is_dll_def)
  have "inj_on (\<lambda>a. q_key (q_heap c a)) (set ys)"
    using assms(1,3) by (simp add: q_nodes_def distinct_map)
  then have "distinct (map (\<lambda>a. q_key (q_heap c a)) ys)"
    using assms(2) by (simp add: distinct_map is_dll_def)
  with assms k show ?thesis by (simp add: q_nodes_def)
qed

lemma q_moveToFront_nodes:
  assumes "q_nodes c xs" and "a \<in> set xs"
  shows "q_nodes (q_moveToFront a c) (a # remove1 a xs) \<and>
         ent (q_heap (q_moveToFront a c) b) = ent (q_heap c b)"
proof -
  obtain h d where m: "moveToFront a (q_heap c, q_list c) = (h, d)" by fastforce
  have dl: "is_dll (q_heap c) (q_list c) xs" using assms(1) by (simp add: q_nodes_def)
  have "distinct xs" using dl by (simp add: is_dll_def)
  then have "set (a # remove1 a xs) = set xs" using assms(2) by auto
  from q_nodes_links [OF assms(1) moveToFront_dll [OF dl assms(2) m] this moveToFront_more [OF m]]
    more_ent [OF moveToFront_more [OF m, of b]]
  show ?thesis by (simp add: q_moveToFront_def m)
qed

lemma q_unlink_nodes:
  assumes "q_nodes c xs" and "a \<in> set xs"
  shows "q_nodes (q_unlink a (q_key (q_heap c a)) c) (remove1 a xs) \<and>
         ent (q_heap (q_unlink a (q_key (q_heap c a)) c) b) = ent (q_heap c b) \<and>
         q_capacity (q_unlink a (q_key (q_heap c a)) c) = q_capacity c"
proof -
  let ?k = "q_key (q_heap c a)"
  obtain h d where r: "removeNode a (q_heap c, q_list c) = (h, d)" by fastforce
  have dl: "is_dll (q_heap c) (q_list c) xs" using assms(1) by (simp add: q_nodes_def)
  have me: "q_key (h b) = q_key (q_heap c b) \<and> ent (h b) = ent (q_heap c b)" for b
    by (rule more_ent [OF removeNode_more [OF r]])
  have u: "q_unlink a ?k c = c\<lparr>q_heap := h, q_list := d, q_items := mdel ?k (q_items c)\<rparr>"
    by (simp add: q_unlink_def q_removeNode_def r)
  have dx: "distinct xs" "inj_on (\<lambda>a. q_key (q_heap c a)) (set xs)"
    using assms(1) by (simp_all add: q_nodes_def distinct_map)
  have "b = a \<longleftrightarrow> q_key (q_heap c b) = ?k" if "b \<in> set xs" for b
    using dx(2) assms(2) that by (auto dest: inj_onD)
  moreover have "distinct (map (\<lambda>a. q_key (q_heap c a)) (remove1 a xs))"
    using dx by (simp add: distinct_map inj_on_diff)
  ultimately have "q_nodes (q_unlink a ?k c) (remove1 a xs)"
    using assms(1) removeNode_dll [OF dl assms(2) r] me dx(1)
    by (auto simp: u q_nodes_def go_map split: if_splits)
  with me show ?thesis by (simp add: u)
qed

lemma q_update_nodes:
  assumes "q_nodes c xs" and "a \<in> set xs"
  shows "q_nodes (q_update a v e c) xs \<and> q_capacity (q_update a v e c) = q_capacity c \<and>
         ent (q_heap (q_update a v e c) b) = (if b = a then (q_key (q_heap c a), v, e) else ent (q_heap c b))"
proof -
  have "is_dll (q_heap (q_update a v e c)) (q_list c) xs = is_dll (q_heap c) (q_list c) xs"
    by (rule is_dll_frame) (simp add: q_update_def)
  moreover have "q_key (q_heap (q_update a v e c) b) = q_key (q_heap c b)" for b
    by (simp add: q_update_def)
  ultimately show ?thesis using assms by (simp add: q_nodes_def q_update_def ent_def)
qed

lemma q_insert_nodes:
  assumes "q_nodes c xs" and "map_of (q_items c) k = None"
  shows "q_nodes (q_insert k v e c) (q_fresh c # xs) \<and> q_capacity (q_insert k v e c) = q_capacity c \<and>
         ent (q_heap (q_insert k v e c) (q_fresh c)) = (k, v, e) \<and>
         (\<forall>b \<in> set xs. ent (q_heap (q_insert k v e c) b) = ent (q_heap c b))"
proof -
  let ?a = "q_fresh c"
  let ?h0 = "(q_heap c)(?a := \<lparr>n_prev = None, n_next = None, q_key = k, q_value = v, q_expiration = e\<rparr>)"
  obtain h d where m: "addToFront ?a (?h0, q_list c) = (h, d)" by fastforce
  have f: "?a \<notin> set xs" using assms(1) by (auto simp: q_nodes_def)
  have dl: "is_dll ?h0 (q_list c) xs"
    using assms(1) f by (subst is_dll_frame [of _ _ "q_heap c"]) (auto simp: q_nodes_def)
  have me: "q_key (h b) = q_key (?h0 b) \<and> ent (h b) = ent (?h0 b)" for b
    by (rule more_ent [OF addToFront_more [OF m]])
  have i: "q_insert k v e c = c\<lparr>q_heap := h, q_list := d, q_fresh := Suc ?a, q_items := mput k ?a (q_items c)\<rparr>"
    by (simp add: q_insert_def q_addToFront_def m Let_def)
  have nk: "q_key (q_heap c b) \<noteq> k" if "b \<in> set xs" for b
    by (rule q_no_item [OF assms that])
  have same: "b \<noteq> ?a" "q_key (h b) = q_key (q_heap c b)" "ent (h b) = ent (q_heap c b)" if "b \<in> set xs" for b
    using that f me [of b] by auto
  have ka: "q_key (h ?a) = k" "ent (h ?a) = (k, v, e)" using me [of ?a] by (simp_all add: ent_def)
  have "map (\<lambda>a. q_key (h a)) xs = map (\<lambda>a. q_key (q_heap c a)) xs" using same by simp
  moreover have "k \<notin> (\<lambda>a. q_key (q_heap c a)) ` set xs" using nk by blast
  ultimately have dk: "distinct (map (\<lambda>a. q_key (h a)) (?a # xs))"
    using assms(1) ka(1) unfolding q_nodes_def by (metis distinct.simps(2) list.set_map list.simps(9))
  have it: "map_of (mput k ?a (q_items c)) j = Some b \<longleftrightarrow> b \<in> set (?a # xs) \<and> q_key (h b) = j" for j b
  proof (cases "b = ?a")
    case True
    with ka(1) f q_item_of [OF assms(1), of j ?a] show ?thesis by (auto simp: go_map)
  next
    case False
    with same(2) [of b] nk [of b] q_item_of [OF assms(1), of j b] show ?thesis by (auto simp: go_map)
  qed
  have "\<forall>b \<in> set (?a # xs). b < Suc ?a" "map_ok (mput k ?a (q_items c))" "0 < q_capacity c"
    using assms(1) by (auto simp: q_nodes_def)
  with addToFront_dll [OF dl f m] dk it have "q_nodes (q_insert k v e c) (?a # xs)"
    by (simp add: i q_nodes_def)
  with same(3) ka(2) show ?thesis by (simp add: i)
qed

section \<open>Refinement\<close>

lemma q_rel_new: "q_rel (newQBackend z cap) []"
  by (auto simp: q_rel_def newQBackend_def q_nodes_def intro!: exI [of _ "[]"])

lemma q_rel_length: "q_rel c es \<Longrightarrow> length (q_items c) = length es"
  by (auto simp: q_rel_def q_length)

text \<open>One lemma per step of the code: use, drop, update, evict, insert.\<close>

lemma q_rel_lookup:
  assumes "q_rel c es"
  shows "map_of (q_items c) k = Some a \<Longrightarrow> map_of es k = Some (q_value (q_heap c a), q_expiration (q_heap c a))"
    and "map_of (q_items c) k = None \<longleftrightarrow> map_of es k = None"
  using assms by (auto simp: q_rel_def q_lookup_entries)

lemma q_rel_use:
  assumes "q_rel c es" and "map_of (q_items c) k = Some a"
  shows "q_rel (q_moveToFront a c) ((k, q_value (q_heap c a), q_expiration (q_heap c a)) # drop_key k es)"
proof -
  obtain xs where xs: "q_nodes c xs" "es = map (\<lambda>a. ent (q_heap c a)) xs" using assms(1) by (auto simp: q_rel_def)
  have a: "a \<in> set xs" "q_key (q_heap c a) = k" using assms(2) q_item_of [OF xs(1)] by blast+
  note M = q_moveToFront_nodes [OF xs(1) a(1)]
  have "map (\<lambda>b. ent (q_heap (q_moveToFront a c) b)) (a # remove1 a xs) =
      ent (q_heap c a) # map (\<lambda>b. ent (q_heap c b)) (remove1 a xs)" using M by simp
  also have "map (\<lambda>b. ent (q_heap c b)) (remove1 a xs) = drop_key k es"
    using map_remove1_key [of "\<lambda>b. ent (q_heap c b)" xs a] xs a by (simp add: q_nodes_def drop_key_def ent_def)
  finally show ?thesis using M a(2) unfolding q_rel_def ent_def [of "q_heap c a"] by metis
qed

lemma q_rel_drop:
  assumes "q_rel c es" and "map_of (q_items c) k = Some a"
  shows "q_rel (q_unlink a k c) (drop_key k es)"
proof -
  obtain xs where xs: "q_nodes c xs" "es = map (\<lambda>a. ent (q_heap c a)) xs" using assms(1) by (auto simp: q_rel_def)
  have a: "a \<in> set xs" "q_key (q_heap c a) = k" using assms(2) q_item_of [OF xs(1)] by blast+
  note M = q_unlink_nodes [OF xs(1) a(1), unfolded a(2)]
  have "map (\<lambda>b. ent (q_heap (q_unlink a k c) b)) (remove1 a xs) = drop_key k es"
    using M map_remove1_key [of "\<lambda>b. ent (q_heap c b)" xs a] xs a by (simp add: q_nodes_def drop_key_def ent_def)
  with M show ?thesis unfolding q_rel_def by metis
qed

lemma q_rel_update:
  assumes "q_rel c es" and "map_of (q_items c) k = Some a"
  shows "q_rel (q_update a v e c) (map (\<lambda>x. if fst x = k then (k, v, e) else x) es)"
proof -
  obtain xs where xs: "q_nodes c xs" "es = map (\<lambda>a. ent (q_heap c a)) xs" using assms(1) by (auto simp: q_rel_def)
  have a: "a \<in> set xs" "q_key (q_heap c a) = k" using assms(2) q_item_of [OF xs(1)] by blast+
  note M = q_update_nodes [OF xs(1) a(1), of v e]
  have "b = a \<longleftrightarrow> q_key (q_heap c b) = k" if "b \<in> set xs" for b
    using q_item_of [OF xs(1), of k b] assms(2) that a(2) by auto
  then have "map (\<lambda>b. ent (q_heap (q_update a v e c) b)) xs = map (\<lambda>x. if fst x = k then (k, v, e) else x) es"
    using M a(2) unfolding xs(2) map_map comp_def
    by (intro map_cong refl) (simp add: ent_def)
  with M show ?thesis unfolding q_rel_def by metis
qed

lemma q_rel_evict:
  assumes "q_rel c es"
  shows "q_rel (q_evictOldest c) (butlast es)"
proof -
  obtain xs where xs: "q_nodes c xs" "es = map (\<lambda>a. ent (q_heap c a)) xs" using assms by (auto simp: q_rel_def)
  have dl: "is_dll (q_heap c) (q_list c) xs" using xs(1) by (simp add: q_nodes_def)
  show ?thesis
  proof (cases xs rule: rev_cases)
    case Nil
    with assms xs(2) is_dll_tail [OF dl] show ?thesis by (simp add: q_evictOldest_def)
  next
    case (snoc ys a)
    have t: "d_tail (q_list c) = Some a" using is_dll_tail [OF dl] snoc by simp
    have ny: "a \<notin> set ys" using dl snoc by (simp add: is_dll_def)
    have "remove1 a xs = ys" using ny snoc by (simp add: remove1_append)
    with q_unlink_nodes [OF xs(1), of a] snoc have
      "q_nodes (q_unlink a (q_key (q_heap c a)) c) ys"
      "\<And>b. ent (q_heap (q_unlink a (q_key (q_heap c a)) c) b) = ent (q_heap c b)" by simp_all
    then have "q_rel (q_unlink a (q_key (q_heap c a)) c) (butlast es)"
      unfolding q_rel_def xs(2) snoc by (intro exI [of _ ys]) simp
    then show ?thesis by (simp add: q_evictOldest_def t Let_def)
  qed
qed

lemma q_rel_insert:
  assumes "q_rel c es" and "map_of es k = None"
  shows "q_rel (q_insert k v e c) ((k, v, e) # es)"
proof -
  obtain xs where xs: "q_nodes c xs" "es = map (\<lambda>a. ent (q_heap c a)) xs" using assms(1) by (auto simp: q_rel_def)
  have "map_of (q_items c) k = None" using assms q_rel_lookup(2) by blast
  note M = q_insert_nodes [OF xs(1) this, of v e]
  have "map (\<lambda>b. ent (q_heap (q_insert k v e c) b)) (q_fresh c # xs) = (k, v, e) # es"
    using M xs(2) by simp
  with M show ?thesis unfolding q_rel_def by metis
qed

lemma q_keeps_capacity [simp]:
  "q_capacity (q_moveToFront a c) = q_capacity c" "q_capacity (q_unlink a k c) = q_capacity c"
  "q_capacity (q_update a v e c) = q_capacity c" "q_capacity (q_insert k v e c) = q_capacity c"
  "q_capacity (q_evictOldest c) = q_capacity c" "q_capacity (q_expire a k c) = q_capacity c"
  by (simp_all add: q_moveToFront_def q_unlink_def q_removeNode_def q_update_def q_insert_def
      q_addToFront_def q_evictOldest_def q_expire_def case_prod_beta Let_def split: option.split)

lemma map_of_butlast_None: "map_of es k = None \<Longrightarrow> map_of (butlast es) k = None"
  by (auto simp: map_of_eq_None_iff dest: in_set_butlastD)

lemma q_moveToFront_value [simp]: "q_nodes c xs \<Longrightarrow> a \<in> set xs \<Longrightarrow> q_value (q_heap (q_moveToFront a c) b) = q_value (q_heap c b)"
  using q_moveToFront_nodes [of c xs a b] by (simp add: ent_def)

lemma lru_Get_refines:
  assumes "q_rel c es"
  shows "q_rel (fst (lru_Get now k c)) (fst (lru_get now k es)) \<and> snd (lru_Get now k c) = snd (lru_get now k es)"
proof (cases "map_of (q_items c) k")
  case None
  with assms q_rel_lookup(2) [OF assms, of k] show ?thesis by (simp add: lru_Get_def lru_get_def)
next
  case (Some a)
  obtain xs where "q_nodes c xs" using assms by (auto simp: q_rel_def)
  then have "q_value (q_heap (q_moveToFront a c) a) = q_value (q_heap c a)"
    using Some q_item_of by (metis q_moveToFront_value)
  with Some q_rel_lookup(1) [OF assms Some] q_rel_use [OF assms Some] q_rel_drop [OF assms Some] show ?thesis
    by (simp add: lru_Get_def lru_get_def q_expire_def Let_def)
qed

lemma lru_Set_refines:
  assumes "q_rel c es"
  shows "q_rel (lru_Set now k v ttl c) (lru_set (q_capacity c) now k v ttl es)"
proof (cases "map_of (q_items c) k")
  case None
  with assms q_rel_lookup(2) [OF assms, of k] q_rel_length [OF assms] q_rel_evict [OF assms] show ?thesis
    by (auto simp: lru_Set_def lru_set_def Let_def intro!: q_rel_insert map_of_butlast_None)
next
  case (Some a)
  let ?c = "q_update a v (exp_of now ttl) c"
  have U: "q_rel ?c (map (\<lambda>x. if fst x = k then (k, v, exp_of now ttl) else x) es)"
    by (rule q_rel_update [OF assms Some])
  have i: "map_of (q_items ?c) k = Some a" "q_value (q_heap ?c a) = v" "q_expiration (q_heap ?c a) = exp_of now ttl"
    using Some by (simp_all add: q_update_def)
  have "drop_key k (map (\<lambda>x. if fst x = k then (k, v, exp_of now ttl) else x) es) = drop_key k es"
    unfolding drop_key_def by (induction es) auto
  with q_rel_use [OF U i(1)] i q_rel_lookup(2) [OF assms, of k] Some show ?thesis
    by (simp add: lru_Set_def lru_set_def Let_def)
qed

lemma fifo_Get_refines:
  assumes "q_rel c es"
  shows "q_rel (fst (fifo_Get now k c)) (fst (fifo_get now k es)) \<and> snd (fifo_Get now k c) = snd (fifo_get now k es)"
  using q_rel_lookup [OF assms, of k] q_rel_drop [OF assms, of k] assms
  by (auto simp: fifo_Get_def fifo_get_def q_expire_def Let_def split: option.splits)

lemma fifo_Set_refines:
  assumes "q_rel c es"
  shows "q_rel (fifo_Set now k v ttl c) (fifo_set (q_capacity c) now k v ttl es)"
proof (cases "map_of (q_items c) k")
  case None
  with assms q_rel_lookup(2) [OF assms, of k] q_rel_length [OF assms] q_rel_evict [OF assms] show ?thesis
    by (auto simp: fifo_Set_def fifo_set_def Let_def intro!: q_rel_insert map_of_butlast_None)
next
  case (Some a)
  with q_rel_update [OF assms Some] q_rel_lookup(2) [OF assms, of k] show ?thesis
    by (simp add: fifo_Set_def fifo_set_def Let_def)
qed

lemma q_Delete_refines:
  assumes "q_rel c es"
  shows "q_rel (q_Delete k c) (drop_key k es)"
proof (cases "map_of (q_items c) k")
  case None
  then have "map_of es k = None" using q_rel_lookup(2) [OF assms] by blast
  then have "drop_key k es = es" unfolding drop_key_def by (intro filter_True) (auto simp: map_of_eq_None_iff)
  with None assms show ?thesis by (simp add: q_Delete_def)
qed (simp add: q_Delete_def q_rel_drop [OF assms])

section \<open>The contract of the policies on lists\<close>

lemma map_of_drop_key: "map_of (drop_key k es) k' = (if k' = k then None else map_of es k')"
  unfolding drop_key_def by (induction es) auto

lemma distinct_drop_key: "distinct (map fst es) \<Longrightarrow> distinct (map fst (drop_key k es))"
  unfolding drop_key_def by (induction es) auto

lemma map_of_butlast:
  assumes "distinct (map fst es)"
  shows "map_of (butlast es) k' = (if es \<noteq> [] \<and> k' = fst (last es) then None else map_of es k')"
proof (cases es rule: rev_cases)
  case (snoc ys y)
  with assms have "map_of ys (fst y) = None" by (auto simp: map_of_eq_None_iff)
  with snoc show ?thesis by (cases y) (auto simp: map_add_def split: option.split)
qed simp

lemma map_of_update_other:
  "k' \<noteq> k \<Longrightarrow> map_of (map (\<lambda>x. if fst x = k then (k, w) else x) es) k' = map_of es k'"
  by (induction es) auto

lemma map_of_update_same:
  "map_of es k \<noteq> None \<Longrightarrow> map_of (map (\<lambda>x. if fst x = k then (k, w) else x) es) k = Some w"
  by (induction es) auto

lemma lru_get_lookup:
  "map_of (fst (lru_get now k es)) k' =
     (if k' = k \<and> (\<exists>v e. map_of es k = Some (v, e) \<and> expired e now) then None else map_of es k')"
  by (auto simp: lru_get_def map_of_drop_key split: option.splits)

lemma fifo_get_lookup:
  "map_of (fst (fifo_get now k es)) k' =
     (if k' = k \<and> (\<exists>v e. map_of es k = Some (v, e) \<and> expired e now) then None else map_of es k')"
  by (auto simp: fifo_get_def map_of_drop_key split: option.splits)

definition base_of :: "int \<Rightarrow> string \<Rightarrow> 'v entries \<Rightarrow> 'v entries" where
  "base_of cap k es = (if map_of es k = None \<and> int (length es) \<ge> cap then butlast es else es)"

lemma lru_set_lookup:
  "map_of (lru_set cap now k v ttl es) k' =
     (if k' = k then Some (v, exp_of now ttl) else map_of (base_of cap k es) k')"
  by (auto simp: lru_set_def base_of_def map_of_drop_key)

lemma fifo_set_lookup:
  "map_of (fifo_set cap now k v ttl es) k' =
     (if k' = k then Some (v, exp_of now ttl) else map_of (base_of cap k es) k')"
  using map_of_update_other [of k' k "(v, exp_of now ttl)" es] map_of_update_same [of es k "(v, exp_of now ttl)"]
  by (cases "k' = k") (simp_all add: fifo_set_def base_of_def)

lemma length_drop_key: "length (drop_key k es) \<le> length es"
  by (simp add: drop_key_def)

lemma length_drop_key_less: "map_of es k \<noteq> None \<Longrightarrow> length (drop_key k es) < length es"
  using length_drop_key by (induction es) (auto simp: drop_key_def less_Suc_eq_le split: if_splits)

lemma get_lengths:
  assumes "int (length es) \<le> cap"
  shows "int (length (fst (lru_get now k es))) \<le> cap" and "int (length (fst (fifo_get now k es))) \<le> cap"
proof -
  have d: "int (length (drop_key k es)) \<le> cap" using assms length_drop_key [of k es] by linarith
  have h: "int (Suc (length (drop_key k es))) \<le> cap" if "map_of es k = Some x" for x
    using assms length_drop_key_less [of es k] that by simp
  show "int (length (fst (lru_get now k es))) \<le> cap"
  proof (cases "map_of es k")
    case (Some x)
    with d h [OF Some] show ?thesis by (cases x) (simp only: lru_get_def option.case prod.case fst_conv list.size split: if_split, simp)
  qed (use assms in \<open>simp add: lru_get_def\<close>)
  show "int (length (fst (fifo_get now k es))) \<le> cap"
  proof (cases "map_of es k")
    case (Some x)
    with d assms show ?thesis by (cases x) (simp only: fifo_get_def option.case prod.case fst_conv split: if_split, simp)
  qed (use assms in \<open>simp add: fifo_get_def\<close>)
qed

lemma set_lengths:
  assumes "int (length es) \<le> cap" and "0 < cap"
  shows "int (length (lru_set cap now k v ttl es)) \<le> cap" and "int (length (fifo_set cap now k v ttl es)) \<le> cap"
proof -
  have d: "int (Suc (length (drop_key k es))) \<le> cap" if "map_of es k \<noteq> None"
    using assms length_drop_key_less [OF that] by simp
  have b: "int (Suc (length (butlast es))) \<le> cap" using assms by simp
  show "int (length (lru_set cap now k v ttl es)) \<le> cap"
    using assms d b by (cases "map_of es k = None"; cases "int (length es) \<ge> cap") (simp_all add: lru_set_def)
  show "int (length (fifo_set cap now k v ttl es)) \<le> cap"
    using assms b by (cases "map_of es k = None"; cases "int (length es) \<ge> cap") (simp_all add: fifo_set_def)
qed

section \<open>Both back ends are caches\<close>

definition q_inv :: "'v qBackend \<Rightarrow> bool" where
  "q_inv c \<longleftrightarrow> (\<exists>es. q_rel c es \<and> int (length es) \<le> q_capacity c)"

definition q_lookup :: "'v qBackend \<Rightarrow> string \<Rightarrow> ('v \<times> int) option" where
  "q_lookup c k = map_option (\<lambda>a. (q_value (q_heap c a), q_expiration (q_heap c a))) (map_of (q_items c) k)"

lemma q_rel_facts:
  assumes "q_rel c es"
  shows "q_lookup c = map_of es" and "distinct (map fst es)" and "0 < q_capacity c"
proof -
  obtain xs where xs: "q_nodes c xs" "es = map (\<lambda>a. ent (q_heap c a)) xs" using assms by (auto simp: q_rel_def)
  show "q_lookup c = map_of es" by (rule ext) (simp only: q_lookup_def xs(2) q_lookup_entries [OF xs(1)])
  show "distinct (map fst es)" "0 < q_capacity c" using xs by (simp_all add: q_nodes_def ent_def comp_def)
qed

lemma q_inv_obtain:
  assumes "q_inv c"
  obtains es where "q_rel c es" "q_lookup c = map_of es" "distinct (map fst es)"
    "int (length es) \<le> q_capacity c" "0 < q_capacity c"
  using assms q_rel_facts unfolding q_inv_def by blast

lemma q_ops_capacity [simp]:
  "q_capacity (fst (lru_Get now k c)) = q_capacity c" "q_capacity (fst (fifo_Get now k c)) = q_capacity c"
  "q_capacity (lru_Set now k v ttl c) = q_capacity c" "q_capacity (fifo_Set now k v ttl c) = q_capacity c"
  "q_capacity (q_Delete k c) = q_capacity c"
  by (auto simp: lru_Get_def fifo_Get_def lru_Set_def fifo_Set_def q_Delete_def Let_def split: option.splits)

lemma q_inv_New: "q_inv (newQBackend z cap) \<and> q_lookup (newQBackend z cap) = Map.empty"
  using q_rel_new [of z cap] q_rel_facts [OF q_rel_new [of z cap]] unfolding q_inv_def by force

lemma q_len: "q_inv c \<Longrightarrow> finite (dom (q_lookup c)) \<and> q_Len c = int (card (dom (q_lookup c))) \<and> q_Len c \<le> q_capacity c"
proof (erule q_inv_obtain)
  fix es assume e: "q_rel c es" "q_lookup c = map_of es" "distinct (map fst es)" "int (length es) \<le> q_capacity c"
  have "card (dom (map_of es)) = length es"
    using distinct_card [OF e(3)] by (simp add: dom_map_of_conv_image_fst)
  with e q_rel_length [OF e(1)] show ?thesis by (simp add: q_Len_def finite_dom_map_of)
qed

lemma base_of_cases:
  assumes "distinct (map fst es)" and "k' \<noteq> k"
  shows "map_of (base_of cap k es) k' = map_of es k' \<or> map_of (base_of cap k es) k' = None"
    and "map_of es k \<noteq> None \<or> int (length es) < cap \<Longrightarrow> map_of (base_of cap k es) k' = map_of es k'"
    and "k' \<noteq> fst (last es) \<Longrightarrow> map_of (base_of cap k es) k' = map_of es k'"
  using assms by (auto simp: base_of_def map_of_butlast)

text \<open>What a \<open>Set\<close> of \<open>k\<close> to \<open>w\<close> may do to the contents.\<close>

definition q_set_ok :: "'v qBackend \<Rightarrow> 'v qBackend \<Rightarrow> string \<Rightarrow> 'v \<times> int \<Rightarrow> bool" where
  "q_set_ok c c' k w \<longleftrightarrow> q_inv c' \<and> q_lookup c' k = Some w \<and>
     (\<forall>k'. k' \<noteq> k \<longrightarrow> q_lookup c' k' = q_lookup c k' \<or> q_lookup c' k' = None) \<and>
     (\<forall>k'. k' \<noteq> k \<longrightarrow> q_lookup c k \<noteq> None \<or> q_Len c < q_capacity c \<longrightarrow> q_lookup c' k' = q_lookup c k') \<and>
     (\<exists>j. \<forall>k'. k' \<noteq> k \<longrightarrow> k' \<noteq> j \<longrightarrow> q_lookup c' k' = q_lookup c k')"

lemma q_set_laws:
  assumes "q_inv c" and "\<And>es. q_rel c es \<Longrightarrow> q_rel c' (es' es)" and "q_capacity c' = q_capacity c"
    and "\<And>es k'. map_of (es' es) k' = (if k' = k then Some w else map_of (base_of (q_capacity c) k es) k')"
    and "\<And>es. int (length es) \<le> q_capacity c \<Longrightarrow> 0 < q_capacity c \<Longrightarrow> int (length (es' es)) \<le> q_capacity c"
  shows "q_set_ok c c' k w"
proof -
  from q_inv_obtain [OF assms(1)] obtain es where es: "q_rel c es" "q_lookup c = map_of es"
    "distinct (map fst es)" "int (length es) \<le> q_capacity c" "0 < q_capacity c" .
  note R = assms(2) [OF es(1)]
  have l: "q_lookup c' = map_of (es' es)" using q_rel_facts(1) [OF R] .
  have n: "q_Len c = int (length es)" using q_rel_length [OF es(1)] by (simp add: q_Len_def)
  have "q_inv c'" using R assms(3,5) es(4,5) unfolding q_inv_def by metis
  moreover have "q_lookup c' k = Some w" by (simp add: l assms(4))
  ultimately show ?thesis
    using base_of_cases [OF es(3), of _ k "q_capacity c"] unfolding q_set_ok_def l es(2) n assms(4)
    by (intro conjI exI [of _ "fst (last es)"]) auto
qed

lemma q_get_laws:
  assumes "q_inv c" and "\<And>es. q_rel c es \<Longrightarrow> q_rel c' (es' es)" and "q_capacity c' = q_capacity c"
    and "\<And>es k'. map_of (es' es) k' = (if k' = k \<and> P (map_of es k) then None else map_of es k')"
    and "\<And>es. int (length es) \<le> q_capacity c \<Longrightarrow> 0 < q_capacity c \<Longrightarrow> int (length (es' es)) \<le> q_capacity c"
  shows "q_inv c' \<and> (\<forall>k'. q_lookup c' k' = (if k' = k \<and> P (q_lookup c k) then None else q_lookup c k'))"
proof -
  from q_inv_obtain [OF assms(1)] obtain es where es: "q_rel c es" "q_lookup c = map_of es"
    "int (length es) \<le> q_capacity c" "0 < q_capacity c" .
  note R = assms(2) [OF es(1)]
  have "q_inv c'" using R assms(3,5) es(3,4) unfolding q_inv_def by metis
  with q_rel_facts(1) [OF R] es(2) show ?thesis by (simp add: assms(4))
qed

lemma lru_Get_laws:
  assumes "q_inv c"
  shows "q_inv (fst (lru_Get now k c)) \<and> (\<forall>k'. q_lookup (fst (lru_Get now k c)) k' =
     (if k' = k \<and> (\<exists>v e. q_lookup c k = Some (v, e) \<and> expired e now) then None else q_lookup c k'))"
  by (rule q_get_laws [OF assms lru_Get_refines [THEN conjunct1]], assumption, rule q_ops_capacity,
      rule lru_get_lookup, erule get_lengths)

lemma fifo_Get_laws:
  assumes "q_inv c"
  shows "q_inv (fst (fifo_Get now k c)) \<and> (\<forall>k'. q_lookup (fst (fifo_Get now k c)) k' =
     (if k' = k \<and> (\<exists>v e. q_lookup c k = Some (v, e) \<and> expired e now) then None else q_lookup c k'))"
  by (rule q_get_laws [OF assms fifo_Get_refines [THEN conjunct1]], assumption, rule q_ops_capacity,
      rule fifo_get_lookup, erule get_lengths)

lemma q_Delete_laws:
  assumes "q_inv c"
  shows "q_inv (q_Delete k c) \<and> (\<forall>k'. q_lookup (q_Delete k c) k' = (if k' = k then None else q_lookup c k'))"
proof -
  have "int (length (drop_key k es)) \<le> q_capacity c" if "int (length es) \<le> q_capacity c" for es :: "'a entries"
    using that length_drop_key [of k es] by linarith
  then show ?thesis
    using q_get_laws [OF assms q_Delete_refines, where k = k and P = "\<lambda>_. True"] by (simp add: map_of_drop_key)
qed

lemma lru_Get_result:
  assumes "q_inv c"
  shows "snd (lru_Get now k c) =
     (case q_lookup c k of None \<Rightarrow> None | Some (v, e) \<Rightarrow> if expired e now then None else Some v)"
proof -
  from q_inv_obtain [OF assms] obtain es where es: "q_rel c es" "q_lookup c = map_of es" .
  from lru_Get_refines [OF es(1), of now k] es(2) show ?thesis by (auto simp: lru_get_def split: option.split)
qed

lemma fifo_Get_result:
  assumes "q_inv c"
  shows "snd (fifo_Get now k c) =
     (case q_lookup c k of None \<Rightarrow> None | Some (v, e) \<Rightarrow> if expired e now then None else Some v)"
proof -
  from q_inv_obtain [OF assms] obtain es where es: "q_rel c es" "q_lookup c = map_of es" .
  from fifo_Get_refines [OF es(1), of now k] es(2) show ?thesis by (auto simp: fifo_get_def split: option.split)
qed

lemma lru_Set_ok: "q_inv c \<Longrightarrow> q_set_ok c (lru_Set now k v ttl c) k (v, exp_of now ttl)"
  by (rule q_set_laws [OF _ lru_Set_refines], assumption, assumption, rule q_ops_capacity,
      rule lru_set_lookup, erule set_lengths)

lemma fifo_Set_ok: "q_inv c \<Longrightarrow> q_set_ok c (fifo_Set now k v ttl c) k (v, exp_of now ttl)"
  by (rule q_set_laws [OF _ fifo_Set_refines], assumption, assumption, rule q_ops_capacity,
      rule fifo_set_lookup, erule set_lengths)


lemma q_set_okD:
  assumes "q_set_ok c c' k w"
  shows "q_inv c'" and "q_lookup c' k = Some w"
    and "k' \<noteq> k \<Longrightarrow> q_lookup c' k' = q_lookup c k' \<or> q_lookup c' k' = None"
    and "k' \<noteq> k \<Longrightarrow> q_lookup c k \<noteq> None \<or> q_Len c < q_capacity c \<Longrightarrow> q_lookup c' k' = q_lookup c k'"
    and "\<exists>j. \<forall>k'. k' \<noteq> k \<longrightarrow> k' \<noteq> j \<longrightarrow> q_lookup c' k' = q_lookup c k'"
proof -
  note A = assms [unfolded q_set_ok_def]
  show "q_inv c'" by (rule A [THEN conjunct1])
  show "q_lookup c' k = Some w" by (rule A [THEN conjunct2, THEN conjunct1])
  show "q_lookup c' k' = q_lookup c k' \<or> q_lookup c' k' = None" if "k' \<noteq> k"
    by (rule A [THEN conjunct2, THEN conjunct2, THEN conjunct1, THEN spec, THEN mp, OF that])
  show "q_lookup c' k' = q_lookup c k'" if "k' \<noteq> k" "q_lookup c k \<noteq> None \<or> q_Len c < q_capacity c"
    by (rule A [THEN conjunct2, THEN conjunct2, THEN conjunct2, THEN conjunct1, THEN spec, THEN mp, THEN mp, OF that])
  show "\<exists>j. \<forall>k'. k' \<noteq> k \<longrightarrow> k' \<noteq> j \<longrightarrow> q_lookup c' k' = q_lookup c k'"
    by (rule A [THEN conjunct2, THEN conjunct2, THEN conjunct2, THEN conjunct2])
qed

interpretation lru: cache_backend expired "\<lambda>_. True" lru_Get lru_Set q_Delete q_Len q_lookup q_capacity q_inv
proof (unfold_locales, goal_cases)
  case (1 now)
  show ?case by (simp add: expired_def)
next
  case (2 c now k)
  then show ?case by (rule lru_Get_result)
next
  case (3 c now k k')
  show ?case by (rule lru_Get_laws [OF 3, THEN conjunct2, THEN spec])
next
  case (4 c now k)
  show ?case using lru_Get_laws [OF 4, of now k, THEN conjunct1] by simp
next
  case (5 c now k v ttl)
  show ?case by (rule q_set_okD(2) [OF lru_Set_ok [OF 5(1)]])
next
  case (6 c now k' k v ttl)
  show ?case by (rule q_set_okD(3) [OF lru_Set_ok [OF 6(1)] 6(3)])
next
  case (7 c now k' k v ttl)
  show ?case by (rule q_set_okD(4) [OF lru_Set_ok [OF 7(1)] 7(3,4)])
next
  case (8 c now k v ttl)
  show ?case by (rule q_set_okD(5) [OF lru_Set_ok [OF 8(1)]])
next
  case (9 c now k v ttl)
  show ?case using q_set_okD(1) [OF lru_Set_ok [OF 9(1)]] by simp
next
  case (10 c k k')
  show ?case by (rule q_Delete_laws [OF 10, THEN conjunct2, THEN spec])
next
  case (11 c k)
  show ?case using q_Delete_laws [OF 11, of k, THEN conjunct1] by simp
next
  case (12 c)
  then show ?case using q_len by blast
next
  case (13 c)
  then show ?case using q_len by blast
qed

interpretation fifo: cache_backend expired "\<lambda>_. True" fifo_Get fifo_Set q_Delete q_Len q_lookup q_capacity q_inv
proof (unfold_locales, goal_cases)
  case (1 now)
  show ?case by (simp add: expired_def)
next
  case (2 c now k)
  then show ?case by (rule fifo_Get_result)
next
  case (3 c now k k')
  show ?case by (rule fifo_Get_laws [OF 3, THEN conjunct2, THEN spec])
next
  case (4 c now k)
  show ?case using fifo_Get_laws [OF 4, of now k, THEN conjunct1] by simp
next
  case (5 c now k v ttl)
  show ?case by (rule q_set_okD(2) [OF fifo_Set_ok [OF 5(1)]])
next
  case (6 c now k' k v ttl)
  show ?case by (rule q_set_okD(3) [OF fifo_Set_ok [OF 6(1)] 6(3)])
next
  case (7 c now k' k v ttl)
  show ?case by (rule q_set_okD(4) [OF fifo_Set_ok [OF 7(1)] 7(3,4)])
next
  case (8 c now k v ttl)
  show ?case by (rule q_set_okD(5) [OF fifo_Set_ok [OF 8(1)]])
next
  case (9 c now k v ttl)
  show ?case using q_set_okD(1) [OF fifo_Set_ok [OF 9(1)]] by simp
next
  case (10 c k k')
  show ?case by (rule q_Delete_laws [OF 10, THEN conjunct2, THEN spec])
next
  case (11 c k)
  show ?case using q_Delete_laws [OF 11, of k, THEN conjunct1] by simp
next
  case (12 c)
  then show ?case using q_len by blast
next
  case (13 c)
  then show ?case using q_len by blast
qed

section \<open>The back ends are their policies\<close>

lemma lru_run_refines:
  "q_rel c es \<Longrightarrow> q_inv c \<Longrightarrow> q_rel (cache_run lru_Get lru_Set q_Delete ops c) (cache_run lru_get (lru_set (q_capacity c)) drop_key ops es)"
proof (induction ops arbitrary: c es)
  case (Cons op ops)
  let ?c = "cache_exec lru_Get lru_Set q_Delete op c"
  have i: "q_inv ?c" "q_capacity ?c = q_capacity c" using lru.exec_inv [OF Cons.prems(2), of op] by simp_all
  have "q_rel ?c (cache_exec lru_get (lru_set (q_capacity c)) drop_key op es)"
    using lru_Get_refines lru_Set_refines q_Delete_refines Cons.prems(1) by (cases op) auto
  from Cons.IH [OF this i(1)] show ?case by (simp add: i(2))
qed simp

lemma fifo_run_refines:
  "q_rel c es \<Longrightarrow> q_inv c \<Longrightarrow> q_rel (cache_run fifo_Get fifo_Set q_Delete ops c) (cache_run fifo_get (fifo_set (q_capacity c)) drop_key ops es)"
proof (induction ops arbitrary: c es)
  case (Cons op ops)
  let ?c = "cache_exec fifo_Get fifo_Set q_Delete op c"
  have i: "q_inv ?c" "q_capacity ?c = q_capacity c" using fifo.exec_inv [OF Cons.prems(2), of op] by simp_all
  have "q_rel ?c (cache_exec fifo_get (fifo_set (q_capacity c)) drop_key op es)"
    using fifo_Get_refines fifo_Set_refines q_Delete_refines Cons.prems(1) by (cases op) auto
  from Cons.IH [OF this i(1)] show ?case by (simp add: i(2))
qed simp

lemma q_capacity_New: "q_capacity (newQBackend z n) = (if n \<le> 0 then 128 else n)"
  by (simp add: newQBackend_def)

text \<open>
  C13: the LRU back end, a doubly linked list of heap nodes with a map from keys to nodes, implements the
  move-to-front list: after any sequence of operations its nodes in list order are the entries of the
  abstract list, most recently used first, whose last entry is the one an insertion into a full cache
  drops; and a \<open>Get\<close> returns what the list returns.
\<close>

theorem lru_refines_recency_list:
  "let cap = (if n \<le> 0 then 128 else n);
       c = cache_run lru_Get lru_Set q_Delete ops (newQBackend z n);
       es = cache_run lru_get (lru_set cap) drop_key ops []
   in q_rel c es \<and> snd (lru_Get now k c) = snd (lru_get now k es) \<and> q_Len c = int (length es)"
  using lru_run_refines [OF q_rel_new q_inv_New [THEN conjunct1], of ops z n]
    lru_Get_refines [OF lru_run_refines [OF q_rel_new q_inv_New [THEN conjunct1], of ops z n], of now k]
    q_rel_length [OF lru_run_refines [OF q_rel_new q_inv_New [THEN conjunct1], of ops z n]]
  by (simp only: Let_def q_capacity_New q_Len_def)

text \<open>
  The FIFO back end implements the insertion-order list: a \<open>Get\<close> and an update keep the order, and
  an insertion into a full cache drops the entry inserted first.
\<close>

theorem fifo_refines_insertion_list:
  "let cap = (if n \<le> 0 then 128 else n);
       c = cache_run fifo_Get fifo_Set q_Delete ops (newQBackend z n);
       es = cache_run fifo_get (fifo_set cap) drop_key ops []
   in q_rel c es \<and> snd (fifo_Get now k c) = snd (fifo_get now k es) \<and> q_Len c = int (length es)"
  using fifo_run_refines [OF q_rel_new q_inv_New [THEN conjunct1], of ops z n]
    fifo_Get_refines [OF fifo_run_refines [OF q_rel_new q_inv_New [THEN conjunct1], of ops z n], of now k]
    q_rel_length [OF fifo_run_refines [OF q_rel_new q_inv_New [THEN conjunct1], of ops z n]]
  by (simp only: Let_def q_capacity_New q_Len_def)

end
