(* ===== verification/Cache_Lfu.thy ===== *)
theory Cache_Lfu
  imports Dll Cache_Spec
begin

text \<open>
  The LFU back end (\<open>src/cache/lfu.go\<close>): a map from keys to nodes and, per access frequency, a doubly
  linked list of the nodes with that frequency, most recent first. A bucket is held only by the map
  \<open>freqBuckets\<close>, so it is a value of that map. The invariant ties \<open>minFreq\<close> to the buckets: no node has a
  lower frequency, and the bucket of \<open>minFreq\<close> is not empty whenever the cache is full, which is when
  \<open>evictMinFreq\<close> needs it.
\<close>

record 'v lfuNode = links +
  f_key :: string
  f_value :: 'v
  f_freq :: int
  f_expiration :: int

record lfuList =
  l_ends :: dlist
  l_len :: int

record 'v lfuBackend =
  f_capacity :: int
  f_minFreq :: int
  f_items :: "(string, nat) gomap"
  f_freqBuckets :: "(int, lfuList) gomap"
  f_heap :: "nat \<Rightarrow> 'v lfuNode"
  f_metrics :: cache_Metrics
  f_fresh :: nat

definition lfu_empty :: lfuList where
  "lfu_empty = \<lparr>l_ends = dl_empty, l_len = 0\<rparr>"

definition lfu_pushFront :: "nat \<Rightarrow> (nat \<Rightarrow> 'v lfuNode) \<times> lfuList \<Rightarrow> (nat \<Rightarrow> 'v lfuNode) \<times> lfuList" where
  "lfu_pushFront node hl =
     (let (h, d) = addToFront node (fst hl, l_ends (snd hl)) in (h, \<lparr>l_ends = d, l_len = l_len (snd hl) + 1\<rparr>))"

definition lfu_remove :: "nat \<Rightarrow> (nat \<Rightarrow> 'v lfuNode) \<times> lfuList \<Rightarrow> (nat \<Rightarrow> 'v lfuNode) \<times> lfuList" where
  "lfu_remove node hl =
     (let (h, d) = removeNode node (fst hl, l_ends (snd hl)) in (h, \<lparr>l_ends = d, l_len = l_len (snd hl) - 1\<rparr>))"

definition lfu_popTail :: "(nat \<Rightarrow> 'v lfuNode) \<times> lfuList \<Rightarrow> ((nat \<Rightarrow> 'v lfuNode) \<times> lfuList) \<times> nat option" where
  "lfu_popTail hl =
     (case d_tail (l_ends (snd hl)) of None \<Rightarrow> (hl, None) | Some t \<Rightarrow> (lfu_remove t hl, Some t))"

definition newLFUBackend :: "'v lfuNode \<Rightarrow> int \<Rightarrow> 'v lfuBackend" where
  "newLFUBackend z capacity =
     \<lparr>f_capacity = (if capacity \<le> 0 then 128 else capacity), f_minFreq = 0, f_items = [], f_freqBuckets = [],
      f_heap = (\<lambda>_. z), f_metrics = no_cache_metrics, f_fresh = 0\<rparr>"

text \<open>\<open>getBucket\<close> creates the bucket if needed; the callers push to it at once.\<close>

definition f_getBucket :: "int \<Rightarrow> 'v lfuBackend \<Rightarrow> 'v lfuBackend \<times> lfuList" where
  "f_getBucket freq c =
     (case map_of (f_freqBuckets c) freq of
        Some b \<Rightarrow> (c, b)
      | None \<Rightarrow> (c\<lparr>f_freqBuckets := mput freq lfu_empty (f_freqBuckets c)\<rparr>, lfu_empty))"

definition f_push :: "int \<Rightarrow> nat \<Rightarrow> 'v lfuBackend \<Rightarrow> 'v lfuBackend" where
  "f_push freq node c =
     (let (c1, b) = f_getBucket freq c; (h, b1) = lfu_pushFront node (f_heap c1, b)
      in c1\<lparr>f_heap := h, f_freqBuckets := mput freq b1 (f_freqBuckets c1)\<rparr>)"

definition f_removeNode :: "nat \<Rightarrow> 'v lfuBackend \<Rightarrow> 'v lfuBackend" where
  "f_removeNode node c =
     (let freq = f_freq (f_heap c node) in
      case map_of (f_freqBuckets c) freq of
        None \<Rightarrow> c
      | Some bucket \<Rightarrow>
          let (h, b1) = lfu_remove node (f_heap c, bucket)
          in c\<lparr>f_heap := h, f_freqBuckets := mput freq b1 (f_freqBuckets c),
               f_minFreq := (if freq = f_minFreq c \<and> l_len b1 = 0 then f_minFreq c + 1 else f_minFreq c)\<rparr>)"

definition f_incrementFreq :: "nat \<Rightarrow> 'v lfuBackend \<Rightarrow> 'v lfuBackend" where
  "f_incrementFreq node c =
     (let c1 = f_removeNode node c;
          freq = f_freq (f_heap c1 node) + 1;
          c2 = c1\<lparr>f_heap := (f_heap c1)(node := (f_heap c1 node)\<lparr>f_freq := freq\<rparr>)\<rparr>
      in f_push freq node c2)"

definition f_evictMinFreq :: "'v lfuBackend \<Rightarrow> 'v lfuBackend" where
  "f_evictMinFreq c =
     (case map_of (f_freqBuckets c) (f_minFreq c) of
        None \<Rightarrow> c
      | Some bucket \<Rightarrow>
          if l_len bucket = 0 then c
          else
            let ((h, b1), victim) = lfu_popTail (f_heap c, bucket);
                c1 = c\<lparr>f_heap := h, f_freqBuckets := mput (f_minFreq c) b1 (f_freqBuckets c)\<rparr>
            in case victim of
                 None \<Rightarrow> c1
               | Some v \<Rightarrow> c1\<lparr>f_items := mdel (f_key (f_heap c1 v)) (f_items c1),
                               f_metrics := inc_evictions (f_metrics c1)\<rparr>)"

definition lfu_Get :: "time \<Rightarrow> string \<Rightarrow> 'v lfuBackend \<Rightarrow> 'v lfuBackend \<times> 'v option" where
  "lfu_Get now key c =
     (case map_of (f_items c) key of
        None \<Rightarrow> (c\<lparr>f_metrics := inc_misses (f_metrics c)\<rparr>, None)
      | Some node \<Rightarrow>
          if expired (f_expiration (f_heap c node)) now then
            let c1 = f_removeNode node c
            in (c1\<lparr>f_items := mdel key (f_items c1), f_metrics := inc_misses (inc_evictions (f_metrics c1))\<rparr>, None)
          else
            let c1 = f_incrementFreq node c
            in (c1\<lparr>f_metrics := inc_hits (f_metrics c1)\<rparr>, Some (f_value (f_heap c1 node))))"

definition lfu_Set :: "time \<Rightarrow> string \<Rightarrow> 'v \<Rightarrow> duration list \<Rightarrow> 'v lfuBackend \<Rightarrow> 'v lfuBackend" where
  "lfu_Set now key value ttl c =
     (let ex = exp_of now ttl in
      case map_of (f_items c) key of
        Some node \<Rightarrow>
          f_incrementFreq node
            (c\<lparr>f_heap := (f_heap c)(node := (f_heap c node)\<lparr>f_value := value, f_expiration := ex\<rparr>)\<rparr>)
      | None \<Rightarrow>
          let c1 = (if int (length (f_items c)) \<ge> f_capacity c then f_evictMinFreq c else c);
              a = f_fresh c1;
              c2 = c1\<lparr>f_items := mput key a (f_items c1),
                      f_heap := (f_heap c1)(a := \<lparr>n_prev = None, n_next = None, f_key = key, f_value = value,
                                                   f_freq = 1, f_expiration = ex\<rparr>),
                      f_fresh := Suc a\<rparr>
          in (f_push 1 a c2)\<lparr>f_minFreq := 1\<rparr>)"

definition lfu_Delete :: "string \<Rightarrow> 'v lfuBackend \<Rightarrow> 'v lfuBackend" where
  "lfu_Delete key c =
     (case map_of (f_items c) key of
        None \<Rightarrow> c
      | Some node \<Rightarrow> let c1 = f_removeNode node c in c1\<lparr>f_items := mdel key (f_items c1)\<rparr>)"

definition lfu_GetOrFetch ::
  "ctx_err \<Rightarrow> time \<Rightarrow> string \<Rightarrow> duration \<Rightarrow> error + 'v \<Rightarrow> time \<Rightarrow> ctx_err \<Rightarrow> 'v lfuBackend \<Rightarrow> 'v lfuBackend \<times> (error + 'v) \<times> bool" where
  "lfu_GetOrFetch = GetOrFetch lfu_Get lfu_Set"

definition lfu_Len :: "'v lfuBackend \<Rightarrow> int" where
  "lfu_Len c = int (length (f_items c))"

section \<open>The buckets\<close>

text \<open>\<open>X freq\<close> is the list of nodes of the bucket of \<open>freq\<close>; the lists are disjoint.\<close>

definition f_lists :: "(nat \<Rightarrow> 'v lfuNode) \<Rightarrow> (int, lfuList) gomap \<Rightarrow> (int \<Rightarrow> nat list) \<Rightarrow> bool" where
  "f_lists h bs X \<longleftrightarrow> map_ok bs \<and>
     (\<forall>fr. case map_of bs fr of
             None \<Rightarrow> X fr = []
           | Some b \<Rightarrow> is_dll h (l_ends b) (X fr) \<and> l_len b = int (length (X fr))) \<and>
     (\<forall>fr fr'. fr \<noteq> fr' \<longrightarrow> set (X fr) \<inter> set (X fr') = {})"

lemma f_listsD:
  assumes "f_lists h bs X"
  shows "map_ok bs" and "map_of bs fr = None \<Longrightarrow> X fr = []"
    and "map_of bs fr = Some b \<Longrightarrow> is_dll h (l_ends b) (X fr) \<and> l_len b = int (length (X fr))"
    and "fr \<noteq> fr' \<Longrightarrow> set (X fr) \<inter> set (X fr') = {}"
  using assms unfolding f_lists_def by (auto dest: spec [of _ fr])

lemma f_listsI:
  assumes "map_ok bs" and "\<And>fr. map_of bs fr = None \<Longrightarrow> X fr = []"
    and "\<And>fr b. map_of bs fr = Some b \<Longrightarrow> is_dll h (l_ends b) (X fr) \<and> l_len b = int (length (X fr))"
    and "\<And>fr fr'. fr \<noteq> fr' \<Longrightarrow> set (X fr) \<inter> set (X fr') = {}"
  shows "f_lists h bs X"
  using assms unfolding f_lists_def by (auto split: option.split)

lemma f_lists_heap:
  assumes "f_lists h bs X" and "\<And>fr a. a \<in> set (X fr) \<Longrightarrow> n_prev (h' a) = n_prev (h a) \<and> n_next (h' a) = n_next (h a)"
  shows "f_lists h' bs X"
proof (rule f_listsI)
  fix fr b assume "map_of bs fr = Some b"
  with f_listsD(3) [OF assms(1)] is_dll_frame [of "X fr" h' h "l_ends b"] assms(2)
  show "is_dll h' (l_ends b) (X fr) \<and> l_len b = int (length (X fr))" by blast
qed (use f_listsD [OF assms(1)] in auto)

lemma more_fields:
  "links.more n = links.more n' \<Longrightarrow>
   f_key n = f_key n' \<and> f_value n = f_value n' \<and> f_freq n = f_freq n' \<and> f_expiration n = f_expiration n'"
  by (cases n; cases n') simp

lemma f_lists_remove:
  assumes "f_lists h bs X" and "a \<in> set (X fr)" and "map_of bs fr = Some b" and "lfu_remove a (h, b) = (h', b')"
  shows "f_lists h' (mput fr b' bs) (X(fr := remove1 a (X fr)))"
    and "links.more (h' x) = links.more (h x)" and "l_len b' = int (length (remove1 a (X fr)))"
proof -
  note D = f_listsD [OF assms(1)]
  have dl: "is_dll h (l_ends b) (X fr)" "l_len b = int (length (X fr))" using D(3) [OF assms(3)] by blast+
  obtain d' where r: "removeNode a (h, l_ends b) = (h', d')" and b': "b' = \<lparr>l_ends = d', l_len = l_len b - 1\<rparr>"
    using assms(4) by (auto simp: lfu_remove_def split: prod.splits)
  show "links.more (h' x) = links.more (h x)" by (rule removeNode_more [OF r])
  show len: "l_len b' = int (length (remove1 a (X fr)))"
  proof -
    have "Suc (length (remove1 a (X fr))) = length (X fr)"
      using assms(2) length_pos_if_in_set [OF assms(2)] by (simp add: length_remove1)
    with dl(2) show ?thesis by (simp add: b')
  qed
  show "f_lists h' (mput fr b' bs) (X(fr := remove1 a (X fr)))"
  proof (rule f_listsI)
    fix g c assume m: "map_of (mput fr b' bs) g = Some c"
    show "is_dll h' (l_ends c) ((X(fr := remove1 a (X fr))) g) \<and> l_len c = int (length ((X(fr := remove1 a (X fr))) g))"
    proof (cases "g = fr")
      case True
      with m removeNode_dll [OF dl(1) assms(2) r] len show ?thesis by (auto simp: go_map b')
    next
      case False
      have "h' x = h x" if "x \<in> set (X g)" for x
        using removeNode_frame [OF dl(1) assms(2) r] D(4) [of g fr] False that by blast
      then have "is_dll h' (l_ends c) (X g) = is_dll h (l_ends c) (X g)" by (intro is_dll_frame) simp
      with m False D(3) [of g c] show ?thesis by (simp add: go_map)
    qed
  next
    fix g g' :: int assume "g \<noteq> g'"
    with D(4) [of g g'] show "set ((X(fr := remove1 a (X fr))) g) \<inter> set ((X(fr := remove1 a (X fr))) g') = {}"
      using set_remove1_subset [of a "X fr"] by auto
  qed (use D in \<open>auto simp: go_map split: if_splits\<close>)
qed

lemma f_lists_push:
  assumes "f_lists h bs X" and "\<And>g. a \<notin> set (X g)"
    and "b = (case map_of bs fr of None \<Rightarrow> lfu_empty | Some b \<Rightarrow> b)" and "lfu_pushFront a (h, b) = (h', b')"
  shows "f_lists h' (mput fr b' bs) (X(fr := a # X fr))" and "links.more (h' x) = links.more (h x)"
proof -
  note D = f_listsD [OF assms(1)]
  have dl: "is_dll h (l_ends b) (X fr)" "l_len b = int (length (X fr))"
    using D(2,3) [of fr] assms(3) by (auto simp: lfu_empty_def split: option.splits)
  obtain d' where r: "addToFront a (h, l_ends b) = (h', d')" and b': "b' = \<lparr>l_ends = d', l_len = l_len b + 1\<rparr>"
    using assms(4) by (auto simp: lfu_pushFront_def split: prod.splits)
  show "links.more (h' x) = links.more (h x)" by (rule addToFront_more [OF r])
  show "f_lists h' (mput fr b' bs) (X(fr := a # X fr))"
  proof (rule f_listsI)
    fix g c assume m: "map_of (mput fr b' bs) g = Some c"
    show "is_dll h' (l_ends c) ((X(fr := a # X fr)) g) \<and> l_len c = int (length ((X(fr := a # X fr)) g))"
    proof (cases "g = fr")
      case True
      with m addToFront_dll [OF dl(1) assms(2) r] dl(2) show ?thesis by (auto simp: go_map b')
    next
      case False
      have "h' x = h x" if "x \<in> set (X g)" for x
      proof (rule addToFront_frame [OF dl(1) r])
        show "x \<notin> set (X fr)" using D(4) [of g fr] False that by blast
        show "x \<noteq> a" using assms(2) [of g] that by blast
      qed
      then have "is_dll h' (l_ends c) (X g) = is_dll h (l_ends c) (X g)" by (intro is_dll_frame) simp
      with m False D(3) [of g c] show ?thesis by (simp add: go_map)
    qed
  next
    fix g g' :: int assume "g \<noteq> g'"
    with D(4) [of g g'] assms(2) show "set ((X(fr := a # X fr)) g) \<inter> set ((X(fr := a # X fr)) g') = {}" by auto
  qed (use D in \<open>auto simp: go_map split: if_splits\<close>)
qed

section \<open>Invariant\<close>

text \<open>
  Every node is in the bucket of its frequency, frequencies are at least one and at least \<open>minFreq\<close>,
  and the map of keys holds exactly the nodes of the buckets.
\<close>

definition f_nodes :: "'v lfuBackend \<Rightarrow> (int \<Rightarrow> nat list) \<Rightarrow> bool" where
  "f_nodes c X \<longleftrightarrow> f_lists (f_heap c) (f_freqBuckets c) X \<and> map_ok (f_items c) \<and> 0 < f_capacity c \<and>
     (\<forall>fr a. a \<in> set (X fr) \<longrightarrow> f_freq (f_heap c a) = fr \<and> a < f_fresh c \<and> 1 \<le> fr \<and> f_minFreq c \<le> fr) \<and>
     (\<forall>k a. map_of (f_items c) k = Some a \<longleftrightarrow> f_key (f_heap c a) = k \<and> a \<in> set (X (f_freq (f_heap c a))))"

definition f_full_ok :: "'v lfuBackend \<Rightarrow> (int \<Rightarrow> nat list) \<Rightarrow> bool" where
  "f_full_ok c X \<longleftrightarrow> int (length (f_items c)) \<le> f_capacity c \<and>
     (int (length (f_items c)) = f_capacity c \<longrightarrow> X (f_minFreq c) \<noteq> [])"

definition f_inv :: "'v lfuBackend \<Rightarrow> bool" where
  "f_inv c \<longleftrightarrow> (\<exists>X. f_nodes c X \<and> f_full_ok c X)"

lemma f_nodesD:
  assumes "f_nodes c X"
  shows "f_lists (f_heap c) (f_freqBuckets c) X" and "map_ok (f_items c)" and "0 < f_capacity c"
    and "a \<in> set (X fr) \<Longrightarrow> f_freq (f_heap c a) = fr \<and> a < f_fresh c \<and> 1 \<le> fr \<and> f_minFreq c \<le> fr"
    and "map_of (f_items c) k = Some a \<longleftrightarrow> f_key (f_heap c a) = k \<and> a \<in> set (X (f_freq (f_heap c a)))"
  using assms unfolding f_nodes_def by blast+

lemma f_nodesI:
  assumes "f_lists (f_heap c) (f_freqBuckets c) X" and "map_ok (f_items c)" and "0 < f_capacity c"
    and "\<And>fr a. a \<in> set (X fr) \<Longrightarrow> f_freq (f_heap c a) = fr \<and> a < f_fresh c \<and> 1 \<le> fr \<and> f_minFreq c \<le> fr"
    and "\<And>k a. map_of (f_items c) k = Some a \<longleftrightarrow> f_key (f_heap c a) = k \<and> a \<in> set (X (f_freq (f_heap c a)))"
  shows "f_nodes c X"
  using assms unfolding f_nodes_def by blast

text \<open>Unlinking a node: the code of \<open>removeNode\<close>, common to use, expiry and deletion.\<close>

lemma f_removeNode_eq:
  assumes "f_nodes c X" and "a \<in> set (X fr)"
  obtains h b1 where "f_removeNode a c = c\<lparr>f_heap := h, f_freqBuckets := mput fr b1 (f_freqBuckets c),
        f_minFreq := (if fr = f_minFreq c \<and> remove1 a (X fr) = [] then f_minFreq c + 1 else f_minFreq c)\<rparr>"
    and "f_lists h (mput fr b1 (f_freqBuckets c)) (X(fr := remove1 a (X fr)))"
    and "\<forall>x. links.more (h x) = links.more (f_heap c x)"
proof -
  note D = f_nodesD [OF assms(1)]
  have fr: "f_freq (f_heap c a) = fr" using D(4) [OF assms(2)] by blast
  obtain b where b: "map_of (f_freqBuckets c) fr = Some b"
    using f_listsD(2) [OF D(1), of fr] assms(2) by fastforce
  obtain h b1 where r: "lfu_remove a (f_heap c, b) = (h, b1)" by fastforce
  note L = f_lists_remove [OF D(1) assms(2) b r]
  show thesis
    by (rule that [OF _ L(1) allI [OF L(2)]]) (simp add: f_removeNode_def fr b r L(3) Let_def)
qed

text \<open>After unlinking, the remaining nodes keep the invariants of their buckets.\<close>

lemma f_drop_nodes:
  fixes m c k a
  assumes "f_nodes c X" and "map_of (f_items c) k = Some a" and "fr = f_freq (f_heap c a)"
  defines "c' \<equiv> (f_removeNode a c)\<lparr>f_items := mdel k (f_items c), f_metrics := m\<rparr>"
  shows "f_nodes c' (X(fr := remove1 a (X fr)))"
    and "links.more (f_heap c' x) = links.more (f_heap c x)" and "f_capacity c' = f_capacity c"
proof -
  note D = f_nodesD [OF assms(1)]
  have a: "a \<in> set (X fr)" "f_key (f_heap c a) = k" using assms(2,3) D(5) [of k a] by blast+
  from f_removeNode_eq [OF assms(1) a(1)] obtain b1 h where
    r: "f_removeNode a c = c\<lparr>f_heap := h, f_freqBuckets := mput fr b1 (f_freqBuckets c),
        f_minFreq := (if fr = f_minFreq c \<and> remove1 a (X fr) = [] then f_minFreq c + 1 else f_minFreq c)\<rparr>"
    and L: "f_lists h (mput fr b1 (f_freqBuckets c)) (X(fr := remove1 a (X fr)))"
    and M: "\<forall>x. links.more (h x) = links.more (f_heap c x)" .
  have F: "f_key (h x) = f_key (f_heap c x)" "f_freq (h x) = f_freq (f_heap c x)" for x
    using more_fields [OF M [rule_format]] by blast+
  have dx: "distinct (X fr)" using f_listsD(2,3) [OF D(1), of fr] by (cases "map_of (f_freqBuckets c) fr") (auto simp: is_dll_def)
  show "links.more (f_heap c' x) = links.more (f_heap c x)" "f_capacity c' = f_capacity c"
    by (simp_all add: c'_def r M)
  show "f_nodes c' (X(fr := remove1 a (X fr)))"
  proof (rule f_nodesI)
    fix g x assume x: "x \<in> set ((X(fr := remove1 a (X fr))) g)"
    then have xg: "x \<in> set (X g)" using set_remove1_subset [of a "X fr"] by (auto split: if_splits)
    have "f_minFreq c' \<le> g"
    proof (cases "fr = f_minFreq c \<and> remove1 a (X fr) = []")
      case True
      then have "g \<noteq> fr" using x by auto
      with D(4) [OF xg] True show ?thesis by (simp add: c'_def r)
    next
      case False
      with D(4) [OF xg] show ?thesis by (auto simp: c'_def r)
    qed
    with D(4) [OF xg] show "f_freq (f_heap c' x) = g \<and> x < f_fresh c' \<and> 1 \<le> g \<and> f_minFreq c' \<le> g"
      by (simp add: c'_def r F)
  next
    fix j x
    have "x \<in> set ((X(fr := remove1 a (X fr))) (f_freq (f_heap c x))) \<longleftrightarrow> x \<in> set (X (f_freq (f_heap c x))) \<and> x \<noteq> a"
      using dx assms(3) by auto
    moreover have "f_heap c' x = h x" "f_items c' = mdel k (f_items c)" by (simp_all add: c'_def r)
    moreover have "map_of (mdel k (f_items c)) j = Some x \<longleftrightarrow> map_of (f_items c) j = Some x \<and> x \<noteq> a"
      using assms(2) D(5) [of j x] a(2) by (cases "j = k") (auto simp: go_map)
    ultimately show "map_of (f_items c') j = Some x \<longleftrightarrow>
        f_key (f_heap c' x) = j \<and> x \<in> set ((X(fr := remove1 a (X fr))) (f_freq (f_heap c' x)))"
      using D(5) [of j x] by (simp only: F) blast
  qed (use D(2,3) L in \<open>simp_all add: c'_def r\<close>)
qed

text \<open>Pushing a node onto the bucket of a frequency.\<close>

lemma f_push_eq:
  assumes "f_lists (f_heap c) (f_freqBuckets c) X" and "\<And>g. a \<notin> set (X g)"
  obtains h b1 where "f_push fr a c = c\<lparr>f_heap := h, f_freqBuckets := mput fr b1 (f_freqBuckets c)\<rparr>"
    and "f_lists h (mput fr b1 (f_freqBuckets c)) (X(fr := a # X fr))"
    and "\<forall>x. links.more (h x) = links.more (f_heap c x)"
proof -
  let ?b = "case map_of (f_freqBuckets c) fr of None \<Rightarrow> lfu_empty | Some b \<Rightarrow> b"
  obtain h b1 where r: "lfu_pushFront a (f_heap c, ?b) = (h, b1)" by fastforce
  note L = f_lists_push [OF assms refl r]
  have e: "f_push fr a c = c\<lparr>f_heap := h, f_freqBuckets := mput fr b1 (f_freqBuckets c)\<rparr>"
    using r by (cases "map_of (f_freqBuckets c) fr") (simp_all add: f_push_def f_getBucket_def)
  show thesis by (rule that [OF e L(1) allI [OF L(2)]])
qed

definition f_used :: "(int \<Rightarrow> nat list) \<Rightarrow> int \<Rightarrow> nat \<Rightarrow> int \<Rightarrow> nat list" where
  "f_used X fr a = X(fr := remove1 a (X fr), fr + 1 := a # X (fr + 1))"

lemma f_used_mem:
  assumes "distinct (X fr)" and "\<And>g. a \<in> set (X g) \<Longrightarrow> g = fr"
  shows "x \<in> set (f_used X fr a g) \<longleftrightarrow> (if x = a then g = fr + 1 else x \<in> set (X g))"
  using assms by (auto simp: f_used_def)

lemma f_use_nodes:
  assumes "f_nodes c X" and "map_of (f_items c) k = Some a" and "fr = f_freq (f_heap c a)"
  defines "c' \<equiv> f_incrementFreq a c"
  shows "f_nodes c' (f_used X fr a)"
    and "f_items c' = f_items c" and "f_capacity c' = f_capacity c" and "f_metrics c' = f_metrics c"
    and "f_key (f_heap c' x) = f_key (f_heap c x)" and "f_value (f_heap c' x) = f_value (f_heap c x)"
    and "f_expiration (f_heap c' x) = f_expiration (f_heap c x)"
    and "f_freq (f_heap c' x) = (if x = a then fr + 1 else f_freq (f_heap c x))"
    and "f_full_ok c X \<Longrightarrow> f_full_ok c' (f_used X fr a)"
proof -
  note D = f_nodesD [OF assms(1)]
  have a: "a \<in> set (X fr)" using assms(2,3) D(5) [of k a] by blast
  let ?X = "X(fr := remove1 a (X fr))"
  let ?mf = "if fr = f_minFreq c \<and> remove1 a (X fr) = [] then f_minFreq c + 1 else f_minFreq c"
  from f_removeNode_eq [OF assms(1) a] obtain b1 h where
    r: "f_removeNode a c = c\<lparr>f_heap := h, f_freqBuckets := mput fr b1 (f_freqBuckets c), f_minFreq := ?mf\<rparr>"
    and L: "f_lists h (mput fr b1 (f_freqBuckets c)) ?X"
    and M: "\<forall>x. links.more (h x) = links.more (f_heap c x)" .
  note F = more_fields [OF M [rule_format]]
  have own: "g = fr" if "a \<in> set (X g)" for g using D(4) [OF that] assms(3) by simp
  have dx: "distinct (X fr)" using f_listsD(2,3) [OF D(1), of fr] by (cases "map_of (f_freqBuckets c) fr") (auto simp: is_dll_def)
  have out: "a \<notin> set (?X g)" for g using own [of g] dx by auto
  let ?h2 = "h(a := (h a)\<lparr>f_freq := fr + 1\<rparr>)"
  define c2 where "c2 = (f_removeNode a c)\<lparr>f_heap := ?h2\<rparr>"
  have S: "f_heap c2 = ?h2" "f_freqBuckets c2 = mput fr b1 (f_freqBuckets c)" "f_minFreq c2 = ?mf"
    "f_items c2 = f_items c" "f_capacity c2 = f_capacity c" "f_metrics c2 = f_metrics c" "f_fresh c2 = f_fresh c"
    by (simp_all add: c2_def r)
  have "f_lists ?h2 (mput fr b1 (f_freqBuckets c)) ?X" by (rule f_lists_heap [OF L]) simp
  then have L2: "f_lists (f_heap c2) (f_freqBuckets c2) ?X" by (simp add: S)
  from f_push_eq [OF L2 out, of "fr + 1"] obtain b3 h3 where
    p: "f_push (fr + 1) a c2 = c2\<lparr>f_heap := h3, f_freqBuckets := mput (fr + 1) b3 (f_freqBuckets c2)\<rparr>"
    and L3: "f_lists h3 (mput (fr + 1) b3 (f_freqBuckets c2)) (?X(fr + 1 := a # ?X (fr + 1)))"
    and M3: "\<forall>x. links.more (h3 x) = links.more (f_heap c2 x)" .
  have "f_freq (h a) = fr" using F [of a] assms(3) by simp
  moreover have "f_heap (f_removeNode a c) = h" by (simp add: r)
  ultimately have c': "c' = c2\<lparr>f_heap := h3, f_freqBuckets := mput (fr + 1) b3 (f_freqBuckets c2)\<rparr>"
    unfolding c'_def f_incrementFreq_def Let_def using p by (simp add: c2_def)
  show s1: "f_items c' = f_items c" "f_capacity c' = f_capacity c" "f_metrics c' = f_metrics c" by (simp_all add: c' S)
  show s2: "f_key (f_heap c' x) = f_key (f_heap c x)" "f_value (f_heap c' x) = f_value (f_heap c x)"
    "f_expiration (f_heap c' x) = f_expiration (f_heap c x)"
    "f_freq (f_heap c' x) = (if x = a then fr + 1 else f_freq (f_heap c x))" for x
    using F [of x] more_fields [OF M3 [rule_format], of x] by (auto simp: c' S)
  have U: "x \<in> set (f_used X fr a g) \<longleftrightarrow> (if x = a then g = fr + 1 else x \<in> set (X g))" for x g
    using f_used_mem [of X fr a x g] dx own by blast
  show "f_nodes c' (f_used X fr a)"
  proof (rule f_nodesI)
    show "f_lists (f_heap c') (f_freqBuckets c') (f_used X fr a)" using L3 by (simp add: c' f_used_def)
    show "map_ok (f_items c')" "0 < f_capacity c'" using D(2,3) by (simp_all add: s1)
  next
    fix g x assume x: "x \<in> set (f_used X fr a g)"
    have "f_minFreq c' = ?mf" "f_fresh c' = f_fresh c" by (simp_all add: c' S)
    moreover have "?mf \<le> g"
    proof (cases "x = a")
      case True
      with x U D(4) [OF a] show ?thesis by auto
    next
      case False
      with x U have xg: "x \<in> set (X g)" by simp
      show ?thesis
      proof (cases "g = fr")
        case True
        with xg False have "remove1 a (X fr) \<noteq> []" by (metis in_set_remove1 list.set(1) empty_iff)
        with D(4) [OF xg] show ?thesis by auto
      qed (use D(4) [OF xg] in auto)
    qed
    ultimately show "f_freq (f_heap c' x) = g \<and> x < f_fresh c' \<and> 1 \<le> g \<and> f_minFreq c' \<le> g"
      using x U D(4) [OF a] D(4) [of x g] by (auto simp: s2 split: if_splits)
  next
    fix j x
    show "map_of (f_items c') j = Some x \<longleftrightarrow> f_key (f_heap c' x) = j \<and> x \<in> set (f_used X fr a (f_freq (f_heap c' x)))"
    proof -
      have "x \<in> set (f_used X fr a (f_freq (f_heap c' x))) \<longleftrightarrow> x \<in> set (X (f_freq (f_heap c x)))"
        unfolding U s2 using a assms(3) by auto
      with D(5) [of j x] show ?thesis by (simp only: s1 s2)
    qed
  qed
  show "f_full_ok c' (f_used X fr a)" if "f_full_ok c X"
  proof -
    have u: "f_used X fr a ?mf \<noteq> []" if "X (f_minFreq c) \<noteq> []"
      using that by (auto simp: f_used_def)
    have m: "f_minFreq c' = ?mf" by (simp add: c' S)
    show ?thesis using that u unfolding f_full_ok_def s1 m by blast
  qed
qed

lemma f_nodes_metrics [simp]: "f_nodes (c\<lparr>f_metrics := m\<rparr>) X = f_nodes c X"
  by (simp add: f_nodes_def)

lemma f_full_metrics [simp]: "f_full_ok (c\<lparr>f_metrics := m\<rparr>) X = f_full_ok c X"
  by (simp add: f_full_ok_def)

lemma f_removeNode_sel [simp]:
  "f_items (f_removeNode a c) = f_items c" "f_metrics (f_removeNode a c) = f_metrics c"
  by (simp_all add: f_removeNode_def Let_def split: option.split prod.split)

text \<open>The victim of an eviction is the oldest node of the bucket of \<open>minFreq\<close>.\<close>

lemma f_evict_nodes:
  assumes "f_nodes c X" and "X (f_minFreq c) \<noteq> []"
  defines "v \<equiv> last (X (f_minFreq c))"
  shows "f_nodes (f_evictMinFreq c) (X(f_minFreq c := remove1 v (X (f_minFreq c))))"
    and "f_items (f_evictMinFreq c) = mdel (f_key (f_heap c v)) (f_items c)"
    and "map_of (f_items c) (f_key (f_heap c v)) = Some v"
    and "links.more (f_heap (f_evictMinFreq c) x) = links.more (f_heap c x)"
    and "f_capacity (f_evictMinFreq c) = f_capacity c" and "f_freq (f_heap c v) = f_minFreq c"
proof -
  let ?mf = "f_minFreq c"
  let ?X = "X(?mf := remove1 v (X ?mf))"
  note D = f_nodesD [OF assms(1)]
  have v: "v \<in> set (X ?mf)" using assms(2) by (simp add: v_def)
  obtain b where b: "map_of (f_freqBuckets c) ?mf = Some b"
    using f_listsD(2) [OF D(1), of ?mf] assms(2) by fastforce
  have dl: "is_dll (f_heap c) (l_ends b) (X ?mf)" "l_len b = int (length (X ?mf))"
    using f_listsD(3) [OF D(1) b] by blast+
  have t: "d_tail (l_ends b) = Some v" using is_dll_tail [OF dl(1)] assms(2) by (simp add: v_def)
  obtain h b1 where r: "lfu_remove v (f_heap c, b) = (h, b1)" by fastforce
  note L = f_lists_remove [OF D(1) v b r]
  have F: "f_key (h x) = f_key (f_heap c x)" "f_freq (h x) = f_freq (f_heap c x)" for x
    using more_fields [OF L(2)] by blast+
  have e: "f_evictMinFreq c = c\<lparr>f_heap := h, f_freqBuckets := mput ?mf b1 (f_freqBuckets c),
      f_items := mdel (f_key (f_heap c v)) (f_items c), f_metrics := inc_evictions (f_metrics c)\<rparr>"
    using dl(2) assms(2) by (simp add: f_evictMinFreq_def b lfu_popTail_def t r F Let_def)
  show fv: "f_freq (f_heap c v) = ?mf" using D(4) [OF v] by blast
  show it: "map_of (f_items c) (f_key (f_heap c v)) = Some v" using D(5) v fv by simp
  show "f_items (f_evictMinFreq c) = mdel (f_key (f_heap c v)) (f_items c)" "f_capacity (f_evictMinFreq c) = f_capacity c"
    by (simp_all add: e)
  show "links.more (f_heap (f_evictMinFreq c) x) = links.more (f_heap c x)" by (simp add: e L(2))
  have dx: "distinct (X ?mf)" using dl(1) by (simp add: is_dll_def)
  have sub: "x \<in> set (?X g) \<longleftrightarrow> x \<in> set (X g) \<and> x \<noteq> v" for x g
    using dx D(4) [of v g] fv by (auto split: if_splits)
  show "f_nodes (f_evictMinFreq c) ?X"
  proof (rule f_nodesI)
    fix g x assume "x \<in> set (?X g)"
    then have "x \<in> set (X g)" using sub by blast
    from D(4) [OF this] show "f_freq (f_heap (f_evictMinFreq c) x) = g \<and> x < f_fresh (f_evictMinFreq c) \<and>
        1 \<le> g \<and> f_minFreq (f_evictMinFreq c) \<le> g" by (simp add: e F)
  next
    fix j x
    have "map_of (mdel (f_key (f_heap c v)) (f_items c)) j = Some x \<longleftrightarrow> map_of (f_items c) j = Some x \<and> x \<noteq> v"
      using it D(5) [of j x] by (cases "j = f_key (f_heap c v)") (auto simp: go_map)
    moreover have "f_heap (f_evictMinFreq c) x = h x" by (simp add: e)
    moreover have "f_items (f_evictMinFreq c) = mdel (f_key (f_heap c v)) (f_items c)" by (simp add: e)
    ultimately show "map_of (f_items (f_evictMinFreq c)) j = Some x \<longleftrightarrow>
        f_key (f_heap (f_evictMinFreq c) x) = j \<and> x \<in> set (?X (f_freq (f_heap (f_evictMinFreq c) x)))"
      using D(5) [of j x] sub [of x "f_freq (f_heap c x)"] by (simp only: F) blast
  qed (use D(2,3) L(1) in \<open>simp_all add: e\<close>)
qed

text \<open>Inserting a new key with frequency one.\<close>

definition f_insert :: "string \<Rightarrow> 'v \<Rightarrow> int \<Rightarrow> 'v lfuBackend \<Rightarrow> 'v lfuBackend" where
  "f_insert key value ex c1 =
     (let a = f_fresh c1;
          c2 = c1\<lparr>f_items := mput key a (f_items c1),
                  f_heap := (f_heap c1)(a := \<lparr>n_prev = None, n_next = None, f_key = key, f_value = value,
                                               f_freq = 1, f_expiration = ex\<rparr>),
                  f_fresh := Suc a\<rparr>
      in (f_push 1 a c2)\<lparr>f_minFreq := 1\<rparr>)"

lemma f_insert_nodes:
  fixes v e k c
  assumes "f_nodes c X" and "map_of (f_items c) k = None"
  defines "c' \<equiv> f_insert k v e c" and "a \<equiv> f_fresh c"
  shows "f_nodes c' (X(1 := a # X 1))" and "f_items c' = mput k a (f_items c)" and "f_capacity c' = f_capacity c"
    and "f_minFreq c' = 1"
    and "f_value (f_heap c' a) = v \<and> f_expiration (f_heap c' a) = e \<and> f_freq (f_heap c' a) = 1"
    and "x \<noteq> a \<Longrightarrow> links.more (f_heap c' x) = links.more (f_heap c x)"
    and "x \<in> set (X g) \<Longrightarrow> x \<noteq> a"
proof -
  note D = f_nodesD [OF assms(1)]
  have out: "a \<notin> set (X g)" for g using D(4) [of a g] by (auto simp: a_def)
  then show "x \<in> set (X g) \<Longrightarrow> x \<noteq> a" by auto
  let ?h = "(f_heap c)(a := \<lparr>n_prev = None, n_next = None, f_key = k, f_value = v, f_freq = 1, f_expiration = e\<rparr>)"
  define c2 where "c2 = c\<lparr>f_items := mput k a (f_items c), f_heap := ?h, f_fresh := Suc a\<rparr>"
  have S: "f_heap c2 = ?h" "f_freqBuckets c2 = f_freqBuckets c" "f_items c2 = mput k a (f_items c)"
    "f_capacity c2 = f_capacity c" "f_fresh c2 = Suc a" by (simp_all add: c2_def)
  have "f_lists ?h (f_freqBuckets c) X" by (rule f_lists_heap [OF D(1)]) (use out in auto)
  then have L2: "f_lists (f_heap c2) (f_freqBuckets c2) X" by (simp add: S)
  from f_push_eq [OF L2 out, of 1] obtain b3 h3 where
    p: "f_push 1 a c2 = c2\<lparr>f_heap := h3, f_freqBuckets := mput 1 b3 (f_freqBuckets c2)\<rparr>"
    and L3: "f_lists h3 (mput 1 b3 (f_freqBuckets c2)) (X(1 := a # X 1))"
    and M3: "\<forall>x. links.more (h3 x) = links.more (f_heap c2 x)" .
  have c': "c' = c2\<lparr>f_heap := h3, f_freqBuckets := mput 1 b3 (f_freqBuckets c2), f_minFreq := 1\<rparr>"
    unfolding c'_def f_insert_def Let_def a_def [symmetric] using p by (simp add: c2_def)
  note F3 = more_fields [OF M3 [rule_format]]
  have fx: "f_key (h3 x) = f_key (f_heap c x)" "f_freq (h3 x) = f_freq (f_heap c x)" if "x \<noteq> a" for x
    using F3 [of x] that by (simp_all add: S)
  have fa: "f_key (h3 a) = k" "f_value (h3 a) = v" "f_freq (h3 a) = 1" "f_expiration (h3 a) = e"
    using F3 [of a] by (simp_all add: S)
  show s1: "f_items c' = mput k a (f_items c)" "f_capacity c' = f_capacity c" "f_minFreq c' = 1" by (simp_all add: c' S)
  show "f_value (f_heap c' a) = v \<and> f_expiration (f_heap c' a) = e \<and> f_freq (f_heap c' a) = 1"
    using fa by (simp add: c')
  show "links.more (f_heap c' x) = links.more (f_heap c x)" if "x \<noteq> a"
    using M3 that by (simp add: c' S)
  have hp: "f_heap c' = h3" "f_fresh c' = Suc a" by (simp_all add: c' S)
  show "f_nodes c' (X(1 := a # X 1))"
  proof (rule f_nodesI)
    show "f_lists (f_heap c') (f_freqBuckets c') (X(1 := a # X 1))" using L3 by (simp add: c' S)
    show "map_ok (f_items c')" "0 < f_capacity c'" using D(2,3) by (simp_all add: s1)
  next
    fix g x assume x: "x \<in> set ((X(1 := a # X 1)) g)"
    show "f_freq (f_heap c' x) = g \<and> x < f_fresh c' \<and> 1 \<le> g \<and> f_minFreq c' \<le> g"
    proof (cases "x = a")
      case True
      with x out [of g] fa show ?thesis by (auto simp: hp s1 split: if_splits)
    next
      case False
      with x have "x \<in> set (X g)" by (auto split: if_splits)
      from D(4) [OF this] fx [OF False] show ?thesis by (auto simp: hp s1 a_def)
    qed
  next
    fix j x
    show "map_of (f_items c') j = Some x \<longleftrightarrow> f_key (f_heap c' x) = j \<and> x \<in> set ((X(1 := a # X 1)) (f_freq (f_heap c' x)))"
    proof (cases "x = a")
      case True
      with fa D(5) [of j a] out show ?thesis by (auto simp: hp s1 go_map)
    next
      case False
      with fx [OF False] D(5) [of j x] assms(2) show ?thesis by (auto simp: hp s1 go_map)
    qed
  qed
qed

section \<open>The LFU back end is a cache\<close>

definition f_lookup :: "'v lfuBackend \<Rightarrow> string \<Rightarrow> ('v \<times> int) option" where
  "f_lookup c k = map_option (\<lambda>a. (f_value (f_heap c a), f_expiration (f_heap c a))) (map_of (f_items c) k)"

text \<open>The frequency recorded for a key: one for its insertion, one for every later use.\<close>

definition f_freq_of :: "'v lfuBackend \<Rightarrow> string \<Rightarrow> int option" where
  "f_freq_of c k = map_option (\<lambda>a. f_freq (f_heap c a)) (map_of (f_items c) k)"

lemma f_invE:
  assumes "f_inv c"
  obtains X where "f_nodes c X" and "f_full_ok c X"
  using assms unfolding f_inv_def by blast

lemma lfu_Set_new:
  "map_of (f_items c) k = None \<Longrightarrow> lfu_Set now k v ttl c =
     f_insert k v (exp_of now ttl) (if int (length (f_items c)) \<ge> f_capacity c then f_evictMinFreq c else c)"
  by (simp add: lfu_Set_def f_insert_def Let_def)

lemma f_drop_inv:
  fixes m k a c
  assumes "f_nodes c X" and "f_full_ok c X" and "map_of (f_items c) k = Some a"
  defines "c' \<equiv> (f_removeNode a c)\<lparr>f_items := mdel k (f_items c), f_metrics := m\<rparr>"
  shows "f_inv c' \<and> f_capacity c' = f_capacity c \<and> f_lookup c' k' = (if k' = k then None else f_lookup c k')"
proof -
  note N = f_drop_nodes [OF assms(1,3) refl, of m, folded c'_def]
  have i: "f_items c' = mdel k (f_items c)" by (simp add: c'_def)
  have "length (mdel k (f_items c)) < length (f_items c)"
    using f_nodesD(2) [OF assms(1)] assms(3) by (intro length_mdel_less) (auto simp: mem_keys_of)
  then have "f_full_ok c' Y" for Y using assms(2) N(3) by (simp add: f_full_ok_def i)
  moreover have "f_value (f_heap c' x) = f_value (f_heap c x)" "f_expiration (f_heap c' x) = f_expiration (f_heap c x)" for x
    using more_fields [OF N(2), of x] by simp_all
  ultimately show ?thesis using N(1,3) unfolding f_inv_def by (auto simp: f_lookup_def i go_map)
qed

lemma f_use_inv:
  assumes "f_nodes c X" and "f_full_ok c X" and "map_of (f_items c) k = Some a"
  defines "c' \<equiv> f_incrementFreq a c"
  shows "f_inv c'" and "f_capacity c' = f_capacity c" and "f_lookup c' = f_lookup c"
    and "f_freq_of c' k' = (if k' = k then map_option (\<lambda>n. n + 1) (f_freq_of c k) else f_freq_of c k')"
    and "f_value (f_heap c' a) = f_value (f_heap c a)"
proof -
  note U = f_use_nodes [OF assms(1,3) refl, folded c'_def]
  show "f_inv c'" using U(1) U(9) [OF assms(2)] unfolding f_inv_def by blast
  show "f_capacity c' = f_capacity c" by (rule U(3))
  show "f_lookup c' = f_lookup c" by (simp add: f_lookup_def U(2,6,7) fun_eq_iff)
  have "map_of (f_items c) k' = Some a \<longleftrightarrow> k' = k"
    using assms(3) f_nodesD(5) [OF assms(1), of k' a] f_nodesD(5) [OF assms(1), of k a] by auto
  then show "f_freq_of c' k' = (if k' = k then map_option (\<lambda>n. n + 1) (f_freq_of c k) else f_freq_of c k')"
    using assms(3) by (auto simp: f_freq_of_def U(2,8) map_option_case split: option.splits)
  show "f_value (f_heap c' a) = f_value (f_heap c a)" by (rule U(6))
qed

lemma f_insert_inv:
  assumes "f_nodes c X" and "map_of (f_items c) k = None" and "int (length (f_items c)) < f_capacity c"
  shows "f_inv (f_insert k v e c)" and "f_capacity (f_insert k v e c) = f_capacity c"
    and "f_lookup (f_insert k v e c) k' = (if k' = k then Some (v, e) else f_lookup c k')"
    and "f_freq_of (f_insert k v e c) k' = (if k' = k then Some 1 else f_freq_of c k')"
proof -
  let ?c = "f_insert k v e c" and ?a = "f_fresh c"
  note I = f_insert_nodes(1-6) [OF assms(1,2), where v = v and e = e] and I7 = f_insert_nodes(7) [OF assms(1,2)]
  note D = f_nodesD [OF assms(1)]
  have "f_full_ok ?c (X(1 := ?a # X 1))"
    using assms(2,3) D(2) by (simp add: f_full_ok_def I(2,3,4) length_mput keys_of_def domIff)
  with I(1) show "f_inv ?c" unfolding f_inv_def by blast
  show "f_capacity ?c = f_capacity c" by (rule I(3))
  have same: "f_value (f_heap ?c x) = f_value (f_heap c x)" "f_expiration (f_heap ?c x) = f_expiration (f_heap c x)"
    "f_freq (f_heap ?c x) = f_freq (f_heap c x)" if "map_of (f_items c) j = Some x" for x j
  proof -
    have "x \<noteq> ?a" using that D(5) [of j x] I7 by blast
    from more_fields [OF I(6) [OF this]] show "f_value (f_heap ?c x) = f_value (f_heap c x)"
      "f_expiration (f_heap ?c x) = f_expiration (f_heap c x)" "f_freq (f_heap ?c x) = f_freq (f_heap c x)" by simp_all
  qed
  show "f_lookup ?c k' = (if k' = k then Some (v, e) else f_lookup c k')"
    using I(5) same by (cases "map_of (f_items c) k'") (auto simp: f_lookup_def I(2) go_map)
  show "f_freq_of ?c k' = (if k' = k then Some 1 else f_freq_of c k')"
    using I(5) same by (cases "map_of (f_items c) k'") (auto simp: f_freq_of_def I(2) go_map)
qed

text \<open>The eviction before an insertion makes room, at the expense of a key with minimal frequency.\<close>

lemma f_make_room:
  assumes "f_nodes c X" and "f_full_ok c X" and "map_of (f_items c) k = None"
  defines "c1 \<equiv> (if int (length (f_items c)) \<ge> f_capacity c then f_evictMinFreq c else c)"
  obtains Y where "f_nodes c1 Y" and "map_of (f_items c1) k = None" and "int (length (f_items c1)) < f_capacity c1"
    and "f_capacity c1 = f_capacity c"
    and "c1 = c \<and> lfu_Len c < f_capacity c \<or>
         (\<exists>j fj. f_freq_of c j = Some fj \<and> (\<forall>k' fk. f_freq_of c k' = Some fk \<longrightarrow> fj \<le> fk) \<and> lfu_Len c = f_capacity c \<and>
            (\<forall>k'. f_lookup c1 k' = (if k' = j then None else f_lookup c k') \<and>
                  f_freq_of c1 k' = (if k' = j then None else f_freq_of c k')))"
proof (cases "int (length (f_items c)) \<ge> f_capacity c")
  case False
  then have "c1 = c" by (simp add: c1_def)
  with that [of X] False assms(1,3) show thesis by (simp add: lfu_Len_def)
next
  case True
  note D = f_nodesD [OF assms(1)]
  have ne: "X (f_minFreq c) \<noteq> []" and len: "lfu_Len c = f_capacity c"
    using assms(2) True by (auto simp: f_full_ok_def lfu_Len_def)
  define v where "v = last (X (f_minFreq c))"
  define j where "j = f_key (f_heap c v)"
  note E = f_evict_nodes [OF assms(1) ne, folded v_def]
  have c1: "c1 = f_evictMinFreq c" using True by (simp add: c1_def)
  have same: "f_value (f_heap c1 x) = f_value (f_heap c x)" "f_expiration (f_heap c1 x) = f_expiration (f_heap c x)"
    "f_freq (f_heap c1 x) = f_freq (f_heap c x)" for x
    using more_fields [OF E(4), of x] by (simp_all add: c1)
  have it: "f_items c1 = mdel j (f_items c)" using E(2) by (simp add: c1 j_def)
  have "length (mdel j (f_items c)) < length (f_items c)"
    using D(2) E(3) by (intro length_mdel_less) (auto simp: mem_keys_of j_def)
  then have room: "int (length (f_items c1)) < f_capacity c1"
    unfolding it using assms(2) E(5) by (simp add: c1 f_full_ok_def)
  have min: "f_minFreq c \<le> fk" if "f_freq_of c k' = Some fk" for k' fk
  proof -
    from that obtain x where x: "map_of (f_items c) k' = Some x" "f_freq (f_heap c x) = fk" by (auto simp: f_freq_of_def)
    with D(5) [of k' x] D(4) [of x "f_freq (f_heap c x)"] show ?thesis by auto
  qed
  show thesis
  proof (rule that)
    show "f_nodes c1 (X(f_minFreq c := remove1 v (X (f_minFreq c))))" using E(1) by (simp add: c1)
    show "map_of (f_items c1) k = None" using assms(3) by (simp add: it go_map)
    show "int (length (f_items c1)) < f_capacity c1" by (rule room)
    show "f_capacity c1 = f_capacity c" using E(5) by (simp add: c1)
    have "f_freq_of c j = Some (f_minFreq c)" using E(3,6) by (simp add: f_freq_of_def j_def)
    with min len show "c1 = c \<and> lfu_Len c < f_capacity c \<or>
         (\<exists>j fj. f_freq_of c j = Some fj \<and> (\<forall>k' fk. f_freq_of c k' = Some fk \<longrightarrow> fj \<le> fk) \<and> lfu_Len c = f_capacity c \<and>
            (\<forall>k'. f_lookup c1 k' = (if k' = j then None else f_lookup c k') \<and>
                  f_freq_of c1 k' = (if k' = j then None else f_freq_of c k')))"
      by (intro disjI2 exI [of _ j] exI [of _ "f_minFreq c"])
        (auto simp: f_lookup_def f_freq_of_def it go_map same map_option_case split: option.splits)
  qed
qed

lemma lfu_Get_laws:
  assumes "f_inv c"
  shows "f_inv (fst (lfu_Get now k c)) \<and> f_capacity (fst (lfu_Get now k c)) = f_capacity c \<and>
     snd (lfu_Get now k c) =
       (case f_lookup c k of None \<Rightarrow> None | Some (v, e) \<Rightarrow> if expired e now then None else Some v) \<and>
     (\<forall>k'. f_lookup (fst (lfu_Get now k c)) k' =
        (if k' = k \<and> (\<exists>v e. f_lookup c k = Some (v, e) \<and> expired e now) then None else f_lookup c k'))"
proof -
  obtain X where X: "f_nodes c X" "f_full_ok c X" using assms by (rule f_invE)
  have m: "f_inv (d\<lparr>f_metrics := m\<rparr>) = f_inv d" "f_lookup (d\<lparr>f_metrics := m\<rparr>) = f_lookup d" for d :: "'a lfuBackend" and m
    by (simp_all add: f_inv_def f_lookup_def fun_eq_iff)
  show ?thesis
  proof (cases "map_of (f_items c) k")
    case None
    with assms show ?thesis by (simp add: lfu_Get_def m) (simp add: f_lookup_def)
  next
    case (Some a)
    have l: "f_lookup c k = Some (f_value (f_heap c a), f_expiration (f_heap c a))" using Some by (simp add: f_lookup_def)
    show ?thesis
    proof (cases "expired (f_expiration (f_heap c a)) now")
      case True
      let ?m = "inc_misses (inc_evictions (f_metrics c))"
      have e: "lfu_Get now k c = ((f_removeNode a c)\<lparr>f_items := mdel k (f_items c), f_metrics := ?m\<rparr>, None)"
        using Some True by (simp add: lfu_Get_def Let_def)
      from f_drop_inv [OF X Some, of ?m] True l show ?thesis unfolding e by simp
    next
      case False
      note U = f_use_inv [OF X Some]
      have e: "lfu_Get now k c = ((f_incrementFreq a c)\<lparr>f_metrics := inc_hits (f_metrics (f_incrementFreq a c))\<rparr>,
          Some (f_value (f_heap c a)))"
        using Some False U(5) by (simp add: lfu_Get_def Let_def)
      from U(1-3) False l show ?thesis unfolding e by (simp add: m)
    qed
  qed
qed

lemma lfu_Delete_laws:
  assumes "f_inv c"
  shows "f_inv (lfu_Delete k c) \<and> f_capacity (lfu_Delete k c) = f_capacity c \<and>
     (\<forall>k'. f_lookup (lfu_Delete k c) k' = (if k' = k then None else f_lookup c k'))"
proof -
  obtain X where X: "f_nodes c X" "f_full_ok c X" using assms by (rule f_invE)
  show ?thesis
  proof (cases "map_of (f_items c) k")
    case None
    with assms show ?thesis by (simp add: lfu_Delete_def) (simp add: f_lookup_def)
  next
    case (Some a)
    have "lfu_Delete k c = (f_removeNode a c)\<lparr>f_items := mdel k (f_items c), f_metrics := f_metrics c\<rparr>"
      using Some by (simp add: lfu_Delete_def Let_def)
    with f_drop_inv [OF X Some, of "f_metrics c"] show ?thesis by simp
  qed
qed

text \<open>
  What a \<open>Set\<close> does: an update is a use of the key; a new key is added with frequency one, after the
  eviction of one key of minimal frequency if the cache was full.
\<close>

lemma lfu_Set_laws:
  fixes now k v ttl c
  assumes "f_inv c"
  defines "c' \<equiv> lfu_Set now k v ttl c"
  shows "f_inv c' \<and> f_capacity c' = f_capacity c \<and>
     (f_lookup c k \<noteq> None \<or> lfu_Len c < f_capacity c \<longrightarrow>
        (\<forall>k'. f_lookup c' k' = (if k' = k then Some (v, exp_of now ttl) else f_lookup c k'))) \<and>
     (f_lookup c k = None \<and> lfu_Len c \<ge> f_capacity c \<longrightarrow>
        (\<exists>j fj. f_freq_of c j = Some fj \<and> (\<forall>k' fk. f_freq_of c k' = Some fk \<longrightarrow> fj \<le> fk) \<and>
           (\<forall>k'. f_lookup c' k' =
              (if k' = k then Some (v, exp_of now ttl) else if k' = j then None else f_lookup c k'))))"
proof -
  obtain X where X: "f_nodes c X" "f_full_ok c X" using assms(1) by (rule f_invE)
  show ?thesis
  proof (cases "map_of (f_items c) k")
    case (Some a)
    let ?d = "c\<lparr>f_heap := (f_heap c)(a := (f_heap c a)\<lparr>f_value := v, f_expiration := exp_of now ttl\<rparr>)\<rparr>"
    note D = f_nodesD [OF X(1)]
    have fk: "f_key (f_heap ?d x) = f_key (f_heap c x)" "f_freq (f_heap ?d x) = f_freq (f_heap c x)" for x by simp_all
    have "f_lists (f_heap ?d) (f_freqBuckets c) X" by (rule f_lists_heap [OF D(1)]) simp
    then have nd: "f_nodes ?d X" using X(1) unfolding f_nodes_def fk by simp
    have fo: "f_full_ok ?d X" "map_of (f_items ?d) k = Some a" using X(2) Some by (simp_all add: f_full_ok_def)
    note U = f_use_inv(1-3) [OF nd fo]
    have c': "c' = f_incrementFreq a ?d" using Some by (simp add: c'_def lfu_Set_def Let_def)
    have own: "map_of (f_items c) k' = Some a \<Longrightarrow> k' = k" for k'
      using Some D(5) [of k' a] D(5) [of k a] by auto
    have lu: "f_lookup ?d k' = (if k' = k then Some (v, exp_of now ttl) else f_lookup c k')" for k'
      using Some own [of k'] by (cases "map_of (f_items c) k'") (auto simp: f_lookup_def)
    have lk: "f_lookup c k \<noteq> None" using Some by (simp add: f_lookup_def)
    have cp: "f_capacity c' = f_capacity c" using U(2) by (simp add: c')
    have "f_lookup c' = f_lookup ?d" unfolding c' by (rule U(3))
    then have "f_lookup c' k' = (if k' = k then Some (v, exp_of now ttl) else f_lookup c k')" for k' by (simp only: lu)
    moreover have "f_inv c'" unfolding c' by (rule U(1))
    ultimately show ?thesis using cp lk by (intro conjI impI allI) simp_all
  next
    case None
    let ?c1 = "if int (length (f_items c)) \<ge> f_capacity c then f_evictMinFreq c else c"
    from f_make_room [OF X None] obtain Y where Y: "f_nodes ?c1 Y" "map_of (f_items ?c1) k = None"
      "int (length (f_items ?c1)) < f_capacity ?c1" "f_capacity ?c1 = f_capacity c"
      and R: "?c1 = c \<and> lfu_Len c < f_capacity c \<or>
         (\<exists>j fj. f_freq_of c j = Some fj \<and> (\<forall>k' fk. f_freq_of c k' = Some fk \<longrightarrow> fj \<le> fk) \<and> lfu_Len c = f_capacity c \<and>
            (\<forall>k'. f_lookup ?c1 k' = (if k' = j then None else f_lookup c k') \<and>
                  f_freq_of ?c1 k' = (if k' = j then None else f_freq_of c k')))" .
    have c': "c' = f_insert k v (exp_of now ttl) ?c1" unfolding c'_def by (rule lfu_Set_new [OF None])
    note I = f_insert_inv(1-3) [OF Y(1-3), of v "exp_of now ttl", folded c']
    have lk: "f_lookup c k = None" using None by (simp add: f_lookup_def)
    from R show ?thesis
    proof
      assume "?c1 = c \<and> lfu_Len c < f_capacity c"
      then have c1: "?c1 = c" and room: "lfu_Len c < f_capacity c" by blast+
      have "f_lookup c' k' = (if k' = k then Some (v, exp_of now ttl) else f_lookup c k')" for k'
        using I(3) [of k'] unfolding c1 .
      moreover have "f_capacity c' = f_capacity c" using I(2) Y(4) by (rule trans)
      ultimately show ?thesis using I(1) room by simp
    next
      assume "\<exists>j fj. f_freq_of c j = Some fj \<and> (\<forall>k' fk. f_freq_of c k' = Some fk \<longrightarrow> fj \<le> fk) \<and> lfu_Len c = f_capacity c \<and>
            (\<forall>k'. f_lookup ?c1 k' = (if k' = j then None else f_lookup c k') \<and>
                  f_freq_of ?c1 k' = (if k' = j then None else f_freq_of c k'))"
      then obtain j fj where J: "f_freq_of c j = Some fj" "\<forall>k' fk. f_freq_of c k' = Some fk \<longrightarrow> fj \<le> fk"
        "lfu_Len c = f_capacity c" and J4: "\<forall>k'. f_lookup ?c1 k' = (if k' = j then None else f_lookup c k') \<and>
                  f_freq_of ?c1 k' = (if k' = j then None else f_freq_of c k')" by (elim exE conjE)
      have "f_inv c'" "f_capacity c' = f_capacity c" using I(1) trans [OF I(2) Y(4)] by this
      moreover have "f_lookup c' k' = (if k' = k then Some (v, exp_of now ttl) else if k' = j then None else f_lookup c k')" for k'
        unfolding I(3) J4 [THEN spec, THEN conjunct1] by (rule refl)
      moreover have "\<not> (f_lookup c k \<noteq> None \<or> lfu_Len c < f_capacity c)" using J(3) lk by simp
      ultimately show ?thesis
        by (intro conjI impI exI [of _ j] exI [of _ fj] allI)
          (erule notE, assumption | rule J(1) | rule J(2) [rule_format], assumption | assumption)+
    qed
  qed
qed

lemma f_len:
  assumes "f_inv c"
  shows "finite (dom (f_lookup c)) \<and> lfu_Len c = int (card (dom (f_lookup c))) \<and> lfu_Len c \<le> f_capacity c"
proof -
  obtain X where X: "f_nodes c X" "f_full_ok c X" using assms by (rule f_invE)
  have "dom (f_lookup c) = keys_of (f_items c)" by (auto simp: f_lookup_def keys_of_def)
  with X f_nodesD(2) [OF X(1)] show ?thesis by (simp add: lfu_Len_def length_card_keys f_full_ok_def)
qed

lemma f_inv_New: "f_inv (newLFUBackend z capacity) \<and> f_lookup (newLFUBackend z capacity) = Map.empty"
proof -
  have "f_lists (\<lambda>_. z) [] (\<lambda>_. [])" by (rule f_listsI) simp_all
  then have "f_nodes (newLFUBackend z capacity) (\<lambda>_. [])" by (simp add: f_nodes_def newLFUBackend_def map_ok_def)
  moreover have "f_full_ok (newLFUBackend z capacity) (\<lambda>_. [])" by (simp add: f_full_ok_def newLFUBackend_def)
  ultimately show ?thesis by (auto simp: f_inv_def f_lookup_def newLFUBackend_def fun_eq_iff)
qed

lemma lfu_Set_other:
  assumes "f_inv c"
  shows "f_lookup (lfu_Set now k v ttl c) k = Some (v, exp_of now ttl)"
    and "\<exists>j. \<forall>k'. k' \<noteq> k \<longrightarrow> f_lookup (lfu_Set now k v ttl c) k' = (if k' = j then None else f_lookup c k') \<or>
                               f_lookup (lfu_Set now k v ttl c) k' = f_lookup c k'"
proof -
  note L = lfu_Set_laws [OF assms, of now k v ttl, THEN conjunct2, THEN conjunct2]
  consider "f_lookup c k \<noteq> None \<or> lfu_Len c < f_capacity c" | "f_lookup c k = None \<and> lfu_Len c \<ge> f_capacity c" by linarith
  then have "f_lookup (lfu_Set now k v ttl c) k = Some (v, exp_of now ttl) \<and>
     (\<exists>j. \<forall>k'. k' \<noteq> k \<longrightarrow> f_lookup (lfu_Set now k v ttl c) k' = (if k' = j then None else f_lookup c k') \<or>
                          f_lookup (lfu_Set now k v ttl c) k' = f_lookup c k')"
  proof cases
    case 1
    from L [THEN conjunct1, THEN mp, OF 1] show ?thesis by simp
  next
    case 2
    from L [THEN conjunct2, THEN mp, OF 2] obtain j where
      "\<forall>k'. f_lookup (lfu_Set now k v ttl c) k' =
         (if k' = k then Some (v, exp_of now ttl) else if k' = j then None else f_lookup c k')" by (elim exE conjE)
    then show ?thesis by (intro conjI exI [of _ j]) simp_all
  qed
  then show "f_lookup (lfu_Set now k v ttl c) k = Some (v, exp_of now ttl)"
    and "\<exists>j. \<forall>k'. k' \<noteq> k \<longrightarrow> f_lookup (lfu_Set now k v ttl c) k' = (if k' = j then None else f_lookup c k') \<or>
                          f_lookup (lfu_Set now k v ttl c) k' = f_lookup c k'" by (rule conjunct1, rule conjunct2)
qed

interpretation lfu: cache_backend expired "\<lambda>_. True" lfu_Get lfu_Set lfu_Delete lfu_Len f_lookup f_capacity f_inv
proof (unfold_locales, goal_cases)
  case (1 now)
  show ?case by (simp add: expired_def)
next
  case (2 c now k)
  show ?case using lfu_Get_laws [OF 2, of now k] by (elim conjE)
next
  case (3 c now k k')
  show ?case using lfu_Get_laws [OF 3, of now k, THEN conjunct2, THEN conjunct2, THEN conjunct2] by (rule spec)
next
  case (4 c now k)
  show ?case using lfu_Get_laws [OF 4, of now k] by (elim conjE) (rule conjI)
next
  case (5 c now k v ttl)
  show ?case by (rule lfu_Set_other(1) [OF 5(1)])
next
  case (6 c now k' k v ttl)
  show ?case using lfu_Set_other(2) [OF 6(1), of k now v ttl] 6(3) by (auto split: if_splits)
next
  case (7 c now k' k v ttl)
  have "f_lookup (lfu_Set now k v ttl c) k' = (if k' = k then Some (v, exp_of now ttl) else f_lookup c k')"
    using lfu_Set_laws [OF 7(1), of now k v ttl] 7(4) by (elim conjE) (drule mp, assumption, erule spec)
  with 7(3) show ?case by simp
next
  case (8 c now k v ttl)
  from lfu_Set_other(2) [OF 8(1), of k now v ttl] obtain j where
    J: "\<forall>k'. k' \<noteq> k \<longrightarrow> f_lookup (lfu_Set now k v ttl c) k' = (if k' = j then None else f_lookup c k') \<or>
       f_lookup (lfu_Set now k v ttl c) k' = f_lookup c k'" by (elim exE)
  have "f_lookup (lfu_Set now k v ttl c) k' = f_lookup c k'" if "k' \<noteq> k" "k' \<noteq> j" for k'
    using J [THEN spec, of k'] that by simp
  then show ?case by (intro exI [of _ j]) simp
next
  case (9 c now k v ttl)
  show ?case using lfu_Set_laws [OF 9(1), of now k v ttl] by (elim conjE) (rule conjI)
next
  case (10 c k k')
  show ?case using lfu_Delete_laws [OF 10, of k, THEN conjunct2, THEN conjunct2] by (rule spec)
next
  case (11 c k)
  show ?case using lfu_Delete_laws [OF 11, of k] by (elim conjE) (rule conjI)
next
  case (12 c)
  then show ?case using f_len by blast
next
  case (13 c)
  then show ?case using f_len by blast
qed

text \<open>
  C14: after any sequence of operations, an insertion of a new key into a full LFU cache removes exactly
  one key, one whose access count is minimal, and stores the new one; every other entry stays.
\<close>

theorem lfu_evicts_least_frequent:
  "let c = cache_run lfu_Get lfu_Set lfu_Delete ops (newLFUBackend z n); c' = lfu_Set now k v ttl c
   in f_lookup c k = None \<and> lfu_Len c \<ge> f_capacity c \<longrightarrow>
     (\<exists>j fj. f_freq_of c j = Some fj \<and> (\<forall>k' fk. f_freq_of c k' = Some fk \<longrightarrow> fj \<le> fk) \<and>
       (\<forall>k'. f_lookup c' k' = (if k' = k then Some (v, exp_of now ttl) else if k' = j then None else f_lookup c k')))"
proof -
  have "f_inv (cache_run lfu_Get lfu_Set lfu_Delete ops (newLFUBackend z n))"
    using lfu.run_inv [OF f_inv_New [of z n, THEN conjunct1], of ops] by simp
  from lfu_Set_laws [OF this, of now k v ttl] show ?thesis unfolding Let_def by (elim conjE)
qed

theorem lfu_evicts_least_frequent_witness:
  "let c = cache_run lfu_Get lfu_Set lfu_Delete [OSet 1 ''a'' (10 :: int) [], OSet 2 ''b'' 20 [], OGet 3 ''a'']
             (newLFUBackend \<lparr>n_prev = None, n_next = None, f_key = [], f_value = 0, f_freq = 0, f_expiration = 0\<rparr> 2);
       c' = lfu_Set 4 ''c'' 30 [] c
   in f_lookup c ''c'' = None \<and> lfu_Len c = f_capacity c \<and> f_freq_of c ''a'' = Some 2 \<and> f_freq_of c ''b'' = Some 1 \<and>
      (\<exists>j fj. f_freq_of c j = Some fj \<and> (\<forall>k' fk. f_freq_of c k' = Some fk \<longrightarrow> fj \<le> fk) \<and>
       (\<forall>k'. f_lookup c' k' = (if k' = ''c'' then Some (30, 0) else if k' = j then None else f_lookup c k')))"
proof -
  let ?z = "\<lparr>n_prev = None, n_next = None, f_key = [], f_value = 0 :: int, f_freq = 0, f_expiration = 0\<rparr>"
  let ?ops = "[OSet 1 ''a'' 10 [], OSet 2 ''b'' 20 [], OGet 3 ''a'']"
  let ?c = "cache_run lfu_Get lfu_Set lfu_Delete ?ops (newLFUBackend ?z 2)"
  have e: "f_lookup ?c ''c'' = None \<and> lfu_Len ?c = f_capacity ?c \<and> f_freq_of ?c ''a'' = Some 2 \<and> f_freq_of ?c ''b'' = Some 1"
    by code_simp
  then have "f_lookup ?c ''c'' = None \<and> lfu_Len ?c \<ge> f_capacity ?c" by (elim conjE) (intro conjI, assumption, simp only:)
  note T = lfu_evicts_least_frequent [of ?ops ?z 2 4 "''c''" 30 "[]", unfolded Let_def, THEN mp, OF this]
  have x: "exp_of 4 [] = 0" by (simp add: exp_of_def)
  show ?thesis unfolding Let_def using e T [unfolded x] by (elim conjE) (intro conjI)
qed

end
