(* ===== verification/Cache_Sampled.thy ===== *)
theory Cache_Sampled
  imports Cache_Spec
begin

text \<open>
  The default back end of \<open>TypedCache\<close> (\<open>src/cache/cache.go\<close>), policy \<open>EvictionSampledLRU\<close>: a \<open>sync.Map\<close>
  of items and a size counter. \<open>sync.Map.Range\<close> visits the entries in no particular order: the order of
  the \<open>n\<close>-th pass is \<open>order n\<close>, any function that keeps the set of entries. An eviction reads the clock
  at every round: \<open>clk n\<close> is what it reads when \<open>evictOffset\<close> is \<open>n\<close>. An operation is one step; its
  stripe lock is the one \<open>getStripe\<close> selects.
\<close>

record 'v Item =
  i_value :: 'v
  i_expiration :: int
  i_createdAt :: int

record 'v sCache =
  s_capacity :: int
  s_data :: "(string, 'v Item) gomap"
  s_size :: int
  s_evictOffset :: "64 word"
  s_metrics :: cache_Metrics

unbundle bit_operations_syntax

definition fnv32 :: "string \<Rightarrow> 32 word" where
  "fnv32 key = foldl (\<lambda>hash b. (hash XOR of_char b) * 16777619) 2166136261 key"

definition numStripes :: nat where
  "numStripes = 16"

definition getStripe :: "string \<Rightarrow> nat" where
  "getStripe key = unat (fnv32 key mod of_nat numStripes)"

definition evictionSampleSize :: nat where
  "evictionSampleSize = 16"

type_synonym 'v range_order = "nat \<Rightarrow> (string \<times> 'v Item) list \<Rightarrow> (string \<times> 'v Item) list"

text \<open>The two scans. An expired entry ends a scan at once; otherwise the oldest entry of the sample is returned.\<close>

fun fallback_scan :: "string \<Rightarrow> time \<Rightarrow> int \<Rightarrow> string option \<Rightarrow> nat \<Rightarrow> (string \<times> 'v Item) list \<Rightarrow> string option" where
  "fallback_scan newKey now oldestTime oldestKey sampled [] = oldestKey"
| "fallback_scan newKey now oldestTime oldestKey sampled ((k, item) # rest) =
     (if k = newKey then fallback_scan newKey now oldestTime oldestKey sampled rest
      else if expired (i_expiration item) now then Some k
      else
        let older = i_createdAt item < oldestTime;
            oldestTime' = (if older then i_createdAt item else oldestTime);
            oldestKey' = (if older then Some k else oldestKey)
        in if Suc sampled < evictionSampleSize
           then fallback_scan newKey now oldestTime' oldestKey' (Suc sampled) rest
           else oldestKey')"

definition findFallbackEvictionCandidate :: "'v range_order \<Rightarrow> string \<Rightarrow> time \<Rightarrow> 'v sCache \<Rightarrow> string option" where
  "findFallbackEvictionCandidate order newKey now c =
     fallback_scan newKey now max_int64 None 0 (order (2 * unat (s_evictOffset c) + 1) (s_data c))"

fun sampled_scan ::
  "string \<Rightarrow> time \<Rightarrow> nat \<Rightarrow> nat \<Rightarrow> nat \<Rightarrow> int \<Rightarrow> string option \<Rightarrow> nat \<Rightarrow> (string \<times> 'v Item) list \<Rightarrow> string option" where
  "sampled_scan newKey now stride offset idx oldestTime oldestKey sampled [] = oldestKey"
| "sampled_scan newKey now stride offset idx oldestTime oldestKey sampled ((k, item) # rest) =
     (if k = newKey then sampled_scan newKey now stride offset idx oldestTime oldestKey sampled rest
      else if idx \<ge> offset \<and> (idx - offset) mod stride = 0 then
        if expired (i_expiration item) now then Some k
        else
          let older = i_createdAt item < oldestTime;
              oldestTime' = (if older then i_createdAt item else oldestTime);
              oldestKey' = (if older then Some k else oldestKey)
          in if Suc sampled \<ge> evictionSampleSize then oldestKey'
             else sampled_scan newKey now stride offset (Suc idx) oldestTime' oldestKey' (Suc sampled) rest
      else sampled_scan newKey now stride offset (Suc idx) oldestTime oldestKey sampled rest)"

definition s_stride :: "'v sCache \<Rightarrow> nat" where
  "s_stride c = (let s = s_size c div int evictionSampleSize in if s > 1 then nat s else 1)"

definition findSampledEvictionCandidate ::
  "'v range_order \<Rightarrow> string \<Rightarrow> time \<Rightarrow> 'v sCache \<Rightarrow> 'v sCache \<times> string option" where
  "findSampledEvictionCandidate order newKey now c =
     (let stride = s_stride c;
          c1 = c\<lparr>s_evictOffset := s_evictOffset c + 1\<rparr>;
          offset = unat (s_evictOffset c1) mod stride
      in (c1, case sampled_scan newKey now stride offset 0 max_int64 None 0
                     (order (2 * unat (s_evictOffset c1)) (s_data c1)) of
                Some k \<Rightarrow> Some k
              | None \<Rightarrow> findFallbackEvictionCandidate order newKey now c1))"

text \<open>\<open>LoadAndDelete\<close> with the size counter, as every deletion of the back end does it.\<close>

definition s_drop :: "string \<Rightarrow> 'v sCache \<Rightarrow> 'v sCache" where
  "s_drop k c =
     (if map_of (s_data c) k = None then c
      else c\<lparr>s_data := mdel k (s_data c), s_size := s_size c - 1,
             s_metrics := inc_evictions (s_metrics c)\<rparr>)"

lemma length_delete_less: "map_of m k \<noteq> None \<Longrightarrow> length (mdel k m) < length m"
  unfolding AList.delete_eq by (rule length_filter_less [where x = "(k, the (map_of m k))"]) (auto dest: map_of_SomeD)

lemma s_drop_less [termination_simp]:
  "map_of (s_data c) k \<noteq> None \<Longrightarrow> length (s_data (s_drop k c)) < length (s_data c)"
  by (simp add: s_drop_def length_delete_less)

lemma findSampled_sel [simp]:
  "s_data (fst (findSampledEvictionCandidate order newKey now c)) = s_data c"
  "s_size (fst (findSampledEvictionCandidate order newKey now c)) = s_size c"
  "s_capacity (fst (findSampledEvictionCandidate order newKey now c)) = s_capacity c"
  "s_metrics (fst (findSampledEvictionCandidate order newKey now c)) = s_metrics c"
  by (simp_all add: findSampledEvictionCandidate_def Let_def)

text \<open>The loop of \<open>evictIfNeeded\<close>: it ends, because every round but the last deletes an entry.\<close>

function evict_loop :: "'v range_order \<Rightarrow> (nat \<Rightarrow> time) \<Rightarrow> string \<Rightarrow> 'v sCache \<Rightarrow> 'v sCache" where
  "evict_loop order clk newKey c =
     (if s_size c < s_capacity c then c
      else
        let r = findSampledEvictionCandidate order newKey (clk (unat (s_evictOffset c))) c in
        case snd r of
          None \<Rightarrow> fst r
        | Some targetKey \<Rightarrow>
            if map_of (s_data (fst r)) targetKey = None then fst r
            else evict_loop order clk newKey (s_drop targetKey (fst r)))"
  by pat_completeness auto

termination
proof (relation "measure (\<lambda>(_, _, _, c). length (s_data c))")
  fix order clk newKey and c :: "'v sCache" and r k
  assume "r = findSampledEvictionCandidate order newKey (clk (unat (s_evictOffset c))) c"
    and "map_of (s_data (fst r)) k \<noteq> None"
  then show "((order, clk, newKey, s_drop k (fst r)), order, clk, newKey, c)
      \<in> measure (\<lambda>(_, _, _, c). length (s_data c))"
    using s_drop_less [of "fst r" k] by simp
qed simp

declare evict_loop.simps [simp del]

definition evictIfNeeded :: "'v range_order \<Rightarrow> (nat \<Rightarrow> time) \<Rightarrow> string \<Rightarrow> 'v sCache \<Rightarrow> 'v sCache" where
  "evictIfNeeded order clk newKey c = (if s_capacity c \<le> 0 then c else evict_loop order clk newKey c)"

definition s_swap :: "string \<Rightarrow> 'v Item \<Rightarrow> 'v sCache \<Rightarrow> 'v sCache" where
  "s_swap key item c =
     c\<lparr>s_data := mput key item (s_data c),
       s_size := (if map_of (s_data c) key = None then s_size c + 1 else s_size c)\<rparr>"

text \<open>The common end of \<open>Set\<close> and of a fetch.\<close>

definition s_store :: "'v range_order \<Rightarrow> (nat \<Rightarrow> time) \<Rightarrow> string \<Rightarrow> 'v Item \<Rightarrow> 'v sCache \<Rightarrow> 'v sCache" where
  "s_store order clk key item c =
     (if s_capacity c > 0 then
        let c1 = (if map_of (s_data c) key = None then evictIfNeeded order clk key c else c);
            c2 = s_swap key item c1
        in if s_size c2 > s_capacity c2 then evictIfNeeded order clk key c2 else c2
      else s_swap key item c)"

definition s_New :: "int \<Rightarrow> 'v sCache" where
  "s_New capacity =
     \<lparr>s_capacity = capacity, s_data = [], s_size = 0, s_evictOffset = 0, s_metrics = no_cache_metrics\<rparr>"

text \<open>\<open>item.Expiration == 0 || item.Expiration > now\<close> negated; \<open>Get\<close> reads the clock again under the lock.\<close>

definition s_dead :: "int \<Rightarrow> time \<Rightarrow> bool" where
  "s_dead expiration now \<longleftrightarrow> \<not> (expiration = 0 \<or> expiration > unix_nano now)"

definition s_Get :: "time \<Rightarrow> time \<Rightarrow> string \<Rightarrow> 'v sCache \<Rightarrow> 'v sCache \<times> 'v option" where
  "s_Get now now' key c =
     (case map_of (s_data c) key of
        None \<Rightarrow> (c\<lparr>s_metrics := inc_misses (s_metrics c)\<rparr>, None)
      | Some item \<Rightarrow>
          if \<not> s_dead (i_expiration item) now then (c\<lparr>s_metrics := inc_hits (s_metrics c)\<rparr>, Some (i_value item))
          else
            let c1 = (if expired (i_expiration item) now' then s_drop key c else c)
            in (c1\<lparr>s_metrics := inc_misses (s_metrics c1)\<rparr>, None))"

definition s_Set ::
  "'v range_order \<Rightarrow> (nat \<Rightarrow> time) \<Rightarrow> time \<Rightarrow> string \<Rightarrow> 'v \<Rightarrow> duration list \<Rightarrow> 'v sCache \<Rightarrow> 'v sCache" where
  "s_Set order clk now key value ttl c =
     s_store order clk key \<lparr>i_value = value, i_expiration = exp_of now ttl, i_createdAt = unix_nano now\<rparr> c"

definition s_Delete :: "string \<Rightarrow> 'v sCache \<Rightarrow> 'v sCache" where
  "s_Delete key c =
     (if map_of (s_data c) key = None then c
      else c\<lparr>s_data := mdel key (s_data c), s_size := s_size c - 1\<rparr>)"

definition s_Len :: "'v sCache \<Rightarrow> int" where
  "s_Len c = (let n = s_size c in if n < 0 then 0 else n)"

text \<open>
  \<open>getOrFetchSampledLRU\<close>, with the arguments of \<open>GetOrFetch\<close>. Unlike \<open>Get\<close> it leaves an expired entry
  where it is: the fetched value replaces it.
\<close>

definition getOrFetchSampledLRU ::
  "'v range_order \<Rightarrow> (nat \<Rightarrow> time) \<Rightarrow> ctx_err \<Rightarrow> time \<Rightarrow> string \<Rightarrow> duration \<Rightarrow> error + 'v \<Rightarrow> time \<Rightarrow> ctx_err \<Rightarrow>
   'v sCache \<Rightarrow> 'v sCache \<times> (error + 'v) \<times> bool" where
  "getOrFetchSampledLRU order clk ctx1 now1 key ttl fetched now2 ctx2 c =
     (case ctx1 of
        Some e \<Rightarrow> (c, Inl e, False)
      | None \<Rightarrow>
          let miss =
            (let c1 = c\<lparr>s_metrics := inc_misses (s_metrics c)\<rparr>;
                 c2 = (case fetched of
                         Inl _ \<Rightarrow> c1
                       | Inr v \<Rightarrow> s_store order clk key
                           \<lparr>i_value = v, i_expiration = exp_of now2 [ttl], i_createdAt = unix_nano now2\<rparr> c1)
             in (c2, case ctx2 of Some e \<Rightarrow> Inl e | None \<Rightarrow> fetched, True))
          in case map_of (s_data c) key of
               None \<Rightarrow> miss
             | Some item \<Rightarrow>
                 if \<not> s_dead (i_expiration item) now1
                 then (c\<lparr>s_metrics := inc_hits (s_metrics c)\<rparr>, Inr (i_value item), False)
                 else miss)"

text \<open>One tick of \<open>startEviction\<close>.\<close>

definition s_sweep1 :: "time \<Rightarrow> 'v sCache \<Rightarrow> string \<times> 'v Item \<Rightarrow> 'v sCache" where
  "s_sweep1 now c e =
     (if expired (i_expiration (snd e)) now then
        case map_of (s_data c) (fst e) of
          None \<Rightarrow> c
        | Some item2 \<Rightarrow> if expired (i_expiration item2) now then s_drop (fst e) c else c
      else c)"

definition s_sweep :: "'v range_order \<Rightarrow> time \<Rightarrow> 'v sCache \<Rightarrow> 'v sCache" where
  "s_sweep order now c = foldl (s_sweep1 now) c (order (2 * unat (s_evictOffset c)) (s_data c))"

section \<open>The eviction candidate\<close>

lemma fallback_scan_key:
  "fallback_scan nk now t o0 n xs = Some k \<Longrightarrow> o0 = Some k \<or> k \<noteq> nk \<and> k \<in> fst ` set xs"
  by (induction nk now t o0 n xs rule: fallback_scan.induct) (auto simp: Let_def split: if_splits)

lemma sampled_scan_key:
  "sampled_scan nk now st off i t o0 n xs = Some k \<Longrightarrow> o0 = Some k \<or> k \<noteq> nk \<and> k \<in> fst ` set xs"
  by (induction nk now st off i t o0 n xs rule: sampled_scan.induct) (auto simp: Let_def split: if_splits)

lemma fallback_scan_keeps: "\<exists>y. fallback_scan nk now t (Some o0) n xs = Some y"
  by (induction nk now t "Some o0" n xs arbitrary: o0 rule: fallback_scan.induct) (auto simp: Let_def)

lemma fallback_scan_finds:
  "(k, it) \<in> set xs \<Longrightarrow> k \<noteq> nk \<Longrightarrow> i_createdAt it < t \<Longrightarrow> \<forall>x \<in> set xs. i_createdAt (snd x) < t \<Longrightarrow>
     fallback_scan nk now t None n xs \<noteq> None"
  by (induction xs) (auto simp: Let_def fallback_scan_keeps split: if_splits)

text \<open>What the code relies on of \<open>sync.Map.Range\<close>: a pass visits every entry, once.\<close>

definition range_ok :: "'v range_order \<Rightarrow> bool" where
  "range_ok order \<longleftrightarrow> (\<forall>n d. set (order n d) = set d \<and> length (order n d) = length d)"

definition s_ok :: "'v sCache \<Rightarrow> bool" where
  "s_ok c \<longleftrightarrow> map_ok (s_data c) \<and> s_size c = int (length (s_data c)) \<and>
     (\<forall>x \<in> set (s_data c). i_createdAt (snd x) < max_int64)"

lemma candidate_key:
  assumes "range_ok order" and "snd (findSampledEvictionCandidate order nk now c) = Some k"
  shows "k \<noteq> nk \<and> map_of (s_data c) k \<noteq> None"
proof -
  have "k \<noteq> nk \<and> k \<in> fst ` set (s_data c)"
    using assms sampled_scan_key [of nk now _ _ _ _ None _ _ k] fallback_scan_key [of nk now _ None _ _ k]
    by (fastforce simp: range_ok_def findSampledEvictionCandidate_def findFallbackEvictionCandidate_def Let_def
        split: option.splits)
  then show ?thesis by (simp add: map_of_eq_None_iff)
qed

lemma candidate_exists:
  assumes "range_ok order" and "s_ok c" and "map_of (s_data c) k \<noteq> None" and "k \<noteq> nk"
  shows "snd (findSampledEvictionCandidate order nk now c) \<noteq> None"
proof -
  from assms(3) obtain it where it: "(k, it) \<in> set (s_data c)" by (auto dest: map_of_SomeD)
  have lt: "\<forall>x \<in> set (s_data c). i_createdAt (snd x) < max_int64" using assms(2) by (simp add: s_ok_def)
  have "fallback_scan nk now max_int64 None 0 (order n (s_data c)) \<noteq> None" for n
    using fallback_scan_finds [of k it "order n (s_data c)" nk max_int64] it lt assms(1,4)
    by (auto simp: range_ok_def)
  then show ?thesis
    by (auto simp: findSampledEvictionCandidate_def findFallbackEvictionCandidate_def Let_def split: option.splits)
qed

section \<open>The loop\<close>

lemma s_ok_offset [simp]: "s_ok (fst (findSampledEvictionCandidate order nk now c)) = s_ok c"
  by (simp add: s_ok_def)

lemma s_drop_ok:
  assumes "s_ok c"
  shows "s_ok (s_drop k c)" and "s_capacity (s_drop k c) = s_capacity c"
    and "s_size (s_drop k c) = (if map_of (s_data c) k = None then s_size c else s_size c - 1)"
    and "map_of (s_data (s_drop k c)) k' = (if k' = k then None else map_of (s_data c) k')"
proof -
  show "s_ok (s_drop k c)"
    using assms int_length_mdel [of "s_data c" k] set_mdel_subset [of k "s_data c"] by (auto simp: s_ok_def s_drop_def)
  show "s_capacity (s_drop k c) = s_capacity c"
    "s_size (s_drop k c) = (if map_of (s_data c) k = None then s_size c else s_size c - 1)"
    "map_of (s_data (s_drop k c)) k' = (if k' = k then None else map_of (s_data c) k')"
    by (simp_all add: s_drop_def go_map)
qed

text \<open>
  A full cache that does not hold the new key loses one entry, and has room afterwards.
\<close>

lemma evict_loop_full:
  assumes "range_ok order" and "s_ok c" and "0 < s_capacity c" and "s_size c = s_capacity c"
    and "map_of (s_data c) nk = None"
  obtains k where "s_ok (evict_loop order clk nk c)" and "s_capacity (evict_loop order clk nk c) = s_capacity c"
    and "s_size (evict_loop order clk nk c) = s_capacity c - 1" and "map_of (s_data c) k \<noteq> None"
    and "snd (findSampledEvictionCandidate order nk (clk (unat (s_evictOffset c))) c) = Some k"
    and "\<forall>k'. map_of (s_data (evict_loop order clk nk c)) k' = (if k' = k then None else map_of (s_data c) k')"
proof -
  let ?r = "findSampledEvictionCandidate order nk (clk (unat (s_evictOffset c))) c"
  have "s_data c \<noteq> []" using assms(2-4) by (auto simp: s_ok_def)
  then have j: "map_of (s_data c) (fst (hd (s_data c))) \<noteq> None" (is "map_of _ ?j \<noteq> None") by (cases "s_data c") auto
  with assms(5) have "?j \<noteq> nk" by auto
  with candidate_exists [OF assms(1,2) j] obtain k where k: "snd ?r = Some k" by blast
  from candidate_key [OF assms(1) k] have k': "k \<noteq> nk" "map_of (s_data c) k \<noteq> None" by blast+
  have "s_ok (fst ?r)" using assms(2) by simp
  note D = s_drop_ok [OF this, of k, simplified]
  have sz: "s_size (s_drop k (fst ?r)) = s_capacity c - 1" using D(3) k'(2) assms(4) by simp
  have e: "evict_loop order clk nk c = s_drop k (fst ?r)"
  proof -
    have "evict_loop order clk nk c = evict_loop order clk nk (s_drop k (fst ?r))"
      using assms(4) k k'(2) by (subst evict_loop.simps) (auto simp: Let_def)
    also have "\<dots> = s_drop k (fst ?r)" using sz D(2) by (subst evict_loop.simps) simp
    finally show ?thesis .
  qed
  from that [unfolded e, OF D(1,2) sz k'(2) k] D(4) show thesis by simp
qed

lemma evict_loop_room: "s_size c < s_capacity c \<Longrightarrow> evict_loop order clk nk c = c"
  by (subst evict_loop.simps) simp

section \<open>The contract\<close>

definition s_lookup :: "'v sCache \<Rightarrow> string \<Rightarrow> ('v \<times> int) option" where
  "s_lookup c k = map_option (\<lambda>it. (i_value it, i_expiration it)) (map_of (s_data c) k)"

definition s_inv :: "'v sCache \<Rightarrow> bool" where
  "s_inv c \<longleftrightarrow> s_ok c \<and> 0 < s_capacity c \<and> s_size c \<le> s_capacity c"

lemma s_inv_metrics [simp]: "s_inv (c\<lparr>s_metrics := m\<rparr>) = s_inv c"
  by (simp add: s_inv_def s_ok_def)

lemma s_lookup_None [simp]: "s_lookup c k = None \<longleftrightarrow> map_of (s_data c) k = None"
  by (simp add: s_lookup_def)

lemma s_swap_ok:
  assumes "s_ok c" and "i_createdAt item < max_int64"
  shows "s_ok (s_swap key item c)" and "s_capacity (s_swap key item c) = s_capacity c"
    and "s_size (s_swap key item c) = (if map_of (s_data c) key = None then s_size c + 1 else s_size c)"
    and "map_of (s_data (s_swap key item c)) k = (if k = key then Some item else map_of (s_data c) k)"
proof -
  show "s_ok (s_swap key item c)"
    using assms set_mput_subset [of key item "s_data c"]
    by (auto simp: s_ok_def s_swap_def length_mput mem_keys_of)
  show "s_capacity (s_swap key item c) = s_capacity c"
    "s_size (s_swap key item c) = (if map_of (s_data c) key = None then s_size c + 1 else s_size c)"
    "map_of (s_data (s_swap key item c)) k = (if k = key then Some item else map_of (s_data c) k)"
    by (simp_all add: s_swap_def go_map)
qed

text \<open>Storing a new key into a full cache: the candidate goes, the item comes.\<close>

lemma s_store_full:
  assumes "range_ok order" and "s_inv c" and "i_createdAt item < max_int64"
    and "map_of (s_data c) key = None" and "s_size c = s_capacity c"
  obtains j where "s_inv (s_store order clk key item c)" and "s_capacity (s_store order clk key item c) = s_capacity c"
    and "snd (findSampledEvictionCandidate order key (clk (unat (s_evictOffset c))) c) = Some j"
    and "\<forall>k. map_of (s_data (s_store order clk key item c)) k =
            (if k = key then Some item else if k = j then None else map_of (s_data c) k)"
proof -
  have f: "s_ok c" "0 < s_capacity c" using assms(2) by (auto simp: s_inv_def)
  let ?c1 = "evict_loop order clk key c"
  obtain j where j: "s_ok ?c1" "s_capacity ?c1 = s_capacity c" "s_size ?c1 = s_capacity c - 1"
    "map_of (s_data c) j \<noteq> None" "snd (findSampledEvictionCandidate order key (clk (unat (s_evictOffset c))) c) = Some j"
    "\<forall>k'. map_of (s_data ?c1) k' = (if k' = j then None else map_of (s_data c) k')"
    by (rule evict_loop_full [OF assms(1) f assms(5,4)])
  note W = s_swap_ok [OF j(1) assms(3), of key]
  have n: "map_of (s_data ?c1) key = None" using j(6) assms(4) by simp
  have sz: "s_size (s_swap key item ?c1) = s_capacity c" using W(3) n j(3) by simp
  have e: "s_store order clk key item c = s_swap key item ?c1"
    using f assms(4) W(2) j(2) sz by (simp add: s_store_def Let_def evictIfNeeded_def)
  show thesis
  proof (rule that [of j], unfold e)
    show "s_inv (s_swap key item ?c1)" using W(1,2) sz j(2) f(2) by (simp add: s_inv_def)
    show "s_capacity (s_swap key item ?c1) = s_capacity c" using W(2) j(2) by simp
    show "\<forall>k. map_of (s_data (s_swap key item ?c1)) k =
        (if k = key then Some item else if k = j then None else map_of (s_data c) k)"
      using W(4) j(6) by simp
  qed (rule j(5))
qed

lemma s_store_cases:
  assumes "range_ok order" and "s_inv c" and "i_createdAt item < max_int64"
  obtains j where "s_inv (s_store order clk key item c)" and "s_capacity (s_store order clk key item c) = s_capacity c"
    and "map_of (s_data c) key \<noteq> None \<or> s_size c < s_capacity c \<longrightarrow>
         (\<forall>k. map_of (s_data (s_store order clk key item c)) k = (if k = key then Some item else map_of (s_data c) k))"
    and "\<forall>k. map_of (s_data (s_store order clk key item c)) k =
            (if k = key then Some item else if Some k = j then None else map_of (s_data c) k)"
proof (cases "map_of (s_data c) key \<noteq> None \<or> s_size c < s_capacity c")
  case True
  note O = assms(2) [unfolded s_inv_def]
  then have ok: "s_ok c" by blast
  note W = s_swap_ok [OF ok assms(3), of key]
  have le: "s_size (s_swap key item c) \<le> s_capacity c" using True W(3) O by auto
  have e: "s_store order clk key item c = s_swap key item c"
    using True O W(2) le by (auto simp: s_store_def Let_def evictIfNeeded_def evict_loop_room)
  from that [of None] W le O show thesis unfolding e by (simp add: s_inv_def)
next
  case False
  then have "map_of (s_data c) key = None" "s_size c = s_capacity c" using assms(2) by (auto simp: s_inv_def)
  from s_store_full [OF assms this, of clk] obtain j where j: "s_inv (s_store order clk key item c)"
    "s_capacity (s_store order clk key item c) = s_capacity c"
    "\<forall>k. map_of (s_data (s_store order clk key item c)) k =
       (if k = key then Some item else if k = j then None else map_of (s_data c) k)" .
  show thesis by (rule that [of "Some j"]) (use j False in auto)
qed

lemma s_Get_laws:
  assumes "s_inv c"
  shows "snd (s_Get now now' k c) = (case s_lookup c k of None \<Rightarrow> None | Some (v, e) \<Rightarrow> if s_dead e now then None else Some v)"
    and "s_lookup (fst (s_Get now now' k c)) k' =
       (if k' = k \<and> (\<exists>v e. s_lookup c k = Some (v, e) \<and> s_dead e now \<and> expired e now') then None else s_lookup c k')"
    and "s_inv (fst (s_Get now now' k c)) \<and> s_capacity (fst (s_Get now now' k c)) = s_capacity c"
proof -
  have ok: "s_ok c" using assms by (simp add: s_inv_def)
  note D = s_drop_ok [OF ok, of k]
  have "s_inv (s_drop k c)" using assms D by (auto simp: s_inv_def)
  then show "s_inv (fst (s_Get now now' k c)) \<and> s_capacity (fst (s_Get now now' k c)) = s_capacity c"
    and "s_lookup (fst (s_Get now now' k c)) k' =
       (if k' = k \<and> (\<exists>v e. s_lookup c k = Some (v, e) \<and> s_dead e now \<and> expired e now') then None else s_lookup c k')"
    and "snd (s_Get now now' k c) = (case s_lookup c k of None \<Rightarrow> None | Some (v, e) \<Rightarrow> if s_dead e now then None else Some v)"
    using assms D(2,4) by (auto simp: s_Get_def Let_def s_lookup_def split: option.splits)
qed

lemma s_Delete_laws:
  assumes "s_inv c"
  shows "s_lookup (s_Delete k c) k' = (if k' = k then None else s_lookup c k')"
    and "s_inv (s_Delete k c) \<and> s_capacity (s_Delete k c) = s_capacity c"
proof -
  have "s_Delete k c = (s_drop k c)\<lparr>s_metrics := s_metrics c\<rparr>" by (simp add: s_Delete_def s_drop_def)
  moreover have ok: "s_ok c" using assms by (simp add: s_inv_def)
  ultimately show "s_lookup (s_Delete k c) k' = (if k' = k then None else s_lookup c k')"
    and "s_inv (s_Delete k c) \<and> s_capacity (s_Delete k c) = s_capacity c"
    using assms s_drop_ok [OF ok, of k] by (auto simp: s_lookup_def s_inv_def s_ok_def split: if_splits)
qed

lemma s_len:
  assumes "s_inv c"
  shows "finite (dom (s_lookup c)) \<and> s_Len c = int (card (dom (s_lookup c))) \<and> s_Len c \<le> s_capacity c"
proof -
  have "dom (s_lookup c) = keys_of (s_data c)" by (auto simp: s_lookup_def keys_of_def)
  moreover have "int (length (s_data c)) \<le> s_capacity c" using assms by (simp add: s_inv_def s_ok_def)
  ultimately show ?thesis using assms by (simp add: s_inv_def s_ok_def s_Len_def length_card_keys)
qed

lemma s_inv_New: "0 < capacity \<Longrightarrow> s_inv (s_New capacity) \<and> s_lookup (s_New capacity) = Map.empty"
  by (simp add: s_inv_def s_ok_def s_New_def s_lookup_def fun_eq_iff)

text \<open>
  A \<open>Set\<close> at an instant \<open>s_tick\<close>: not the very last nanosecond of the 64-bit range, whose entries no
  scan would ever select.
\<close>

definition s_tick :: "time \<Rightarrow> bool" where
  "s_tick now \<longleftrightarrow> unix_nano now < max_int64"

lemma s_Set_laws:
  assumes "range_ok order" and "s_inv c" and "s_tick now"
  shows "s_inv (s_Set order clk now k v ttl c) \<and> s_capacity (s_Set order clk now k v ttl c) = s_capacity c"
    and "s_lookup c k \<noteq> None \<or> s_Len c < s_capacity c \<Longrightarrow>
         s_lookup (s_Set order clk now k v ttl c) k' = (if k' = k then Some (v, exp_of now ttl) else s_lookup c k')"
    and "\<exists>j. \<forall>k'. s_lookup (s_Set order clk now k v ttl c) k' =
           (if k' = k then Some (v, exp_of now ttl) else if Some k' = j then None else s_lookup c k')"
proof -
  let ?it = "\<lparr>i_value = v, i_expiration = exp_of now ttl, i_createdAt = unix_nano now\<rparr>"
  have len: "s_Len c = s_size c" using assms(2) by (simp add: s_Len_def s_inv_def s_ok_def)
  have t: "i_createdAt ?it < max_int64" using assms(3) by (simp add: s_tick_def)
  from s_store_cases [OF assms(1,2) t, of clk k] obtain j where j: "s_inv (s_store order clk k ?it c)" "s_capacity (s_store order clk k ?it c) = s_capacity c"
    "map_of (s_data c) k \<noteq> None \<or> s_size c < s_capacity c \<longrightarrow>
       (\<forall>k'. map_of (s_data (s_store order clk k ?it c)) k' = (if k' = k then Some ?it else map_of (s_data c) k'))"
    "\<forall>k'. map_of (s_data (s_store order clk k ?it c)) k' =
       (if k' = k then Some ?it else if Some k' = j then None else map_of (s_data c) k')" .
  show "s_inv (s_Set order clk now k v ttl c) \<and> s_capacity (s_Set order clk now k v ttl c) = s_capacity c"
    using j(1,2) by (simp add: s_Set_def)
  show "s_lookup (s_Set order clk now k v ttl c) k' = (if k' = k then Some (v, exp_of now ttl) else s_lookup c k')"
    if "s_lookup c k \<noteq> None \<or> s_Len c < s_capacity c"
  proof -
    have "map_of (s_data c) k \<noteq> None \<or> s_size c < s_capacity c" using that by (simp add: len)
    from j(3) [THEN mp, OF this, THEN spec, of k'] show ?thesis by (simp add: s_Set_def s_lookup_def)
  qed
  have "s_lookup (s_Set order clk now k v ttl c) k' =
           (if k' = k then Some (v, exp_of now ttl) else if Some k' = j then None else s_lookup c k')" for k'
    using j(4) [THEN spec, of k'] by (simp add: s_Set_def s_lookup_def)
  then show "\<exists>j. \<forall>k'. s_lookup (s_Set order clk now k v ttl c) k' =
           (if k' = k then Some (v, exp_of now ttl) else if Some k' = j then None else s_lookup c k')" by blast
qed

text \<open>Any order of the passes and any clock of the evictions make the back end a cache.\<close>

locale sampled_order =
  fixes order :: "'v range_order" and clk :: "nat \<Rightarrow> time"
  assumes visits_all: "range_ok order"

sublocale sampled_order \<subseteq> sampled: cache_backend s_dead s_tick "\<lambda>now. s_Get now now" "s_Set order clk" s_Delete s_Len
  s_lookup s_capacity s_inv
proof (unfold_locales, goal_cases)
  case (1 now)
  show ?case by (simp add: s_dead_def)
next
  case (2 c now k)
  then show ?case by (rule s_Get_laws(1))
next
  case (3 c now k k')
  show ?case unfolding s_Get_laws(2) [OF 3] by (auto simp: s_dead_def expired_def)
next
  case (4 c now k)
  then show ?case by (rule s_Get_laws(3))
next
  case (5 c now k v ttl)
  show ?case using s_Set_laws(3) [OF visits_all 5, of clk k v ttl] by (elim exE) simp
next
  case (6 c now k' k v ttl)
  from s_Set_laws(3) [OF visits_all 6(1,2), of clk k v ttl] obtain j where
    J: "\<forall>k'. s_lookup (s_Set order clk now k v ttl c) k' =
       (if k' = k then Some (v, exp_of now ttl) else if Some k' = j then None else s_lookup c k')" by (elim exE)
  show ?case using J [THEN spec, of k'] 6(3) by simp
next
  case (7 c now k' k v ttl)
  show ?case using s_Set_laws(2) [OF visits_all 7(1,2,4), of clk v ttl k'] 7(3) by simp
next
  case (8 c now k v ttl)
  from s_Set_laws(3) [OF visits_all 8, of clk k v ttl] obtain j where
    J: "\<forall>k'. s_lookup (s_Set order clk now k v ttl c) k' =
       (if k' = k then Some (v, exp_of now ttl) else if Some k' = j then None else s_lookup c k')" by (elim exE)
  have "s_lookup (s_Set order clk now k v ttl c) k' = s_lookup c k'" if "k' \<noteq> k" "k' \<noteq> the j" for k'
    using J [THEN spec, of k'] that by (cases j) auto
  then show ?case by (intro exI [of _ "the j"] allI impI)
next
  case (9 c now k v ttl)
  show ?case by (rule s_Set_laws(1) [OF visits_all 9])
next
  case (10 c k k')
  then show ?case by (rule s_Delete_laws(1))
next
  case (11 c k)
  then show ?case by (rule s_Delete_laws(2))
next
  case (12 c)
  then show ?case using s_len by blast
next
  case (13 c)
  then show ?case using s_len by blast
qed

context sampled_order
begin

lemma is_cache: "cache_backend s_dead s_tick (\<lambda>now. s_Get now now) (s_Set order clk) s_Delete s_Len s_lookup s_capacity s_inv"
  by (rule sampled.cache_backend_axioms)

end

lemmas sampled_is_cache = sampled_order.is_cache [OF sampled_order.intro]

text \<open>The order of insertion is one such order.\<close>

interpretation in_order: sampled_order "\<lambda>_ d. d" "\<lambda>_. 0"
  by unfold_locales (simp add: range_ok_def)

section \<open>Fetching\<close>

lemma getOrFetchSampledLRU_spec:
  assumes "range_ok order" and "s_inv c" and "s_tick now2"
    and "getOrFetchSampledLRU order clk None now1 k ttl fetched now2 ctx2 c = (c', r, called)"
  shows "called \<longleftrightarrow> snd (s_Get now1 now1 k c) = None"
    and "\<not> called \<Longrightarrow> snd (s_Get now1 now1 k c) = Some v \<Longrightarrow> r = Inr v"
    and "called \<Longrightarrow> r = (case ctx2 of Some e \<Rightarrow> Inl e | None \<Rightarrow> fetched)"
    and "called \<Longrightarrow> fetched = Inr v \<Longrightarrow> s_lookup c' k = Some (v, exp_of now2 [ttl])"
    and "s_inv c'"
proof -
  let ?c1 = "c\<lparr>s_metrics := inc_misses (s_metrics c)\<rparr>"
  let ?st = "\<lambda>v. s_Set order clk now2 k v [ttl] ?c1"
  have i: "s_inv ?c1" using assms(2) by simp
  have F: "(called = (snd (s_Get now1 now1 k c) = None)) \<and>
    (case snd (s_Get now1 now1 k c) of
       Some v \<Rightarrow> r = Inr v \<and> c' = c\<lparr>s_metrics := inc_hits (s_metrics c)\<rparr>
     | None \<Rightarrow> r = (case ctx2 of Some e \<Rightarrow> Inl e | None \<Rightarrow> fetched) \<and>
         c' = (case fetched of Inl _ \<Rightarrow> ?c1 | Inr v \<Rightarrow> ?st v))"
    using assms(4) by (auto simp: getOrFetchSampledLRU_def s_Get_def s_Set_def Let_def split: option.splits if_splits sum.splits)
  have S: "s_inv (?st v)" "s_lookup (?st v) k = Some (v, exp_of now2 [ttl])" for v
    using s_Set_laws(1,3) [OF assms(1) i assms(3), of clk k v "[ttl]"] by auto
  show "called \<longleftrightarrow> snd (s_Get now1 now1 k c) = None" using F by blast
  show "\<not> called \<Longrightarrow> snd (s_Get now1 now1 k c) = Some v \<Longrightarrow> r = Inr v" using F by simp
  show "called \<Longrightarrow> r = (case ctx2 of Some e \<Rightarrow> Inl e | None \<Rightarrow> fetched)" using F by auto
  show "called \<Longrightarrow> fetched = Inr v \<Longrightarrow> s_lookup c' k = Some (v, exp_of now2 [ttl])" using F S(2) by auto
  show "s_inv c'" using F S(1) assms(2) by (auto split: option.splits sum.splits)
qed

section \<open>The victim\<close>

text \<open>With stride one the two scans agree.\<close>

lemma sampled_scan_stride1: "sampled_scan nk now 1 0 i t o0 n xs = fallback_scan nk now t o0 n xs"
  by (induction nk now t o0 n xs arbitrary: i rule: fallback_scan.induct) (auto simp: Let_def)

lemma sampled_scan_oldest:
  assumes "sampled_scan nk now 1 0 i t o0 n xs = Some k"
    and "length (filter (\<lambda>x. fst x \<noteq> nk) xs) + n \<le> evictionSampleSize"
  shows "o0 = Some k \<and> (\<forall>x \<in> set xs. fst x \<noteq> nk \<longrightarrow> t \<le> i_createdAt (snd x)) \<or>
     (\<exists>it. (k, it) \<in> set xs \<and> k \<noteq> nk \<and>
        (expired (i_expiration it) now \<or>
         i_createdAt it < t \<and> (\<forall>x \<in> set xs. fst x \<noteq> nk \<longrightarrow> i_createdAt it \<le> i_createdAt (snd x))))"
  using assms
proof (induction xs arbitrary: i t o0 n)
  case (Cons x xs)
  obtain j it where x: "x = (j, it)" by fastforce
  let ?older = "i_createdAt it < t"
  let ?t = "if ?older then i_createdAt it else t" and ?o = "if ?older then Some j else o0"
  consider "j = nk" | "j \<noteq> nk" "expired (i_expiration it) now"
    | "j \<noteq> nk" "\<not> expired (i_expiration it) now" "Suc n \<ge> evictionSampleSize"
    | "j \<noteq> nk" "\<not> expired (i_expiration it) now" "Suc n < evictionSampleSize" by linarith
  then show ?case
  proof cases
    case 1
    with Cons.IH [of i t o0 n] Cons.prems x show ?thesis by auto
  next
    case 2
    with Cons.prems x show ?thesis by auto
  next
    case 3
    with Cons.prems(2) x have "length (filter (\<lambda>x. fst x \<noteq> nk) xs) + Suc n \<le> evictionSampleSize" by simp
    with 3(3) have "length (filter (\<lambda>x. fst x \<noteq> nk) xs) = 0" by linarith
    then have "\<forall>x \<in> set xs. fst x = nk" by (simp add: filter_empty_conv)
    with 3 Cons.prems(1) x show ?thesis by (auto simp: Let_def split: if_splits)
  next
    case 4
    with Cons.prems x have "sampled_scan nk now 1 0 (Suc i) ?t ?o (Suc n) xs = Some k"
      "length (filter (\<lambda>x. fst x \<noteq> nk) xs) + Suc n \<le> evictionSampleSize" by (simp_all add: Let_def)
    from Cons.IH [OF this] 4 x show ?thesis by (auto split: if_splits)
  qed
qed simp

text \<open>
  A cache of the default policy whose capacity is at most the sample size evicts, for a new key, an
  expired entry or else an entry written longest ago. The time of the last read plays no part: the
  witness evicts the entry that was just read.
\<close>

theorem sampled_evicts_oldest_write:
  assumes "range_ok order" and "s_inv c" and "s_tick now"
    and "map_of (s_data c) k = None" and "s_size c = s_capacity c" and "s_capacity c \<le> 16"
  shows "\<exists>j it. map_of (s_data c) j = Some it \<and>
     (expired (i_expiration it) (clk (unat (s_evictOffset c))) \<or>
      (\<forall>k' it'. map_of (s_data c) k' = Some it' \<longrightarrow> i_createdAt it \<le> i_createdAt it')) \<and>
     (\<forall>k'. s_lookup (s_Set order clk now k v ttl c) k' =
        (if k' = k then Some (v, exp_of now ttl) else if k' = j then None else s_lookup c k'))"
proof -
  let ?it = "\<lparr>i_value = v, i_expiration = exp_of now ttl, i_createdAt = unix_nano now\<rparr>"
  let ?now = "clk (unat (s_evictOffset c))"
  have t: "i_createdAt ?it < max_int64" using assms(3) by (simp add: s_tick_def)
  from s_store_full [OF assms(1,2) t assms(4,5), of clk] obtain j where
    J: "snd (findSampledEvictionCandidate order k ?now c) = Some j"
    and L: "\<forall>k'. map_of (s_data (s_store order clk k ?it c)) k' =
       (if k' = k then Some ?it else if k' = j then None else map_of (s_data c) k')" .
  let ?xs = "order (2 * unat (s_evictOffset c + 1)) (s_data c)"
  have xs: "set ?xs = set (s_data c)" "length ?xs \<le> 16"
    using assms(1,2,5,6) by (auto simp: range_ok_def s_inv_def s_ok_def)
  have ok: "s_ok c" "map_ok (s_data c)" using assms(2) by (simp_all add: s_inv_def s_ok_def)
  have "s_size c div 16 \<le> 1" using zdiv_mono1 [of "s_size c" 16 16] assms(5,6) by simp
  then have st: "s_stride c = 1" by (simp add: s_stride_def evictionSampleSize_def Let_def)
  from candidate_key [OF assms(1) J] obtain ij where ij: "(j, ij) \<in> set (s_data c)" "j \<noteq> k" by (auto dest: map_of_SomeD)
  then have "fallback_scan k ?now max_int64 None 0 ?xs \<noteq> None"
    using ok(1) by (intro fallback_scan_finds [of j ij]) (auto simp: xs(1) s_ok_def)
  then have S: "sampled_scan k ?now 1 0 0 max_int64 None 0 ?xs = Some j"
    using J st by (auto simp: sampled_scan_stride1 [simplified] findSampledEvictionCandidate_def Let_def split: option.splits)
  have "\<exists>it. map_of (s_data c) j = Some it \<and>
     (expired (i_expiration it) ?now \<or>
      (\<forall>k' it'. map_of (s_data c) k' = Some it' \<longrightarrow> i_createdAt it \<le> i_createdAt it'))"
  proof -
    have "length (filter (\<lambda>x. fst x \<noteq> k) ?xs) + 0 \<le> evictionSampleSize"
      using le_trans [OF length_filter_le xs(2)] by (simp add: evictionSampleSize_def)
    from sampled_scan_oldest [OF S this] obtain it where it: "(j, it) \<in> set (s_data c)"
      "expired (i_expiration it) ?now \<or> (\<forall>x \<in> set (s_data c). fst x \<noteq> k \<longrightarrow> i_createdAt it \<le> i_createdAt (snd x))"
      unfolding xs(1) by auto
    have "map_of (s_data c) j = Some it" using it(1) ok(2) by (simp add: map_ok_def)
    moreover have "fst x \<noteq> k" if "x \<in> set (s_data c)" for x using that assms(4) by (force simp: map_of_eq_None_iff)
    ultimately show ?thesis using it(2) by (fastforce dest: map_of_SomeD)
  qed
  moreover have "s_lookup (s_Set order clk now k v ttl c) k' =
        (if k' = k then Some (v, exp_of now ttl) else if k' = j then None else s_lookup c k')" for k'
    using L [THEN spec, of k'] by (simp add: s_Set_def s_lookup_def)
  ultimately show ?thesis by blast
qed

theorem sampled_evicts_oldest_write_witness:
  "let c = cache_run (\<lambda>now. s_Get now now) (s_Set (\<lambda>_ d. d) (\<lambda>_. 4)) s_Delete
             [OSet 1 ''a'' (10 :: int) [], OSet 2 ''b'' 20 [], OGet 3 ''a''] (s_New 2);
       c' = s_Set (\<lambda>_ d. d) (\<lambda>_. 4) 4 ''c'' 30 [] c
   in s_lookup c' ''a'' = None \<and> s_lookup c' ''b'' = Some (20, 0) \<and>
     (\<exists>j it. map_of (s_data c) j = Some it \<and>
       (expired (i_expiration it) 4 \<or> (\<forall>k' it'. map_of (s_data c) k' = Some it' \<longrightarrow> i_createdAt it \<le> i_createdAt it')) \<and>
       (\<forall>k'. s_lookup c' k' = (if k' = ''c'' then Some (30, 0) else if k' = j then None else s_lookup c k')))"
proof -
  let ?c = "cache_run (\<lambda>now. s_Get now now) (s_Set (\<lambda>_ d. d) (\<lambda>_. 4)) s_Delete
             [OSet 1 ''a'' (10 :: int) [], OSet 2 ''b'' 20 [], OGet 3 ''a''] (s_New 2)"
  let ?d = "\<lparr>s_capacity = 2, s_data = [(''a'', \<lparr>i_value = 10 :: int, i_expiration = 0, i_createdAt = 1\<rparr>),
              (''b'', \<lparr>i_value = 20, i_expiration = 0, i_createdAt = 2\<rparr>)], s_size = 2, s_evictOffset = 0,
              s_metrics = \<lparr>c_hits = 1, c_misses = 0, c_evictions = 0\<rparr>\<rparr>"
  have c: "?c = ?d" by code_simp
  have i: "s_inv ?d" by (simp add: s_inv_def s_ok_def map_ok_def max_int64_def)
  have e: "s_lookup (s_Set (\<lambda>_ d. d) (\<lambda>_. 4) 4 ''c'' 30 [] ?d) ''a'' = None \<and>
    s_lookup (s_Set (\<lambda>_ d. d) (\<lambda>_. 4) 4 ''c'' 30 [] ?d) ''b'' = Some (20, 0)" by code_simp
  have x: "exp_of 4 [] = 0" by (simp add: exp_of_def)
  have "\<exists>j it. map_of (s_data ?d) j = Some it \<and>
       (expired (i_expiration it) ((\<lambda>_. 4) (unat (s_evictOffset ?d))) \<or>
        (\<forall>k' it'. map_of (s_data ?d) k' = Some it' \<longrightarrow> i_createdAt it \<le> i_createdAt it')) \<and>
       (\<forall>k'. s_lookup (s_Set (\<lambda>_ d. d) (\<lambda>_. 4) 4 ''c'' 30 [] ?d) k' =
          (if k' = ''c'' then Some (30, exp_of 4 []) else if k' = j then None else s_lookup ?d k'))"
    by (rule sampled_evicts_oldest_write [OF _ i])
      (simp_all add: range_ok_def s_tick_def unix_nano_def wrap64_def max_int64_def)
  then show ?thesis unfolding Let_def c x using e by blast
qed

section \<open>The sweep\<close>

lemma s_sweep1_lookup:
  assumes "s_ok c"
  shows "s_ok (s_sweep1 now c e)"
    and "map_of (s_data (s_sweep1 now c e)) k =
       (if k = fst e \<and> expired (i_expiration (snd e)) now \<and> (\<exists>it. map_of (s_data c) k = Some it \<and> expired (i_expiration it) now)
        then None else map_of (s_data c) k)"
  using s_drop_ok(1,4) [OF assms, of "fst e"] assms by (auto simp: s_sweep1_def split: option.splits)

lemma s_sweep_lookup:
  "s_ok c \<Longrightarrow> s_ok (foldl (s_sweep1 now) c xs) \<and>
     map_of (s_data (foldl (s_sweep1 now) c xs)) k =
       (if (\<exists>it. (k, it) \<in> set xs \<and> expired (i_expiration it) now) \<and>
           (\<exists>it. map_of (s_data c) k = Some it \<and> expired (i_expiration it) now)
        then None else map_of (s_data c) k)"
proof (induction xs arbitrary: c)
  case (Cons e xs)
  note S = s_sweep1_lookup [OF Cons.prems, of now e]
  let ?vis = "\<lambda>xs. \<exists>it. (k, it) \<in> set xs \<and> expired (i_expiration it) now"
  show ?case
  proof (cases "k = fst e \<and> expired (i_expiration (snd e)) now \<and>
      (\<exists>it. map_of (s_data c) k = Some it \<and> expired (i_expiration it) now)")
    case True
    have n: "map_of (s_data (s_sweep1 now c e)) k = None" unfolding S(2) by (rule if_P [OF True])
    have g: "?vis (e # xs) \<and> (\<exists>it. map_of (s_data c) k = Some it \<and> expired (i_expiration it) now)"
      using True by (cases e) auto
    have "s_ok (foldl (s_sweep1 now) (s_sweep1 now c e) xs) \<and>
        map_of (s_data (foldl (s_sweep1 now) (s_sweep1 now c e) xs)) k = None"
      using Cons.IH [OF S(1)] unfolding n by simp
    then show ?thesis unfolding foldl_Cons if_P [OF g] .
  next
    case False
    then have "map_of (s_data (s_sweep1 now c e)) k = map_of (s_data c) k" unfolding S(2) by (rule if_not_P)
    moreover have "?vis (e # xs) \<longleftrightarrow> ?vis xs" if "\<exists>it. map_of (s_data c) k = Some it \<and> expired (i_expiration it) now"
      using that False by (cases e) auto
    ultimately show ?thesis using Cons.IH [OF S(1)] by (simp only: foldl_Cons) argo
  qed
qed simp

text \<open>
  A tick of the background sweeper removes exactly the expired entries, in whatever order the
  entries are visited, and the size counter stays equal to the number of entries.
\<close>

theorem sampled_sweep_removes_expired:
  assumes "range_ok order" and "s_ok c"
  shows "s_lookup (s_sweep order now c) k =
      (case s_lookup c k of None \<Rightarrow> None | Some (v, e) \<Rightarrow> if expired e now then None else Some (v, e)) \<and>
    s_size (s_sweep order now c) = int (length (s_data (s_sweep order now c)))"
proof -
  let ?xs = "order (2 * unat (s_evictOffset c)) (s_data c)"
  have "set ?xs = set (s_data c)" using assms(1) by (simp add: range_ok_def)
  then have vis: "map_of (s_data c) k = Some it \<Longrightarrow> (k, it) \<in> set ?xs" for it by (simp add: map_of_SomeD)
  note S = s_sweep_lookup [OF assms(2), of now ?xs k, folded s_sweep_def]
  have "s_size (s_sweep order now c) = int (length (s_data (s_sweep order now c)))"
    using S [THEN conjunct1] by (simp add: s_ok_def)
  moreover have "s_lookup (s_sweep order now c) k =
      (case s_lookup c k of None \<Rightarrow> None | Some (v, e) \<Rightarrow> if expired e now then None else Some (v, e))"
    using S [THEN conjunct2] vis by (cases "map_of (s_data c) k") (auto simp: s_lookup_def)
  ultimately show ?thesis by blast
qed

theorem sampled_sweep_removes_expired_witness:
  "let c = s_Set (\<lambda>_ d. d) (\<lambda>_. 0) 1 ''a'' (10 :: int) [5] (s_Set (\<lambda>_ d. d) (\<lambda>_. 0) 1 ''b'' 20 [] (s_New 0))
   in s_lookup (s_sweep (\<lambda>_ d. d) 6 c) ''a'' = None \<and> s_size (s_sweep (\<lambda>_ d. d) 6 c) = 1"
proof -
  let ?c = "s_Set (\<lambda>_ d. d) (\<lambda>_. 0) 1 ''a'' (10 :: int) [5] (s_Set (\<lambda>_ d. d) (\<lambda>_. 0) 1 ''b'' 20 [] (s_New 0))"
  have o: "range_ok (\<lambda>_ d. d)" by (simp add: range_ok_def)
  have c: "?c = \<lparr>s_capacity = 0, s_data = [(''b'', \<lparr>i_value = 20, i_expiration = 0, i_createdAt = 1\<rparr>),
      (''a'', \<lparr>i_value = 10, i_expiration = 6, i_createdAt = 1\<rparr>)], s_size = 2, s_evictOffset = 0,
      s_metrics = no_cache_metrics\<rparr>" by code_simp
  have k: "s_ok ?c" unfolding c by (simp add: s_ok_def map_ok_def max_int64_def)
  have "s_lookup ?c ''a'' = Some (10, 6)" "expired 6 6" by code_simp+
  moreover have "length (s_data (s_sweep (\<lambda>_ d. d) 6 ?c)) = 1" by code_simp
  ultimately show ?thesis
    using sampled_sweep_removes_expired [OF o k, of 6 "''a''"] by (simp only: Let_def) simp
qed

end
