(* ===== verification/Cache_Typed.thy ===== *)
theory Cache_Typed
  imports Cache_Queue Cache_Lfu Cache_Sampled
begin

text \<open>
  \<open>TypedCache\<close> (\<open>src/cache/cache.go\<close>): options, construction, lazy initialisation and the dispatch of
  every operation to the back end of the eviction policy. A method call through a nil back end panics:
  the operations return \<^const>\<open>None\<close> then, and the theorems show that it does not happen. The theorems
  state for all four policies what the contract \<open>cache_backend\<close> gives for any history of operations.
\<close>

datatype EvictionPolicy = EvictionSampledLRU | EvictionLRU | EvictionLFU | EvictionFIFO

record 'v typedCache =
  t_policy :: EvictionPolicy
  t_s :: "'v sCache"
  t_evictInterval :: duration
  t_sweeping :: bool
  t_closed :: bool
  t_lru :: "'v qBackend option"
  t_lfu :: "'v lfuBackend option"
  t_fifo :: "'v qBackend option"
  t_initDone :: bool

text \<open>\<open>zero\<close> is Go's zero value of the cached type; it fills memory that is never read.\<close>

definition q_zero :: "'v \<Rightarrow> 'v qNode" where
  "q_zero zero = \<lparr>n_prev = None, n_next = None, q_key = [], q_value = zero, q_expiration = 0\<rparr>"

definition f_zero :: "'v \<Rightarrow> 'v lfuNode" where
  "f_zero zero = \<lparr>n_prev = None, n_next = None, f_key = [], f_value = zero, f_freq = 0, f_expiration = 0\<rparr>"

definition WithEvictionPolicy :: "EvictionPolicy \<Rightarrow> 'v typedCache \<Rightarrow> 'v typedCache" where
  "WithEvictionPolicy policy c = c\<lparr>t_policy := policy\<rparr>"

definition WithEvictionInterval :: "duration \<Rightarrow> 'v typedCache \<Rightarrow> 'v typedCache" where
  "WithEvictionInterval d c = c\<lparr>t_evictInterval := d\<rparr>"

definition WithCapacity :: "int \<Rightarrow> 'v typedCache \<Rightarrow> 'v typedCache" where
  "WithCapacity maxEntries c = c\<lparr>t_s := (t_s c)\<lparr>s_capacity := maxEntries\<rparr>\<rparr>"

definition DefaultCapacity :: int where
  "DefaultCapacity = 0"

definition t_capVal :: "'v typedCache \<Rightarrow> int" where
  "t_capVal c = (let capVal = s_capacity (t_s c) in if capVal \<le> 0 then 128 else capVal)"

definition t_ensureInit :: "'v \<Rightarrow> 'v typedCache \<Rightarrow> 'v typedCache" where
  "t_ensureInit zero c =
     (if t_initDone c then c
      else
        let c1 = (case t_policy c of
             EvictionLRU \<Rightarrow> if t_lru c = None then c\<lparr>t_lru := Some (newQBackend (q_zero zero) (t_capVal c))\<rparr> else c
           | EvictionLFU \<Rightarrow> if t_lfu c = None then c\<lparr>t_lfu := Some (newLFUBackend (f_zero zero) (t_capVal c))\<rparr> else c
           | EvictionFIFO \<Rightarrow> if t_fifo c = None then c\<lparr>t_fifo := Some (newQBackend (q_zero zero) (t_capVal c))\<rparr> else c
           | EvictionSampledLRU \<Rightarrow> c)
        in c1\<lparr>t_initDone := True\<rparr>)"

definition zero_TypedCache :: "'v typedCache" where
  "zero_TypedCache =
     \<lparr>t_policy = EvictionSampledLRU, t_s = s_New DefaultCapacity, t_evictInterval = 0, t_sweeping = False,
      t_closed = False, t_lru = None, t_lfu = None, t_fifo = None, t_initDone = False\<rparr>"

definition NewTypedCache :: "'v \<Rightarrow> ('v typedCache \<Rightarrow> 'v typedCache) list \<Rightarrow> 'v typedCache" where
  "NewTypedCache zero opts =
     (let c = fold (\<lambda>opt c. opt c) opts zero_TypedCache;
          c1 = (case t_policy c of
                  EvictionLRU \<Rightarrow> c\<lparr>t_lru := Some (newQBackend (q_zero zero) (t_capVal c))\<rparr>
                | EvictionLFU \<Rightarrow> c\<lparr>t_lfu := Some (newLFUBackend (f_zero zero) (t_capVal c))\<rparr>
                | EvictionFIFO \<Rightarrow> c\<lparr>t_fifo := Some (newQBackend (q_zero zero) (t_capVal c))\<rparr>
                | EvictionSampledLRU \<Rightarrow> c)
      in if t_evictInterval c1 > 0 then c1\<lparr>t_sweeping := True\<rparr> else c1)"

text \<open>One tick of the background sweep, while it runs; \<open>Close\<close> ends it.\<close>

definition t_sweep_tick :: "'v range_order \<Rightarrow> time \<Rightarrow> 'v typedCache \<Rightarrow> 'v typedCache" where
  "t_sweep_tick order now c = (if t_sweeping c then c\<lparr>t_s := s_sweep order now (t_s c)\<rparr> else c)"

definition t_Close :: "'v typedCache \<Rightarrow> 'v typedCache" where
  "t_Close c = (if t_closed c then c else c\<lparr>t_closed := True, t_sweeping := False\<rparr>)"

definition t_Get :: "'v \<Rightarrow> time \<Rightarrow> time \<Rightarrow> string \<Rightarrow> 'v typedCache \<Rightarrow> ('v typedCache \<times> 'v option) option" where
  "t_Get zero now now' key c0 =
     (let c = t_ensureInit zero c0 in
      case t_policy c of
        EvictionLRU \<Rightarrow> map_option (\<lambda>b. let (b1, r) = lru_Get now key b in (c\<lparr>t_lru := Some b1\<rparr>, r)) (t_lru c)
      | EvictionLFU \<Rightarrow> map_option (\<lambda>b. let (b1, r) = lfu_Get now key b in (c\<lparr>t_lfu := Some b1\<rparr>, r)) (t_lfu c)
      | EvictionFIFO \<Rightarrow> map_option (\<lambda>b. let (b1, r) = fifo_Get now key b in (c\<lparr>t_fifo := Some b1\<rparr>, r)) (t_fifo c)
      | EvictionSampledLRU \<Rightarrow> (let (s, r) = s_Get now now' key (t_s c) in Some (c\<lparr>t_s := s\<rparr>, r)))"

definition t_Set ::
  "'v range_order \<Rightarrow> (nat \<Rightarrow> time) \<Rightarrow> 'v \<Rightarrow> time \<Rightarrow> string \<Rightarrow> 'v \<Rightarrow> duration list \<Rightarrow> 'v typedCache \<Rightarrow> 'v typedCache option" where
  "t_Set order clk zero now key value ttl c0 =
     (let c = t_ensureInit zero c0 in
      case t_policy c of
        EvictionLRU \<Rightarrow> map_option (\<lambda>b. c\<lparr>t_lru := Some (lru_Set now key value ttl b)\<rparr>) (t_lru c)
      | EvictionLFU \<Rightarrow> map_option (\<lambda>b. c\<lparr>t_lfu := Some (lfu_Set now key value ttl b)\<rparr>) (t_lfu c)
      | EvictionFIFO \<Rightarrow> map_option (\<lambda>b. c\<lparr>t_fifo := Some (fifo_Set now key value ttl b)\<rparr>) (t_fifo c)
      | EvictionSampledLRU \<Rightarrow> Some (c\<lparr>t_s := s_Set order clk now key value ttl (t_s c)\<rparr>))"

definition t_Delete :: "'v \<Rightarrow> string \<Rightarrow> 'v typedCache \<Rightarrow> 'v typedCache option" where
  "t_Delete zero key c0 =
     (let c = t_ensureInit zero c0 in
      case t_policy c of
        EvictionLRU \<Rightarrow> map_option (\<lambda>b. c\<lparr>t_lru := Some (q_Delete key b)\<rparr>) (t_lru c)
      | EvictionLFU \<Rightarrow> map_option (\<lambda>b. c\<lparr>t_lfu := Some (lfu_Delete key b)\<rparr>) (t_lfu c)
      | EvictionFIFO \<Rightarrow> map_option (\<lambda>b. c\<lparr>t_fifo := Some (q_Delete key b)\<rparr>) (t_fifo c)
      | EvictionSampledLRU \<Rightarrow> Some (c\<lparr>t_s := s_Delete key (t_s c)\<rparr>))"

definition t_Len :: "'v \<Rightarrow> 'v typedCache \<Rightarrow> int option" where
  "t_Len zero c0 =
     (let c = t_ensureInit zero c0 in
      case t_policy c of
        EvictionLRU \<Rightarrow> map_option q_Len (t_lru c)
      | EvictionLFU \<Rightarrow> map_option lfu_Len (t_lfu c)
      | EvictionFIFO \<Rightarrow> map_option q_Len (t_fifo c)
      | EvictionSampledLRU \<Rightarrow> Some (s_Len (t_s c)))"

definition t_GetOrFetch ::
  "'v range_order \<Rightarrow> (nat \<Rightarrow> time) \<Rightarrow> 'v \<Rightarrow> ctx_err \<Rightarrow> time \<Rightarrow> string \<Rightarrow> duration \<Rightarrow> error + 'v \<Rightarrow> time \<Rightarrow> ctx_err \<Rightarrow>
   'v typedCache \<Rightarrow> ('v typedCache \<times> (error + 'v) \<times> bool) option" where
  "t_GetOrFetch order clk zero ctx1 now1 key ttl fetched now2 ctx2 c0 =
     (let c = t_ensureInit zero c0 in
      case t_policy c of
        EvictionLRU \<Rightarrow> map_option (\<lambda>b.
          let (b1, r) = lru_GetOrFetch ctx1 now1 key ttl fetched now2 ctx2 b in (c\<lparr>t_lru := Some b1\<rparr>, r)) (t_lru c)
      | EvictionLFU \<Rightarrow> map_option (\<lambda>b.
          let (b1, r) = lfu_GetOrFetch ctx1 now1 key ttl fetched now2 ctx2 b in (c\<lparr>t_lfu := Some b1\<rparr>, r)) (t_lfu c)
      | EvictionFIFO \<Rightarrow> map_option (\<lambda>b.
          let (b1, r) = fifo_GetOrFetch ctx1 now1 key ttl fetched now2 ctx2 b in (c\<lparr>t_fifo := Some b1\<rparr>, r)) (t_fifo c)
      | EvictionSampledLRU \<Rightarrow>
          let (s, r) = getOrFetchSampledLRU order clk ctx1 now1 key ttl fetched now2 ctx2 (t_s c)
          in Some (c\<lparr>t_s := s\<rparr>, r))"

section \<open>Histories of a typed cache\<close>

fun t_exec :: "'v range_order \<Rightarrow> (nat \<Rightarrow> time) \<Rightarrow> 'v \<Rightarrow> 'v cache_op \<Rightarrow> 'v typedCache \<Rightarrow> 'v typedCache option" where
  "t_exec order clk zero (OGet now k) c = map_option fst (t_Get zero now now k c)"
| "t_exec order clk zero (OSet now k v ttl) c = t_Set order clk zero now k v ttl c"
| "t_exec order clk zero (ODelete k) c = t_Delete zero k c"

fun t_run :: "'v range_order \<Rightarrow> (nat \<Rightarrow> time) \<Rightarrow> 'v \<Rightarrow> 'v cache_op list \<Rightarrow> 'v typedCache \<Rightarrow> 'v typedCache option" where
  "t_run order clk zero [] c = Some c"
| "t_run order clk zero (op # ops) c = Option.bind (t_exec order clk zero op c) (t_run order clk zero ops)"

lemma ensureInit_sel [simp]:
  "t_policy (t_ensureInit zero c) = t_policy c" "t_s (t_ensureInit zero c) = t_s c"
  by (auto simp: t_ensureInit_def Let_def split: EvictionPolicy.splits)

lemma ensureInit_keeps:
  "t_lru c = Some b \<Longrightarrow> t_lru (t_ensureInit zero c) = Some b"
  "t_lfu c = Some f \<Longrightarrow> t_lfu (t_ensureInit zero c) = Some f"
  "t_fifo c = Some b \<Longrightarrow> t_fifo (t_ensureInit zero c) = Some b"
  by (auto simp: t_ensureInit_def Let_def split: EvictionPolicy.splits)

lemmas t_ops = t_Get_def t_Set_def t_Delete_def t_Len_def Let_def ensureInit_keeps

text \<open>Each policy runs its own back end.\<close>

lemma t_run_lru:
  "t_policy c = EvictionLRU \<Longrightarrow> t_lru c = Some b \<Longrightarrow>
   \<exists>c'. t_run order clk zero ops c = Some c' \<and> t_policy c' = EvictionLRU \<and>
        t_lru c' = Some (cache_run lru_Get lru_Set q_Delete ops b)"
proof (induction ops arbitrary: c b)
  case (Cons op ops)
  then show ?case by (cases op) (simp_all add: t_ops split: prod.splits)
qed simp

lemma t_run_lfu:
  "t_policy c = EvictionLFU \<Longrightarrow> t_lfu c = Some b \<Longrightarrow>
   \<exists>c'. t_run order clk zero ops c = Some c' \<and> t_policy c' = EvictionLFU \<and>
        t_lfu c' = Some (cache_run lfu_Get lfu_Set lfu_Delete ops b)"
proof (induction ops arbitrary: c b)
  case (Cons op ops)
  then show ?case by (cases op) (simp_all add: t_ops split: prod.splits)
qed simp

lemma t_run_fifo:
  "t_policy c = EvictionFIFO \<Longrightarrow> t_fifo c = Some b \<Longrightarrow>
   \<exists>c'. t_run order clk zero ops c = Some c' \<and> t_policy c' = EvictionFIFO \<and>
        t_fifo c' = Some (cache_run fifo_Get fifo_Set q_Delete ops b)"
proof (induction ops arbitrary: c b)
  case (Cons op ops)
  then show ?case by (cases op) (simp_all add: t_ops split: prod.splits)
qed simp

lemma t_run_sampled:
  "t_policy c = EvictionSampledLRU \<Longrightarrow> t_s c = s \<Longrightarrow>
   \<exists>c'. t_run order clk zero ops c = Some c' \<and> t_policy c' = EvictionSampledLRU \<and>
        t_s c' = cache_run (\<lambda>now. s_Get now now) (s_Set order clk) s_Delete ops s"
proof (induction ops arbitrary: c s)
  case (Cons op ops)
  then show ?case by (cases op) (simp_all add: t_ops split: prod.splits)
qed simp

definition t_build :: "'v \<Rightarrow> EvictionPolicy \<Rightarrow> int \<Rightarrow> 'v typedCache" where
  "t_build zero policy capacity = NewTypedCache zero [WithEvictionPolicy policy, WithCapacity capacity]"

definition t_limit :: "int \<Rightarrow> int" where
  "t_limit n = (if n \<le> 0 then 128 else n)"

lemma t_build_sel:
  "t_policy (t_build zero p n) = p"
  "t_s (t_build zero p n) = s_New n"
  "p = EvictionLRU \<Longrightarrow> t_lru (t_build zero p n) = Some (newQBackend (q_zero zero) (t_limit n))"
  "p = EvictionLFU \<Longrightarrow> t_lfu (t_build zero p n) = Some (newLFUBackend (f_zero zero) (t_limit n))"
  "p = EvictionFIFO \<Longrightarrow> t_fifo (t_build zero p n) = Some (newQBackend (q_zero zero) (t_limit n))"
  by (auto simp: t_build_def NewTypedCache_def zero_TypedCache_def WithEvictionPolicy_def WithCapacity_def t_capVal_def t_limit_def
      s_New_def Let_def split: EvictionPolicy.splits)

text \<open>The four runs at once, for a cache built with a policy and a capacity.\<close>

lemma t_run_cases:
  assumes "p = EvictionSampledLRU \<longrightarrow> 0 < n"
  obtains (lru) c where "p = EvictionLRU" and "t_run order clk zero ops (t_build zero p n) = Some c"
      and "t_policy c = EvictionLRU"
      and "t_lru c = Some (cache_run lru_Get lru_Set q_Delete ops (newQBackend (q_zero zero) (t_limit n)))"
  | (lfu) c where "p = EvictionLFU" and "t_run order clk zero ops (t_build zero p n) = Some c"
      and "t_policy c = EvictionLFU"
      and "t_lfu c = Some (cache_run lfu_Get lfu_Set lfu_Delete ops (newLFUBackend (f_zero zero) (t_limit n)))"
  | (fifo) c where "p = EvictionFIFO" and "t_run order clk zero ops (t_build zero p n) = Some c"
      and "t_policy c = EvictionFIFO"
      and "t_fifo c = Some (cache_run fifo_Get fifo_Set q_Delete ops (newQBackend (q_zero zero) (t_limit n)))"
  | (sampled) c where "p = EvictionSampledLRU" and "0 < n" and "t_run order clk zero ops (t_build zero p n) = Some c"
      and "t_policy c = EvictionSampledLRU"
      and "t_s c = cache_run (\<lambda>now. s_Get now now) (s_Set order clk) s_Delete ops (s_New n)"
proof (cases p)
  case EvictionSampledLRU
  with t_run_sampled [OF t_build_sel(1) [of zero p n, unfolded EvictionSampledLRU] refl, of order clk zero ops] assms sampled
  show thesis by (auto simp: t_build_sel(2))
next
  case EvictionLRU
  with t_run_lru [OF t_build_sel(1) [of zero p n, unfolded EvictionLRU] t_build_sel(3) [OF refl], of order clk zero ops] lru
  show thesis by auto
next
  case EvictionLFU
  with t_run_lfu [OF t_build_sel(1) [of zero p n, unfolded EvictionLFU] t_build_sel(4) [OF refl], of order clk zero ops] lfu
  show thesis by auto
next
  case EvictionFIFO
  with t_run_fifo [OF t_build_sel(1) [of zero p n, unfolded EvictionFIFO] t_build_sel(5) [OF refl], of order clk zero ops] fifo
  show thesis by auto
qed

section \<open>Every policy is a bounded, coherent cache\<close>

lemma t_New_caps:
  "q_capacity (newQBackend z (t_limit n)) = t_limit n"
  "f_capacity (newLFUBackend y (t_limit n)) = t_limit n"
  "s_capacity (s_New n) = n"
  by (auto simp: newQBackend_def newLFUBackend_def s_New_def t_limit_def)

text \<open>
  C15: a typed cache of any policy (with a positive capacity for the default policy, whose capacity is
  otherwise unbounded) never panics and never holds more entries than its capacity (128 when the
  capacity of a list policy is not positive), after any sequence of operations, whatever order the
  evictions visit the entries in.
\<close>

theorem typed_cache_bounded:
  assumes "range_ok order" and "p = EvictionSampledLRU \<longrightarrow> 0 < n \<and> (\<forall>op \<in> set ops. op_ok s_tick op)"
  shows "\<exists>c l. t_run order clk zero ops (t_build zero p n) = Some c \<and> t_Len zero c = Some l \<and> 0 \<le> l \<and> l \<le> t_limit n"
proof -
  have "p = EvictionSampledLRU \<longrightarrow> 0 < n" using assms(2) by blast
  then show ?thesis
  proof (cases rule: t_run_cases [where order = order and clk = clk and zero = zero and ops = ops])
    case (lru c)
    then show ?thesis using lru.run_capacity [OF q_inv_New [of "q_zero zero" "t_limit n", THEN conjunct1], of ops]
      by (simp add: t_ops t_New_caps)
  next
    case (lfu c)
    then show ?thesis using lfu.run_capacity [OF f_inv_New [of "f_zero zero" "t_limit n", THEN conjunct1], of ops]
      by (simp add: t_ops t_New_caps)
  next
    case (fifo c)
    then show ?thesis using fifo.run_capacity [OF q_inv_New [of "q_zero zero" "t_limit n", THEN conjunct1], of ops]
      by (simp add: t_ops t_New_caps)
  next
    case (sampled c)
    then show ?thesis using cache_backend.run_capacity [OF sampled_is_cache [OF assms(1), of clk] s_inv_New [OF sampled(2), THEN conjunct1], of ops] assms(2)
      by (simp add: t_ops t_New_caps t_limit_def)
  qed
qed

theorem typed_cache_bounded_witness:
  "\<exists>c l. t_run (\<lambda>_ d. d) (\<lambda>_. 0) (0 :: int) [OSet 5 ''a'' 1 [], OSet 6 ''b'' 2 []] (t_build 0 EvictionSampledLRU 1) = Some c \<and>
     t_Len 0 c = Some l \<and> 0 \<le> l \<and> l \<le> t_limit 1"
  by (rule typed_cache_bounded) (simp_all add: range_ok_def s_tick_def unix_nano_def wrap64_def max_int64_def)

text \<open>
  C16: what a \<open>Get\<close> returns, under any policy and after any sequence of operations, is the value of the
  last \<open>Set\<close> of the key, which was not deleted since and has not expired.
\<close>

theorem typed_cache_coherent:
  assumes "range_ok order" and "p = EvictionSampledLRU \<longrightarrow> 0 < n \<and> (\<forall>op \<in> set ops. op_ok s_tick op)"
    and "t_run order clk zero ops (t_build zero p n) = Some c"
    and "t_Get zero now now k c = Some (c', Some v)"
  shows "\<exists>e. written k ops None = Some (v, e) \<and> \<not> expired e now"
proof -
  have "p = EvictionSampledLRU \<longrightarrow> 0 < n" using assms(2) by blast
  then show ?thesis
  proof (cases rule: t_run_cases [where order = order and clk = clk and zero = zero and ops = ops])
    case (lru d)
    then show ?thesis using lru.get_coherent [OF q_inv_New [of "q_zero zero" "t_limit n", THEN conjunct1] q_inv_New [of "q_zero zero" "t_limit n", THEN conjunct2], of ops now k v] assms(3,4)
      by (auto simp: t_ops split: prod.splits)
  next
    case (lfu d)
    then show ?thesis using lfu.get_coherent [OF f_inv_New [of "f_zero zero" "t_limit n", THEN conjunct1] f_inv_New [of "f_zero zero" "t_limit n", THEN conjunct2], of ops now k v] assms(3,4)
      by (auto simp: t_ops split: prod.splits)
  next
    case (fifo d)
    then show ?thesis using fifo.get_coherent [OF q_inv_New [of "q_zero zero" "t_limit n", THEN conjunct1] q_inv_New [of "q_zero zero" "t_limit n", THEN conjunct2], of ops now k v] assms(3,4)
      by (auto simp: t_ops split: prod.splits)
  next
    case (sampled d)
    have "\<exists>e. written k ops None = Some (v, e) \<and> \<not> s_dead e now"
      using cache_backend.get_coherent [OF sampled_is_cache [OF assms(1), of clk]
          s_inv_New [OF sampled(2), THEN conjunct1] s_inv_New [OF sampled(2), THEN conjunct2], of ops now k v] assms(2,3,4) sampled
      by (auto simp: t_ops split: prod.splits)
    then show ?thesis by (auto simp: s_dead_def expired_def)
  qed
qed

theorem typed_cache_coherent_witness:
  "\<exists>c. t_run (\<lambda>_ d. d) (\<lambda>_. 0) (0 :: int) [OSet 5 ''a'' 1 [], OSet 6 ''b'' 2 [3]] (t_build 0 EvictionSampledLRU 1) = Some c \<and>
     map_option snd (t_Get 0 7 7 ''b'' c) = Some (Some 2) \<and>
     (\<exists>e. written ''b'' [OSet 5 ''a'' 1 [], OSet 6 ''b'' 2 [3]] None = Some (2 :: int, e) \<and> \<not> expired e 7)"
proof -
  let ?ops = "[OSet 5 ''a'' 1 [], OSet 6 ''b'' (2 :: int) [3]]"
  let ?r = "t_run (\<lambda>_ d. d) (\<lambda>_. 0) (0 :: int) ?ops (t_build 0 EvictionSampledLRU 1)"
  have "Option.bind ?r (\<lambda>c. map_option snd (t_Get 0 7 7 ''b'' c)) = Some (Some 2)" by code_simp
  then obtain c c' where c: "?r = Some c" "t_Get 0 7 7 ''b'' c = Some (c', Some 2)"
    by (auto simp: bind_eq_Some_conv)
  have "EvictionSampledLRU = EvictionSampledLRU \<longrightarrow> (0 :: int) < 1 \<and> (\<forall>op \<in> set ?ops. op_ok s_tick op)"
    by (simp add: s_tick_def unix_nano_def wrap64_def max_int64_def)
  from typed_cache_coherent [OF _ this c] c show ?thesis by (simp add: range_ok_def)
qed

text \<open>
  As long as no more distinct keys are set than the capacity allows, nothing is lost under any policy:
  a value stored without a lifetime is returned whenever it is the last one written.
\<close>

theorem typed_cache_keeps_within_capacity:
  assumes "range_ok order" and "p = EvictionSampledLRU \<longrightarrow> 0 < n \<and> (\<forall>op \<in> set ops. op_ok s_tick op)"
    and "int (card (keys_set ops)) \<le> t_limit n" and "written k ops None = Some (v, 0)"
  shows "\<exists>c c'. t_run order clk zero ops (t_build zero p n) = Some c \<and> t_Get zero now now k c = Some (c', Some v)"
proof -
  have "p = EvictionSampledLRU \<longrightarrow> 0 < n" using assms(2) by blast
  then show ?thesis
  proof (cases rule: t_run_cases [where order = order and clk = clk and zero = zero and ops = ops])
    case (lru d)
    then show ?thesis
      using lru.no_loss_within_capacity [OF q_inv_New [of "q_zero zero" "t_limit n", THEN conjunct1] q_inv_New [of "q_zero zero" "t_limit n", THEN conjunct2], of ops k v now] assms(3,4)
      by (auto simp: t_ops t_New_caps split: prod.splits)
  next
    case (lfu d)
    then show ?thesis
      using lfu.no_loss_within_capacity [OF f_inv_New [of "f_zero zero" "t_limit n", THEN conjunct1] f_inv_New [of "f_zero zero" "t_limit n", THEN conjunct2], of ops k v now] assms(3,4)
      by (auto simp: t_ops t_New_caps split: prod.splits)
  next
    case (fifo d)
    then show ?thesis
      using fifo.no_loss_within_capacity [OF q_inv_New [of "q_zero zero" "t_limit n", THEN conjunct1] q_inv_New [of "q_zero zero" "t_limit n", THEN conjunct2], of ops k v now] assms(3,4)
      by (auto simp: t_ops t_New_caps split: prod.splits)
  next
    case (sampled d)
    then show ?thesis
      using cache_backend.no_loss_within_capacity [OF sampled_is_cache [OF assms(1), of clk]
          s_inv_New [OF sampled(2), THEN conjunct1] s_inv_New [OF sampled(2), THEN conjunct2], of ops k v now] assms(2,3,4)
      by (auto simp: t_ops t_New_caps t_limit_def split: prod.splits)
  qed
qed

theorem typed_cache_keeps_within_capacity_witness:
  "\<exists>c c'. t_run (\<lambda>_ d. d) (\<lambda>_. 0) (0 :: int) [OSet 5 ''a'' 1 [], OSet 6 ''b'' 2 [], OSet 7 ''a'' 3 []] (t_build 0 EvictionLFU 2) = Some c \<and>
     t_Get 0 9 9 ''a'' c = Some (c', Some 3)"
  by (rule typed_cache_keeps_within_capacity) (simp_all add: range_ok_def t_limit_def exp_of_def insert_commute)

text \<open>
  \<open>GetOrFetch\<close> with a live context, under any policy: a hit returns the cached value without
  calling the fetch function; a miss calls it once and returns its result, and a value fetched without
  a lifetime is what the next \<open>Get\<close> returns.
\<close>

theorem typed_getOrFetch_correct:
  assumes "range_ok order" and "p = EvictionSampledLRU \<longrightarrow> 0 < n \<and> (\<forall>op \<in> set ops. op_ok s_tick op)" and "s_tick now2"
    and "t_run order clk zero ops (t_build zero p n) = Some c"
    and "t_Get zero now1 now1 k c = Some (c1, g)"
    and "t_GetOrFetch order clk zero None now1 k ttl fetched now2 None c = Some (c', r, called)"
  shows "(called \<longleftrightarrow> g = None) \<and> (\<forall>v. g = Some v \<longrightarrow> r = Inr v) \<and> (g = None \<longrightarrow> r = fetched) \<and>
    (\<forall>v. g = None \<and> fetched = Inr v \<and> ttl \<le> 0 \<longrightarrow> map_option snd (t_Get zero now3 now3 k c') = Some (Some v))"
proof -
  have "p = EvictionSampledLRU \<longrightarrow> 0 < n" using assms(2) by blast
  moreover have x: "exp_of now2 [ttl] = 0" if "ttl \<le> 0" using that by (simp add: exp_of_def)
  ultimately show ?thesis
  proof (cases rule: t_run_cases [where order = order and clk = clk and zero = zero and ops = ops])
    case (lru d)
    let ?b = "cache_run lru_Get lru_Set q_Delete ops (newQBackend (q_zero zero) (t_limit n))"
    have i: "q_inv ?b" using lru.run_inv [OF q_inv_New [THEN conjunct1], of ops] by simp
    obtain b1 where b1: "lru_GetOrFetch None now1 k ttl fetched now2 None ?b = (b1, r, called)"
      "c' = (t_ensureInit zero c)\<lparr>t_lru := Some b1\<rparr>" "snd (lru_Get now1 k ?b) = g"
      using assms(4-6) lru by (auto simp: t_GetOrFetch_def t_ops split: prod.splits)
    note S = lru.getOrFetch_spec [OF i TrueI b1(1) [unfolded lru_GetOrFetch_def]]
    have "map_option snd (t_Get zero now3 now3 k c') = Some (snd (lru_Get now3 k b1))"
      using assms(4) lru by (simp add: b1(2) t_ops split: prod.splits)
    then show ?thesis using S(1-4) b1(3) lru.get_result [OF S(6), of now3 k] x lru.dead_zero [of now3] by auto
  next
    case (lfu d)
    let ?b = "cache_run lfu_Get lfu_Set lfu_Delete ops (newLFUBackend (f_zero zero) (t_limit n))"
    have i: "f_inv ?b" using lfu.run_inv [OF f_inv_New [THEN conjunct1], of ops] by simp
    obtain b1 where b1: "lfu_GetOrFetch None now1 k ttl fetched now2 None ?b = (b1, r, called)"
      "c' = (t_ensureInit zero c)\<lparr>t_lfu := Some b1\<rparr>" "snd (lfu_Get now1 k ?b) = g"
      using assms(4-6) lfu by (auto simp: t_GetOrFetch_def t_ops split: prod.splits)
    note S = lfu.getOrFetch_spec [OF i TrueI b1(1) [unfolded lfu_GetOrFetch_def]]
    have "map_option snd (t_Get zero now3 now3 k c') = Some (snd (lfu_Get now3 k b1))"
      using assms(4) lfu by (simp add: b1(2) t_ops split: prod.splits)
    then show ?thesis using S(1-4) b1(3) lfu.get_result [OF S(6), of now3 k] x lfu.dead_zero [of now3] by auto
  next
    case (fifo d)
    let ?b = "cache_run fifo_Get fifo_Set q_Delete ops (newQBackend (q_zero zero) (t_limit n))"
    have i: "q_inv ?b" using fifo.run_inv [OF q_inv_New [THEN conjunct1], of ops] by simp
    obtain b1 where b1: "fifo_GetOrFetch None now1 k ttl fetched now2 None ?b = (b1, r, called)"
      "c' = (t_ensureInit zero c)\<lparr>t_fifo := Some b1\<rparr>" "snd (fifo_Get now1 k ?b) = g"
      using assms(4-6) fifo by (auto simp: t_GetOrFetch_def t_ops split: prod.splits)
    note S = fifo.getOrFetch_spec [OF i TrueI b1(1) [unfolded fifo_GetOrFetch_def]]
    have "map_option snd (t_Get zero now3 now3 k c') = Some (snd (fifo_Get now3 k b1))"
      using assms(4) fifo by (simp add: b1(2) t_ops split: prod.splits)
    then show ?thesis using S(1-4) b1(3) fifo.get_result [OF S(6), of now3 k] x fifo.dead_zero [of now3] by auto
  next
    case (sampled d)
    let ?b = "cache_run (\<lambda>now. s_Get now now) (s_Set order clk) s_Delete ops (s_New n)"
    have i: "s_inv ?b"
      using cache_backend.run_inv [OF sampled_is_cache [OF assms(1)] s_inv_New [OF sampled(2), THEN conjunct1]] assms(2) sampled(1)
      by blast
    obtain b1 where b1: "getOrFetchSampledLRU order clk None now1 k ttl fetched now2 None ?b = (b1, r, called)"
      "c' = (t_ensureInit zero c)\<lparr>t_s := b1\<rparr>" "snd (s_Get now1 now1 k ?b) = g"
      using assms(4-6) sampled by (auto simp: t_GetOrFetch_def t_ops split: prod.splits)
    note S = getOrFetchSampledLRU_spec [OF assms(1) i assms(3) b1(1)]
    have "map_option snd (t_Get zero now3 now3 k c') = Some (snd (s_Get now3 now3 k b1))"
      using assms(4) sampled by (simp add: b1(2) t_ops split: prod.splits)
    then show ?thesis using S(1-4) b1(3) s_Get_laws(1) [OF S(5), of now3 now3 k] x by (auto simp: s_dead_def)
  qed
qed

theorem typed_getOrFetch_correct_witness:
  "\<exists>c' called. t_GetOrFetch (\<lambda>_ d. d) (\<lambda>_. 0) (0 :: int) None 3 ''k'' 0 (Inr 7) 4 None (t_build 0 EvictionSampledLRU 1) =
     Some (c', Inr 7, called) \<and> called \<and> map_option snd (t_Get 0 9 9 ''k'' c') = Some (Some 7)"
proof -
  let ?c = "t_build (0 :: int) EvictionSampledLRU 1"
  let ?f = "t_GetOrFetch (\<lambda>_ d. d) (\<lambda>_. 0) (0 :: int) None 3 ''k'' 0 (Inr 7) 4 None ?c"
  have "map_option snd (t_Get 0 3 3 ''k'' ?c) = Some None" by code_simp
  then obtain c1 where g: "t_Get 0 3 3 ''k'' ?c = Some (c1, None)" by auto
  have "map_option snd ?f = Some (Inr 7, True)" by code_simp
  then obtain c' where f: "?f = Some (c', Inr 7, True)" by auto
  have "EvictionSampledLRU = EvictionSampledLRU \<longrightarrow> (0 :: int) < 1 \<and> (\<forall>op \<in> set ([] :: int cache_op list). op_ok s_tick op)"
    by simp
  moreover have "s_tick 4" by (simp add: s_tick_def unix_nano_def wrap64_def max_int64_def)
  moreover have "t_run (\<lambda>_ d. d) (\<lambda>_. 0) 0 [] ?c = Some ?c" by simp
  ultimately have "map_option snd (t_Get 0 9 9 ''k'' c') = Some (Some 7)"
    using typed_getOrFetch_correct [where ops = "[]" and p = EvictionSampledLRU and n = 1 and ?now3.0 = 9, OF _ _ _ _ g f]
    by (simp add: range_ok_def)
  with f show ?thesis by blast
qed

end
