(* ===== verification/Idem_Store.thy ===== *)
theory Idem_Store
  imports Go_Prelude
begin

text \<open>
  The records of package \<open>idempotency\<close> (\<open>src/idempotency/store.go\<close>) and its in-memory store
  (\<open>src/idempotency/memory.go\<close>): \<open>Lock\<close>, \<open>Save\<close>, \<open>Unlock\<close>, \<open>Delete\<close>, the two evictions. Every
  operation is one step under the mutex and reads the clock once. \<open>order\<close> is the order in which
  \<open>range\<close> visits the map in \<open>evictOldest\<close>, which breaks ties between equally old records. The locale
  \<open>idem_store\<close> is the contract of the interface \<open>Store\<close> that the middleware relies on.
\<close>

record Response =
  r_StatusCode :: int
  r_Headers :: "(string, string list) gomap"
  r_Body :: string

datatype Status = StatusInProgress | StatusCompleted

record Record =
  rec_Status :: Status
  rec_Response :: "Response option"

record memoryRecord =
  m_Status :: Status
  m_Response :: "Response option"
  m_UpdatedAt :: time

record MemoryStore =
  m_data :: "(string, memoryRecord) gomap"
  m_lockTTL :: duration
  m_responseTTL :: duration
  m_maxEntries :: int

definition WithLockTTL :: "duration \<Rightarrow> MemoryStore \<Rightarrow> MemoryStore" where
  "WithLockTTL ttl s = s\<lparr>m_lockTTL := ttl\<rparr>"

definition WithResponseTTL :: "duration \<Rightarrow> MemoryStore \<Rightarrow> MemoryStore" where
  "WithResponseTTL ttl s = s\<lparr>m_responseTTL := ttl\<rparr>"

definition WithMaxEntries :: "int \<Rightarrow> MemoryStore \<Rightarrow> MemoryStore" where
  "WithMaxEntries maxEntries s = s\<lparr>m_maxEntries := maxEntries\<rparr>"

definition NewMemoryStore :: "(MemoryStore \<Rightarrow> MemoryStore) list \<Rightarrow> MemoryStore" where
  "NewMemoryStore opts =
     fold (\<lambda>opt s. opt s) opts \<lparr>m_data = [], m_lockTTL = 0, m_responseTTL = 0, m_maxEntries = 0\<rparr>"

text \<open>Values do not alias in the model: a deep copy is field by field the same value.\<close>

definition deepCopyResponse :: "Response \<Rightarrow> Response" where
  "deepCopyResponse res =
     \<lparr>r_StatusCode = r_StatusCode res, r_Headers = map (\<lambda>(k, v). (k, v)) (r_Headers res), r_Body = r_Body res\<rparr>"

lemma deepCopyResponse_id [simp]: "deepCopyResponse res = res"
  by (simp add: deepCopyResponse_def)

definition lock_expired :: "MemoryStore \<Rightarrow> time \<Rightarrow> memoryRecord \<Rightarrow> bool" where
  "lock_expired s now rec \<longleftrightarrow>
     m_lockTTL s > 0 \<and> m_Status rec = StatusInProgress \<and> time_sub now (m_UpdatedAt rec) > m_lockTTL s"

definition response_expired :: "MemoryStore \<Rightarrow> time \<Rightarrow> memoryRecord \<Rightarrow> bool" where
  "response_expired s now rec \<longleftrightarrow>
     m_responseTTL s > 0 \<and> m_Status rec = StatusCompleted \<and> time_sub now (m_UpdatedAt rec) > m_responseTTL s"

definition m_evictExpired :: "time \<Rightarrow> MemoryStore \<Rightarrow> MemoryStore \<times> int" where
  "m_evictExpired now s =
     (let gone = (\<lambda>(k, rec). response_expired s now rec \<or> lock_expired s now rec)
      in (s\<lparr>m_data := filter (\<lambda>e. \<not> gone e) (m_data s)\<rparr>, int (length (filter gone (m_data s)))))"

definition EvictExpired :: "time \<Rightarrow> MemoryStore \<Rightarrow> MemoryStore \<times> int" where
  "EvictExpired now s = m_evictExpired now s"

type_synonym rec_order = "(string \<times> memoryRecord) list \<Rightarrow> (string \<times> memoryRecord) list"

fun oldest_scan :: "(string \<times> time) option \<Rightarrow> (string \<times> memoryRecord) list \<Rightarrow> (string \<times> time) option" where
  "oldest_scan old [] = old"
| "oldest_scan old ((k, rec) # rest) =
     (case old of
        None \<Rightarrow> oldest_scan (Some (k, m_UpdatedAt rec)) rest
      | Some (_, oldestTime) \<Rightarrow>
          if m_UpdatedAt rec < oldestTime then oldest_scan (Some (k, m_UpdatedAt rec)) rest
          else oldest_scan old rest)"

definition evictOldest :: "rec_order \<Rightarrow> MemoryStore \<Rightarrow> MemoryStore" where
  "evictOldest order s =
     (case oldest_scan None (order (m_data s)) of
        None \<Rightarrow> s
      | Some (oldestKey, _) \<Rightarrow> if oldestKey \<noteq> [] then s\<lparr>m_data := mdel oldestKey (m_data s)\<rparr> else s)"

text \<open>The eviction that \<open>Lock\<close> and \<open>Save\<close> run before they add a record.\<close>

definition m_makeRoom :: "rec_order \<Rightarrow> time \<Rightarrow> MemoryStore \<Rightarrow> MemoryStore" where
  "m_makeRoom order now s =
     (if m_maxEntries s > 0 \<and> int (length (m_data s)) \<ge> m_maxEntries s then
        let s1 = fst (m_evictExpired now s)
        in if int (length (m_data s1)) \<ge> m_maxEntries s1 then evictOldest order s1 else s1
      else s)"

definition m_Lock :: "rec_order \<Rightarrow> ctx_err \<Rightarrow> time \<Rightarrow> string \<Rightarrow> MemoryStore \<Rightarrow> MemoryStore \<times> (error + bool \<times> Record option)" where
  "m_Lock order ctx now key s =
     (case ctx of
        Some e \<Rightarrow> (s, Inl e)
      | None \<Rightarrow>
          case map_of (m_data s) key of
            Some rec \<Rightarrow>
              if lock_expired s now rec then
                (s\<lparr>m_data := mput key (rec\<lparr>m_UpdatedAt := now\<rparr>) (m_data s)\<rparr>, Inr (False, None))
              else if response_expired s now rec then
                (s\<lparr>m_data := mput key \<lparr>m_Status = StatusInProgress, m_Response = None, m_UpdatedAt = now\<rparr>
                              (mdel key (m_data s))\<rparr>, Inr (False, None))
              else (s, Inr (True, Some \<lparr>rec_Status = m_Status rec,
                                       rec_Response = map_option deepCopyResponse (m_Response rec)\<rparr>))
          | None \<Rightarrow>
              let s1 = m_makeRoom order now s
              in (s1\<lparr>m_data := mput key \<lparr>m_Status = StatusInProgress, m_Response = None, m_UpdatedAt = now\<rparr> (m_data s1)\<rparr>,
                  Inr (False, None)))"

definition m_Save :: "rec_order \<Rightarrow> ctx_err \<Rightarrow> time \<Rightarrow> string \<Rightarrow> Response \<Rightarrow> MemoryStore \<Rightarrow> MemoryStore \<times> ctx_err" where
  "m_Save order ctx now key response s =
     (case ctx of
        Some e \<Rightarrow> (s, Some e)
      | None \<Rightarrow>
          let s1 = (case map_of (m_data s) key of None \<Rightarrow> m_makeRoom order now s | Some _ \<Rightarrow> s)
          in (s1\<lparr>m_data := mput key \<lparr>m_Status = StatusCompleted, m_Response = Some (deepCopyResponse response),
                                      m_UpdatedAt = now\<rparr> (m_data s1)\<rparr>, None))"

definition m_Unlock :: "ctx_err \<Rightarrow> string \<Rightarrow> MemoryStore \<Rightarrow> MemoryStore \<times> ctx_err" where
  "m_Unlock ctx key s =
     (case ctx of
        Some e \<Rightarrow> (s, Some e)
      | None \<Rightarrow>
          (case map_of (m_data s) key of
             Some rec \<Rightarrow> if m_Status rec = StatusInProgress then s\<lparr>m_data := mdel key (m_data s)\<rparr> else s
           | None \<Rightarrow> s, None))"

definition m_Delete :: "ctx_err \<Rightarrow> string \<Rightarrow> MemoryStore \<Rightarrow> MemoryStore \<times> ctx_err" where
  "m_Delete ctx key s =
     (case ctx of Some e \<Rightarrow> (s, Some e) | None \<Rightarrow> (s\<lparr>m_data := mdel key (m_data s)\<rparr>, None))"

definition m_Len :: "MemoryStore \<Rightarrow> int" where
  "m_Len s = int (length (m_data s))"

section \<open>The contract of a store\<close>

text \<open>
  What a client relies on while nothing expires: \<open>lookup\<close> is the record a key has, \<open>during\<close> the times at
  which the contract holds, \<open>kept\<close> what the store gives back of a response. A call with an ended context
  changes nothing and fails.
\<close>

locale idem_store =
  fixes lock :: "ctx_err \<Rightarrow> time \<Rightarrow> string \<Rightarrow> 's \<Rightarrow> 's \<times> (error + bool \<times> Record option)"
    and save :: "ctx_err \<Rightarrow> time \<Rightarrow> string \<Rightarrow> Response \<Rightarrow> 's \<Rightarrow> 's \<times> ctx_err"
    and unlock :: "ctx_err \<Rightarrow> string \<Rightarrow> 's \<Rightarrow> 's \<times> ctx_err"
    and lookup :: "'s \<Rightarrow> string \<Rightarrow> Record option"
    and kept :: "Response \<Rightarrow> Response"
    and during :: "time \<Rightarrow> bool"
    and inv :: "'s \<Rightarrow> bool"
  assumes lock_ended: "\<exists>e'. lock (Some e) now k s = (s, Inl e')"
    and lock_new: "inv s \<Longrightarrow> during now \<Longrightarrow> k \<noteq> [] \<Longrightarrow> lookup s k = None \<Longrightarrow> snd (lock None now k s) = Inr (False, None) \<and>
        inv (fst (lock None now k s)) \<and>
        lookup (fst (lock None now k s)) = (lookup s)(k \<mapsto> \<lparr>rec_Status = StatusInProgress, rec_Response = None\<rparr>)"
    and lock_old: "inv s \<Longrightarrow> during now \<Longrightarrow> k \<noteq> [] \<Longrightarrow> lookup s k = Some r \<Longrightarrow> lock None now k s = (s, Inr (True, Some r))"
    and save_ended: "\<exists>e'. save (Some e) now k resp s = (s, Some e')"
    and save_live: "inv s \<Longrightarrow> during now \<Longrightarrow> k \<noteq> [] \<Longrightarrow> lookup s k \<noteq> None \<Longrightarrow>
        snd (save None now k resp s) = None \<and> inv (fst (save None now k resp s)) \<and>
        lookup (fst (save None now k resp s)) =
          (lookup s)(k \<mapsto> \<lparr>rec_Status = StatusCompleted, rec_Response = Some (kept resp)\<rparr>)"
    and unlock_ended: "\<exists>e'. unlock (Some e) k s = (s, Some e')"
    and unlock_live: "inv s \<Longrightarrow> k \<noteq> [] \<Longrightarrow> inv (fst (unlock None k s)) \<and>
        lookup (fst (unlock None k s)) =
          (case lookup s k of
             Some r \<Rightarrow> if rec_Status r = StatusInProgress then (lookup s)(k := None) else lookup s
           | None \<Rightarrow> lookup s)"
    and completed_response: "inv s \<Longrightarrow> lookup s k = Some r \<Longrightarrow> rec_Status r = StatusCompleted \<Longrightarrow> rec_Response r \<noteq> None"
begin

text \<open>The state after a call with an ended context.\<close>

lemma ended_same [simp]:
  "fst (lock (Some e) now k s) = s" "fst (save (Some e) now k resp s) = s" "fst (unlock (Some e) k s) = s"
  using lock_ended [of e now k s] save_ended [of e now k resp s] unlock_ended [of e k s] by auto

end

section \<open>The in-memory store without limits\<close>

definition m_lookup :: "MemoryStore \<Rightarrow> string \<Rightarrow> Record option" where
  "m_lookup s k = map_option (\<lambda>rec. \<lparr>rec_Status = m_Status rec, rec_Response = m_Response rec\<rparr>) (map_of (m_data s) k)"

definition m_unlimited :: "MemoryStore \<Rightarrow> bool" where
  "m_unlimited s \<longleftrightarrow> m_lockTTL s \<le> 0 \<and> m_responseTTL s \<le> 0 \<and> m_maxEntries s \<le> 0 \<and>
     (\<forall>k rec. map_of (m_data s) k = Some rec \<longrightarrow> m_Status rec = StatusCompleted \<longrightarrow> m_Response rec \<noteq> None)"

lemma m_unlimited_New: "m_unlimited (NewMemoryStore [])" "m_lookup (NewMemoryStore []) = Map.empty"
  by (simp_all add: m_unlimited_def NewMemoryStore_def m_lookup_def fun_eq_iff)

interpretation ms: idem_store "m_Lock order" "m_Save order" m_Unlock m_lookup "\<lambda>resp. resp" "\<lambda>now. True" m_unlimited
proof (unfold_locales, goal_cases)
  case (1 e now k s)
  show ?case by (simp add: m_Lock_def)
next
  case (2 s now k)
  then show ?case by (auto simp: m_Lock_def m_lookup_def m_unlimited_def m_makeRoom_def go_map fun_eq_iff)
next
  case (3 s now k r)
  then show ?case by (auto simp: m_Lock_def m_lookup_def m_unlimited_def lock_expired_def response_expired_def option.map_ident
        cong: option.map_cong)
next
  case (4 e now k resp s)
  show ?case by (simp add: m_Save_def)
next
  case (5 s now k resp)
  then show ?case
    by (auto simp: m_Save_def m_lookup_def m_unlimited_def m_makeRoom_def go_map fun_eq_iff split: option.splits)
next
  case (6 e k s)
  show ?case by (simp add: m_Unlock_def)
next
  case (7 s k)
  then show ?case by (auto simp: m_Unlock_def m_lookup_def m_unlimited_def go_map fun_eq_iff split: option.splits)
next
  case (8 s k r)
  then show ?case by (auto simp: m_lookup_def m_unlimited_def)
qed

section \<open>The limit on the number of records\<close>

datatype idem_op =
    ILock ctx_err time string
  | ISave ctx_err time string Response
  | IUnlock ctx_err string
  | IDelete ctx_err string
  | IEvict time

fun m_exec :: "rec_order \<Rightarrow> idem_op \<Rightarrow> MemoryStore \<Rightarrow> MemoryStore" where
  "m_exec order (ILock ctx now k) s = fst (m_Lock order ctx now k s)"
| "m_exec order (ISave ctx now k resp) s = fst (m_Save order ctx now k resp s)"
| "m_exec order (IUnlock ctx k) s = fst (m_Unlock ctx k s)"
| "m_exec order (IDelete ctx k) s = fst (m_Delete ctx k s)"
| "m_exec order (IEvict now) s = fst (EvictExpired now s)"

fun op_key :: "idem_op \<Rightarrow> string option" where
  "op_key (ILock ctx now k) = Some k"
| "op_key (ISave ctx now k resp) = Some k"
| "op_key (IUnlock ctx k) = Some k"
| "op_key (IDelete ctx k) = Some k"
| "op_key (IEvict now) = None"

definition visits_records :: "rec_order \<Rightarrow> bool" where
  "visits_records order \<longleftrightarrow> (\<forall>d. set (order d) = set d)"

lemma oldest_scan_key: "oldest_scan old xs = Some (k, t) \<Longrightarrow> old = Some (k, t) \<or> k \<in> fst ` set xs"
proof (induction xs arbitrary: old)
  case (Cons x xs)
  then show ?case by (cases x) (fastforce split: option.splits if_splits)
qed simp

lemma oldest_scan_finds: "old \<noteq> None \<or> xs \<noteq> [] \<Longrightarrow> oldest_scan old xs \<noteq> None"
  by (induction old xs rule: oldest_scan.induct) (auto split: option.splits)

definition m_bounded :: "int \<Rightarrow> MemoryStore \<Rightarrow> bool" where
  "m_bounded n s \<longleftrightarrow> map_ok (m_data s) \<and> m_maxEntries s = n \<and> int (length (m_data s)) \<le> n \<and> [] \<notin> keys_of (m_data s)"

lemma m_evictExpired_bounded:
  assumes "m_bounded n s"
  shows "m_bounded n (fst (m_evictExpired now s))"
    and "keys_of (m_data (fst (m_evictExpired now s))) \<subseteq> keys_of (m_data s)"
proof -
  show "keys_of (m_data (fst (m_evictExpired now s))) \<subseteq> keys_of (m_data s)"
    by (auto simp: m_evictExpired_def Let_def keys_of_fst)
  with assms le_trans [OF length_filter_le, of "m_data s" "nat n"] show "m_bounded n (fst (m_evictExpired now s))"
    by (auto simp: m_bounded_def m_evictExpired_def Let_def nat_le_iff le_nat_iff)
qed

lemma evictOldest_room:
  assumes "visits_records order" and "m_bounded n s" and "m_data s \<noteq> []"
  shows "m_bounded n (evictOldest order s)" and "length (m_data (evictOldest order s)) < length (m_data s)"
    and "keys_of (m_data (evictOldest order s)) \<subseteq> keys_of (m_data s)"
proof -
  have o: "set (order (m_data s)) = set (m_data s)" using assms(1) by (simp add: visits_records_def)
  with assms(3) have "order (m_data s) \<noteq> []" by auto
  then obtain k t where k: "oldest_scan None (order (m_data s)) = Some (k, t)"
    using oldest_scan_finds [of None "order (m_data s)"] by auto
  then have m: "k \<in> keys_of (m_data s)" using oldest_scan_key [OF k] o by (simp add: keys_of_fst)
  with assms(2) have e: "evictOldest order s = s\<lparr>m_data := mdel k (m_data s)\<rparr>"
    using k by (auto simp: evictOldest_def m_bounded_def)
  show less: "length (m_data (evictOldest order s)) < length (m_data s)"
    using assms(2) m by (simp add: e m_bounded_def length_mdel_less)
  show "keys_of (m_data (evictOldest order s)) \<subseteq> keys_of (m_data s)" by (auto simp: e go_map)
  show "m_bounded n (evictOldest order s)" using assms(2) less by (auto simp: m_bounded_def e go_map)
qed

lemma m_makeRoom_bounded:
  assumes "visits_records order" and "m_bounded n s" and "0 < n"
  shows "m_bounded n (m_makeRoom order now s)" and "int (length (m_data (m_makeRoom order now s))) < n"
    and "keys_of (m_data (m_makeRoom order now s)) \<subseteq> keys_of (m_data s)"
proof -
  let ?s1 = "fst (m_evictExpired now s)"
  note E = m_evictExpired_bounded [OF assms(2), of now]
  have mx: "m_maxEntries s = n" "m_maxEntries ?s1 = n" using assms(2) E(1) by (simp_all add: m_bounded_def)
  have O: "m_bounded n (evictOldest order ?s1) \<and> int (length (m_data (evictOldest order ?s1))) < n \<and>
      keys_of (m_data (evictOldest order ?s1)) \<subseteq> keys_of (m_data s)" if "n \<le> int (length (m_data ?s1))"
  proof -
    have "m_data ?s1 \<noteq> []" using that assms(3) by auto
    from evictOldest_room [OF assms(1) E(1) this] E show ?thesis by (auto simp: m_bounded_def)
  qed
  have "m_bounded n (m_makeRoom order now s) \<and> int (length (m_data (m_makeRoom order now s))) < n \<and>
      keys_of (m_data (m_makeRoom order now s)) \<subseteq> keys_of (m_data s)"
    using O E assms(2) by (auto simp: m_makeRoom_def Let_def mx)
  then show "m_bounded n (m_makeRoom order now s)" "int (length (m_data (m_makeRoom order now s))) < n"
    "keys_of (m_data (m_makeRoom order now s)) \<subseteq> keys_of (m_data s)" by blast+
qed

text \<open>Adding or overwriting one record, after room was made for a new one.\<close>

lemma m_put_bounded:
  assumes "m_bounded n s" and "k \<noteq> []" and "k \<in> keys_of (m_data s) \<or> int (length (m_data s)) < n"
  shows "m_bounded n (s\<lparr>m_data := mput k rec (m_data s)\<rparr>)"
  using assms by (auto simp: m_bounded_def go_map)

lemma m_exec_bounded:
  assumes "visits_records order" and "m_bounded n s" and "0 < n" and "op_key op \<noteq> Some []"
  shows "m_bounded n (m_exec order op s)"
proof -
  note R = m_makeRoom_bounded(1,2) [OF assms(1-3)]
  have del: "m_bounded n (s\<lparr>m_data := mdel k (m_data s)\<rparr>)" for k
    using assms(2) by (auto simp: m_bounded_def go_map)
  have redo: "m_bounded n (s\<lparr>m_data := mput k r (mdel k (m_data s))\<rparr>)" if "map_of (m_data s) k = Some r'" "k \<noteq> []" for k r r'
    using that assms(2) length_mdel_less [of "m_data s" k] by (auto simp: m_bounded_def go_map mem_keys_of)
  show ?thesis
  proof (cases op)
    case (ILock ctx now k)
    with assms(2,4) R redo show ?thesis
      by (auto simp: m_Lock_def Let_def mem_keys_of intro!: m_put_bounded split: option.splits)
  next
    case (ISave ctx now k resp)
    with assms(2,4) R show ?thesis
      by (auto simp: m_Save_def Let_def mem_keys_of intro!: m_put_bounded split: option.splits)
  next
    case (IUnlock ctx k)
    with assms(2) del show ?thesis by (auto simp: m_Unlock_def split: option.splits)
  next
    case (IDelete ctx k)
    with assms(2) del show ?thesis by (auto simp: m_Delete_def split: option.splits)
  next
    case (IEvict now)
    with m_evictExpired_bounded(1) [OF assms(2)] show ?thesis by (simp add: EvictExpired_def)
  qed
qed

text \<open>
  With a limit on the number of records the in-memory store never holds more than the limit, after
  any sequence of calls with non-empty keys, live or ended contexts, any clock and any lifetimes.
\<close>

theorem memory_store_bounded:
  assumes "visits_records order" and "0 < n" and "\<forall>op \<in> set ops. op_key op \<noteq> Some []"
  shows "m_Len (fold (m_exec order) ops (NewMemoryStore [WithLockTTL lt, WithResponseTTL rt, WithMaxEntries n])) \<le> n"
proof -
  let ?s0 = "NewMemoryStore [WithLockTTL lt, WithResponseTTL rt, WithMaxEntries n]"
  have "m_bounded n (fold (m_exec order) ops s)" if "m_bounded n s" for s
    using assms(3) that
  proof (induction ops arbitrary: s)
    case (Cons op ops)
    have "m_bounded n (m_exec order op s)"
      by (rule m_exec_bounded [OF assms(1) Cons.prems(2) assms(2)]) (use Cons.prems(1) in simp)
    with Cons show ?case by simp
  qed simp
  moreover have "m_bounded n ?s0"
    using assms(2)
    by (simp add: m_bounded_def NewMemoryStore_def WithLockTTL_def WithResponseTTL_def WithMaxEntries_def go_map)
  ultimately show ?thesis by (simp add: m_Len_def m_bounded_def)
qed

theorem memory_store_bounded_witness:
  "m_Len (fold (m_exec (\<lambda>d. d)) [ILock None 1 ''a'', ILock None 2 ''b'', ILock None 3 ''c'']
     (NewMemoryStore [WithLockTTL 0, WithResponseTTL 0, WithMaxEntries 2])) \<le> 2"
  by (rule memory_store_bounded) (simp_all add: visits_records_def)

text \<open>
  The limit has two gaps. A record with the empty key is never evicted once it is the oldest, so the
  limit is passed. And the oldest record may be a lock in progress: with a limit of one, a second key
  evicts the first, whose operation is then started a second time while the first still runs.
\<close>

theorem memory_store_limit_gaps:
  "m_Len (fold (m_exec (\<lambda>d. d)) [ILock None 1 [], ILock None 2 ''a'', ILock None 3 ''b''] (NewMemoryStore [WithMaxEntries 1])) = 3 \<and>
   snd (m_Lock (\<lambda>d. d) None 3 ''a''
     (fold (m_exec (\<lambda>d. d)) [ILock None 1 ''a'', ILock None 2 ''b''] (NewMemoryStore [WithMaxEntries 1]))) = Inr (False, None)"
  by code_simp

end
