(* ===== verification/Idem_Middleware.thy ===== *)
theory Idem_Middleware
  imports Idem_Store Go_Strings
begin

text \<open>
  The HTTP middleware of package \<open>idempotency\<close> (\<open>src/idempotency/middleware.go\<close>). A request is served in
  two steps, because other requests run while the wrapped handler does: \<open>mw_begin\<close> up to the handler,
  \<open>mw_end\<close> after it (also when it panics). \<open>idem_step\<close> interleaves the steps of any number of requests;
  the locale \<open>idem_server\<close> proves what holds of every
  middleware of that shape, and over a store with the contract \<open>idem_store\<close> this middleware is one.
\<close>

record MiddlewareOptions =
  o_HeaderName :: string
  o_EnforceHeader :: bool
  o_IgnoredMethods :: "string list"
  o_StatusCodeMatcher :: "int \<Rightarrow> bool"

definition ascii_upper :: "char \<Rightarrow> char" where
  "ascii_upper c = (let n = of_char c :: nat in if 97 \<le> n \<and> n \<le> 122 then char_of (n - 32) else c)"

definition WithHeaderName :: "string \<Rightarrow> MiddlewareOptions \<Rightarrow> MiddlewareOptions" where
  "WithHeaderName header opt = (if header \<noteq> [] then opt\<lparr>o_HeaderName := header\<rparr> else opt)"

definition WithEnforceHeader :: "bool \<Rightarrow> MiddlewareOptions \<Rightarrow> MiddlewareOptions" where
  "WithEnforceHeader enforce opt = opt\<lparr>o_EnforceHeader := enforce\<rparr>"

definition WithIgnoredMethods :: "string list \<Rightarrow> MiddlewareOptions \<Rightarrow> MiddlewareOptions" where
  "WithIgnoredMethods methods opt = opt\<lparr>o_IgnoredMethods := map (map ascii_upper) methods\<rparr>"

definition WithStatusCodeMatcher :: "(int \<Rightarrow> bool) option \<Rightarrow> MiddlewareOptions \<Rightarrow> MiddlewareOptions" where
  "WithStatusCodeMatcher matcher opt =
     (case matcher of None \<Rightarrow> opt | Some m \<Rightarrow> opt\<lparr>o_StatusCodeMatcher := m\<rparr>)"

definition mw_config :: "(MiddlewareOptions \<Rightarrow> MiddlewareOptions) list \<Rightarrow> MiddlewareOptions" where
  "mw_config opts = fold (\<lambda>opt c. opt c) opts
     \<lparr>o_HeaderName = ''Idempotency-Key'', o_EnforceHeader = False, o_IgnoredMethods = [''GET'', ''HEAD'', ''OPTIONS''],
      o_StatusCodeMatcher = (\<lambda>code. code \<ge> 200 \<and> code < 500)\<rparr>"

text \<open>
  A request has a method and headers. A reply is a status, headers and a body; the handler either
  writes one (status 200 if it never calls \<open>WriteHeader\<close>) or panics. \<open>responseRecorder\<close> passes what the
  handler writes on to the client and keeps it.
\<close>

record http_request =
  q_method :: string
  q_header :: "string \<Rightarrow> string"

type_synonym reply = Response

datatype outcome = Panicked | Wrote Response

datatype mw_action = Answer reply | PassThrough | RunHandler string

definition json_error :: "int \<Rightarrow> string \<Rightarrow> reply" where
  "json_error code body = \<lparr>r_StatusCode = code, r_Headers = [(''Content-Type'', [''application/json''])], r_Body = body\<rparr>"

definition header_add :: "string \<Rightarrow> string \<Rightarrow> (string, string list) gomap \<Rightarrow> (string, string list) gomap" where
  "header_add k v h = mput k ((case map_of h k of Some vs \<Rightarrow> vs | None \<Rightarrow> []) @ [v]) h"

definition serveCachedResponse :: "Response \<Rightarrow> reply" where
  "serveCachedResponse resp =
     \<lparr>r_StatusCode = r_StatusCode resp,
      r_Headers = mput ''X-Cache-Lookup'' [''HIT - Idempotency'']
        (fold (\<lambda>(hKey, hVals) h. fold (header_add hKey) hVals h) (r_Headers resp) []),
      r_Body = r_Body resp\<rparr>"

definition mw_begin ::
  "MiddlewareOptions \<Rightarrow> (string \<Rightarrow> 's \<Rightarrow> 's \<times> (error + bool \<times> Record option)) \<Rightarrow> http_request \<Rightarrow> 's \<Rightarrow> 's \<times> mw_action" where
  "mw_begin cfg lock r s =
     (if q_method r \<in> set (o_IgnoredMethods cfg) then (s, PassThrough)
      else
        let key = trim_space (q_header r (o_HeaderName cfg)) in
        if key = [] then
          if o_EnforceHeader cfg
          then (s, Answer (json_error 400 ''{\"error\":\"missing idempotency key\",\"code\":\"MISSING_IDEMPOTENCY_KEY\"}''))
          else (s, PassThrough)
        else
          case lock key s of
            (s1, Inl _) \<Rightarrow>
              (s1, Answer (json_error 500 ''{\"error\":\"idempotency store error\",\"code\":\"IDEMPOTENCY_STORE_ERROR\"}''))
          | (s1, Inr (True, Some record)) \<Rightarrow>
              (s1,
               if rec_Status record = StatusInProgress
               then Answer (json_error 409 ''{\"error\":\"idempotent operation already in progress\",\"code\":\"IDEMPOTENCY_IN_PROGRESS\"}'')
               else case rec_Response record of Some resp \<Rightarrow> Answer (serveCachedResponse resp) | None \<Rightarrow> RunHandler key)
          | (s1, Inr _) \<Rightarrow> (s1, RunHandler key))"

definition mw_end ::
  "MiddlewareOptions \<Rightarrow> (string \<Rightarrow> Response \<Rightarrow> 's \<Rightarrow> 's \<times> ctx_err) \<Rightarrow> (string \<Rightarrow> 's \<Rightarrow> 's \<times> ctx_err) \<Rightarrow> string \<Rightarrow> outcome \<Rightarrow> 's \<Rightarrow> 's" where
  "mw_end cfg save unlock key out s =
     (case out of
        Panicked \<Rightarrow> fst (unlock key s)
      | Wrote resp \<Rightarrow>
          if o_StatusCodeMatcher cfg (r_StatusCode resp) then fst (save key resp s) else fst (unlock key s))"

section \<open>Concurrent requests\<close>

text \<open>
  The state of the server: the store, the keys whose handlers run, and how many handlers were started
  per key. Requests that bypass the store change nothing here.
\<close>

record 's server =
  v_store :: 's
  v_running :: "string list"
  v_started :: "string \<Rightarrow> nat"

type_synonym ('r, 's) mw_begin_fn = "ctx_err \<Rightarrow> time \<Rightarrow> 'r \<Rightarrow> 's \<Rightarrow> 's \<times> mw_action"
type_synonym ('o, 's) mw_end_fn = "ctx_err \<Rightarrow> time \<Rightarrow> string \<Rightarrow> 'o \<Rightarrow> 's \<Rightarrow> 's"

inductive idem_step ::
  "(time \<Rightarrow> bool) \<Rightarrow> ('r, 's) mw_begin_fn \<Rightarrow> ('o, 's) mw_end_fn \<Rightarrow> 's server \<Rightarrow> 's server \<Rightarrow> bool"
  for during begin_fn end_fn where
  step_answer:
    "during now \<Longrightarrow> begin_fn ctx now r (v_store v) = (s', a) \<Longrightarrow> (\<forall>k. a \<noteq> RunHandler k) \<Longrightarrow>
     idem_step during begin_fn end_fn v (v\<lparr>v_store := s'\<rparr>)"
| step_start:
    "during now \<Longrightarrow> begin_fn ctx now r (v_store v) = (s', RunHandler k) \<Longrightarrow>
     idem_step during begin_fn end_fn v
       (v\<lparr>v_store := s', v_running := k # v_running v, v_started := (v_started v)(k := Suc (v_started v k))\<rparr>)"
| step_end:
    "during now \<Longrightarrow> k \<in> set (v_running v) \<Longrightarrow>
     idem_step during begin_fn end_fn v
       (v\<lparr>v_store := end_fn ctx now k out (v_store v), v_running := remove1 k (v_running v)\<rparr>)"

definition server_start :: "'s \<Rightarrow> 's server" where
  "server_start s = \<lparr>v_store = s, v_running = [], v_started = (\<lambda>_. 0)\<rparr>"

abbreviation in_progress :: Record where
  "in_progress \<equiv> \<lparr>rec_Status = StatusInProgress, rec_Response = None\<rparr>"

text \<open>
  What the two halves of a middleware have to do: the first either leaves the store as it is and runs no
  handler, or marks a key without a record as in progress and runs its handler; the second changes
  nothing but the record of its key. Every middleware of this shape runs at most one handler per key.
\<close>

locale idem_server =
  fixes begin_fn :: "('r, 's) mw_begin_fn"
    and end_fn :: "('o, 's) mw_end_fn"
    and lookup :: "'s \<Rightarrow> string \<Rightarrow> Record option"
    and during :: "time \<Rightarrow> bool"
    and inv :: "'s \<Rightarrow> bool"
  assumes begin_ok: "inv s \<Longrightarrow> during now \<Longrightarrow> begin_fn ctx now r s = (s', a) \<Longrightarrow>
      (s' = s \<and> (\<forall>k. a \<noteq> RunHandler k)) \<or>
      (\<exists>k. k \<noteq> [] \<and> lookup s k = None \<and> a = RunHandler k \<and> inv s' \<and> lookup s' = (lookup s)(k \<mapsto> in_progress))"
    and end_ok: "inv s \<Longrightarrow> during now \<Longrightarrow> k \<noteq> [] \<Longrightarrow> lookup s k = Some in_progress \<Longrightarrow>
      inv (end_fn ctx now k out s) \<and> (\<exists>w. lookup (end_fn ctx now k out s) = (lookup s)(k := w))"
begin

abbreviation srv_step :: "'s server \<Rightarrow> 's server \<Rightarrow> bool" where
  "srv_step \<equiv> idem_step during begin_fn end_fn"

definition srv_inv :: "'s server \<Rightarrow> bool" where
  "srv_inv v \<longleftrightarrow> inv (v_store v) \<and> distinct (v_running v) \<and>
     (\<forall>k \<in> set (v_running v). k \<noteq> [] \<and> lookup (v_store v) k = Some in_progress)"

lemma srv_invD:
  assumes "srv_inv v"
  shows "inv (v_store v)" and "distinct (v_running v)"
    and "k \<in> set (v_running v) \<Longrightarrow> k \<noteq> [] \<and> lookup (v_store v) k = Some in_progress"
  using assms by (auto simp: srv_inv_def)

lemma start_inv: "inv s \<Longrightarrow> srv_inv (server_start s)"
  by (simp add: srv_inv_def server_start_def)

text \<open>A step, with what it does to the records: nothing, a key without a record gets one, or a running key ends.\<close>

lemma step_cases:
  assumes "srv_step v v'" and "srv_inv v"
  obtains (same) "v' = v"
  | (start) k s' where "k \<noteq> []" and "lookup (v_store v) k = None" and "inv s'" and "lookup s' = (lookup (v_store v))(k \<mapsto> in_progress)"
      and "v' = v\<lparr>v_store := s', v_running := k # v_running v, v_started := (v_started v)(k := Suc (v_started v k))\<rparr>"
  | (ended) k s' w where "k \<in> set (v_running v)" and "inv s'" and "lookup s' = (lookup (v_store v))(k := w)"
      and "v' = v\<lparr>v_store := s', v_running := remove1 k (v_running v)\<rparr>"
  using assms(1)
proof cases
  case (step_answer now ctx r s' a)
  with begin_ok [OF srv_invD(1) [OF assms(2)] step_answer(2,3)] same show thesis by auto
next
  case (step_start now ctx r s' k)
  with begin_ok [OF srv_invD(1) [OF assms(2)] step_start(2,3)] start show thesis by auto
next
  case (step_end now k ctx out)
  with srv_invD(3) [OF assms(2) step_end(3)] have k: "k \<noteq> []" "lookup (v_store v) k = Some in_progress" by auto
  from end_ok [OF srv_invD(1) [OF assms(2)] step_end(2) k] step_end(1,3) ended show thesis by blast
qed

lemma step_inv:
  assumes "srv_step v v'" and "srv_inv v"
  shows "srv_inv v'"
  using assms
proof (cases rule: step_cases)
  case (start k s')
  then have "k \<notin> set (v_running v)" using assms(2) by (auto simp: srv_inv_def)
  with start assms(2) show ?thesis by (auto simp: srv_inv_def)
qed (use assms(2) in \<open>auto simp: srv_inv_def\<close>)

text \<open>A record whose handler no longer runs stays as it is, and no handler of the key starts again.\<close>

lemma step_settled:
  assumes "srv_step v v'" and "srv_inv v" and "lookup (v_store v) k = Some r \<and> k \<notin> set (v_running v)"
  shows "(lookup (v_store v') k = Some r \<and> k \<notin> set (v_running v')) \<and> v_started v' k = v_started v k"
  using assms(1,2)
proof (cases rule: step_cases)
  case (ended j s' w)
  with assms(3) have "k \<noteq> j" by auto
  with ended assms(3) show ?thesis by (auto dest: notin_set_remove1)
qed (use assms(3) in auto)

lemma run_inv:
  assumes "srv_step\<^sup>*\<^sup>* v v'" and "srv_inv v"
  shows "srv_inv v'"
  using assms(1,2) by (rule rtranclp_invariant) (rule step_inv)

lemma run_settled:
  assumes "srv_step\<^sup>*\<^sup>* v v'" and "srv_inv v" and "lookup (v_store v) k = Some r \<and> k \<notin> set (v_running v)"
  shows "(lookup (v_store v') k = Some r \<and> k \<notin> set (v_running v')) \<and> v_started v' k = v_started v k"
  using assms(1)
proof (induction rule: rtranclp_induct)
  case (step y z)
  from run_inv [OF step.hyps(1) assms(2)] step_settled [OF step.hyps(2), of k r] step.IH show ?case by simp
qed (use assms(3) in simp)

text \<open>A completed record stays what it is for ever after, and no handler of its key runs.\<close>

lemma completed_for_good:
  assumes "srv_step\<^sup>*\<^sup>* (server_start s0) v" and "inv s0" and "srv_step\<^sup>*\<^sup>* v v'"
    and "lookup (v_store v) k = Some r" and "rec_Status r = StatusCompleted"
  shows "inv (v_store v')" and "lookup (v_store v') k = Some r" and "k \<notin> set (v_running v')" and "v_started v' k = v_started v k"
proof -
  have i: "srv_inv v" by (rule run_inv [OF assms(1) start_inv [OF assms(2)]])
  then have "k \<notin> set (v_running v)" using assms(4,5) by (auto simp: srv_inv_def)
  with run_settled [OF assms(3) i] assms(4) show "lookup (v_store v') k = Some r" "k \<notin> set (v_running v')" "v_started v' k = v_started v k"
    by blast+
  show "inv (v_store v')" using run_inv [OF assms(3) i] by (simp add: srv_inv_def)
qed

text \<open>A key whose handler has gone without touching the store stays in progress for ever.\<close>

lemma abandoned_for_good:
  assumes "srv_inv v" and "k \<in> set (v_running v)" and "srv_step\<^sup>*\<^sup>* (v\<lparr>v_running := remove1 k (v_running v)\<rparr>) v'"
  shows "inv (v_store v')" and "lookup (v_store v') k = Some in_progress" and "v_started v' k = v_started v k"
proof -
  let ?v1 = "v\<lparr>v_running := remove1 k (v_running v)\<rparr>"
  have i: "srv_inv ?v1" and k: "lookup (v_store ?v1) k = Some in_progress \<and> k \<notin> set (v_running ?v1)"
    using assms(1,2) by (auto simp: srv_inv_def)
  from run_settled [OF assms(3) i k] show "lookup (v_store v') k = Some in_progress" "v_started v' k = v_started v k" by simp_all
  show "inv (v_store v')" using run_inv [OF assms(3) i] by (simp add: srv_inv_def)
qed

end

section \<open>The middleware on a store\<close>

sublocale idem_store \<subseteq> http: idem_server
  "\<lambda>ctx now. mw_begin cfg (lock ctx now)" "\<lambda>ctx now. mw_end cfg (save ctx now) (unlock ctx)" lookup during inv for cfg
proof (unfold_locales, goal_cases)
  case (1 s now ctx r s' a)
  let ?k = "trim_space (q_header r (o_HeaderName cfg))"
  show ?case
  proof (cases "q_method r \<in> set (o_IgnoredMethods cfg) \<or> ?k = [] \<or> ctx \<noteq> None")
    case True
    with 1(3) show ?thesis
      using lock_ended [of "the ctx" now ?k s] by (auto simp: mw_begin_def Let_def split: if_splits)
  next
    case False
    show ?thesis
    proof (cases "lookup s ?k")
      case None
      obtain s1 x where l: "lock None now ?k s = (s1, x)" by fastforce
      with lock_new [OF 1(1,2) _ None] False 1(3) None show ?thesis by (auto simp: mw_begin_def Let_def)
    next
      case (Some rr)
      have "rec_Response rr \<noteq> None" if "rec_Status rr \<noteq> StatusInProgress"
        using completed_response [OF 1(1) Some] that by (cases "rec_Status rr") auto
      with lock_old [OF 1(1,2) _ Some] False 1(3) show ?thesis by (auto simp: mw_begin_def Let_def split: if_splits)
    qed
  qed
next
  case (2 s now k ctx out)
  then show ?case
    using save_live [OF 2(1,2,3), of "case out of Wrote r \<Rightarrow> r"] unlock_live [OF 2(1,3)]
    by (cases ctx; cases out) (auto simp: mw_end_def intro: fun_upd_idem [symmetric])
qed

definition has_key :: "MiddlewareOptions \<Rightarrow> http_request \<Rightarrow> string \<Rightarrow> bool" where
  "has_key cfg rq k \<longleftrightarrow> q_method rq \<notin> set (o_IgnoredMethods cfg) \<and>
     trim_space (q_header rq (o_HeaderName cfg)) = k \<and> k \<noteq> []"

context idem_store
begin

lemma begin_old:
  assumes "inv s" and "during now" and "lookup s k = Some r" and "has_key cfg rq k"
  shows "mw_begin cfg (lock None now) rq s =
    (s, if rec_Status r = StatusInProgress
        then Answer (json_error 409 ''{\"error\":\"idempotent operation already in progress\",\"code\":\"IDEMPOTENCY_IN_PROGRESS\"}'')
        else case rec_Response r of Some resp \<Rightarrow> Answer (serveCachedResponse resp) | None \<Rightarrow> RunHandler k)"
  using assms lock_old [OF assms(1,2) _ assms(3)] by (simp add: mw_begin_def has_key_def)

lemma end_ended: "mw_end cfg (save (Some e) now) (unlock (Some e)) k out s = s"
  by (simp add: mw_end_def split: outcome.splits)

end

section \<open>The middleware on the in-memory store\<close>

abbreviation m_step :: "MiddlewareOptions \<Rightarrow> rec_order \<Rightarrow> MemoryStore server \<Rightarrow> MemoryStore server \<Rightarrow> bool" where
  "m_step cfg order \<equiv> idem_step (\<lambda>now. True) (\<lambda>ctx now. mw_begin cfg (m_Lock order ctx now))
     (\<lambda>ctx now. mw_end cfg (m_Save order ctx now) (m_Unlock ctx))"

text \<open>
  C17: with the in-memory store as \<open>NewMemoryStore\<close> makes it without options (no lifetimes of locks and
  responses, no limit on the entries) at most one handler runs per idempotency key at any time, however
  the requests interleave and whatever contexts end. Once a response is stored for a key, no handler of
  the key is started again and every later request with the key whose context has not ended is answered
  with the stored response.
\<close>

theorem idem_at_most_once:
  assumes "(m_step cfg order)\<^sup>*\<^sup>* (server_start (NewMemoryStore [])) v"
  shows "distinct (v_running v) \<and>
    (\<forall>k resp v'. m_lookup (v_store v) k = Some \<lparr>rec_Status = StatusCompleted, rec_Response = Some resp\<rparr> \<and>
       (m_step cfg order)\<^sup>*\<^sup>* v v' \<longrightarrow>
       v_started v' k = v_started v k \<and> k \<notin> set (v_running v') \<and>
       (\<forall>rq now. has_key cfg rq k \<longrightarrow>
          mw_begin cfg (m_Lock order None now) rq (v_store v') = (v_store v', Answer (serveCachedResponse resp))))"
proof -
  have "ms.http.srv_inv v" by (rule ms.http.run_inv [OF assms ms.http.start_inv [OF m_unlimited_New(1)]])
  then have "distinct (v_running v)" by (rule ms.http.srv_invD(2))
  moreover have "v_started v' k = v_started v k \<and> k \<notin> set (v_running v') \<and>
      (\<forall>rq now. has_key cfg rq k \<longrightarrow>
         mw_begin cfg (m_Lock order None now) rq (v_store v') = (v_store v', Answer (serveCachedResponse resp)))"
    if k: "m_lookup (v_store v) k = Some \<lparr>rec_Status = StatusCompleted, rec_Response = Some resp\<rparr>"
      and r: "(m_step cfg order)\<^sup>*\<^sup>* v v'" for k resp v'
    using ms.http.completed_for_good [OF assms m_unlimited_New(1) r k] ms.begin_old [of "v_store v'"] by simp
  ultimately show ?thesis by blast
qed

text \<open>
  A request whose context ends while its handler runs leaves the key locked: the store refuses to
  save or unlock with an ended context and the middleware ignores the error. From then on every request
  with the key is answered with 409 and no handler of the key starts again, if locks have no lifetime.
\<close>

theorem idem_ended_context_blocks_key:
  assumes "(m_step cfg order)\<^sup>*\<^sup>* (server_start (NewMemoryStore [])) v" and "k \<in> set (v_running v)"
    and "(m_step cfg order)\<^sup>*\<^sup>*
      (v\<lparr>v_store := mw_end cfg (m_Save order (Some e) now) (m_Unlock (Some e)) k out (v_store v),
         v_running := remove1 k (v_running v)\<rparr>) v'"
  shows "v_started v' k = v_started v k \<and>
    (\<forall>rq now'. has_key cfg rq k \<longrightarrow> mw_begin cfg (m_Lock order None now') rq (v_store v') =
       (v_store v', Answer (json_error 409 ''{\"error\":\"idempotent operation already in progress\",\"code\":\"IDEMPOTENCY_IN_PROGRESS\"}'')))"
proof -
  have "ms.http.srv_inv v" by (rule ms.http.run_inv [OF assms(1) ms.http.start_inv [OF m_unlimited_New(1)]])
  from ms.http.abandoned_for_good [OF this assms(2) assms(3) [unfolded ms.end_ended, simplified]]
    ms.begin_old [of "v_store v'"] show ?thesis by simp
qed

section \<open>A run\<close>

text \<open>A POST request with a key has started its handler; then the handler has answered with status 201.\<close>

definition demo_request :: http_request where
  "demo_request = \<lparr>q_method = ''POST'', q_header = (\<lambda>h. if h = ''Idempotency-Key'' then ''k'' else [])\<rparr>"

definition demo_reply :: Response where
  "demo_reply = \<lparr>r_StatusCode = 201, r_Headers = [], r_Body = ''ok''\<rparr>"

definition demo_running :: "MemoryStore server" where
  "demo_running =
     \<lparr>v_store = fst (mw_begin (mw_config []) (m_Lock (\<lambda>d. d) None 1) demo_request (NewMemoryStore [])),
      v_running = [''k''], v_started = (\<lambda>_. 0)(''k'' := Suc 0)\<rparr>"

definition demo_done :: "MemoryStore server" where
  "demo_done =
     demo_running\<lparr>v_store := mw_end (mw_config []) (m_Save (\<lambda>d. d) None 2) (m_Unlock None) ''k'' (Wrote demo_reply) (v_store demo_running),
                  v_running := remove1 ''k'' (v_running demo_running)\<rparr>"

lemma demo_running_reach: "(m_step (mw_config []) (\<lambda>d. d))\<^sup>*\<^sup>* (server_start (NewMemoryStore [])) demo_running"
proof -
  have "snd (mw_begin (mw_config []) (m_Lock (\<lambda>d. d) None 1) demo_request (NewMemoryStore [])) = RunHandler ''k''" by code_simp
  then have "mw_begin (mw_config []) (m_Lock (\<lambda>d. d) None 1) demo_request (v_store (server_start (NewMemoryStore []))) =
      (v_store demo_running, RunHandler ''k'')"
    by (simp add: demo_running_def server_start_def prod_eq_iff)
  from step_start [where during = "\<lambda>now. True" and begin_fn = "\<lambda>ctx now. mw_begin (mw_config []) (m_Lock (\<lambda>d. d) ctx now)", OF TrueI this]
  have "m_step (mw_config []) (\<lambda>d. d) (server_start (NewMemoryStore [])) demo_running"
    by (simp add: demo_running_def server_start_def)
  then show ?thesis by blast
qed

lemma demo_done_reach: "(m_step (mw_config []) (\<lambda>d. d))\<^sup>*\<^sup>* (server_start (NewMemoryStore [])) demo_done"
proof -
  have "''k'' \<in> set (v_running demo_running)" by (simp add: demo_running_def)
  from step_end [where during = "\<lambda>now. True" and end_fn = "\<lambda>ctx now. mw_end (mw_config []) (m_Save (\<lambda>d. d) ctx now) (m_Unlock ctx)"
      and ctx = None and now = 2 and out = "Wrote demo_reply", OF TrueI this]
  have "m_step (mw_config []) (\<lambda>d. d) demo_running demo_done" by (simp add: demo_done_def)
  with demo_running_reach show ?thesis by (rule rtranclp.rtrancl_into_rtrancl)
qed

theorem idem_at_most_once_witness:
  "distinct (v_running demo_done) \<and>
   mw_begin (mw_config []) (m_Lock (\<lambda>d. d) None 3) demo_request (v_store demo_done) = (v_store demo_done, Answer (serveCachedResponse demo_reply))"
proof -
  have "m_lookup (v_store demo_done) ''k'' = Some \<lparr>rec_Status = StatusCompleted, rec_Response = Some demo_reply\<rparr>" by code_simp
  moreover have "has_key (mw_config []) demo_request ''k''" by code_simp
  ultimately show ?thesis using idem_at_most_once [OF demo_done_reach] by blast
qed

theorem idem_ended_context_blocks_key_witness:
  "mw_begin (mw_config []) (m_Lock (\<lambda>d. d) None 99) demo_request
     (mw_end (mw_config []) (m_Save (\<lambda>d. d) (Some Canceled) 2) (m_Unlock (Some Canceled)) ''k'' (Wrote demo_reply) (v_store demo_running)) =
   (mw_end (mw_config []) (m_Save (\<lambda>d. d) (Some Canceled) 2) (m_Unlock (Some Canceled)) ''k'' (Wrote demo_reply) (v_store demo_running),
    Answer (json_error 409 ''{\"error\":\"idempotent operation already in progress\",\"code\":\"IDEMPOTENCY_IN_PROGRESS\"}''))"
proof -
  have "''k'' \<in> set (v_running demo_running)" by (simp add: demo_running_def)
  moreover have "has_key (mw_config []) demo_request ''k''" by code_simp
  ultimately show ?thesis
    using idem_ended_context_blocks_key [OF demo_running_reach _ rtranclp.rtrancl_refl, of "''k''"] by auto
qed

end
