(* ===== verification/Retry.thy ===== *)
theory Retry
  imports Float64 Go_Prelude
begin

text \<open>
  Package \<open>retry\<close> (\<open>src/retry/retry.go\<close>): the waits of the four strategies, with the exponential ones
  computed in double precision as in the code, and the retry loop. What the environment decides is an
  argument: the result of the \<open>i\<close>-th call of \<open>fn\<close>, the context's error before it and during the wait
  after it, and the random number of that wait. The loop also returns how often \<open>fn\<close> was called and
  the waits it slept.
\<close>

datatype Strategy = Constant | Linear | Exponential | ExponentialJitter

record retry_Config =
  Attempts :: int
  InitialWait :: duration
  MaxWait :: duration
  rStrategy :: Strategy
  ShouldRetry :: "(error \<Rightarrow> bool) option"

definition ErrMaxAttemptsReached :: error where
  "ErrMaxAttemptsReached = Err ''retry: max attempts reached''"

definition computeWait :: "retry_Config \<Rightarrow> rat \<Rightarrow> int \<Rightarrow> duration" where
  "computeWait cfg rnd attempt =
     (if InitialWait cfg \<le> 0 then 0
      else
        let expAttempt = (if attempt > 30 then 30 else attempt);
            d = (case rStrategy cfg of
                   Linear \<Rightarrow>
                     let attempt' = (if attempt > 1000000 then 1000000 else attempt)
                     in wrap64 (InitialWait cfg * (attempt' + 1))
                 | Exponential \<Rightarrow>
                     let val = fmul (float64_of (InitialWait cfg)) (2 powi expAttempt)
                     in if val \<ge> float64_of max_int64 then max_int64 else trunc_int val
                 | ExponentialJitter \<Rightarrow>
                     let c = fmul (float64_of (InitialWait cfg)) (2 powi expAttempt);
                         ceiling = (if c \<ge> float64_of max_int64 then float64_of max_int64 else c)
                     in trunc_int (fmul rnd ceiling)
                 | Constant \<Rightarrow> InitialWait cfg);
            d1 = (if d < 0 then 0 else d)
        in if MaxWait cfg > 0 \<and> d1 > MaxWait cfg then MaxWait cfg else d1)"

function retry_loop ::
  "retry_Config \<Rightarrow> (error \<Rightarrow> bool) \<Rightarrow> (nat \<Rightarrow> ctx_err) \<Rightarrow> (nat \<Rightarrow> error + 'v) \<Rightarrow> (nat \<Rightarrow> rat) \<Rightarrow> (nat \<Rightarrow> ctx_err) \<Rightarrow>
   nat \<Rightarrow> error \<Rightarrow> nat \<Rightarrow> (error + 'v) \<times> nat \<times> duration list" where
  "retry_loop cfg shouldRetry ctx fn rnd wait_ctx attempts lastErr attempt =
     (if attempt < attempts then
        case ctx attempt of
          Some e \<Rightarrow> (Inl e, attempt, [])
        | None \<Rightarrow>
            case fn attempt of
              Inr v \<Rightarrow> (Inr v, Suc attempt, [])
            | Inl err \<Rightarrow>
                if \<not> shouldRetry err then (Inl err, Suc attempt, [])
                else if attempt = attempts - 1 then (Inl (Join [ErrMaxAttemptsReached, err]), Suc attempt, [])
                else
                  let wait = computeWait cfg (rnd attempt) (int attempt) in
                  if wait > 0 then
                    case wait_ctx attempt of
                      Some e \<Rightarrow> (Inl e, Suc attempt, [])
                    | None \<Rightarrow>
                        let (r, calls, waits) = retry_loop cfg shouldRetry ctx fn rnd wait_ctx attempts err (Suc attempt)
                        in (r, calls, wait # waits)
                  else retry_loop cfg shouldRetry ctx fn rnd wait_ctx attempts err (Suc attempt)
      else (Inl (Join [ErrMaxAttemptsReached, lastErr]), attempt, []))"
  by pat_completeness auto

termination
  by (relation "measure (\<lambda>(_, _, _, _, _, _, attempts, _, attempt). attempts - attempt)") auto

declare retry_loop.simps [simp del]

definition doInternal ::
  "retry_Config \<Rightarrow> (nat \<Rightarrow> ctx_err) \<Rightarrow> (nat \<Rightarrow> error + 'v) \<Rightarrow> (nat \<Rightarrow> rat) \<Rightarrow> (nat \<Rightarrow> ctx_err) \<Rightarrow>
   (error + 'v) \<times> nat \<times> duration list" where
  "doInternal cfg ctx fn rnd wait_ctx =
     (let cfg1 = (if Attempts cfg \<le> 0 then cfg\<lparr>Attempts := 1\<rparr> else cfg);
          shouldRetry = (case ShouldRetry cfg1 of None \<Rightarrow> (\<lambda>_. True) | Some f \<Rightarrow> f)
      in retry_loop cfg1 shouldRetry ctx fn rnd wait_ctx (nat (Attempts cfg1)) (Err []) 0)"

definition DoWithResult where
  "DoWithResult = doInternal"

definition Do ::
  "retry_Config \<Rightarrow> (nat \<Rightarrow> ctx_err) \<Rightarrow> (nat \<Rightarrow> ctx_err) \<Rightarrow> (nat \<Rightarrow> rat) \<Rightarrow> (nat \<Rightarrow> ctx_err) \<Rightarrow> ctx_err \<times> nat \<times> duration list" where
  "Do cfg ctx fn rnd wait_ctx =
     (case doInternal cfg ctx (\<lambda>i. case fn i of None \<Rightarrow> Inr () | Some e \<Rightarrow> Inl e) rnd wait_ctx of
        (Inr _, rest) \<Rightarrow> (None, rest)
      | (Inl e, rest) \<Rightarrow> (Some e, rest))"

section \<open>The waits\<close>

lemma log2_floor_pow2: "0 < x \<Longrightarrow> log2_floor (x * 2 powi k) = log2_floor x + k"
  using log2_floor_bounds [of x]
  by (intro log2_floor_unique) (simp_all add: power_int_add ac_simps)

text \<open>Multiplication by a power of two is exact.\<close>

lemma fl64_pow2:
  assumes "0 \<le> x"
  shows "fl64 (x * 2 powi k) = fl64 x * 2 powi k"
proof (cases "x = 0")
  case False
  with assms have p: "0 < x" "0 < x * 2 powi k" by simp_all
  have "x * 2 powi k / 2 powi (log2_floor x + k - 52) = x / 2 powi (log2_floor x - 52)"
    using powi_cancel [of k "log2_floor x + k - 52"] by (simp add: power_int_diff power_int_add divide_simps)
  moreover have "(2 :: rat) powi (log2_floor x + k - 52) = 2 powi (log2_floor x - 52) * 2 powi k"
    by (simp add: power_int_diff power_int_add)
  ultimately show ?thesis by (simp add: fl64_pos [OF p(1)] fl64_pos [OF p(2)] log2_floor_pow2 [OF p(1)])
qed simp

lemma float64_max_int64: "float64_of max_int64 = 2 ^ 63"
  by code_simp

definition cap_wait :: "retry_Config \<Rightarrow> duration \<Rightarrow> duration" where
  "cap_wait cfg d = (if MaxWait cfg > 0 then min d (MaxWait cfg) else d)"

text \<open>The exponential wait without rounding: up to \<open>2 ^ 53\<close> nanoseconds the product is exact.\<close>

definition exp_wait :: "retry_Config \<Rightarrow> int \<Rightarrow> duration" where
  "exp_wait cfg attempt = min max_int64 (InitialWait cfg * 2 ^ nat (min attempt 30))"

lemma wait_product:
  assumes "0 < InitialWait cfg" and "InitialWait cfg \<le> 2 ^ 53" and "0 \<le> attempt"
  shows "fmul (float64_of (InitialWait cfg)) (2 powi min attempt 30) = of_int (InitialWait cfg * 2 ^ nat (min attempt 30))"
    and "fl64 (of_int (InitialWait cfg * 2 ^ nat (min attempt 30))) = of_int (InitialWait cfg * 2 ^ nat (min attempt 30))"
proof -
  have e: "float64_of (InitialWait cfg) = of_int (InitialWait cfg)" using assms by (simp add: float64_of_exact)
  have p: "(2 :: rat) powi min attempt 30 = 2 ^ nat (min attempt 30)" using assms(3) by (simp add: power_int_def)
  have "fl64 (of_int (InitialWait cfg) * 2 powi min attempt 30) = of_int (InitialWait cfg) * 2 powi min attempt 30"
    using assms fl64_pow2 [of "of_int (InitialWait cfg)" "min attempt 30"] e by (simp add: float64_of_def)
  then show "fmul (float64_of (InitialWait cfg)) (2 powi min attempt 30) = of_int (InitialWait cfg * 2 ^ nat (min attempt 30))"
    "fl64 (of_int (InitialWait cfg * 2 ^ nat (min attempt 30))) = of_int (InitialWait cfg * 2 ^ nat (min attempt 30))"
    by (simp_all add: fmul_def e p)
qed

lemma fl64_2_63: "fl64 (2 ^ 63) = 2 ^ 63"
  using fl64_pow2 [of 1 63] by (simp add: power_int_def)

lemma trunc_int_nonneg: "0 \<le> x \<Longrightarrow> 0 \<le> trunc_int x"
  by (simp add: trunc_int_def)

lemma trunc_int_of_int: "trunc_int (of_int n) = n"
  by (simp add: trunc_int_def flip: of_int_minus)

lemma le_2_63: "(2 ^ 63 :: rat) \<le> of_int n \<longleftrightarrow> max_int64 < n"
proof -
  have e: "(2 ^ 63 :: rat) = of_int (2 ^ 63)" by simp
  show ?thesis unfolding e of_int_le_iff max_int64_def by linarith
qed

lemma fmul_below:
  assumes "0 \<le> rnd" and "rnd < 1" and "0 < n" and "fl64 (of_int n) = of_int n"
  shows "0 \<le> fmul rnd (of_int n)" and "fmul rnd (of_int n) \<le> of_int n"
proof -
  have "0 \<le> rnd * of_int n" "rnd * of_int n \<le> of_int n" using assms(1-3) by (simp_all add: mult_left_le_one_le)
  then show "0 \<le> fmul rnd (of_int n)" "fmul rnd (of_int n) \<le> of_int n"
    using fl64_mono [of "rnd * of_int n" "of_int n"] assms(4) by (simp_all add: fmul_def)
qed

lemma jitter_below:
  assumes "0 \<le> rnd" and "rnd < 1" and "fl64 rnd = rnd" and "0 < n" and "fl64 (of_int n) = of_int n"
  shows "0 \<le> trunc_int (fmul rnd (if (of_int n :: rat) \<ge> 2 ^ 63 then 2 ^ 63 else of_int n))"
    and "trunc_int (fmul rnd (if (of_int n :: rat) \<ge> 2 ^ 63 then 2 ^ 63 else of_int n)) \<le> min max_int64 n"
proof -
  let ?c = "if (of_int n :: rat) \<ge> 2 ^ 63 then 2 ^ 63 else of_int n"
  have c0: "0 \<le> rnd * ?c" using assms(1,4) by simp
  then have "0 \<le> fmul rnd ?c" by (simp add: fmul_def)
  then have t: "trunc_int (fmul rnd ?c) = \<lfloor>fmul rnd ?c\<rfloor>" by (simp add: trunc_int_def)
  show "0 \<le> trunc_int (fmul rnd ?c)" by (rule trunc_int_nonneg [OF \<open>0 \<le> fmul rnd ?c\<close>])
  show "trunc_int (fmul rnd ?c) \<le> min max_int64 n"
  proof (cases "(of_int n :: rat) \<ge> 2 ^ 63")
    case True
    have "fmul rnd (2 ^ 63) = rnd * 2 ^ 63"
      using fl64_pow2 [OF assms(1), of 63] assms(3) by (simp add: fmul_def power_int_def)
    with assms(2) have "fmul rnd (2 ^ 63) < of_int (2 ^ 63)" by simp
    then have "\<lfloor>fmul rnd (2 ^ 63)\<rfloor> < 2 ^ 63" by (simp only: floor_less_iff)
    moreover have "max_int64 < n" using True by (simp only: le_2_63)
    ultimately have "\<lfloor>fmul rnd (2 ^ 63)\<rfloor> \<le> max_int64 \<and> \<lfloor>fmul rnd (2 ^ 63)\<rfloor> \<le> n" unfolding max_int64_def by linarith
    then show ?thesis unfolding if_P [OF True] t [unfolded if_P [OF True]] by (simp only: min.bounded_iff)
  next
    case False
    have "\<lfloor>fmul rnd (of_int n)\<rfloor> \<le> n" using fmul_below(2) [OF assms(1,2,4,5)] by (simp add: floor_le_iff)
    moreover have "n \<le> max_int64" using False unfolding le_2_63 by simp
    ultimately show ?thesis unfolding if_not_P [OF False] t [unfolded if_not_P [OF False]] min.bounded_iff by linarith
  qed
qed

text \<open>
  The wait before the next attempt, for an initial wait of up to \<open>2 ^ 53\<close> nanoseconds (104 days): the
  constant strategy waits \<open>InitialWait\<close>, the linear one \<open>InitialWait * (attempt + 1)\<close> as long as this is
  a duration, the exponential one \<open>InitialWait * 2 ^ attempt\<close> exactly (the exponent stops at 30 and the
  product at the largest duration), and full jitter at most as long as the exponential one; \<open>MaxWait\<close>
  caps every wait and no wait is negative.
\<close>

theorem retry_wait_schedule:
  assumes "0 < InitialWait cfg" and "InitialWait cfg \<le> 2 ^ 53" and "0 \<le> attempt"
    and "0 \<le> rnd" and "rnd < 1" and "fl64 rnd = rnd"
  shows "case rStrategy cfg of
      Constant \<Rightarrow> computeWait cfg rnd attempt = cap_wait cfg (InitialWait cfg)
    | Linear \<Rightarrow> attempt \<le> 1000000 \<and> InitialWait cfg * (attempt + 1) \<le> max_int64 \<longrightarrow>
        computeWait cfg rnd attempt = cap_wait cfg (InitialWait cfg * (attempt + 1))
    | Exponential \<Rightarrow> computeWait cfg rnd attempt = cap_wait cfg (exp_wait cfg attempt)
    | ExponentialJitter \<Rightarrow> 0 \<le> computeWait cfg rnd attempt \<and> computeWait cfg rnd attempt \<le> cap_wait cfg (exp_wait cfg attempt)"
proof -
  let ?n = "InitialWait cfg * 2 ^ nat (min attempt 30)"
  note P = wait_product [OF assms(1-3)]
  have m: "(if attempt > 30 then 30 else attempt) = min attempt 30" by simp
  have n: "0 < ?n" using assms(1) by simp
  show ?thesis
  proof (cases "rStrategy cfg")
    case Constant
    with assms(1) show ?thesis by (simp add: computeWait_def cap_wait_def Let_def min_def)
  next
    case Linear
    have pos: "0 < InitialWait cfg * (attempt + 1)" using assms(1,3) by simp
    then have "wrap64 (InitialWait cfg * (attempt + 1)) = InitialWait cfg * (attempt + 1)"
      if "InitialWait cfg * (attempt + 1) \<le> max_int64"
      using that pos by (intro wrap64_id) (simp add: in_int64_def max_int64_def)
    moreover note pos
    ultimately show ?thesis using Linear assms(1) by (auto simp: computeWait_def cap_wait_def Let_def min_def)
  next
    case Exponential
    have d: "(if (2 ^ 63 :: rat) \<le> of_int ?n then max_int64 else trunc_int (of_int ?n)) = exp_wait cfg attempt"
      unfolding le_2_63 trunc_int_of_int exp_wait_def by (simp only: min_def not_le) auto
    have "0 \<le> exp_wait cfg attempt" using n by (simp add: exp_wait_def max_int64_def)
    with Exponential assms(1) show ?thesis
      unfolding computeWait_def m by (simp only: Let_def Strategy.case P float64_max_int64 d cap_wait_def) (auto simp: min_def)
  next
    case ExponentialJitter
    note J = jitter_below [OF assms(4-6) n P(2)]
    with ExponentialJitter assms(1) show ?thesis
      unfolding computeWait_def m
      by (simp only: Let_def Strategy.case P float64_max_int64 cap_wait_def exp_wait_def) (auto simp: min_def split: if_splits)
  qed
qed

theorem retry_wait_schedule_witness:
  "computeWait \<lparr>Attempts = 5, InitialWait = 100, MaxWait = 0, rStrategy = Exponential, ShouldRetry = None\<rparr> (1 / 2) 3 = 800"
proof -
  have "fl64 (1 / 2) = 1 / 2" by code_simp
  then show ?thesis
    using retry_wait_schedule [of "\<lparr>Attempts = 5, InitialWait = 100, MaxWait = 0, rStrategy = Exponential, ShouldRetry = None\<rparr>" 3 "1 / 2"]
    by (simp add: cap_wait_def exp_wait_def max_int64_def)
qed

text \<open>
  The linear product is not guarded: a long initial wait makes it wrap around, and a negative product
  becomes no wait at all.
\<close>

lemma linear_wait_wraps:
  "computeWait \<lparr>Attempts = 5, InitialWait = 2 ^ 62, MaxWait = 0, rStrategy = Linear, ShouldRetry = None\<rparr> 0 1 = 0"
  by code_simp

section \<open>The loop\<close>

definition should :: "retry_Config \<Rightarrow> error \<Rightarrow> bool" where
  "should cfg = (case ShouldRetry cfg of None \<Rightarrow> (\<lambda>_. True) | Some f \<Rightarrow> f)"

text \<open>How a run from attempt \<open>i\<close> ends: every call but the last failed with an error to retry.\<close>

definition retry_end ::
  "(error \<Rightarrow> bool) \<Rightarrow> (nat \<Rightarrow> ctx_err) \<Rightarrow> (nat \<Rightarrow> error + 'v) \<Rightarrow> (nat \<Rightarrow> ctx_err) \<Rightarrow> nat \<Rightarrow> nat \<Rightarrow> error + 'v \<Rightarrow> nat \<Rightarrow> bool" where
  "retry_end sr ctx fn wctx n i r calls \<longleftrightarrow>
     i \<le> calls \<and> calls \<le> n \<and> (\<forall>j. i \<le> j \<and> Suc j < calls \<longrightarrow> (\<exists>e. fn j = Inl e \<and> sr e)) \<and>
     (case r of
        Inr v \<Rightarrow> i < calls \<and> fn (calls - 1) = Inr v
      | Inl e \<Rightarrow>
          (\<exists>l. calls = n \<and> fn (calls - 1) = Inl l \<and> sr l \<and> e = Join [ErrMaxAttemptsReached, l]) \<or>
          i < calls \<and> fn (calls - 1) = Inl e \<and> \<not> sr e \<or> ctx calls = Some e \<or> wctx (calls - 1) = Some e)"

lemma retry_end_next:
  assumes "retry_end sr ctx fn wctx n (Suc i) r calls" and "fn i = Inl e" and "sr e"
  shows "retry_end sr ctx fn wctx n i r calls"
proof -
  have "\<exists>e. fn j = Inl e \<and> sr e" if "i \<le> j" "Suc j < calls" for j
    using assms that by (cases "j = i") (auto simp: retry_end_def)
  then show ?thesis using assms(1) unfolding retry_end_def by (auto split: sum.splits)
qed

lemma retry_loop_correct:
  assumes "i < n"
  shows "case retry_loop cfg sr ctx fn rnd wctx n e0 i of (r, calls, waits) \<Rightarrow>
     retry_end sr ctx fn wctx n i r calls \<and> length waits < n - i"
  using assms
proof (induction "n - i" arbitrary: i e0)
  case (Suc m)
  have s: "retry_loop cfg sr ctx fn rnd wctx n e0 i =
    (case ctx i of
       Some e \<Rightarrow> (Inl e, i, [])
     | None \<Rightarrow>
         case fn i of
           Inr v \<Rightarrow> (Inr v, Suc i, [])
         | Inl err \<Rightarrow>
             if \<not> sr err then (Inl err, Suc i, [])
             else if i = n - 1 then (Inl (Join [ErrMaxAttemptsReached, err]), Suc i, [])
             else
               let wait = computeWait cfg (rnd i) (int i) in
               if wait > 0 then
                 case wctx i of
                   Some e \<Rightarrow> (Inl e, Suc i, [])
                 | None \<Rightarrow> let (r, calls, waits) = retry_loop cfg sr ctx fn rnd wctx n err (Suc i) in (r, calls, wait # waits)
               else retry_loop cfg sr ctx fn rnd wctx n err (Suc i))"
    using Suc.prems by (subst retry_loop.simps) simp
  show ?case
  proof (cases "ctx i = None \<and> (\<exists>err. fn i = Inl err \<and> sr err) \<and> i \<noteq> n - 1")
    case False
    with Suc.prems show ?thesis
      by (auto simp: s retry_end_def split: option.splits sum.splits)
  next
    case True
    then obtain err where err: "fn i = Inl err" "sr err" by blast
    have "Suc i < n" "m = n - Suc i" using True Suc.prems Suc.hyps(2) by auto
    from Suc.hyps(1) [OF this(2,1), of err] obtain r calls waits where
      L: "retry_loop cfg sr ctx fn rnd wctx n err (Suc i) = (r, calls, waits)"
      "retry_end sr ctx fn wctx n (Suc i) r calls" "length waits < n - Suc i" by (auto split: prod.splits)
    have "retry_end sr ctx fn wctx n i r calls" by (rule retry_end_next [OF L(2) err])
    moreover have "retry_end sr ctx fn wctx n i (Inl e) (Suc i)" if "wctx i = Some e" for e
      using that Suc.prems by (auto simp: retry_end_def)
    ultimately show ?thesis using True err L(1,3) Suc.prems by (auto simp: s Let_def split: option.splits)
  qed
qed simp

text \<open>
  C33: \<open>fn\<close> is called at most \<open>Attempts\<close> times (once if that is not positive), with fewer waits than
  calls allowed; every call but the last failed with an error to retry. The result is the value of the
  last call if it succeeded; else its error joined to \<open>ErrMaxAttemptsReached\<close> if the attempts are used
  up, or the error itself if it must not be retried, or the context's error.
\<close>

theorem retry_calls_and_result:
  assumes "doInternal cfg ctx fn rnd wctx = (r, calls, waits)"
  shows "retry_end (should cfg) ctx fn wctx (nat (max 1 (Attempts cfg))) 0 r calls \<and>
     length waits < nat (max 1 (Attempts cfg))"
proof -
  let ?c = "if Attempts cfg \<le> 0 then cfg\<lparr>Attempts := 1\<rparr> else cfg"
  have n: "Attempts ?c = max 1 (Attempts cfg)" by simp
  have sr: "(case ShouldRetry ?c of None \<Rightarrow> (\<lambda>_. True) | Some f \<Rightarrow> f) = should cfg" by (simp add: should_def)
  have "retry_loop ?c (should cfg) ctx fn rnd wctx (nat (max 1 (Attempts cfg))) (Err []) 0 = (r, calls, waits)"
    using assms unfolding doInternal_def Let_def sr n .
  with retry_loop_correct [where i = 0 and n = "nat (max 1 (Attempts cfg))" and cfg = ?c and sr = "should cfg" and ctx = ctx
      and fn = fn and rnd = rnd and wctx = wctx and ?e0.0 = "Err []"] show ?thesis by simp
qed

theorem retry_calls_and_result_witness:
  "let cfg = \<lparr>Attempts = 2, InitialWait = 0, MaxWait = 0, rStrategy = Constant, ShouldRetry = None\<rparr>;
       fn = (\<lambda>i :: nat. Inl (Err ''down'') :: error + int)
   in doInternal cfg (\<lambda>_. None) fn (\<lambda>_. 0) (\<lambda>_. None) = (Inl (Join [ErrMaxAttemptsReached, Err ''down'']), 2, []) \<and>
      retry_end (should cfg) (\<lambda>_. None) fn (\<lambda>_. None) 2 0 (Inl (Join [ErrMaxAttemptsReached, Err ''down''])) 2"
proof -
  let ?cfg = "\<lparr>Attempts = 2, InitialWait = 0, MaxWait = 0, rStrategy = Constant, ShouldRetry = None\<rparr>"
  let ?fn = "\<lambda>i :: nat. Inl (Err ''down'') :: error + int"
  have d: "doInternal ?cfg (\<lambda>_. None) ?fn (\<lambda>_. 0) (\<lambda>_. None) = (Inl (Join [ErrMaxAttemptsReached, Err ''down'']), 2, [])" by code_simp
  from retry_calls_and_result [OF d] d show ?thesis by simp
qed

end
