(* ===== verification/Pagination.thy ===== *)
theory Pagination
  imports Go_Strings
begin

text \<open>
  Package \<open>pagination\<close>: offset pagination (\<open>src/pagination/pagination.go\<close>), slicing
  (\<open>src/pagination/slice.go\<close>) and cursors (\<open>src/pagination/cursor.go\<close>). Integers are Go's \<open>int\<close>: sums and
  products are wrapped, and a slice expression outside its bounds panics, which is \<^const>\<open>None\<close>. The
  query of a request is a function from parameter names to values. The part of the standard library
  that is used is modelled on bytes: \<open>fmt.Sscanf\<close> with \<open>%d\<close> and \<open>base64.RawURLEncoding\<close>.
\<close>

record Params =
  p_Page :: int
  p_Limit :: int

definition DefaultPage :: int where "DefaultPage = 1"
definition DefaultLimit :: int where "DefaultLimit = 20"
definition MaxLimit :: int where "MaxLimit = 100"

text \<open>\<open>%d\<close>: blanks are skipped, but a newline is an error; a sign, then at least one digit; what follows is left.\<close>

definition sscanf_d :: "string \<Rightarrow> int option" where
  "sscanf_d s =
     (case dropWhile (\<lambda>c. is_space c \<and> c \<noteq> CHR 0x0A) s of
        [] \<Rightarrow> None
      | c # cs \<Rightarrow>
          if c = CHR ''+'' \<or> c = CHR ''-'' then atoi (c # takeWhile (\<lambda>d. digit_of d \<noteq> None) cs)
          else atoi (takeWhile (\<lambda>d. digit_of d \<noteq> None) (c # cs)))"

definition parseIntClamp :: "string \<Rightarrow> int \<Rightarrow> int \<Rightarrow> int \<Rightarrow> int" where
  "parseIntClamp s def minVal maxVal =
     (if s = [] then def
      else case sscanf_d s of
             None \<Rightarrow> def
           | Some v \<Rightarrow> if v < minVal then def else if v > maxVal then maxVal else v)"

definition Parse :: "(string \<Rightarrow> string) \<Rightarrow> Params" where
  "Parse query = \<lparr>p_Page = parseIntClamp (query ''page'') DefaultPage 1 10000,
                  p_Limit = parseIntClamp (query ''limit'') DefaultLimit 1 MaxLimit\<rparr>"

definition p_Offset :: "Params \<Rightarrow> int" where
  "p_Offset p = wrap64 ((p_Page p - 1) * p_Limit p)"

definition TotalPages :: "int \<Rightarrow> int \<Rightarrow> int" where
  "TotalPages total_n limit =
     (if limit \<le> 0 \<or> total_n \<le> 0 then 0
      else let pages = total_n div limit in if total_n mod limit \<noteq> 0 then pages + 1 else pages)"

record 'a TypedResponse =
  t_Items :: "'a list"
  t_Total :: int
  t_Page :: int
  t_PLimit :: int
  t_Pages :: int

definition NewTypedResponse :: "'a list \<Rightarrow> int \<Rightarrow> Params \<Rightarrow> 'a TypedResponse" where
  "NewTypedResponse items total_n p =
     \<lparr>t_Items = items, t_Total = total_n, t_Page = p_Page p, t_PLimit = p_Limit p, t_Pages = TotalPages total_n (p_Limit p)\<rparr>"

section \<open>Slices\<close>

record PageMeta =
  g_Page :: int
  g_Limit :: int
  g_Total :: int
  g_TotalPages :: int
  g_HasMore :: bool

text \<open>\<open>items[start:end]\<close>.\<close>

definition go_slice :: "'a list \<Rightarrow> int \<Rightarrow> int \<Rightarrow> 'a list option" where
  "go_slice items i j =
     (if 0 \<le> i \<and> i \<le> j \<and> j \<le> int (length items) then Some (take (nat (j - i)) (drop (nat i) items)) else None)"

definition PaginateSlice :: "'a list \<Rightarrow> int \<Rightarrow> int \<Rightarrow> ('a list \<times> PageMeta) option" where
  "PaginateSlice items page limit =
     (let total_n = int (length items) in
      if limit \<le> 0 then
        Some (items, \<lparr>g_Page = 1, g_Limit = total_n, g_Total = total_n, g_TotalPages = 1, g_HasMore = False\<rparr>)
      else
        let page = (if page \<le> 0 then 1 else page);
            pages = wrap64 (total_n + limit - 1) sdiv limit;
            totalPages = (if pages = 0 then 1 else pages);
            start = wrap64 ((page - 1) * limit)
        in if start \<ge> total_n then
             Some ([], \<lparr>g_Page = page, g_Limit = limit, g_Total = total_n, g_TotalPages = totalPages, g_HasMore = False\<rparr>)
           else
             let e = wrap64 (start + limit);
                 end' = (if e > total_n then total_n else e)
             in map_option (\<lambda>xs. (xs, \<lparr>g_Page = page, g_Limit = limit, g_Total = total_n, g_TotalPages = totalPages,
                                       g_HasMore = end' < total_n\<rparr>)) (go_slice items start end'))"

section \<open>Cursors\<close>

definition b64_alphabet :: string where
  "b64_alphabet = ''ABCDEFGHIJKLMNOPQRSTUVWXYZabcdefghijklmnopqrstuvwxyz0123456789-_''"

definition b64_enc :: "nat \<Rightarrow> char" where
  "b64_enc n = b64_alphabet ! n"

fun b64_find :: "char \<Rightarrow> nat \<Rightarrow> string \<Rightarrow> nat option" where
  "b64_find c n [] = None"
| "b64_find c n (a # as) = (if a = c then Some n else b64_find c (Suc n) as)"

definition b64_dec :: "char \<Rightarrow> nat option" where
  "b64_dec c = b64_find c 0 b64_alphabet"

fun b64_encode :: "nat list \<Rightarrow> nat list" where
  "b64_encode [] = []"
| "b64_encode [a] = [a div 4, a mod 4 * 16]"
| "b64_encode [a, b] = [a div 4, a mod 4 * 16 + b div 16, b mod 16 * 4]"
| "b64_encode (a # b # c # rest) =
     (a div 4) # (a mod 4 * 16 + b div 16) # (b mod 16 * 4 + c div 64) # (c mod 64) # b64_encode rest"

fun b64_decode :: "nat list \<Rightarrow> nat list option" where
  "b64_decode [] = Some []"
| "b64_decode [w] = None"
| "b64_decode [w, x] = Some [w * 4 + x div 16]"
| "b64_decode [w, x, y] = Some [w * 4 + x div 16, x mod 16 * 16 + y div 4]"
| "b64_decode (w # x # y # z # rest) =
     map_option (\<lambda>bs. (w * 4 + x div 16) # (x mod 16 * 16 + y div 4) # (y mod 4 * 64 + z) # bs) (b64_decode rest)"

definition EncodeCursor :: "string \<Rightarrow> string" where
  "EncodeCursor val = map b64_enc (b64_encode (map of_char val))"

text \<open>The decoder skips carriage returns and newlines; a byte outside the alphabet is an error.\<close>

definition DecodeCursor :: "string \<Rightarrow> string option" where
  "DecodeCursor cursor =
     (let cs = filter (\<lambda>c. c \<noteq> CHR 0x0A \<and> c \<noteq> CHR 0x0D) cursor in
      if \<exists>c \<in> set cs. b64_dec c = None then None
      else map_option (map char_of) (b64_decode (map (\<lambda>c. the (b64_dec c)) cs)))"

record CursorParams =
  c_Cursor :: string
  c_Limit :: int

definition ParseCursor :: "(string \<Rightarrow> string) \<Rightarrow> CursorParams" where
  "ParseCursor query = \<lparr>c_Cursor = query ''cursor'', c_Limit = parseIntClamp (query ''limit'') DefaultLimit 1 MaxLimit\<rparr>"

record 'a TypedCursorResponse =
  u_Items :: "'a list"
  u_NextCursor :: string
  u_HasMore :: bool
  u_Limit :: int

definition NewTypedCursorResponse :: "'a list \<Rightarrow> string \<Rightarrow> bool \<Rightarrow> int \<Rightarrow> 'a TypedCursorResponse" where
  "NewTypedCursorResponse items nextCursor hasMore limit =
     \<lparr>u_Items = items, u_NextCursor = nextCursor, u_HasMore = hasMore, u_Limit = limit\<rparr>"

section \<open>The cursor round trip\<close>

lemma b64_encode_bound: "\<forall>b \<in> set bs. b < 256 \<Longrightarrow> \<forall>w \<in> set (b64_encode bs). w < 64"
  by (induction bs rule: b64_encode.induct) (auto simp: less_mult_imp_div_less)

lemma b64_decode_encode: "\<forall>b \<in> set bs. b < 256 \<Longrightarrow> b64_decode (b64_encode bs) = Some bs"
  by (induction bs rule: b64_encode.induct) auto

lemma b64_alphabet_ok:
  "length b64_alphabet = 64" "\<forall>n \<in> {..<64}. b64_dec (b64_enc n) = Some n \<and> b64_enc n \<noteq> CHR 0x0A \<and> b64_enc n \<noteq> CHR 0x0D"
  by code_simp+

text \<open>
  C34: decoding an encoded cursor gives the identifier back, for every string of bytes.
\<close>

theorem cursor_roundtrip: "DecodeCursor (EncodeCursor val) = Some val"
proof -
  let ?bs = "map of_char val :: nat list"
  have "\<forall>b \<in> set ?bs. b < 256" by auto
  then have w: "\<forall>n \<in> set (b64_encode ?bs). n < 64" and d: "b64_decode (b64_encode ?bs) = Some ?bs"
    by (rule b64_encode_bound, rule b64_decode_encode)
  have a: "b64_dec (b64_enc n) = Some n" "b64_enc n \<noteq> CHR 0x0A \<and> b64_enc n \<noteq> CHR 0x0D" if "n \<in> set (b64_encode ?bs)" for n
    using b64_alphabet_ok(2) w that by auto
  then have "filter (\<lambda>c. c \<noteq> CHR 0x0A \<and> c \<noteq> CHR 0x0D) (EncodeCursor val) = EncodeCursor val"
    unfolding EncodeCursor_def by (intro filter_True) auto
  moreover have "map (\<lambda>c. the (b64_dec c)) (EncodeCursor val) = b64_encode ?bs"
    unfolding EncodeCursor_def map_map using a(1) by (intro map_idI) simp
  moreover have "\<not> (\<exists>c \<in> set (EncodeCursor val). b64_dec c = None)" using a(1) by (auto simp: EncodeCursor_def)
  ultimately show ?thesis by (simp add: DecodeCursor_def Let_def d comp_def)
qed

section \<open>Requests\<close>

lemma parseIntClamp_range: "minVal \<le> def \<Longrightarrow> def \<le> maxVal \<Longrightarrow> minVal \<le> parseIntClamp s def minVal maxVal \<and> parseIntClamp s def minVal maxVal \<le> maxVal"
  by (auto simp: parseIntClamp_def split: option.splits)

section \<open>Pages\<close>

lemma TotalPages_ceiling:
  assumes "0 < limit" and "0 < total_n"
  shows "TotalPages total_n limit = (total_n + limit - 1) div limit" and "1 \<le> TotalPages total_n limit"
    and "(TotalPages total_n limit - 1) * limit < total_n" and "total_n \<le> TotalPages total_n limit * limit"
proof -
  let ?q = "total_n div limit" and ?r = "total_n mod limit"
  have e: "total_n = ?q * limit + ?r" "0 \<le> ?r" "?r < limit" using assms by simp_all
  have "(total_n + limit - 1) div limit = (if ?r = 0 then ?q else ?q + 1)"
  proof (cases "?r = 0")
    case True
    then have s: "total_n + limit - 1 = limit - 1 + ?q * limit" using e(1) by simp
    have "(limit - 1 + ?q * limit) div limit = ?q" using assms(1) by (simp add: div_pos_pos_trivial)
    then show ?thesis unfolding s [symmetric] using True by simp
  next
    case False
    have s: "total_n + limit - 1 = (?r - 1) + (?q + 1) * limit" using e(1) by (simp add: algebra_simps)
    have "((?r - 1) + (?q + 1) * limit) div limit = ?q + 1"
      using assms(1) False e(2,3) by (simp only: div_mult_self1) (simp add: div_pos_pos_trivial)
    then show ?thesis unfolding s [symmetric] using False by simp
  qed
  then show t: "TotalPages total_n limit = (total_n + limit - 1) div limit" using assms by (simp add: TotalPages_def Let_def)
  have "0 \<le> ?q" using assms by (simp add: pos_imp_zdiv_nonneg_iff)
  moreover have "?q \<noteq> 0 \<or> ?r \<noteq> 0"
  proof (rule ccontr)
    assume "\<not> ?thesis"
    then have "total_n = 0" using e(1) by (simp only: de_Morgan_disj not_not)
    with assms(2) show False by simp
  qed
  ultimately show "1 \<le> TotalPages total_n limit"
    using assms unfolding TotalPages_def Let_def by (simp only: not_le if_False simp_thms split: if_split) linarith
  have tp: "TotalPages total_n limit = (if ?r = 0 then ?q else ?q + 1)" using assms by (simp add: TotalPages_def Let_def)
  have x: "(?q - 1) * limit = ?q * limit - limit" "(?q + 1 - 1) * limit = ?q * limit" "(?q + 1) * limit = ?q * limit + limit"
    by (simp_all add: algebra_simps)
  have "(TotalPages total_n limit - 1) * limit < total_n \<and> total_n \<le> TotalPages total_n limit * limit"
  proof (cases "?r = 0")
    case True
    have t: "TotalPages total_n limit = ?q" unfolding tp by (rule if_P [OF True])
    show ?thesis unfolding t x(1) using e(1) True assms(1) by (intro conjI; linarith)
  next
    case False
    have t: "TotalPages total_n limit = ?q + 1" unfolding tp by (rule if_not_P [OF False])
    show ?thesis unfolding t x(2,3) using e False assms(1) by (intro conjI; linarith)
  qed
  then show "(TotalPages total_n limit - 1) * limit < total_n" "total_n \<le> TotalPages total_n limit * limit" by blast+
qed

lemma page_eq:
  assumes "0 < limit" and "int (length items) + limit \<le> max_int64" and "1 \<le> page" and "(page - 1) * limit < int (length items)"
  shows "PaginateSlice items page limit =
    Some (take (nat limit) (drop (nat ((page - 1) * limit)) items),
      \<lparr>g_Page = page, g_Limit = limit, g_Total = int (length items), g_TotalPages = TotalPages (int (length items)) limit,
       g_HasMore = page * limit < int (length items)\<rparr>)"
proof -
  let ?n = "int (length items)" and ?s = "(page - 1) * limit"
  have s0: "0 \<le> ?s" using assms(1,3) by simp
  have n0: "0 < ?n" using s0 assms(4) by linarith
  have w: "wrap64 ?s = ?s" "wrap64 (?n + limit - 1) = ?n + limit - 1" "wrap64 (?s + limit) = ?s + limit"
    using s0 n0 assms(1,2,4) unfolding max_int64_def by (intro wrap64_id, unfold in_int64_def, linarith)+
  have e: "?s + limit = page * limit" by (simp add: algebra_simps)
  note T = TotalPages_ceiling [OF assms(1) n0]
  have "take (nat ((if ?n < ?s + limit then ?n else ?s + limit) - ?s)) (drop (nat ?s) items) = take (nat limit) (drop (nat ?s) items)"
    using s0 assms(4) by (auto simp: nat_diff_distrib min_def)
  moreover have "0 \<le> ?s" "?s \<le> (if ?n < ?s + limit then ?n else ?s + limit)" "(if ?n < ?s + limit then ?n else ?s + limit) \<le> ?n"
    using s0 assms(1,4) by auto
  moreover have "(?n + limit - 1) sdiv limit = TotalPages ?n limit" using T(1) n0 assms(1) by (simp add: sdiv_nonneg_div)
  moreover have "((if ?n < ?s + limit then ?n else ?s + limit) < ?n) = (page * limit < ?n)" by (simp add: e)
  ultimately show ?thesis using assms(1,3,4) T(2)
    by (simp add: PaginateSlice_def Let_def w go_slice_def del: mult_le_0_iff)
qed

lemma concat_chunks: "concat (map (\<lambda>i. take l (drop (i * l) xs)) [0..<n]) = take (n * l) xs"
proof (induction n)
  case (Suc n)
  then show ?case using take_add [of "n * l" l xs] by (simp add: add.commute)
qed simp

text \<open>
  The pages of a slice are a partition of it: concatenated from the first to the last they give the
  items back, each has at most \<open>limit\<close> items, and \<open>HasMore\<close> says whether another page follows. The
  total and the limit together must not pass the largest integer.
\<close>

theorem pages_partition:
  assumes "0 < limit" and "int (length items) + limit \<le> max_int64"
  shows "concat (map (\<lambda>p. fst (the (PaginateSlice items (int p + 1) limit))) [0..<nat (TotalPages (int (length items)) limit)]) = items \<and>
    (\<forall>p. 1 \<le> p \<and> p \<le> TotalPages (int (length items)) limit \<longrightarrow>
      (\<exists>xs m. PaginateSlice items p limit = Some (xs, m) \<and> int (length xs) \<le> limit \<and>
         g_HasMore m = (p < TotalPages (int (length items)) limit) \<and> g_TotalPages m = TotalPages (int (length items)) limit))"
proof (cases "items = []")
  case True
  then show ?thesis by (auto simp: TotalPages_def)
next
  case False
  let ?n = "int (length items)"
  let ?t = "TotalPages ?n limit"
  have n0: "0 < ?n" using False by simp
  note T = TotalPages_ceiling [OF assms(1) n0]
  have lt: "(p - 1) * limit < ?n" if "p \<le> ?t" for p
    using mult_right_mono [of "p - 1" "?t - 1" limit] that assms(1) T(3) by linarith
  have more: "p * limit < ?n \<longleftrightarrow> p < ?t" for p
  proof
    assume "p < ?t"
    then show "p * limit < ?n" using lt [of "p + 1"] by simp
  next
    assume "p * limit < ?n"
    with T(4) assms(1) show "p < ?t" using mult_less_cancel_right_pos [of limit p ?t] by linarith
  qed
  have pg: "fst (the (PaginateSlice items (int p + 1) limit)) = take (nat limit) (drop (p * nat limit) items)" if "p < nat ?t" for p
  proof -
    have "(int p + 1 - 1) * limit < ?n" using lt [of "int p + 1"] that by linarith
    from page_eq [OF assms _ this] assms(1) show ?thesis by (simp add: nat_mult_distrib)
  qed
  have "concat (map (\<lambda>p. fst (the (PaginateSlice items (int p + 1) limit))) [0..<nat ?t]) =
      concat (map (\<lambda>p. take (nat limit) (drop (p * nat limit) items)) [0..<nat ?t])"
    by (rule arg_cong [where f = concat], rule map_cong [OF refl]) (simp add: pg)
  also have "\<dots> = take (nat ?t * nat limit) items" by (rule concat_chunks)
  also have "\<dots> = items"
  proof (rule take_all)
    have "int (nat ?t * nat limit) = ?t * limit" using T(2) assms(1) by simp
    with T(4) show "length items \<le> nat ?t * nat limit" by linarith
  qed
  finally have "concat (map (\<lambda>p. fst (the (PaginateSlice items (int p + 1) limit))) [0..<nat ?t]) = items" .
  moreover have "\<exists>xs m. PaginateSlice items p limit = Some (xs, m) \<and> int (length xs) \<le> limit \<and>
         g_HasMore m = (p < ?t) \<and> g_TotalPages m = ?t" if "1 \<le> p \<and> p \<le> ?t" for p
    using page_eq [OF assms, of p] lt [of p] more [of p] that assms(1) by simp
  ultimately show ?thesis by blast
qed

theorem pages_partition_witness:
  "concat (map (\<lambda>p. fst (the (PaginateSlice ''abcde'' (int p + 1) 2))) [0..<3]) = ''abcde''"
  using pages_partition [of 2 "''abcde''"] by (simp add: max_int64_def TotalPages_def)

text \<open>A page number whose offset wraps around to a negative start panics.\<close>

lemma page_overflow_panics: "PaginateSlice ''abc'' (2 ^ 62 + 1) 2 = None"
  by code_simp

lemma Parse_offset_in_range: "0 \<le> p_Offset (Parse q) \<and> p_Offset (Parse q) \<le> 999900"
proof -
  have "1 \<le> p_Page (Parse q)" "p_Page (Parse q) \<le> 10000" "1 \<le> p_Limit (Parse q)" "p_Limit (Parse q) \<le> 100"
    using parseIntClamp_range [of 1 DefaultPage 10000] parseIntClamp_range [of 1 DefaultLimit MaxLimit]
    by (simp_all add: Parse_def DefaultPage_def DefaultLimit_def MaxLimit_def)
  then have "0 \<le> (p_Page (Parse q) - 1) * p_Limit (Parse q)" "(p_Page (Parse q) - 1) * p_Limit (Parse q) \<le> 9999 * 100"
    by (simp, intro mult_mono) simp_all
  then show ?thesis by (simp add: p_Offset_def wrap64_id in_int64_def)
qed

end
