(* ===== verification/Timeutil.thy ===== *)
theory Timeutil
  imports Go_Prelude
begin

text \<open>
  The calendar part of package \<open>timeutil\<close> (\<open>src/timeutil/timeutil.go\<close>): Hinnant's day number and the
  arithmetic of business days. A date is its day number since January 1, 1970 (a Thursday), which
  \<open>AddDate(0, 0, k)\<close> moves by \<open>k\<close> and whose remainder modulo 7 is the weekday; the day number itself is
  proved to be the one of the Gregorian calendar. A \<open>time.Time\<close> is an instant with the date it has in
  its location; the time of day, and days that a location skips or repeats at a change of its offset, are
  not part of the arithmetic of business days. Integer division truncates in Go; \<open>daysFromCivil\<close> writes out the correction.
\<close>

definition daysFromCivil :: "int \<Rightarrow> int \<Rightarrow> int \<Rightarrow> int" where
  "daysFromCivil y m d =
     (let yInt = (if m \<le> 2 then y - 1 else y);
          era0 = yInt sdiv 400;
          era = (if yInt < 0 \<and> yInt smod 400 \<noteq> 0 then era0 - 1 else era0);
          yoe = yInt - era * 400;
          doy0 = (if m > 2 then m - 3 else m + 9);
          doy = (153 * doy0 + 2) sdiv 5 + d - 1;
          doe = yoe * 365 + yoe sdiv 4 - yoe sdiv 100 + doy
      in era * 146097 + doe - 719468)"

text \<open>\<open>time.Weekday\<close>: Sunday is 0.\<close>

definition Weekday :: "int \<Rightarrow> int" where
  "Weekday d = (d + 4) mod 7"

definition weekend :: "int \<Rightarrow> bool" where
  "weekend d \<longleftrightarrow> Weekday d = 6 \<or> Weekday d = 0"

function bd_forward :: "int \<Rightarrow> nat \<Rightarrow> int" where
  "bd_forward d rem =
     (if rem > 0 then let d1 = d + 1 in bd_forward d1 (if \<not> weekend d1 then rem - 1 else rem) else d)"
  by pat_completeness auto

termination
proof (relation "measure (\<lambda>(d, rem). 3 * rem + (if Weekday d = 5 then 2 else if Weekday d = 6 then 1 else 0))", goal_cases)
  case (2 d rem x)
  then show ?case
    by (simp add: weekend_def Weekday_def) (auto, presburger+)
qed simp

declare bd_forward.simps [simp del]

function bd_backward :: "int \<Rightarrow> nat \<Rightarrow> int" where
  "bd_backward d rem =
     (if rem > 0 then let d1 = d - 1 in bd_backward d1 (if \<not> weekend d1 then rem - 1 else rem) else d)"
  by pat_completeness auto

termination
proof (relation "measure (\<lambda>(d, rem). 3 * rem + (if Weekday d = 1 then 2 else if Weekday d = 0 then 1 else 0))", goal_cases)
  case (2 d rem x)
  then show ?case
    by (simp add: weekend_def Weekday_def) (auto, presburger+)
qed simp

declare bd_backward.simps [simp del]

definition addPositiveBusinessDays :: "int \<Rightarrow> int \<Rightarrow> int" where
  "addPositiveBusinessDays d n =
     (let (d1, n1) = (if Weekday d = 6 then (d + 2, n - 1) else if Weekday d = 0 then (d + 1, n - 1) else (d, n))
      in if n1 > 0 then
           let weeks = n1 div 5; rem = n1 mod 5; d2 = (if weeks > 0 then d1 + weeks * 7 else d1)
           in bd_forward d2 (nat rem)
         else d1)"

definition subtractBusinessDays :: "int \<Rightarrow> int \<Rightarrow> int" where
  "subtractBusinessDays d n =
     (let (d1, n1) = (if Weekday d = 0 then (d - 2, n + 1) else if Weekday d = 6 then (d - 1, n + 1) else (d, n))
      in if n1 < 0 then
           let pos = - n1; weeks = pos div 5; rem = pos mod 5; d2 = (if weeks > 0 then d1 - weeks * 7 else d1)
           in bd_backward d2 (nat rem)
         else d1)"

definition AddBusinessDays :: "int \<Rightarrow> int \<Rightarrow> int" where
  "AddBusinessDays t n =
     (if n = 0 then t
      else
        let maxDays = 1000000; n1 = (if n > maxDays then maxDays else if n < - maxDays then - maxDays else n)
        in if n1 > 0 then addPositiveBusinessDays t n1 else subtractBusinessDays t n1)"

record gotime =
  gt_instant :: time
  gt_year :: int
  gt_month :: int
  gt_day :: int

fun bd_count :: "int \<Rightarrow> nat \<Rightarrow> int" where
  "bd_count cur 0 = 0"
| "bd_count cur (Suc rem) = (if \<not> weekend cur then 1 else 0) + bd_count (cur + 1) rem"

text \<open>The case where \<open>start\<close> is before \<open>end\<close>; the other one calls it with the arguments swapped.\<close>

definition bd_between_pos :: "gotime \<Rightarrow> gotime \<Rightarrow> int" where
  "bd_between_pos start end' =
     (let day1 = daysFromCivil (gt_year start) (gt_month start) (gt_day start);
          day2 = daysFromCivil (gt_year end') (gt_month end') (gt_day end')
      in if day1 = day2 then 0
         else
           let totalDays = day2 - day1; weeks = totalDays sdiv 7; rem = totalDays smod 7
           in weeks * 5 + bd_count day1 (nat rem))"

definition BusinessDaysBetween :: "gotime \<Rightarrow> gotime \<Rightarrow> int" where
  "BusinessDaysBetween start end' =
     (if gt_instant start = gt_instant end' then 0
      else if gt_instant end' < gt_instant start then - bd_between_pos end' start
      else bd_between_pos start end')"

section \<open>The day number\<close>

definition leap :: "int \<Rightarrow> bool" where
  "leap y \<longleftrightarrow> y mod 4 = 0 \<and> (y mod 100 \<noteq> 0 \<or> y mod 400 = 0)"

definition days_in_month :: "int \<Rightarrow> int \<Rightarrow> int" where
  "days_in_month y m = (if m = 2 then if leap y then 29 else 28 else if m \<in> {4, 6, 9, 11} then 30 else 31)"

text \<open>The Gregorian calendar: the date after a date.\<close>

definition next_date :: "int \<times> int \<times> int \<Rightarrow> int \<times> int \<times> int" where
  "next_date = (\<lambda>(y, m, d).
     if d < days_in_month y m then (y, m, d + 1) else if m < 12 then (y, m + 1, 1) else (y + 1, 1, 1))"

lemma floor_era: "(if y < 0 \<and> y smod 400 \<noteq> 0 then y sdiv 400 - 1 else y sdiv 400) = y div (400 :: int)"
proof (cases "y < 0")
  case True
  define z where "z = - y"
  have z: "y = - z" "0 < z" using True by (simp_all add: z_def)
  have "y sdiv 400 = - (z div 400)" "y smod 400 = - (z mod 400)"
    using z(2) by (simp_all add: z(1) sdiv_nonneg_div smod_mod_positive)
  moreover have "y div 400 = (if z mod 400 = 0 then - (z div 400) else - (z div 400) - 1)"
    unfolding z(1) by (rule zdiv_zminus1_eq_if) simp
  ultimately show ?thesis using True by simp
qed (simp add: sdiv_nonneg_div)

lemma mod400_div:
  "y mod 400 div 4 = y div 4 - 100 * (y div 400)" "y mod 400 div 100 = y div 100 - 4 * (y div (400 :: int))"
proof -
  have e: "y mod 400 + y div 400 * 100 * 4 = y" "y mod 400 + y div 400 * 4 * 100 = y" by simp_all
  have "(y mod 400 + y div 400 * 100 * 4) div 4 = y div 400 * 100 + y mod 400 div 4"
    "(y mod 400 + y div 400 * 4 * 100) div 100 = y div 400 * 4 + y mod 400 div 100" by (simp_all only: div_mult_self1 zero_neq_numeral [symmetric] not_False_eq_True)
  then show "y mod 400 div 4 = y div 4 - 100 * (y div 400)" "y mod 400 div 100 = y div 100 - 4 * (y div 400)"
    unfolding e by linarith+
qed

lemma daysFromCivil_div:
  "daysFromCivil y m d =
     (let yy = (if m \<le> 2 then y - 1 else y); mp = (if m > 2 then m - 3 else m + 9)
      in 365 * yy + yy div 4 - yy div 100 + yy div 400 + (153 * mp + 2) sdiv 5 + d - 719469)"
proof -
  have "v div 400 * 146097 + ((v - v div 400 * 400) * 365 + (v - v div 400 * 400) sdiv 4 - (v - v div 400 * 400) sdiv 100 + doy) - 719468 =
      365 * v + v div 4 - v div 100 + v div 400 + doy - 719468" for v doy :: int
  proof -
    have m: "v - v div 400 * 400 = v mod 400" by (simp add: minus_div_mult_eq_mod)
    have s: "(v mod 400) sdiv 4 = v div 4 - 100 * (v div 400)" "(v mod 400) sdiv 100 = v div 100 - 4 * (v div 400)"
      by (simp_all only: sdiv_nonneg_div mod400_div pos_mod_sign zero_less_numeral)
    have "v = v div 400 * 400 + v mod 400" by simp
    then show ?thesis unfolding m s by linarith
  qed
  then show ?thesis unfolding daysFromCivil_def Let_def floor_era by (simp add: algebra_simps)
qed

lemma div_step: "0 < k \<Longrightarrow> y div k - (y - 1) div k = (if y mod k = 0 then 1 else 0 :: int)"
proof -
  assume k: "0 < k"
  have y: "y = y mod k + y div k * k" by simp
  show ?thesis
  proof (cases "y mod k = 0")
    case True
    then have "y - 1 = (k - 1) + (y div k - 1) * k" using y by (simp add: algebra_simps)
    also have "\<dots> div k = y div k - 1 + (k - 1) div k" using k by simp
    finally show ?thesis using True k by (simp add: div_pos_pos_trivial)
  next
    case False
    then have r: "0 \<le> y mod k - 1" "y mod k - 1 < k" using k pos_mod_sign [of k y] pos_mod_bound [of k y] by linarith+
    have "y - 1 = (y mod k - 1) + y div k * k" using y by simp
    also have "\<dots> div k = y div k + (y mod k - 1) div k" using k by simp
    finally show ?thesis using False r by (simp add: div_pos_pos_trivial)
  qed
qed

lemma leap_bools:
  "(q \<longrightarrow> p) \<Longrightarrow> (r \<longrightarrow> q) \<Longrightarrow> (if p \<and> (\<not> q \<or> r) then 366 else 365) =
     365 + (if p then 1 else 0) - (if q then 1 else 0) + (if r then 1 else 0 :: int)"
  by (cases p; cases q; cases r) simp_all

text \<open>The length of a year counted from March.\<close>

lemma year_length:
  "(365 * y + y div 4 - y div 100 + y div 400) - (365 * (y - 1) + (y - 1) div 4 - (y - 1) div 100 + (y - 1) div 400) =
     (if leap y then 366 else 365)"
proof -
  have m: "y mod 100 mod 4 = y mod 4" "y mod 400 mod 100 = y mod 100" by (simp_all add: mod_mod_cancel)
  have D: "y div 4 - (y - 1) div 4 = (if y mod 4 = 0 then 1 else 0)"
    "y div 100 - (y - 1) div 100 = (if y mod 100 = 0 then 1 else 0)"
    "y div 400 - (y - 1) div 400 = (if y mod 400 = 0 then 1 else 0)" by (simp_all only: div_step zero_less_numeral)
  have leap: "(if leap y then 366 else 365) = 365 + (if y mod 4 = 0 then 1 else 0) - (if y mod 100 = 0 then 1 else 0) +
      (if y mod 400 = 0 then 1 else 0 :: int)"
    unfolding leap_def
  proof (rule leap_bools)
    show "y mod 100 = 0 \<longrightarrow> y mod 4 = 0" using m(1) by (metis mod_0)
    show "y mod 400 = 0 \<longrightarrow> y mod 100 = 0" using m(2) by (metis mod_0)
  qed
  show ?thesis unfolding leap D [symmetric] by (simp add: algebra_simps)
qed

text \<open>The day number within a March year, split at the month.\<close>

lemma daysFromCivil_late: "2 < m \<Longrightarrow> daysFromCivil y m d = 365 * y + y div 4 - y div 100 + y div 400 + (153 * (m - 3) + 2) sdiv 5 + d - 719469"
  by (simp add: daysFromCivil_div Let_def)

lemma daysFromCivil_early: "m \<le> 2 \<Longrightarrow> daysFromCivil y m d =
    365 * (y - 1) + (y - 1) div 4 - (y - 1) div 100 + (y - 1) div 400 + (153 * (m + 9) + 2) sdiv 5 + d - 719469"
  by (simp add: daysFromCivil_div Let_def)

text \<open>
  \<open>daysFromCivil\<close> numbers the days of the Gregorian calendar: January 1, 1970 is day 0, and the day
  after a date has the next number, over the ends of months, leap years and centuries alike.
\<close>

theorem daysFromCivil_counts_days:
  assumes "1 \<le> m" and "m \<le> 12" and "1 \<le> d" and "d \<le> days_in_month y m"
  shows "daysFromCivil 1970 1 1 = 0 \<and>
    (case next_date (y, m, d) of (y', m', d') \<Rightarrow> daysFromCivil y' m' d' = daysFromCivil y m d + 1)"
proof -
  have "m = 1 \<or> m = 2 \<or> m = 3 \<or> m = 4 \<or> m = 5 \<or> m = 6 \<or> m = 7 \<or> m = 8 \<or> m = 9 \<or> m = 10 \<or> m = 11 \<or> m = 12"
    using assms(1,2) by presburger
  then have "case next_date (y, m, d) of (y', m', d') \<Rightarrow> daysFromCivil y' m' d' = daysFromCivil y m d + 1"
  proof (elim disjE, goal_cases)
    case 2
    have "daysFromCivil y 3 1 = daysFromCivil y 2 (days_in_month y 2) + 1"
      using year_length [of y] unfolding days_in_month_def daysFromCivil_late [of 3, simplified] daysFromCivil_early [of 2, simplified]
      by (cases "leap y") simp_all
    moreover have "d < days_in_month y 2 \<or> d = days_in_month y 2" using assms(4) 2 by auto
    moreover have "daysFromCivil y 2 (d + 1) = daysFromCivil y 2 d + 1" by (simp only: daysFromCivil_early [of 2, simplified])
    ultimately show ?case using 2 by (auto simp: next_date_def)
  qed (use assms(4) in \<open>simp_all add: next_date_def days_in_month_def daysFromCivil_late daysFromCivil_early\<close>)
  moreover have "daysFromCivil 1970 1 1 = 0" by code_simp
  ultimately show ?thesis by blast
qed

theorem daysFromCivil_counts_days_witness:
  "next_date (2024, 2, 29) = (2024, 3, 1) \<and> daysFromCivil 2024 3 1 = daysFromCivil 2024 2 29 + 1"
  using daysFromCivil_counts_days [of 2 29 2024] by (simp add: next_date_def days_in_month_def leap_def)

section \<open>Counting business days\<close>

definition bdays :: "int \<Rightarrow> int \<Rightarrow> nat" where
  "bdays a b = card {x. a \<le> x \<and> x < b \<and> \<not> weekend x}"

lemma finite_days [simp]: "finite {x :: int. a \<le> x \<and> x < b \<and> P x}"
  by (rule finite_subset [of _ "{a..<b}"]) auto

lemma bdays_empty [simp]: "b \<le> a \<Longrightarrow> bdays a b = 0"
  by (auto simp: bdays_def intro!: card_eq_0_iff [THEN iffD2])

lemma bdays_append:
  assumes "a \<le> b" and "b \<le> c"
  shows "bdays a c = bdays a b + bdays b c"
proof -
  have "{x. a \<le> x \<and> x < c \<and> \<not> weekend x} = {x. a \<le> x \<and> x < b \<and> \<not> weekend x} \<union> {x. b \<le> x \<and> x < c \<and> \<not> weekend x}"
    using assms by auto
  moreover have "{x. a \<le> x \<and> x < b \<and> \<not> weekend x} \<inter> {x. b \<le> x \<and> x < c \<and> \<not> weekend x} = {}" by auto
  ultimately show ?thesis unfolding bdays_def by (simp add: card_Un_disjoint)
qed

lemma bdays_one: "bdays a (a + 1) = (if weekend a then 0 else 1)"
proof -
  have "{x. a \<le> x \<and> x < a + 1 \<and> \<not> weekend x} = (if weekend a then {} else {a})" by auto
  then show ?thesis by (simp add: bdays_def)
qed

lemma bdays_step: "a < b \<Longrightarrow> bdays a b = (if weekend a then 0 else 1) + bdays (a + 1) b"
  using bdays_append [of a "a + 1" b] by (simp add: bdays_one)

lemma bdays_last: "a \<le> b \<Longrightarrow> bdays a (b + 1) = bdays a b + (if weekend b then 0 else 1)"
  using bdays_append [of a b "b + 1"] by (simp add: bdays_one)

lemma Weekday_shift: "Weekday (a + i) = (Weekday a + i) mod 7"
proof -
  have "(a + i + 4) mod 7 = (a + 4 + i) mod 7" by (simp only: ac_simps)
  also have "\<dots> = ((a + 4) mod 7 + i) mod 7" by (simp only: mod_add_left_eq)
  finally show ?thesis unfolding Weekday_def .
qed

lemma Weekday_cases:
  obtains "Weekday a = 0" | "Weekday a = 1" | "Weekday a = 2" | "Weekday a = 3" | "Weekday a = 4" | "Weekday a = 5" | "Weekday a = 6"
proof -
  have "0 \<le> Weekday a" "Weekday a < 7" by (simp_all add: Weekday_def)
  then have "Weekday a = 0 \<or> Weekday a = 1 \<or> Weekday a = 2 \<or> Weekday a = 3 \<or> Weekday a = 4 \<or> Weekday a = 5 \<or> Weekday a = 6"
    by presburger
  with that show thesis by blast
qed

lemma bdays_week: "bdays a (a + 7) = 5"
proof -
  have "bdays a (a + 7) = (\<Sum>i \<leftarrow> [0, 1, 2, 3, 4, 5, 6]. if weekend (a + i) then 0 else 1)"
    by (simp add: bdays_step algebra_simps)
  also have "\<dots> = 5"
    by (cases a rule: Weekday_cases) (simp_all add: weekend_def Weekday_shift)
  finally show ?thesis .
qed

lemma bdays_weeks: "bdays a (a + 7 * int w) = 5 * w"
proof (induction w)
  case (Suc w)
  have "bdays a (a + 7 * int (Suc w)) = bdays a (a + 7 * int w) + bdays (a + 7 * int w) (a + 7 * int w + 7)"
    using bdays_append [of a "a + 7 * int w" "a + 7 * int w + 7"] by (simp add: algebra_simps)
  with Suc show ?case by (simp only: bdays_week) simp
qed simp

lemma Weekday_week: "Weekday (a + 7 * w) = Weekday a"
  unfolding Weekday_shift by (simp add: Weekday_def)

lemma weekend_week [simp]: "weekend (a + 7 * w) = weekend a"
  by (simp only: weekend_def Weekday_week)

lemma bd_count_bdays: "bd_count a n = int (bdays a (a + int n))"
proof (induction n arbitrary: a)
  case (Suc n)
  have "bdays a (a + int (Suc n)) = (if weekend a then 0 else 1) + bdays (a + 1) (a + 1 + int n)"
    using bdays_step [of a "a + int (Suc n)"] by (simp add: algebra_simps)
  with Suc [of "a + 1"] show ?case by simp
qed simp

lemma bd_forward_spec:
  "d \<le> bd_forward d rem \<and> bdays (d + 1) (bd_forward d rem + 1) = rem \<and> (0 < rem \<or> \<not> weekend d \<longrightarrow> \<not> weekend (bd_forward d rem))"
proof (induction d rem rule: bd_forward.induct)
  case (1 d rem)
  show ?case
  proof (cases "rem > 0")
    case True
    let ?r = "if \<not> weekend (d + 1) then rem - 1 else rem"
    have b: "bd_forward d rem = bd_forward (d + 1) ?r" using True by (subst bd_forward.simps) simp
    have IH: "d + 1 \<le> bd_forward (d + 1) ?r" "bdays (d + 1 + 1) (bd_forward (d + 1) ?r + 1) = ?r"
      "0 < ?r \<or> \<not> weekend (d + 1) \<longrightarrow> \<not> weekend (bd_forward (d + 1) ?r)" using 1 [OF True refl] by blast+
    have "bdays (d + 1) (bd_forward (d + 1) ?r + 1) = (if weekend (d + 1) then 0 else 1) + ?r"
      using bdays_step [of "d + 1" "bd_forward (d + 1) ?r + 1"] IH(1,2) by simp
    with IH True show ?thesis unfolding b by auto
  next
    case False
    then show ?thesis by (subst (1 2 3) bd_forward.simps) simp
  qed
qed

lemma bd_backward_spec:
  "bd_backward d rem \<le> d \<and> bdays (bd_backward d rem) d = rem \<and> (0 < rem \<or> \<not> weekend d \<longrightarrow> \<not> weekend (bd_backward d rem))"
proof (induction d rem rule: bd_backward.induct)
  case (1 d rem)
  show ?case
  proof (cases "rem > 0")
    case True
    let ?r = "if \<not> weekend (d - 1) then rem - 1 else rem"
    have b: "bd_backward d rem = bd_backward (d - 1) ?r" using True by (subst bd_backward.simps) simp
    have IH: "bd_backward (d - 1) ?r \<le> d - 1" "bdays (bd_backward (d - 1) ?r) (d - 1) = ?r"
      "0 < ?r \<or> \<not> weekend (d - 1) \<longrightarrow> \<not> weekend (bd_backward (d - 1) ?r)" using 1 [OF True refl] by blast+
    have "bdays (bd_backward (d - 1) ?r) d = ?r + (if weekend (d - 1) then 0 else 1)"
      using bdays_last [OF IH(1)] IH(2) by simp
    with IH True show ?thesis unfolding b by auto
  next
    case False
    then show ?thesis by (subst (1 2 3) bd_backward.simps) simp
  qed
qed

text \<open>The whole weeks first, then day by day.\<close>

lemma forward_weeks:
  assumes "\<not> weekend d" and "0 \<le> n"
  defines "r \<equiv> bd_forward (d + n div 5 * 7) (nat (n mod 5))"
  shows "\<not> weekend r \<and> d \<le> r \<and> int (bdays (d + 1) (r + 1)) = n"
proof -
  let ?e = "d + 7 * (n div 5)"
  have e: "\<not> weekend ?e" using assms(1) by simp
  have w: "0 \<le> n div 5" using assms(2) by simp
  have r: "r = bd_forward ?e (nat (n mod 5))" unfolding r_def by (simp only: mult.commute)
  have f: "?e \<le> r" "bdays (?e + 1) (r + 1) = nat (n mod 5)" "\<not> weekend r"
    using bd_forward_spec [of ?e "nat (n mod 5)"] e unfolding r by blast+
  have "bdays (d + 1) (d + 1 + 7 * int (nat (n div 5))) = 5 * nat (n div 5)" by (rule bdays_weeks)
  then have "bdays (d + 1) (?e + 1) = 5 * nat (n div 5)" using w by (simp add: algebra_simps)
  moreover have "bdays (d + 1) (r + 1) = bdays (d + 1) (?e + 1) + bdays (?e + 1) (r + 1)"
    using f(1) w by (intro bdays_append) auto
  ultimately have "int (bdays (d + 1) (r + 1)) = 5 * (n div 5) + n mod 5" using f(2) w by simp
  moreover have "d \<le> r" using f(1) w by linarith
  ultimately show ?thesis using f(3) by (simp only: mult_div_mod_eq)  simp
qed

lemma backward_weeks:
  assumes "\<not> weekend d" and "0 \<le> n"
  defines "r \<equiv> bd_backward (d - n div 5 * 7) (nat (n mod 5))"
  shows "\<not> weekend r \<and> r \<le> d \<and> int (bdays r d) = n"
proof -
  let ?e = "d - 7 * (n div 5)"
  have "weekend (?e + 7 * (n div 5)) = weekend ?e" by (rule weekend_week)
  then have e: "\<not> weekend ?e" using assms(1) by simp
  have w: "0 \<le> n div 5" using assms(2) by simp
  have r: "r = bd_backward ?e (nat (n mod 5))" unfolding r_def by (simp only: mult.commute)
  have f: "r \<le> ?e" "bdays r ?e = nat (n mod 5)" "\<not> weekend r"
    using bd_backward_spec [of ?e "nat (n mod 5)"] e unfolding r by blast+
  have "bdays ?e (?e + 7 * int (nat (n div 5))) = 5 * nat (n div 5)" by (rule bdays_weeks)
  then have "bdays ?e d = 5 * nat (n div 5)" using w by simp
  moreover have "bdays r d = bdays r ?e + bdays ?e d" using f(1) w by (intro bdays_append) auto
  ultimately have "int (bdays r d) = 5 * (n div 5) + n mod 5" using f(2) w by simp
  moreover have "r \<le> d" using f(1) w by linarith
  ultimately show ?thesis using f(3) by (simp only: mult_div_mod_eq) simp
qed

text \<open>The test for a whole week only saves a call.\<close>

lemma whole_weeks:
  "0 \<le> m \<Longrightarrow> (if 0 < m div 5 then d + m div 5 * 7 else d) = d + m div 5 * (7 :: int)"
  "0 \<le> m \<Longrightarrow> (if 0 < m div 5 then d - m div 5 * 7 else d) = d - m div 5 * (7 :: int)"
  using pos_imp_zdiv_nonneg_iff [of 5 m] by auto

lemma addPositiveBusinessDays_spec:
  fixes d n :: int
  assumes "0 < n"
  defines "r \<equiv> addPositiveBusinessDays d n"
  shows "\<not> weekend r \<and> d \<le> r \<and> int (bdays (d + 1) (r + 1)) = n"
proof -
  define k where "k = (if Weekday d = 6 then 2 else if Weekday d = 0 then 1 else 0 :: int)"
  define c where "c = (if weekend d then 1 else 0 :: int)"
  have "0 \<le> k \<and> \<not> weekend (d + k)"
    by (cases d rule: Weekday_cases; simp add: k_def weekend_def Weekday_shift [of d 1] Weekday_shift [of d 2])
  moreover have "int (bdays (d + 1) (d + k + 1)) = c"
    by (cases d rule: Weekday_cases; simp add: k_def c_def weekend_def Weekday_shift [of d 1] Weekday_shift [of d 2, unfolded add.commute [of d 2]] bdays_step)
  ultimately have k: "0 \<le> k" "\<not> weekend (d + k)" "int (bdays (d + 1) (d + k + 1)) = c" by blast+
  have r: "r = bd_forward (d + k + (n - c) div 5 * 7) (nat ((n - c) mod 5))"
  proof (cases "n - c > 0")
    case True
    have "r = bd_forward (if 0 < (n - c) div 5 then d + k + (n - c) div 5 * 7 else d + k) (nat ((n - c) mod 5))"
      using True unfolding r_def addPositiveBusinessDays_def Let_def k_def c_def weekend_def
      by (cases "Weekday d = 6"; cases "Weekday d = 0") (simp_all only: if_True if_False prod.case simp_thms diff_0_right add_0_right)
    moreover have "0 \<le> n - c" using True by simp
    ultimately show ?thesis by (simp only: whole_weeks)
  next
    case False
    then have "n - c = 0" using assms(1) by (simp add: c_def split: if_splits)
    moreover from this have "r = d + k"
      using assms(1) unfolding r_def addPositiveBusinessDays_def Let_def k_def c_def weekend_def
      by (cases "Weekday d = 6"; cases "Weekday d = 0") simp_all
    ultimately show ?thesis by (simp add: bd_forward.simps)
  qed
  have "0 \<le> n - c" using assms(1) by (simp add: c_def)
  from forward_weeks [OF k(2) this, folded r] have f: "\<not> weekend r" "d + k \<le> r" "int (bdays (d + k + 1) (r + 1)) = n - c" by blast+
  moreover have "bdays (d + 1) (r + 1) = bdays (d + 1) (d + k + 1) + bdays (d + k + 1) (r + 1)"
    using k(1) f(2) by (intro bdays_append) auto
  ultimately show ?thesis using k(1,3) by simp
qed

lemma subtractBusinessDays_spec:
  fixes d n :: int
  assumes "n < 0"
  defines "r \<equiv> subtractBusinessDays d n"
  shows "\<not> weekend r \<and> r \<le> d \<and> int (bdays r d) = - n"
proof -
  define k where "k = (if Weekday d = 0 then 2 else if Weekday d = 6 then 1 else 0 :: int)"
  define c where "c = (if weekend d then 1 else 0 :: int)"
  have k: "0 \<le> k" "\<not> weekend (d + - k)" "int (bdays (d + - k) d) = c"
    by (cases d rule: Weekday_cases; simp add: k_def c_def weekend_def Weekday_shift [of d "-2", simplified] Weekday_shift [of d "-1", simplified] bdays_step)+
  have r: "r = bd_backward (d - k - (- n - c) div 5 * 7) (nat ((- n - c) mod 5))"
  proof (cases "- n - c > 0")
    case True
    have m: "- (n + 1) = - n - 1" by simp
    have "r = bd_backward (if 0 < (- n - c) div 5 then d - k - (- n - c) div 5 * 7 else d - k) (nat ((- n - c) mod 5))"
      using True unfolding r_def subtractBusinessDays_def Let_def k_def c_def weekend_def
      by (cases "Weekday d = 6"; cases "Weekday d = 0") (simp_all add: m)
    moreover have "0 \<le> - n - c" using True by simp
    ultimately show ?thesis by (simp only: whole_weeks)
  next
    case False
    then have "- n - c = 0" using assms(1) by (simp add: c_def split: if_splits)
    moreover from this have "r = d - k"
      using assms(1) unfolding r_def subtractBusinessDays_def Let_def k_def c_def weekend_def
      by (cases "Weekday d = 6"; cases "Weekday d = 0") simp_all
    ultimately show ?thesis by (simp add: bd_backward.simps)
  qed
  have "0 \<le> - n - c" using assms(1) by (simp add: c_def)
  from backward_weeks [OF k(2) this] r have f: "\<not> weekend r" "r \<le> d - k" "int (bdays r (d - k)) = - n - c" by simp_all
  moreover have "bdays r d = bdays r (d - k) + bdays (d - k) d"
    using k(1) f(2) by (intro bdays_append) auto
  ultimately show ?thesis using k(1,3) by simp
qed

lemma bd_between_pos_spec:
  defines "day t \<equiv> daysFromCivil (gt_year t) (gt_month t) (gt_day t)"
  assumes "day s \<le> day e"
  shows "bd_between_pos s e = int (bdays (day s) (day e))"
proof -
  define N where "N = day e - day s"
  have N: "0 \<le> N" "0 \<le> N div 7" "day e = day s + N" using assms(2) by (simp_all add: N_def)
  have e: "day e = day s + 7 * int (nat (N div 7)) + int (nat (N mod 7))"
    using N by simp
  have "bdays (day s) (day e) = bdays (day s) (day s + 7 * int (nat (N div 7))) + bdays (day s + 7 * int (nat (N div 7))) (day e)"
    using e by (intro bdays_append) auto
  moreover have c: "bd_count (x + 7 * int w) m = bd_count x m" for x w m
  proof (induction m arbitrary: x)
    case (Suc m)
    have "x + 7 * int w + 1 = x + 1 + 7 * int w" by simp
    then show ?case by (simp only: bd_count.simps weekend_week Suc)
  qed simp
  moreover have "int (bdays (day s + 7 * int (nat (N div 7))) (day e)) = bd_count (day s) (nat (N mod 7))"
    using bd_count_bdays [of "day s + 7 * int (nat (N div 7))" "nat (N mod 7)"] unfolding c e [symmetric] by (rule sym)
  ultimately have "int (bdays (day s) (day e)) = 5 * (N div 7) + bd_count (day s) (nat (N mod 7))"
    using N(2) by (simp only: bdays_weeks of_nat_add) simp
  then show ?thesis using N
    by (auto simp: bd_between_pos_def Let_def day_def [symmetric] sdiv_nonneg_div smod_mod_positive)
qed

text \<open>
  C35: The shortcut over whole weeks is right. For a step of at most a million days \<open>AddBusinessDays\<close>
  lands on a weekday, and exactly \<open>n\<close> weekdays lie after the start up to the result (for a negative
  step, from the result up to the start); and between two times on the same calendar
  \<open>BusinessDaysBetween\<close> is the number of weekdays from the first date on and before the second, negated
  when the times come in the other order.
\<close>

theorem business_days_correct:
  assumes "n \<noteq> 0" and "\<bar>n\<bar> \<le> 1000000" and "gt_instant s < gt_instant e"
    and "daysFromCivil (gt_year s) (gt_month s) (gt_day s) \<le> daysFromCivil (gt_year e) (gt_month e) (gt_day e)"
  shows "\<not> weekend (AddBusinessDays d n) \<and>
    int (if n > 0 then bdays (d + 1) (AddBusinessDays d n + 1) else bdays (AddBusinessDays d n) d) = \<bar>n\<bar> \<and>
    BusinessDaysBetween s e =
      int (bdays (daysFromCivil (gt_year s) (gt_month s) (gt_day s)) (daysFromCivil (gt_year e) (gt_month e) (gt_day e))) \<and>
    BusinessDaysBetween e s = - BusinessDaysBetween s e"
proof (intro conjI)
  have a: "AddBusinessDays d n = (if n > 0 then addPositiveBusinessDays d n else subtractBusinessDays d n)"
    using assms(1,2) by (auto simp: AddBusinessDays_def)
  show "\<not> weekend (AddBusinessDays d n)"
    "int (if n > 0 then bdays (d + 1) (AddBusinessDays d n + 1) else bdays (AddBusinessDays d n) d) = \<bar>n\<bar>"
    unfolding a using assms(1) addPositiveBusinessDays_spec [of n d] subtractBusinessDays_spec [of n d]
    by (cases "n > 0"; simp)+
qed (use assms(3) bd_between_pos_spec [OF assms(4)] in \<open>simp_all add: BusinessDaysBetween_def\<close>)

theorem business_days_correct_witness:
  "\<not> weekend (AddBusinessDays 20000 7) \<and> bdays 20001 (AddBusinessDays 20000 7 + 1) = 7 \<and>
   BusinessDaysBetween \<lparr>gt_instant = 0, gt_year = 2024, gt_month = 2, gt_day = 28\<rparr> \<lparr>gt_instant = 1, gt_year = 2024, gt_month = 3, gt_day = 9\<rparr> =
     int (bdays 19781 19791)"
proof -
  let ?s = "\<lparr>gt_instant = 0, gt_year = 2024, gt_month = 2, gt_day = 28\<rparr>"
  let ?e = "\<lparr>gt_instant = 1, gt_year = 2024, gt_month = 3, gt_day = 9\<rparr>"
  have d: "daysFromCivil 2024 2 28 = 19781" "daysFromCivil 2024 3 9 = 19791" by code_simp+
  show ?thesis using business_days_correct [of 7 ?s ?e 20000] by (simp add: d)
qed

end
