(* ===== verification/Fake_Clock.thy ===== *)
theory Fake_Clock
  imports Go_Prelude
begin

text \<open>
  The simulated clock of package \<open>clock\<close> (\<open>src/clock/fake.go\<close>). Timers, tickers and sleepers are objects that
  the clock's lists and the callers' handles share, so the clock has a store per kind, from addresses to
  objects, and lists of addresses. Every operation runs under the clock's mutex and is one function. A
  timer's channel has room for one value and is an option; a send in a \<open>select\<close> with a \<open>default\<close> drops the
  value when the channel is full. \<open>clock_step\<close> runs one operation of any caller, \<open>clock_run\<close> a sequence.
\<close>

record fakeTimer =
  ft_c :: "time option"
  ft_deadline :: time
  ft_stopped :: bool

record fakeTicker =
  tk_c :: "time option"
  tk_period :: duration
  tk_deadline :: time
  tk_stopped :: bool

text \<open>The channel of a sleeper carries no value and is closed when \<open>sw_done\<close> is set.\<close>

record sleepWaiter =
  sw_deadline :: time
  sw_done :: bool

record FakeClock =
  fc_now :: time
  fc_timers :: "nat list"
  fc_tickers :: "nat list"
  fc_sleepWaiters :: "nat list"
  fc_timer :: "nat \<Rightarrow> fakeTimer"
  fc_ticker :: "nat \<Rightarrow> fakeTicker"
  fc_sleeper :: "nat \<Rightarrow> sleepWaiter"
  fc_next :: nat

definition NewFakeAt :: "time \<Rightarrow> FakeClock" where
  "NewFakeAt start =
     \<lparr>fc_now = start, fc_timers = [], fc_tickers = [], fc_sleepWaiters = [],
      fc_timer = (\<lambda>_. \<lparr>ft_c = None, ft_deadline = 0, ft_stopped = True\<rparr>),
      fc_ticker = (\<lambda>_. \<lparr>tk_c = None, tk_period = 0, tk_deadline = 0, tk_stopped = True\<rparr>),
      fc_sleeper = (\<lambda>_. \<lparr>sw_deadline = 0, sw_done = True\<rparr>), fc_next = 0\<rparr>"

text \<open>January 1, 2026 in nanoseconds since the Unix epoch.\<close>

definition NewFake :: FakeClock where
  "NewFake = NewFakeAt (1767225600 * second)"

definition fc_Since :: "FakeClock \<Rightarrow> time \<Rightarrow> duration" where
  "fc_Since f t = time_sub (fc_now f) t"

definition fc_Until :: "FakeClock \<Rightarrow> time \<Rightarrow> duration" where
  "fc_Until f t = time_sub t (fc_now f)"

definition send_nb :: "time \<Rightarrow> time option \<Rightarrow> time option" where
  "send_nb v c = (case c of None \<Rightarrow> Some v | Some u \<Rightarrow> Some u)"

fun adv_timers :: "time \<Rightarrow> nat list \<Rightarrow> (nat \<Rightarrow> fakeTimer) \<Rightarrow> nat list \<times> (nat \<Rightarrow> fakeTimer)" where
  "adv_timers now [] st = ([], st)"
| "adv_timers now (t # ts) st =
     (if ft_stopped (st t) then adv_timers now ts st
      else if \<not> now < ft_deadline (st t) then
        adv_timers now ts (st(t := (st t)\<lparr>ft_stopped := True, ft_c := send_nb (ft_deadline (st t)) (ft_c (st t))\<rparr>))
      else let (rem, st') = adv_timers now ts st in (t # rem, st'))"

function tick_loop :: "time \<Rightarrow> fakeTicker \<Rightarrow> fakeTicker" where
  "tick_loop now tick =
     (if \<not> tk_stopped tick \<and> \<not> now < tk_deadline tick then
        let tick1 = tick\<lparr>tk_c := send_nb (tk_deadline tick) (tk_c tick)\<rparr>
        in if tk_period tick1 \<le> 0 then tick1\<lparr>tk_stopped := True\<rparr>
           else tick_loop now (tick1\<lparr>tk_deadline := time_add (tk_deadline tick1) (tk_period tick1)\<rparr>)
      else tick)"
  by pat_completeness auto

termination
  by (relation "measure (\<lambda>(now, tick). nat (now - tk_deadline tick + 1))") (simp_all add: time_add_def)

declare tick_loop.simps [simp del]

fun adv_tickers :: "time \<Rightarrow> nat list \<Rightarrow> (nat \<Rightarrow> fakeTicker) \<Rightarrow> (nat \<Rightarrow> fakeTicker)" where
  "adv_tickers now [] st = st"
| "adv_tickers now (t # ts) st =
     (if tk_stopped (st t) then adv_tickers now ts st else adv_tickers now ts (st(t := tick_loop now (st t))))"

fun adv_sleepers :: "time \<Rightarrow> nat list \<Rightarrow> (nat \<Rightarrow> sleepWaiter) \<Rightarrow> nat list \<times> (nat \<Rightarrow> sleepWaiter)" where
  "adv_sleepers now [] st = ([], st)"
| "adv_sleepers now (s # ss) st =
     (if sw_done (st s) then adv_sleepers now ss st
      else if \<not> now < sw_deadline (st s) then adv_sleepers now ss (st(s := (st s)\<lparr>sw_done := True\<rparr>))
      else let (rem, st') = adv_sleepers now ss st in (s # rem, st'))"

definition advanceLocked :: "FakeClock \<Rightarrow> time \<Rightarrow> FakeClock" where
  "advanceLocked f target =
     (let (remainingTimers, ts) = adv_timers target (fc_timers f) (fc_timer f);
          tks = adv_tickers target (fc_tickers f) (fc_ticker f);
          (remainingSleepers, ss) = adv_sleepers target (fc_sleepWaiters f) (fc_sleeper f)
      in f\<lparr>fc_now := target, fc_timers := remainingTimers, fc_timer := ts, fc_ticker := tks,
           fc_sleepWaiters := remainingSleepers, fc_sleeper := ss\<rparr>)"

definition fc_Set :: "FakeClock \<Rightarrow> time \<Rightarrow> FakeClock" where
  "fc_Set f t = advanceLocked f t"

definition fc_Add :: "FakeClock \<Rightarrow> duration \<Rightarrow> FakeClock" where
  "fc_Add f d = advanceLocked f (time_add (fc_now f) d)"

text \<open>\<open>Sleep\<close> up to the wait on the sleeper's channel; the caller goes on once \<open>sw_done\<close> is set.\<close>

definition fc_Sleep :: "FakeClock \<Rightarrow> duration \<Rightarrow> FakeClock \<times> nat option" where
  "fc_Sleep f d =
     (if d \<le> 0 then (f, None)
      else
        let k = fc_next f; sw = \<lparr>sw_deadline = time_add (fc_now f) d, sw_done = False\<rparr>
        in (f\<lparr>fc_sleeper := (fc_sleeper f)(k := sw), fc_sleepWaiters := fc_sleepWaiters f @ [k], fc_next := k + 1\<rparr>, Some k))"

definition fc_NewTimer :: "FakeClock \<Rightarrow> duration \<Rightarrow> FakeClock \<times> nat" where
  "fc_NewTimer f d =
     (let k = fc_next f; ft = \<lparr>ft_c = None, ft_deadline = time_add (fc_now f) d, ft_stopped = False\<rparr>
      in if d \<le> 0 then
           (f\<lparr>fc_timer := (fc_timer f)(k := ft\<lparr>ft_stopped := True, ft_c := Some (fc_now f)\<rparr>), fc_next := k + 1\<rparr>, k)
         else (f\<lparr>fc_timer := (fc_timer f)(k := ft), fc_timers := fc_timers f @ [k], fc_next := k + 1\<rparr>, k))"

definition fc_NewTicker :: "FakeClock \<Rightarrow> duration \<Rightarrow> FakeClock \<times> nat" where
  "fc_NewTicker f d =
     (let k = fc_next f;
          tick = \<lparr>tk_c = None, tk_period = d, tk_deadline = time_add (fc_now f) d, tk_stopped = False\<rparr>;
          f1 = f\<lparr>fc_ticker := (fc_ticker f)(k := tick), fc_next := k + 1\<rparr>
      in (if d > 0 then f1\<lparr>fc_tickers := fc_tickers f1 @ [k]\<rparr> else f1, k))"

definition activeWaitersLocked :: "FakeClock \<Rightarrow> int" where
  "activeWaitersLocked f =
     int (length (filter (\<lambda>k. \<not> ft_stopped (fc_timer f k)) (fc_timers f)) +
          length (filter (\<lambda>k. \<not> tk_stopped (fc_ticker f k)) (fc_tickers f)) +
          length (filter (\<lambda>k. \<not> sw_done (fc_sleeper f k)) (fc_sleepWaiters f)))"

text \<open>\<open>BlockUntil\<close> returns in the states with this property; every operation that may reach one broadcasts.\<close>

definition fc_BlockUntil :: "FakeClock \<Rightarrow> int \<Rightarrow> bool" where
  "fc_BlockUntil f n \<longleftrightarrow> \<not> activeWaitersLocked f < n"

definition timer_Reset :: "FakeClock \<Rightarrow> nat \<Rightarrow> duration \<Rightarrow> FakeClock \<times> bool" where
  "timer_Reset f k d =
     (let t = fc_timer f k; active = \<not> ft_stopped t;
          t1 = t\<lparr>ft_stopped := False, ft_deadline := time_add (fc_now f) d\<rparr>
      in if d \<le> 0 then
           (f\<lparr>fc_timer := (fc_timer f)(k := t1\<lparr>ft_stopped := True, ft_c := send_nb (fc_now f) (ft_c t1)\<rparr>)\<rparr>, active)
         else
           (f\<lparr>fc_timer := (fc_timer f)(k := t1),
              fc_timers := (if k \<in> set (fc_timers f) then fc_timers f else fc_timers f @ [k])\<rparr>, active))"

definition timer_Stop :: "FakeClock \<Rightarrow> nat \<Rightarrow> FakeClock \<times> bool" where
  "timer_Stop f k =
     (if ft_stopped (fc_timer f k) then (f, False)
      else (f\<lparr>fc_timer := (fc_timer f)(k := (fc_timer f k)\<lparr>ft_stopped := True\<rparr>)\<rparr>, True))"

definition ticker_Reset :: "FakeClock \<Rightarrow> nat \<Rightarrow> duration \<Rightarrow> FakeClock" where
  "ticker_Reset f k d =
     (let t1 = (fc_ticker f k)\<lparr>tk_period := d, tk_deadline := time_add (fc_now f) d, tk_stopped := False\<rparr>
      in f\<lparr>fc_ticker := (fc_ticker f)(k := t1),
           fc_tickers := (if k \<notin> set (fc_tickers f) \<and> d > 0 then fc_tickers f @ [k] else fc_tickers f)\<rparr>)"

definition ticker_Stop :: "FakeClock \<Rightarrow> nat \<Rightarrow> FakeClock" where
  "ticker_Stop f k = f\<lparr>fc_ticker := (fc_ticker f)(k := (fc_ticker f k)\<lparr>tk_stopped := True\<rparr>)\<rparr>"

text \<open>A receive from the channel of a timer or ticker, when it holds a value.\<close>

definition timer_recv :: "FakeClock \<Rightarrow> nat \<Rightarrow> FakeClock" where
  "timer_recv f k = f\<lparr>fc_timer := (fc_timer f)(k := (fc_timer f k)\<lparr>ft_c := None\<rparr>)\<rparr>"

definition ticker_recv :: "FakeClock \<Rightarrow> nat \<Rightarrow> FakeClock" where
  "ticker_recv f k = f\<lparr>fc_ticker := (fc_ticker f)(k := (fc_ticker f k)\<lparr>tk_c := None\<rparr>)\<rparr>"

datatype clock_op =
    OSet time | OAdd duration | OSleep duration | ONewTimer duration | ONewTicker duration
  | OTimerReset nat duration | OTimerStop nat | OTimerRecv nat
  | OTickerReset nat duration | OTickerStop nat | OTickerRecv nat

text \<open>A handle is an address below \<open>fc_next\<close>.\<close>

fun clock_step :: "FakeClock \<Rightarrow> clock_op \<Rightarrow> FakeClock" where
  "clock_step f (OSet t) = fc_Set f t"
| "clock_step f (OAdd d) = fc_Add f d"
| "clock_step f (OSleep d) = fst (fc_Sleep f d)"
| "clock_step f (ONewTimer d) = fst (fc_NewTimer f d)"
| "clock_step f (ONewTicker d) = fst (fc_NewTicker f d)"
| "clock_step f (OTimerReset k d) = (if k < fc_next f then fst (timer_Reset f k d) else f)"
| "clock_step f (OTimerStop k) = (if k < fc_next f then fst (timer_Stop f k) else f)"
| "clock_step f (OTimerRecv k) = (if k < fc_next f then timer_recv f k else f)"
| "clock_step f (OTickerReset k d) = (if k < fc_next f then ticker_Reset f k d else f)"
| "clock_step f (OTickerStop k) = (if k < fc_next f then ticker_Stop f k else f)"
| "clock_step f (OTickerRecv k) = (if k < fc_next f then ticker_recv f k else f)"

fun clock_run :: "FakeClock \<Rightarrow> clock_op list \<Rightarrow> FakeClock" where
  "clock_run f [] = f"
| "clock_run f (op # ops) = clock_run (clock_step f op) ops"

text \<open>What the clock reads after each operation of a run.\<close>

fun readings :: "FakeClock \<Rightarrow> clock_op list \<Rightarrow> time list" where
  "readings f [] = []"
| "readings f (op # ops) = fc_now (clock_step f op) # readings (clock_step f op) ops"

section \<open>The loops in closed form\<close>

lemma adv_timers_eq:
  "adv_timers now ts st =
     (filter (\<lambda>k. \<not> ft_stopped (st k) \<and> now < ft_deadline (st k)) ts,
      \<lambda>k. if k \<in> set ts \<and> \<not> ft_stopped (st k) \<and> \<not> now < ft_deadline (st k)
          then (st k)\<lparr>ft_stopped := True, ft_c := send_nb (ft_deadline (st k)) (ft_c (st k))\<rparr> else st k)"
proof (induction ts arbitrary: st)
  case (Cons t ts)
  show ?case
    by (auto simp: Cons.IH Let_def fun_eq_iff intro!: filter_cong)
qed simp

lemma adv_sleepers_eq:
  "adv_sleepers now ss st =
     (filter (\<lambda>k. \<not> sw_done (st k) \<and> now < sw_deadline (st k)) ss,
      \<lambda>k. if k \<in> set ss \<and> \<not> sw_done (st k) \<and> \<not> now < sw_deadline (st k) then (st k)\<lparr>sw_done := True\<rparr> else st k)"
proof (induction ss arbitrary: st)
  case (Cons s ss)
  show ?case
    by (auto simp: Cons.IH Let_def fun_eq_iff intro!: filter_cong)
qed simp

text \<open>
  The number of ticks due when the clock reads \<open>now\<close>, and the effect of the loop that counts them off one
  by one: the channel takes the first of them if it is empty, and the deadline moves to the first one
  that is still to come.
\<close>

definition ticks_due :: "time \<Rightarrow> fakeTicker \<Rightarrow> int" where
  "ticks_due now tick = (if now < tk_deadline tick then 0 else (now - tk_deadline tick) div tk_period tick + 1)"

lemma ticks_due_step:
  assumes "0 < tk_period tick" and "\<not> now < tk_deadline tick"
  shows "ticks_due now tick = 1 + ticks_due now (tick\<lparr>tk_deadline := tk_deadline tick + tk_period tick\<rparr>)"
proof (cases "now < tk_deadline tick + tk_period tick")
  case True
  then have "(now - tk_deadline tick) div tk_period tick = 0" using assms by (simp add: div_pos_pos_trivial)
  then show ?thesis using True assms by (simp add: ticks_due_def)
next
  case False
  have "now - tk_deadline tick = (now - (tk_deadline tick + tk_period tick)) + tk_period tick" by simp
  then have "(now - tk_deadline tick) div tk_period tick = (now - (tk_deadline tick + tk_period tick)) div tk_period tick + 1"
    using assms(1) by (metis div_add_self2 less_irrefl)
  then show ?thesis using False assms by (simp add: ticks_due_def)
qed

lemma tick_loop_eq:
  assumes "0 < tk_period tick" and "\<not> tk_stopped tick"
  shows "tick_loop now tick = tick\<lparr>
    tk_deadline := tk_deadline tick + ticks_due now tick * tk_period tick,
    tk_c := if now < tk_deadline tick then tk_c tick else send_nb (tk_deadline tick) (tk_c tick)\<rparr>"
  using assms
proof (induction now tick rule: tick_loop.induct)
  case (1 now tick)
  show ?case
  proof (cases "now < tk_deadline tick")
    case True
    then show ?thesis by (subst tick_loop.simps) (simp add: ticks_due_def)
  next
    case False
    let ?t = "tick\<lparr>tk_c := send_nb (tk_deadline tick) (tk_c tick), tk_deadline := tk_deadline tick + tk_period tick\<rparr>"
    have l: "tick_loop now tick = tick_loop now ?t"
      using 1(2,3) False by (subst tick_loop.simps) (simp add: time_add_def Let_def)
    have IH: "tick_loop now ?t = ?t\<lparr>tk_deadline := tk_deadline ?t + ticks_due now ?t * tk_period ?t,
        tk_c := if now < tk_deadline ?t then tk_c ?t else send_nb (tk_deadline ?t) (tk_c ?t)\<rparr>"
      using 1(1) [OF conjI [OF 1(3) False] refl] 1(2,3) by (simp add: time_add_def)
    have c: "ticks_due now tick = 1 + ticks_due now ?t"
      using ticks_due_step [OF 1(2) False] by (simp add: ticks_due_def)
    have s: "send_nb v (send_nb u x) = send_nb u x" for u v x by (simp add: send_nb_def split: option.split)
    show ?thesis unfolding l IH c using False by (simp add: s algebra_simps)
  qed
qed

lemma tk_stopped_tick_loop: "0 < tk_period tick \<Longrightarrow> \<not> tk_stopped tick \<Longrightarrow> \<not> tk_stopped (tick_loop now tick)"
  by (simp add: tick_loop_eq)

text \<open>Advancing twice to the same time does no more than advancing once, so repeats in the list do not matter.\<close>

lemma tick_loop_idem:
  assumes "0 < tk_period tick" and "\<not> tk_stopped tick"
  shows "tick_loop now (tick_loop now tick) = tick_loop now tick"
proof -
  have "now < tk_deadline (tick_loop now tick)"
  proof (cases "now < tk_deadline tick")
    case False
    let ?q = "now - tk_deadline tick" let ?p = "tk_period tick"
    have "?q < ?q div ?p * ?p + ?p" using assms(1) by (metis add_strict_left_mono div_mult_mod_eq pos_mod_bound)
    then show ?thesis using False assms by (simp add: tick_loop_eq ticks_due_def algebra_simps)
  qed (use assms in \<open>simp add: tick_loop_eq ticks_due_def\<close>)
  then show ?thesis by (subst tick_loop.simps) simp
qed

lemma adv_tickers_other: "k \<notin> set ts \<Longrightarrow> adv_tickers now ts st k = st k"
  by (induction ts arbitrary: st) auto

lemma adv_tickers_eq:
  assumes "0 < tk_period (st k)" and "\<not> tk_stopped (st k)" and "k \<in> set ts"
  shows "adv_tickers now ts st k = tick_loop now (st k)"
  using assms
proof (induction ts arbitrary: st)
  case (Cons t ts)
  show ?case
  proof (cases "k \<in> set ts")
    case True
    show ?thesis
    proof (cases "t = k")
      case tk: True
      let ?st = "st(k := tick_loop now (st k))"
      have "adv_tickers now ts ?st k = tick_loop now (?st k)"
        using Cons.prems True by (intro Cons.IH) (simp_all add: tick_loop_eq)
      then show ?thesis using tk Cons.prems by (simp add: tick_loop_idem)
    next
      case False
      then show ?thesis using Cons.prems True by (simp add: Cons.IH)
    qed
  next
    case False
    then show ?thesis using Cons.prems by (auto simp: adv_tickers_other)
  qed
qed simp

section \<open>Timers and sleepers over a run\<close>

text \<open>The operations of the holder of timer \<open>k\<close>.\<close>

fun on_timer :: "nat \<Rightarrow> clock_op \<Rightarrow> bool" where
  "on_timer k (OTimerReset j d) = (j = k)"
| "on_timer k (OTimerStop j) = (j = k)"
| "on_timer k (OTimerRecv j) = (j = k)"
| "on_timer k _ = False"

lemmas clock_op_defs = fc_Set_def fc_Add_def fc_Sleep_def fc_NewTimer_def fc_NewTicker_def timer_Reset_def timer_Stop_def
  timer_recv_def ticker_Reset_def ticker_Stop_def ticker_recv_def Let_def

lemma advanceLocked_timer:
  "fc_timer (advanceLocked f t) k =
     (if k \<in> set (fc_timers f) \<and> \<not> ft_stopped (fc_timer f k) \<and> \<not> t < ft_deadline (fc_timer f k)
      then (fc_timer f k)\<lparr>ft_stopped := True, ft_c := send_nb (ft_deadline (fc_timer f k)) (ft_c (fc_timer f k))\<rparr>
      else fc_timer f k)"
  by (simp add: advanceLocked_def adv_timers_eq adv_sleepers_eq Let_def)

lemma advanceLocked_simps [simp]:
  "fc_now (advanceLocked f t) = t" "fc_next (advanceLocked f t) = fc_next f" "fc_tickers (advanceLocked f t) = fc_tickers f"
  "fc_ticker (advanceLocked f t) = adv_tickers t (fc_tickers f) (fc_ticker f)"
  "fc_timers (advanceLocked f t) = filter (\<lambda>k. \<not> ft_stopped (fc_timer f k) \<and> t < ft_deadline (fc_timer f k)) (fc_timers f)"
  "fc_sleepWaiters (advanceLocked f t) = filter (\<lambda>k. \<not> sw_done (fc_sleeper f k) \<and> t < sw_deadline (fc_sleeper f k)) (fc_sleepWaiters f)"
  by (simp_all add: advanceLocked_def adv_timers_eq adv_sleepers_eq Let_def)

lemma advanceLocked_sleeper:
  "fc_sleeper (advanceLocked f t) k =
     (if k \<in> set (fc_sleepWaiters f) \<and> \<not> sw_done (fc_sleeper f k) \<and> \<not> t < sw_deadline (fc_sleeper f k)
      then (fc_sleeper f k)\<lparr>sw_done := True\<rparr> else fc_sleeper f k)"
  by (simp add: advanceLocked_def adv_timers_eq adv_sleepers_eq Let_def)

text \<open>An operation that does not move the clock.\<close>

fun moves :: "clock_op \<Rightarrow> bool" where
  "moves (OSet t) = True"
| "moves (OAdd d) = True"
| "moves _ = False"

lemma step_still_now: "\<not> moves op \<Longrightarrow> fc_now (clock_step f op) = fc_now f"
  by (cases op) (simp_all add: clock_op_defs)

lemma step_moves:
  assumes "moves op"
  obtains t where "clock_step f op = advanceLocked f t"
  using assms by (cases op) (simp_all add: fc_Set_def fc_Add_def)

lemma step_next: "fc_next f \<le> fc_next (clock_step f op)"
  by (cases op) (simp_all add: clock_op_defs)

lemma step_still_timer:
  assumes "\<not> moves op" and "\<not> on_timer k op" and "k < fc_next f"
  shows "fc_timer (clock_step f op) k = fc_timer f k" "k \<in> set (fc_timers f) \<Longrightarrow> k \<in> set (fc_timers (clock_step f op))"
  using assms by (cases op; auto simp: clock_op_defs)+

lemma step_still_sleeper:
  assumes "\<not> moves op" and "k < fc_next f"
  shows "fc_sleeper (clock_step f op) k = fc_sleeper f k" "k \<in> set (fc_sleepWaiters f) \<Longrightarrow> k \<in> set (fc_sleepWaiters (clock_step f op))"
  using assms by (cases op; auto simp: clock_op_defs)+

text \<open>A timer that has been started with deadline \<open>D\<close>: pending and listed, or fired with \<open>D\<close> in its channel.\<close>

definition timer_at :: "FakeClock \<Rightarrow> nat \<Rightarrow> time \<Rightarrow> bool \<Rightarrow> bool" where
  "timer_at f k D fired \<longleftrightarrow> k < fc_next f \<and>
     fc_timer f k = \<lparr>ft_c = if fired then Some D else None, ft_deadline = D, ft_stopped = fired\<rparr> \<and>
     (\<not> fired \<longrightarrow> k \<in> set (fc_timers f) \<and> fc_now f < D)"

lemma timer_at_step:
  assumes "timer_at f k D fired" and "\<not> on_timer k op"
  shows "timer_at (clock_step f op) k D (fired \<or> D \<le> fc_now (clock_step f op))"
proof (cases "moves op")
  case True
  then obtain t where t: "clock_step f op = advanceLocked f t" by (rule step_moves)
  show ?thesis
    using assms(1) unfolding t timer_at_def by (auto simp: advanceLocked_timer send_nb_def)
next
  case False
  have k: "k < fc_next f" using assms(1) by (simp add: timer_at_def)
  show ?thesis
    using assms(1) step_next [of f op] step_still_now [OF False, of f] step_still_timer [OF False assms(2) k]
    by (auto simp: timer_at_def)
qed

lemma timer_at_run:
  "timer_at f k D fired \<Longrightarrow> \<forall>op \<in> set ops. \<not> on_timer k op \<Longrightarrow>
     timer_at (clock_run f ops) k D (fired \<or> (\<exists>t \<in> set (readings f ops). D \<le> t))"
proof (induction ops arbitrary: f fired)
  case (Cons op ops)
  from Cons.IH [OF timer_at_step [OF Cons.prems(1), of op]] Cons.prems(2) show ?case by (simp add: disj_assoc)
qed simp

lemma timer_at_NewTimer: "0 < d \<Longrightarrow> timer_at (fst (fc_NewTimer f d)) (snd (fc_NewTimer f d)) (fc_now f + d) False"
  by (simp add: timer_at_def fc_NewTimer_def Let_def time_add_def)

definition sleeper_at :: "FakeClock \<Rightarrow> nat \<Rightarrow> time \<Rightarrow> bool \<Rightarrow> bool" where
  "sleeper_at f k D woken \<longleftrightarrow> k < fc_next f \<and> fc_sleeper f k = \<lparr>sw_deadline = D, sw_done = woken\<rparr> \<and>
     (\<not> woken \<longrightarrow> k \<in> set (fc_sleepWaiters f) \<and> fc_now f < D)"

lemma sleeper_at_step:
  assumes "sleeper_at f k D woken"
  shows "sleeper_at (clock_step f op) k D (woken \<or> D \<le> fc_now (clock_step f op))"
proof (cases "moves op")
  case True
  then obtain t where t: "clock_step f op = advanceLocked f t" by (rule step_moves)
  show ?thesis
    using assms(1) unfolding t sleeper_at_def by (auto simp: advanceLocked_sleeper)
next
  case False
  have k: "k < fc_next f" using assms(1) by (simp add: sleeper_at_def)
  show ?thesis
    using assms(1) step_next [of f op] step_still_now [OF False, of f] step_still_sleeper [OF False k]
    by (auto simp: sleeper_at_def)
qed

lemma sleeper_at_run:
  "sleeper_at f k D woken \<Longrightarrow> sleeper_at (clock_run f ops) k D (woken \<or> (\<exists>t \<in> set (readings f ops). D \<le> t))"
proof (induction ops arbitrary: f woken)
  case (Cons op ops)
  from Cons.IH [OF sleeper_at_step [OF Cons.prems, of op]] show ?case by (simp add: disj_assoc)
qed simp

text \<open>A stopped timer stays as it is until its holder does something.\<close>

lemma stopped_run:
  "ft_stopped (fc_timer f k) \<Longrightarrow> k < fc_next f \<Longrightarrow> \<forall>op \<in> set ops. \<not> on_timer k op \<Longrightarrow> fc_timer (clock_run f ops) k = fc_timer f k"
proof (induction ops arbitrary: f)
  case (Cons op ops)
  have "fc_timer (clock_step f op) k = fc_timer f k"
  proof (cases "moves op")
    case True
    then obtain t where t: "clock_step f op = advanceLocked f t" by (rule step_moves)
    show ?thesis using Cons.prems(1) unfolding t by (simp add: advanceLocked_timer)
  qed (use Cons.prems step_still_timer(1) in auto)
  then show ?case using Cons.IH [of "clock_step f op"] Cons.prems step_next [of f op] by simp
qed simp

text \<open>
  C36: A timer of the simulated clock that is started for a positive time fires if and only if the clock is
  afterwards set to its deadline or later, whatever else is done to the clock: then it is stopped and its
  channel holds the deadline, once; otherwise it is still active and its channel is empty. \<open>Stop\<close> returns
  true exactly if the timer has not fired, and after it the channel receives nothing however far the clock
  advances. A call of \<open>Sleep\<close> wakes up by the same rule.
\<close>

theorem fake_timer_fires:
  fixes f :: FakeClock and d :: duration
  assumes "0 < d" and "\<forall>op \<in> set ops \<union> set ops'. \<not> on_timer k op"
    and "fc_NewTimer f d = (f1, k)" and "f2 = clock_run f1 ops" and "timer_Stop f2 k = (f3, ok)"
    and "fc_Sleep f d = (g1, Some j)"
  shows "fc_timer f2 k =
      (if \<exists>t \<in> set (readings f1 ops). fc_now f + d \<le> t
       then \<lparr>ft_c = Some (fc_now f + d), ft_deadline = fc_now f + d, ft_stopped = True\<rparr>
       else \<lparr>ft_c = None, ft_deadline = fc_now f + d, ft_stopped = False\<rparr>) \<and>
    (ok \<longleftrightarrow> (\<forall>t \<in> set (readings f1 ops). t < fc_now f + d)) \<and>
    ft_c (fc_timer (clock_run f3 ops') k) = ft_c (fc_timer f2 k) \<and>
    (sw_done (fc_sleeper (clock_run g1 ops) j) \<longleftrightarrow> (\<exists>t \<in> set (readings g1 ops). fc_now f + d \<le> t))"
proof -
  let ?D = "fc_now f + d" let ?F = "\<exists>t \<in> set (readings f1 ops). ?D \<le> t"
  have "timer_at f1 k ?D False" using timer_at_NewTimer [OF assms(1), of f] assms(3) by simp
  from timer_at_run [OF this, of ops] have at: "timer_at f2 k ?D ?F" using assms(2) by (simp add: assms(4))
  have f3: "ft_c (fc_timer f3 k) = ft_c (fc_timer f2 k)" "ft_stopped (fc_timer f3 k)" "k < fc_next f3" "ok \<longleftrightarrow> \<not> ?F"
    using assms(5) at by (auto simp: timer_Stop_def timer_at_def split: if_splits)
  have "sleeper_at g1 j ?D False" using assms(1,6) by (auto simp: sleeper_at_def fc_Sleep_def Let_def time_add_def)
  from sleeper_at_run [OF this, of ops]
  have "sw_done (fc_sleeper (clock_run g1 ops) j) \<longleftrightarrow> (\<exists>t \<in> set (readings g1 ops). ?D \<le> t)" by (simp add: sleeper_at_def)
  moreover have "fc_timer (clock_run f3 ops') k = fc_timer f3 k"
    using stopped_run [OF f3(2,3)] assms(2) by simp
  ultimately show ?thesis using at f3(1,4) unfolding timer_at_def by (auto simp: not_le)
qed

theorem fake_timer_fires_witness:
  "let f1 = fst (fc_NewTimer (NewFakeAt 0) 10); f2 = clock_run f1 [OAdd 4, ONewTimer 1, OAdd 7] in
   fc_timer f2 0 = \<lparr>ft_c = Some 10, ft_deadline = 10, ft_stopped = True\<rparr> \<and> \<not> snd (timer_Stop f2 0) \<and>
   sw_done (fc_sleeper (clock_run (fst (fc_Sleep (NewFakeAt 0) 10)) [OAdd 4, ONewTimer 1, OAdd 7]) 0)"
  using fake_timer_fires [of 10 "[OAdd 4, ONewTimer 1, OAdd 7]" "[OAdd 5]" 0 "NewFakeAt 0" "fst (fc_NewTimer (NewFakeAt 0) 10)"
      "clock_run (fst (fc_NewTimer (NewFakeAt 0) 10)) [OAdd 4, ONewTimer 1, OAdd 7]"
      "fst (timer_Stop (clock_run (fst (fc_NewTimer (NewFakeAt 0) 10)) [OAdd 4, ONewTimer 1, OAdd 7]) 0)"
      "snd (timer_Stop (clock_run (fst (fc_NewTimer (NewFakeAt 0) 10)) [OAdd 4, ONewTimer 1, OAdd 7]) 0)"
      "fst (fc_Sleep (NewFakeAt 0) 10)" 0]
  by (simp add: clock_op_defs NewFakeAt_def time_add_def advanceLocked_timer send_nb_def)

text \<open>
  C37: When the clock advances, a running ticker moves to its next tick after the new time, without losing
  the rhythm: the new deadline is a whole number of periods after the old one, lies after the clock and at
  most one period after it once a tick was due, and the channel, if it was empty, receives the first tick
  that was due; later ticks of the same advance are dropped.
\<close>

theorem fake_ticker_keeps_rhythm:
  assumes "k \<in> set (fc_tickers f)" and "\<not> tk_stopped (fc_ticker f k)" and "0 < tk_period (fc_ticker f k)"
    and "old = fc_ticker f k" and "new = fc_ticker (advanceLocked f t) k"
  shows "k \<in> set (fc_tickers (advanceLocked f t)) \<and> \<not> tk_stopped new \<and> tk_period new = tk_period old \<and>
    tk_period old dvd tk_deadline new - tk_deadline old \<and> t < tk_deadline new \<and>
    (if t < tk_deadline old then new = old
     else tk_deadline new \<le> t + tk_period old \<and> tk_c new = send_nb (tk_deadline old) (tk_c old))"
proof -
  let ?p = "tk_period old" and ?q = "t - tk_deadline old"
  have p: "0 < ?p" using assms(3,4) by simp
  have new: "new = tick_loop t old" using assms by (simp add: adv_tickers_eq)
  have "?q = ?q div ?p * ?p + ?q mod ?p" by simp
  moreover have "0 \<le> ?q mod ?p" "?q mod ?p < ?p" using p by simp_all
  ultimately have q: "?q < (?q div ?p + 1) * ?p" "(?q div ?p + 1) * ?p \<le> ?q + ?p" unfolding distrib_right by linarith+
  have e: "new = old\<lparr>tk_deadline := tk_deadline old + ticks_due t old * ?p,
      tk_c := if t < tk_deadline old then tk_c old else send_nb (tk_deadline old) (tk_c old)\<rparr>"
    unfolding new using assms(2,3,4) by (simp add: tick_loop_eq)
  show ?thesis
  proof (cases "t < tk_deadline old")
    case True
    then show ?thesis using assms(1,2,4) e by (simp add: ticks_due_def)
  next
    case False
    then have "tk_deadline new = tk_deadline old + (?q div ?p + 1) * ?p" by (simp add: e ticks_due_def)
    with q have "t < tk_deadline new" "tk_deadline new \<le> t + ?p" by linarith+
    with False show ?thesis using assms(1,2,4) by (simp add: e)
  qed
qed

theorem fake_ticker_keeps_rhythm_witness:
  "let f = fst (fc_NewTicker (NewFakeAt 0) 10); new = fc_ticker (advanceLocked f 35) 0 in
   \<not> tk_stopped new \<and> 35 < tk_deadline new \<and> tk_deadline new \<le> 45 \<and> tk_c new = Some 10"
  using fake_ticker_keeps_rhythm [of 0 "fst (fc_NewTicker (NewFakeAt 0) 10)" _ _ 35, OF _ _ _ refl refl]
  by (simp add: fc_NewTicker_def NewFakeAt_def Let_def time_add_def send_nb_def)

end
