(* ===== verification/Worker_Pool.thy ===== *)
theory Worker_Pool
  imports Go_Prelude "HOL-Library.Multiset"
begin

text \<open>
  Package \<open>workerpool\<close> (\<open>src/workerpool/workerpool.go\<close>): a fixed number of goroutines that run the tasks of a
  buffered channel, and the calls that submit tasks and stop the pool. Any number of goroutines call the
  pool; each has a sequence point, and \<open>pool_step\<close> interleaves their steps with those of the workers. A step
  ends where another goroutine can observe the difference: at the lock, at a channel, after a send. The
  read lock is held by the goroutines whose sequence point is \<open>holds\<close>; as in \<open>sync.RWMutex\<close> a writer waits for
  the readers, and a waiting writer keeps new readers out. A send on a closed channel panics, which sets
  \<open>s_panicked\<close>. Tasks are values; how a task ends is chosen when it runs.
\<close>

record 't Pool =
  p_workers :: int
  p_cap :: int
  p_tasks :: "'t list"
  p_tasks_closed :: bool
  p_isClosed :: bool
  p_closed :: bool
  p_panicHandler :: bool
  p_submitted :: nat
  p_completed :: nat
  p_dropped :: nat
  p_panics :: nat
  p_queueSize :: int

text \<open>\<open>New\<close>; \<open>make\<close> panics on a negative capacity, and \<open>workers * 2\<close> may wrap around.\<close>

definition pool_New :: "int \<Rightarrow> int \<Rightarrow> bool \<Rightarrow> 't Pool option" where
  "pool_New workers queueSize handler =
     (let workers = (if workers \<le> 0 then 1 else workers);
          queueSize = (if queueSize \<le> 0 then wrap64 (workers * 2) else queueSize)
      in if queueSize < 0 then None
         else Some \<lparr>p_workers = workers, p_cap = queueSize, p_tasks = [], p_tasks_closed = False, p_isClosed = False,
           p_closed = False, p_panicHandler = handler, p_submitted = 0, p_completed = 0, p_dropped = 0, p_panics = 0,
           p_queueSize = 0\<rparr>)"

text \<open>How a task ends, and how the panic handler ends if it is called; what is logged or handled.\<close>

datatype task_end = TaskReturns | TaskPanics

datatype handler_end = HandlerReturns | HandlerPanics

datatype pool_log = LogHandlerPanicked | LogPanicRecovered | HandlerCalled

definition executeSafely :: "'t Pool \<Rightarrow> task_end \<Rightarrow> handler_end \<Rightarrow> 't Pool \<times> pool_log list" where
  "executeSafely p te he =
     (case te of
        TaskPanics \<Rightarrow>
          (p\<lparr>p_panics := p_panics p + 1\<rparr>,
           if p_panicHandler p then HandlerCalled # (if he = HandlerPanics then [LogHandlerPanicked] else []) else [LogPanicRecovered])
      | TaskReturns \<Rightarrow> (p\<lparr>p_completed := p_completed p + 1\<rparr>, []))"

definition p_IsClosed :: "'t Pool \<Rightarrow> bool" where
  "p_IsClosed p = (if p_isClosed p then True else p_closed p)"

definition p_drop :: "'t Pool \<Rightarrow> 't Pool" where
  "p_drop p = p\<lparr>p_dropped := p_dropped p + 1\<rparr>"

definition p_send :: "'t Pool \<Rightarrow> 't \<Rightarrow> 't Pool" where
  "p_send p t = p\<lparr>p_tasks := p_tasks p @ [t]\<rparr>"

definition p_count :: "'t Pool \<Rightarrow> 't Pool" where
  "p_count p = p\<lparr>p_submitted := p_submitted p + 1, p_queueSize := int (length (p_tasks p))\<rparr>"

text \<open>The submitting call: \<open>Submit\<close>, or \<open>SubmitContext\<close> with its context.\<close>

datatype call = Try | Ctx nat

datatype submit_result = Accepted | NilTask | PoolClosed | QueueFull | CtxErr

datatype 't pc =
    Idle
  | SubLock call 't
  | SubCheck call 't
  | SubSelect call 't
  | SubSend call 't
  | SubSent call 't
  | SubRet submit_result
  | StopClosed bool
  | StopLock bool
  | StopOnce bool
  | WgWait
  | WgDone

fun holds :: "'t pc \<Rightarrow> bool" where
  "holds (SubCheck c t) = True"
| "holds (SubSelect c t) = True"
| "holds (SubSend c t) = True"
| "holds (SubSent c t) = True"
| "holds _ = False"

datatype 't wstate = WRecv | WRun 't | WExit

datatype once = NotStarted | Running | Finished

text \<open>
  The whole system. \<open>s_accepted\<close>, \<open>s_started\<close> and \<open>s_executed\<close> record the tasks sent, taken and run so far,
  \<open>s_ctx\<close> the contexts that have ended; \<open>s_wwait\<close> is set while a writer waits for the lock.
\<close>

record 't sys =
  s_pool :: "'t Pool"
  s_pc :: "nat \<Rightarrow> 't pc"
  s_ws :: "'t wstate list"
  s_once :: once
  s_wwait :: bool
  s_ctx :: "nat \<Rightarrow> bool"
  s_panicked :: bool
  s_accepted :: "'t list"
  s_started :: "'t list"
  s_executed :: "'t list"

definition sys_start :: "'t Pool \<Rightarrow> 't sys" where
  "sys_start p = \<lparr>s_pool = p, s_pc = (\<lambda>_. Idle), s_ws = replicate (nat (p_workers p)) WRecv, s_once = NotStarted,
     s_wwait = False, s_ctx = (\<lambda>_. False), s_panicked = False, s_accepted = [], s_started = [], s_executed = []\<rparr>"

definition goto :: "nat \<Rightarrow> 't pc \<Rightarrow> 't sys \<Rightarrow> 't sys" where
  "goto i c s = s\<lparr>s_pc := (s_pc s)(i := c)\<rparr>"

definition on_pool :: "('t Pool \<Rightarrow> 't Pool) \<Rightarrow> 't sys \<Rightarrow> 't sys" where
  "on_pool f s = s\<lparr>s_pool := f (s_pool s)\<rparr>"

text \<open>A call that returns without sending: the counter of dropped tasks, then the result.\<close>

definition drop_ret :: "nat \<Rightarrow> submit_result \<Rightarrow> 't sys \<Rightarrow> 't sys" where
  "drop_ret i r s = goto i (SubRet r) (on_pool p_drop s)"

text \<open>The send itself, in a \<open>select\<close> that chose it.\<close>

definition do_send :: "nat \<Rightarrow> call \<Rightarrow> 't \<Rightarrow> 't sys \<Rightarrow> 't sys" where
  "do_send i c t s =
     (if p_tasks_closed (s_pool s) then s\<lparr>s_panicked := True\<rparr>
      else goto i (SubSent c t) (on_pool (\<lambda>p. p_send p t) s)\<lparr>s_accepted := s_accepted s @ [t]\<rparr>)"

definition has_room :: "'t Pool \<Rightarrow> bool" where
  "has_room p \<longleftrightarrow> int (length (p_tasks p)) < p_cap p"

inductive pool_step :: "'t sys \<Rightarrow> 't sys \<Rightarrow> bool" where
  submit_nil: "s_pc s i = Idle \<Longrightarrow> pool_step s (goto i (SubRet NilTask) s)"
| submit_ended: "s_pc s i = Idle \<Longrightarrow> s_ctx s c \<Longrightarrow> pool_step s (drop_ret i CtxErr s)"
| submit_try: "s_pc s i = Idle \<Longrightarrow> pool_step s (goto i (SubLock Try t) s)"
| submit_ctx: "s_pc s i = Idle \<Longrightarrow> \<not> s_ctx s j \<Longrightarrow> pool_step s (goto i (SubLock (Ctx j) t) s)"
| rlock: "s_pc s i = SubLock c t \<Longrightarrow> \<not> s_wwait s \<Longrightarrow> pool_step s (goto i (SubCheck c t) s)"
| check_closed: "s_pc s i = SubCheck c t \<Longrightarrow> p_isClosed (s_pool s) \<Longrightarrow> pool_step s (drop_ret i PoolClosed s)"
| check_open: "s_pc s i = SubCheck c t \<Longrightarrow> \<not> p_isClosed (s_pool s) \<Longrightarrow> pool_step s (goto i (SubSelect c t) s)"
| select_closed: "s_pc s i = SubSelect c t \<Longrightarrow> p_closed (s_pool s) \<Longrightarrow> pool_step s (drop_ret i PoolClosed s)"
| select_default: "s_pc s i = SubSelect c t \<Longrightarrow> \<not> p_closed (s_pool s) \<Longrightarrow> pool_step s (goto i (SubSend c t) s)"
| send: "s_pc s i = SubSend c t \<Longrightarrow> p_tasks_closed (s_pool s) \<or> has_room (s_pool s) \<Longrightarrow> pool_step s (do_send i c t s)"
| send_full: "s_pc s i = SubSend Try t \<Longrightarrow> \<not> p_tasks_closed (s_pool s) \<Longrightarrow> \<not> has_room (s_pool s) \<Longrightarrow>
    pool_step s (drop_ret i QueueFull s)"
| send_closed: "s_pc s i = SubSend (Ctx j) t \<Longrightarrow> p_closed (s_pool s) \<Longrightarrow> pool_step s (drop_ret i PoolClosed s)"
| send_ended: "s_pc s i = SubSend (Ctx j) t \<Longrightarrow> s_ctx s j \<Longrightarrow> pool_step s (drop_ret i CtxErr s)"
| sent: "s_pc s i = SubSent c t \<Longrightarrow> pool_step s (goto i (SubRet Accepted) (on_pool p_count s))"
| submit_return: "s_pc s i = SubRet r \<Longrightarrow> pool_step s (goto i Idle s)"
| ctx_end: "pool_step s (s\<lparr>s_ctx := (s_ctx s)(j := True)\<rparr>)"
| stop_close: "s_pc s i = Idle \<Longrightarrow> s_once s = NotStarted \<Longrightarrow>
    pool_step s (goto i (StopClosed w) (on_pool (\<lambda>p. p\<lparr>p_closed := True\<rparr>) s)\<lparr>s_once := Running\<rparr>)"
| stop_lock: "s_pc s i = StopClosed w \<Longrightarrow> pool_step s (goto i (StopLock w) s\<lparr>s_wwait := True\<rparr>)"
| stop_locked: "s_pc s i = StopLock w \<Longrightarrow> (\<forall>j. \<not> holds (s_pc s j)) \<Longrightarrow>
    pool_step s (goto i (StopOnce w) (on_pool (\<lambda>p. p\<lparr>p_isClosed := True, p_tasks_closed := True\<rparr>) s)
      \<lparr>s_once := Finished, s_wwait := False, s_panicked := (s_panicked s \<or> p_tasks_closed (s_pool s))\<rparr>)"
| stop_again: "s_pc s i = Idle \<Longrightarrow> s_once s = Finished \<Longrightarrow> pool_step s (goto i (StopOnce w) s)"
| stop_return: "s_pc s i = StopOnce w \<Longrightarrow> pool_step s (goto i (if w then WgWait else Idle) s)"
| wg_wait: "s_pc s i = WgWait \<Longrightarrow> set (s_ws s) \<subseteq> {WExit} \<Longrightarrow> pool_step s (goto i WgDone s)"
| worker_recv: "k < length (s_ws s) \<Longrightarrow> s_ws s ! k = WRecv \<Longrightarrow> p_tasks (s_pool s) = t # ts \<Longrightarrow>
    pool_step s (on_pool (\<lambda>p. p\<lparr>p_tasks := ts, p_queueSize := int (length ts)\<rparr>) s
      \<lparr>s_ws := (s_ws s)[k := WRun t], s_started := s_started s @ [t]\<rparr>)"
| worker_exec: "k < length (s_ws s) \<Longrightarrow> s_ws s ! k = WRun t \<Longrightarrow>
    pool_step s (on_pool (\<lambda>p. fst (executeSafely p te he)) s\<lparr>s_ws := (s_ws s)[k := WRecv], s_executed := s_executed s @ [t]\<rparr>)"
| worker_exit: "k < length (s_ws s) \<Longrightarrow> s_ws s ! k = WRecv \<Longrightarrow> p_tasks (s_pool s) = [] \<Longrightarrow> p_tasks_closed (s_pool s) \<Longrightarrow>
    pool_step s (s\<lparr>s_ws := (s_ws s)[k := WExit]\<rparr>)"

section \<open>The invariant\<close>

lemmas pool_defs = goto_def on_pool_def drop_ret_def p_drop_def p_send_def p_count_def

fun wtask :: "'t wstate \<Rightarrow> 't multiset" where
  "wtask (WRun t) = {#t#}"
| "wtask _ = {#}"

definition running :: "'t wstate list \<Rightarrow> 't multiset" where
  "running ws = sum_list (map wtask ws)"

lemma running_update: "k < length ws \<Longrightarrow> running (ws[k := w]) + wtask (ws ! k) = running ws + wtask w"
proof (induction ws arbitrary: k)
  case (Cons v ws)
  show ?case
  proof (cases k)
    case (Suc m)
    then have "running (ws[m := w]) + wtask (ws ! m) = running ws + wtask w" using Cons by simp
    then have "wtask v + (running (ws[m := w]) + wtask (ws ! m)) = wtask v + (running ws + wtask w)" by (simp only:)
    then show ?thesis by (simp add: Suc running_def ac_simps)
  qed (simp add: running_def ac_simps)
qed simp

lemma running_exited: "set ws \<subseteq> {WExit} \<Longrightarrow> running ws = {#}"
  by (induction ws) (auto simp: running_def)

lemma running_replicate [simp]: "running (replicate n WRecv) = {#}"
  by (induction n) (simp_all add: running_def)

text \<open>Where the two channels, the flag and the once guard stand to one another.\<close>

fun stopping :: "'t pc \<Rightarrow> bool" where
  "stopping (StopClosed w) = True"
| "stopping (StopLock w) = True"
| "stopping _ = False"

fun sending :: "'t pc \<Rightarrow> bool" where
  "sending (SubSelect c t) = True"
| "sending (SubSend c t) = True"
| "sending (SubSent c t) = True"
| "sending _ = False"

lemma sending_holds: "sending c \<Longrightarrow> holds c"
  by (cases c) simp_all

definition stop_inv :: "'t sys \<Rightarrow> bool" where
  "stop_inv s \<longleftrightarrow> \<not> s_panicked s \<and>
     (p_tasks_closed (s_pool s) \<longleftrightarrow> s_once s = Finished) \<and> (p_isClosed (s_pool s) \<longleftrightarrow> s_once s = Finished) \<and>
     (p_closed (s_pool s) \<longleftrightarrow> s_once s \<noteq> NotStarted) \<and>
     (\<forall>i. stopping (s_pc s i) \<longrightarrow> s_once s = Running) \<and>
     (\<forall>i j. stopping (s_pc s i) \<longrightarrow> stopping (s_pc s j) \<longrightarrow> i = j) \<and>
     (\<forall>i w. s_pc s i = StopLock w \<longrightarrow> s_wwait s) \<and>
     (\<forall>i. sending (s_pc s i) \<longrightarrow> s_once s \<noteq> Finished)"

lemma stop_inv_start: "pool_New w q h = Some p \<Longrightarrow> stop_inv (sys_start p)"
  by (auto simp: stop_inv_def sys_start_def pool_New_def Let_def split: if_splits)

lemma executeSafely_frame [simp]:
  "p_tasks (fst (executeSafely p te he)) = p_tasks p" "p_tasks_closed (fst (executeSafely p te he)) = p_tasks_closed p"
  "p_isClosed (fst (executeSafely p te he)) = p_isClosed p" "p_closed (fst (executeSafely p te he)) = p_closed p"
  "p_cap (fst (executeSafely p te he)) = p_cap p" "p_submitted (fst (executeSafely p te he)) = p_submitted p"
  "p_completed (fst (executeSafely p te he)) + p_panics (fst (executeSafely p te he)) = p_completed p + p_panics p + 1"
  by (cases te; simp add: executeSafely_def)+

lemma stop_inv_cong:
  assumes "stop_inv s" and "s_panicked s' = s_panicked s" and "s_pc s' = s_pc s" and "s_once s' = s_once s" and "s_wwait s' = s_wwait s"
    and "p_tasks_closed (s_pool s') = p_tasks_closed (s_pool s)" and "p_isClosed (s_pool s') = p_isClosed (s_pool s)"
    and "p_closed (s_pool s') = p_closed (s_pool s)"
  shows "stop_inv s'"
  using assms(1) unfolding stop_inv_def assms(2-) .

lemma stop_inv_goto:
  assumes "stop_inv s" and "\<not> stopping c" and "sending c \<longrightarrow> s_once s \<noteq> Finished"
  shows "stop_inv (goto i c s)"
proof -
  have "stopping (s_pc (goto i c s) j) \<Longrightarrow> stopping (s_pc s j)" "sending (s_pc (goto i c s) j) \<Longrightarrow> s_once s \<noteq> Finished"
    "s_pc (goto i c s) j = StopLock w \<Longrightarrow> s_pc s j = StopLock w" for j w
    using assms by (auto simp: goto_def stop_inv_def split: if_splits)
  moreover have "s_pool (goto i c s) = s_pool s" "s_once (goto i c s) = s_once s" "s_wwait (goto i c s) = s_wwait s"
    "s_panicked (goto i c s) = s_panicked s" by (simp_all add: goto_def)
  ultimately show ?thesis using assms(1) unfolding stop_inv_def by metis
qed

lemma stop_inv_drop: "stop_inv s \<Longrightarrow> stop_inv (drop_ret i r s)"
  unfolding drop_ret_def by (intro stop_inv_goto, erule stop_inv_cong) (simp_all add: on_pool_def p_drop_def)

lemma stop_inv_open: "stop_inv s \<Longrightarrow> sending (s_pc s i) \<Longrightarrow> s_once s \<noteq> Finished \<and> \<not> p_tasks_closed (s_pool s)"
  by (auto simp: stop_inv_def)

lemma stop_inv_stopping:
  assumes "stop_inv s" and "stopping (s_pc s i)"
  shows "s_once s = Running" "stopping (s_pc s j) \<longleftrightarrow> j = i" "s_pc s j = StopLock w \<Longrightarrow> j = i"
proof -
  have U: "stopping (s_pc s a) \<Longrightarrow> stopping (s_pc s b) \<Longrightarrow> a = b" for a b using assms(1) unfolding stop_inv_def by blast
  show "s_once s = Running" using assms unfolding stop_inv_def by blast
  show u: "stopping (s_pc s j) \<longleftrightarrow> j = i" using U [of j i] assms(2) by blast
  assume "s_pc s j = StopLock w"
  then show "j = i" using u by simp
qed

lemma stop_inv_step:
  assumes "pool_step s s'" and inv: "stop_inv s"
  shows "stop_inv s'"
  using assms(1)
proof (cases rule: pool_step.cases)
  case (check_open i c t)
  then have "s_once s \<noteq> Finished" using inv by (auto simp: stop_inv_def)
  then show ?thesis using check_open inv by (simp add: stop_inv_goto)
next
  case (select_default i c t)
  then have "s_once s \<noteq> Finished" using stop_inv_open [OF inv, of i] by simp
  then show ?thesis using select_default inv by (simp add: stop_inv_goto)
next
  case (send i c t)
  then have o: "s_once s \<noteq> Finished" "\<not> p_tasks_closed (s_pool s)" using stop_inv_open [OF inv, of i] by simp_all
  have "stop_inv (goto i (SubSent c t) s)" using inv o(1) by (intro stop_inv_goto) simp_all
  then show ?thesis
    unfolding send(1) do_send_def if_not_P [OF o(2)] by (rule stop_inv_cong) (simp_all add: goto_def on_pool_def p_send_def)
next
  case (sent i c t)
  have "stop_inv (goto i (SubRet Accepted) s)" using inv by (intro stop_inv_goto) simp_all
  then show ?thesis unfolding sent(1) by (rule stop_inv_cong) (simp_all add: goto_def on_pool_def p_count_def)
next
  case (stop_locked i w)
  have st: "stopping (s_pc s i)" using stop_locked by simp
  have ns: "\<not> sending (s_pc s j)" for j using stop_locked(3) sending_holds by blast
  have "\<not> stopping (s_pc s' j)" "\<not> sending (s_pc s' j)" "s_pc s' j \<noteq> StopLock v" for j v
    using stop_inv_stopping(2,3) [OF inv st, of j] ns unfolding stop_locked(1) by (auto simp: pool_defs)
  moreover have "\<not> s_panicked s'" "s_once s' = Finished" "p_closed (s_pool s')" "p_isClosed (s_pool s')" "p_tasks_closed (s_pool s')"
    using inv stop_inv_stopping(1) [OF inv st] unfolding stop_locked(1) stop_inv_def by (simp_all add: pool_defs)
  ultimately show ?thesis unfolding stop_inv_def by simp
next
  case (stop_close i w)
  then have "\<not> stopping (s_pc s j)" for j using inv by (auto simp: stop_inv_def)
  moreover from this have "s_pc s j \<noteq> StopLock v" for j v by (metis stopping.simps(2))
  ultimately show ?thesis using stop_close inv unfolding stop_inv_def by (auto simp: pool_defs)
next
  case (stop_lock i w)
  then have "stopping (s_pc s i)" by simp
  note st = stop_inv_stopping [OF inv this]
  show ?thesis using stop_lock inv st(1,2) unfolding stop_inv_def by (simp add: pool_defs)
next
  case (worker_recv k t ts)
  show ?thesis unfolding worker_recv(1) using inv by (rule stop_inv_cong) (simp_all add: on_pool_def)
next
  case (worker_exec k t te he)
  show ?thesis unfolding worker_exec(1) using inv by (rule stop_inv_cong) (simp_all add: on_pool_def)
next
  case (worker_exit k)
  show ?thesis unfolding worker_exit(1) using inv by (rule stop_inv_cong) simp_all
next
  case (ctx_end j)
  show ?thesis unfolding ctx_end(1) using inv by (rule stop_inv_cong) simp_all
qed (simp_all add: stop_inv_goto [OF inv] stop_inv_drop [OF inv])

section \<open>Every accepted task\<close>

definition sent_by :: "'t sys \<Rightarrow> nat set" where
  "sent_by s = {i. \<exists>c t. s_pc s i = SubSent c t}"

definition acct_inv :: "'t sys \<Rightarrow> bool" where
  "acct_inv s \<longleftrightarrow> s_ws s \<noteq> [] \<and> s_accepted s = s_started s @ p_tasks (s_pool s) \<and>
     mset (s_started s) = mset (s_executed s) + running (s_ws s) \<and> int (length (p_tasks (s_pool s))) \<le> p_cap (s_pool s) \<and>
     (WExit \<in> set (s_ws s) \<longrightarrow> p_tasks_closed (s_pool s) \<and> p_tasks (s_pool s) = []) \<and>
     p_completed (s_pool s) + p_panics (s_pool s) = length (s_executed s) \<and>
     finite (sent_by s) \<and> p_submitted (s_pool s) + card (sent_by s) = length (s_accepted s) \<and>
     (\<forall>i. s_pc s i = WgDone \<longrightarrow> set (s_ws s) \<subseteq> {WExit})"

lemma acct_inv_start: "pool_New w q h = Some p \<Longrightarrow> acct_inv (sys_start p)"
  by (auto simp: acct_inv_def sys_start_def pool_New_def Let_def sent_by_def split: if_splits)

text \<open>A step of a caller that leaves the accounts alone.\<close>

lemma acct_inv_cong:
  assumes "acct_inv s" and "s_ws s' = s_ws s" and "s_accepted s' = s_accepted s" and "s_started s' = s_started s"
    and "s_executed s' = s_executed s" and "p_tasks (s_pool s') = p_tasks (s_pool s)" and "p_cap (s_pool s') = p_cap (s_pool s)"
    and "p_tasks_closed (s_pool s) \<longrightarrow> p_tasks_closed (s_pool s')"
    and "p_completed (s_pool s') = p_completed (s_pool s)" and "p_panics (s_pool s') = p_panics (s_pool s)"
    and "p_submitted (s_pool s') = p_submitted (s_pool s)" and "sent_by s' = sent_by s"
    and "\<forall>i. s_pc s' i = WgDone \<longrightarrow> s_pc s i = WgDone \<or> set (s_ws s) \<subseteq> {WExit}"
  shows "acct_inv s'"
  using assms(1,8,13) unfolding acct_inv_def assms(2-7,9-12) by blast

lemma sent_by_goto: "sent_by (goto i c s) = (if (\<exists>k t. c = SubSent k t) then insert i (sent_by s) else sent_by s - {i})"
  by (auto simp: sent_by_def goto_def)

lemma acct_inv_goto:
  assumes "acct_inv s" and "i \<notin> sent_by s" and "\<forall>k t. c \<noteq> SubSent k t" and "c \<noteq> WgDone"
  shows "acct_inv (goto i c s)"
proof (rule acct_inv_cong [OF assms(1)])
  show "sent_by (goto i c s) = sent_by s" using assms(2,3) by (auto simp: sent_by_goto)
  show "\<forall>j. s_pc (goto i c s) j = WgDone \<longrightarrow> s_pc s j = WgDone \<or> set (s_ws s) \<subseteq> {WExit}" using assms(4) by (simp add: goto_def)
qed (simp_all add: goto_def)

lemma acct_inv_drop: "acct_inv s \<Longrightarrow> i \<notin> sent_by s \<Longrightarrow> acct_inv (drop_ret i r s)"
  unfolding drop_ret_def
  by (rule acct_inv_goto, erule acct_inv_cong) (simp_all add: on_pool_def p_drop_def sent_by_def)

lemma not_sent: "(\<And>k t. c \<noteq> SubSent k t) \<Longrightarrow> s_pc s i = c \<Longrightarrow> i \<notin> sent_by s"
  by (simp add: sent_by_def)

lemma running_step:
  "k < length ws \<Longrightarrow> ws ! k = WRecv \<Longrightarrow> running (ws[k := WRun t]) = add_mset t (running ws)"
  "k < length ws \<Longrightarrow> ws ! k = WRun t \<Longrightarrow> running ws = add_mset t (running (ws[k := WRecv]))"
  "k < length ws \<Longrightarrow> ws ! k = WRecv \<Longrightarrow> running (ws[k := WExit]) = running ws"
  using running_update [of k ws "WRun t"] running_update [of k ws WRecv] running_update [of k ws WExit] by simp_all

lemma exit_update: "v \<noteq> WExit \<Longrightarrow> WExit \<in> set (ws[k := v]) \<Longrightarrow> WExit \<in> set ws"
  using set_update_subset_insert [of ws k v] by blast

lemma not_all_exited: "k < length ws \<Longrightarrow> ws ! k \<noteq> WExit \<Longrightarrow> \<not> set ws \<subseteq> {WExit}"
  using nth_mem by blast

lemma acct_inv_worker_recv:
  assumes "acct_inv s" and "k < length (s_ws s)" and "s_ws s ! k = WRecv" and "p_tasks (s_pool s) = t # ts"
  shows "acct_inv (on_pool (\<lambda>p. p\<lparr>p_tasks := ts, p_queueSize := int (length ts)\<rparr>) s
      \<lparr>s_ws := (s_ws s)[k := WRun t], s_started := s_started s @ [t]\<rparr>)"
proof -
  have "WExit \<notin> set (s_ws s)" using assms(1,4) by (auto simp: acct_inv_def)
  then have "WExit \<notin> set ((s_ws s)[k := WRun t])" using exit_update by blast
  moreover have "\<forall>i. s_pc s i \<noteq> WgDone" using not_all_exited [OF assms(2)] assms(1,3) by (auto simp: acct_inv_def)
  ultimately show ?thesis using assms running_step(1) [OF assms(2,3), of t]
    unfolding acct_inv_def by (simp add: on_pool_def sent_by_def)
qed

lemma acct_inv_worker_exec:
  assumes "acct_inv s" and "k < length (s_ws s)" and "s_ws s ! k = WRun t"
  shows "acct_inv (on_pool (\<lambda>p. fst (executeSafely p te he)) s\<lparr>s_ws := (s_ws s)[k := WRecv], s_executed := s_executed s @ [t]\<rparr>)"
proof -
  have "\<forall>i. s_pc s i \<noteq> WgDone" using not_all_exited [OF assms(2)] assms(1,3) by (auto simp: acct_inv_def)
  moreover have "WExit \<in> set ((s_ws s)[k := WRecv]) \<longrightarrow> WExit \<in> set (s_ws s)" using exit_update by blast
  ultimately show ?thesis using assms running_step(2) [OF assms(2,3)]
    unfolding acct_inv_def by (simp add: on_pool_def sent_by_def)
qed

lemma acct_inv_worker_exit:
  assumes "acct_inv s" and "k < length (s_ws s)" and "s_ws s ! k = WRecv" and "p_tasks (s_pool s) = []" and "p_tasks_closed (s_pool s)"
  shows "acct_inv (s\<lparr>s_ws := (s_ws s)[k := WExit]\<rparr>)"
proof -
  have "\<forall>i. s_pc s i \<noteq> WgDone" using not_all_exited [OF assms(2)] assms(1,3) by (auto simp: acct_inv_def)
  then show ?thesis using assms running_step(3) [OF assms(2,3)]
    unfolding acct_inv_def by (simp add: sent_by_def)
qed

lemma acct_inv_send:
  assumes "acct_inv s" and "stop_inv s" and "s_pc s i = SubSend c t" and "\<not> p_tasks_closed (s_pool s)" and "has_room (s_pool s)"
  shows "acct_inv (do_send i c t s)"
proof -
  define s1 where "s1 = goto i (SubSent c t) (on_pool (\<lambda>p. p_send p t) s)\<lparr>s_accepted := s_accepted s @ [t]\<rparr>"
  have i: "i \<notin> sent_by s" by (rule not_sent [OF _ assms(3)]) simp
  have "sent_by s1 = insert i (sent_by s)" by (auto simp: s1_def sent_by_def goto_def on_pool_def)
  then have "finite (sent_by s1) \<and> card (sent_by s1) = card (sent_by s) + 1" using i assms(1) by (simp add: acct_inv_def)
  moreover have "WExit \<notin> set (s_ws s)" using assms(1,4) by (auto simp: acct_inv_def)
  moreover have "\<forall>j. s_pc s1 j = WgDone \<longrightarrow> s_pc s j = WgDone" by (simp add: s1_def goto_def on_pool_def)
  moreover have "s_pool s1 = p_send (s_pool s) t" "s_ws s1 = s_ws s" "s_accepted s1 = s_accepted s @ [t]" "s_started s1 = s_started s"
    "s_executed s1 = s_executed s" by (simp_all add: s1_def goto_def on_pool_def)
  ultimately have "acct_inv s1" using assms(1,5) unfolding acct_inv_def by (auto simp: p_send_def has_room_def)
  then show ?thesis using assms(4) by (simp add: do_send_def s1_def)
qed

lemma acct_inv_sent:
  assumes "acct_inv s" and "s_pc s i = SubSent c t"
  shows "acct_inv (goto i (SubRet Accepted) (on_pool p_count s))"
proof -
  define s1 where "s1 = goto i (SubRet Accepted) (on_pool p_count s)"
  have i: "i \<in> sent_by s" using assms(2) by (auto simp: sent_by_def)
  have "sent_by s1 = sent_by s - {i}" by (auto simp: s1_def sent_by_def goto_def on_pool_def)
  moreover have "finite (sent_by s)" using assms(1) by (simp add: acct_inv_def)
  ultimately have "finite (sent_by s1) \<and> card (sent_by s1) + 1 = card (sent_by s)" using i by (metis Suc_eq_plus1 card_Suc_Diff1 finite_Diff)
  moreover have "\<forall>j. s_pc s1 j = WgDone \<longrightarrow> s_pc s j = WgDone" by (simp add: s1_def goto_def on_pool_def)
  moreover have "s_pool s1 = p_count (s_pool s)" "s_ws s1 = s_ws s" "s_accepted s1 = s_accepted s" "s_started s1 = s_started s"
    "s_executed s1 = s_executed s" by (simp_all add: s1_def goto_def on_pool_def)
  ultimately show ?thesis using assms(1) unfolding s1_def [symmetric] acct_inv_def by (auto simp: p_count_def)
qed

lemma acct_inv_step:
  assumes "pool_step s s'" and inv: "acct_inv s" and stop: "stop_inv s"
  shows "acct_inv s'"
  using assms(1)
proof (cases rule: pool_step.cases)
  case (send i c t)
  then have "\<not> p_tasks_closed (s_pool s)" using stop_inv_open [OF stop, of i] by simp
  then show ?thesis using send acct_inv_send [OF inv stop send(2)] by blast
next
  case (stop_close i w)
  have i: "i \<notin> sent_by s" using stop_close by (simp add: sent_by_def)
  show ?thesis unfolding stop_close(1)
    using acct_inv_goto [OF inv i, of "StopClosed w"] by (rule acct_inv_cong) (simp_all add: goto_def on_pool_def sent_by_def)
next
  case (stop_lock i w)
  have i: "i \<notin> sent_by s" using stop_lock by (simp add: sent_by_def)
  show ?thesis unfolding stop_lock(1)
    using acct_inv_goto [OF inv i, of "StopLock w"] by (rule acct_inv_cong) (simp_all add: goto_def sent_by_def)
next
  case (stop_locked i w)
  have i: "i \<notin> sent_by s" using stop_locked by (simp add: sent_by_def)
  show ?thesis unfolding stop_locked(1)
    using acct_inv_goto [OF inv i, of "StopOnce w"] by (rule acct_inv_cong) (simp_all add: goto_def on_pool_def sent_by_def)
next
  case (wg_wait i)
  then have "sent_by s' = sent_by s" by (auto simp: sent_by_def goto_def)
  with wg_wait show ?thesis by (intro acct_inv_cong [OF inv]) (simp_all add: goto_def)
next
  case (ctx_end j)
  then show ?thesis by (intro acct_inv_cong [OF inv]) (simp_all add: sent_by_def)
next
  case (worker_recv k t ts)
  then show ?thesis using acct_inv_worker_recv [OF inv] by blast
next
  case (worker_exec k t te he)
  then show ?thesis using acct_inv_worker_exec [OF inv] by blast
next
  case (worker_exit k)
  then show ?thesis using acct_inv_worker_exit [OF inv] by blast
next
  case (sent i c t)
  then show ?thesis using acct_inv_sent [OF inv] by blast
qed (simp_all add: acct_inv_goto [OF inv] acct_inv_drop [OF inv] sent_by_def)

lemma pool_invariant:
  assumes "pool_New w q h = Some p" and "pool_step\<^sup>*\<^sup>* (sys_start p) s"
  shows "stop_inv s \<and> acct_inv s"
  using assms(2) by (induction rule: rtranclp_induct) (use assms(1) stop_inv_start acct_inv_start stop_inv_step acct_inv_step in blast)+

text \<open>A run of a pool with one worker: a submitter with task 7, the worker, and a call of \<open>StopWait\<close>.\<close>

definition demo_pool :: "nat Pool" where
  "demo_pool = \<lparr>p_workers = 1, p_cap = 1, p_tasks = [], p_tasks_closed = False, p_isClosed = False, p_closed = False,
     p_panicHandler = False, p_submitted = 0, p_completed = 0, p_dropped = 0, p_panics = 0, p_queueSize = 0\<rparr>"

lemma demo_pool_New: "pool_New 1 1 False = Some demo_pool"
  by (simp add: pool_New_def demo_pool_def)

definition demo_sending :: "nat sys" where
  "demo_sending = goto 0 (SubSend Try 7) (sys_start demo_pool)"

lemmas demo_defs = demo_sending_def sys_start_def demo_pool_def pool_defs

lemma demo_reaches_send: "pool_step\<^sup>*\<^sup>* (sys_start demo_pool) demo_sending"
proof -
  let ?s = "sys_start demo_pool"
  let ?g = "\<lambda>c. goto 0 c ?s"
  have g: "goto 0 c (?g d) = ?g c" for c d by (simp add: goto_def)
  have "pool_step ?s (?g (SubLock Try 7))" by (rule pool_step.submit_try) (simp add: demo_defs)
  moreover have "pool_step (?g (SubLock Try 7)) (?g (SubCheck Try 7))"
    using pool_step.rlock [of "?g (SubLock Try 7)" 0 Try 7] by (simp add: g) (simp add: demo_defs)
  moreover have "pool_step (?g (SubCheck Try 7)) (?g (SubSelect Try 7))"
    using pool_step.check_open [of "?g (SubCheck Try 7)" 0 Try 7] by (simp add: g) (simp add: demo_defs)
  moreover have "pool_step (?g (SubSelect Try 7)) (?g (SubSend Try 7))"
    using pool_step.select_default [of "?g (SubSelect Try 7)" 0 Try 7] by (simp add: g) (simp add: demo_defs)
  ultimately show ?thesis unfolding demo_sending_def by (meson rtranclp.rtrancl_into_rtrancl rtranclp.rtrancl_refl)
qed

definition demo_sent :: "nat sys" where
  "demo_sent = (let s = do_send 0 Try 7 demo_sending in on_pool (\<lambda>p. p\<lparr>p_tasks := [], p_queueSize := 0\<rparr>) s
     \<lparr>s_ws := [WRun 7], s_started := [7]\<rparr>)"

definition demo_stopping :: "nat sys \<Rightarrow> nat sys" where
  "demo_stopping s = goto 1 (StopLock True) (on_pool (\<lambda>p. p\<lparr>p_closed := True\<rparr>) s)\<lparr>s_once := Running, s_wwait := True\<rparr>"

lemma demo_reaches_run: "pool_step\<^sup>*\<^sup>* (sys_start demo_pool) demo_sent"
proof -
  have "pool_step demo_sending (do_send 0 Try 7 demo_sending)" by (rule pool_step.send) (simp_all add: demo_defs has_room_def)
  moreover have "pool_step (do_send 0 Try 7 demo_sending) demo_sent"
    using pool_step.worker_recv [of 0 "do_send 0 Try 7 demo_sending" 7 "[]"]
    by (simp add: demo_sent_def) (simp add: demo_defs do_send_def)
  ultimately show ?thesis using demo_reaches_send by (meson rtranclp.rtrancl_into_rtrancl)
qed

lemma demo_stop:
  assumes "pool_step\<^sup>*\<^sup>* (sys_start demo_pool) s" and "s_pc s 1 = Idle" and "s_once s = NotStarted"
  shows "pool_step\<^sup>*\<^sup>* (sys_start demo_pool) (demo_stopping s)"
proof -
  let ?s1 = "goto 1 (StopClosed True) (on_pool (\<lambda>p. p\<lparr>p_closed := True\<rparr>) s)\<lparr>s_once := Running\<rparr>"
  have "pool_step s ?s1" by (rule pool_step.stop_close [OF assms(2,3)])
  moreover have "demo_stopping s = goto 1 (StopLock True) ?s1\<lparr>s_wwait := True\<rparr>"
    by (cases s) (simp add: demo_stopping_def pool_defs)
  moreover have "pool_step ?s1 (goto 1 (StopLock True) ?s1\<lparr>s_wwait := True\<rparr>)" by (rule pool_step.stop_lock) (simp add: goto_def)
  ultimately show ?thesis using assms(1) by (metis rtranclp.rtrancl_into_rtrancl)
qed

lemma demo_reaches_end:
  obtains s where "pool_step\<^sup>*\<^sup>* (sys_start demo_pool) s" and "s_pc s 1 = WgDone" and "s_accepted s = [7]"
proof -
  define a where "a = on_pool (\<lambda>p. fst (executeSafely p TaskPanics HandlerReturns)) demo_sent\<lparr>s_ws := [WRecv], s_executed := [7]\<rparr>"
  define b where "b = goto 0 (SubRet Accepted) (on_pool p_count a)"
  define c where "c = demo_stopping b"
  define d where "d = goto 1 (StopOnce True) (on_pool (\<lambda>p. p\<lparr>p_isClosed := True, p_tasks_closed := True\<rparr>) c)
      \<lparr>s_once := Finished, s_wwait := False, s_panicked := (s_panicked c \<or> p_tasks_closed (s_pool c))\<rparr>"
  define e where "e = goto 1 WgWait d\<lparr>s_ws := [WExit]\<rparr>"
  note D = demo_sent_def do_send_def demo_defs Let_def executeSafely_def
  have "pool_step demo_sent a"
    using pool_step.worker_exec [of 0 demo_sent 7 TaskPanics HandlerReturns] by (simp add: a_def) (simp add: D)
  moreover have "pool_step a b" unfolding b_def by (rule pool_step.sent [of _ _ Try 7]) (simp add: a_def D)
  ultimately have "pool_step\<^sup>*\<^sup>* (sys_start demo_pool) b" using demo_reaches_run by (meson rtranclp.rtrancl_into_rtrancl)
  then have "pool_step\<^sup>*\<^sup>* (sys_start demo_pool) c" unfolding c_def by (rule demo_stop) (simp_all add: b_def a_def D)
  moreover have "pool_step c d" unfolding d_def
    by (rule pool_step.stop_locked) (simp_all add: c_def demo_stopping_def b_def a_def D)
  moreover have "pool_step d (goto 1 WgWait d)"
    using pool_step.stop_return [of d 1 True] by (simp add: d_def pool_defs)
  moreover have "pool_step (goto 1 WgWait d) e"
    using pool_step.worker_exit [of 0 "goto 1 WgWait d"] by (simp add: e_def) (simp add: d_def c_def demo_stopping_def b_def a_def D)
  moreover have "pool_step e (goto 1 WgDone e)" by (rule pool_step.wg_wait) (simp_all add: e_def pool_defs)
  ultimately have "pool_step\<^sup>*\<^sup>* (sys_start demo_pool) (goto 1 WgDone e)" by (meson rtranclp.rtrancl_into_rtrancl)
  moreover have "s_accepted (goto 1 WgDone e) = [7]" by (simp add: e_def d_def c_def demo_stopping_def b_def a_def D)
  ultimately show ?thesis by (intro that [of "goto 1 WgDone e"]) (simp_all add: goto_def)
qed

text \<open>
  C20: Whatever calls run against the pool and in whatever order their steps interleave, no call ever sends
  on the closed task channel or closes it twice, although \<open>Stop\<close> closes it while submitters run. The queue
  never exceeds its capacity, workers start the accepted tasks in the order in which they were accepted,
  and every accepted task is queued, running or run, exactly once. When \<open>StopWait\<close> returns, every task
  that was ever accepted has been run, and the counters of completed and panicked tasks add up to their
  number.
\<close>

theorem worker_pool_runs_every_task:
  assumes "pool_New workers queueSize handler = Some p" and "pool_step\<^sup>*\<^sup>* (sys_start p) s"
  shows "\<not> s_panicked s \<and> int (length (p_tasks (s_pool s))) \<le> p_cap (s_pool s) \<and>
    s_accepted s = s_started s @ p_tasks (s_pool s) \<and> mset (s_started s) = mset (s_executed s) + running (s_ws s) \<and>
    p_completed (s_pool s) + p_panics (s_pool s) = length (s_executed s) \<and>
    (s_pc s i = WgDone \<longrightarrow> mset (s_executed s) = mset (s_accepted s))"
proof -
  have a: "acct_inv s" and b: "\<not> s_panicked s" using pool_invariant [OF assms] by (simp_all add: stop_inv_def)
  have "mset (s_executed s) = mset (s_accepted s)" if "s_pc s i = WgDone"
  proof -
    have x: "set (s_ws s) \<subseteq> {WExit}" "s_ws s \<noteq> []" using a that by (auto simp: acct_inv_def)
    then have "WExit \<in> set (s_ws s)" by (cases "s_ws s") auto
    then show ?thesis using a running_exited [OF x(1)] by (simp add: acct_inv_def)
  qed
  with a b show ?thesis by (simp add: acct_inv_def)
qed

theorem worker_pool_runs_every_task_witness:
  "\<exists>s :: nat sys. s_pc s 1 = WgDone \<and> \<not> s_panicked s \<and> s_accepted s = [7] \<and> mset (s_executed s) = {#7#}"
proof -
  obtain s where s: "pool_step\<^sup>*\<^sup>* (sys_start demo_pool) s" "s_pc s 1 = WgDone" "s_accepted s = [7]" by (rule demo_reaches_end)
  from worker_pool_runs_every_task [OF demo_pool_New s(1), of 1] s show ?thesis by auto
qed

section \<open>Stop is not held up\<close>

text \<open>How many steps a holder of the read lock has left at most.\<close>

fun rank :: "'t pc \<Rightarrow> nat" where
  "rank (SubCheck c t) = 4"
| "rank (SubSelect c t) = 3"
| "rank (SubSend c t) = 2"
| "rank (SubSent c t) = 1"
| "rank _ = 0"

lemma rank_holds: "holds c \<longleftrightarrow> 0 < rank c"
  by (cases c) simp_all

lemma s_pc_goto [simp]: "s_pc (goto i c s) = (s_pc s)(i := c)" "s_pc (drop_ret i r s) = (s_pc s)(i := SubRet r)" "s_pc (on_pool f s) = s_pc s"
  by (simp_all add: goto_def drop_ret_def on_pool_def)

lemma holder_moves:
  assumes "stop_inv s" and "p_closed (s_pool s)" and "holds (s_pc s i)"
  shows "\<exists>s'. pool_step s s' \<and> rank (s_pc s' i) < rank (s_pc s i)"
proof (cases "s_pc s i")
  case (SubCheck c t)
  show ?thesis
  proof (cases "p_isClosed (s_pool s)")
    case True
    show ?thesis using pool_step.check_closed [OF SubCheck True] SubCheck by (intro exI conjI) (assumption, simp)
  next
    case False
    show ?thesis using pool_step.check_open [OF SubCheck False] SubCheck by (intro exI conjI) (assumption, simp)
  qed
next
  case (SubSelect c t)
  show ?thesis using pool_step.select_closed [OF SubSelect assms(2)] SubSelect by (intro exI conjI) (assumption, simp)
next
  case (SubSend c t)
  have o: "\<not> p_tasks_closed (s_pool s)" using stop_inv_open [OF assms(1), of i] SubSend by simp
  show ?thesis
  proof (cases "has_room (s_pool s)")
    case True
    then have "pool_step s (do_send i c t s)" using pool_step.send [OF SubSend] by blast
    then show ?thesis using SubSend o by (intro exI conjI) (assumption, simp add: do_send_def)
  next
    case False
    have "pool_step s (drop_ret i (case c of Try \<Rightarrow> QueueFull | Ctx j \<Rightarrow> PoolClosed) s)"
      using SubSend o False assms(2) by (cases c) (auto intro: pool_step.send_full pool_step.send_closed)
    then show ?thesis using SubSend by (intro exI conjI) (assumption, simp)
  qed
next
  case (SubSent c t)
  show ?thesis using pool_step.sent [OF SubSent] SubSent by (intro exI conjI) (assumption, simp)
qed (use assms(3) in simp_all)

lemma rank_mono:
  assumes "pool_step s s'" and "s_wwait s"
  shows "rank (s_pc s' j) \<le> rank (s_pc s j)"
  using assms by (cases rule: pool_step.cases) (auto simp: do_send_def)

text \<open>
  C21: \<open>Stop\<close> is never blocked for good by submitters, not even by calls of \<open>SubmitContext\<close> that wait for room
  in a full queue while they hold the read lock. Once it waits for the lock no call joins the holders,
  every holder always has a step of its own that brings it closer to releasing the lock, which it does
  after at most four steps, no step of another goroutine sets it back, and when the last one is gone \<open>Stop\<close>
  can close the queue.
\<close>

theorem stop_not_blocked:
  assumes "pool_New workers queueSize handler = Some p" and "pool_step\<^sup>*\<^sup>* (sys_start p) s" and "s_pc s k = StopLock w"
  shows "(\<forall>i. holds (s_pc s i) \<longrightarrow> rank (s_pc s i) \<le> 4 \<and> (\<exists>s'. pool_step s s' \<and> rank (s_pc s' i) < rank (s_pc s i))) \<and>
    (\<forall>s' i. pool_step s s' \<longrightarrow> rank (s_pc s' i) \<le> rank (s_pc s i) \<and> (holds (s_pc s' i) \<longrightarrow> holds (s_pc s i))) \<and>
    ((\<forall>i. \<not> holds (s_pc s i)) \<longrightarrow> (\<exists>s'. pool_step s s' \<and> p_isClosed (s_pool s') \<and> s_pc s' k = StopOnce w))"
proof -
  have inv: "stop_inv s" using pool_invariant [OF assms(1,2)] by blast
  have "stopping (s_pc s k)" using assms(3) by simp
  then have c: "p_closed (s_pool s)" using stop_inv_stopping(1) [OF inv] inv by (auto simp: stop_inv_def)
  have w: "s_wwait s" using inv assms(3) unfolding stop_inv_def by blast
  have r4: "rank x \<le> 4" for x :: "'a pc" by (cases x) simp_all
  show ?thesis
  proof (intro conjI allI impI)
    show "rank (s_pc s i) \<le> 4" for i by (rule r4)
    show "\<exists>s'. pool_step s s' \<and> rank (s_pc s' i) < rank (s_pc s i)" if "holds (s_pc s i)" for i
      by (rule holder_moves [OF inv c that])
    fix s' i assume "pool_step s s'"
    from rank_mono [OF this w, of i] show m: "rank (s_pc s' i) \<le> rank (s_pc s i)" .
    show "holds (s_pc s i)" if "holds (s_pc s' i)" using m that by (simp add: rank_holds)
  next
    assume "\<forall>i. \<not> holds (s_pc s i)"
    from pool_step.stop_locked [OF assms(3) this]
    show "\<exists>s'. pool_step s s' \<and> p_isClosed (s_pool s') \<and> s_pc s' k = StopOnce w"
      by (intro exI conjI) (assumption, simp_all add: goto_def on_pool_def)
  qed
qed

theorem stop_not_blocked_witness:
  "\<exists>s'. pool_step (demo_stopping demo_sending) s' \<and> rank (s_pc s' 0) < rank (s_pc (demo_stopping demo_sending) 0)"
proof -
  have r: "pool_step\<^sup>*\<^sup>* (sys_start demo_pool) (demo_stopping demo_sending)"
    by (rule demo_stop [OF demo_reaches_send]) (simp_all add: demo_defs)
  have "s_pc (demo_stopping demo_sending) 1 = StopLock True" by (simp add: demo_stopping_def pool_defs)
  from stop_not_blocked [OF demo_pool_New r this] have "\<forall>i. holds (s_pc (demo_stopping demo_sending) i) \<longrightarrow>
      (\<exists>s'. pool_step (demo_stopping demo_sending) s' \<and> rank (s_pc s' i) < rank (s_pc (demo_stopping demo_sending) i))" by blast
  moreover have "holds (s_pc (demo_stopping demo_sending) 0)" by (simp add: demo_stopping_def demo_defs)
  ultimately show ?thesis by blast
qed

end
