(* ===== verification/Http_Client.thy ===== *)
theory Http_Client
  imports Retry Breaker_Consecutive Breaker_Ratio Token_Bucket Go_Strings
begin

text \<open>
  The resilient transport of package \<open>httpclient\<close> (\<open>src/httpclient/roundtripper.go\<close>): rate limiter, circuit
  breaker and retry loop around an inner transport. The limiter and the breaker are the ones of the
  other components, as parameters with their state in the client's; the locale \<open>client_breaker\<close> is what the
  client relies on in a breaker, and both breakers are instances. What the environment decides for one
  request is the record \<open>hc_env\<close>: how the contexts stand at each point (the timeouts end them), what the
  inner transport returns for the \<open>i\<close>-th attempt, the random numbers of the waits. Spans and the duration
  histogram are left out.
\<close>

record hc_resp =
  hr_StatusCode :: int
  hr_id :: nat

text \<open>
  A request: its body as the bytes the reader will yield (none for \<open>nil\<close> and \<open>http.NoBody\<close>), and \<open>GetBody\<close>
  as what its call before the \<open>i\<close>-th attempt returns.
\<close>

record hc_request =
  hq_Host :: string
  hq_Body :: "string option"
  hq_GetBody :: "(nat \<Rightarrow> error + string) option"

record hc_options =
  ho_retryCfg :: retry_Config
  ho_rateLimiterFunc :: "(hc_request \<Rightarrow> bool) option"
  ho_rateLimiterKeyFunc :: "(hc_request \<Rightarrow> string) option"

text \<open>
  The state: limiter and breaker if configured, the two counters, the bodies the inner transport was
  given, and the responses whose bodies are open.
\<close>

record ('l, 'b) hc_state =
  hs_rateLimiter :: "'l option"
  hs_circuitBreaker :: "'b option"
  hs_requests :: nat
  hs_failures :: nat
  hs_sent :: "string option list"
  hs_open :: "hc_resp list"

record hc_env =
  e_readErr :: ctx_err
  e_now :: time
  e_cb_ctx1 :: ctx_err
  e_cb_now1 :: time
  e_cb_ctx2 :: ctx_err
  e_cb_now2 :: time
  e_ctx :: "nat \<Rightarrow> ctx_err"
  e_transport :: "nat \<Rightarrow> string option \<Rightarrow> error + hc_resp"
  e_timedout :: "nat \<Rightarrow> bool"
  e_rest :: "nat \<Rightarrow> string option"
  e_rnd :: "nat \<Rightarrow> rat"
  e_wait :: "nat \<Rightarrow> ctx_err"

definition ErrRateLimited :: error where
  "ErrRateLimited = Err ''httpclient: outbound rate limit exceeded''"

definition ErrAttemptTimeout :: error where
  "ErrAttemptTimeout = Err ''httpclient: per-attempt timeout exceeded''"

definition DefaultMaxRetryBodySize :: nat where
  "DefaultMaxRetryBodySize = 10 * 1024 * 1024"

text \<open>
  A body that is too long stays a stream without \<open>GetBody\<close>; reading and restoring it leaves its bytes as
  they were.
\<close>

definition prepareRequestBody :: "ctx_err \<Rightarrow> hc_request \<Rightarrow> error + hc_request" where
  "prepareRequestBody readErr req =
     (case hq_Body req of
        None \<Rightarrow> Inr req
      | Some bodyBytes \<Rightarrow>
          if hq_GetBody req \<noteq> None then Inr req
          else case readErr of
            Some e \<Rightarrow> Inl e
          | None \<Rightarrow>
              if length bodyBytes > DefaultMaxRetryBodySize then Inr req
              else Inr (req\<lparr>hq_GetBody := Some (\<lambda>_. Inr bodyBytes)\<rparr>))"

definition checkRateLimit ::
  "(time \<Rightarrow> string \<Rightarrow> 'l \<Rightarrow> 'l \<times> bool) \<Rightarrow> hc_options \<Rightarrow> time \<Rightarrow> hc_request \<Rightarrow> ('l, 'b) hc_state \<Rightarrow> ('l, 'b) hc_state \<times> ctx_err" where
  "checkRateLimit allow opts now req s =
     (case ho_rateLimiterFunc opts of
        Some f \<Rightarrow> (s, if \<not> f req then Some ErrRateLimited else None)
      | None \<Rightarrow>
          case hs_rateLimiter s of
            Some l \<Rightarrow>
              let key = (case ho_rateLimiterKeyFunc opts of Some kf \<Rightarrow> kf req | None \<Rightarrow> hq_Host req);
                  (l', ok) = allow now key l
              in (s\<lparr>hs_rateLimiter := Some l'\<rparr>, if \<not> ok then Some ErrRateLimited else None)
          | None \<Rightarrow> (s, None))"

text \<open>
  Go converts a float beyond the range of \<open>int64\<close> to a value that depends on the implementation: \<open>ovf\<close>.
\<close>

definition float_to_int64 :: "(rat \<Rightarrow> int) \<Rightarrow> rat \<Rightarrow> int" where
  "float_to_int64 ovf x = (if \<bar>x\<bar> < 2 ^ 63 then trunc_int x else ovf x)"

definition computeRetryWait :: "(rat \<Rightarrow> int) \<Rightarrow> retry_Config \<Rightarrow> rat \<Rightarrow> int \<Rightarrow> duration" where
  "computeRetryWait ovf cfg rnd attempt =
     (if InitialWait cfg \<le> 0 then 0
      else
        let expAttempt = (if attempt > 30 then 30 else attempt);
            wait = (case rStrategy cfg of
                      Linear \<Rightarrow> wrap64 (InitialWait cfg * wrap64 (attempt + 1))
                    | Exponential \<Rightarrow> float_to_int64 ovf (fmul (float64_of (InitialWait cfg)) (2 powi expAttempt))
                    | ExponentialJitter \<Rightarrow>
                        let maxWait = fmul (float64_of (InitialWait cfg)) (2 powi expAttempt)
                        in if maxWait \<le> 0 then 0 else float_to_int64 ovf (fmul rnd maxWait)
                    | Constant \<Rightarrow> InitialWait cfg)
        in if MaxWait cfg > 0 \<and> wait > MaxWait cfg then MaxWait cfg else wait)"

text \<open>The wait, cut short if the context ends.\<close>

definition backoffWait :: "(rat \<Rightarrow> int) \<Rightarrow> hc_options \<Rightarrow> hc_env \<Rightarrow> nat \<Rightarrow> ctx_err" where
  "backoffWait ovf opts env attempt =
     (let wait = computeRetryWait ovf (ho_retryCfg opts) (e_rnd env attempt) (int attempt)
      in if wait \<le> 0 then None else e_wait env attempt)"

text \<open>
  The body of the \<open>i\<close>-th attempt: later attempts take a fresh copy; without one they get what is left of
  the request's own body (\<open>e_rest\<close>).
\<close>

definition attempt_body :: "hc_env \<Rightarrow> hc_request \<Rightarrow> nat \<Rightarrow> string option" where
  "attempt_body env req attempt =
     (if attempt = 0 then hq_Body req
      else case hq_GetBody req of
        Some g \<Rightarrow> (case g attempt of Inr body \<Rightarrow> Some body | Inl _ \<Rightarrow> e_rest env attempt)
      | None \<Rightarrow> (if hq_Body req = None then None else e_rest env attempt))"

definition server_error :: "int \<Rightarrow> error" where
  "server_error code = Err (''httpclient: server error HTTP '' @ itoa code)"

definition downstream_error :: "int \<Rightarrow> error" where
  "downstream_error code = Err (''httpclient: downstream returned HTTP '' @ itoa code)"

definition performAttempt ::
  "hc_env \<Rightarrow> hc_request \<Rightarrow> nat \<Rightarrow> ('l, 'b) hc_state \<Rightarrow> ('l, 'b) hc_state \<times> hc_resp option \<times> bool \<times> ctx_err" where
  "performAttempt env req attempt s0 =
     (let body = attempt_body env req attempt;
          s = s0\<lparr>hs_requests := hs_requests s0 + 1, hs_sent := hs_sent s0 @ [body]\<rparr>
      in case e_transport env attempt body of
           Inl err \<Rightarrow>
             (s\<lparr>hs_failures := hs_failures s + 1\<rparr>, None, True, Some (if e_timedout env attempt then ErrAttemptTimeout else err))
         | Inr resp \<Rightarrow>
             let s1 = s\<lparr>hs_open := hs_open s @ [resp]\<rparr> in
             if hr_StatusCode resp \<ge> 500
             then (s1\<lparr>hs_failures := hs_failures s1 + 1\<rparr>, Some resp, True, Some (server_error (hr_StatusCode resp)))
             else (s1, Some resp, False, None))"

definition close_resp :: "hc_resp option \<Rightarrow> ('l, 'b) hc_state \<Rightarrow> ('l, 'b) hc_state" where
  "close_resp resp s = (case resp of None \<Rightarrow> s | Some r \<Rightarrow> s\<lparr>hs_open := butlast (hs_open s)\<rparr>)"

definition declines :: "retry_Config \<Rightarrow> ctx_err \<Rightarrow> bool" where
  "declines cfg err = (case (ShouldRetry cfg, err) of (Some f, Some e) \<Rightarrow> \<not> f e | _ \<Rightarrow> False)"

function hc_loop ::
  "(rat \<Rightarrow> int) \<Rightarrow> hc_options \<Rightarrow> hc_env \<Rightarrow> hc_request \<Rightarrow> nat \<Rightarrow> nat \<Rightarrow> hc_resp option \<Rightarrow> ctx_err \<Rightarrow> ('l, 'b) hc_state \<Rightarrow>
   ('l, 'b) hc_state \<times> hc_resp option \<times> ctx_err" where
  "hc_loop ovf opts env req attempts attempt lastResp lastErr s =
     (if attempt < attempts then
        case e_ctx env attempt of
          Some e \<Rightarrow> (s, None, Some e)
        | None \<Rightarrow>
            case performAttempt env req attempt s of (s1, resp, retryable, err) \<Rightarrow>
              if \<not> retryable then (s1, resp, None)
              else if declines (ho_retryCfg opts) err \<or> attempt = attempts - 1
              then (if resp \<noteq> None then (s1, resp, None) else (s1, None, err))
              else
                case backoffWait ovf opts env attempt of
                  Some e \<Rightarrow> (close_resp resp s1, None, Some e)
                | None \<Rightarrow> hc_loop ovf opts env req attempts (Suc attempt) None err (close_resp resp s1)
      else if lastResp \<noteq> None then (s, lastResp, None) else (s, None, lastErr))"
  by pat_completeness auto

termination
  by (relation "measure (\<lambda>(_, _, _, _, attempts, attempt, _, _, _). attempts - attempt)") auto

declare hc_loop.simps [simp del]

definition executeRetries ::
  "(rat \<Rightarrow> int) \<Rightarrow> hc_options \<Rightarrow> hc_env \<Rightarrow> hc_request \<Rightarrow> ('l, 'b) hc_state \<Rightarrow> ('l, 'b) hc_state \<times> hc_resp option \<times> ctx_err" where
  "executeRetries ovf opts env req s =
     (let attempts0 = (if Attempts (ho_retryCfg opts) \<le> 0 then 1 else Attempts (ho_retryCfg opts));
          attempts = (if hq_Body req \<noteq> None \<and> hq_GetBody req = None then 1 else attempts0)
      in hc_loop ovf opts env req (nat attempts) 0 None None s)"

text \<open>
  The breaker runs the retries if it admits the request (\<open>admits\<close>), and then has exactly their effect
  and their result.
\<close>

definition roundTripCircuitBreaker ::
  "(ctx_err \<Rightarrow> time \<Rightarrow> ('b \<Rightarrow> 'b \<times> outcome) \<Rightarrow> ctx_err \<Rightarrow> time \<Rightarrow> 'b \<Rightarrow> outcome \<times> 'b \<times> notify list) \<Rightarrow> (time \<Rightarrow> 'b \<Rightarrow> bool) \<Rightarrow>
   (rat \<Rightarrow> int) \<Rightarrow> hc_options \<Rightarrow> hc_env \<Rightarrow> hc_request \<Rightarrow> 'b \<Rightarrow> ('l, 'b) hc_state \<Rightarrow> ('l, 'b) hc_state \<times> hc_resp option \<times> ctx_err" where
  "roundTripCircuitBreaker exec admits ovf opts env req b s0 =
     (let called = (e_cb_ctx1 env = None \<and> admits (e_cb_now1 env) b);
          (s, resp, execErr) = (if called then executeRetries ovf opts env req s0 else (s0, None, None));
          fnErr = (case execErr of
                     Some e \<Rightarrow> Some e
                   | None \<Rightarrow> (case resp of
                               Some r \<Rightarrow> if hr_StatusCode r \<ge> 500 then Some (downstream_error (hr_StatusCode r)) else None
                             | None \<Rightarrow> None));
          (out, b', ns) = exec (e_cb_ctx1 env) (e_cb_now1 env) (\<lambda>cb. (cb, Returns fnErr)) (e_cb_ctx2 env) (e_cb_now2 env) b;
          s' = s\<lparr>hs_circuitBreaker := Some b'\<rparr>
      in case out of
           Returns (Some cbErr) \<Rightarrow>
             if errors_is cbErr ErrCircuitOpen then (s', None, Some cbErr)
             else if resp \<noteq> None then (s', resp, None)
             else (s', None, Some cbErr)
         | _ \<Rightarrow> (s', resp, None))"

definition RoundTrip where
  "RoundTrip allow exec admits ovf opts env req0 s0 =
     (case prepareRequestBody (e_readErr env) req0 of
        Inl e \<Rightarrow> (s0, None, Some e)
      | Inr req \<Rightarrow>
          case checkRateLimit allow opts (e_now env) req s0 of
            (s1, Some e) \<Rightarrow> (s1, None, Some e)
          | (s1, None) \<Rightarrow>
              case hs_circuitBreaker s1 of
                Some b \<Rightarrow> roundTripCircuitBreaker exec admits ovf opts env req b s1
              | None \<Rightarrow> executeRetries ovf opts env req s1)"

section \<open>The attempts of one request\<close>

text \<open>
  What a request does to the client's state, given that its body is \<open>B\<close>: \<open>n\<close> attempts, at most \<open>k\<close>, each
  with the whole body and counted once; all but a success counted as failures; every response closed
  but the one that is returned; and either a response or an error.
\<close>

definition hc_effect :: "string option \<Rightarrow> nat \<Rightarrow> ('l, 'b) hc_state \<Rightarrow> ('l, 'b) hc_state \<Rightarrow> hc_resp option \<Rightarrow> ctx_err \<Rightarrow> bool" where
  "hc_effect B k s s' resp err \<longleftrightarrow>
     (\<exists>n. n \<le> k \<and> hs_sent s' = hs_sent s @ replicate n B \<and> hs_requests s' = hs_requests s + n \<and>
        hs_failures s' + (case resp of Some r \<Rightarrow> if hr_StatusCode r < 500 then 1 else 0 | None \<Rightarrow> 0) = hs_failures s + n) \<and>
     hs_open s' = hs_open s @ (case resp of Some r \<Rightarrow> [r] | None \<Rightarrow> []) \<and> (resp = None \<longleftrightarrow> err \<noteq> None)"

lemma performAttempt_cases:
  assumes "performAttempt env req i s = (s1, resp, retryable, err)"
  obtains (failed) e where "resp = None" and "retryable" and "err = Some e"
      and "s1 = s\<lparr>hs_requests := hs_requests s + 1, hs_sent := hs_sent s @ [attempt_body env req i], hs_failures := hs_failures s + 1\<rparr>"
  | (bad) r e where "resp = Some r" and "500 \<le> hr_StatusCode r" and "retryable" and "err = Some e"
      and "s1 = s\<lparr>hs_requests := hs_requests s + 1, hs_sent := hs_sent s @ [attempt_body env req i],
        hs_open := hs_open s @ [r], hs_failures := hs_failures s + 1\<rparr>"
  | (good) r where "resp = Some r" and "hr_StatusCode r < 500" and "\<not> retryable" and "err = None"
      and "s1 = s\<lparr>hs_requests := hs_requests s + 1, hs_sent := hs_sent s @ [attempt_body env req i], hs_open := hs_open s @ [r]\<rparr>"
  using assms by (auto simp: performAttempt_def Let_def split: sum.splits if_splits)

text \<open>A failed attempt whose response is closed, before the effect of the attempts that follow.\<close>

lemma hc_effect_retry:
  assumes "performAttempt env req i s = (s1, r1, True, e1)" and "attempt_body env req i = B"
    and "hc_effect B k (close_resp r1 s1) s' resp err"
  shows "hc_effect B (Suc k) s s' resp err"
proof -
  define s2 where "s2 = close_resp r1 s1"
  have s2: "hs_sent s2 = hs_sent s @ [B]" "hs_requests s2 = hs_requests s + 1" "hs_failures s2 = hs_failures s + 1" "hs_open s2 = hs_open s"
    using assms(2) by (cases rule: performAttempt_cases [OF assms(1)]; simp add: s2_def close_resp_def)+
  from assms(3) obtain n where n: "n \<le> k" "hs_sent s' = hs_sent s2 @ replicate n B" "hs_requests s' = hs_requests s2 + n"
      "hs_failures s' + (case resp of Some r \<Rightarrow> if hr_StatusCode r < 500 then 1 else 0 | None \<Rightarrow> 0) = hs_failures s2 + n"
      "hs_open s' = hs_open s2 @ (case resp of Some r \<Rightarrow> [r] | None \<Rightarrow> [])" "resp = None \<longleftrightarrow> err \<noteq> None"
    unfolding hc_effect_def s2_def [symmetric] by blast
  show ?thesis unfolding hc_effect_def
    by (rule conjI, rule exI [of _ "Suc n"]) (use n s2 in simp_all)
qed

text \<open>The attempt that ends the loop.\<close>

lemma hc_effect_last:
  assumes "performAttempt env req i s = (s1, resp, retryable, err)" and "attempt_body env req i = B"
  shows "hc_effect B (Suc k) s s1 resp (if resp = None then err else None)"
  unfolding hc_effect_def using assms(2)
  by (cases rule: performAttempt_cases [OF assms(1)]) (simp_all add: exI [of _ "1::nat"] exI [of _ "Suc 0"])

lemma hc_effect_stop: "hc_effect B k s s None (Some e)"
  by (simp add: hc_effect_def)

lemma hc_loop_effect:
  assumes "\<forall>i < attempts. attempt_body env req i = B" and "attempt < attempts"
    and "hc_loop ovf opts env req attempts attempt lastResp lastErr s = (s', resp, err)"
  shows "hc_effect B (attempts - attempt) s s' resp err"
  using assms(2,3)
proof (induction "attempts - attempt" arbitrary: attempt lastResp lastErr s)
  case (Suc k)
  obtain s1 r1 retryable e1 where P: "performAttempt env req attempt s = (s1, r1, retryable, e1)" by (metis prod_cases4)
  have B: "attempt_body env req attempt = B" using assms(1) Suc.prems(1) by blast
  have k: "attempts - attempt = Suc k" using Suc.hyps(2) by simp
  note L = Suc.prems(2) [unfolded hc_loop.simps [of _ _ _ _ _ attempt] if_P [OF Suc.prems(1)] P prod.case]
  show ?case
  proof (cases "e_ctx env attempt")
    case (Some e)
    show ?thesis using L [unfolded Some option.case] by (auto simp: hc_effect_stop)
  next
    case None
    note L1 = L [unfolded None option.case]
    have fin: "hc_effect B (Suc k) s s1 r1 (if r1 = None then e1 else None)" by (rule hc_effect_last [OF P B])
    show ?thesis
    proof (cases "\<not> retryable \<or> declines (ho_retryCfg opts) e1 \<or> attempt = attempts - 1")
      case True
      moreover have "\<not> retryable \<Longrightarrow> r1 \<noteq> None" by (cases rule: performAttempt_cases [OF P]) simp_all
      ultimately have "s' = s1 \<and> resp = r1 \<and> err = (if r1 = None then e1 else None)"
        using L1 by (auto split: if_splits)
      then show ?thesis using fin k by simp
    next
      case False
      then have r: retryable "\<not> (declines (ho_retryCfg opts) e1 \<or> attempt = attempts - 1)" by simp_all
      note P' = P [unfolded eqTrueI [OF r(1)]]
      have nx: "Suc attempt < attempts" "k = attempts - Suc attempt" using r(2) Suc.prems(1) k by auto
      show ?thesis
      proof (cases "backoffWait ovf opts env attempt")
        case (Some e)
        then have "s' = close_resp r1 s1 \<and> resp = None \<and> err = Some e" using L1 r by simp
        then show ?thesis using hc_effect_retry [OF P' B hc_effect_stop] k by simp
      next
        case None
        then have "hc_loop ovf opts env req attempts (Suc attempt) None e1 (close_resp r1 s1) = (s', resp, err)" using L1 r by simp
        from Suc.hyps(1) [OF nx(2,1) this] have "hc_effect B k (close_resp r1 s1) s' resp err" using nx(2) by simp
        then show ?thesis using hc_effect_retry [OF P' B] k by simp
      qed
    qed
  qed
qed simp

text \<open>The contract of \<open>GetBody\<close>: every call returns a new copy of the body.\<close>

definition body_ok :: "hc_request \<Rightarrow> bool" where
  "body_ok req \<longleftrightarrow> (case hq_GetBody req of None \<Rightarrow> True | Some g \<Rightarrow> \<exists>B. hq_Body req = Some B \<and> (\<forall>i. g i = Inr B))"

lemma hc_effect_mono: "hc_effect B k s s' resp err \<Longrightarrow> k \<le> m \<Longrightarrow> hc_effect B m s s' resp err"
  unfolding hc_effect_def by (meson le_trans)

lemma executeRetries_effect:
  assumes "body_ok req" and "executeRetries ovf opts env req s = (s', resp, err)"
  shows "hc_effect (hq_Body req) (nat (max 1 (Attempts (ho_retryCfg opts)))) s s' resp err"
proof (cases "hq_Body req \<noteq> None \<and> hq_GetBody req = None")
  case True
  have "hc_loop ovf opts env req 1 0 None None s = (s', resp, err)"
    using assms(2) True by (simp add: executeRetries_def Let_def)
  then have "hc_effect (hq_Body req) (1 - 0) s s' resp err"
    by (rule hc_loop_effect [rotated 2]) (simp_all add: attempt_body_def)
  then show ?thesis by (rule hc_effect_mono) simp
next
  case False
  let ?a = "nat (max 1 (Attempts (ho_retryCfg opts)))"
  have b: "attempt_body env req i = hq_Body req" for i
    using assms(1) False by (auto simp: attempt_body_def body_ok_def split: option.splits)
  have "(if Attempts (ho_retryCfg opts) \<le> 0 then 1 else Attempts (ho_retryCfg opts)) = max 1 (Attempts (ho_retryCfg opts))" by simp
  then have "hc_loop ovf opts env req ?a 0 None None s = (s', resp, err)"
    using assms(2) unfolding executeRetries_def Let_def if_not_P [OF False] by (simp only:)
  then have "hc_effect (hq_Body req) (?a - 0) s s' resp err"
    by (rule hc_loop_effect [rotated 2]) (simp_all add: b)
  then show ?thesis by simp
qed

lemma prepareRequestBody_ok:
  "prepareRequestBody re req = Inr req' \<Longrightarrow> body_ok req \<Longrightarrow> body_ok req' \<and> hq_Body req' = hq_Body req"
  by (auto simp: prepareRequestBody_def body_ok_def split: option.splits if_splits)

lemma checkRateLimit_frame:
  "checkRateLimit allow opts now req s = (s1, e) \<Longrightarrow>
     hs_sent s1 = hs_sent s \<and> hs_requests s1 = hs_requests s \<and> hs_failures s1 = hs_failures s \<and> hs_open s1 = hs_open s \<and>
     hs_circuitBreaker s1 = hs_circuitBreaker s"
  by (auto simp: checkRateLimit_def Let_def split: option.splits prod.splits)

lemma checkRateLimit_err: "checkRateLimit allow opts now req s = (s1, Some e) \<Longrightarrow> e = ErrRateLimited"
  by (auto simp: checkRateLimit_def Let_def split: option.splits prod.splits if_splits)

lemma hc_effect_frame:
  "hc_effect B k s1 s' resp err \<Longrightarrow> hs_sent s1 = hs_sent s \<and> hs_requests s1 = hs_requests s \<and> hs_failures s1 = hs_failures s \<and>
     hs_open s1 = hs_open s \<Longrightarrow> hc_effect B k s s' resp err"
  by (simp add: hc_effect_def)

section \<open>What the client relies on in a breaker\<close>

locale client_breaker =
  fixes exec :: "ctx_err \<Rightarrow> time \<Rightarrow> ('b \<Rightarrow> 'b \<times> outcome) \<Rightarrow> ctx_err \<Rightarrow> time \<Rightarrow> 'b \<Rightarrow> outcome \<times> 'b \<times> notify list"
    and admits :: "time \<Rightarrow> 'b \<Rightarrow> bool"
  assumes exec_ended: "exec (Some e) n1 req c2 n2 b = (Returns (Some e), b, [])"
    and exec_refused: "\<not> admits n1 b \<Longrightarrow> fst (exec None n1 req c2 n2 b) = Returns (Some ErrCircuitOpen)"
    and exec_admitted: "admits n1 b \<Longrightarrow>
      fst (exec None n1 (\<lambda>cb. (cb, Returns err)) c2 n2 b) = Returns (if err = None then c2 else err)"
begin

text \<open>With the breaker in between, the effect on the client is the one of the retries or none.\<close>

lemma breaker_effect:
  assumes "roundTripCircuitBreaker exec admits ovf opts env req b s = (s', resp, err)"
    and "\<And>s1 r e. executeRetries ovf opts env req s = (s1, r, e) \<Longrightarrow> hc_effect B k s s1 r e"
    and "e_cb_ctx2 env \<in> {None, Some Canceled, Some DeadlineExceeded}"
  shows "hc_effect B k s s' resp err"
proof -
  obtain s1 r e where E: "executeRetries ovf opts env req s = (s1, r, e)" by (metis prod_cases3)
  have eff: "hc_effect B k s s1 r e" by (rule assms(2) [OF E])
  have none: "hc_effect B k s (s\<lparr>hs_circuitBreaker := x\<rparr>) None (Some v)" for x v
    by (simp add: hc_effect_def)
  have upd: "hc_effect B k s (s1\<lparr>hs_circuitBreaker := x\<rparr>) r e" for x using eff by (simp add: hc_effect_def)
  show ?thesis
  proof (cases "e_cb_ctx1 env = None \<and> admits (e_cb_now1 env) b")
    case False
    let ?q = "\<lambda>cb. (cb, Returns None)"
    obtain v where "fst (exec (e_cb_ctx1 env) (e_cb_now1 env) ?q (e_cb_ctx2 env) (e_cb_now2 env) b) = Returns (Some v)"
      using False by (cases "e_cb_ctx1 env") (auto simp: exec_ended exec_refused)
    then obtain b' ns where X: "exec (e_cb_ctx1 env) (e_cb_now1 env) ?q (e_cb_ctx2 env) (e_cb_now2 env) b = (Returns (Some v), b', ns)"
      by (cases "exec (e_cb_ctx1 env) (e_cb_now1 env) ?q (e_cb_ctx2 env) (e_cb_now2 env) b") simp
    have "s' = s\<lparr>hs_circuitBreaker := Some b'\<rparr> \<and> resp = None \<and> err = Some v"
      using assms(1) unfolding roundTripCircuitBreaker_def if_not_P [OF False] Let_def prod.case option.case X
      by (auto split: if_splits)
    then show ?thesis using none by blast
  next
    case True
    define fe where "fe = (case e of Some x \<Rightarrow> Some x | None \<Rightarrow> (case r of
        Some x \<Rightarrow> if hr_StatusCode x \<ge> 500 then Some (downstream_error (hr_StatusCode x)) else None | None \<Rightarrow> None))"
    obtain b' ns where X: "exec (e_cb_ctx1 env) (e_cb_now1 env) (\<lambda>cb. (cb, Returns fe)) (e_cb_ctx2 env) (e_cb_now2 env) b =
        (Returns (if fe = None then e_cb_ctx2 env else fe), b', ns)"
      using exec_admitted [of "e_cb_now1 env" b fe "e_cb_ctx2 env" "e_cb_now2 env"] True by (metis prod_cases3 fst_conv)
    have re: "r = None \<longleftrightarrow> e \<noteq> None" using eff by (simp add: hc_effect_def)
    have R: "s' = s1\<lparr>hs_circuitBreaker := Some b'\<rparr> \<and> resp = r \<and> err = e"
      using assms(1) X re assms(3)
      unfolding roundTripCircuitBreaker_def if_P [OF True] E Let_def prod.case fe_def [symmetric] X
      by (cases r; cases e) (auto simp: fe_def ErrCircuitOpen_def downstream_error_def split: if_splits)
    then show ?thesis using upd by blast
  qed
qed

lemma breaker_refuses:
  assumes "roundTripCircuitBreaker exec admits ovf opts env req b s = (s', resp, err)"
    and "\<not> admits (e_cb_now1 env) b" and "e_cb_ctx1 env = None"
  shows "resp = None \<and> err = Some ErrCircuitOpen \<and> hs_sent s' = hs_sent s \<and> hs_requests s' = hs_requests s"
proof -
  have n: "\<not> (e_cb_ctx1 env = None \<and> admits (e_cb_now1 env) b)" using assms(2) by simp
  let ?q = "\<lambda>cb. (cb, Returns None)"
  have "fst (exec (e_cb_ctx1 env) (e_cb_now1 env) ?q (e_cb_ctx2 env) (e_cb_now2 env) b) = Returns (Some ErrCircuitOpen)"
    unfolding assms(3) using assms(2) by (rule exec_refused)
  then obtain b' ns where
    X: "exec (e_cb_ctx1 env) (e_cb_now1 env) ?q (e_cb_ctx2 env) (e_cb_now2 env) b = (Returns (Some ErrCircuitOpen), b', ns)"
    by (cases "exec (e_cb_ctx1 env) (e_cb_now1 env) ?q (e_cb_ctx2 env) (e_cb_now2 env) b") simp
  show ?thesis
    using assms(1) unfolding roundTripCircuitBreaker_def if_not_P [OF n] Let_def prod.case option.case X by auto
qed

text \<open>A whole request.\<close>

lemma round_trip_effect:
  assumes "body_ok req" and "e_cb_ctx2 env \<in> {None, Some Canceled, Some DeadlineExceeded}"
    and "RoundTrip allow exec admits ovf opts env req s = (s', resp, err)"
  shows "hc_effect (hq_Body req) (nat (max 1 (Attempts (ho_retryCfg opts)))) s s' resp err"
proof (cases "prepareRequestBody (e_readErr env) req")
  case (Inl e)
  then show ?thesis using assms(3) by (auto simp: RoundTrip_def hc_effect_stop)
next
  case (Inr req')
  have r: "body_ok req'" "hq_Body req' = hq_Body req" using prepareRequestBody_ok [OF Inr assms(1)] by simp_all
  obtain s1 e where C: "checkRateLimit allow opts (e_now env) req' s = (s1, e)" by (metis surj_pair)
  note fr = checkRateLimit_frame [OF C]
  note L = assms(3) [unfolded RoundTrip_def Inr sum.case C prod.case]
  show ?thesis
  proof (cases e)
    case (Some x)
    then have "s' = s1 \<and> resp = None \<and> err = Some x" using L by simp
    then show ?thesis using hc_effect_frame [OF hc_effect_stop] fr by metis
  next
    case None
    have "hc_effect (hq_Body req) (nat (max 1 (Attempts (ho_retryCfg opts)))) s1 s' resp err"
    proof (cases "hs_circuitBreaker s1")
      case (Some b)
      with L None have "roundTripCircuitBreaker exec admits ovf opts env req' b s1 = (s', resp, err)" by simp
      from breaker_effect [OF this executeRetries_effect [OF r(1)] assms(2)] show ?thesis unfolding r(2) .
    next
      case n: None
      with L None have "executeRetries ovf opts env req' s1 = (s', resp, err)" by simp
      from executeRetries_effect [OF r(1) this] show ?thesis unfolding r(2) .
    qed
    then show ?thesis using hc_effect_frame fr by metis
  qed
qed

text \<open>The layers: the limiter comes first, then the breaker; either ends the request before the network.\<close>

lemma round_trip_layers:
  assumes "RoundTrip allow exec admits ovf opts env req s = (s', resp, err)"
    and "prepareRequestBody (e_readErr env) req = Inr req'" and "checkRateLimit allow opts (e_now env) req' s = (s1, limited)"
  shows "(limited \<noteq> None \<longrightarrow> resp = None \<and> err = Some ErrRateLimited \<and> hs_sent s' = hs_sent s \<and>
      hs_circuitBreaker s' = hs_circuitBreaker s) \<and>
    (limited = None \<and> hs_circuitBreaker s = Some b \<and> e_cb_ctx1 env = None \<and> \<not> admits (e_cb_now1 env) b \<longrightarrow>
      resp = None \<and> err = Some ErrCircuitOpen \<and> hs_sent s' = hs_sent s)"
proof -
  note L = assms(1) [unfolded RoundTrip_def assms(2) sum.case assms(3) prod.case]
  note fr = checkRateLimit_frame [OF assms(3)]
  have "limited = Some e \<Longrightarrow> e = ErrRateLimited" for e using checkRateLimit_err assms(3) by metis
  moreover have "limited = None \<Longrightarrow> hs_circuitBreaker s = Some b \<Longrightarrow> roundTripCircuitBreaker exec admits ovf opts env req' b s1 = (s', resp, err)"
    using L fr by simp
  ultimately show ?thesis using L fr breaker_refuses [of ovf opts env req' b s1 s' resp err] by (cases limited) auto
qed

end

definition cb_admits :: "time \<Rightarrow> ConsecutiveBreaker \<Rightarrow> bool" where
  "cb_admits now cb = fst (snd (cb_canExecute now cb))"

definition rb_admits :: "time \<Rightarrow> RatioBreaker \<Rightarrow> bool" where
  "rb_admits now rb = fst (snd (rb_canExecute now rb))"

interpretation hcb: client_breaker cb_Execute cb_admits
proof (unfold_locales, goal_cases)
  case (3 n1 b e c2 n2)
  have "snd (snd (cb_recordResult p x n2 cb)) = x" for p x cb by (rule cb_recordResult_err)
  with 3 show ?case
    by (auto simp: cb_Execute_def cb_admits_def Let_def split: prod.split) (metis snd_conv)+
qed (auto simp: cb_Execute_def cb_admits_def split: prod.split)

interpretation hrb: client_breaker rb_Execute rb_admits
  by unfold_locales (auto simp: rb_Execute_def rb_admits_def Let_def split: prod.split)

section \<open>The composed client\<close>

text \<open>
  C24: A request through the client with a token bucket, a consecutive breaker and retries makes at most
  \<open>Attempts\<close> attempts (one for a body that cannot be replayed), each with the whole body, and counts each
  once; every attempt but a final success counts as a failure; every response body is closed except the
  one returned, and the caller gets either a response or an error. A request over the rate limit ends with
  \<open>ErrRateLimited\<close> before the breaker and the network see it, and one the breaker refuses ends with
  \<open>ErrCircuitOpen\<close> before the network does.
\<close>

theorem http_client_layers:
  assumes "body_ok req" and "e_cb_ctx2 env \<in> {None, Some Canceled, Some DeadlineExceeded}"
    and "RoundTrip tb_Allow cb_Execute cb_admits ovf opts env req s = (s', resp, err)"
    and "prepareRequestBody (e_readErr env) req = Inr req'"
    and "checkRateLimit tb_Allow opts (e_now env) req' s = (s1, limited)"
  shows "(\<exists>n. int n \<le> max 1 (Attempts (ho_retryCfg opts)) \<and> hs_sent s' = hs_sent s @ replicate n (hq_Body req) \<and>
      hs_requests s' = hs_requests s + n \<and>
      hs_failures s' + (case resp of Some r \<Rightarrow> if hr_StatusCode r < 500 then 1 else 0 | None \<Rightarrow> 0) = hs_failures s + n) \<and>
    hs_open s' = hs_open s @ (case resp of Some r \<Rightarrow> [r] | None \<Rightarrow> []) \<and> (resp = None \<longleftrightarrow> err \<noteq> None) \<and>
    (limited \<noteq> None \<longrightarrow> resp = None \<and> err = Some ErrRateLimited \<and> hs_sent s' = hs_sent s \<and>
      hs_circuitBreaker s' = hs_circuitBreaker s) \<and>
    (limited = None \<and> hs_circuitBreaker s = Some b \<and> e_cb_ctx1 env = None \<and> \<not> cb_admits (e_cb_now1 env) b \<longrightarrow>
      resp = None \<and> err = Some ErrCircuitOpen \<and> hs_sent s' = hs_sent s)"
proof -
  have "n \<le> nat (max 1 a) \<longleftrightarrow> int n \<le> max 1 a" for n a by linarith
  then show ?thesis
    using hcb.round_trip_effect [OF assms(1-3)] hcb.round_trip_layers [OF assms(3-5), of b] unfolding hc_effect_def by simp
qed

text \<open>The same holds with the ratio breaker.\<close>

lemmas ratio_client_effect = hrb.round_trip_effect
  and ratio_client_layers = hrb.round_trip_layers

text \<open>A client with one failing attempt before a success.\<close>

definition hc_demo_opts :: hc_options where
  "hc_demo_opts = \<lparr>ho_retryCfg = \<lparr>Attempts = 3, InitialWait = 0, MaxWait = 0, rStrategy = Constant, ShouldRetry = None\<rparr>,
     ho_rateLimiterFunc = None, ho_rateLimiterKeyFunc = None\<rparr>"

definition hc_demo_env :: hc_env where
  "hc_demo_env = \<lparr>e_readErr = None, e_now = 0, e_cb_ctx1 = None, e_cb_now1 = 0, e_cb_ctx2 = None, e_cb_now2 = 1, e_ctx = (\<lambda>_. None),
     e_transport = (\<lambda>i b. if i = 0 then Inl (Err ''reset'') else Inr \<lparr>hr_StatusCode = 200, hr_id = i\<rparr>),
     e_timedout = (\<lambda>_. False), e_rest = (\<lambda>_. None), e_rnd = (\<lambda>_. 0), e_wait = (\<lambda>_. None)\<rparr>"

definition hc_demo_req :: hc_request where
  "hc_demo_req = \<lparr>hq_Host = ''h'', hq_Body = Some ''x'', hq_GetBody = None\<rparr>"

definition hc_demo_state :: "(TokenBucketLimiter, ConsecutiveBreaker) hc_state" where
  "hc_demo_state = \<lparr>hs_rateLimiter = Some (NewTokenBucket 0 5 second), hs_circuitBreaker = Some (NewConsecutiveBreaker 3 second []),
     hs_requests = 0, hs_failures = 0, hs_sent = [], hs_open = []\<rparr>"

theorem http_client_layers_witness:
  "let (s', resp, err) = RoundTrip tb_Allow cb_Execute cb_admits (\<lambda>_. 0) hc_demo_opts hc_demo_env hc_demo_req hc_demo_state in
     (\<exists>n. int n \<le> 3 \<and> hs_sent s' = replicate n (Some ''x'') \<and> hs_requests s' = n) \<and> (resp = None \<longleftrightarrow> err \<noteq> None)"
proof -
  obtain s' resp err where R: "RoundTrip tb_Allow cb_Execute cb_admits (\<lambda>_. 0) hc_demo_opts hc_demo_env hc_demo_req hc_demo_state = (s', resp, err)"
    by (metis prod_cases3)
  have p: "prepareRequestBody (e_readErr hc_demo_env) hc_demo_req = Inr (hc_demo_req\<lparr>hq_GetBody := Some (\<lambda>_. Inr ''x'')\<rparr>)"
    by (simp add: prepareRequestBody_def hc_demo_env_def hc_demo_req_def DefaultMaxRetryBodySize_def)
  obtain s1 limited where c: "checkRateLimit tb_Allow hc_demo_opts (e_now hc_demo_env) (hc_demo_req\<lparr>hq_GetBody := Some (\<lambda>_. Inr ''x'')\<rparr>) hc_demo_state = (s1, limited)"
    by (metis surj_pair)
  have "body_ok hc_demo_req" "e_cb_ctx2 hc_demo_env \<in> {None, Some Canceled, Some DeadlineExceeded}"
    by (simp_all add: body_ok_def hc_demo_req_def hc_demo_env_def)
  from http_client_layers [OF this R p c]
  have "(\<exists>n. int n \<le> 3 \<and> hs_sent s' = replicate n (Some ''x'') \<and> hs_requests s' = n) \<and> (resp = None \<longleftrightarrow> err \<noteq> None)"
    by (auto simp: hc_demo_opts_def hc_demo_state_def hc_demo_req_def)
  then show ?thesis by (simp add: R)
qed

lemma product_small:
  assumes "0 < InitialWait cfg" and "InitialWait cfg \<le> 2 ^ 32" and "0 \<le> attempt"
  shows "0 < InitialWait cfg * 2 ^ nat (min attempt 30)" and "rat_of_int (InitialWait cfg * 2 ^ nat (min attempt 30)) \<le> 2 ^ 62"
proof -
  show "0 < InitialWait cfg * 2 ^ nat (min attempt 30)" using assms(1) by simp
  have "(2::int) ^ nat (min attempt 30) \<le> 2 ^ 30" by (intro power_increasing) auto
  then have "InitialWait cfg * 2 ^ nat (min attempt 30) \<le> 2 ^ 32 * 2 ^ 30" using assms(1,2) by (intro mult_mono) auto
  then show "rat_of_int (InitialWait cfg * 2 ^ nat (min attempt 30)) \<le> 2 ^ 62"
    using of_int_le_iff [of "InitialWait cfg * 2 ^ nat (min attempt 30)" "2 ^ 62", where ?'a = rat] by simp
qed

text \<open>The linear product of a small initial wait does not wrap around.\<close>

lemma linear_small:
  assumes "0 < InitialWait cfg" and "InitialWait cfg \<le> 2 ^ 32" and "0 \<le> attempt" and "attempt \<le> 1000000"
  shows "wrap64 (InitialWait cfg * (attempt + 1)) = InitialWait cfg * (attempt + 1)" and "0 \<le> InitialWait cfg * (attempt + 1)"
    and "wrap64 (attempt + 1) = attempt + 1"
proof -
  show "wrap64 (attempt + 1) = attempt + 1" using assms(3,4) by (intro wrap64_id) (simp add: in_int64_def)
  show pos: "0 \<le> InitialWait cfg * (attempt + 1)" using assms(1,3) by simp
  have "InitialWait cfg * (attempt + 1) \<le> 2 ^ 32 * 1000001" using assms by (intro mult_mono) auto
  moreover have "in_int64 x" if "0 \<le> x" "x \<le> 2 ^ 32 * 1000001" for x using that by (simp add: in_int64_def)
  ultimately show "wrap64 (InitialWait cfg * (attempt + 1)) = InitialWait cfg * (attempt + 1)" using pos wrap64_id by blast
qed

text \<open>
  The client's own computation of the wait agrees with the one of package \<open>retry\<close>, for initial waits of
  up to \<open>2 ^ 32\<close> nanoseconds (four seconds), up to a million attempts and every strategy, whatever the
  implementation does with floats out of range.
\<close>

theorem http_wait_agrees:
  assumes "InitialWait cfg \<le> 2 ^ 32" and "0 \<le> attempt" and "attempt \<le> 1000000"
    and "0 \<le> rnd" and "rnd < 1"
  shows "computeRetryWait ovf cfg rnd attempt = computeWait cfg rnd attempt"
proof (cases "0 < InitialWait cfg")
  case True
  let ?n = "InitialWait cfg * 2 ^ nat (min attempt 30)"
  have iw: "InitialWait cfg \<le> 2 ^ 53" using assms(1) by simp
  note P = wait_product [OF True iw assms(2)]
  have m: "(if attempt > 30 then 30 else attempt) = min attempt 30" by simp
  note small = product_small [OF True assms(1,2)] and q = product_small(2) [OF True assms(1,2)]
  have f: "float_to_int64 ovf x = trunc_int x" if "0 \<le> x" "x \<le> of_int ?n" for x
    using that q by (simp add: float_to_int64_def)
  have g: "\<not> (2 ^ 63 :: rat) \<le> of_int ?n" using q by simp
  have x0: "0 \<le> (of_int ?n :: rat)" using small(1) by (simp only: of_int_0_le_iff)
  show ?thesis
  proof (cases "rStrategy cfg")
    case Constant
    with True show ?thesis by (simp add: computeWait_def computeRetryWait_def)
  next
    case Linear
    with linear_small [OF True assms(1-3)] True assms(3) show ?thesis by (simp add: computeWait_def computeRetryWait_def)
  next
    case Exponential
    have "(trunc_int (of_int ?n) < 0) = False" using trunc_int_nonneg [OF x0] by (simp only: not_less eq_False)
    with Exponential True g show ?thesis
      unfolding computeWait_def computeRetryWait_def m
      by (simp only: Let_def Strategy.case P float64_max_int64 f [OF x0 order_refl] if_False not_less)
  next
    case ExponentialJitter
    note J = fmul_below [OF assms(4,5) small(1) P(2)]
    have "(trunc_int (fmul rnd (of_int ?n)) < 0) = False" using trunc_int_nonneg [OF J(1)] by (simp only: not_less eq_False)
    moreover have "\<not> (of_int ?n :: rat) \<le> 0" using small(1) by (simp only: of_int_le_0_iff not_le)
    ultimately show ?thesis using ExponentialJitter True g
      unfolding computeWait_def computeRetryWait_def m
      by (simp only: Let_def Strategy.case P float64_max_int64 f [OF J] if_False not_less)
  qed
qed (simp add: computeWait_def computeRetryWait_def)

theorem http_wait_agrees_witness:
  "computeRetryWait (\<lambda>_. 0) \<lparr>Attempts = 5, InitialWait = 100, MaxWait = 0, rStrategy = Exponential, ShouldRetry = None\<rparr> 0 3 =
   computeWait \<lparr>Attempts = 5, InitialWait = 100, MaxWait = 0, rStrategy = Exponential, ShouldRetry = None\<rparr> 0 3"
  by (rule http_wait_agrees) simp_all

text \<open>
  Beyond, they do not. Where the conversion gives the least integer, as on amd64, an initial wait of ten
  seconds with a cap of one minute leads to a negative wait at the 31st attempt, that is to no wait;
  package \<open>retry\<close> waits for one minute.
\<close>

lemma http_wait_overflows:
  "let cfg = \<lparr>Attempts = 40, InitialWait = 10 * second, MaxWait = minute, rStrategy = Exponential, ShouldRetry = None\<rparr> in
   computeRetryWait (\<lambda>_. - (2 ^ 63)) cfg 0 30 < 0 \<and> computeWait cfg 0 30 = minute"
  by code_simp

section \<open>The options of a client\<close>

text \<open>
  An option changes the options and the state that \<open>NewRoundTripper\<close> starts with. The transport, the timeouts, the
  clock, the metrics and the tracer belong to the environment.
\<close>

type_synonym ('l, 'b) hc_config = "hc_options \<times> ('l, 'b) hc_state"

definition WithCircuitBreaker :: "'b option \<Rightarrow> ('l, 'b) hc_config \<Rightarrow> ('l, 'b) hc_config" where
  "WithCircuitBreaker cb = (\<lambda>(o', s). (o', s\<lparr>hs_circuitBreaker := cb\<rparr>))"

definition WithRetry :: "retry_Config \<Rightarrow> ('l, 'b) hc_config \<Rightarrow> ('l, 'b) hc_config" where
  "WithRetry cfg = (\<lambda>(o', s). (o'\<lparr>ho_retryCfg := cfg\<rparr>, s))"

definition WithRateLimiter :: "'l option \<Rightarrow> ('l, 'b) hc_config \<Rightarrow> ('l, 'b) hc_config" where
  "WithRateLimiter rl = (\<lambda>(o', s). (o'\<lparr>ho_rateLimiterKeyFunc := Some hq_Host\<rparr>, s\<lparr>hs_rateLimiter := rl\<rparr>))"

definition WithRateLimiterKey :: "'l option \<Rightarrow> (hc_request \<Rightarrow> string) option \<Rightarrow> ('l, 'b) hc_config \<Rightarrow> ('l, 'b) hc_config" where
  "WithRateLimiterKey rl keyFunc = (\<lambda>(o', s). (o'\<lparr>ho_rateLimiterKeyFunc := keyFunc\<rparr>, s\<lparr>hs_rateLimiter := rl\<rparr>))"

definition WithRateLimiterFunc :: "(hc_request \<Rightarrow> bool) option \<Rightarrow> ('l, 'b) hc_config \<Rightarrow> ('l, 'b) hc_config" where
  "WithRateLimiterFunc fn = (\<lambda>(o', s). (o'\<lparr>ho_rateLimiterFunc := fn\<rparr>, s))"

definition NewRoundTripper :: "(('l, 'b) hc_config \<Rightarrow> ('l, 'b) hc_config) option list \<Rightarrow> ('l, 'b) hc_config" where
  "NewRoundTripper opts =
     fold (\<lambda>opt c. case opt of Some f \<Rightarrow> f c | None \<Rightarrow> c) opts
       (\<lparr>ho_retryCfg = \<lparr>Attempts = 0, InitialWait = 0, MaxWait = 0, rStrategy = Constant, ShouldRetry = None\<rparr>,
         ho_rateLimiterFunc = None, ho_rateLimiterKeyFunc = None\<rparr>,
        \<lparr>hs_rateLimiter = None, hs_circuitBreaker = None, hs_requests = 0, hs_failures = 0, hs_sent = [], hs_open = []\<rparr>)"

text \<open>
  A client without a key function is limited per host, whichever of the two options set its limiter; a client
  without options is not limited, and a predicate replaces the limiter.
\<close>

lemma limited_per_host:
  assumes "ho_rateLimiterFunc (fst c) = None" "c' = WithRateLimiter (Some l) c \<or> c' = WithRateLimiterKey (Some l) None c"
  shows "snd (checkRateLimit allow (fst c') now req (snd c')) = (if snd (allow now (hq_Host req) l) then None else Some ErrRateLimited)"
  using assms by (cases c) (auto simp: WithRateLimiter_def WithRateLimiterKey_def checkRateLimit_def split: prod.splits)

lemma unlimited_by_default:
  "checkRateLimit allow (fst (NewRoundTripper [])) now req (snd (NewRoundTripper [])) = (snd (NewRoundTripper []), None)"
  by (simp add: NewRoundTripper_def checkRateLimit_def)

lemma predicate_replaces_limiter:
  "checkRateLimit allow (fst (WithRateLimiterFunc (Some f) c)) now req s = (s, if f req then None else Some ErrRateLimited)"
  by (cases c) (simp add: WithRateLimiterFunc_def checkRateLimit_def)

end
