(* ===== verification/Log_Redact.thy ===== *)
theory Log_Redact
  imports Go_Strings "HOL-Library.Sublist"
begin

text \<open>
  The redacting log handler of package \<open>logger\<close> (\<open>src/logger/redactor.go\<close>). An attribute has a key and a value;
  values of kind group nest. A pattern is what the handler uses of a \<open>regexp.Regexp\<close>: whether it matches
  and what \<open>ReplaceAllString\<close> returns. Attributes with an empty group are dropped where \<open>slog\<close> does so: when a
  group value is built and when attributes are added to a record. A value of kind \<open>LogValuer\<close> stands for the value the
  wrapped handler resolves it to. Keys are ASCII.
\<close>

datatype 'o attr = Attr (a_Key: string) (a_Value: "'o avalue")
and 'o avalue = VString string | VOther 'o | VValuer "'o avalue" | VGroup "'o attr list"

record pattern =
  MatchString :: "string \<Rightarrow> bool"
  ReplaceAllString :: "string \<Rightarrow> string \<Rightarrow> string"

record redactOptions =
  ro_keys :: "string list"
  ro_patterns :: "pattern list"
  ro_mask :: string

definition DefaultMask :: string where
  "DefaultMask = ''[REDACTED]''"

definition WithRedactedKeys :: "string list \<Rightarrow> redactOptions \<Rightarrow> redactOptions" where
  "WithRedactedKeys keys opt =
     opt\<lparr>ro_keys := ro_keys opt @ map (\<lambda>k. to_lower (trim_space k)) (filter (\<lambda>k. trim_space k \<noteq> []) keys)\<rparr>"

definition WithRedactedPattern :: "pattern option \<Rightarrow> redactOptions \<Rightarrow> redactOptions" where
  "WithRedactedPattern pattern opt = (case pattern of None \<Rightarrow> opt | Some re \<Rightarrow> opt\<lparr>ro_patterns := ro_patterns opt @ [re]\<rparr>)"

definition WithMask :: "string \<Rightarrow> redactOptions \<Rightarrow> redactOptions" where
  "WithMask m opt = (if m \<noteq> [] then opt\<lparr>ro_mask := m\<rparr> else opt)"

definition DefaultRedactedKeys :: "string list" where
  "DefaultRedactedKeys =
     [''password'', ''passwd'', ''token'', ''authorization'', ''secret'', ''ssn'', ''card'', ''cvv'', ''api_key'', ''apikey'', ''private_key'']"

text \<open>The handler without the handler it wraps, which receives what the operations below return.\<close>

record RedactingHandler =
  rh_keys :: "string list"
  rh_patterns :: "pattern list"
  rh_mask :: string

definition NewRedactingHandler :: "(redactOptions \<Rightarrow> redactOptions) option list \<Rightarrow> RedactingHandler" where
  "NewRedactingHandler opts =
     (let cfg = fold (\<lambda>opt c. case opt of None \<Rightarrow> c | Some f \<Rightarrow> f c) opts
        \<lparr>ro_keys = DefaultRedactedKeys, ro_patterns = [], ro_mask = DefaultMask\<rparr>
      in \<lparr>rh_keys = ro_keys cfg, rh_patterns = ro_patterns cfg, rh_mask = ro_mask cfg\<rparr>)"

definition isSensitiveKey :: "RedactingHandler \<Rightarrow> string \<Rightarrow> bool" where
  "isSensitiveKey h key = (let lowerKey = to_lower key in list_ex (\<lambda>k. sublist k lowerKey) (rh_keys h))"

definition redact_string :: "RedactingHandler \<Rightarrow> string \<Rightarrow> string" where
  "redact_string h s = fold (\<lambda>re str. if MatchString re str then ReplaceAllString re str (rh_mask h) else str) (rh_patterns h) s"

fun empty_group :: "'o attr \<Rightarrow> bool" where
  "empty_group (Attr k (VGroup [])) = True"
| "empty_group _ = False"

definition GroupValue :: "'o attr list \<Rightarrow> 'o avalue" where
  "GroupValue as = VGroup (filter (\<lambda>a. \<not> empty_group a) as)"

fun redactAttr :: "RedactingHandler \<Rightarrow> 'o attr \<Rightarrow> 'o attr" where
  "redactAttr h (Attr k (VGroup groupAttrs)) = Attr k (GroupValue (map (redactAttr h) groupAttrs))"
| "redactAttr h (Attr k (VString s)) =
     (if isSensitiveKey h k then Attr k (VString (rh_mask h))
      else if length (rh_patterns h) > 0 then Attr k (VString (redact_string h s))
      else Attr k (VString s))"
| "redactAttr h (Attr k (VOther v)) = (if isSensitiveKey h k then Attr k (VString (rh_mask h)) else Attr k (VOther v))"
| "redactAttr h (Attr k (VValuer v)) = (if isSensitiveKey h k then Attr k (VString (rh_mask h)) else Attr k (VValuer v))"

record 'o log_record =
  lr_Message :: string
  lr_Attrs :: "'o attr list"

definition rh_Handle :: "RedactingHandler \<Rightarrow> 'o log_record \<Rightarrow> 'o log_record" where
  "rh_Handle h r =
     \<lparr>lr_Message = redact_string h (lr_Message r),
      lr_Attrs = filter (\<lambda>a. \<not> empty_group a) (map (redactAttr h) (lr_Attrs r))\<rparr>"

definition rh_WithAttrs :: "RedactingHandler \<Rightarrow> 'o attr list \<Rightarrow> 'o attr list" where
  "rh_WithAttrs h attrs = map (redactAttr h) attrs"

section \<open>What is logged\<close>

text \<open>The attributes that are not groups, with the keys of the groups around them.\<close>

fun leaves :: "string list \<Rightarrow> 'o attr \<Rightarrow> (string list \<times> string \<times> 'o avalue) list" where
  "leaves path (Attr k (VGroup as)) = concat (map (leaves (path @ [k])) as)"
| "leaves path (Attr k v) = [(path, k, v)]"

definition log_leaves :: "'o attr list \<Rightarrow> (string list \<times> string \<times> 'o avalue) list" where
  "log_leaves as = concat (map (leaves []) as)"

definition redact_value :: "RedactingHandler \<Rightarrow> string \<Rightarrow> 'o avalue \<Rightarrow> 'o avalue" where
  "redact_value h k v =
     (if isSensitiveKey h k then VString (rh_mask h)
      else case v of VString s \<Rightarrow> VString (redact_string h s) | _ \<Rightarrow> v)"

lemma leaves_empty_group: "empty_group a \<Longrightarrow> leaves path a = []"
  by (cases a rule: empty_group.cases) auto

lemma concat_leaves_filter: "concat (map (leaves path) (filter (\<lambda>a. \<not> empty_group a) as)) = concat (map (leaves path) as)"
  by (induction as) (simp_all add: leaves_empty_group)

lemma leaves_redactAttr:
  "leaves path (redactAttr h a) = map (\<lambda>(p, k, v). (p, k, redact_value h k v)) (leaves path a)"
proof (induction h a arbitrary: path rule: redactAttr.induct)
  case (1 h k as)
  have "concat (map (leaves (path @ [k])) (map (redactAttr h) as)) =
      map (\<lambda>(p, k, v). (p, k, redact_value h k v)) (concat (map (leaves (path @ [k])) as))"
    using 1 by (induction as) auto
  then show ?case by (simp add: GroupValue_def concat_leaves_filter)
qed (auto simp: redact_value_def redact_string_def)

lemma concat_leaves_redactAttr:
  "concat (map (leaves path) (map (redactAttr h) as)) = map (\<lambda>(p, k, v). (p, k, redact_value h k v)) (concat (map (leaves path) as))"
  by (induction as) (simp_all add: leaves_redactAttr)

text \<open>
  C25: The handler redacts every attribute that is not a group, however deeply it is nested in groups, in the record it
  passes on and in attributes attached beforehand: an attribute whose own key contains a sensitive word, in any
  case, has the mask as its value; the string values of the others, and the message, have gone through
  every pattern; none of these attributes is lost or added, and their order and their groups are the same.
  The key of a group is not looked at, a group without attributes may be dropped, and other values, those of
  kind \<open>LogValuer\<close> among them, are passed on as they are.
\<close>

theorem redacts_every_leaf:
  "log_leaves (lr_Attrs (rh_Handle h r)) = map (\<lambda>(p, k, v). (p, k, redact_value h k v)) (log_leaves (lr_Attrs r)) \<and>
   log_leaves (rh_WithAttrs h as) = map (\<lambda>(p, k, v). (p, k, redact_value h k v)) (log_leaves as) \<and>
   lr_Message (rh_Handle h r) = redact_string h (lr_Message r) \<and>
   (\<forall>(p, k, v) \<in> set (log_leaves (lr_Attrs (rh_Handle h r))).
      (\<exists>w \<in> set (rh_keys h). sublist w (to_lower k)) \<longrightarrow> v = VString (rh_mask h))"
proof -
  have a: "log_leaves (lr_Attrs (rh_Handle h r)) = map (\<lambda>(p, k, v). (p, k, redact_value h k v)) (log_leaves (lr_Attrs r))"
    unfolding log_leaves_def rh_Handle_def log_record.select_convs concat_leaves_filter by (rule concat_leaves_redactAttr)
  moreover have "log_leaves (rh_WithAttrs h as) = map (\<lambda>(p, k, v). (p, k, redact_value h k v)) (log_leaves as)"
    unfolding log_leaves_def rh_WithAttrs_def by (rule concat_leaves_redactAttr)
  moreover have "lr_Message (rh_Handle h r) = redact_string h (lr_Message r)" by (simp add: rh_Handle_def)
  moreover have "(\<exists>w \<in> set (rh_keys h). sublist w (to_lower k)) \<longrightarrow> redact_value h k v = VString (rh_mask h)" for k and v :: "'a avalue"
    by (auto simp: redact_value_def isSensitiveKey_def list_ex_iff)
  ultimately show ?thesis by auto
qed

theorem redacts_every_leaf_witness:
  "let h = NewRedactingHandler []; r = \<lparr>lr_Message = ''login'', lr_Attrs = [Attr ''req'' (VGroup [Attr ''API_Key'' (VString ''k1'')])]\<rparr> in
   log_leaves (lr_Attrs (rh_Handle h r)) = [([''req''], ''API_Key'', VString ''[REDACTED]'' :: nat avalue)]"
proof -
  let ?h = "NewRedactingHandler []"
  let ?r = "\<lparr>lr_Message = ''login'', lr_Attrs = [Attr ''req'' (VGroup [Attr ''API_Key'' (VString ''k1'')])]\<rparr> :: nat log_record"
  have "isSensitiveKey ?h ''API_Key''" "rh_mask ?h = ''[REDACTED]''" by code_simp+
  moreover have "log_leaves (lr_Attrs (rh_Handle ?h ?r)) = map (\<lambda>(p, k, v). (p, k, redact_value ?h k v)) (log_leaves (lr_Attrs ?r))"
    using redacts_every_leaf [of ?h ?r "[]"] by blast
  ultimately show ?thesis by (simp add: log_leaves_def redact_value_def)
qed

text \<open>
  The key of a group is not among the keys the handler looks at: what is logged under a group with a
  sensitive name keeps its value.
\<close>

lemma sensitive_group_is_logged:
  "redactAttr (NewRedactingHandler []) (Attr ''password'' (VGroup [Attr ''value'' (VString ''hunter2'')])) =
     Attr ''password'' (VGroup [Attr ''value'' (VString ''hunter2'')])"
proof -
  have "\<not> isSensitiveKey (NewRedactingHandler []) ''value''" by code_simp
  then show ?thesis by (simp add: GroupValue_def NewRedactingHandler_def)
qed

text \<open>What the wrapped handler logs once it has resolved a value.\<close>

fun resolve :: "'o avalue \<Rightarrow> 'o avalue" where
  "resolve (VValuer v) = resolve v"
| "resolve v = v"

text \<open>
  A \<open>LogValuer\<close> is not resolved before the redaction: neither the keys of the group it stands for nor the patterns are
  applied to what is logged.
\<close>

lemma log_valuer_is_logged:
  "redactAttr (NewRedactingHandler []) (Attr ''user'' (VValuer (VGroup [Attr ''password'' (VString ''hunter2'')]))) =
     Attr ''user'' (VValuer (VGroup [Attr ''password'' (VString ''hunter2'')]))"
  "resolve (VValuer (VGroup [Attr ''password'' (VString ''hunter2'')])) = VGroup [Attr ''password'' (VString ''hunter2'')]"
proof -
  have "\<not> isSensitiveKey (NewRedactingHandler []) ''user''" by code_simp
  then show "redactAttr (NewRedactingHandler []) (Attr ''user'' (VValuer (VGroup [Attr ''password'' (VString ''hunter2'')]))) =
     Attr ''user'' (VValuer (VGroup [Attr ''password'' (VString ''hunter2'')]))" by simp
qed simp

end
