(* ===== verification/Async_Parallel.thy ===== *)
theory Async_Parallel
  imports Go_Prelude "HOL-Library.Multiset"
begin

text \<open>
  \<open>Parallel\<close> and \<open>ParallelLimit\<close> of package \<open>async\<close> (\<open>src/async/parallel.go\<close>): the calling goroutine starts one
  goroutine per task, with a limit only while a slot of the semaphore is free, and waits for all of them;
  \<open>par_step\<close> interleaves it with the tasks, which return, panic or find the context ended, at any time. A task
  that is \<open>nil\<close> is \<open>None\<close>. The state keeps the tasks whose goroutines have ended with how each did (it ran
  and returned, ran and panicked, or was skipped because the context had ended before it ran), and
  whether the call returned without waiting.
\<close>

datatype task_result = TReturned "error option" | TPanicked string | TSkipped error

datatype par_pc = Starting | Waiting | Returned "error option"

record 't par =
  q_todo :: "'t option list"
  q_running :: "'t list"
  q_ended :: "('t \<times> task_result) list"
  q_firstErr :: "error option"
  q_ctx :: ctx_err
  q_pc :: par_pc
  q_early :: bool

definition par_start :: "'t option list \<Rightarrow> 't par" where
  "par_start tasks = \<lparr>q_todo = tasks, q_running = [], q_ended = [], q_firstErr = None, q_ctx = None, q_pc = Starting, q_early = False\<rparr>"

text \<open>The size of the semaphore of \<open>ParallelLimit\<close>; \<open>Parallel\<close> has none.\<close>

definition sem_size :: "int \<Rightarrow> nat" where
  "sem_size concurrency = (if concurrency \<le> 0 then 10 else nat concurrency)"

definition once_err :: "error option \<Rightarrow> error option \<Rightarrow> error option" where
  "once_err firstErr e = (case firstErr of Some f \<Rightarrow> Some f | None \<Rightarrow> e)"

fun report :: "task_result \<Rightarrow> error option" where
  "report (TReturned e) = e"
| "report (TPanicked r) = Some (Err (''task panicked: '' @ r))"
| "report (TSkipped e) = Some e"

definition slot_free :: "nat option \<Rightarrow> nat \<Rightarrow> bool" where
  "slot_free limit n = (case limit of None \<Rightarrow> True | Some k \<Rightarrow> n < k)"

inductive par_step :: "nat option \<Rightarrow> 't par \<Rightarrow> 't par \<Rightarrow> bool" for limit where
  skip_nil: "q_pc s = Starting \<Longrightarrow> q_todo s = None # ts \<Longrightarrow> par_step limit s (s\<lparr>q_todo := ts\<rparr>)"
| start: "q_pc s = Starting \<Longrightarrow> q_todo s = Some t # ts \<Longrightarrow> slot_free limit (length (q_running s)) \<Longrightarrow>
    par_step limit s (s\<lparr>q_todo := ts, q_running := q_running s @ [t]\<rparr>)"
| start_ended: "q_pc s = Starting \<Longrightarrow> q_todo s = Some t # ts \<Longrightarrow> limit \<noteq> None \<Longrightarrow> q_ctx s = Some e \<Longrightarrow>
    par_step limit s (s\<lparr>q_firstErr := once_err (q_firstErr s) (Some e), q_pc := Returned (once_err (q_firstErr s) (Some e)), q_early := True\<rparr>)"
| all_started: "q_pc s = Starting \<Longrightarrow> q_todo s = [] \<Longrightarrow> par_step limit s (s\<lparr>q_pc := Waiting\<rparr>)"
| task_ends: "q_running s = xs @ t # ys \<Longrightarrow> (\<forall>e. r = TSkipped e \<longrightarrow> q_ctx s = Some e) \<Longrightarrow>
    par_step limit s (s\<lparr>q_running := xs @ ys, q_ended := q_ended s @ [(t, r)], q_firstErr := once_err (q_firstErr s) (report r)\<rparr>)"
| all_ended: "q_pc s = Waiting \<Longrightarrow> q_running s = [] \<Longrightarrow> par_step limit s (s\<lparr>q_pc := Returned (q_firstErr s)\<rparr>)"
| ctx_ends: "q_ctx s = None \<Longrightarrow> par_step limit s (s\<lparr>q_ctx := Some e\<rparr>)"

section \<open>Correctness\<close>

definition somes :: "'t option list \<Rightarrow> 't list" where
  "somes ts = List.map_filter (\<lambda>x. x) ts"

lemma somes_simps [simp]: "somes [] = []" "somes (None # ts) = somes ts" "somes (Some t # ts) = t # somes ts"
  by (simp_all add: somes_def List.map_filter_simps)

text \<open>The first error reported, in the order in which the tasks ended.\<close>

definition first_failure :: "('t \<times> task_result) list \<Rightarrow> error option" where
  "first_failure ended = foldl (\<lambda>f (t, x). once_err f (report x)) None ended"

lemma first_failure_snoc: "first_failure (xs @ [(t, x)]) = once_err (first_failure xs) (report x)"
  by (simp add: first_failure_def)

lemma report_None: "report x = None \<longleftrightarrow> x = TReturned None"
  by (cases x) auto

lemma first_failure_None: "first_failure xs = None \<longleftrightarrow> (\<forall>(t, x) \<in> set xs. x = TReturned None)"
proof (induction xs rule: rev_induct)
  case (snoc x xs)
  then show ?case by (cases x) (auto simp: first_failure_snoc once_err_def report_None split: option.splits)
qed (simp add: first_failure_def)

definition par_inv :: "nat option \<Rightarrow> 't option list \<Rightarrow> 't par \<Rightarrow> bool" where
  "par_inv limit tasks s \<longleftrightarrow>
     (\<forall>k. limit = Some k \<longrightarrow> length (q_running s) \<le> k) \<and>
     mset (map fst (q_ended s)) + mset (q_running s) + mset (somes (q_todo s)) = mset (somes tasks) \<and>
     (\<not> q_early s \<longrightarrow> q_firstErr s = first_failure (q_ended s) \<and> (q_pc s \<noteq> Starting \<longrightarrow> q_todo s = []) \<and>
        (\<forall>r. q_pc s = Returned r \<longrightarrow> r = q_firstErr s \<and> q_running s = [])) \<and>
     (\<forall>t e. (t, TSkipped e) \<in> set (q_ended s) \<longrightarrow> q_ctx s = Some e) \<and>
     (q_early s \<longrightarrow> limit \<noteq> None \<and> q_ctx s \<noteq> None \<and> (\<exists>e. q_pc s = Returned (Some e)))"

lemma par_inv_start: "par_inv limit tasks (par_start tasks)"
  by (simp add: par_inv_def par_start_def first_failure_def)

lemma par_inv_step:
  assumes "par_step limit s s'" and "par_inv limit tasks s"
  shows "par_inv limit tasks s'"
  using assms
proof (cases rule: par_step.cases)
  case (task_ends xs t ys r)
  have "q_firstErr s' = first_failure (q_ended s')" if "\<not> q_early s"
    using task_ends(1) that assms(2) by (simp add: par_inv_def first_failure_snoc)
  moreover have "\<not> (\<exists>r. q_pc s = Returned r)" if "\<not> q_early s" using task_ends(2) that assms(2) by (auto simp: par_inv_def)
  ultimately show ?thesis using task_ends assms(2) unfolding par_inv_def by auto
qed (auto simp: par_inv_def slot_free_def once_err_def split: option.splits)

lemma par_invariant: "(par_step limit)\<^sup>*\<^sup>* (par_start tasks) s \<Longrightarrow> par_inv limit tasks s"
  by (induction rule: rtranclp_induct) (use par_inv_start par_inv_step in blast)+

text \<open>
  C32: \<open>ParallelLimit\<close> never has more tasks running than the limit (ten if it is not positive), and starts no
  task twice. If it returns after waiting, the goroutine of every task that is not nil has ended, exactly
  once: the task ran, or it was skipped, which happens only if the context had ended. The result is the
  first error reported, by returning it, by a panic or by skipping a task; it is nil exactly if every task
  has run and returned nil. It returns without waiting, with tasks left that are not started, only if the
  context has ended, and then with an error.
\<close>

theorem parallel_limit_correct:
  assumes "(par_step (Some (sem_size concurrency)))\<^sup>*\<^sup>* (par_start tasks) s"
  shows "int (length (q_running s)) \<le> (if concurrency \<le> 0 then 10 else concurrency) \<and>
    mset (map fst (q_ended s)) + mset (q_running s) \<subseteq># mset (somes tasks) \<and>
    (\<forall>t e. (t, TSkipped e) \<in> set (q_ended s) \<longrightarrow> q_ctx s = Some e) \<and>
    (q_pc s = Returned r \<and> \<not> q_early s \<longrightarrow>
       mset (map fst (q_ended s)) = mset (somes tasks) \<and> r = first_failure (q_ended s) \<and>
       (r = None \<longleftrightarrow> (\<forall>(t, x) \<in> set (q_ended s). x = TReturned None))) \<and>
    (q_pc s = Returned r \<and> q_early s \<longrightarrow> r \<noteq> None \<and> q_ctx s \<noteq> None)"
proof -
  have inv: "par_inv (Some (sem_size concurrency)) tasks s" by (rule par_invariant [OF assms])
  then have "length (q_running s) \<le> sem_size concurrency" by (simp add: par_inv_def)
  moreover have "mset (map fst (q_ended s)) + mset (q_running s) \<subseteq># mset (somes tasks)"
    using inv unfolding par_inv_def by (metis mset_subset_eq_add_left)
  moreover have "r = None \<longleftrightarrow> (\<forall>(t, x) \<in> set (q_ended s). x = TReturned None)" if "r = first_failure (q_ended s)"
    unfolding that by (rule first_failure_None)
  ultimately show ?thesis using inv unfolding par_inv_def by (auto simp: sem_size_def split: if_splits)
qed

theorem parallel_limit_correct_witness:
  "\<exists>s :: nat par. q_pc s = Returned (Some (Err ''task panicked: x'')) \<and> mset (map fst (q_ended s)) = {#7#}"
proof -
  let ?st = "par_step (Some (sem_size 2))"
  define a where "a = (par_start [Some 7 :: nat option])\<lparr>q_todo := [], q_running := [7]\<rparr>"
  define b where "b = a\<lparr>q_running := [], q_ended := [(7, TPanicked ''x'')], q_firstErr := Some (Err ''task panicked: x'')\<rparr>"
  define c where "c = b\<lparr>q_pc := Waiting\<rparr>"
  define d where "d = c\<lparr>q_pc := Returned (Some (Err ''task panicked: x''))\<rparr>"
  have "?st (par_start [Some 7]) a"
    using par_step.start [of "par_start [Some 7 :: nat option]" 7 "[]" "Some (sem_size 2)"] by (simp add: a_def par_start_def slot_free_def sem_size_def)
  moreover have "?st a b"
    using par_step.task_ends [of a "[]" 7 "[]" "TPanicked ''x''" "Some (sem_size 2)"] by (simp add: a_def b_def par_start_def once_err_def)
  moreover have "?st b c" unfolding c_def by (rule par_step.all_started) (simp_all add: b_def a_def par_start_def)
  moreover have "?st c d"
    using par_step.all_ended [of c "Some (sem_size 2)"] by (simp add: d_def c_def b_def a_def par_start_def)
  ultimately have "?st\<^sup>*\<^sup>* (par_start [Some 7]) d" by (meson rtranclp.rtrancl_into_rtrancl rtranclp.rtrancl_refl)
  from parallel_limit_correct [OF this, of "Some (Err ''task panicked: x'')"] show ?thesis
    by (intro exI [of _ d]) (simp add: d_def c_def b_def a_def par_start_def)
qed

text \<open>\<open>Parallel\<close> has no limit and always waits.\<close>

theorem parallel_correct:
  assumes "(par_step None)\<^sup>*\<^sup>* (par_start tasks) s" and "q_pc s = Returned r"
  shows "mset (map fst (q_ended s)) = mset (somes tasks) \<and> r = first_failure (q_ended s)"
  using par_invariant [OF assms(1)] assms(2) by (auto simp: par_inv_def)

end
