(* ===== verification/Go_Quote.thy ===== *)
theory Go_Quote
  imports Go_Prelude
begin

text \<open>
  The verb \<open>%q\<close> of package \<open>fmt\<close>, which the error messages of several packages use to quote a name: a Go
  string literal. Quotes, backslashes and control characters are escaped; bytes above 127 are kept as they
  are, which is right for printable characters in UTF-8.
\<close>

definition hex_digit :: "nat \<Rightarrow> char" where
  "hex_digit n = ''0123456789abcdef'' ! n"

definition quote_char :: "char \<Rightarrow> string" where
  "quote_char c =
     (if c = CHR 0x22 then [CHR 0x5C, CHR 0x22] else if c = CHR 0x5C then [CHR 0x5C, CHR 0x5C]
      else if c = CHR 7 then CHR 0x5C # ''a'' else if c = CHR 8 then CHR 0x5C # ''b'' else if c = CHR 12 then CHR 0x5C # ''f''
      else if c = CHR 10 then CHR 0x5C # ''n'' else if c = CHR 13 then CHR 0x5C # ''r'' else if c = CHR 9 then CHR 0x5C # ''t''
      else if c = CHR 11 then CHR 0x5C # ''v''
      else
        let n = of_char c :: nat
        in if n < 32 \<or> n = 127 then CHR 0x5C # ''x'' @ [hex_digit (n div 16), hex_digit (n mod 16)] else [c])"

definition go_quote :: "string \<Rightarrow> string" where
  "go_quote s = CHR 0x22 # concat (map quote_char s) @ [CHR 0x22]"

end
