(* ===== verification/Pg_Common.thy ===== *)
theory Pg_Common
  imports Go_Quote
begin

text \<open>
  What the two stores on PostgreSQL share (\<open>src/idempotency/postgres.go\<close>, \<open>src/db/ratelimit.go\<close>): the check of a
  table name, the failure of a statement, and the microseconds of a \<open>TIMESTAMPTZ\<close> column.
\<close>

definition is_ident_start :: "char \<Rightarrow> bool" where
  "is_ident_start c \<longleftrightarrow>
     (let n = (of_char c :: nat) in (97 \<le> n \<and> n \<le> 122) \<or> (65 \<le> n \<and> n \<le> 90) \<or> c = CHR ''_'')"

definition is_ident_char :: "char \<Rightarrow> bool" where
  "is_ident_char c \<longleftrightarrow> is_ident_start c \<or> (let n = (of_char c :: nat) in 48 \<le> n \<and> n \<le> 57)"

text \<open>The expression \<open>^[a-zA-Z_][a-zA-Z0-9_]*$\<close>.\<close>

definition ident_regex :: "string \<Rightarrow> bool" where
  "ident_regex name = (case name of [] \<Rightarrow> False | c # cs \<Rightarrow> is_ident_start c \<and> list_all is_ident_char cs)"

lemma ident_regex_chars: "ident_regex name \<Longrightarrow> name \<noteq> [] \<and> (\<forall>c \<in> set name. is_ident_char c)"
  by (auto simp: ident_regex_def is_ident_char_def list_all_iff split: list.splits)

text \<open>Nothing, or the error a statement fails with and whether the server had run it.\<close>

type_synonym db_fault = "(error \<times> bool) option"

definition micros :: "time \<Rightarrow> time" where
  "micros t = t div 1000 * 1000"

lemma mono_micros: "mono micros" "micros (micros t) = micros t"
  by (auto simp: micros_def intro!: monoI zdiv_mono1)

lemma micros_le: "micros t \<le> t" "t < micros t + 1000"
  by (simp_all add: micros_def)

text \<open>A difference to a whole number of microseconds is not changed by rounding down.\<close>

lemma micros_diff:
  assumes "d mod 1000 = 0"
  shows "d \<le> micros t \<longleftrightarrow> d \<le> t"
proof -
  obtain q where q: "d = 1000 * q" using assms by auto
  show ?thesis
  proof
    assume "d \<le> t"
    then have "q \<le> t div 1000" using q by (simp add: zdiv_mono1 [of "1000 * q" t 1000, simplified])
    then show "d \<le> micros t" using q by (simp add: micros_def)
  qed (use micros_le(1) [of t] in simp)
qed

end
