(* ===== verification/Idem_Postgres.thy ===== *)
theory Idem_Postgres
  imports Idem_Middleware Pg_Common
begin

text \<open>
  The PostgreSQL store of package \<open>idempotency\<close> (\<open>src/idempotency/postgres.go\<close>). A statement runs
  atomically on the table; between two statements of one \<open>Lock\<close> other replicas run theirs, so \<open>Lock\<close> is
  the step function \<open>lock_step\<close> over its sequence points, and \<open>pg_step\<close> interleaves any number of callers.
  The database and the JSON codec are parameters (\<open>pg_db\<close>): what a \<open>TIMESTAMPTZ\<close> column keeps of a time,
  what is read back from a \<open>JSONB\<close> column, and the two directions of the codec. Any statement may fail,
  with or without having run on the server (\<open>db_fault\<close>).
\<close>

section \<open>The store and its options\<close>

definition DefaultTableName :: string where
  "DefaultTableName = ''idempotency_keys''"

definition DefaultLockTTL :: duration where
  "DefaultLockTTL = 30 * second"

definition DefaultResponseTTL :: duration where
  "DefaultResponseTTL = 24 * hour"

record PGStore =
  g_tableName :: string
  g_lockTTL :: duration
  g_responseTTL :: duration

definition WithPGLockTTL :: "duration \<Rightarrow> PGStore \<Rightarrow> PGStore" where
  "WithPGLockTTL ttl s = (if ttl > 0 then s\<lparr>g_lockTTL := ttl\<rparr> else s)"

definition WithPGResponseTTL :: "duration \<Rightarrow> PGStore \<Rightarrow> PGStore" where
  "WithPGResponseTTL ttl s = (if ttl > 0 then s\<lparr>g_responseTTL := ttl\<rparr> else s)"

definition WithPGTableName :: "string \<Rightarrow> PGStore \<Rightarrow> PGStore" where
  "WithPGTableName name s = s\<lparr>g_tableName := name\<rparr>"

text \<open>The expression \<open>^[a-zA-Z_][a-zA-Z0-9_]*$\<close>.\<close>

definition tableNameRegex :: "string \<Rightarrow> bool" where
  "tableNameRegex name = ident_regex name"

text \<open>\<open>connected\<close> is that the connection passed is not nil.\<close>

definition NewPGStore :: "bool \<Rightarrow> (PGStore \<Rightarrow> PGStore) list \<Rightarrow> error + PGStore" where
  "NewPGStore connected opts =
     (if \<not> connected then Inl (Err ''idempotency: db connection is required'')
      else
        let s = fold (\<lambda>opt s. opt s) opts
                  \<lparr>g_tableName = DefaultTableName, g_lockTTL = DefaultLockTTL, g_responseTTL = DefaultResponseTTL\<rparr>
        in if \<not> tableNameRegex (g_tableName s) then Inl (Err (''idempotency: invalid table name '' @ go_quote (g_tableName s)))
           else Inr s)"

section \<open>The table and its statements\<close>

record idem_row =
  w_status :: Status
  w_status_code :: "int option"
  w_headers :: "string option"
  w_body :: "string option"
  w_locked_until :: time
  w_expires_at :: time
  w_created_at :: time
  w_updated_at :: time

type_synonym idem_table = "string \<rightharpoonup> idem_row"

record pg_db =
  db_time :: "time \<Rightarrow> time"
  db_jsonb :: "string \<Rightarrow> string"
  j_Marshal :: "(string, string list) gomap \<Rightarrow> error + string"
  j_Unmarshal :: "string \<Rightarrow> (string, string list) gomap option"

text \<open>A statement returns the table and the number of rows it affected.\<close>

definition sql_exec :: "db_fault \<Rightarrow> (idem_table \<Rightarrow> idem_table \<times> nat) \<Rightarrow> idem_table \<Rightarrow> idem_table \<times> (error + nat)" where
  "sql_exec fault stmt t =
     (case fault of
        None \<Rightarrow> (fst (stmt t), Inr (snd (stmt t)))
      | Some (e, executed) \<Rightarrow> (if executed then fst (stmt t) else t, Inl e))"

definition sql_insert :: "string \<Rightarrow> idem_row \<Rightarrow> idem_table \<Rightarrow> idem_table \<times> nat" where
  "sql_insert key row t = (case t key of None \<Rightarrow> (t(key \<mapsto> row), 1) | Some _ \<Rightarrow> (t, 0))"

definition sql_update :: "string \<Rightarrow> (idem_row \<Rightarrow> bool) \<Rightarrow> (idem_row \<Rightarrow> idem_row) \<Rightarrow> idem_table \<Rightarrow> idem_table \<times> nat" where
  "sql_update key cond f t =
     (case t key of None \<Rightarrow> (t, 0) | Some row \<Rightarrow> if cond row then (t(key \<mapsto> f row), 1) else (t, 0))"

definition sql_delete :: "string \<Rightarrow> (idem_row \<Rightarrow> bool) \<Rightarrow> idem_table \<Rightarrow> idem_table \<times> nat" where
  "sql_delete key cond t =
     (case t key of None \<Rightarrow> (t, 0) | Some row \<Rightarrow> if cond row then (t(key := None), 1) else (t, 0))"

definition buildRecordFromRow :: "pg_db \<Rightarrow> idem_row \<Rightarrow> Record" where
  "buildRecordFromRow db row =
     \<lparr>rec_Status = w_status row,
      rec_Response =
        (case w_status_code row of
           Some code \<Rightarrow>
             if w_status row = StatusCompleted then
               Some \<lparr>r_StatusCode = code,
                     r_Headers =
                       (case w_headers row of
                          None \<Rightarrow> []
                        | Some headersJSON \<Rightarrow>
                            if headersJSON = [] then []
                            else (case j_Unmarshal db headersJSON of Some headers \<Rightarrow> headers | None \<Rightarrow> [])),
                     r_Body = (case w_body row of Some body \<Rightarrow> body | None \<Rightarrow> [])\<rparr>
             else None
         | None \<Rightarrow> None)\<rparr>"

section \<open>Lock\<close>

text \<open>
  The sequence points of \<open>Lock\<close>: before the clock is read, before the insert, before the select, and
  before each of the two conditional updates of \<open>tryReclaimExpired\<close>, with the local variables that are
  live there. \<open>LDone\<close> has the result.
\<close>

datatype lock_pc =
    LStart
  | LInsert time
  | LSelect time
  | LExpired time idem_row
  | LLease time idem_row
  | LDone "error + bool \<times> Record option"

definition locked_row :: "pg_db \<Rightarrow> PGStore \<Rightarrow> time \<Rightarrow> idem_row" where
  "locked_row db s now =
     \<lparr>w_status = StatusInProgress, w_status_code = None, w_headers = None, w_body = None,
      w_locked_until = db_time db (time_add now (g_lockTTL s)), w_expires_at = db_time db (time_add now (g_responseTTL s)),
      w_created_at = db_time db now, w_updated_at = db_time db now\<rparr>"

definition update_expired :: "pg_db \<Rightarrow> PGStore \<Rightarrow> time \<Rightarrow> string \<Rightarrow> idem_row \<Rightarrow> idem_table \<Rightarrow> idem_table \<times> nat" where
  "update_expired db s now key seen =
     sql_update key (\<lambda>row. w_expires_at row = w_expires_at seen)
       (\<lambda>row. row\<lparr>w_status := StatusInProgress, w_status_code := None, w_headers := None, w_body := None,
                  w_locked_until := db_time db (time_add now (g_lockTTL s)),
                  w_expires_at := db_time db (time_add now (g_responseTTL s)), w_updated_at := db_time db now\<rparr>)"

definition update_lease :: "pg_db \<Rightarrow> PGStore \<Rightarrow> time \<Rightarrow> string \<Rightarrow> idem_row \<Rightarrow> idem_table \<Rightarrow> idem_table \<times> nat" where
  "update_lease db s now key seen =
     sql_update key (\<lambda>row. w_status row = StatusInProgress \<and> w_locked_until row = w_locked_until seen)
       (\<lambda>row. row\<lparr>w_locked_until := db_time db (time_add now (g_lockTTL s)),
                  w_expires_at := db_time db (time_add now (g_responseTTL s)), w_updated_at := db_time db now\<rparr>)"

text \<open>
  One step: \<open>clock\<close> is what \<open>nowFunc\<close> shows if it is read, \<open>fault\<close> what befalls the statement if one is
  run. When the select finds no row the call starts again, with a new reading of the clock.
\<close>

fun lock_step :: "pg_db \<Rightarrow> PGStore \<Rightarrow> time \<Rightarrow> db_fault \<Rightarrow> string \<Rightarrow> idem_table \<times> lock_pc \<Rightarrow> idem_table \<times> lock_pc" where
  "lock_step db s clock fault key (t, LStart) =
     (t, if key = [] then LDone (Inl (Err ''idempotency: key cannot be empty'')) else LInsert clock)"
| "lock_step db s clock fault key (t, LInsert now) =
     (case sql_exec fault (sql_insert key (locked_row db s now)) t of
        (t', Inl e) \<Rightarrow> (t', LDone (Inl (Wrap ''idempotency: lock insert failed'' e)))
      | (t', Inr n) \<Rightarrow> (t', if n = 1 then LDone (Inr (False, None)) else LSelect now))"
| "lock_step db s clock fault key (t, LSelect now) =
     (case fault of
        Some (e, _) \<Rightarrow> (t, LDone (Inl (Wrap ''idempotency: lock read failed'' e)))
      | None \<Rightarrow> (t, case t key of None \<Rightarrow> LStart | Some row \<Rightarrow> LExpired now row))"
| "lock_step db s clock fault key (t, LExpired now row) =
     (if now > w_expires_at row then
        case sql_exec fault (update_expired db s now key row) t of
          (t', Inr n) \<Rightarrow> (t', if n = 1 then LDone (Inr (False, None)) else LLease now row)
        | (t', Inl _) \<Rightarrow> (t', LLease now row)
      else (t, LLease now row))"
| "lock_step db s clock fault key (t, LLease now row) =
     (if w_status row = StatusInProgress \<and> now > w_locked_until row then
        case sql_exec fault (update_lease db s now key row) t of
          (t', Inr n) \<Rightarrow> (t', LDone (if n = 1 then Inr (False, None) else Inr (True, Some (buildRecordFromRow db row))))
        | (t', Inl _) \<Rightarrow> (t', LDone (Inr (True, Some (buildRecordFromRow db row))))
      else (t, LDone (Inr (True, Some (buildRecordFromRow db row)))))"
| "lock_step db s clock fault key (t, LDone r) = (t, LDone r)"

section \<open>Save, Unlock, Delete\<close>

definition pg_error :: "string \<Rightarrow> error + nat \<Rightarrow> ctx_err" where
  "pg_error what r = (case r of Inl e \<Rightarrow> Some (Wrap what e) | Inr _ \<Rightarrow> None)"

definition pg_Save :: "pg_db \<Rightarrow> PGStore \<Rightarrow> db_fault \<Rightarrow> time \<Rightarrow> string \<Rightarrow> Response \<Rightarrow> idem_table \<Rightarrow> idem_table \<times> ctx_err" where
  "pg_Save db s fault now key response t =
     (if key = [] then (t, Some (Err ''idempotency: key cannot be empty''))
      else
        case j_Marshal db (r_Headers response) of
          Inl e \<Rightarrow> (t, Some (Wrap ''idempotency: failed to marshal headers'' e))
        | Inr headersJSON \<Rightarrow>
            let (t', r) = sql_exec fault
                  (sql_update key (\<lambda>_. True)
                    (\<lambda>row. row\<lparr>w_status := StatusCompleted, w_status_code := Some (r_StatusCode response),
                               w_headers := Some (db_jsonb db headersJSON), w_body := Some (r_Body response),
                               w_expires_at := db_time db (time_add now (g_responseTTL s)), w_updated_at := db_time db now\<rparr>)) t
            in (t', pg_error ''idempotency: save response failed'' r))"

definition pg_Unlock :: "db_fault \<Rightarrow> string \<Rightarrow> idem_table \<Rightarrow> idem_table \<times> ctx_err" where
  "pg_Unlock fault key t =
     (if key = [] then (t, Some (Err ''idempotency: key cannot be empty''))
      else let (t', r) = sql_exec fault (sql_delete key (\<lambda>row. w_status row = StatusInProgress)) t
           in (t', pg_error ''idempotency: unlock failed'' r))"

definition pg_Delete :: "db_fault \<Rightarrow> string \<Rightarrow> idem_table \<Rightarrow> idem_table \<times> ctx_err" where
  "pg_Delete fault key t =
     (if key = [] then (t, Some (Err ''idempotency: key cannot be empty''))
      else let (t', r) = sql_exec fault (sql_delete key (\<lambda>_. True)) t
           in (t', pg_error ''idempotency: delete failed'' r))"

section \<open>Replicas\<close>

text \<open>
  Any number of callers on any replicas, each inside at most one \<open>Lock\<close> at a time. The history (newest
  first) records who acquired a key, with the time its own clock had shown, and the calls that end an
  operation: \<open>Save\<close>, \<open>Unlock\<close> and \<open>Delete\<close>. Clocks of different replicas need not agree, nor go forward.
\<close>

datatype lock_event = Acquired nat string time | Ended string

record pg_sys =
  y_table :: idem_table
  y_calls :: "nat \<rightharpoonup> string \<times> lock_pc"
  y_hist :: "lock_event list"

fun pc_now :: "lock_pc \<Rightarrow> time" where
  "pc_now (LInsert now) = now"
| "pc_now (LExpired now row) = now"
| "pc_now (LLease now row) = now"
| "pc_now _ = 0"

definition acquires :: "lock_pc \<Rightarrow> lock_pc \<Rightarrow> bool" where
  "acquires pc pc' \<longleftrightarrow> (case pc of LDone r \<Rightarrow> False | _ \<Rightarrow> pc' = LDone (Inr (False, None)))"

inductive pg_step :: "pg_db \<Rightarrow> PGStore \<Rightarrow> pg_sys \<Rightarrow> pg_sys \<Rightarrow> bool" for db s where
  pg_call: "y_calls v p = None \<Longrightarrow> pg_step db s v (v\<lparr>y_calls := (y_calls v)(p \<mapsto> (k, LStart))\<rparr>)"
| pg_lock: "y_calls v p = Some (k, pc) \<Longrightarrow> lock_step db s clock fault k (y_table v, pc) = (t', pc') \<Longrightarrow>
    pg_step db s v (v\<lparr>y_table := t', y_calls := (y_calls v)(p \<mapsto> (k, pc')),
      y_hist := (if acquires pc pc' then [Acquired p k (pc_now pc)] else []) @ y_hist v\<rparr>)"
| pg_return: "y_calls v p = Some (k, LDone r) \<Longrightarrow> pg_step db s v (v\<lparr>y_calls := (y_calls v)(p := None)\<rparr>)"
| pg_save: "pg_step db s v
    (v\<lparr>y_table := fst (pg_Save db s fault now k resp (y_table v)), y_hist := Ended k # y_hist v\<rparr>)"
| pg_unlock: "pg_step db s v (v\<lparr>y_table := fst (pg_Unlock fault k (y_table v)), y_hist := Ended k # y_hist v\<rparr>)"
| pg_delete: "pg_step db s v (v\<lparr>y_table := fst (pg_Delete fault k (y_table v)), y_hist := Ended k # y_hist v\<rparr>)"

definition pg_empty :: pg_sys where
  "pg_empty = \<lparr>y_table = Map.empty, y_calls = Map.empty, y_hist = []\<rparr>"

section \<open>A lease is exclusive\<close>

text \<open>What a column keeps of times: the order, and times that were already in a column.\<close>

definition keeps_time_order :: "pg_db \<Rightarrow> bool" where
  "keeps_time_order db \<longleftrightarrow> mono (db_time db) \<and> (\<forall>t. db_time db (db_time db t) = db_time db t)"

lemma db_time_le: "keeps_time_order db \<Longrightarrow> t \<le> u \<Longrightarrow> db_time db t \<le> db_time db u"
  by (simp add: keeps_time_order_def monoD)

lemma db_time_later:
  assumes "keeps_time_order db" and "db_time db u < now" and "0 \<le> d"
  shows "db_time db u \<le> db_time db (time_add now d)"
  using db_time_le [OF assms(1), of "db_time db u" "time_add now d"] assms by (simp add: keeps_time_order_def time_add_def)

text \<open>The end of the lease a key was last acquired for, while no call has ended the operation.\<close>

fun lease_of :: "PGStore \<Rightarrow> string \<Rightarrow> lock_event list \<Rightarrow> time option" where
  "lease_of s k [] = None"
| "lease_of s k (Acquired p j now # h) = (if j = k then Some (time_add now (g_lockTTL s)) else lease_of s k h)"
| "lease_of s k (Ended j # h) = (if j = k then None else lease_of s k h)"

fun leases_respected :: "pg_db \<Rightarrow> PGStore \<Rightarrow> lock_event list \<Rightarrow> bool" where
  "leases_respected db s [] = True"
| "leases_respected db s (Acquired p k now # h) \<longleftrightarrow>
     leases_respected db s h \<and> (case lease_of s k h of None \<Rightarrow> True | Some u \<Rightarrow> db_time db u < now)"
| "leases_respected db s (Ended k # h) \<longleftrightarrow> leases_respected db s h"

definition lease_stored :: "pg_db \<Rightarrow> PGStore \<Rightarrow> idem_table \<Rightarrow> lock_event list \<Rightarrow> bool" where
  "lease_stored db s t h \<longleftrightarrow> (\<forall>k u. lease_of s k h = Some u \<longrightarrow>
     (\<exists>row. t k = Some row \<and> db_time db u \<le> w_locked_until row \<and> db_time db u \<le> w_expires_at row))"

lemma acquires_simps [simp]:
  "\<not> acquires pc LStart" "\<not> acquires pc (LInsert n)" "\<not> acquires pc (LSelect n)" "\<not> acquires pc (LExpired n row)"
  "\<not> acquires pc (LLease n row)" "\<not> acquires (LDone r) pc'" "\<not> acquires pc (LDone (Inl e))" "\<not> acquires pc (LDone (Inr (True, x)))"
  by (simp_all add: acquires_def split: lock_pc.splits)

text \<open>
  A step of \<open>Lock\<close> leaves the table alone and acquires nothing, or it writes a row with a lease of its
  own in a place that was free or whose lease or lifetime had passed when the caller read its clock.
\<close>

lemma lock_step_cases:
  assumes "lock_step db s clock fault k (t, pc) = (t', pc')"
  obtains (same) "t' = t" and "\<not> acquires pc pc'"
  | (wrote) row' where "t' = t(k \<mapsto> row')" and "w_locked_until row' = db_time db (time_add (pc_now pc) (g_lockTTL s))"
      and "w_expires_at row' = db_time db (time_add (pc_now pc) (g_responseTTL s))"
      and "\<And>row. t k = Some row \<Longrightarrow> w_expires_at row < pc_now pc \<or> w_locked_until row < pc_now pc"
proof (cases pc)
  case (LInsert now)
  then show thesis
    using assms that
    by (auto simp: sql_exec_def sql_insert_def locked_row_def split: option.splits if_splits)
next
  case (LExpired now seen)
  show thesis
  proof (cases "t k")
    case None
    with LExpired assms show thesis
      by (intro same) (auto simp: sql_exec_def update_expired_def sql_update_def split: option.splits if_splits prod.splits)
  next
    case (Some row)
    with LExpired assms show thesis
      by (auto simp: sql_exec_def update_expired_def sql_update_def split: option.splits if_splits prod.splits intro: that)
  qed
next
  case (LLease now seen)
  show thesis
  proof (cases "t k")
    case None
    with LLease assms show thesis
      by (intro same) (auto simp: sql_exec_def update_lease_def sql_update_def split: option.splits if_splits prod.splits)
  next
    case (Some row)
    with LLease assms show thesis
      by (auto simp: sql_exec_def update_lease_def sql_update_def split: option.splits if_splits prod.splits intro: that)
  qed
qed (use assms in \<open>auto intro!: same split: option.splits if_splits\<close>)

definition well_formed :: "PGStore \<Rightarrow> bool" where
  "well_formed s \<longleftrightarrow> 0 < g_lockTTL s \<and> 0 < g_responseTTL s \<and> tableNameRegex (g_tableName s)"

lemma lease_stored_ended: "lease_stored db s t h \<Longrightarrow> (\<And>j. j \<noteq> k \<Longrightarrow> t' j = t j) \<Longrightarrow> lease_stored db s t' (Ended k # h)"
  by (auto simp: lease_stored_def)

lemma lock_step_leases:
  fixes p :: nat
  assumes "keeps_time_order db" and "well_formed s" and "g_lockTTL s \<le> g_responseTTL s"
    and "lock_step db s clock fault k (t, pc) = (t', pc')" and "lease_stored db s t h" and "leases_respected db s h"
  defines "h' \<equiv> (if acquires pc pc' then [Acquired p k (pc_now pc)] else []) @ h"
  shows "lease_stored db s t' h' \<and> leases_respected db s h'"
  using assms(4)
proof (cases rule: lock_step_cases)
  case same
  then show ?thesis using assms(5,6) by (simp add: h'_def)
next
  case (wrote row')
  have passed: "db_time db u < pc_now pc" if "lease_of s k h = Some u" for u
  proof -
    from assms(5) that obtain row where "t k = Some row" "db_time db u \<le> w_locked_until row" "db_time db u \<le> w_expires_at row"
      by (auto simp: lease_stored_def)
    with wrote(4) show ?thesis by fastforce
  qed
  have "db_time db u \<le> w_locked_until row' \<and> db_time db u \<le> w_expires_at row'" if "lease_of s k h = Some u" for u
    using db_time_later [OF assms(1) passed [OF that]] assms(2) wrote(2,3) by (simp add: well_formed_def)
  moreover have "w_locked_until row' \<le> w_expires_at row'"
    using db_time_le [OF assms(1)] assms(3) wrote(2,3) by (simp add: time_add_def)
  ultimately have "lease_stored db s t' h'"
    using assms(5) wrote(1,2) by (auto simp: lease_stored_def h'_def)
  with assms(6) passed show ?thesis by (auto simp: h'_def split: option.splits)
qed

lemma pg_Save_other: "j \<noteq> k \<Longrightarrow> fst (pg_Save db s fault now k resp t) j = t j"
  by (auto simp: pg_Save_def sql_exec_def sql_update_def Let_def split: option.splits sum.splits)

lemma pg_Unlock_other: "j \<noteq> k \<Longrightarrow> fst (pg_Unlock fault k t) j = t j"
  by (auto simp: pg_Unlock_def sql_exec_def sql_delete_def Let_def split: option.splits)

lemma pg_Delete_other: "j \<noteq> k \<Longrightarrow> fst (pg_Delete fault k t) j = t j"
  by (auto simp: pg_Delete_def sql_exec_def sql_delete_def Let_def split: option.splits)

lemma pg_step_leases:
  assumes "keeps_time_order db" and "well_formed s" and "g_lockTTL s \<le> g_responseTTL s" and "pg_step db s v v'"
    and "lease_stored db s (y_table v) (y_hist v) \<and> leases_respected db s (y_hist v)"
  shows "lease_stored db s (y_table v') (y_hist v') \<and> leases_respected db s (y_hist v')"
  using assms(4,5)
proof cases
  case (pg_lock p k pc clock fault t' pc')
  with lock_step_leases [OF assms(1-3) pg_lock(3), of "y_hist v" p] assms(5) show ?thesis by simp
qed (auto intro!: lease_stored_ended simp: pg_Save_other pg_Unlock_other pg_Delete_other)

lemma lease_persists:
  assumes "keeps_time_order db" and "0 \<le> g_lockTTL s"
    and "leases_respected db s (h2 @ Acquired p k now # h1)" and "Ended k \<notin> set h2"
  shows "\<exists>u. lease_of s k (h2 @ Acquired p k now # h1) = Some u \<and> db_time db (time_add now (g_lockTTL s)) \<le> db_time db u"
  using assms(3,4)
proof (induction h2)
  case (Cons e h2)
  from Cons.prems have "leases_respected db s (h2 @ Acquired p k now # h1)" by (cases e) simp_all
  with Cons obtain u where u: "lease_of s k (h2 @ Acquired p k now # h1) = Some u"
    "db_time db (time_add now (g_lockTTL s)) \<le> db_time db u" by auto
  show ?case
  proof (cases e)
    case (Acquired q j n)
    show ?thesis
    proof (cases "j = k")
      case True
      with Acquired Cons.prems u(1) have "db_time db u < n" by simp
      from db_time_later [OF assms(1) this assms(2)] u(2) True Acquired show ?thesis by simp
    qed (use Acquired u in simp)
  qed (use Cons.prems u in auto)
qed simp

text \<open>
  C18: a key that was acquired and whose operation no call has ended since is acquired again only by a
  caller whose own clock has passed the end of the lease. This holds for any number of callers on any
  replicas, for every interleaving of their statements, with statements that fail before or after they
  ran, and without any agreement of the clocks, when responses are kept at least as long as leases.
\<close>

theorem pg_lease_exclusive:
  assumes "keeps_time_order db" and "well_formed s" and "g_lockTTL s \<le> g_responseTTL s"
    and "(pg_step db s)\<^sup>*\<^sup>* pg_empty v"
    and "y_hist v = h3 @ Acquired p2 k now2 # h2 @ Acquired p1 k now1 # h1" and "Ended k \<notin> set h2"
  shows "db_time db (time_add now1 (g_lockTTL s)) < now2"
proof -
  have "lease_stored db s (y_table pg_empty) (y_hist pg_empty) \<and> leases_respected db s (y_hist pg_empty)"
    by (simp add: pg_empty_def lease_stored_def)
  from rtranclp_invariant [where P = "\<lambda>v. lease_stored db s (y_table v) (y_hist v) \<and> leases_respected db s (y_hist v)",
      OF assms(4) this pg_step_leases [OF assms(1-3)]]
  have "leases_respected db s (h3 @ Acquired p2 k now2 # h2 @ Acquired p1 k now1 # h1)" using assms(5) by simp
  then have "leases_respected db s (Acquired p2 k now2 # h2 @ Acquired p1 k now1 # h1)"
  proof (induction h3)
    case (Cons e h3)
    then show ?case by (cases e) simp_all
  qed simp
  with lease_persists [OF assms(1) _ _ assms(6), of s p1 now1 h1] assms(2) show ?thesis
    by (auto simp: well_formed_def)
qed

section \<open>A call that no other statement comes between\<close>

text \<open>
  \<open>lock_run\<close> runs one \<open>Lock\<close> to its end with no statement of another caller in between. It returns:
  when the insert found a row the select finds it too, and the call does not start again.
\<close>

fun lock_rank :: "string \<Rightarrow> idem_table \<times> lock_pc \<Rightarrow> nat" where
  "lock_rank key (t, LStart) = 5"
| "lock_rank key (t, LInsert now) = 4"
| "lock_rank key (t, LSelect now) = (if t key = None then 6 else 3)"
| "lock_rank key (t, LExpired now row) = 2"
| "lock_rank key (t, LLease now row) = 1"
| "lock_rank key (t, LDone r) = 0"

lemma lock_step_rank: "(\<And>r. pc \<noteq> LDone r) \<Longrightarrow> lock_rank key (lock_step db s clock fault key (t, pc)) < lock_rank key (t, pc)"
  by (cases pc) (auto simp: sql_exec_def sql_insert_def split: option.splits prod.splits sum.splits)

function lock_run ::
  "pg_db \<Rightarrow> PGStore \<Rightarrow> time \<Rightarrow> db_fault \<Rightarrow> string \<Rightarrow> idem_table \<times> lock_pc \<Rightarrow> idem_table \<times> (error + bool \<times> Record option)" where
  "lock_run db s clock fault key (t, LDone r) = (t, r)"
| "(\<And>r. pc \<noteq> LDone r) \<Longrightarrow> lock_run db s clock fault key (t, pc) = lock_run db s clock fault key (lock_step db s clock fault key (t, pc))"
  by (atomize_elim, auto)
termination
  by (relation "measure (\<lambda>(db, s, clock, fault, key, c). lock_rank key c)") (auto simp: lock_step_rank)

lemma lock_run_simps [simp]:
  "lock_run db s clock fault key (t, LStart) = lock_run db s clock fault key (lock_step db s clock fault key (t, LStart))"
  "lock_run db s clock fault key (t, LInsert now) = lock_run db s clock fault key (lock_step db s clock fault key (t, LInsert now))"
  "lock_run db s clock fault key (t, LSelect now) = lock_run db s clock fault key (lock_step db s clock fault key (t, LSelect now))"
  "lock_run db s clock fault key (t, LExpired now row) = lock_run db s clock fault key (lock_step db s clock fault key (t, LExpired now row))"
  "lock_run db s clock fault key (t, LLease now row) = lock_run db s clock fault key (lock_step db s clock fault key (t, LLease now row))"
  by (rule lock_run.simps(2), simp)+

text \<open>A statement is not sent when its context has ended.\<close>

definition ctx_fault :: "ctx_err \<Rightarrow> db_fault" where
  "ctx_fault ctx = map_option (\<lambda>e. (e, False)) ctx"

definition pg_Lock :: "pg_db \<Rightarrow> PGStore \<Rightarrow> ctx_err \<Rightarrow> time \<Rightarrow> string \<Rightarrow> idem_table \<Rightarrow> idem_table \<times> (error + bool \<times> Record option)" where
  "pg_Lock db s ctx now key t = lock_run db s now (ctx_fault ctx) key (t, LStart)"

lemma pg_Lock_ended: "\<exists>e'. pg_Lock db s (Some e) now key t = (t, Inl e')"
  by (simp add: pg_Lock_def ctx_fault_def sql_exec_def)

lemma pg_Lock_free:
  "key \<noteq> [] \<Longrightarrow> t key = None \<Longrightarrow> pg_Lock db s None now key t = (t(key \<mapsto> locked_row db s now), Inr (False, None))"
  by (simp add: pg_Lock_def ctx_fault_def sql_exec_def sql_insert_def)

lemma pg_Lock_live:
  assumes "key \<noteq> []" and "t key = Some row" and "now \<le> w_expires_at row" and "w_status row = StatusInProgress \<Longrightarrow> now \<le> w_locked_until row"
  shows "pg_Lock db s None now key t = (t, Inr (True, Some (buildRecordFromRow db row)))"
  using assms by (auto simp: pg_Lock_def ctx_fault_def sql_exec_def sql_insert_def)

text \<open>
  What \<open>Lock\<close> does when it is not disturbed: a key without a row, with a row whose lifetime has passed,
  or with an operation in progress whose lease has passed is acquired, with a new lease from now on;
  otherwise the stored record is returned and the table is left alone. Other keys are never touched.
\<close>

theorem pg_Lock_decides:
  assumes "key \<noteq> []"
  shows "let (t', r) = pg_Lock db s None now key t;
             free = (case t key of None \<Rightarrow> True | Some row \<Rightarrow>
                       now > w_expires_at row \<or> (w_status row = StatusInProgress \<and> now > w_locked_until row))
         in if free then
              r = Inr (False, None) \<and>
              (\<exists>row. t' = t(key \<mapsto> row) \<and> w_status row = StatusInProgress \<and>
                 w_locked_until row = db_time db (time_add now (g_lockTTL s)) \<and>
                 w_expires_at row = db_time db (time_add now (g_responseTTL s)))
            else r = Inr (True, map_option (buildRecordFromRow db) (t key)) \<and> t' = t"
proof (cases "t key")
  case None
  show ?thesis
    by (simp only: pg_Lock_free [where t = t, OF assms None] None Let_def prod.case option.case if_True)
      (auto intro!: exI [of _ "locked_row db s now"] simp: locked_row_def)
next
  case (Some row)
  with assms show ?thesis
    by (auto simp: pg_Lock_def ctx_fault_def sql_exec_def sql_insert_def sql_update_def update_expired_def update_lease_def Let_def)
qed


text \<open>
  An instance of the parameters: columns of microseconds and a codec for empty header maps, with a store
  whose leases are short.
\<close>

definition micro_db :: pg_db where
  "micro_db = \<lparr>db_time = micros, db_jsonb = (\<lambda>j. j), j_Marshal = (\<lambda>h. Inr ''{}''), j_Unmarshal = (\<lambda>j. Some [])\<rparr>"

definition brief_store :: PGStore where
  "brief_store = \<lparr>g_tableName = DefaultTableName, g_lockTTL = 5000, g_responseTTL = 9000\<rparr>"

lemmas demo_defs = micro_db_def micros_def brief_store_def locked_row_def time_add_def

lemma micro_db_order: "keeps_time_order micro_db"
  by (simp add: keeps_time_order_def micro_db_def mono_micros)

lemma brief_store_ok: "well_formed brief_store" "g_lockTTL brief_store \<le> g_responseTTL brief_store"
  by (code_simp, simp add: brief_store_def)

theorem pg_Lock_decides_witness:
  "snd (pg_Lock micro_db brief_store None 10000 ''k'' [''k'' \<mapsto> locked_row micro_db brief_store 3000]) = Inr (False, None)"
  using pg_Lock_decides [of "''k''" micro_db brief_store 10000 "[''k'' \<mapsto> locked_row micro_db brief_store 3000]"]
  by (simp add: demo_defs split_beta)

section \<open>The middleware on the PostgreSQL store\<close>

text \<open>
  Within one lease the store has the contract of \<open>idem_store\<close>, when no other statement comes between those
  of a call: \<open>pg_live\<close> says that no row ends before the given time and that the codec encodes every map
  of headers; responses come back as the codec and the column return them (\<open>pg_kept\<close>).
\<close>

definition pg_lookup :: "pg_db \<Rightarrow> idem_table \<Rightarrow> string \<Rightarrow> Record option" where
  "pg_lookup db t k = map_option (buildRecordFromRow db) (t k)"

definition pg_kept :: "pg_db \<Rightarrow> Response \<Rightarrow> Response" where
  "pg_kept db resp = resp\<lparr>r_Headers :=
     (case j_Marshal db (r_Headers resp) of
        Inl e \<Rightarrow> []
      | Inr j \<Rightarrow> if db_jsonb db j = [] then []
                 else (case j_Unmarshal db (db_jsonb db j) of Some h \<Rightarrow> h | None \<Rightarrow> []))\<rparr>"

text \<open>The times of one lease from \<open>t0\<close> on: the earlier of the two ends a row written at \<open>t0\<close> has.\<close>

definition lease_end :: "pg_db \<Rightarrow> PGStore \<Rightarrow> time \<Rightarrow> time" where
  "lease_end db s t0 = min (db_time db (time_add t0 (g_lockTTL s))) (db_time db (time_add t0 (g_responseTTL s)))"

definition within_lease :: "pg_db \<Rightarrow> PGStore \<Rightarrow> time \<Rightarrow> time \<Rightarrow> bool" where
  "within_lease db s t0 now \<longleftrightarrow> t0 \<le> now \<and> now \<le> lease_end db s t0"

definition encodes_headers :: "pg_db \<Rightarrow> bool" where
  "encodes_headers db \<longleftrightarrow> (\<forall>h e. j_Marshal db h \<noteq> Inl e)"

definition pg_live :: "pg_db \<Rightarrow> PGStore \<Rightarrow> time \<Rightarrow> idem_table \<Rightarrow> bool" where
  "pg_live db s t0 t \<longleftrightarrow> keeps_time_order db \<and> encodes_headers db \<and>
     (\<forall>k row. t k = Some row \<longrightarrow> lease_end db s t0 \<le> w_expires_at row \<and>
        (if w_status row = StatusInProgress then lease_end db s t0 \<le> w_locked_until row else w_status_code row \<noteq> None))"

lemma lease_end_later:
  assumes "keeps_time_order db" and "t0 \<le> now"
  shows "lease_end db s t0 \<le> db_time db (time_add now (g_lockTTL s))" "lease_end db s t0 \<le> db_time db (time_add now (g_responseTTL s))"
  using db_time_le [OF assms(1), of "time_add t0 (g_lockTTL s)" "time_add now (g_lockTTL s)"]
    db_time_le [OF assms(1), of "time_add t0 (g_responseTTL s)" "time_add now (g_responseTTL s)"] assms(2)
  by (auto simp: lease_end_def time_add_def)

lemma pg_live_update:
  assumes "pg_live db s t0 t" and "lease_end db s t0 \<le> w_expires_at row"
    and "if w_status row = StatusInProgress then lease_end db s t0 \<le> w_locked_until row else w_status_code row \<noteq> None"
  shows "pg_live db s t0 (t(k \<mapsto> row))"
  using assms by (auto simp: pg_live_def)

lemma pg_live_delete: "pg_live db s t0 t \<Longrightarrow> pg_live db s t0 (t(k := None))"
  by (simp add: pg_live_def)

interpretation pgs: idem_store "pg_Lock db s" "\<lambda>ctx. pg_Save db s (ctx_fault ctx)" "\<lambda>ctx. pg_Unlock (ctx_fault ctx)"
  "pg_lookup db" "pg_kept db" "within_lease db s t0" "pg_live db s t0"
proof (unfold_locales, goal_cases)
  case (1 e now k t)
  show ?case by (rule pg_Lock_ended)
next
  case (2 t now k)
  then have "pg_live db s t0 (t(k \<mapsto> locked_row db s now))"
    using lease_end_later [of db t0 now s] by (intro pg_live_update) (auto simp: locked_row_def pg_live_def within_lease_def)
  moreover have "t k = None" using 2(4) by (simp add: pg_lookup_def)
  ultimately show ?case
    using pg_Lock_free [where t = t, OF 2(3)] by (auto simp: pg_lookup_def locked_row_def buildRecordFromRow_def fun_eq_iff)
next
  case (3 t now k r)
  then obtain row where row: "t k = Some row" "r = buildRecordFromRow db row" by (auto simp: pg_lookup_def)
  with 3(1,2) have "now \<le> w_expires_at row" "w_status row = StatusInProgress \<Longrightarrow> now \<le> w_locked_until row"
    by (force simp: pg_live_def within_lease_def)+
  from pg_Lock_live [where t = t, OF 3(3) row(1) this] row(2) show ?case by simp
next
  case (4 e now k resp t)
  show ?case by (auto simp: pg_Save_def ctx_fault_def sql_exec_def pg_error_def Let_def split: sum.splits)
next
  case (5 t now k resp)
  then obtain row where row: "t k = Some row" by (auto simp: pg_lookup_def)
  from 5(1) obtain j where j: "j_Marshal db (r_Headers resp) = Inr j"
    by (cases "j_Marshal db (r_Headers resp)") (auto simp: pg_live_def encodes_headers_def)
  let ?row = "row\<lparr>w_status := StatusCompleted, w_status_code := Some (r_StatusCode resp), w_headers := Some (db_jsonb db j),
    w_body := Some (r_Body resp), w_expires_at := db_time db (time_add now (g_responseTTL s)), w_updated_at := db_time db now\<rparr>"
  have S: "fst (pg_Save db s (ctx_fault None) now k resp t) = t(k \<mapsto> ?row)"
    using 5(3) row j by (simp add: pg_Save_def ctx_fault_def sql_exec_def sql_update_def)
  have "pg_live db s t0 (t(k \<mapsto> ?row))"
    using 5(1,2) lease_end_later [of db t0 now s] by (intro pg_live_update) (auto simp: pg_live_def within_lease_def)
  moreover have "buildRecordFromRow db ?row = \<lparr>rec_Status = StatusCompleted, rec_Response = Some (pg_kept db resp)\<rparr>"
    using j by (cases resp) (simp add: buildRecordFromRow_def pg_kept_def)
  moreover have "snd (pg_Save db s (ctx_fault None) now k resp t) = None"
    using 5(3) j by (simp add: pg_Save_def ctx_fault_def sql_exec_def pg_error_def split: prod.splits)
  ultimately show ?case unfolding S by (auto simp: pg_lookup_def)
next
  case (6 e k t)
  show ?case by (auto simp: pg_Unlock_def ctx_fault_def sql_exec_def pg_error_def)
next
  case (7 t k)
  then show ?case
    by (auto simp: pg_Unlock_def ctx_fault_def sql_exec_def sql_delete_def pg_lookup_def buildRecordFromRow_def fun_eq_iff
        pg_live_delete split: option.splits)
next
  case (8 t k r)
  then obtain row where "t k = Some row" "r = buildRecordFromRow db row" "w_status row = StatusCompleted"
    by (auto simp: pg_lookup_def buildRecordFromRow_def)
  moreover from this 8(1) have "w_status_code row \<noteq> None" by (force simp: pg_live_def)
  ultimately show ?case by (auto simp: buildRecordFromRow_def)
qed

abbreviation pg_srv_step :: "pg_db \<Rightarrow> PGStore \<Rightarrow> time \<Rightarrow> MiddlewareOptions \<Rightarrow> idem_table server \<Rightarrow> idem_table server \<Rightarrow> bool" where
  "pg_srv_step db s t0 cfg \<equiv> idem_step (within_lease db s t0) (\<lambda>ctx now. mw_begin cfg (pg_Lock db s ctx now))
     (\<lambda>ctx now. mw_end cfg (pg_Save db s (ctx_fault ctx) now) (pg_Unlock (ctx_fault ctx)))"

text \<open>
  The middleware over the store as long as no call of \<open>Lock\<close> is disturbed by statements of others, during one
  lease: at most one handler runs per idempotency key, and once a response is stored every later request
  with the key is answered with it (its headers as the JSON column returns them), and no handler of the key
  is started again. Theory \<open>Idem_Replicas\<close> has the middleware with interleaved statements.
\<close>

theorem pg_idem_at_most_once:
  assumes "keeps_time_order db" and "encodes_headers db" and "(pg_srv_step db s t0 cfg)\<^sup>*\<^sup>* (server_start Map.empty) v"
  shows "distinct (v_running v) \<and>
    (\<forall>k resp v'. pg_lookup db (v_store v) k = Some \<lparr>rec_Status = StatusCompleted, rec_Response = Some resp\<rparr> \<and>
       (pg_srv_step db s t0 cfg)\<^sup>*\<^sup>* v v' \<longrightarrow>
       v_started v' k = v_started v k \<and> k \<notin> set (v_running v') \<and>
       (\<forall>rq now. has_key cfg rq k \<and> within_lease db s t0 now \<longrightarrow>
          mw_begin cfg (pg_Lock db s None now) rq (v_store v') = (v_store v', Answer (serveCachedResponse resp))))"
proof -
  have e: "pg_live db s t0 Map.empty" using assms(1,2) by (simp add: pg_live_def)
  have "pgs.http.srv_inv db s t0 v" by (rule pgs.http.run_inv [OF assms(3) pgs.http.start_inv [OF e]])
  then have "distinct (v_running v)" by (rule pgs.http.srv_invD(2))
  moreover have "v_started v' k = v_started v k \<and> k \<notin> set (v_running v') \<and>
       (\<forall>rq now. has_key cfg rq k \<and> within_lease db s t0 now \<longrightarrow>
          mw_begin cfg (pg_Lock db s None now) rq (v_store v') = (v_store v', Answer (serveCachedResponse resp)))"
    if k: "pg_lookup db (v_store v) k = Some \<lparr>rec_Status = StatusCompleted, rec_Response = Some resp\<rparr>"
      and r: "(pg_srv_step db s t0 cfg)\<^sup>*\<^sup>* v v'" for k resp v'
    using pgs.http.completed_for_good [OF assms(3) e r k] pgs.begin_old [of db s t0 "v_store v'"] by simp
  ultimately show ?thesis by blast
qed

section \<open>Well-formed stores\<close>

text \<open>An option is one of the three of the package.\<close>

definition pg_option :: "(PGStore \<Rightarrow> PGStore) \<Rightarrow> bool" where
  "pg_option opt \<longleftrightarrow> (\<exists>ttl. opt = WithPGLockTTL ttl \<or> opt = WithPGResponseTTL ttl) \<or> (\<exists>name. opt = WithPGTableName name)"

lemma pg_option_ttls:
  "pg_option opt \<Longrightarrow> 0 < g_lockTTL s \<and> 0 < g_responseTTL s \<Longrightarrow> 0 < g_lockTTL (opt s) \<and> 0 < g_responseTTL (opt s)"
  by (auto simp: pg_option_def WithPGLockTTL_def WithPGResponseTTL_def WithPGTableName_def)

text \<open>
  C38: whatever options are given, a store that \<open>NewPGStore\<close> returns has a positive lease and a positive
  lifetime of responses, and its table name, which is formatted into the SQL text of every statement, is
  an identifier: it is not empty and has only letters, digits and underscores.
\<close>

theorem NewPGStore_well_formed:
  assumes "\<forall>opt \<in> set opts. pg_option opt" and "NewPGStore connected opts = Inr s"
  shows "0 < g_lockTTL s \<and> 0 < g_responseTTL s \<and> g_tableName s \<noteq> [] \<and> (\<forall>c \<in> set (g_tableName s). is_ident_char c)"
proof -
  have "0 < g_lockTTL (fold (\<lambda>opt s. opt s) opts s0) \<and> 0 < g_responseTTL (fold (\<lambda>opt s. opt s) opts s0)"
    if "0 < g_lockTTL s0 \<and> 0 < g_responseTTL s0" for s0
    using assms(1) that by (induction opts arbitrary: s0) (auto dest: pg_option_ttls)
  with assms(2) have "0 < g_lockTTL s \<and> 0 < g_responseTTL s" and "tableNameRegex (g_tableName s)"
    by (auto simp: NewPGStore_def Let_def DefaultLockTTL_def DefaultResponseTTL_def second_def minute_def hour_def split: if_splits)
  then show ?thesis using ident_regex_chars by (simp add: tableNameRegex_def)
qed

theorem NewPGStore_well_formed_witness:
  "0 < g_lockTTL (projr (NewPGStore True [WithPGLockTTL (- 1), WithPGTableName ''t1'']))"
proof -
  have "\<forall>opt \<in> set [WithPGLockTTL (- 1), WithPGTableName ''t1'']. pg_option opt" by (auto simp: pg_option_def)
  moreover have "isl (NewPGStore True [WithPGLockTTL (- 1), WithPGTableName ''t1'']) = False" by code_simp
  then have "NewPGStore True [WithPGLockTTL (- 1), WithPGTableName ''t1''] =
      Inr (projr (NewPGStore True [WithPGLockTTL (- 1), WithPGTableName ''t1'']))"
    by (metis sum.collapse(2))
  ultimately show ?thesis using NewPGStore_well_formed by blast
qed

section \<open>Runs\<close>

text \<open>Actions of callers, executed one after the other.\<close>

datatype pg_act =
    ACall nat string
  | ALock nat time
  | ASave string Response time
  | AUnlock string

fun pg_do :: "pg_db \<Rightarrow> PGStore \<Rightarrow> pg_act \<Rightarrow> pg_sys \<Rightarrow> pg_sys" where
  "pg_do db s (ACall p k) v = (if y_calls v p = None then v\<lparr>y_calls := (y_calls v)(p \<mapsto> (k, LStart))\<rparr> else v)"
| "pg_do db s (ALock p clock) v =
     (case y_calls v p of
        None \<Rightarrow> v
      | Some (k, pc) \<Rightarrow>
          let (t', pc') = lock_step db s clock None k (y_table v, pc)
          in v\<lparr>y_table := t', y_calls := (y_calls v)(p \<mapsto> (k, pc')),
               y_hist := (if acquires pc pc' then [Acquired p k (pc_now pc)] else []) @ y_hist v\<rparr>)"
| "pg_do db s (ASave k resp now) v =
     v\<lparr>y_table := fst (pg_Save db s None now k resp (y_table v)), y_hist := Ended k # y_hist v\<rparr>"
| "pg_do db s (AUnlock k) v = v\<lparr>y_table := fst (pg_Unlock None k (y_table v)), y_hist := Ended k # y_hist v\<rparr>"

lemma pg_do_step: "(pg_step db s)\<^sup>*\<^sup>* v (pg_do db s a v)"
proof (cases a)
  case (ALock p clock)
  show ?thesis
  proof (cases "y_calls v p")
    case (Some c)
    obtain k pc where c: "c = (k, pc)" by fastforce
    obtain t' pc' where l: "lock_step db s clock None k (y_table v, pc) = (t', pc')" by fastforce
    from pg_lock [OF Some [unfolded c] l] Some c l ALock show ?thesis by (auto simp: Let_def)
  qed (use ALock in simp)
qed (auto intro: pg_call pg_save pg_unlock)

lemma pg_run_reach: "(pg_step db s)\<^sup>*\<^sup>* v (fold (pg_do db s) acts v)"
  by (induction acts arbitrary: v) (auto intro: rtranclp_trans [OF pg_do_step])

text \<open>Callers 1, 2 and 3, each with its own clock; \<open>whole_lock p now\<close> is an undisturbed call.\<close>

abbreviation whole_lock :: "nat \<Rightarrow> time \<Rightarrow> pg_act list" where
  "whole_lock p now \<equiv> ACall p ''k'' # replicate 5 (ALock p now)"

definition lease_taken_over :: pg_sys where
  "lease_taken_over = fold (pg_do micro_db brief_store) (whole_lock 1 0 @ whole_lock 2 6000) pg_empty"

lemma lease_taken_over_hist: "y_hist lease_taken_over = [Acquired 2 ''k'' 6000, Acquired 1 ''k'' 0]"
  by code_simp

theorem pg_lease_exclusive_witness: "db_time micro_db (time_add 0 (g_lockTTL brief_store)) < 6000"
proof -
  have "(pg_step micro_db brief_store)\<^sup>*\<^sup>* pg_empty lease_taken_over"
    unfolding lease_taken_over_def by (rule pg_run_reach)
  then show ?thesis
    by (rule pg_lease_exclusive [OF micro_db_order brief_store_ok, where ?h3.0 = "[]" and ?h2.0 = "[]" and ?h1.0 = "[]"])
      (simp_all add: lease_taken_over_hist)
qed

text \<open>
  A caller that loses the race for an expired record gets that record as if it were alive: callers 2 and
  3 both read the response stored at 1000, which expired at 10000; caller 2 reclaims the key and runs the
  operation again, and caller 3 replays the expired response.
\<close>

lemma pg_expired_response_replayed:
  "let v = fold (pg_do micro_db brief_store)
         (whole_lock 1 0 @ [ASave ''k'' demo_reply 1000, ACall 2 ''k'', ACall 3 ''k''] @
          replicate 3 (ALock 2 20000) @ replicate 3 (ALock 3 20000) @ [ALock 2 20000] @ replicate 2 (ALock 3 20000)) pg_empty
   in hd (y_hist v) = Acquired 2 ''k'' 20000 \<and>
      y_calls v 3 = Some (''k'', LDone (Inr (True, Some \<lparr>rec_Status = StatusCompleted, rec_Response = Some demo_reply\<rparr>)))"
  by code_simp

text \<open>
  \<open>Unlock\<close> does not know whose lease it releases: caller 1, whose lease has passed and was taken over by
  caller 2 until 11000, unlocks, and caller 3 acquires the key at 7000.
\<close>

lemma pg_unlock_releases_foreign_lease:
  "y_hist (fold (pg_do micro_db brief_store) (whole_lock 1 0 @ whole_lock 2 6000 @ [AUnlock ''k''] @ whole_lock 3 7000) pg_empty) =
     [Acquired 3 ''k'' 7000, Ended ''k'', Acquired 2 ''k'' 6000, Acquired 1 ''k'' 0]"
  by code_simp

text \<open>When responses are kept for less time than leases, a lease of 9000 is taken over at 6000.\<close>

lemma pg_short_response_ttl_cuts_lease:
  "y_hist (fold (pg_do micro_db (brief_store\<lparr>g_lockTTL := 9000, g_responseTTL := 5000\<rparr>)) (whole_lock 1 0 @ whole_lock 2 6000) pg_empty) =
     [Acquired 2 ''k'' 6000, Acquired 1 ''k'' 0]"
  by code_simp

text \<open>A request that has started its handler at 1000, and has its response stored at 2000.\<close>

definition pg_demo_running :: "idem_table server" where
  "pg_demo_running =
     \<lparr>v_store = [''k'' \<mapsto> locked_row micro_db brief_store 1000], v_running = [''k''], v_started = (\<lambda>_. 0)(''k'' := Suc 0)\<rparr>"

definition pg_demo_done :: "idem_table server" where
  "pg_demo_done =
     pg_demo_running\<lparr>v_store := mw_end (mw_config []) (pg_Save micro_db brief_store (ctx_fault None) 2000) (pg_Unlock (ctx_fault None))
        ''k'' (Wrote demo_reply) (v_store pg_demo_running), v_running := remove1 ''k'' (v_running pg_demo_running)\<rparr>"

lemma pg_demo_reach: "(pg_srv_step micro_db brief_store 0 (mw_config []))\<^sup>*\<^sup>* (server_start Map.empty) pg_demo_done"
proof -
  have w: "within_lease micro_db brief_store 0 1000" "within_lease micro_db brief_store 0 2000" by code_simp+
  have "has_key (mw_config []) demo_request ''k''" by code_simp
  then have b: "mw_begin (mw_config []) (pg_Lock micro_db brief_store None 1000) demo_request (v_store (server_start Map.empty)) =
      ([''k'' \<mapsto> locked_row micro_db brief_store 1000], RunHandler ''k'')"
    using pg_Lock_free [of "''k''" Map.empty] by (simp add: mw_begin_def has_key_def server_start_def Let_def)
  from step_start [where during = "within_lease micro_db brief_store 0"
      and begin_fn = "\<lambda>ctx now. mw_begin (mw_config []) (pg_Lock micro_db brief_store ctx now)", OF w(1) b]
  have 1: "pg_srv_step micro_db brief_store 0 (mw_config []) (server_start Map.empty) pg_demo_running"
    by (simp add: pg_demo_running_def server_start_def)
  have "''k'' \<in> set (v_running pg_demo_running)" by (simp add: pg_demo_running_def)
  from step_end [where during = "within_lease micro_db brief_store 0" and end_fn = "\<lambda>ctx now. mw_end (mw_config []) (pg_Save micro_db brief_store (ctx_fault ctx) now) (pg_Unlock (ctx_fault ctx))"
      and ctx = None and out = "Wrote demo_reply", OF w(2) this]
  have "pg_srv_step micro_db brief_store 0 (mw_config []) pg_demo_running pg_demo_done" by (simp add: pg_demo_done_def)
  with 1 show ?thesis by (meson converse_rtranclp_into_rtranclp r_into_rtranclp)
qed

theorem pg_idem_at_most_once_witness:
  "mw_begin (mw_config []) (pg_Lock micro_db brief_store None 3000) demo_request (v_store pg_demo_done) =
     (v_store pg_demo_done, Answer (serveCachedResponse demo_reply))"
proof -
  have "pg_lookup micro_db (v_store pg_demo_done) ''k'' = Some \<lparr>rec_Status = StatusCompleted, rec_Response = Some demo_reply\<rparr>"
    by code_simp
  moreover have "has_key (mw_config []) demo_request ''k''" "within_lease micro_db brief_store 0 3000" by code_simp+
  moreover have "encodes_headers micro_db" by (simp add: encodes_headers_def micro_db_def)
  ultimately show ?thesis using pg_idem_at_most_once [OF micro_db_order _ pg_demo_reach] by blast
qed

end
