(* ===== verification/Idem_Replicas.thy ===== *)
theory Idem_Replicas
  imports Idem_Postgres
begin

text \<open>
  The idempotency middleware (\<open>src/idempotency/middleware.go\<close>) of any number of replicas over one PostgreSQL
  table (\<open>src/idempotency/postgres.go\<close>), interleaved statement by statement: between two statements of one
  \<open>Lock\<close> other requests, of this and of other replicas, run theirs. \<open>replica_step\<close> takes a request from its
  arrival through the sequence points of \<open>Lock\<close> to the decision of the middleware (\<open>mw_begin\<close> on the
  result), and a request whose handler runs through the one statement of \<open>mw_end\<close>. A statement may fail,
  before or after it has run on the server.
\<close>

section \<open>Requests on replicas\<close>

datatype request_pc = Locking lock_pc | Handling

record replicas =
  z_table :: idem_table
  z_requests :: "nat \<rightharpoonup> http_request \<times> string \<times> request_pc"
  z_started :: "string \<Rightarrow> nat"
  z_replies :: "(nat \<times> string \<times> reply) list"

definition replicas_start :: replicas where
  "replicas_start = \<lparr>z_table = Map.empty, z_requests = Map.empty, z_started = (\<lambda>_. 0), z_replies = []\<rparr>"

text \<open>The middleware after \<open>Lock\<close> has returned \<open>r\<close>.\<close>

definition decision :: "MiddlewareOptions \<Rightarrow> http_request \<Rightarrow> error + bool \<times> Record option \<Rightarrow> mw_action" where
  "decision cfg rq r = snd (mw_begin cfg (\<lambda>key t. (t, r)) rq ())"

inductive replica_step :: "pg_db \<Rightarrow> PGStore \<Rightarrow> (time \<Rightarrow> bool) \<Rightarrow> MiddlewareOptions \<Rightarrow> replicas \<Rightarrow> replicas \<Rightarrow> bool"
  for db s during cfg where
  arrives: "z_requests v p = None \<Longrightarrow> has_key cfg rq k \<Longrightarrow>
    replica_step db s during cfg v (v\<lparr>z_requests := (z_requests v)(p \<mapsto> (rq, k, Locking LStart))\<rparr>)"
| locks: "z_requests v p = Some (rq, k, Locking pc) \<Longrightarrow> during clock \<Longrightarrow>
    lock_step db s clock fault k (z_table v, pc) = (t', pc') \<Longrightarrow>
    replica_step db s during cfg v (v\<lparr>z_table := t', z_requests := (z_requests v)(p \<mapsto> (rq, k, Locking pc'))\<rparr>)"
| starts: "z_requests v p = Some (rq, k, Locking (LDone r)) \<Longrightarrow> decision cfg rq r = RunHandler j \<Longrightarrow>
    replica_step db s during cfg v
      (v\<lparr>z_requests := (z_requests v)(p \<mapsto> (rq, j, Handling)), z_started := (z_started v)(j := Suc (z_started v j))\<rparr>)"
| answers: "z_requests v p = Some (rq, k, Locking (LDone r)) \<Longrightarrow> decision cfg rq r = Answer a \<Longrightarrow>
    replica_step db s during cfg v (v\<lparr>z_requests := (z_requests v)(p := None), z_replies := (p, k, a) # z_replies v\<rparr>)"
| ends: "z_requests v p = Some (rq, k, Handling) \<Longrightarrow> during clock \<Longrightarrow>
    replica_step db s during cfg v
      (v\<lparr>z_table := mw_end cfg (pg_Save db s fault clock) (pg_Unlock fault) k out (z_table v), z_requests := (z_requests v)(p := None)\<rparr>)"

abbreviation store_error :: reply where
  "store_error \<equiv> json_error 500 ''{\"error\":\"idempotency store error\",\"code\":\"IDEMPOTENCY_STORE_ERROR\"}''"

abbreviation conflict :: reply where
  "conflict \<equiv> json_error 409 ''{\"error\":\"idempotent operation already in progress\",\"code\":\"IDEMPOTENCY_IN_PROGRESS\"}''"

lemma decision_simps:
  assumes "has_key cfg rq k"
  shows "decision cfg rq (Inl e) = Answer store_error" and "decision cfg rq (Inr (False, x)) = RunHandler k"
    and "decision cfg rq (Inr (True, Some r)) =
      (if rec_Status r = StatusInProgress then Answer conflict
       else case rec_Response r of Some resp \<Rightarrow> Answer (serveCachedResponse resp) | None \<Rightarrow> RunHandler k)"
  using assms by (simp_all add: decision_def mw_begin_def has_key_def Let_def)

section \<open>During one lease\<close>

text \<open>A row that neither expires nor loses its lease before the end of the lease from \<open>t0\<close>.\<close>

definition row_live :: "pg_db \<Rightarrow> PGStore \<Rightarrow> time \<Rightarrow> idem_row \<Rightarrow> bool" where
  "row_live db s t0 row \<longleftrightarrow> lease_end db s t0 \<le> w_expires_at row \<and>
     (if w_status row = StatusInProgress then lease_end db s t0 \<le> w_locked_until row else w_status_code row \<noteq> None)"

text \<open>What \<open>Lock\<close> has in its variables: a reading of the clock within the lease, and rows that were live.\<close>

fun lock_live :: "pg_db \<Rightarrow> PGStore \<Rightarrow> time \<Rightarrow> lock_pc \<Rightarrow> bool" where
  "lock_live db s t0 LStart = True"
| "lock_live db s t0 (LInsert now) = within_lease db s t0 now"
| "lock_live db s t0 (LSelect now) = within_lease db s t0 now"
| "lock_live db s t0 (LExpired now row) = (within_lease db s t0 now \<and> row_live db s t0 row)"
| "lock_live db s t0 (LLease now row) = (within_lease db s t0 now \<and> row_live db s t0 row)"
| "lock_live db s t0 (LDone (Inl e)) = True"
| "lock_live db s t0 (LDone (Inr (False, x))) = (x = None)"
| "lock_live db s t0 (LDone (Inr (True, x))) = (\<exists>row. row_live db s t0 row \<and> x = Some (buildRecordFromRow db row))"

abbreviation rows_live :: "pg_db \<Rightarrow> PGStore \<Rightarrow> time \<Rightarrow> idem_table \<Rightarrow> bool" where
  "rows_live db s t0 t \<equiv> \<forall>k row. t k = Some row \<longrightarrow> row_live db s t0 row"

definition acquired :: lock_pc where
  "acquired = LDone (Inr (False, None))"

lemma locked_row_live:
  assumes "keeps_time_order db" and "within_lease db s t0 now"
  shows "row_live db s t0 (locked_row db s now)"
  using lease_end_later [OF assms(1), of t0 now s] assms(2) by (simp add: row_live_def locked_row_def within_lease_def)

text \<open>During the lease a step of \<open>Lock\<close> changes nothing, or it inserts the row of a key that had none.\<close>

lemma lock_step_live:
  assumes "lock_step db s clock fault k (t, pc) = (t', pc')" and "keeps_time_order db" and "lock_live db s t0 pc"
    and "within_lease db s t0 clock" and "rows_live db s t0 t"
  shows "lock_live db s t0 pc' \<and>
    (t' = t \<and> (pc' = acquired \<longrightarrow> pc = acquired) \<or>
     t k = None \<and> (\<exists>now. within_lease db s t0 now \<and> t' = t(k \<mapsto> locked_row db s now)))"
proof (cases pc)
  case (LExpired now row)
  then have "\<not> w_expires_at row < now" using assms(3) by (auto simp: row_live_def within_lease_def)
  with LExpired assms show ?thesis by (auto simp: acquired_def)
next
  case (LLease now row)
  then have "\<not> (w_status row = StatusInProgress \<and> w_locked_until row < now)"
    using assms(3) by (auto simp: row_live_def within_lease_def)
  with LLease assms show ?thesis by (auto simp: acquired_def)
qed (use assms in \<open>auto simp: acquired_def sql_exec_def sql_insert_def split: option.splits if_splits\<close>)

section \<open>The invariant\<close>

text \<open>The key a request holds: it has acquired it, and its handler has not ended.\<close>

fun holds :: "(http_request \<times> string \<times> request_pc) option \<Rightarrow> string \<Rightarrow> bool" where
  "holds (Some (rq, k, pc)) j \<longleftrightarrow> k = j \<and> (pc = Handling \<or> pc = Locking acquired)"
| "holds None j \<longleftrightarrow> False"

definition in_progress_row :: "idem_table \<Rightarrow> string \<Rightarrow> bool" where
  "in_progress_row t k \<longleftrightarrow> (\<exists>row. t k = Some row \<and> w_status row = StatusInProgress)"

definition replicas_inv :: "pg_db \<Rightarrow> PGStore \<Rightarrow> time \<Rightarrow> MiddlewareOptions \<Rightarrow> replicas \<Rightarrow> bool" where
  "replicas_inv db s t0 cfg v \<longleftrightarrow> rows_live db s t0 (z_table v) \<and>
     (\<forall>p rq k pc. z_requests v p = Some (rq, k, pc) \<longrightarrow> has_key cfg rq k) \<and>
     (\<forall>p rq k pc. z_requests v p = Some (rq, k, Locking pc) \<longrightarrow> lock_live db s t0 pc) \<and>
     (\<forall>p k. holds (z_requests v p) k \<longrightarrow> in_progress_row (z_table v) k) \<and>
     (\<forall>p q k. holds (z_requests v p) k \<and> holds (z_requests v q) k \<longrightarrow> p = q)"

lemma replicas_invD:
  assumes "replicas_inv db s t0 cfg v"
  shows "rows_live db s t0 (z_table v)"
    and "z_requests v p = Some (rq, k, pc) \<Longrightarrow> has_key cfg rq k"
    and "z_requests v p = Some (rq, k, Locking lpc) \<Longrightarrow> lock_live db s t0 lpc"
    and "holds (z_requests v p) k \<Longrightarrow> in_progress_row (z_table v) k"
    and "holds (z_requests v p) k \<Longrightarrow> holds (z_requests v q) k \<Longrightarrow> p = q"
  using assms unfolding replicas_inv_def by blast+

text \<open>
  A step moves one request: it is enough that its new state is right, and that no other request holds
  what it holds or holds a key whose row is no longer in progress.
\<close>

lemma replicas_inv_move:
  assumes "replicas_inv db s t0 cfg v" and "rows_live db s t0 (z_table v')" and "z_requests v' = (z_requests v)(p := new)"
    and "\<And>rq k pc. new = Some (rq, k, pc) \<Longrightarrow> has_key cfg rq k"
    and "\<And>rq k pc. new = Some (rq, k, Locking pc) \<Longrightarrow> lock_live db s t0 pc"
    and "\<And>j. holds new j \<Longrightarrow> in_progress_row (z_table v') j"
    and "\<And>q j. q \<noteq> p \<Longrightarrow> holds (z_requests v q) j \<Longrightarrow> in_progress_row (z_table v') j \<and> \<not> holds new j"
  shows "replicas_inv db s t0 cfg v'"
  unfolding replicas_inv_def
proof (intro conjI allI impI)
  show "row_live db s t0 row" if "z_table v' k = Some row" for k row using that assms(2) by blast
  show "has_key cfg rq k" if "z_requests v' q = Some (rq, k, pc)" for q rq k pc
    using that assms(3,4) replicas_invD(2) [OF assms(1)] by (cases "q = p") auto
  show "lock_live db s t0 pc" if "z_requests v' q = Some (rq, k, Locking pc)" for q rq k pc
    using that assms(3,5) replicas_invD(3) [OF assms(1)] by (cases "q = p") auto
  show "in_progress_row (z_table v') k" if "holds (z_requests v' q) k" for q k
    using that assms(3,6,7) by (cases "q = p") auto
  show "q = q'" if "holds (z_requests v' q) k \<and> holds (z_requests v' q') k" for q q' k
    using that assms(3,7) replicas_invD(5) [OF assms(1), of q k q'] by (cases "q = p"; cases "q' = p") auto
qed

text \<open>A request whose \<open>Lock\<close> has returned runs its handler exactly if it has acquired the key.\<close>

lemma decision_live:
  assumes "has_key cfg rq k" and "lock_live db s t0 (LDone r)"
  shows "decision cfg rq r = RunHandler j \<longleftrightarrow> LDone r = acquired \<and> j = k"
proof (cases r)
  case (Inr x)
  then consider "r = Inr (False, None)" | row where "row_live db s t0 row" "r = Inr (True, Some (buildRecordFromRow db row))"
    using assms(2) by (cases x; cases "fst x") auto
  then show ?thesis
  proof cases
    case (2 row)
    then show ?thesis
      using decision_simps(3) [OF assms(1)] by (cases "w_status row") (auto simp: acquired_def buildRecordFromRow_def row_live_def)
  qed (auto simp: decision_simps [OF assms(1)] acquired_def)
qed (simp add: decision_simps [OF assms(1)] acquired_def)

text \<open>
  What \<open>mw_end\<close> does to a row in progress: it stays as it is, is removed, or gets the response.
\<close>

lemma mw_end_live:
  fixes cfg :: MiddlewareOptions and fault :: db_fault and out :: outcome
  assumes "keeps_time_order db" and "within_lease db s t0 clock" and "rows_live db s t0 t" and "in_progress_row t k"
  defines "t' \<equiv> mw_end cfg (pg_Save db s fault clock) (pg_Unlock fault) k out t"
  shows "rows_live db s t0 t'" and "j \<noteq> k \<Longrightarrow> t' j = t j"
proof -
  obtain row where row: "t k = Some row" "row_live db s t0 row" using assms(3,4) by (auto simp: in_progress_row_def)
  have e: "lease_end db s t0 \<le> db_time db (time_add clock (g_responseTTL s))"
    using lease_end_later(2) [OF assms(1)] assms(2) by (simp add: within_lease_def)
  have saved: "row_live db s t0 r" if "w_status r = StatusCompleted" "w_status_code r = Some c" "lease_end db s t0 \<le> w_expires_at r" for r c
    using that by (simp add: row_live_def)
  have "rows_live db s t0 (fst (pg_Unlock fault k t))"
    using assms(3) by (auto simp: pg_Unlock_def sql_exec_def sql_delete_def Let_def split: option.splits)
  moreover have "rows_live db s t0 (fst (pg_Save db s fault clock k resp t))" for resp
    using assms(3) row e by (auto simp: pg_Save_def sql_exec_def sql_update_def Let_def intro: saved split: option.splits sum.splits if_splits)
  ultimately show "rows_live db s t0 t'" by (auto simp: t'_def mw_end_def split: outcome.splits)
  show "t' j = t j" if "j \<noteq> k"
    using that by (auto simp: t'_def mw_end_def pg_Save_other pg_Unlock_other split: outcome.splits)
qed

lemma replica_step_inv:
  assumes "replica_step db s (within_lease db s t0) cfg v v'" and "replicas_inv db s t0 cfg v" and "keeps_time_order db"
  shows "replicas_inv db s t0 cfg v'"
proof -
  note D = replicas_invD [OF assms(2)]
  from assms(1) show ?thesis
  proof cases
    case (arrives p rq k)
    then show ?thesis by (intro replicas_inv_move [OF assms(2), of v' p]) (auto simp: D acquired_def)
  next
    case (locks p rq k pc clock fault t' pc')
    have new: "lock_live db s t0 pc'"
      and t': "t' = z_table v \<and> (pc' = acquired \<longrightarrow> pc = acquired) \<or>
        z_table v k = None \<and> (\<exists>now. within_lease db s t0 now \<and> t' = (z_table v)(k \<mapsto> locked_row db s now))"
      using lock_step_live [OF locks(4) assms(3) D(3) [OF locks(2)] locks(3) D(1)] by auto
    note key = D(2) [OF locks(2)]
    from t' show ?thesis
    proof
      assume same: "t' = z_table v \<and> (pc' = acquired \<longrightarrow> pc = acquired)"
      then have own: "holds (z_requests v p) j" if "holds (Some (rq, k, Locking pc')) j" for j using that locks(2) by auto
      show ?thesis
      proof (rule replicas_inv_move [OF assms(2), of v' p "Some (rq, k, Locking pc')"])
        show "in_progress_row (z_table v') j" if "holds (Some (rq, k, Locking pc')) j" for j
          using D(4) [OF own [OF that]] same locks(1) by simp
        show "in_progress_row (z_table v') j \<and> \<not> holds (Some (rq, k, Locking pc')) j" if "q \<noteq> p" "holds (z_requests v q) j" for q j
          using D(4) [OF that(2)] D(5) [OF that(2), of p] own [of j] that(1) same locks(1) by auto
      qed (use same locks(1) D(1) key new in auto)
    next
      assume ins: "z_table v k = None \<and> (\<exists>now. within_lease db s t0 now \<and> t' = (z_table v)(k \<mapsto> locked_row db s now))"
      then have none: "\<not> holds (z_requests v q) k" for q using D(4) [of q k] by (auto simp: in_progress_row_def)
      from ins have row: "in_progress_row t' k" and rows: "\<And>j. in_progress_row (z_table v) j \<Longrightarrow> in_progress_row t' j"
        by (auto simp: in_progress_row_def locked_row_def)
      from ins have live: "rows_live db s t0 t'"
        using D(1) locked_row_live [OF assms(3)] by (auto split: if_splits)
      show ?thesis
      proof (rule replicas_inv_move [OF assms(2), of v' p "Some (rq, k, Locking pc')"])
        show "in_progress_row (z_table v') j \<and> \<not> holds (Some (rq, k, Locking pc')) j" if "holds (z_requests v q) j" for q j
          using rows [OF D(4) [OF that]] none [of q] that locks(1) by auto
      qed (use locks(1) new key row live in auto)
    qed
  next
    case (starts p rq k r j)
    from decision_live [OF D(2) [OF starts(2)] D(3) [OF starts(2)]] starts(3) have "LDone r = acquired" "j = k" by auto
    with starts(2) have h: "holds (z_requests v p) k" by simp
    show ?thesis
    proof (rule replicas_inv_move [OF assms(2), of v' p "Some (rq, k, Handling)"])
      show "in_progress_row (z_table v') i \<and> \<not> holds (Some (rq, k, Handling)) i" if "q \<noteq> p" "holds (z_requests v q) i" for q i
        using D(4) [OF that(2)] D(5) [OF h, of q] that starts(1) by auto
    qed (use \<open>j = k\<close> starts(1) D(1) D(4) [OF h] D(2) [OF starts(2)] in auto)
  next
    case (answers p rq k r a)
    show ?thesis
    proof (rule replicas_inv_move [OF assms(2), of v' p None])
      show "in_progress_row (z_table v') i \<and> \<not> holds None i" if "holds (z_requests v q) i" for q i
        using D(4) [OF that] answers(1) by simp
    qed (use answers(1) D(1) in auto)
  next
    case (ends p rq k clock fault out)
    have h: "holds (z_requests v p) k" using ends(2) by simp
    note M = mw_end_live [OF assms(3) ends(3) D(1) D(4) [OF h], where cfg = cfg and fault = fault and out = out]
    have "in_progress_row (z_table v') j" if "holds (z_requests v q) j" "q \<noteq> p" for q j
    proof -
      have "j \<noteq> k" using D(5) [OF h, of q] that by auto
      with M(2) D(4) [OF that(1)] ends(1) show ?thesis by (simp add: in_progress_row_def)
    qed
    with M(1) ends(1) show ?thesis by (intro replicas_inv_move [OF assms(2), of v' p None]) simp_all
  qed
qed

section \<open>A stored response\<close>

text \<open>
  What a request that arrived after the row was completed has seen of it, in each of its states; its
  reply can only be the stored response, or that of a failed statement.
\<close>

fun sees :: "pg_db \<Rightarrow> idem_row \<Rightarrow> request_pc \<Rightarrow> bool" where
  "sees db row (Locking (LExpired now r)) \<longleftrightarrow> r = row"
| "sees db row (Locking (LLease now r)) \<longleftrightarrow> r = row"
| "sees db row (Locking (LDone (Inr x))) \<longleftrightarrow> x = (True, Some (buildRecordFromRow db row))"
| "sees db row Handling \<longleftrightarrow> False"
| "sees db row _ \<longleftrightarrow> True"

lemma lock_step_sees:
  assumes "lock_step db s clock fault k (t, pc) = (t', pc')" and "t k = Some row" and "sees db row (Locking pc)"
    and "lock_live db s t0 pc"
  shows "sees db row (Locking pc')"
proof (cases pc)
  case (LExpired now r)
  then have "\<not> w_expires_at r < now" using assms(4) by (auto simp: row_live_def within_lease_def)
  with LExpired assms show ?thesis by auto
next
  case (LLease now r)
  then have "\<not> (w_status r = StatusInProgress \<and> w_locked_until r < now)"
    using assms(4) by (auto simp: row_live_def within_lease_def)
  with LLease assms show ?thesis by auto
qed (use assms in \<open>auto simp: sql_exec_def sql_insert_def split: option.splits if_splits\<close>)

definition settled :: "pg_db \<Rightarrow> replicas \<Rightarrow> string \<Rightarrow> idem_row \<Rightarrow> replicas \<Rightarrow> bool" where
  "settled db v k row w \<longleftrightarrow> z_table w k = Some row \<and> z_started w k = z_started v k \<and>
     (\<forall>p rq pc. z_requests v p = None \<longrightarrow> z_requests w p = Some (rq, k, pc) \<longrightarrow> sees db row pc) \<and>
     (\<exists>new. z_replies w = new @ z_replies v \<and>
        (\<forall>p a. (p, k, a) \<in> set new \<longrightarrow> z_requests v p = None \<longrightarrow>
           a = store_error \<or> (\<exists>resp. rec_Response (buildRecordFromRow db row) = Some resp \<and> a = serveCachedResponse resp)))"

lemma settled_refl: "z_table v k = Some row \<Longrightarrow> settled db v k row v"
  by (simp add: settled_def)

lemma settled_step:
  assumes "replica_step db s (within_lease db s t0) cfg w w'" and "replicas_inv db s t0 cfg w" and "keeps_time_order db"
    and "settled db v k row w" and "w_status row = StatusCompleted"
  shows "settled db v k row w'"
proof -
  note D = replicas_invD [OF assms(2)]
  have row: "z_table w k = Some row" using assms(4) by (simp add: settled_def)
  have no: "\<not> holds (z_requests w p) k" for p using D(4) [of p k] row assms(5) by (auto simp: in_progress_row_def)
  from assms(1) show ?thesis
  proof cases
    case (arrives p rq j)
    then show ?thesis using assms(4) by (simp add: settled_def)
  next
    case (locks p rq j pc clock fault t' pc')
    have "t' k = Some row"
      using lock_step_live [OF locks(4) assms(3) D(3) [OF locks(2)] locks(3) D(1)] row by auto
    moreover have "sees db row (Locking pc')" if "j = k" "z_requests v p = None"
      using lock_step_sees [OF locks(4) _ _ D(3) [OF locks(2)]] row that assms(4) locks(2) by (auto simp: settled_def)
    ultimately show ?thesis using assms(4) locks(1) by (auto simp: settled_def)
  next
    case (starts p rq j r i)
    from decision_live [OF D(2) [OF starts(2)] D(3) [OF starts(2)]] starts(3) have "LDone r = acquired" "i = j" by auto
    with no [of p] starts(2) have "i \<noteq> k" by auto
    then show ?thesis using assms(4) starts(1) by (auto simp: settled_def)
  next
    case (answers p rq j r a)
    have a: "a = store_error \<or> (\<exists>resp. rec_Response (buildRecordFromRow db row) = Some resp \<and> a = serveCachedResponse resp)"
      if "j = k" "z_requests v p = None"
    proof -
      have "sees db row (Locking (LDone r))" using assms(4) answers(2) that by (auto simp: settled_def)
      moreover have "rec_Status (buildRecordFromRow db row) = StatusCompleted" using assms(5) by (simp add: buildRecordFromRow_def)
      ultimately show ?thesis
        using answers(3) decision_simps [OF D(2) [OF answers(2)]] by (cases r) (auto split: option.splits)
    qed
    from assms(4) obtain new where new: "z_replies w = new @ z_replies v"
      "\<forall>p a. (p, k, a) \<in> set new \<longrightarrow> z_requests v p = None \<longrightarrow>
         a = store_error \<or> (\<exists>resp. rec_Response (buildRecordFromRow db row) = Some resp \<and> a = serveCachedResponse resp)"
      by (auto simp: settled_def)
    have "z_replies w' = ((p, j, a) # new) @ z_replies v" using answers(1) new(1) by simp
    with new(2) a have "\<exists>new. z_replies w' = new @ z_replies v \<and>
        (\<forall>p a. (p, k, a) \<in> set new \<longrightarrow> z_requests v p = None \<longrightarrow>
           a = store_error \<or> (\<exists>resp. rec_Response (buildRecordFromRow db row) = Some resp \<and> a = serveCachedResponse resp))"
      by (intro exI [of _ "(p, j, a) # new"]) auto
    then show ?thesis using assms(4) answers(1) unfolding settled_def by simp
  next
    case (ends p rq j clock fault out)
    have h: "holds (z_requests w p) j" using ends(2) by simp
    with no [of p] have "k \<noteq> j" by auto
    with mw_end_live(2) [OF assms(3) ends(3) D(1) D(4) [OF h]] row have "z_table w' k = Some row" using ends(1) by simp
    then show ?thesis using assms(4) ends(1) by (simp add: settled_def)
  qed
qed

lemma replicas_run_inv:
  assumes "keeps_time_order db" and "(replica_step db s (within_lease db s t0) cfg)\<^sup>*\<^sup>* replicas_start v"
  shows "replicas_inv db s t0 cfg v"
proof (rule rtranclp_invariant [OF assms(2)])
  show "replicas_inv db s t0 cfg replicas_start" by (simp add: replicas_inv_def replicas_start_def)
qed (rule replica_step_inv [OF _ _ assms(1)])

lemma settled_run:
  assumes "keeps_time_order db" and "(replica_step db s (within_lease db s t0) cfg)\<^sup>*\<^sup>* v v'" and "replicas_inv db s t0 cfg v"
    and "z_table v k = Some row" and "w_status row = StatusCompleted"
  shows "replicas_inv db s t0 cfg v' \<and> settled db v k row v'"
  using assms(2)
proof (induction rule: rtranclp_induct)
  case base
  show ?case using assms(3) settled_refl [OF assms(4)] by simp
next
  case (step y z)
  then show ?case using replica_step_inv [OF step.hyps(2) _ assms(1)] settled_step [OF step.hyps(2) _ assms(1) _ assms(5)] by blast
qed

text \<open>
  C19: the middleware on any number of replicas over one PostgreSQL table, statement by statement. From an
  empty table, with statements that fail before or after they ran, and while every clock that is read
  shows a time between \<open>t0\<close> and the end of a lease (and lifetime) from \<open>t0\<close>: at most one handler runs per
  idempotency key. Once a response is stored for a key, the record stays what it is, no handler of the
  key runs or is started again, and a request with the key that arrives later is answered with the
  stored response (its headers as the JSON column returns them) or, if a statement of it fails, with 500;
  a request that no other statement comes between and whose own do not fail is answered with the response.
\<close>

theorem pg_replicas_at_most_once:
  assumes "keeps_time_order db" and "(replica_step db s (within_lease db s t0) cfg)\<^sup>*\<^sup>* replicas_start v"
  shows "(\<forall>p q rq rq' k. z_requests v p = Some (rq, k, Handling) \<and> z_requests v q = Some (rq', k, Handling) \<longrightarrow> p = q) \<and>
    (\<forall>k resp v'. pg_lookup db (z_table v) k = Some \<lparr>rec_Status = StatusCompleted, rec_Response = Some resp\<rparr> \<and>
       (replica_step db s (within_lease db s t0) cfg)\<^sup>*\<^sup>* v v' \<longrightarrow>
       z_table v' k = z_table v k \<and> z_started v' k = z_started v k \<and> (\<forall>p rq. z_requests v' p \<noteq> Some (rq, k, Handling)) \<and>
       (\<exists>new. z_replies v' = new @ z_replies v \<and>
          (\<forall>p a. (p, k, a) \<in> set new \<and> z_requests v p = None \<longrightarrow> a = serveCachedResponse resp \<or> a = store_error)) \<and>
       (\<forall>rq now. has_key cfg rq k \<and> within_lease db s t0 now \<longrightarrow>
          mw_begin cfg (pg_Lock db s None now) rq (z_table v') = (z_table v', Answer (serveCachedResponse resp))))"
proof (intro conjI allI impI)
  note inv = replicas_run_inv [OF assms]
  show "p = q" if "z_requests v p = Some (rq, k, Handling) \<and> z_requests v q = Some (rq', k, Handling)" for p q rq rq' k
    using replicas_invD(5) [OF inv, of p k q] that by simp
  fix k resp v'
  assume a: "pg_lookup db (z_table v) k = Some \<lparr>rec_Status = StatusCompleted, rec_Response = Some resp\<rparr> \<and>
      (replica_step db s (within_lease db s t0) cfg)\<^sup>*\<^sup>* v v'"
  then obtain row where row: "z_table v k = Some row" "w_status row = StatusCompleted"
    and rec: "buildRecordFromRow db row = \<lparr>rec_Status = StatusCompleted, rec_Response = Some resp\<rparr>"
    by (auto simp: pg_lookup_def buildRecordFromRow_def)
  from settled_run [OF assms(1) conjunct2 [OF a] inv row] have inv': "replicas_inv db s t0 cfg v'" and st: "settled db v k row v'" by auto
  from st have t: "z_table v' k = Some row" by (simp add: settled_def)
  then show "z_table v' k = z_table v k" using row by simp
  show "z_started v' k = z_started v k" using st by (simp add: settled_def)
  show "z_requests v' p \<noteq> Some (rq, k, Handling)" for p rq
    using replicas_invD(4) [OF inv', of p k] t row(2) by (auto simp: in_progress_row_def)
  show "\<exists>new. z_replies v' = new @ z_replies v \<and>
      (\<forall>p a. (p, k, a) \<in> set new \<and> z_requests v p = None \<longrightarrow> a = serveCachedResponse resp \<or> a = store_error)"
    using st unfolding settled_def rec by simp blast
  show "mw_begin cfg (pg_Lock db s None now) rq (z_table v') = (z_table v', Answer (serveCachedResponse resp))"
    if "has_key cfg rq k \<and> within_lease db s t0 now" for rq now
  proof -
    have "now \<le> w_expires_at row" using replicas_invD(1) [OF inv'] t that by (force simp: row_live_def within_lease_def)
    then have "pg_Lock db s None now k (z_table v') = (z_table v', Inr (True, Some (buildRecordFromRow db row)))"
      using pg_Lock_live [where t = "z_table v'" and key = k, OF _ t] row(2) that by (simp add: has_key_def)
    with that rec show ?thesis by (simp add: mw_begin_def has_key_def)
  qed
qed

section \<open>A run\<close>

datatype replica_act = RArrive nat http_request string | RLock nat time | RDecide nat | REnd nat time outcome

fun replica_do :: "pg_db \<Rightarrow> PGStore \<Rightarrow> time \<Rightarrow> MiddlewareOptions \<Rightarrow> replica_act \<Rightarrow> replicas \<Rightarrow> replicas" where
  "replica_do db s t0 cfg (RArrive p rq k) v =
     (if z_requests v p = None \<and> has_key cfg rq k then v\<lparr>z_requests := (z_requests v)(p \<mapsto> (rq, k, Locking LStart))\<rparr> else v)"
| "replica_do db s t0 cfg (RLock p clock) v =
     (case z_requests v p of
        Some (rq, k, Locking pc) \<Rightarrow>
          if within_lease db s t0 clock then
            let (t', pc') = lock_step db s clock None k (z_table v, pc)
            in v\<lparr>z_table := t', z_requests := (z_requests v)(p \<mapsto> (rq, k, Locking pc'))\<rparr>
          else v
      | _ \<Rightarrow> v)"
| "replica_do db s t0 cfg (RDecide p) v =
     (case z_requests v p of
        Some (rq, k, Locking (LDone r)) \<Rightarrow>
          (case decision cfg rq r of
             RunHandler j \<Rightarrow> v\<lparr>z_requests := (z_requests v)(p \<mapsto> (rq, j, Handling)), z_started := (z_started v)(j := Suc (z_started v j))\<rparr>
           | Answer a \<Rightarrow> v\<lparr>z_requests := (z_requests v)(p := None), z_replies := (p, k, a) # z_replies v\<rparr>
           | PassThrough \<Rightarrow> v)
      | _ \<Rightarrow> v)"
| "replica_do db s t0 cfg (REnd p clock out) v =
     (case z_requests v p of
        Some (rq, k, Handling) \<Rightarrow>
          if within_lease db s t0 clock
          then v\<lparr>z_table := mw_end cfg (pg_Save db s None clock) (pg_Unlock None) k out (z_table v), z_requests := (z_requests v)(p := None)\<rparr>
          else v
      | _ \<Rightarrow> v)"

lemma replica_do_step: "(replica_step db s (within_lease db s t0) cfg)\<^sup>*\<^sup>* v (replica_do db s t0 cfg act v)"
  by (cases act)
    (auto simp: Let_def intro: arrives locks starts answers ends split: option.splits request_pc.splits lock_pc.splits mw_action.splits prod.splits)

lemma replica_run_reach: "(replica_step db s (within_lease db s t0) cfg)\<^sup>*\<^sup>* v (fold (replica_do db s t0 cfg) acts v)"
  by (induction acts arbitrary: v) (auto intro: rtranclp_trans [OF replica_do_step])

text \<open>
  Two requests whose statements interleave: the first acquires the key and stores its response, the
  second is answered with 409; a third one arrives later and gets the response.
\<close>

definition replicas_demo :: replicas where
  "replicas_demo = fold (replica_do micro_db brief_store 0 (mw_config []))
     [RArrive 1 demo_request ''k'', RArrive 2 demo_request ''k'', RLock 1 1000, RLock 2 1500, RLock 1 1000, RLock 2 1500,
      RDecide 1, RLock 2 1500, RLock 2 1500, RLock 2 1500, RDecide 2, REnd 1 2000 (Wrote demo_reply)] replicas_start"

definition replicas_later :: replicas where
  "replicas_later = fold (replica_do micro_db brief_store 0 (mw_config []))
     (RArrive 3 demo_request ''k'' # replicate 5 (RLock 3 3000) @ [RDecide 3]) replicas_demo"

theorem pg_replicas_at_most_once_witness:
  "\<exists>a. z_replies replicas_later = [(3, ''k'', a), (2, ''k'', conflict)] \<and> (a = serveCachedResponse demo_reply \<or> a = store_error) \<and>
     z_started replicas_later ''k'' = 1"
proof -
  have r: "(replica_step micro_db brief_store (within_lease micro_db brief_store 0) (mw_config []))\<^sup>*\<^sup>* replicas_start replicas_demo"
    "(replica_step micro_db brief_store (within_lease micro_db brief_store 0) (mw_config []))\<^sup>*\<^sup>* replicas_demo replicas_later"
    unfolding replicas_demo_def replicas_later_def by (rule replica_run_reach)+
  have "pg_lookup micro_db (z_table replicas_demo) ''k'' = Some \<lparr>rec_Status = StatusCompleted, rec_Response = Some demo_reply\<rparr>"
    by code_simp
  with pg_replicas_at_most_once [OF micro_db_order r(1)] r(2)
  have s: "z_started replicas_later ''k'' = z_started replicas_demo ''k''"
    and ex: "\<exists>new. z_replies replicas_later = new @ z_replies replicas_demo \<and>
      (\<forall>p a. (p, ''k'', a) \<in> set new \<and> z_requests replicas_demo p = None \<longrightarrow> a = serveCachedResponse demo_reply \<or> a = store_error)"
    by blast+
  from ex obtain new where new: "z_replies replicas_later = new @ z_replies replicas_demo"
    and a: "(p, ''k'', a) \<in> set new \<Longrightarrow> z_requests replicas_demo p = None \<Longrightarrow> a = serveCachedResponse demo_reply \<or> a = store_error" for p a
    by blast
  have d: "z_started replicas_demo ''k'' = 1" "z_replies replicas_demo = [(2, ''k'', conflict)]" "z_requests replicas_demo 3 = None"
    "length (z_replies replicas_later) = 2" "fst (hd (z_replies replicas_later)) = 3" "fst (snd (hd (z_replies replicas_later))) = ''k''"
    by code_simp+
  with new obtain x where "new = [x]" by (auto simp: length_Suc_conv)
  with new d(2,5,6) obtain b where "new = [(3, ''k'', b)]" by (cases x) auto
  with s new d(1,2,3) a [of 3 b] show ?thesis by simp
qed

end
