(* ===== verification/Pg_Rate_Limiter.thy ===== *)
theory Pg_Rate_Limiter
  imports Rate_Limiter Pg_Common Float64
begin

text \<open>
  The rate limiter on a PostgreSQL table (\<open>src/db/ratelimit.go\<close>), shared by all replicas of a service. A
  decision is one upsert, which the server runs atomically, so a run of several replicas is a sequence
  of statements. \<open>ts\<close> is what a \<open>TIMESTAMPTZ\<close> column keeps of a time; a statement may fail, with or without
  having run.
\<close>

section \<open>The limiter and its options\<close>

definition DefaultRateLimitTableName :: string where
  "DefaultRateLimitTableName = ''ratelimit_windows''"

definition rateLimitTableNameRegex :: "string \<Rightarrow> bool" where
  "rateLimitTableNameRegex name = ident_regex name"

record PGRateLimiter =
  pl_tableName :: string
  pl_limit :: int
  pl_window :: duration
  pl_timeout :: duration

definition WithPGRateLimiterTableName :: "string \<Rightarrow> PGRateLimiter \<Rightarrow> PGRateLimiter" where
  "WithPGRateLimiterTableName name l = l\<lparr>pl_tableName := name\<rparr>"

definition WithPGRateLimiterTimeout :: "duration \<Rightarrow> PGRateLimiter \<Rightarrow> PGRateLimiter" where
  "WithPGRateLimiterTimeout d l = (if d > 0 then l\<lparr>pl_timeout := d\<rparr> else l)"

definition NewPGRateLimiter ::
  "bool \<Rightarrow> int \<Rightarrow> duration \<Rightarrow> (PGRateLimiter \<Rightarrow> PGRateLimiter) list \<Rightarrow> error + PGRateLimiter" where
  "NewPGRateLimiter conn limit window opts =
     (if \<not> conn then Inl (Err ''ratelimit: db connection is required'')
      else
        let l = fold (\<lambda>opt l. opt l) opts
                  \<lparr>pl_tableName = DefaultRateLimitTableName, pl_limit = (if limit \<le> 0 then 1 else limit),
                   pl_window = (if window \<le> 0 then minute else window), pl_timeout = 500000000\<rparr>
        in if \<not> rateLimitTableNameRegex (pl_tableName l) then Inl (Err (''ratelimit: invalid table name '' @ go_quote (pl_tableName l)))
           else Inr l)"

section \<open>The table\<close>

record rl_row =
  rw_count :: int
  rw_start :: time

type_synonym rl_table = "string \<rightharpoonup> rl_row"

text \<open>\<open>time.Duration.Seconds\<close> is a double, \<open>Milliseconds\<close> an integer.\<close>

definition dur_seconds :: "duration \<Rightarrow> rat" where
  "dur_seconds d = fadd (float64_of (d sdiv second)) (fdiv (float64_of (d smod second)) (of_int second))"

definition dur_milliseconds :: "duration \<Rightarrow> int" where
  "dur_milliseconds d = d sdiv 1000000"

text \<open>The interval that the statement compares with, as its text says it.\<close>

definition sql_window :: "PGRateLimiter \<Rightarrow> duration" where
  "sql_window l =
     (if dur_seconds (pl_window l) < 1 then dur_milliseconds (pl_window l) * 1000000
      else trunc_int (dur_seconds (pl_window l)) * second)"

text \<open>The upsert with its \<open>CASE\<close> expressions, its \<open>WHERE\<close> clause (no row is returned if it is false) and its \<open>RETURNING\<close>.\<close>

definition sql_upsert :: "(time \<Rightarrow> time) \<Rightarrow> PGRateLimiter \<Rightarrow> time \<Rightarrow> string \<Rightarrow> int \<Rightarrow> rl_table \<Rightarrow> rl_table \<times> bool option" where
  "sql_upsert ts l now key n t =
     (let returning = (\<lambda>row. rw_start row = ts now \<or> rw_count row \<le> pl_limit l) in
      case t key of
        None \<Rightarrow> let row = \<lparr>rw_count = n, rw_start = ts now\<rparr> in (t(key \<mapsto> row), Some (returning row))
      | Some old \<Rightarrow>
          let over = (ts now - rw_start old \<ge> sql_window l);
              row = \<lparr>rw_count = (if over then n else rw_count old + n), rw_start = (if over then ts now else rw_start old)\<rparr>
          in if over \<or> rw_count old + n \<le> pl_limit l then (t(key \<mapsto> row), Some (returning row)) else (t, None))"

definition pl_AllowNWithContext ::
  "(time \<Rightarrow> time) \<Rightarrow> PGRateLimiter \<Rightarrow> db_fault \<Rightarrow> time \<Rightarrow> string \<Rightarrow> int \<Rightarrow> rl_table \<Rightarrow> rl_table \<times> bool" where
  "pl_AllowNWithContext ts l fault now key n t =
     (if key = [] \<or> n \<le> 0 then (t, False)
      else if n > pl_limit l then (t, False)
      else
        case fault of
          Some (e, executed) \<Rightarrow> (if executed then fst (sql_upsert ts l now key n t) else t, False)
        | None \<Rightarrow> (case sql_upsert ts l now key n t of (t', Some allowed) \<Rightarrow> (t', allowed) | (t', None) \<Rightarrow> (t', False)))"

definition pl_AllowWithContext :: "(time \<Rightarrow> time) \<Rightarrow> PGRateLimiter \<Rightarrow> db_fault \<Rightarrow> time \<Rightarrow> string \<Rightarrow> rl_table \<Rightarrow> rl_table \<times> bool" where
  "pl_AllowWithContext ts l fault now key t = pl_AllowNWithContext ts l fault now key 1 t"

definition pl_AllowN :: "(time \<Rightarrow> time) \<Rightarrow> PGRateLimiter \<Rightarrow> db_fault \<Rightarrow> time \<Rightarrow> string \<Rightarrow> int \<Rightarrow> rl_table \<Rightarrow> rl_table \<times> bool" where
  "pl_AllowN ts l fault now key n t = pl_AllowNWithContext ts l fault now key n t"

definition pl_Allow :: "(time \<Rightarrow> time) \<Rightarrow> PGRateLimiter \<Rightarrow> db_fault \<Rightarrow> time \<Rightarrow> string \<Rightarrow> rl_table \<Rightarrow> rl_table \<times> bool" where
  "pl_Allow ts l fault now key t = pl_AllowWithContext ts l fault now key t"

definition pl_Remaining :: "PGRateLimiter \<Rightarrow> db_fault \<Rightarrow> time \<Rightarrow> string \<Rightarrow> rl_table \<Rightarrow> int" where
  "pl_Remaining l fault now key t =
     (if key = [] then 0
      else
        case fault of
          Some _ \<Rightarrow> 0
        | None \<Rightarrow>
            (case t key of
               None \<Rightarrow> pl_limit l
             | Some row \<Rightarrow>
                 if time_sub now (rw_start row) \<ge> pl_window l then pl_limit l
                 else let rem = pl_limit l - rw_count row in if rem < 0 then 0 else rem))"

definition pl_Reset :: "db_fault \<Rightarrow> string \<Rightarrow> rl_table \<Rightarrow> rl_table" where
  "pl_Reset fault key t =
     (if key = [] then t
      else case fault of Some (e, False) \<Rightarrow> t | _ \<Rightarrow> t(key := None))"

section \<open>What a key is admitted\<close>

text \<open>Statements of any replicas, and the events of one key that were admitted.\<close>

datatype rl_op =
    RAllow db_fault time string int
  | RReset db_fault string

fun rl_exec :: "(time \<Rightarrow> time) \<Rightarrow> PGRateLimiter \<Rightarrow> rl_op \<Rightarrow> rl_table \<Rightarrow> rl_table \<times> bool" where
  "rl_exec ts l (RAllow fault now k n) t = pl_AllowN ts l fault now k n t"
| "rl_exec ts l (RReset fault k) t = (pl_Reset fault k t, False)"

fun rl_weight :: "string \<Rightarrow> rl_op \<Rightarrow> int" where
  "rl_weight key (RAllow fault now k n) = (if k = key then n else 0)"
| "rl_weight key (RReset fault k) = 0"

fun rl_admitted :: "(time \<Rightarrow> time) \<Rightarrow> PGRateLimiter \<Rightarrow> string \<Rightarrow> rl_op list \<Rightarrow> rl_table \<Rightarrow> int" where
  "rl_admitted ts l key [] t = 0"
| "rl_admitted ts l key (op # ops) t =
     (let (t', ok) = rl_exec ts l op t in (if ok then rl_weight key op else 0) + rl_admitted ts l key ops t')"

text \<open>An operation whose clock reads within \<open>[a, b]\<close> and that does not reset the key.\<close>

fun rl_within :: "(time \<Rightarrow> time) \<Rightarrow> string \<Rightarrow> time \<Rightarrow> time \<Rightarrow> rl_op \<Rightarrow> bool" where
  "rl_within ts key a b (RAllow fault now k n) = (a \<le> ts now \<and> ts now \<le> b)"
| "rl_within ts key a b (RReset fault k) = (k \<noteq> key)"

definition rows_ok :: "PGRateLimiter \<Rightarrow> rl_table \<Rightarrow> bool" where
  "rows_ok l t \<longleftrightarrow> (\<forall>k row. t k = Some row \<longrightarrow> 0 < rw_count row \<and> rw_count row \<le> pl_limit l)"

text \<open>A decision: refused with the table as it was, refused although the statement ran, or admitted.\<close>

lemma AllowN_cases:
  assumes "pl_AllowN ts l fault now k n t = (t', ok)"
  obtains (refused) "t' = t" and "\<not> ok"
  | (fresh) "t' = t(k \<mapsto> \<lparr>rw_count = n, rw_start = ts now\<rparr>)" and "0 < n" and "n \<le> pl_limit l"
      and "case t k of None \<Rightarrow> True | Some old \<Rightarrow> ts now - rw_start old \<ge> sql_window l"
  | (counted) old where "t k = Some old" and "t' = t(k \<mapsto> old\<lparr>rw_count := rw_count old + n\<rparr>)" and "0 < n"
      and "rw_count old + n \<le> pl_limit l" and "ts now - rw_start old < sql_window l"
proof -
  have "(t' = t \<and> \<not> ok) \<or>
    (t' = t(k \<mapsto> \<lparr>rw_count = n, rw_start = ts now\<rparr>) \<and> 0 < n \<and> n \<le> pl_limit l \<and>
       (case t k of None \<Rightarrow> True | Some old \<Rightarrow> ts now - rw_start old \<ge> sql_window l)) \<or>
    (\<exists>old. t k = Some old \<and> t' = t(k \<mapsto> old\<lparr>rw_count := rw_count old + n\<rparr>) \<and> 0 < n \<and>
       rw_count old + n \<le> pl_limit l \<and> ts now - rw_start old < sql_window l)"
    using assms
    by (cases "t k") (auto simp: pl_AllowN_def pl_AllowNWithContext_def sql_upsert_def Let_def split: option.splits if_splits)
  then show thesis using that by blast
qed

lemma rl_exec_rows_ok:
  assumes "rows_ok l t"
  shows "rows_ok l (fst (rl_exec ts l op t))"
proof (cases op)
  case (RAllow fault now k n)
  obtain t' ok where e: "pl_AllowN ts l fault now k n t = (t', ok)" by fastforce
  then show ?thesis
    using assms by (cases rule: AllowN_cases) (fastforce simp: RAllow e rows_ok_def)+
qed (use assms in \<open>auto simp: rows_ok_def pl_Reset_def split: option.splits prod.splits bool.splits\<close>)

text \<open>
  The budget of a key: what is left of the current window, and whole limits for the windows that can
  still begin before \<open>b\<close>. Every admission takes its events out of it.
\<close>

definition windows_left :: "PGRateLimiter \<Rightarrow> time \<Rightarrow> time \<Rightarrow> int" where
  "windows_left l b from_time = (if b < from_time then 0 else (b - from_time) div sql_window l + 1)"

definition budget :: "PGRateLimiter \<Rightarrow> string \<Rightarrow> time \<Rightarrow> time \<Rightarrow> rl_table \<Rightarrow> int" where
  "budget l key a b t =
     (case t key of
        None \<Rightarrow> pl_limit l * windows_left l b a
      | Some row \<Rightarrow> (pl_limit l - rw_count row) + pl_limit l * windows_left l b (max a (rw_start row + sql_window l)))"

lemma windows_left_mono:
  assumes "0 < sql_window l" and "x \<le> y"
  shows "windows_left l b y \<le> windows_left l b x"
proof (cases "b < y")
  case True
  have "0 \<le> (b - x) div sql_window l" if "x \<le> b" using that assms(1) by (simp add: pos_imp_zdiv_nonneg_iff)
  with True show ?thesis by (auto simp: windows_left_def)
next
  case False
  with assms show ?thesis by (simp add: windows_left_def zdiv_mono1)
qed

lemma windows_left_begin:
  assumes "0 < sql_window l" and "w \<le> b"
  shows "windows_left l b (w + sql_window l) + 1 = windows_left l b w"
proof -
  have "(b - w) div sql_window l = (b - (w + sql_window l)) div sql_window l + 1"
    using div_add_self2 [of "sql_window l" "b - (w + sql_window l)"] assms(1) by (simp add: algebra_simps)
  moreover have "b - w < sql_window l \<Longrightarrow> (b - w) div sql_window l = 0" using assms by (intro div_pos_pos_trivial) simp_all
  ultimately show ?thesis using assms by (auto simp: windows_left_def)
qed

lemma budget_fresh:
  assumes "0 < sql_window l" and "rows_ok l t" and "0 < pl_limit l" and "a \<le> w" and "w \<le> b"
    and "case t k of None \<Rightarrow> True | Some old \<Rightarrow> w - rw_start old \<ge> sql_window l"
  shows "budget l k a b (t(k \<mapsto> \<lparr>rw_count = n, rw_start = w\<rparr>)) + n \<le> budget l k a b t"
proof -
  let ?W = "sql_window l"
  have "windows_left l b (max a (w + ?W)) + 1 = windows_left l b (w)"
    using windows_left_begin [OF assms(1,5)] assms(1,4) by (simp add: max_def)
  then have new: "budget l k a b (t(k \<mapsto> \<lparr>rw_count = n, rw_start = w\<rparr>)) + n = pl_limit l * windows_left l b (w)"
    by (simp add: budget_def distrib_left [of _ _ "1::int", simplified, symmetric] algebra_simps)
      (metis add.commute distrib_left mult.right_neutral)
  show ?thesis
  proof (cases "t k")
    case None
    have "windows_left l b (w) \<le> windows_left l b a" by (rule windows_left_mono [OF assms(1,4)])
    with assms(3) show ?thesis unfolding new by (simp add: budget_def None)
  next
    case (Some old)
    with assms(4,6) have "max a (rw_start old + ?W) \<le> w" by simp
    then have "windows_left l b (w) \<le> windows_left l b (max a (rw_start old + ?W))" by (rule windows_left_mono [OF assms(1)])
    then have "pl_limit l * windows_left l b (w) \<le> pl_limit l * windows_left l b (max a (rw_start old + ?W))"
      using assms(3) by simp
    moreover have "rw_count old \<le> pl_limit l" using assms(2) Some by (simp add: rows_ok_def)
    ultimately show ?thesis unfolding new by (simp add: budget_def Some)
  qed
qed

lemma rl_exec_budget:
  assumes "0 < sql_window l" and "rows_ok l t" and "0 < pl_limit l" and "rl_within ts key a b op"
  shows "budget l key a b (fst (rl_exec ts l op t)) + (if snd (rl_exec ts l op t) then rl_weight key op else 0) \<le> budget l key a b t"
proof (cases op)
  case (RAllow fault now k n)
  obtain t' ok where e: "pl_AllowN ts l fault now k n t = (t', ok)" by fastforce
  then show ?thesis
  proof (cases rule: AllowN_cases)
    case fresh
    show ?thesis
    proof (cases "k = key")
      case True
      with budget_fresh [OF assms(1-3), of a "ts now" b k n] fresh(4) assms(4) fresh(1,2) e show ?thesis by (auto simp: RAllow)
    qed (simp add: RAllow e fresh(1) budget_def)
  next
    case (counted old)
    then show ?thesis using e by (cases "k = key") (auto simp: RAllow budget_def)
  qed (simp add: RAllow e)
next
  case (RReset fault k)
  with assms(4) show ?thesis by (auto simp: budget_def pl_Reset_def split: option.splits prod.splits bool.splits)
qed

lemma budget_bound:
  assumes "0 < sql_window l" and "rows_ok l t" and "0 < pl_limit l" and "a \<le> b"
  shows "budget l key a b t \<le> pl_limit l * ((b - a) div sql_window l + 2)" and "t key = None \<Longrightarrow> budget l key a b t = pl_limit l * ((b - a) div sql_window l + 1)"
proof -
  have wl: "windows_left l b a = (b - a) div sql_window l + 1" using assms(4) by (simp add: windows_left_def)
  show "t key = None \<Longrightarrow> budget l key a b t = pl_limit l * ((b - a) div sql_window l + 1)"
    by (simp add: budget_def wl)
  have m: "pl_limit l * windows_left l b (max a x) \<le> pl_limit l * ((b - a) div sql_window l + 1)" for x
    using windows_left_mono [OF assms(1), of a "max a x" b] assms(3) by (simp add: wl)
  show "budget l key a b t \<le> pl_limit l * ((b - a) div sql_window l + 2)"
  proof (cases "t key")
    case None
    with assms(3) show ?thesis by (simp add: budget_def wl)
  next
    case (Some row)
    then have "0 < rw_count row" using assms(2) by (simp add: rows_ok_def)
    with m [of "rw_start row + sql_window l"] Some show ?thesis by (simp add: budget_def algebra_simps)
  qed
qed

text \<open>
  C12: all replicas together admit at most \<open>limit\<close> events of a key per window. In statements of any replicas in
  any order, whose clocks read between \<open>a\<close> and \<open>b\<close> but need not agree or go forward, with statements that
  fail, a key is admitted at most \<open>limit * ((b - a) / window + 2)\<close> events, and one window less if the
  table had no row for it. The window is the interval as the statement spells it.
\<close>

theorem pg_rl_bound:
  assumes "0 < sql_window l" and "rows_ok l t" and "0 < pl_limit l" and "a \<le> b" and "\<forall>op \<in> set ops. rl_within ts key a b op"
  shows "rl_admitted ts l key ops t \<le> pl_limit l * ((b - a) div sql_window l + 2) \<and>
         (t key = None \<longrightarrow> rl_admitted ts l key ops t \<le> pl_limit l * ((b - a) div sql_window l + 1))"
proof -
  have "rl_admitted ts l key ops t \<le> budget l key a b t" if "rows_ok l t" for t
    using assms(5) that
  proof (induction ops arbitrary: t)
    case Nil
    have "0 \<le> windows_left l b x" for x using windows_left_mono [OF assms(1), of x "max x (b + 1)" b] by (simp add: windows_left_def split: if_splits)
    with Nil assms(3) show ?case by (auto simp: budget_def rows_ok_def split: option.splits intro!: add_nonneg_nonneg)
  next
    case (Cons op ops)
    obtain t' ok where e: "rl_exec ts l op t = (t', ok)" by fastforce
    have "rl_admitted ts l key ops t' \<le> budget l key a b t'"
      using Cons rl_exec_rows_ok [OF Cons.prems(2), of ts op] e by simp
    moreover have "budget l key a b t' + (if ok then rl_weight key op else 0) \<le> budget l key a b t"
      using rl_exec_budget [OF assms(1) Cons.prems(2) assms(3), of ts key a b op] Cons.prems(1) e by simp
    ultimately show ?case by (simp add: e)
  qed
  from this [OF assms(2)] budget_bound [OF assms(1-4), of key] show ?thesis by (auto dest: order_trans)
qed

definition two_per_second :: PGRateLimiter where
  "two_per_second = \<lparr>pl_tableName = DefaultRateLimitTableName, pl_limit = 2, pl_window = second, pl_timeout = 500000000\<rparr>"

theorem pg_rl_bound_witness:
  "rl_admitted micros two_per_second ''k'' (replicate 5 (RAllow None 7 ''k'' 1) @ [RAllow None (second + 7) ''k'' 1]) Map.empty
     \<le> 2 * ((second + 7 - 0) div sql_window two_per_second + 1)"
proof -
  have "0 < sql_window two_per_second" by code_simp
  moreover have "rl_within micros ''k'' 0 (second + 7) (RAllow None 7 ''k'' 1)"
    "rl_within micros ''k'' 0 (second + 7) (RAllow None (second + 7) ''k'' 1)"
    by (simp_all add: micros_def second_def)
  ultimately show ?thesis
    using pg_rl_bound [of two_per_second Map.empty 0 "second + 7" "replicate 5 (RAllow None 7 ''k'' 1) @ [RAllow None (second + 7) ''k'' 1]" micros "''k''"]
    by (simp add: rows_ok_def two_per_second_def second_def)
qed

section \<open>The contract of a limiter\<close>

text \<open>
  On columns of microseconds, with a window that the statement spells exactly, the limiter has the
  contract of \<open>keyed_limiter\<close> for non-empty keys, so the middleware's guarantees hold for it.
\<close>

definition exact_window :: "PGRateLimiter \<Rightarrow> bool" where
  "exact_window l \<longleftrightarrow> sql_window l = pl_window l \<and> 0 < pl_window l \<and> pl_window l < 2 ^ 63 \<and> pl_window l mod 1000 = 0"

definition pl_ok :: "PGRateLimiter \<times> rl_table \<Rightarrow> bool" where
  "pl_ok s \<longleftrightarrow> exact_window (fst s) \<and> 0 < pl_limit (fst s) \<and> pl_limit (fst s) < 2 ^ 62 \<and> rows_ok (fst s) (snd s) \<and>
     (\<forall>k row. snd s k = Some row \<longrightarrow> rw_start row mod 1000 = 0)"

definition pl_avail :: "time \<Rightarrow> string \<Rightarrow> PGRateLimiter \<times> rl_table \<Rightarrow> int" where
  "pl_avail now key s =
     (if key = [] then 0
      else case snd s key of
             None \<Rightarrow> pl_limit (fst s)
           | Some row \<Rightarrow> if now - rw_start row \<ge> pl_window (fst s) then pl_limit (fst s) else pl_limit (fst s) - rw_count row)"

definition pls_AllowN :: "time \<Rightarrow> string \<Rightarrow> int \<Rightarrow> PGRateLimiter \<times> rl_table \<Rightarrow> (PGRateLimiter \<times> rl_table) \<times> bool" where
  "pls_AllowN now k n s = (let (t', ok) = pl_AllowN micros (fst s) None now k n (snd s) in ((fst s, t'), ok))"

definition pls_Remaining :: "time \<Rightarrow> string \<Rightarrow> PGRateLimiter \<times> rl_table \<Rightarrow> (PGRateLimiter \<times> rl_table) \<times> int" where
  "pls_Remaining now k s = (s, pl_Remaining (fst s) None now k (snd s))"

definition pls_Reset :: "string \<Rightarrow> PGRateLimiter \<times> rl_table \<Rightarrow> PGRateLimiter \<times> rl_table" where
  "pls_Reset k s = (fst s, pl_Reset None k (snd s))"

lemma over_micros:
  assumes "exact_window l" and "start mod 1000 = 0"
  shows "sql_window l \<le> micros now - start \<longleftrightarrow> pl_window l \<le> now - start"
proof -
  have "(pl_window l + start) mod 1000 = 0" using assms by (simp add: exact_window_def mod_add_eq [symmetric])
  from micros_diff [OF this, of now] assms(1) show ?thesis by (simp add: exact_window_def algebra_simps)
qed

text \<open>One decision in terms of what is left, with the table after it.\<close>

lemma pl_AllowN_avail:
  assumes "pl_ok (l, t)" and "0 < n"
  shows "pl_AllowN micros l None now k n t =
    (if n \<le> pl_avail now k (l, t) then
       (t(k \<mapsto> (case t k of
                   Some old \<Rightarrow> if pl_window l \<le> now - rw_start old then \<lparr>rw_count = n, rw_start = micros now\<rparr>
                               else old\<lparr>rw_count := rw_count old + n\<rparr>
                 | None \<Rightarrow> \<lparr>rw_count = n, rw_start = micros now\<rparr>)), True)
     else (t, False))"
proof (cases "t k")
  case None
  with assms show ?thesis
    by (auto simp: pl_AllowN_def pl_AllowNWithContext_def sql_upsert_def pl_avail_def pl_ok_def Let_def)
next
  case (Some old)
  then have "rw_start old mod 1000 = 0" "0 < rw_count old" "rw_count old \<le> pl_limit l" "exact_window l"
    using assms(1) by (auto simp: pl_ok_def rows_ok_def)
  with Some assms(2) over_micros [of l "rw_start old" now] show ?thesis
    by (auto simp: pl_AllowN_def pl_AllowNWithContext_def sql_upsert_def pl_avail_def Let_def)
qed

lemma rows_okD: "rows_ok l t \<Longrightarrow> t k = Some row \<Longrightarrow> 0 \<le> rw_count row \<and> rw_count row \<le> pl_limit l"
  by (fastforce simp: rows_ok_def)

lemma pl_ok_AllowN:
  assumes "pl_ok s"
  shows "pl_ok (fst (pls_AllowN now k n s))" and "fst (fst (pls_AllowN now k n s)) = fst s"
proof -
  obtain l t where s: "s = (l, t)" by fastforce
  obtain t' ok where e: "pl_AllowN micros l None now k n t = (t', ok)" by fastforce
  then have "rows_ok l t'" using rl_exec_rows_ok [of l t micros "RAllow None now k n"] assms s by (simp add: pl_ok_def)
  moreover from e have "\<forall>k row. t' k = Some row \<longrightarrow> rw_start row mod 1000 = 0"
    using assms s by (cases rule: AllowN_cases) (auto simp: pl_ok_def micros_def)
  ultimately show "pl_ok (fst (pls_AllowN now k n s))" "fst (fst (pls_AllowN now k n s)) = fst s"
    using assms s e by (simp_all add: pl_ok_def pls_AllowN_def)
qed

lemma pl_avail_le: "pl_ok s \<Longrightarrow> pl_avail now k s \<le> pl_limit (fst s)"
  by (auto simp: pl_avail_def pl_ok_def split: option.splits dest: rows_okD)

interpretation pgl: keyed_limiter pls_AllowN pls_Remaining pls_Reset pl_avail "\<lambda>s. pl_limit (fst s)" "\<lambda>now. pl_ok" "\<lambda>k. k \<noteq> []"
proof (unfold_locales, goal_cases)
  case (1 now s n k)
  then show ?case using pl_AllowN_avail [of "fst s" "snd s" n now k] by (simp add: pls_AllowN_def)
next
  case (2 now s n k)
  then show ?case using pl_ok_AllowN by simp
next
  case (3 now s n k)
  obtain l t where s: "s = (l, t)" by fastforce
  have "k \<noteq> []" using 3 by (auto simp: pl_avail_def)
  moreover have "now - micros now < pl_window l"
    using 3(1) s micros_le(2) [of now] by (auto simp: pl_ok_def exact_window_def)
  ultimately show ?case
    using 3 s pl_AllowN_avail [of l t n now k] by (auto simp: pls_AllowN_def pl_avail_def split: option.splits)
next
  case (4 now s n k)
  then show ?case using pl_AllowN_avail [of "fst s" "snd s" n now k] by (simp add: pls_AllowN_def)
next
  case (5 now s n k' k)
  obtain t' ok where e: "pl_AllowN micros (fst s) None now k n (snd s) = (t', ok)" by fastforce
  then have "t' k' = snd s k'" using 5(3) by (cases rule: AllowN_cases) simp_all
  then show ?case by (auto simp: pls_AllowN_def pl_avail_def e split: option.splits)
next
  case (6 now s k)
  then show ?case
    by (auto simp: pls_Remaining_def pl_Remaining_def pl_avail_def pl_ok_def exact_window_def time_sub_def saturate64_ge_iff
        in_int64_def Let_def max_def split: option.splits)
next
  case (7 now s k k')
  then show ?case by (simp add: pls_Remaining_def)
next
  case (8 now s k)
  then show ?case by (rule pl_avail_le)
next
  case (9 now s)
  then show ?case by (simp add: pl_ok_def)
next
  case (10 now s k)
  then show ?case by (auto simp: pls_Reset_def pl_Reset_def pl_ok_def pl_avail_def rows_ok_def)
next
  case (11 now s k' k)
  then show ?case by (auto simp: pls_Reset_def pl_Reset_def pl_avail_def split: option.splits)
qed

text \<open>
  The limiter on a table, on columns of microseconds and with a window of whole seconds or
  milliseconds, behind the generic middleware: a burst of requests with any keys lets through no more
  requests of a key than the shared table has left for it, never more than the limit, the header
  reports what is left, and after \<open>Reset\<close> a non-empty key has its whole limit again.
\<close>

theorem pg_mw_burst:
  assumes "pl_ok s"
  shows "(let (s', rs) = mw_burst (\<lambda>now k. pls_AllowN now k 1) pls_Remaining now ks s in
          int (length (filter (\<lambda>(k', r). k' = k \<and> forwarded r) (zip ks rs))) \<le> max 0 (pl_avail now k s)) \<and>
         pl_avail now k s \<le> pl_limit (fst s) \<and> snd (pls_Remaining now k s) = max 0 (pl_avail now k s) \<and>
         (k \<noteq> [] \<longrightarrow> snd (pls_AllowN now k (pl_limit (fst s)) (pls_Reset k s)))"
  using pgl.burst_bound [OF assms, of now ks k] pgl.avail_le [OF assms, of now k] pgl.remaining_val [OF assms, of now k]
    pgl.after_reset_allowed [OF assms, of "pl_limit (fst s)" k now] pgl.lim_bounds [OF assms] by blast

theorem pg_mw_burst_witness: "snd (pls_AllowN 5 ''k'' 2 (pls_Reset ''k'' (two_per_second, Map.empty)))"
proof -
  have "exact_window two_per_second" by code_simp
  then have "pl_ok (two_per_second, Map.empty)" by (simp add: pl_ok_def rows_ok_def two_per_second_def)
  from pg_mw_burst [OF this, of 5 "[]" "''k''"] show ?thesis by (simp add: two_per_second_def)
qed

section \<open>Windows that the statement does not spell exactly\<close>

text \<open>
  The interval is cut to whole seconds, or to whole milliseconds below a second. A window of 1.5 seconds is
  enforced as one second, while \<open>Remaining\<close> still uses 1.5 seconds; a window below a millisecond is enforced
  as an interval of zero, and nothing is limited.
\<close>

lemma pg_window_truncated:
  "sql_window (two_per_second\<lparr>pl_window := 1500000000\<rparr>) = second \<and>
   sql_window (two_per_second\<lparr>pl_window := 999999\<rparr>) = 0 \<and>
   rl_admitted micros (two_per_second\<lparr>pl_window := 1500000000\<rparr>) ''k''
     [RAllow None 0 ''k'' 2, RAllow None second ''k'' 2] Map.empty = 4 \<and>
   pl_Remaining (two_per_second\<lparr>pl_window := 1500000000\<rparr>) None second ''k''
     (fst (pl_AllowN micros (two_per_second\<lparr>pl_window := 1500000000\<rparr>) None 0 ''k'' 2 Map.empty)) = 0 \<and>
   rl_admitted micros (two_per_second\<lparr>pl_window := 999999\<rparr>) ''k'' (replicate 9 (RAllow None 0 ''k'' 2)) Map.empty = 18"
  by code_simp

text \<open>A request for no events is refused, while both limiters in memory admit it.\<close>

lemma pg_refuses_no_events: "pl_AllowN ts l fault now k 0 t = (t, False)"
  by (simp add: pl_AllowN_def pl_AllowNWithContext_def)

end
