(* ===== verification/Gin.thy ===== *)
theory Gin
  imports Rbac Idem_Middleware Float64
begin

text \<open>
  Authentication, authorization and tenancy for the Gin framework (\<open>src/ginmw\<close>: \<open>jwt.go\<close>, \<open>rbac.go\<close>, \<open>tenant.go\<close>,
  \<open>cors.go\<close>). A middleware is a function of the request's context that returns it together with how it
  ended: it called \<open>Next\<close>, it aborted, or it just returned. The record \<open>gin_ctx\<close> has what the code reads from the
  framework's context and what it asks of it: the values it set, the headers, the reply it aborted with. How the framework runs a chain of them is the
  parameter \<open>run\<close>, under the law \<open>gin_chain\<close> that its documentation gives: pending handlers are run unless a
  handler has aborted. The JWT library is a parameter too: \<open>parse\<close> verifies a token with a secret at a
  time, \<open>sign\<close> makes one. A UUID is its canonical text.
\<close>

section \<open>Contexts and chains\<close>

type_synonym uuid = string

text \<open>A value of type \<open>any\<close>, and the claims that the JWT library registers.\<close>

datatype go_any = AnyNil | AnyBool bool | AnyInt int | AnyFloat rat | AnyString string | AnyList "go_any list" | AnyMap "(string \<times> go_any) list"

record RegisteredClaims =
  rc_Issuer :: string
  rc_Subject :: string
  rc_Audience :: "string list"
  rc_ExpiresAt :: "time option"
  rc_NotBefore :: "time option"
  rc_IssuedAt :: "time option"
  rc_ID :: string

record Claims =
  cl_UserID :: uuid
  cl_TenantID :: uuid
  cl_Email :: string
  cl_Roles :: "string list"
  cl_Custom :: "(string \<times> go_any) list"
  cl_Registered :: RegisteredClaims

datatype gin_value = VClaims Claims | VString string | VOther

datatype gin_json = JStr string | JBool bool | JObj "(string \<times> gin_json) list"

record gin_ctx =
  gc_method :: string
  gc_header :: "string \<Rightarrow> string"
  gc_query :: "string \<Rightarrow> string"
  gc_keys :: "string \<rightharpoonup> gin_value"
  gc_perms :: rbac_ctx
  gc_out :: "(string \<times> string) list"
  gc_reply :: "(int \<times> gin_json) option"

datatype gin_flow = CalledNext | Aborted | Returned

type_synonym gin_mw = "gin_ctx \<Rightarrow> gin_ctx \<times> gin_flow"

definition gin_chain :: "(gin_mw list \<Rightarrow> gin_ctx \<Rightarrow> gin_ctx) \<Rightarrow> bool" where
  "gin_chain run \<longleftrightarrow>
     (\<forall>c. run [] c = c) \<and>
     (\<forall>h hs c. run (h # hs) c = (case h c of (c', Aborted) \<Rightarrow> c' | (c', _) \<Rightarrow> run hs c'))"

definition c_Set :: "string \<Rightarrow> gin_value \<Rightarrow> gin_ctx \<Rightarrow> gin_ctx" where
  "c_Set k v c = c\<lparr>gc_keys := (gc_keys c)(k \<mapsto> v)\<rparr>"

definition AbortWithStatusJSON :: "int \<Rightarrow> gin_json \<Rightarrow> gin_ctx \<Rightarrow> gin_ctx \<times> gin_flow" where
  "AbortWithStatusJSON code body c = (c\<lparr>gc_reply := Some (code, body)\<rparr>, Aborted)"

definition gin_error :: "string \<Rightarrow> string \<Rightarrow> gin_json" where
  "gin_error msg code = JObj [(''error'', JStr msg), (''code'', JStr code)]"

section \<open>JSON web tokens\<close>

definition PrimaryRole :: "Claims \<Rightarrow> string" where
  "PrimaryRole c = (case cl_Roles c of [] \<Rightarrow> [] | r # _ \<Rightarrow> r)"

fun has_role :: "string list \<Rightarrow> string \<Rightarrow> bool" where
  "has_role [] role = False"
| "has_role (r # rs) role = (if r = role then True else has_role rs role)"

definition HasRole :: "Claims \<Rightarrow> string \<Rightarrow> bool" where
  "HasRole c role = has_role (cl_Roles c) role"

text \<open>The secret of the package, empty before it is set.\<close>

definition getJWTSecret :: "string \<Rightarrow> string" where
  "getJWTSecret jwtSecret = (if jwtSecret = [] then [] else jwtSecret)"

definition SetJWTSecret :: "string \<Rightarrow> string \<times> error option" where
  "SetJWTSecret secret = (if trim_space secret = [] then ([], Some (Err ''jwt secret cannot be empty'')) else (secret, None))"

text \<open>\<open>date\<close> is the precision of \<open>jwt.NewNumericDate\<close>. The result has the claims as the call leaves them.\<close>

definition GenerateToken ::
  "(string \<Rightarrow> Claims \<Rightarrow> error + string) \<Rightarrow> (time \<Rightarrow> time) \<Rightarrow> string \<Rightarrow> time \<Rightarrow> Claims \<Rightarrow> int \<Rightarrow> Claims \<times> (error + string)" where
  "GenerateToken sign date jwtSecret now claims timeInMins =
     (let secret = getJWTSecret jwtSecret in
      if secret = [] then (claims, Inl (Err ''jwt secret is uninitialized''))
      else
        let rc = cl_Registered claims;
            rc = rc\<lparr>rc_ExpiresAt := Some (date (time_add now (wrap64 (timeInMins * minute))))\<rparr>;
            claims' = claims\<lparr>cl_Registered := rc\<lparr>rc_IssuedAt := Some (date now)\<rparr>\<rparr>
        in (claims', sign secret claims'))"

record authOptions =
  allowQueryToken :: bool

definition WithAllowQueryToken :: "authOptions \<Rightarrow> authOptions" where
  "WithAllowQueryToken opt = opt\<lparr>allowQueryToken := True\<rparr>"

text \<open>\<open>strings.SplitN(s, " ", 2)\<close>: the text before and after the first space, if there is one.\<close>

fun split_space :: "string \<Rightarrow> (string \<times> string) option" where
  "split_space [] = None"
| "split_space (x # xs) =
     (if x = CHR '' '' then Some ([], xs) else map_option (\<lambda>(a, b). (x # a, b)) (split_space xs))"

definition extractToken :: "gin_ctx \<Rightarrow> bool \<Rightarrow> string" where
  "extractToken c allowQuery =
     (let h = gc_header c ''Authorization'';
          fallback = (if allowQuery then gc_query c ''token'' else [])
      in case (if h \<noteq> [] then split_space h else None) of
           Some (scheme, rest) \<Rightarrow> if to_lower scheme = ''bearer'' then rest else fallback
         | None \<Rightarrow> fallback)"

type_synonym jwt_parse = "time \<Rightarrow> string \<Rightarrow> string \<Rightarrow> error + Claims \<times> bool"

definition AuthMiddleware :: "jwt_parse \<Rightarrow> string \<Rightarrow> time \<Rightarrow> (authOptions \<Rightarrow> authOptions) list \<Rightarrow> gin_mw" where
  "AuthMiddleware parse jwtSecret now opts c =
     (let cfg = fold (\<lambda>opt o'. opt o') opts \<lparr>allowQueryToken = False\<rparr>; secret = getJWTSecret jwtSecret in
      if secret = [] then AbortWithStatusJSON 401 (gin_error ''JWT secret is uninitialized'' ''UNAUTHORIZED'') c
      else
        let tokenStr = extractToken c (allowQueryToken cfg) in
        if tokenStr = [] then AbortWithStatusJSON 401 (gin_error ''Authorization required'' ''UNAUTHORIZED'') c
        else
          case parse now secret tokenStr of
            Inr (claims, True) \<Rightarrow> (c_Set ''claims'' (VClaims claims) c, CalledNext)
          | _ \<Rightarrow> AbortWithStatusJSON 401 (gin_error ''Invalid or expired token'' ''TOKEN_EXPIRED'') c)"

definition GetClaims :: "gin_ctx \<Rightarrow> Claims option" where
  "GetClaims c = (case gc_keys c ''claims'' of Some (VClaims claims) \<Rightarrow> Some claims | _ \<Rightarrow> None)"

section \<open>Permissions and roles\<close>

type_synonym PermissionProvider = "uuid \<Rightarrow> uuid \<Rightarrow> error + string list"

definition RBAC :: "PermissionProvider \<Rightarrow> gin_mw" where
  "RBAC provider c =
     (case GetClaims c of
        None \<Rightarrow> (c\<lparr>gc_perms := WithPermissions []\<rparr>, CalledNext)
      | Some claims \<Rightarrow>
          (case provider (cl_UserID claims) (cl_TenantID claims) of
             Inl err \<Rightarrow> AbortWithStatusJSON 500 (gin_error ''Permission check failed'' ''RBAC_ERROR'') c
           | Inr perms \<Rightarrow> (c\<lparr>gc_perms := WithPermissions perms\<rparr>, CalledNext)))"

definition RequirePermission :: "string \<Rightarrow> gin_mw" where
  "RequirePermission perm c =
     (if \<not> Can (gc_perms c) perm
      then AbortWithStatusJSON 403 (JObj [(''error'', JStr ''Forbidden''), (''code'', JStr ''FORBIDDEN''), (''required'', JStr perm)]) c
      else (c, CalledNext))"

definition RequireAnyPermission :: "string list \<Rightarrow> gin_mw" where
  "RequireAnyPermission perms c =
     (if \<not> CanAny (gc_perms c) perms then AbortWithStatusJSON 403 (gin_error ''Forbidden'' ''FORBIDDEN'') c
      else (c, CalledNext))"

definition toSet :: "string list \<Rightarrow> (string, bool) gomap" where
  "toSet ss = foldl (\<lambda>m s. mput s True m) [] ss"

text \<open>The lookup \<open>m[r]\<close> gives false for a missing key.\<close>

definition in_set_map :: "(string, bool) gomap \<Rightarrow> string \<Rightarrow> bool" where
  "in_set_map m r = (case map_of m r of Some b \<Rightarrow> b | None \<Rightarrow> False)"

fun any_allowed :: "(string \<Rightarrow> bool) \<Rightarrow> string list \<Rightarrow> bool" where
  "any_allowed allowed [] = False"
| "any_allowed allowed (r # rs) = (if allowed r then True else any_allowed allowed rs)"

definition RequireRole :: "string list \<Rightarrow> gin_mw" where
  "RequireRole roles c =
     (let allowed = toSet roles in
      case GetClaims c of
        None \<Rightarrow> AbortWithStatusJSON 403 (gin_error ''Forbidden'' ''FORBIDDEN'') c
      | Some claims \<Rightarrow>
          if any_allowed (in_set_map allowed) (cl_Roles claims) then (c, CalledNext)
          else AbortWithStatusJSON 403 (gin_error ''Forbidden: insufficient role'' ''FORBIDDEN'') c)"

definition AdminOnly :: "string list \<Rightarrow> gin_mw" where
  "AdminOnly roles = RequireRole (if length roles = 0 then [''ADMIN'', ''SUPERADMIN'', ''PLATFORM_ADMIN''] else roles)"

section \<open>Tenants\<close>

definition DefaultTenantContextKey :: string where "DefaultTenantContextKey = ''tenant_id''"
definition DefaultTenantHeader :: string where "DefaultTenantHeader = ''x-tenant-id''"
definition DefaultTenantQuery :: string where "DefaultTenantQuery = ''tenant_id''"

record tenantOptions =
  to_contextKey :: string
  to_headerName :: string
  to_queryParam :: string
  to_bypassRoles :: "(string, bool) gomap"
  to_errorMessage :: string

definition WithTenantContextKey :: "string \<Rightarrow> tenantOptions \<Rightarrow> tenantOptions" where
  "WithTenantContextKey key opt = opt\<lparr>to_contextKey := key\<rparr>"

definition WithTenantHeader :: "string \<Rightarrow> tenantOptions \<Rightarrow> tenantOptions" where
  "WithTenantHeader header opt = opt\<lparr>to_headerName := header\<rparr>"

definition WithTenantQuery :: "string \<Rightarrow> tenantOptions \<Rightarrow> tenantOptions" where
  "WithTenantQuery param opt = opt\<lparr>to_queryParam := param\<rparr>"

definition to_upper :: "string \<Rightarrow> string" where
  "to_upper = map ascii_upper"

definition WithBypassRoles :: "string list \<Rightarrow> tenantOptions \<Rightarrow> tenantOptions" where
  "WithBypassRoles roles opt =
     opt\<lparr>to_bypassRoles := foldl (\<lambda>m r. mput (to_upper (trim_space r)) True m) (to_bypassRoles opt) roles\<rparr>"

definition nil_uuid :: uuid where
  "nil_uuid = ''00000000-0000-0000-0000-000000000000''"

definition ExtractTenantID :: "gin_ctx \<Rightarrow> string \<Rightarrow> string \<Rightarrow> string \<Rightarrow> string" where
  "ExtractTenantID c contextKey0 headerName0 queryParam0 =
     (let contextKey = (if contextKey0 = [] then DefaultTenantContextKey else contextKey0);
          headerName = (if headerName0 = [] then DefaultTenantHeader else headerName0);
          queryParam = (if queryParam0 = [] then DefaultTenantQuery else queryParam0);
          from_request =
            (let h = trim_space (gc_header c headerName) in if h \<noteq> [] then h else trim_space (gc_query c queryParam));
          from_claims =
            (case GetClaims c of
               Some claims \<Rightarrow> if cl_TenantID claims \<noteq> nil_uuid \<and> cl_TenantID claims \<noteq> [] then cl_TenantID claims else from_request
             | None \<Rightarrow> from_request)
      in case gc_keys c contextKey of
           Some (VString s) \<Rightarrow> if trim_space s \<noteq> [] then trim_space s else from_claims
         | _ \<Rightarrow> from_claims)"

definition tenant_config :: "(tenantOptions \<Rightarrow> tenantOptions) option list \<Rightarrow> tenantOptions" where
  "tenant_config opts =
     fold (\<lambda>opt o'. case opt of None \<Rightarrow> o' | Some f \<Rightarrow> f o') opts
       \<lparr>to_contextKey = DefaultTenantContextKey, to_headerName = DefaultTenantHeader, to_queryParam = DefaultTenantQuery,
        to_bypassRoles = [],
        to_errorMessage = ''Tenant ID required via header ('' @ DefaultTenantHeader @ '') or query parameter ('' @ DefaultTenantQuery @ '')''\<rparr>"

definition tenant_error :: "tenantOptions \<Rightarrow> gin_json" where
  "tenant_error cfg =
     JObj [(''success'', JBool False),
           (''error'', JObj [(''code'', JStr ''TENANT_REQUIRED''), (''message'', JStr (to_errorMessage cfg))])]"

definition RequireTenant :: "(tenantOptions \<Rightarrow> tenantOptions) option list \<Rightarrow> gin_mw" where
  "RequireTenant opts c =
     (let cfg = tenant_config opts;
          tenantID = ExtractTenantID c (to_contextKey cfg) (to_headerName cfg) (to_queryParam cfg)
      in if tenantID = [] then
           (if (case GetClaims c of
                  Some claims \<Rightarrow> any_allowed (\<lambda>r. in_set_map (to_bypassRoles cfg) (to_upper (trim_space r))) (cl_Roles claims)
                | None \<Rightarrow> False)
            then (c, CalledNext)
            else AbortWithStatusJSON 400 (tenant_error cfg) c)
         else (c_Set (to_contextKey cfg) (VString tenantID) c, CalledNext))"

section \<open>Cross-origin requests\<close>

fun isOriginAllowed :: "string \<Rightarrow> string list \<Rightarrow> bool" where
  "isOriginAllowed origin [] = False"
| "isOriginAllowed origin (o' # os) =
     (let trimmed = trim_space o' in
      if trimmed = origin then True
      else if take 2 trimmed = ''*.'' \<and> has_suffix origin (drop 1 trimmed) then True
      else isOriginAllowed origin os)"

definition c_Header :: "string \<Rightarrow> string \<Rightarrow> gin_ctx \<Rightarrow> gin_ctx" where
  "c_Header k v c = c\<lparr>gc_out := gc_out c @ [(k, v)]\<rparr>"

definition CORS :: "string list \<Rightarrow> gin_mw" where
  "CORS allowedOrigins c =
     (let origin = gc_header c ''Origin'';
          c1 = (if origin \<noteq> [] \<and> isOriginAllowed origin allowedOrigins then c_Header ''Access-Control-Allow-Origin'' origin c else c);
          c2 = c_Header ''Access-Control-Allow-Methods'' ''GET, POST, PUT, PATCH, DELETE, OPTIONS'' c1;
          c3 = c_Header ''Access-Control-Allow-Headers'' ''Content-Type, Authorization'' c2;
          c4 = c_Header ''Access-Control-Allow-Credentials'' ''true'' c3;
          c5 = c_Header ''Access-Control-Expose-Headers'' ''Content-Disposition, Content-Type, Content-Length'' c4
      in if gc_method c = ''OPTIONS'' then (c5\<lparr>gc_reply := Some (204, JObj [])\<rparr>, Aborted) else (c5, CalledNext))"

section \<open>What a protected route lets through\<close>

lemma gin_chainD:
  assumes "gin_chain run"
  shows "run [] c = c" and "run (h # hs) c = (case h c of (c', Aborted) \<Rightarrow> c' | (c', _) \<Rightarrow> run hs c')"
  using assms by (simp_all add: gin_chain_def)

lemma gin_last: "gin_chain run \<Longrightarrow> run [h] c = fst (h c)"
  by (auto simp: gin_chainD split: prod.splits gin_flow.splits)

lemma has_role_iff: "has_role rs r \<longleftrightarrow> r \<in> set rs"
  by (induction rs) auto

lemma any_allowed_iff: "any_allowed p rs \<longleftrightarrow> (\<exists>r \<in> set rs. p r)"
  by (induction rs) auto

lemma in_set_map_foldl: "in_set_map (foldl (\<lambda>m s. mput (f s) True m) m ss) r \<longleftrightarrow> in_set_map m r \<or> r \<in> f ` set ss"
  by (induction ss arbitrary: m) (auto simp: in_set_map_def go_map)

lemma in_toSet: "in_set_map (toSet ss) r \<longleftrightarrow> r \<in> set ss"
  using in_set_map_foldl [where f = "\<lambda>s. s", of "[]" ss r] by (simp add: toSet_def in_set_map_def)

lemma GetClaims_Set: "GetClaims (c_Set ''claims'' (VClaims cl) c) = Some cl"
  by (simp add: GetClaims_def c_Set_def)

text \<open>The claims of the request's token, if it has one that the secret verifies.\<close>

definition token_claims :: "jwt_parse \<Rightarrow> string \<Rightarrow> time \<Rightarrow> bool \<Rightarrow> gin_ctx \<Rightarrow> Claims option" where
  "token_claims parse secret now allowQuery c =
     (if secret = [] \<or> extractToken c allowQuery = [] then None
      else case parse now secret (extractToken c allowQuery) of Inr (claims, True) \<Rightarrow> Some claims | _ \<Rightarrow> None)"

lemma query_option: "allowQueryToken ((WithAllowQueryToken ^^ n) \<lparr>allowQueryToken = False\<rparr>) = (0 < n)"
  by (cases n) (simp_all add: WithAllowQueryToken_def)

lemma AuthMiddleware_cases:
  "AuthMiddleware parse secret now (replicate n WithAllowQueryToken) c =
    (case token_claims parse secret now (0 < n) c of
       Some claims \<Rightarrow> (c_Set ''claims'' (VClaims claims) c, CalledNext)
     | None \<Rightarrow> AbortWithStatusJSON 401
         (if secret = [] then gin_error ''JWT secret is uninitialized'' ''UNAUTHORIZED''
          else if extractToken c (0 < n) = [] then gin_error ''Authorization required'' ''UNAUTHORIZED''
          else gin_error ''Invalid or expired token'' ''TOKEN_EXPIRED'') c)"
  by (auto simp: AuthMiddleware_def token_claims_def query_option getJWTSecret_def Let_def split: sum.splits prod.splits bool.splits)

text \<open>
  C5: a route behind \<open>AuthMiddleware\<close>, \<open>RBAC\<close> and \<open>RequirePermission\<close>. Its handler is run exactly if the request
  has a token that the configured secret verifies, the provider gives permissions for the user and
  tenant of the token, and one of these permissions is the required one or matches it; the handler then
  finds these claims and permissions in its context. Otherwise it is not run and the reply is 401, 500 or
  403; in particular nothing is let through without a secret or when the provider fails.
\<close>

theorem gin_protected_route:
  assumes "gin_chain run"
  shows "run [AuthMiddleware parse secret now (replicate n WithAllowQueryToken), RBAC provider, RequirePermission perm, h] c =
    (case token_claims parse secret now (0 < n) c of
       None \<Rightarrow> c\<lparr>gc_reply := Some (401,
         if secret = [] then gin_error ''JWT secret is uninitialized'' ''UNAUTHORIZED''
         else if extractToken c (0 < n) = [] then gin_error ''Authorization required'' ''UNAUTHORIZED''
         else gin_error ''Invalid or expired token'' ''TOKEN_EXPIRED'')\<rparr>
     | Some claims \<Rightarrow>
         let c1 = c\<lparr>gc_keys := (gc_keys c)(''claims'' \<mapsto> VClaims claims)\<rparr> in
         (case provider (cl_UserID claims) (cl_TenantID claims) of
            Inl err \<Rightarrow> c1\<lparr>gc_reply := Some (500, gin_error ''Permission check failed'' ''RBAC_ERROR'')\<rparr>
          | Inr perms \<Rightarrow>
              let c2 = c1\<lparr>gc_perms := WithPermissions perms\<rparr> in
              if perm \<in> set perms \<or> (\<exists>q \<in> set perms. Match q perm) then fst (h c2)
              else c2\<lparr>gc_reply := Some (403,
                     JObj [(''error'', JStr ''Forbidden''), (''code'', JStr ''FORBIDDEN''), (''required'', JStr perm)])\<rparr>))"
proof (cases "token_claims parse secret now (0 < n) c")
  case None
  then show ?thesis by (simp add: gin_chainD(2) [OF assms] AbortWithStatusJSON_def AuthMiddleware_cases)
next
  case (Some claims)
  have a: "AuthMiddleware parse secret now (replicate n WithAllowQueryToken) c = (c_Set ''claims'' (VClaims claims) c, CalledNext)"
    by (simp add: AuthMiddleware_cases Some)
  show ?thesis
  proof (cases "provider (cl_UserID claims) (cl_TenantID claims)")
    case (Inl err)
    then show ?thesis
      by (simp add: gin_chainD(2) [OF assms] a RBAC_def GetClaims_Set AbortWithStatusJSON_def Some) (simp add: c_Set_def)
  next
    case (Inr perms)
    then show ?thesis
      by (simp add: gin_chainD(2) [OF assms, of _ "_ # _"] gin_last [OF assms] a RBAC_def GetClaims_Set RequirePermission_def
          Can_WithPermissions AbortWithStatusJSON_def Some) (simp add: c_Set_def)
  qed
qed

text \<open>A chain that behaves as documented, and a request with a token that a toy library verifies.\<close>

fun demo_run :: "gin_mw list \<Rightarrow> gin_ctx \<Rightarrow> gin_ctx" where
  "demo_run [] c = c"
| "demo_run (h # hs) c = (case h c of (c', Aborted) \<Rightarrow> c' | (c', _) \<Rightarrow> demo_run hs c')"

lemma demo_run_chain: "gin_chain demo_run"
  by (simp add: gin_chain_def)

definition demo_claims :: Claims where
  "demo_claims = \<lparr>cl_UserID = ''u1'', cl_TenantID = ''t1'', cl_Email = [], cl_Roles = [''ADMIN''], cl_Custom = [],
     cl_Registered = \<lparr>rc_Issuer = [], rc_Subject = [], rc_Audience = [], rc_ExpiresAt = None, rc_NotBefore = Some 0, rc_IssuedAt = None, rc_ID = []\<rparr>\<rparr>"

definition demo_parse :: jwt_parse where
  "demo_parse now secret tok = (if secret = ''s'' \<and> tok = ''good'' then Inr (demo_claims, True) else Inl (Err ''signature is invalid''))"

definition demo_ctx :: "string \<Rightarrow> gin_ctx" where
  "demo_ctx auth =
     \<lparr>gc_method = ''GET'', gc_header = (\<lambda>h. if h = ''Authorization'' then auth else if h = ''x-tenant-id'' then ''evil'' else []),
      gc_query = (\<lambda>_. []), gc_keys = Map.empty, gc_perms = None, gc_out = [], gc_reply = None\<rparr>"

definition demo_handler :: gin_mw where
  "demo_handler c = (c\<lparr>gc_reply := Some (200, JObj [])\<rparr>, Returned)"

theorem gin_protected_route_witness:
  "gc_reply (demo_run [AuthMiddleware demo_parse ''s'' 0 (replicate 0 WithAllowQueryToken), RBAC (\<lambda>u t. Inr [''po:*'']), RequirePermission ''po:read'', demo_handler]
     (demo_ctx ''Bearer good'')) = Some (200, JObj [])"
proof -
  have "token_claims demo_parse ''s'' 0 (0 < (0::nat)) (demo_ctx ''Bearer good'') = Some demo_claims" by code_simp
  moreover have "Match ''po:*'' ''po:read''" by code_simp
  ultimately show ?thesis unfolding gin_protected_route [OF demo_run_chain] by (simp add: demo_handler_def)
qed

section \<open>Roles\<close>

lemma RequireRole_iff:
  "RequireRole roles c =
     (case GetClaims c of
        Some claims \<Rightarrow> if set (cl_Roles claims) \<inter> set roles \<noteq> {} then (c, CalledNext)
                       else AbortWithStatusJSON 403 (gin_error ''Forbidden: insufficient role'' ''FORBIDDEN'') c
      | None \<Rightarrow> AbortWithStatusJSON 403 (gin_error ''Forbidden'' ''FORBIDDEN'') c)"
  by (auto simp: RequireRole_def any_allowed_iff in_toSet Let_def split: option.splits)

text \<open>
  Without claims in the context every guard refuses, whether \<open>RBAC\<close> has run or not.
\<close>

lemma guards_refuse_unauthenticated:
  assumes "GetClaims c = None"
  shows "snd (RequireRole roles c) = Aborted" and "snd (AdminOnly roles c) = Aborted"
    and "snd (RequirePermission p (fst (RBAC provider c))) = Aborted"
    and "snd (RequireAnyPermission ps (fst (RBAC provider c))) = Aborted"
    and "gc_perms c = None \<Longrightarrow> snd (RequirePermission p c) = Aborted"
  using assms
  by (simp_all add: RequireRole_iff AdminOnly_def AbortWithStatusJSON_def RBAC_def RequirePermission_def RequireAnyPermission_def
      Can_WithPermissions CanAny_WithPermissions) (simp add: Can_def)

section \<open>Tokens\<close>

lemma split_space_first: "CHR '' '' \<notin> set a \<Longrightarrow> split_space (a @ CHR '' '' # b) = Some (a, b)"
  by (induction a) auto

lemma to_lower_no_space: "CHR '' '' \<notin> set (to_lower s) \<Longrightarrow> CHR '' '' \<notin> set s"
  by (auto simp: to_lower_def image_iff ascii_lower_def dest: bspec)

text \<open>
  What the library promises of a token it signed. \<open>wire\<close> is what the JSON text in the token keeps of the claims: the
  texts as they are (they are valid UTF-8), the times at the precision of the library, the values of \<open>Custom\<close> as
  JSON has them (an integer comes back as a float). The library accepts the token with the same secret
  exactly from its \<open>NotBefore\<close> until its \<open>ExpiresAt\<close>, and gives back what the text keeps.
\<close>

definition claims_live :: "time \<Rightarrow> Claims \<Rightarrow> bool" where
  "claims_live now cl \<longleftrightarrow>
     (case rc_ExpiresAt (cl_Registered cl) of Some t \<Rightarrow> now < t | None \<Rightarrow> True) \<and>
     (case rc_NotBefore (cl_Registered cl) of Some t \<Rightarrow> t \<le> now | None \<Rightarrow> True)"

definition verifies_own ::
  "jwt_parse \<Rightarrow> (string \<Rightarrow> Claims \<Rightarrow> error + string) \<Rightarrow> (Claims \<Rightarrow> Claims) \<Rightarrow> string \<Rightarrow> bool" where
  "verifies_own parse sign wire secret \<longleftrightarrow>
     (\<forall>claims tok now. sign secret claims = Inr tok \<longrightarrow>
        tok \<noteq> [] \<and> (if claims_live now (wire claims) then parse now secret tok = Inr (wire claims, True) else \<exists>e. parse now secret tok = Inl e))"

definition carries :: "(time \<Rightarrow> time) \<Rightarrow> (Claims \<Rightarrow> Claims) \<Rightarrow> Claims \<Rightarrow> bool" where
  "carries date wire cl \<longleftrightarrow>
     (let r = cl_Registered cl; r' = cl_Registered (wire cl) in
      cl_UserID (wire cl) = cl_UserID cl \<and> cl_TenantID (wire cl) = cl_TenantID cl \<and> cl_Email (wire cl) = cl_Email cl \<and>
      cl_Roles (wire cl) = cl_Roles cl \<and> rc_Issuer r' = rc_Issuer r \<and> rc_Subject r' = rc_Subject r \<and> rc_Audience r' = rc_Audience r \<and>
      rc_ID r' = rc_ID r \<and> rc_ExpiresAt r' = map_option date (rc_ExpiresAt r) \<and> rc_NotBefore r' = map_option date (rc_NotBefore r) \<and>
      rc_IssuedAt r' = map_option date (rc_IssuedAt r))"

text \<open>
  C6: A token made by \<open>GenerateToken\<close> and sent as \<open>Authorization: Bearer\<close>, in any letter case of the scheme, is
  accepted by \<open>AuthMiddleware\<close> with the same secret exactly until its lifetime is over and not before the \<open>NotBefore\<close> of
  the claims, if they have one; at other times the reply is 401. The handler then finds the user, tenant, email
  address, roles, issuer, subject, audience and identifier the token was made from, and its lifetime; the custom
  claims are what their JSON text decodes to.
\<close>

theorem token_roundtrip:
  assumes "SetJWTSecret secret = (stored, None)"
    and "GenerateToken sign date stored now claims mins = (claims', Inr tok)"
    and "verifies_own parse sign wire stored" and "carries date wire claims'" and "\<And>t. date (date t) = date t"
    and "gc_header c ''Authorization'' = scheme @ CHR '' '' # tok" and "to_lower scheme = ''bearer''"
    and "AuthMiddleware parse stored now' (replicate n WithAllowQueryToken) c = (c', flow)"
  shows "flow = (if now' < date (time_add now (wrap64 (mins * minute))) \<and>
                    (\<forall>t. rc_NotBefore (cl_Registered claims) = Some t \<longrightarrow> date t \<le> now') then CalledNext else Aborted) \<and>
         (flow = Aborted \<longrightarrow> c' = c\<lparr>gc_reply := Some (401, gin_error ''Invalid or expired token'' ''TOKEN_EXPIRED'')\<rparr>) \<and>
         (flow = CalledNext \<longrightarrow> (\<exists>cl. c' = c\<lparr>gc_keys := (gc_keys c)(''claims'' \<mapsto> VClaims cl)\<rparr> \<and>
            cl_UserID cl = cl_UserID claims \<and> cl_TenantID cl = cl_TenantID claims \<and> cl_Email cl = cl_Email claims \<and> cl_Roles cl = cl_Roles claims \<and>
            cl_Custom cl = cl_Custom (wire claims') \<and>
            cl_Registered cl = (cl_Registered claims)\<lparr>rc_ExpiresAt := Some (date (time_add now (wrap64 (mins * minute)))),
              rc_NotBefore := map_option date (rc_NotBefore (cl_Registered claims)), rc_IssuedAt := Some (date now)\<rparr>))"
proof -
  have s: "stored \<noteq> []" using assms(1) by (auto simp: SetJWTSecret_def trim_space_def split: if_splits)
  with assms(2) have c': "claims' = claims\<lparr>cl_Registered := (cl_Registered claims)\<lparr>rc_ExpiresAt := Some (date (time_add now (wrap64 (mins * minute)))), rc_IssuedAt := Some (date now)\<rparr>\<rparr>"
    and tok: "sign stored claims' = Inr tok"
    by (auto simp: GenerateToken_def getJWTSecret_def Let_def)
  have "scheme \<noteq> []" "CHR '' '' \<notin> set scheme"
    using assms(7) to_lower_no_space [of scheme] by (auto simp: to_lower_def)
  then have x: "extractToken c (0 < n) = tok"
    using assms(6,7) by (simp add: extractToken_def split_space_first)
  have live: "claims_live now' (wire claims') \<longleftrightarrow> now' < date (time_add now (wrap64 (mins * minute))) \<and>
      (\<forall>t. rc_NotBefore (cl_Registered claims) = Some t \<longrightarrow> date t \<le> now')"
    using assms(4,5) by (auto simp: claims_live_def carries_def c' Let_def split: option.splits)
  have reg: "cl_Registered (wire claims') = (cl_Registered claims)\<lparr>rc_ExpiresAt := Some (date (time_add now (wrap64 (mins * minute)))),
      rc_NotBefore := map_option date (rc_NotBefore (cl_Registered claims)), rc_IssuedAt := Some (date now)\<rparr>"
    using assms(4,5) by (simp add: carries_def c' Let_def)
  show ?thesis
  proof (cases "claims_live now' (wire claims')")
    case True
    then have "token_claims parse stored now' (0 < n) c = Some (wire claims')"
      using assms(3) tok s by (simp add: verifies_own_def token_claims_def x)
    then have "c' = c_Set ''claims'' (VClaims (wire claims')) c" "flow = CalledNext"
      using assms(8) by (simp_all add: AuthMiddleware_cases)
    moreover have "cl_UserID (wire claims') = cl_UserID claims" "cl_TenantID (wire claims') = cl_TenantID claims"
      "cl_Email (wire claims') = cl_Email claims" "cl_Roles (wire claims') = cl_Roles claims"
      using assms(4) by (simp_all add: carries_def c' Let_def)
    ultimately show ?thesis using True reg unfolding live c_Set_def by (auto intro!: exI [of _ "wire claims'"])
  next
    case False
    have "tok \<noteq> []" "\<exists>e. parse now' stored tok = Inl e"
      using assms(3) [unfolded verifies_own_def, rule_format, OF tok, of now'] False by simp_all
    then obtain e where "parse now' stored tok = Inl e" "tok \<noteq> []" by blast
    then have "c' = c\<lparr>gc_reply := Some (401, gin_error ''Invalid or expired token'' ''TOKEN_EXPIRED'')\<rparr>" "flow = Aborted"
      using assms(8) s by (auto simp: AuthMiddleware_cases token_claims_def x AbortWithStatusJSON_def)
    with False show ?thesis unfolding live by simp
  qed
qed

text \<open>The lifetime is a product of 64 bits: a token for 300 years has expired before it is made.\<close>

lemma token_lifetime_wraps: "wrap64 (300 * 366 * 24 * 60 * minute) < 0"
  by (simp add: wrap64_def minute_def second_def)

text \<open>A library with one token, which stands for the last claims that were signed.\<close>

definition demo_signed :: Claims where
  "demo_signed = demo_claims\<lparr>cl_Registered := (cl_Registered demo_claims)\<lparr>rc_ExpiresAt := Some (15 * minute), rc_IssuedAt := Some 0\<rparr>\<rparr>"

definition demo_sign :: "string \<Rightarrow> Claims \<Rightarrow> error + string" where
  "demo_sign secret claims = (if claims = demo_signed then Inr ''x'' else Inl (Err ''unsupported''))"

definition demo_verify :: jwt_parse where
  "demo_verify now secret tok = (if claims_live now demo_signed then Inr (demo_signed, True) else Inl (Err ''token is expired''))"

theorem token_roundtrip_witness:
  "snd (AuthMiddleware demo_verify ''s'' 5 (replicate 0 WithAllowQueryToken) (demo_ctx ''BEARER x'')) = CalledNext \<and>
   snd (AuthMiddleware demo_verify ''s'' (16 * minute) (replicate 0 WithAllowQueryToken) (demo_ctx ''BEARER x'')) = Aborted"
proof -
  have a: "SetJWTSecret ''s'' = (''s'', None)" by code_simp
  have b: "GenerateToken demo_sign (\<lambda>t. t) ''s'' 0 demo_claims 15 = (demo_signed, Inr ''x'')"
    by (simp add: GenerateToken_def getJWTSecret_def demo_sign_def demo_signed_def time_add_def wrap64_def minute_def second_def Let_def)
  have c: "verifies_own demo_verify demo_sign (\<lambda>c. c) ''s''" by (simp add: verifies_own_def demo_sign_def demo_verify_def)
  have d: "carries (\<lambda>t. t) (\<lambda>c. c) demo_signed" by (simp add: carries_def option.map_ident Let_def)
  have e: "gc_header (demo_ctx ''BEARER x'') ''Authorization'' = ''BEARER'' @ CHR '' '' # ''x''" by (simp add: demo_ctx_def)
  have f: "to_lower ''BEARER'' = ''bearer''" by code_simp
  note R = token_roundtrip [OF a b c d refl e f prod.collapse [symmetric], of _ 0]
  have "5 < time_add 0 (wrap64 (15 * minute)) \<and> \<not> 16 * minute < time_add 0 (wrap64 (15 * minute))" by code_simp
  moreover have "rc_NotBefore (cl_Registered demo_claims) = Some 0" by (simp add: demo_claims_def)
  moreover have "(0::int) \<le> 5" "0 \<le> 16 * minute" by (simp_all add: minute_def second_def)
  ultimately show ?thesis using R [of 5] R [of "16 * minute"] by simp
qed

section \<open>The tenant of a request\<close>

lemma ExtractTenantID_claims:
  assumes "GetClaims c = Some claims" and "cl_TenantID claims \<noteq> nil_uuid" and "cl_TenantID claims \<noteq> []"
    and "gc_keys c (if key = [] then DefaultTenantContextKey else key) = None"
  shows "ExtractTenantID c key hdr qry = cl_TenantID claims"
  using assms by (simp add: ExtractTenantID_def)

text \<open>
  Behind \<open>AuthMiddleware\<close> and \<open>RequireTenant\<close>, with a token that has a tenant, the handler is run for the tenant
  of the token, whatever the tenant header and the query say, if nothing before the chain has set the
  tenant. A request with no tenant at all, in the token, the header or the query, is answered with 400
  and its handler is not run, unless one of the roles of the token is a bypass role.
\<close>

theorem gin_tenant_of_token:
  assumes "gin_chain run" and "token_claims parse secret now (0 < n) c = Some claims"
    and "to_contextKey (tenant_config opts) = key" and "key \<noteq> []" and "key \<noteq> ''claims''" and "gc_keys c key = None"
  shows "(cl_TenantID claims \<noteq> nil_uuid \<and> cl_TenantID claims \<noteq> [] \<longrightarrow>
          run [AuthMiddleware parse secret now (replicate n WithAllowQueryToken), RequireTenant opts, h] c =
            fst (h (c\<lparr>gc_keys := (gc_keys c)(''claims'' \<mapsto> VClaims claims, key \<mapsto> VString (cl_TenantID claims))\<rparr>))) \<and>
         (cl_TenantID claims = nil_uuid \<and> (\<forall>hdr. trim_space (gc_header c hdr) = []) \<and> (\<forall>qry. trim_space (gc_query c qry) = []) \<and>
          (\<forall>r \<in> set (cl_Roles claims). \<not> in_set_map (to_bypassRoles (tenant_config opts)) (to_upper (trim_space r))) \<longrightarrow>
          run [AuthMiddleware parse secret now (replicate n WithAllowQueryToken), RequireTenant opts, h] c =
            c\<lparr>gc_keys := (gc_keys c)(''claims'' \<mapsto> VClaims claims), gc_reply := Some (400, tenant_error (tenant_config opts))\<rparr>)"
proof -
  let ?c1 = "c_Set ''claims'' (VClaims claims) c" and ?cfg = "tenant_config opts"
  have a: "AuthMiddleware parse secret now (replicate n WithAllowQueryToken) c = (?c1, CalledNext)"
    by (simp add: AuthMiddleware_cases assms(2))
  have k: "gc_keys ?c1 (if key = [] then DefaultTenantContextKey else key) = None"
    using assms(4-6) by (simp add: c_Set_def)
  have given: "RequireTenant opts ?c1 = (c_Set key (VString (cl_TenantID claims)) ?c1, CalledNext)"
    if "cl_TenantID claims \<noteq> nil_uuid" "cl_TenantID claims \<noteq> []"
    using ExtractTenantID_claims [OF GetClaims_Set that k] that(2) assms(3) by (simp add: RequireTenant_def Let_def)
  have missing: "RequireTenant opts ?c1 = AbortWithStatusJSON 400 (tenant_error ?cfg) ?c1"
    if "cl_TenantID claims = nil_uuid" "\<forall>hdr. trim_space (gc_header c hdr) = []" "\<forall>qry. trim_space (gc_query c qry) = []"
      "\<forall>r \<in> set (cl_Roles claims). \<not> in_set_map (to_bypassRoles ?cfg) (to_upper (trim_space r))"
  proof -
    have "gc_header ?c1 = gc_header c" "gc_query ?c1 = gc_query c" by (simp_all add: c_Set_def)
    then have "ExtractTenantID ?c1 key hdr qry = []" for hdr qry
      using k that(1-3) assms(4) by (simp add: ExtractTenantID_def GetClaims_Set)
    with that(4) assms(3) show ?thesis by (simp add: RequireTenant_def GetClaims_Set any_allowed_iff Let_def)
  qed
  note chain = gin_chainD(2) [OF assms(1), of _ "_ # _"] gin_last [OF assms(1)] a
  show ?thesis
    by (intro conjI impI; elim conjE) (simp_all add: chain given missing AbortWithStatusJSON_def, simp_all add: c_Set_def)
qed

theorem gin_tenant_of_token_witness:
  "gc_keys (demo_run [AuthMiddleware demo_parse ''s'' 0 (replicate 0 WithAllowQueryToken), RequireTenant [], demo_handler]
     (demo_ctx ''Bearer good'')) ''tenant_id'' = Some (VString ''t1'')"
proof -
  have "token_claims demo_parse ''s'' 0 (0 < (0::nat)) (demo_ctx ''Bearer good'') = Some demo_claims" by code_simp
  moreover have "to_contextKey (tenant_config []) = ''tenant_id''" by code_simp
  moreover have "cl_TenantID demo_claims \<noteq> nil_uuid" "cl_TenantID demo_claims = ''t1''" by code_simp+
  ultimately show ?thesis
    using gin_tenant_of_token [OF demo_run_chain, of demo_parse "''s''" 0 0 "demo_ctx ''Bearer good''" demo_claims "[]" "''tenant_id''" demo_handler]
    by (auto simp: demo_ctx_def demo_handler_def simp del: demo_run.simps)
qed

text \<open>
  With an empty context key the tenant is looked for under the default key but stored under the empty
  one; the message of the reply names the default header whatever header is configured.
\<close>

lemma tenant_option_gaps:
  "gc_keys (fst (RequireTenant [Some (WithTenantContextKey [])] (demo_ctx []))) = [[] \<mapsto> VString ''evil'']"
  "to_errorMessage (tenant_config [Some (WithTenantHeader ''x-org'')]) = to_errorMessage (tenant_config [])"
proof -
  have "ExtractTenantID (demo_ctx []) [] DefaultTenantHeader DefaultTenantQuery = ''evil''" by code_simp
  then show "gc_keys (fst (RequireTenant [Some (WithTenantContextKey [])] (demo_ctx []))) = [[] \<mapsto> VString ''evil'']"
    by (simp add: RequireTenant_def tenant_config_def WithTenantContextKey_def Let_def c_Set_def) (simp add: demo_ctx_def)
  show "to_errorMessage (tenant_config [Some (WithTenantHeader ''x-org'')]) = to_errorMessage (tenant_config [])"
    by code_simp
qed

section \<open>Origins\<close>

lemma isOriginAllowed_iff:
  "isOriginAllowed origin os \<longleftrightarrow>
     (\<exists>o' \<in> set os. trim_space o' = origin \<or>
        (take 2 (trim_space o') = ''*.'' \<and> has_suffix origin (drop 1 (trim_space o'))))"
  by (induction os) (auto simp: Let_def)

text \<open>The origin is reflected only if it is configured, and a preflight request is answered without a handler.\<close>

lemma CORS_reflects:
  assumes "CORS os c = (c', f)"
  shows "(''Access-Control-Allow-Origin'', v) \<in> set (gc_out c') \<longleftrightarrow>
      (''Access-Control-Allow-Origin'', v) \<in> set (gc_out c) \<or> (v = gc_header c ''Origin'' \<and> v \<noteq> [] \<and> isOriginAllowed v os)"
    and "f = Aborted \<longleftrightarrow> gc_method c = ''OPTIONS''"
  using assms by (auto simp: CORS_def c_Header_def Let_def split: if_splits)

end
