(* ===== verification/Gin_Idempotency.thy ===== *)
theory Gin_Idempotency
  imports Gin Idem_Postgres
begin

text \<open>
  The idempotency middleware for Gin (\<open>src/ginmw/idempotency.go\<close>), before the handler (\<open>gin_begin\<close>) and after it
  (\<open>gin_end\<close>), over any store with the contract \<open>idem_store\<close>: it is a second middleware of the shape
  \<open>idem_server\<close>, so the theorems of that locale hold for it over the in-memory store and over PostgreSQL.
  Unlike the middleware of package \<open>idempotency\<close> it does not trim the key, serves every method, releases
  the key when the handler aborts or fails with a server error, and when the response cannot be saved.
\<close>

text \<open>
  The writer that the handler gets: it appends what is written to its buffer and passes it on.
\<close>

record responseBuffer =
  rb_sent :: string
  rb_body :: string

definition rb_Write :: "string \<Rightarrow> responseBuffer \<Rightarrow> responseBuffer" where
  "rb_Write b w = w\<lparr>rb_body := rb_body w @ b, rb_sent := rb_sent w @ b\<rparr>"

definition rb_WriteString :: "string \<Rightarrow> responseBuffer \<Rightarrow> responseBuffer" where
  "rb_WriteString s w = w\<lparr>rb_body := rb_body w @ s, rb_sent := rb_sent w @ s\<rparr>"

lemma buffer_keeps_what_is_sent:
  assumes "\<forall>f \<in> set ws. \<exists>b. f = rb_Write b \<or> f = rb_WriteString b"
  shows "rb_sent (fold (\<lambda>f w. f w) ws \<lparr>rb_sent = [], rb_body = []\<rparr>) = rb_body (fold (\<lambda>f w. f w) ws \<lparr>rb_sent = [], rb_body = []\<rparr>)"
proof -
  have "rb_sent (fold (\<lambda>f w. f w) ws w) = rb_body (fold (\<lambda>f w. f w) ws w)" if "rb_sent w = rb_body w" for w
    using assms that by (induction ws arbitrary: w) (auto simp: rb_Write_def rb_WriteString_def)
  then show ?thesis by simp
qed

text \<open>
  How a handler ended: it panicked, or it returned with what it wrote, and whether it aborted.
\<close>

datatype gin_outcome = GPanicked | GReturned bool Response

definition replayIdempotentResponse :: "Response \<Rightarrow> reply" where
  "replayIdempotentResponse res =
     \<lparr>r_StatusCode = r_StatusCode res,
      r_Headers = fold (\<lambda>(k, values) h. fold (header_add k) values h) (r_Headers res) [],
      r_Body = r_Body res\<rparr>"

definition gin_json_reply :: "int \<Rightarrow> string \<Rightarrow> reply" where
  "gin_json_reply code body =
     \<lparr>r_StatusCode = code, r_Headers = [(''Content-Type'', [''application/json; charset=utf-8''])], r_Body = body\<rparr>"

definition gin_begin :: "(string \<Rightarrow> 's \<Rightarrow> 's \<times> (error + bool \<times> Record option)) \<Rightarrow> gin_ctx \<Rightarrow> 's \<Rightarrow> 's \<times> mw_action" where
  "gin_begin lock c s =
     (let key = gc_header c ''Idempotency-Key'' in
      if key = [] then (s, PassThrough)
      else
        case lock key s of
          (s1, Inl _) \<Rightarrow> (s1, Answer (gin_json_reply 500 ''{\"error\":\"idempotency store error\"}''))
        | (s1, Inr (True, Some record)) \<Rightarrow>
            (s1,
             if rec_Status record = StatusInProgress
             then Answer (gin_json_reply 409 ''{\"error\":\"idempotent operation already in progress\"}'')
             else if rec_Status record = StatusCompleted
             then (case rec_Response record of Some resp \<Rightarrow> Answer (replayIdempotentResponse resp) | None \<Rightarrow> RunHandler key)
             else RunHandler key)
        | (s1, Inr _) \<Rightarrow> (s1, RunHandler key))"

definition unlockIdempotencyLock :: "(string \<Rightarrow> 's \<Rightarrow> 's \<times> ctx_err) \<Rightarrow> string \<Rightarrow> 's \<Rightarrow> 's" where
  "unlockIdempotencyLock unlock key s = fst (unlock key s)"

definition gin_end ::
  "(string \<Rightarrow> Response \<Rightarrow> 's \<Rightarrow> 's \<times> ctx_err) \<Rightarrow> (string \<Rightarrow> 's \<Rightarrow> 's \<times> ctx_err) \<Rightarrow> string \<Rightarrow> gin_outcome \<Rightarrow> 's \<Rightarrow> 's" where
  "gin_end save unlock key out s =
     (case out of
        GPanicked \<Rightarrow> unlockIdempotencyLock unlock key s
      | GReturned aborted res \<Rightarrow>
          if aborted \<or> r_StatusCode res \<ge> 500 then unlockIdempotencyLock unlock key s
          else case save key res s of
                 (s1, Some err) \<Rightarrow> unlockIdempotencyLock unlock key s1
               | (s1, None) \<Rightarrow> s1)"

sublocale idem_store \<subseteq> gin: idem_server
  "\<lambda>ctx now. gin_begin (lock ctx now)" "\<lambda>ctx now. gin_end (save ctx now) (unlock ctx)" lookup during inv
proof (unfold_locales, goal_cases)
  case (1 s now ctx c s' a)
  let ?k = "gc_header c ''Idempotency-Key''"
  show ?case
  proof (cases "?k = [] \<or> ctx \<noteq> None")
    case True
    with 1(3) show ?thesis
      using lock_ended [of "the ctx" now ?k s] by (auto simp: gin_begin_def Let_def split: if_splits)
  next
    case False
    show ?thesis
    proof (cases "lookup s ?k")
      case None
      obtain s1 x where l: "lock None now ?k s = (s1, x)" by fastforce
      with lock_new [OF 1(1,2) _ None] False 1(3) None show ?thesis by (auto simp: gin_begin_def Let_def)
    next
      case (Some rr)
      have "rec_Response rr \<noteq> None" if "rec_Status rr = StatusCompleted"
        using completed_response [OF 1(1) Some that] .
      with lock_old [OF 1(1,2) _ Some] False 1(3) show ?thesis
        by (cases "rec_Status rr") (auto simp: gin_begin_def Let_def split: if_splits)
    qed
  qed
next
  case (2 s now k ctx out)
  show ?case
  proof (cases out)
    case GPanicked
    with 2 unlock_live [OF 2(1,3)] show ?thesis
      by (cases ctx) (auto simp: gin_end_def unlockIdempotencyLock_def intro: fun_upd_idem [symmetric])
  next
    case (GReturned aborted res)
    with 2 save_live [OF 2(1,2,3), of res] unlock_live [OF 2(1,3)] save_ended [of "the ctx" now k res s] show ?thesis
      by (cases ctx; cases "save ctx now k res s")
        (auto simp: gin_end_def unlockIdempotencyLock_def intro: fun_upd_idem [symmetric] split: option.splits)
  qed
qed

context idem_store
begin

lemma gin_begin_old:
  assumes "inv s" and "during now" and "lookup s k = Some r" and "gc_header c ''Idempotency-Key'' = k" and "k \<noteq> []"
  shows "gin_begin (lock None now) c s =
    (s, if rec_Status r = StatusInProgress then Answer (gin_json_reply 409 ''{\"error\":\"idempotent operation already in progress\"}'')
        else case rec_Response r of Some resp \<Rightarrow> Answer (replayIdempotentResponse resp) | None \<Rightarrow> RunHandler k)"
  using assms lock_old [OF assms(1,2,5,3)] by (cases "rec_Status r") (auto simp: gin_begin_def split: option.splits)

lemma gin_end_ended: "gin_end (save (Some e) now) (unlock (Some e)) k out s = s"
  using save_ended [of e now k _ s] by (auto simp: gin_end_def unlockIdempotencyLock_def split: gin_outcome.splits prod.splits option.splits) (metis ended_same(2) fst_conv)+

end

abbreviation gin_m_step :: "rec_order \<Rightarrow> MemoryStore server \<Rightarrow> MemoryStore server \<Rightarrow> bool" where
  "gin_m_step order \<equiv> idem_step (\<lambda>now. True) (\<lambda>ctx now. gin_begin (m_Lock order ctx now))
     (\<lambda>ctx now. gin_end (m_Save order ctx now) (m_Unlock ctx))"

abbreviation gin_pg_step :: "pg_db \<Rightarrow> PGStore \<Rightarrow> time \<Rightarrow> idem_table server \<Rightarrow> idem_table server \<Rightarrow> bool" where
  "gin_pg_step db s t0 \<equiv> idem_step (within_lease db s t0) (\<lambda>ctx now. gin_begin (pg_Lock db s ctx now))
     (\<lambda>ctx now. gin_end (pg_Save db s (ctx_fault ctx) now) (pg_Unlock (ctx_fault ctx)))"

text \<open>
  The Gin middleware over the in-memory store. However requests interleave, whatever contexts end and
  however handlers end, at most one handler runs per key; once a response is stored, no handler of the
  key is started again and every later request with the key gets the stored response.
\<close>

theorem gin_idem_at_most_once:
  assumes "(gin_m_step order)\<^sup>*\<^sup>* (server_start (NewMemoryStore [])) v"
  shows "distinct (v_running v) \<and>
    (\<forall>k resp v'. m_lookup (v_store v) k = Some \<lparr>rec_Status = StatusCompleted, rec_Response = Some resp\<rparr> \<and>
       (gin_m_step order)\<^sup>*\<^sup>* v v' \<longrightarrow>
       v_started v' k = v_started v k \<and> k \<notin> set (v_running v') \<and>
       (\<forall>c now. gc_header c ''Idempotency-Key'' = k \<and> k \<noteq> [] \<longrightarrow>
          gin_begin (m_Lock order None now) c (v_store v') = (v_store v', Answer (replayIdempotentResponse resp))))"
proof -
  have "ms.gin.srv_inv v" by (rule ms.gin.run_inv [OF assms ms.gin.start_inv [OF m_unlimited_New(1)]])
  then have "distinct (v_running v)" by (rule ms.gin.srv_invD(2))
  moreover have "v_started v' k = v_started v k \<and> k \<notin> set (v_running v') \<and>
      (\<forall>c now. gc_header c ''Idempotency-Key'' = k \<and> k \<noteq> [] \<longrightarrow>
         gin_begin (m_Lock order None now) c (v_store v') = (v_store v', Answer (replayIdempotentResponse resp)))"
    if k: "m_lookup (v_store v) k = Some \<lparr>rec_Status = StatusCompleted, rec_Response = Some resp\<rparr>"
      and r: "(gin_m_step order)\<^sup>*\<^sup>* v v'" for k resp v'
    using ms.gin.completed_for_good [OF assms m_unlimited_New(1) r k] ms.gin_begin_old [of "v_store v'"] by simp
  ultimately show ?thesis by blast
qed

text \<open>The same over PostgreSQL, during one lease.\<close>

lemma gin_pg_at_most_once:
  assumes "keeps_time_order db" and "encodes_headers db" and "(gin_pg_step db s t0)\<^sup>*\<^sup>* (server_start Map.empty) v"
  shows "distinct (v_running v)"
    and "pg_lookup db (v_store v) k = Some r \<Longrightarrow> rec_Status r = StatusCompleted \<Longrightarrow> (gin_pg_step db s t0)\<^sup>*\<^sup>* v v' \<Longrightarrow>
      pg_lookup db (v_store v') k = Some r \<and> k \<notin> set (v_running v') \<and> v_started v' k = v_started v k"
proof -
  have e: "pg_live db s t0 Map.empty" using assms(1,2) by (simp add: pg_live_def)
  have "pgs.gin.srv_inv db s t0 v" by (rule pgs.gin.run_inv [OF assms(3) pgs.gin.start_inv [OF e]])
  then show "distinct (v_running v)" by (rule pgs.gin.srv_invD(2))
  show "pg_lookup db (v_store v) k = Some r \<Longrightarrow> rec_Status r = StatusCompleted \<Longrightarrow> (gin_pg_step db s t0)\<^sup>*\<^sup>* v v' \<Longrightarrow>
      pg_lookup db (v_store v') k = Some r \<and> k \<notin> set (v_running v') \<and> v_started v' k = v_started v k"
    using pgs.gin.completed_for_good [OF assms(3) e] by blast
qed

text \<open>
  A request whose context ends while its handler runs leaves its key in progress here too: neither \<open>Save\<close> nor
  the \<open>Unlock\<close> after it is carried out, and no handler of the key starts again if locks have no lifetime.
\<close>

lemma gin_ended_context_blocks_key:
  assumes "(gin_m_step order)\<^sup>*\<^sup>* (server_start (NewMemoryStore [])) v" and "k \<in> set (v_running v)"
    and "(gin_m_step order)\<^sup>*\<^sup>*
      (v\<lparr>v_store := gin_end (m_Save order (Some e) now) (m_Unlock (Some e)) k out (v_store v), v_running := remove1 k (v_running v)\<rparr>) v'"
  shows "v_started v' k = v_started v k \<and> m_lookup (v_store v') k = Some in_progress"
proof -
  have "ms.gin.srv_inv v" by (rule ms.gin.run_inv [OF assms(1) ms.gin.start_inv [OF m_unlimited_New(1)]])
  from ms.gin.abandoned_for_good [OF this assms(2) assms(3) [unfolded ms.gin_end_ended, simplified]] show ?thesis by simp
qed

section \<open>A run\<close>

definition gin_demo_ctx :: gin_ctx where
  "gin_demo_ctx = (demo_ctx [])\<lparr>gc_header := (\<lambda>h. if h = ''Idempotency-Key'' then ''k'' else [])\<rparr>"

definition gin_demo_done :: "MemoryStore server" where
  "gin_demo_done =
     demo_running\<lparr>v_store := gin_end (m_Save (\<lambda>d. d) None 2) (m_Unlock None) ''k'' (GReturned False demo_reply) (v_store demo_running),
                  v_running := remove1 ''k'' (v_running demo_running)\<rparr>"

lemma gin_demo_reach: "(gin_m_step (\<lambda>d. d))\<^sup>*\<^sup>* (server_start (NewMemoryStore [])) gin_demo_done"
proof -
  have "gin_begin (m_Lock (\<lambda>d. d) None 1) gin_demo_ctx (NewMemoryStore []) = (v_store demo_running, RunHandler ''k'')"
    by (simp add: prod_eq_iff) code_simp
  then have "gin_begin (m_Lock (\<lambda>d. d) None 1) gin_demo_ctx (v_store (server_start (NewMemoryStore []))) = (v_store demo_running, RunHandler ''k'')"
    by (simp add: server_start_def)
  from step_start [where during = "\<lambda>now. True" and begin_fn = "\<lambda>ctx now. gin_begin (m_Lock (\<lambda>d. d) ctx now)", OF TrueI this]
  have 1: "gin_m_step (\<lambda>d. d) (server_start (NewMemoryStore [])) demo_running"
    by (simp add: demo_running_def server_start_def)
  have "''k'' \<in> set (v_running demo_running)" by (simp add: demo_running_def)
  from step_end [where during = "\<lambda>now. True" and end_fn = "\<lambda>ctx now. gin_end (m_Save (\<lambda>d. d) ctx now) (m_Unlock ctx)"
      and ctx = None and now = 2 and out = "GReturned False demo_reply", OF TrueI this]
  have "gin_m_step (\<lambda>d. d) demo_running gin_demo_done" by (simp add: gin_demo_done_def)
  with 1 show ?thesis by (meson converse_rtranclp_into_rtranclp r_into_rtranclp)
qed

theorem gin_idem_at_most_once_witness:
  "gin_begin (m_Lock (\<lambda>d. d) None 3) gin_demo_ctx (v_store gin_demo_done) =
     (v_store gin_demo_done, Answer (replayIdempotentResponse demo_reply))"
proof -
  have "m_lookup (v_store gin_demo_done) ''k'' = Some \<lparr>rec_Status = StatusCompleted, rec_Response = Some demo_reply\<rparr>" by code_simp
  moreover have "gc_header gin_demo_ctx ''Idempotency-Key'' = ''k''" by (simp add: gin_demo_ctx_def)
  ultimately show ?thesis using gin_idem_at_most_once [OF gin_demo_reach] by blast
qed

end
