(* ===== verification/Gin_Rate_Limit.thy ===== *)
theory Gin_Rate_Limit
  imports Gin Rate_Middleware Pg_Rate_Limiter
begin

text \<open>
  The rate limiting adapters for Gin (\<open>src/ginmw/ratelimit.go\<close>). \<open>RateLimitWithLimiter\<close> asks any limiter and aborts
  the chain when it refuses. \<open>GlobalRateLimit\<close> and \<open>AuthRateLimit\<close> wrap the packaged \<open>net/http\<close> middleware around
  a handler that does nothing, with \<open>gin.WrapH\<close>, which serves the request and returns.
\<close>

definition RateLimitWithLimiter ::
  "(time \<Rightarrow> string \<Rightarrow> 'l \<Rightarrow> 'l \<times> bool) \<Rightarrow> (time \<Rightarrow> string \<Rightarrow> 'l \<Rightarrow> 'l \<times> int) \<Rightarrow> (gin_ctx \<Rightarrow> string) \<Rightarrow>
   (gin_ctx \<Rightarrow> string) option list \<Rightarrow> time \<Rightarrow> 'l \<Rightarrow> gin_ctx \<Rightarrow> 'l \<times> gin_ctx \<times> gin_flow" where
  "RateLimitWithLimiter allow remaining clientIP keyFunc now l c =
     (let kf = (case keyFunc of Some f # _ \<Rightarrow> f | _ \<Rightarrow> clientIP); key = kf c; (l1, ok) = allow now key l in
      if \<not> ok then
        (l1, AbortWithStatusJSON 429 (gin_error ''too many requests'' ''RATE_LIMITED'')
               (c_Header ''Retry-After'' ''1'' (c_Header ''X-RateLimit-Remaining'' ''0'' (c_Header ''RateLimit-Remaining'' ''0'' c))))
      else
        let (l2, rem) = remaining now key l1 in
        (l2, c_Header ''X-RateLimit-Remaining'' (itoa rem) (c_Header ''RateLimit-Remaining'' (itoa rem) c), CalledNext))"

text \<open>
  \<open>gin.WrapH\<close> is the parameter \<open>wrapH\<close>: how the context is left after the wrapped \<open>net/http\<close> middleware forwarded the
  request to the handler that does nothing, or answered it. The middleware keeps its limiter between requests;
  it starts as \<open>rl_NewGlobal\<close> or \<open>rl_NewAuth\<close>.
\<close>

definition GlobalRateLimit ::
  "(mw_result \<Rightarrow> gin_mw) \<Rightarrow> ('ip, 'net) net_ops \<Rightarrow> time \<Rightarrow> Real_IP.http_request \<Rightarrow> 'net rl_mw \<Rightarrow> gin_ctx \<Rightarrow>
   'net rl_mw \<times> gin_ctx \<times> gin_flow" where
  "GlobalRateLimit wrapH net now r m c = (let (m', res) = rl_serve net now r m in (m', wrapH res c))"

definition AuthRateLimit ::
  "(mw_result \<Rightarrow> gin_mw) \<Rightarrow> ('ip, 'net) net_ops \<Rightarrow> time \<Rightarrow> Real_IP.http_request \<Rightarrow> 'net rl_mw \<Rightarrow> gin_ctx \<Rightarrow>
   'net rl_mw \<times> gin_ctx \<times> gin_flow" where
  "AuthRateLimit wrapH net now r m c = (let (m', res) = rl_serve net now r m in (m', wrapH res c))"

text \<open>What the framework documents of \<open>WrapH\<close>: it serves the request with the handler and returns, without aborting the chain.\<close>

definition only_serves :: "(mw_result \<Rightarrow> gin_mw) \<Rightarrow> bool" where
  "only_serves wrapH \<longleftrightarrow> (\<forall>res c. snd (wrapH res c) = Returned)"

definition toy_wrapH :: "mw_result \<Rightarrow> gin_mw" where
  "toy_wrapH res c =
     (case res of
        Forwarded hs \<Rightarrow> (c\<lparr>gc_out := gc_out c @ hs\<rparr>, Returned)
      | Answered code hs body \<Rightarrow> (c\<lparr>gc_out := gc_out c @ hs, gc_reply := Some (code, JStr body)\<rparr>, Returned))"

lemma toy_wrapH_only_serves: "only_serves toy_wrapH"
  by (simp add: only_serves_def toy_wrapH_def split: mw_result.splits)

section \<open>A limiter that is asked by the adapter\<close>

text \<open>Requests with these contexts, at one moment; which of them reach their handler.\<close>

fun gin_burst where
  "gin_burst allow remaining clientIP now [] l = (l, [])"
| "gin_burst allow remaining clientIP now (c # cs) l =
     (let (l1, c', fl) = RateLimitWithLimiter allow remaining clientIP [] now l c;
          (l2, fs) = gin_burst allow remaining clientIP now cs l1
      in (l2, (fl \<noteq> Aborted) # fs))"

lemma RateLimitWithLimiter_same:
  "NewWithLimiter allow remaining clientIP now c l = (l', res) \<Longrightarrow>
   fst (RateLimitWithLimiter allow remaining clientIP [] now l c) = l' \<and>
   (snd (snd (RateLimitWithLimiter allow remaining clientIP [] now l c)) \<noteq> Aborted \<longleftrightarrow> forwarded res)"
  by (auto simp: NewWithLimiter_def RateLimitWithLimiter_def AbortWithStatusJSON_def forwarded_def Let_def split: prod.splits if_splits)

lemma NewWithLimiter_key: "NewWithLimiter allow remaining kf now c = NewWithLimiter allow remaining (\<lambda>k. k) now (kf c)"
  by (simp add: NewWithLimiter_def fun_eq_iff)

lemma gin_burst_same:
  "gin_burst allow remaining clientIP now cs l =
     (let (l', rs) = mw_burst allow remaining now (map clientIP cs) l in (l', map forwarded rs))"
proof (induction cs arbitrary: l)
  case (Cons c cs)
  obtain l1 res where n: "NewWithLimiter allow remaining (\<lambda>k. k) now (clientIP c) l = (l1, res)" by fastforce
  obtain c' fl where r: "RateLimitWithLimiter allow remaining clientIP [] now l c = (l1, c', fl)" "fl \<noteq> Aborted \<longleftrightarrow> forwarded res"
    using RateLimitWithLimiter_same [OF n [folded NewWithLimiter_key [of allow remaining clientIP now c]]]
    by (cases "RateLimitWithLimiter allow remaining clientIP [] now l c") auto
  obtain l2 rs where b: "mw_burst allow remaining now (map clientIP cs) l1 = (l2, rs)" by fastforce
  then have "gin_burst allow remaining clientIP now cs l1 = (l2, map forwarded rs)" using Cons.IH [of l1] by simp
  with n r b show ?case by simp
qed simp

lemma zip_map_forwarded:
  "length (filter (\<lambda>(c, f). kf c = k \<and> f) (zip cs (map forwarded rs))) =
   length (filter (\<lambda>(k', r). k' = k \<and> forwarded r) (zip (map kf cs) rs))"
  by (induction cs rs rule: list_induct2') auto

text \<open>
  \<open>RateLimitWithLimiter\<close> over a limiter with the contract, here the one on a PostgreSQL table and the token
  bucket: of a burst of requests with any contexts, no more requests of a key reach their handlers than
  the limiter has left for that key.
\<close>

theorem gin_rate_limit_burst:
  "(pl_ok s \<longrightarrow>
     int (length (filter (\<lambda>(c, f). clientIP c = k \<and> f)
       (zip cs (snd (gin_burst (\<lambda>now k. pls_AllowN now k 1) pls_Remaining clientIP now cs s))))) \<le> max 0 (pl_avail now k s)) \<and>
   (tb_good now l \<longrightarrow>
     int (length (filter (\<lambda>(c, f). clientIP c = k \<and> f)
       (zip cs (snd (gin_burst (\<lambda>now k. tb_AllowN now k 1) tb_Remaining clientIP now cs l))))) \<le> max 0 (tb_avail now k l))"
  using pgl.burst_bound [of s now "map clientIP cs" k] tbl.burst_bound [of now l "map clientIP cs" k]
  by (simp add: gin_burst_same zip_map_forwarded split_beta)

theorem gin_rate_limit_burst_witness:
  "int (length (filter (\<lambda>(c, f). (\<lambda>c. ''k'') c = ''k'' \<and> f)
     (zip (replicate 3 (demo_ctx [])) (snd (gin_burst (\<lambda>now k. pls_AllowN now k 1) pls_Remaining (\<lambda>c. ''k'') 5
        (replicate 3 (demo_ctx [])) (two_per_second, Map.empty)))))) \<le> max 0 (pl_avail 5 ''k'' (two_per_second, Map.empty))"
proof -
  have "exact_window two_per_second" by code_simp
  then have "pl_ok (two_per_second, Map.empty)" by (simp add: pl_ok_def rows_ok_def two_per_second_def)
  with gin_rate_limit_burst [of "(two_per_second, Map.empty)" "\<lambda>c. ''k''" "''k''" "replicate 3 (demo_ctx [])" 5]
  show ?thesis by blast
qed

section \<open>The wrapped limiters do not limit\<close>

text \<open>
  \<open>GlobalRateLimit\<close> and \<open>AuthRateLimit\<close> never keep a request from its handler: whatever the state of the
  limiter, the chain goes on behind them, also after the wrapped middleware has answered with 429.
\<close>

theorem gin_wrapped_limiters_never_block:
  assumes "gin_chain run" and "only_serves wrapH"
  shows "run [\<lambda>c. snd (GlobalRateLimit wrapH net now r m c), h] c = fst (h (fst (snd (GlobalRateLimit wrapH net now r m c)))) \<and>
         run [\<lambda>c. snd (AuthRateLimit wrapH net now r m c), h] c = fst (h (fst (snd (AuthRateLimit wrapH net now r m c))))"
proof -
  obtain m' res where m: "rl_serve net now r m = (m', res)" by fastforce
  obtain c' where c: "wrapH res c = (c', Returned)" using assms(2) by (metis only_serves_def prod.collapse)
  show ?thesis
    by (simp add: gin_chainD(2) [OF assms(1), of _ "_ # _"] gin_last [OF assms(1)] GlobalRateLimit_def AuthRateLimit_def m c)
qed

text \<open>After ten requests of one client within a minute the limiter of \<open>AuthRateLimit\<close> answers 429; the handler still runs.\<close>

definition exhausted_auth :: "string rl_mw" where
  "exhausted_auth = rl_run toy_net (replicate 10 (0, rl_req ''9.9.9.9'')) (rl_NewAuth 0 [])"

theorem gin_wrapped_limiters_never_block_witness:
  "\<not> forwarded (snd (rl_serve toy_net 0 (rl_req ''9.9.9.9'') exhausted_auth)) \<and>
   gc_reply (demo_run [\<lambda>c. snd (AuthRateLimit toy_wrapH toy_net 0 (rl_req ''9.9.9.9'') exhausted_auth c), demo_handler] (demo_ctx [])) =
     Some (200, JObj [])"
proof -
  have "\<not> forwarded (snd (rl_serve toy_net 0 (rl_req ''9.9.9.9'') exhausted_auth))" by code_simp
  with gin_wrapped_limiters_never_block [OF demo_run_chain toy_wrapH_only_serves, of toy_net 0 "rl_req ''9.9.9.9''" exhausted_auth demo_handler "demo_ctx []"]
  show ?thesis by (simp add: demo_handler_def del: demo_run.simps)
qed

end
