(* ===== verification/Gin_Metrics.thy ===== *)
theory Gin_Metrics
  imports Go_Strings "HOL-Library.Word" "HOL-Library.Sublist"
begin

text \<open>
  The request metrics for Gin (\<open>src/ginmw/red_metrics.go\<close>).
  The counters are 64-bit words that are changed by atomic additions: each addition is one step of its
  request, and the steps of concurrent requests interleave. The clock of the process and the numbers of an
  endpoint's reply that it reads are arguments.
\<close>

section \<open>Counters\<close>

record MetricsTracker =
  mt_RequestsTotal :: "64 word"
  mt_ErrorsTotal :: "64 word"
  mt_Status2xx :: "64 word"
  mt_Status4xx :: "64 word"
  mt_Status5xx :: "64 word"
  mt_ActiveRequests :: "64 word"
  mt_DurationSumMs :: "64 word"

definition new_tracker :: MetricsTracker where
  "new_tracker = \<lparr>mt_RequestsTotal = 0, mt_ErrorsTotal = 0, mt_Status2xx = 0, mt_Status4xx = 0, mt_Status5xx = 0,
     mt_ActiveRequests = 0, mt_DurationSumMs = 0\<rparr>"

text \<open>
  Where a request is: not counted yet, counted, active, returned from its handler (with its status and
  duration), no longer active, summed up, in its status class, done.
\<close>

datatype red_req =
    RqNew | RqCounted | RqActive | RqReturned int int | RqInactive int int | RqSummed int int | RqClassed int int | RqDone int int

fun class_count :: "int \<Rightarrow> MetricsTracker \<Rightarrow> MetricsTracker" where
  "class_count status t =
     (if 200 \<le> status \<and> status < 300 then t\<lparr>mt_Status2xx := mt_Status2xx t + 1\<rparr>
      else if 400 \<le> status \<and> status < 500 then t\<lparr>mt_Status4xx := mt_Status4xx t + 1\<rparr>
      else if status \<ge> 500 then t\<lparr>mt_Status5xx := mt_Status5xx t + 1\<rparr>
      else t)"

definition error_count :: "int \<Rightarrow> MetricsTracker \<Rightarrow> MetricsTracker" where
  "error_count status t = (if status \<ge> 400 then t\<lparr>mt_ErrorsTotal := mt_ErrorsTotal t + 1\<rparr> else t)"

text \<open>The steps of \<open>REDMetrics\<close> for one request; the deferred function runs also if the handler panics.\<close>

inductive red_act :: "red_req \<Rightarrow> MetricsTracker \<Rightarrow> red_req \<Rightarrow> MetricsTracker \<Rightarrow> bool" where
  count_request: "red_act RqNew t RqCounted (t\<lparr>mt_RequestsTotal := mt_RequestsTotal t + 1\<rparr>)"
| activate: "red_act RqCounted t RqActive (t\<lparr>mt_ActiveRequests := mt_ActiveRequests t + 1\<rparr>)"
| handler_ends: "red_act RqActive t (RqReturned status ms) t"
| deactivate: "red_act (RqReturned status ms) t (RqInactive status ms) (t\<lparr>mt_ActiveRequests := mt_ActiveRequests t + (- 1)\<rparr>)"
| add_duration: "red_act (RqInactive status ms) t (RqSummed status ms) (t\<lparr>mt_DurationSumMs := mt_DurationSumMs t + of_int ms\<rparr>)"
| count_class: "red_act (RqSummed status ms) t (RqClassed status ms) (class_count status t)"
| count_error: "red_act (RqClassed status ms) t (RqDone status ms) (error_count status t)"

record red_sys =
  rs_reqs :: "red_req list"
  rs_tracker :: MetricsTracker

inductive red_step :: "red_sys \<Rightarrow> red_sys \<Rightarrow> bool" where
  arrives: "red_step s (s\<lparr>rs_reqs := rs_reqs s @ [RqNew]\<rparr>)"
| acts: "i < length (rs_reqs s) \<Longrightarrow> red_act (rs_reqs s ! i) (rs_tracker s) r t \<Longrightarrow>
    red_step s (s\<lparr>rs_reqs := (rs_reqs s)[i := r], rs_tracker := t\<rparr>)"

definition red_start :: red_sys where
  "red_start = \<lparr>rs_reqs = [], rs_tracker = new_tracker\<rparr>"

section \<open>The endpoint\<close>

definition nl :: string where "nl = [CHR 10]"
definition quoted :: "string \<Rightarrow> string" where "quoted s = CHR 0x22 # s @ [CHR 0x22]"

definition u64 :: "64 word \<Rightarrow> string" where "u64 w = itoa (uint w)"
definition i64 :: "64 word \<Rightarrow> string" where "i64 w = itoa (sint w)"

definition metrics_text :: "int \<Rightarrow> MetricsTracker \<Rightarrow> string" where
  "metrics_text uptime t =
     ''# HELP app_uptime_seconds Total service uptime in seconds'' @ nl @
     ''# TYPE app_uptime_seconds gauge'' @ nl @
     ''app_uptime_seconds '' @ itoa uptime @ nl @ nl @
     ''# HELP http_requests_total Total number of HTTP requests processed'' @ nl @
     ''# TYPE http_requests_total counter'' @ nl @
     ''http_requests_total '' @ u64 (mt_RequestsTotal t) @ nl @ nl @
     ''# HELP http_errors_total Total number of failed HTTP requests'' @ nl @
     ''# TYPE http_errors_total counter'' @ nl @
     ''http_errors_total '' @ u64 (mt_ErrorsTotal t) @ nl @ nl @
     ''# HELP http_status_total HTTP responses partitioned by status class'' @ nl @
     ''# TYPE http_status_total counter'' @ nl @
     ''http_status_total{class='' @ quoted ''2xx'' @ ''} '' @ u64 (mt_Status2xx t) @ nl @
     ''http_status_total{class='' @ quoted ''4xx'' @ ''} '' @ u64 (mt_Status4xx t) @ nl @
     ''http_status_total{class='' @ quoted ''5xx'' @ ''} '' @ u64 (mt_Status5xx t) @ nl @ nl @
     ''# HELP http_active_requests Current number of in-flight HTTP requests'' @ nl @
     ''# TYPE http_active_requests gauge'' @ nl @
     ''http_active_requests '' @ i64 (mt_ActiveRequests t) @ nl @ nl @
     ''# HELP http_duration_sum_ms Total request processing time in milliseconds'' @ nl @
     ''# TYPE http_duration_sum_ms counter'' @ nl @
     ''http_duration_sum_ms '' @ i64 (mt_DurationSumMs t) @ nl"

definition metrics_json :: "int \<Rightarrow> MetricsTracker \<Rightarrow> (string \<times> int) list" where
  "metrics_json uptime t =
     [(''uptime_seconds'', uptime),
      (''http_requests_total'', uint (mt_RequestsTotal t)),
      (''http_errors_total'', uint (mt_ErrorsTotal t)),
      (''http_status_2xx_total'', uint (mt_Status2xx t)),
      (''http_status_4xx_total'', uint (mt_Status4xx t)),
      (''http_status_5xx_total'', uint (mt_Status5xx t)),
      (''http_active_requests'', sint (mt_ActiveRequests t)),
      (''http_duration_sum_ms'', sint (mt_DurationSumMs t))]"

text \<open>The loads of one reply are taken from \<open>t\<close>, which is the state of the tracker if nothing runs in between.\<close>

definition MetricsEndpoint :: "string \<Rightarrow> string \<Rightarrow> int \<Rightarrow> MetricsTracker \<Rightarrow> (string \<times> int) list + string" where
  "MetricsEndpoint accept format uptime t =
     (if sublist ''application/json'' accept \<or> format = ''json'' then Inl (metrics_json uptime t) else Inr (metrics_text uptime t))"

section \<open>Exactness\<close>

lemma sum_list_update_group:
  fixes xs :: "'a::ab_group_add list"
  shows "i < length xs \<Longrightarrow> sum_list (xs[i := x]) = sum_list xs + (x - xs ! i)"
  by (induction xs arbitrary: i) (auto simp: algebra_simps split: nat.splits simp: nth_Cons)

lemma sum_list_indicator: "sum_list (map (\<lambda>x. if P x then 1 else 0) xs) = (of_nat (length (filter P xs)) :: 64 word)"
  by (induction xs) simp_all

fun rq_counted :: "red_req \<Rightarrow> bool" where
  "rq_counted RqNew = False"
| "rq_counted _ = True"

fun rq_active :: "red_req \<Rightarrow> bool" where
  "rq_active RqActive = True"
| "rq_active (RqReturned _ _) = True"
| "rq_active _ = False"

fun rq_classed :: "red_req \<Rightarrow> int option" where
  "rq_classed (RqClassed status ms) = Some status"
| "rq_classed (RqDone status ms) = Some status"
| "rq_classed _ = None"

fun rq_done :: "red_req \<Rightarrow> int option" where
  "rq_done (RqDone status ms) = Some status"
| "rq_done _ = None"

fun rq_ms :: "red_req \<Rightarrow> int" where
  "rq_ms (RqSummed status ms) = ms"
| "rq_ms (RqClassed status ms) = ms"
| "rq_ms (RqDone status ms) = ms"
| "rq_ms _ = 0"

definition in_class :: "int \<Rightarrow> int \<Rightarrow> red_req \<Rightarrow> bool" where
  "in_class lo hi r \<longleftrightarrow> (case rq_classed r of Some status \<Rightarrow> lo \<le> status \<and> status < hi | None \<Rightarrow> False)"

definition ended_ge :: "int \<Rightarrow> (red_req \<Rightarrow> int option) \<Rightarrow> red_req \<Rightarrow> bool" where
  "ended_ge lo at r \<longleftrightarrow> (case at r of Some status \<Rightarrow> lo \<le> status | None \<Rightarrow> False)"

definition red_inv :: "red_sys \<Rightarrow> bool" where
  "red_inv s \<longleftrightarrow>
     (let rs = rs_reqs s; t = rs_tracker s; n = (\<lambda>P. sum_list (map (\<lambda>x. if P x then 1 else 0) rs)) in
      mt_RequestsTotal t = n rq_counted \<and>
      mt_ActiveRequests t = n rq_active \<and>
      mt_Status2xx t = n (in_class 200 300) \<and>
      mt_Status4xx t = n (in_class 400 500) \<and>
      mt_Status5xx t = n (ended_ge 500 rq_classed) \<and>
      mt_ErrorsTotal t = n (ended_ge 400 rq_done) \<and>
      mt_DurationSumMs t = sum_list (map (\<lambda>r. of_int (rq_ms r)) rs))"

lemma in_class_simps:
  "in_class lo hi RqNew = False" "in_class lo hi RqCounted = False" "in_class lo hi RqActive = False"
  "in_class lo hi (RqReturned status ms) = False" "in_class lo hi (RqInactive status ms) = False" "in_class lo hi (RqSummed status ms) = False"
  "in_class lo hi (RqClassed status ms) = (lo \<le> status \<and> status < hi)" "in_class lo hi (RqDone status ms) = (lo \<le> status \<and> status < hi)"
  "ended_ge lo at r = (case at r of Some status \<Rightarrow> lo \<le> status | None \<Rightarrow> False)"
  by (simp_all add: in_class_def ended_ge_def)

lemma red_inv_step: "red_step s s' \<Longrightarrow> red_inv s \<Longrightarrow> red_inv s'"
proof (induction rule: red_step.induct)
  case (arrives s)
  then show ?case by (simp add: red_inv_def Let_def in_class_def ended_ge_def)
next
  case (acts i s r t)
  have upd: "sum_list (map f ((rs_reqs s)[i := r'])) = sum_list (map f (rs_reqs s)) + (f r' - f (rs_reqs s ! i))"
    for f :: "red_req \<Rightarrow> 64 word" and r' using acts(1) by (simp add: map_update sum_list_update_group)
  from acts(2,3) show ?case
    by (cases rule: red_act.cases) (simp_all add: red_inv_def Let_def upd in_class_simps error_count_def)
qed

lemma red_inv_reachable:
  assumes "red_step\<^sup>*\<^sup>* red_start s"
  shows "red_inv s"
  using assms
proof (induction rule: rtranclp_induct)
  case base
  then show ?case by (simp add: red_inv_def red_start_def new_tracker_def)
next
  case (step s s')
  then show ?case by (blast intro: red_inv_step)
qed

text \<open>
  C27: However concurrent requests interleave, at every moment the counters are exact, modulo \<open>2^64\<close>: the total is the
  number of requests that were counted, the gauge the number of those whose handler runs or has just returned, each
  class and the errors the number of requests that have been counted in it, and the duration the sum over those that
  were added. In particular, when every request is done, none is active and the errors are those of the classes 4xx
  and 5xx.
\<close>

theorem red_metrics_exact:
  assumes "red_step\<^sup>*\<^sup>* red_start s"
  shows "mt_RequestsTotal (rs_tracker s) = of_nat (length (filter rq_counted (rs_reqs s))) \<and>
         mt_ActiveRequests (rs_tracker s) = of_nat (length (filter rq_active (rs_reqs s))) \<and>
         mt_Status2xx (rs_tracker s) = of_nat (length (filter (in_class 200 300) (rs_reqs s))) \<and>
         mt_Status4xx (rs_tracker s) = of_nat (length (filter (in_class 400 500) (rs_reqs s))) \<and>
         mt_Status5xx (rs_tracker s) = of_nat (length (filter (ended_ge 500 rq_classed) (rs_reqs s))) \<and>
         mt_ErrorsTotal (rs_tracker s) = of_nat (length (filter (ended_ge 400 rq_done) (rs_reqs s))) \<and>
         mt_DurationSumMs (rs_tracker s) = sum_list (map (\<lambda>r. of_int (rq_ms r)) (rs_reqs s)) \<and>
         ((\<forall>r \<in> set (rs_reqs s). rq_done r \<noteq> None) \<longrightarrow>
            mt_RequestsTotal (rs_tracker s) = of_nat (length (rs_reqs s)) \<and>
            mt_ActiveRequests (rs_tracker s) = 0 \<and>
            mt_ErrorsTotal (rs_tracker s) = mt_Status4xx (rs_tracker s) + mt_Status5xx (rs_tracker s))"
proof -
  note I = red_inv_reachable [OF assms, unfolded red_inv_def Let_def sum_list_indicator]
  have done_cases: "\<exists>status ms. r = RqDone status ms" if "rq_done r \<noteq> None" for r
    using that by (cases r) auto
  have "filter rq_counted rs = rs \<and> filter rq_active rs = [] \<and>
      length (filter (ended_ge 400 rq_done) rs) = length (filter (in_class 400 500) rs) + length (filter (ended_ge 500 rq_classed) rs)"
    if "\<forall>r \<in> set rs. rq_done r \<noteq> None" for rs
    using that
  proof (induction rs)
    case (Cons r rs)
    then obtain status ms where "r = RqDone status ms" using done_cases [of r] by auto
    with Cons show ?case by (auto simp: in_class_simps)
  qed simp
  from this [of "rs_reqs s"] I show ?thesis by auto
qed

section \<open>A run\<close>

definition red_demo :: red_sys where
  "red_demo = \<lparr>rs_reqs = [RqActive], rs_tracker = new_tracker\<lparr>mt_RequestsTotal := 1, mt_ActiveRequests := 1\<rparr>\<rparr>"

lemma red_demo_reachable: "red_step\<^sup>*\<^sup>* red_start red_demo"
proof -
  let ?s = "\<lambda>r total' active. \<lparr>rs_reqs = [r], rs_tracker = new_tracker\<lparr>mt_RequestsTotal := total', mt_ActiveRequests := active\<rparr>\<rparr>"
  have s1: "red_step red_start (?s RqNew 0 0)"
    using arrives [of red_start] by (simp add: red_start_def new_tracker_def)
  have s2: "red_step (?s RqNew 0 0) (?s RqCounted 1 0)"
    using acts [of 0 "?s RqNew 0 0" RqCounted] count_request [of "rs_tracker (?s RqNew 0 0)"] by (simp add: new_tracker_def)
  have s3: "red_step (?s RqCounted 1 0) red_demo"
    using acts [of 0 "?s RqCounted 1 0" RqActive] activate [of "rs_tracker (?s RqCounted 1 0)"] by (simp add: new_tracker_def red_demo_def)
  show ?thesis
    by (rule converse_rtranclp_into_rtranclp [OF s1 converse_rtranclp_into_rtranclp [OF s2 r_into_rtranclp [of red_step, OF s3]]])
qed

theorem red_metrics_exact_witness: "mt_ActiveRequests (rs_tracker red_demo) = 1 \<and> mt_RequestsTotal (rs_tracker red_demo) = 1"
  using red_metrics_exact [OF red_demo_reachable] by (simp add: red_demo_def)

end
