(* ===== verification/Http_Response.thy ===== *)
theory Http_Response
  imports Go_Strings
begin

text \<open>
  Application errors (\<open>src/apperror/apperror.go\<close>), their translation into responses and the CORS middleware
  (\<open>src/httputil/response.go\<close>, \<open>src/httputil/cors.go\<close>). A response body is kept as the value that is encoded as
  JSON. Error values are trees: a plain error, an error wrapped with a message, a join, an application error with an
  optional cause, or an error of another type that implements the interface \<open>APIError\<close>, with its status, code and text
  and an optional cause; \<open>errors.As\<close> searches them depth first, an error before its causes.
\<close>

section \<open>Application errors\<close>

datatype Code =
    CodeBadRequest | CodeUnauthorized | CodeForbidden | CodeNotFound | CodeConflict | CodeUnprocessable | CodeInternal | CodeUnavailable
  | CodeOther string

fun code_string :: "Code \<Rightarrow> string" where
  "code_string CodeBadRequest = ''BAD_REQUEST''"
| "code_string CodeUnauthorized = ''UNAUTHORIZED''"
| "code_string CodeForbidden = ''FORBIDDEN''"
| "code_string CodeNotFound = ''NOT_FOUND''"
| "code_string CodeConflict = ''CONFLICT''"
| "code_string CodeUnprocessable = ''UNPROCESSABLE''"
| "code_string CodeInternal = ''INTERNAL''"
| "code_string CodeUnavailable = ''UNAVAILABLE''"
| "code_string (CodeOther s) = s"

text \<open>The details are any value; they play no part in the text.\<close>

datatype derror =
    Plain string
  | Wrapped string derror
  | Joined "derror list"
  | AppError Code string "string option" "derror option"
  | ForeignError int string string "derror option"

definition ae_New :: "Code \<Rightarrow> string \<Rightarrow> derror" where
  "ae_New code msg = AppError code msg None None"

definition ae_NewWithDetails :: "Code \<Rightarrow> string \<Rightarrow> string \<Rightarrow> derror" where
  "ae_NewWithDetails code msg details = AppError code msg (Some details) None"

definition ae_Wrap :: "derror \<Rightarrow> Code \<Rightarrow> string \<Rightarrow> derror" where
  "ae_Wrap err code msg = AppError code msg None (Some err)"

definition ae_BadRequest :: "string \<Rightarrow> derror" where "ae_BadRequest msg = ae_New CodeBadRequest msg"
definition ae_Unauthorized :: "string \<Rightarrow> derror" where "ae_Unauthorized msg = ae_New CodeUnauthorized msg"
definition ae_Forbidden :: "string \<Rightarrow> derror" where "ae_Forbidden msg = ae_New CodeForbidden msg"
definition ae_NotFound :: "string \<Rightarrow> derror" where "ae_NotFound msg = ae_New CodeNotFound msg"
definition ae_Conflict :: "string \<Rightarrow> derror" where "ae_Conflict msg = ae_New CodeConflict msg"
definition ae_Unprocessable :: "string \<Rightarrow> derror" where "ae_Unprocessable msg = ae_New CodeUnprocessable msg"
definition ae_Internal :: "string \<Rightarrow> derror" where "ae_Internal msg = ae_New CodeInternal msg"
definition ae_Unavailable :: "string \<Rightarrow> derror" where "ae_Unavailable msg = ae_New CodeUnavailable msg"

fun GetStatus :: "Code \<Rightarrow> int" where
  "GetStatus CodeBadRequest = 400"
| "GetStatus CodeUnauthorized = 401"
| "GetStatus CodeForbidden = 403"
| "GetStatus CodeNotFound = 404"
| "GetStatus CodeConflict = 409"
| "GetStatus CodeUnprocessable = 422"
| "GetStatus CodeUnavailable = 503"
| "GetStatus _ = 500"

text \<open>The method \<open>Error\<close>; a join separates the texts by line feeds.\<close>

fun err_text :: "derror \<Rightarrow> string" and err_texts :: "derror list \<Rightarrow> string" where
  "err_text (Plain m) = m"
| "err_text (Wrapped m e) = m @ '': '' @ err_text e"
| "err_text (Joined es) = err_texts es"
| "err_text (AppError code msg d (Some e)) = code_string code @ '': '' @ msg @ '': '' @ err_text e"
| "err_text (AppError code msg d None) = code_string code @ '': '' @ msg"
| "err_text (ForeignError status code text cause) = text"
| "err_texts [] = []"
| "err_texts [e] = err_text e"
| "err_texts (e # f # es) = err_text e @ CHR 10 # err_texts (f # es)"

text \<open>\<open>errors.As\<close> with a target of type \<open>*apperror.Error\<close>: the first application error of the tree.\<close>

fun as_app :: "derror \<Rightarrow> derror option" and as_apps :: "derror list \<Rightarrow> derror option" where
  "as_app (Plain m) = None"
| "as_app (Wrapped m e) = as_app e"
| "as_app (Joined es) = as_apps es"
| "as_app (AppError code msg d cause) = Some (AppError code msg d cause)"
| "as_app (ForeignError status code text cause) = (case cause of Some e \<Rightarrow> as_app e | None \<Rightarrow> None)"
| "as_apps [] = None"
| "as_apps (e # es) = (case as_app e of Some a \<Rightarrow> Some a | None \<Rightarrow> as_apps es)"

text \<open>The same with a target of type \<open>APIError\<close>: the first error that implements the interface, and its methods.\<close>

fun as_api :: "derror \<Rightarrow> derror option" and as_apis :: "derror list \<Rightarrow> derror option" where
  "as_api (Plain m) = None"
| "as_api (Wrapped m e) = as_api e"
| "as_api (Joined es) = as_apis es"
| "as_api (AppError code msg d cause) = Some (AppError code msg d cause)"
| "as_api (ForeignError status code text cause) = Some (ForeignError status code text cause)"
| "as_apis [] = None"
| "as_apis (e # es) = (case as_api e of Some a \<Rightarrow> Some a | None \<Rightarrow> as_apis es)"

fun api_status :: "derror \<Rightarrow> int" where
  "api_status (AppError code msg d cause) = GetStatus code"
| "api_status (ForeignError status code text cause) = status"
| "api_status _ = 500"

fun api_code :: "derror \<Rightarrow> string" where
  "api_code (AppError code msg d cause) = code_string code"
| "api_code (ForeignError status code text cause) = code"
| "api_code _ = []"

fun ae_code :: "derror \<Rightarrow> Code option" where
  "ae_code (AppError code msg d cause) = Some code"
| "ae_code _ = None"

text \<open>The empty string stands for no code.\<close>

definition CodeOf :: "derror \<Rightarrow> Code" where
  "CodeOf err = (case Option.bind (as_app err) ae_code of Some c \<Rightarrow> c | None \<Rightarrow> CodeOther [])"

definition ae_Is :: "derror \<Rightarrow> Code \<Rightarrow> bool" where
  "ae_Is err code = (Option.bind (as_app err) ae_code = Some code)"

section \<open>Responses\<close>

record ErrResponse =
  er_Error :: string
  er_Code :: string

datatype 'd payload = PData 'd | PErr ErrResponse | PNone

record 'd http_reply =
  hr_status :: int
  hr_headers :: "(string \<times> string) list"
  hr_body :: "'d payload"

definition WriteJSON :: "int \<Rightarrow> 'd payload \<Rightarrow> 'd http_reply" where
  "WriteJSON status v =
     \<lparr>hr_status = status,
      hr_headers = [(''Content-Type'', ''application/json; charset=utf-8''), (''X-Content-Type-Options'', ''nosniff'')], hr_body = v\<rparr>"

definition hu_OK :: "'d \<Rightarrow> 'd http_reply" where
  "hu_OK data = WriteJSON 200 (PData data)"

definition hu_Created :: "'d \<Rightarrow> 'd http_reply" where
  "hu_Created data = WriteJSON 201 (PData data)"

definition hu_NoContent :: "'d http_reply" where
  "hu_NoContent = \<lparr>hr_status = 204, hr_headers = [], hr_body = PNone\<rparr>"

definition hu_Error :: "string \<Rightarrow> int \<Rightarrow> 'd http_reply" where
  "hu_Error msg status = WriteJSON status (PErr \<lparr>er_Error = msg, er_Code = []\<rparr>)"

definition ErrorFromDomain :: "derror \<Rightarrow> 'd http_reply" where
  "ErrorFromDomain err =
     (case as_api err of
        Some apiErr \<Rightarrow> WriteJSON (api_status apiErr) (PErr \<lparr>er_Error = err_text apiErr, er_Code = api_code apiErr\<rparr>)
      | None \<Rightarrow> WriteJSON 500 (PErr \<lparr>er_Error = err_text err, er_Code = ''INTERNAL_ERROR''\<rparr>))"

definition ValidationError :: "string \<Rightarrow> 'd http_reply" where
  "ValidationError msg = WriteJSON 400 (PErr \<lparr>er_Error = msg, er_Code = ''VALIDATION_ERROR''\<rparr>)"

section \<open>Which error decides\<close>

text \<open>All errors of a tree in the order of \<open>errors.As\<close>: an error before what it wraps, what is joined from left to right.\<close>

fun chain :: "derror \<Rightarrow> derror list" and chains :: "derror list \<Rightarrow> derror list" where
  "chain (Plain m) = [Plain m]"
| "chain (Wrapped m e) = Wrapped m e # chain e"
| "chain (Joined es) = Joined es # chains es"
| "chain (AppError code msg d cause) = AppError code msg d cause # (case cause of Some e \<Rightarrow> chain e | None \<Rightarrow> [])"
| "chain (ForeignError status code text cause) = ForeignError status code text cause # (case cause of Some e \<Rightarrow> chain e | None \<Rightarrow> [])"
| "chains [] = []"
| "chains (e # es) = chain e @ chains es"

fun is_app :: "derror \<Rightarrow> bool" where
  "is_app (AppError code msg d cause) = True"
| "is_app _ = False"

fun is_api :: "derror \<Rightarrow> bool" where
  "is_api (AppError code msg d cause) = True"
| "is_api (ForeignError status code text cause) = True"
| "is_api _ = False"

lemma find_append: "List.find P (xs @ ys) = (case List.find P xs of Some x \<Rightarrow> Some x | None \<Rightarrow> List.find P ys)"
  by (induction xs) auto

lemma as_app_first: "as_app e = List.find is_app (chain e)" "as_apps es = List.find is_app (chains es)"
  by (induction e and es rule: as_app_as_apps.induct) (auto simp: find_append split: option.splits)

lemma as_api_first: "as_api e = List.find is_api (chain e)" "as_apis es = List.find is_api (chains es)"
  by (induction e and es rule: as_api_as_apis.induct) (auto simp: find_append split: option.splits)

lemma GetStatus_range: "GetStatus code \<in> {400, 401, 403, 404, 409, 422, 500, 503}"
  by (cases code) auto

definition wraps :: "string list \<Rightarrow> derror \<Rightarrow> derror" where
  "wraps ms e = foldr Wrapped ms e"

lemma as_api_wraps [simp]: "as_api (wraps ms e) = as_api e"
  by (induction ms) (simp_all add: wraps_def)


lemma joined_errors_searched:
  "hr_status (ErrorFromDomain (wraps [''repo''] (Joined [Plain ''a'', wraps [''b''] (AppError CodeNotFound ''user not found'' None None), Plain ''c''])) :: string http_reply) = 404"
  by (simp add: ErrorFromDomain_def WriteJSON_def)

text \<open>
  The text sent to the client is the text of the error with its cause: the cause that an application error
  wraps, and the text of an error that is not an application error, go out unchanged.
\<close>

lemma response_shows_cause:
  "hr_body (ErrorFromDomain (ae_Wrap cause code msg)) =
     PErr \<lparr>er_Error = code_string code @ '': '' @ msg @ '': '' @ err_text cause, er_Code = code_string code\<rparr>"
  "as_api e = None \<Longrightarrow> hr_body (ErrorFromDomain e) = PErr \<lparr>er_Error = err_text e, er_Code = ''INTERNAL_ERROR''\<rparr>"
  by (simp_all add: ErrorFromDomain_def ae_Wrap_def WriteJSON_def)

text \<open>\<open>Is\<close> looks at the first application error only: a code deeper in the chain is not found.\<close>

lemma Is_ignores_deeper_codes: "\<not> ae_Is (ae_Wrap (ae_NotFound ''row'') CodeInternal ''load'') CodeNotFound"
  by (simp add: ae_Is_def ae_Wrap_def)

section \<open>Cross-origin requests\<close>

record CORSConfig =
  cc_AllowedOrigins :: "string list"
  cc_AllowedMethods :: "string list"
  cc_AllowedHeaders :: "string list"
  cc_ExposeHeaders :: "string list"
  cc_AllowCredentials :: bool

definition DefaultCORSConfig :: "string list \<Rightarrow> CORSConfig" where
  "DefaultCORSConfig allowedOrigins =
     \<lparr>cc_AllowedOrigins = allowedOrigins,
      cc_AllowedMethods = [''GET'', ''POST'', ''PUT'', ''PATCH'', ''DELETE'', ''OPTIONS''],
      cc_AllowedHeaders = [''Content-Type'', ''Authorization'', ''X-Requested-With'', ''Idempotency-Key''],
      cc_ExposeHeaders = [''Content-Disposition'', ''Content-Type'', ''Content-Length'', ''X-RateLimit-Remaining''],
      cc_AllowCredentials = True\<rparr>"

fun checkOrigin :: "string \<Rightarrow> string list \<Rightarrow> bool \<Rightarrow> bool \<times> bool" where
  "checkOrigin origin [] creds = (False, False)"
| "checkOrigin origin (o' # os) creds =
     (let trimmed = trim_space o' in
      if trimmed = ''*'' then (if \<not> creds then (True, True) else checkOrigin origin os creds)
      else if trimmed = origin then (True, False)
      else if take 2 trimmed = ''*.'' \<and> has_suffix origin (drop 1 trimmed) then (True, False)
      else checkOrigin origin os creds)"

fun join_comma :: "string list \<Rightarrow> string" where
  "join_comma [] = []"
| "join_comma [s] = s"
| "join_comma (s # t # ss) = s @ '', '' @ join_comma (t # ss)"

text \<open>The headers the middleware sets, and whether the next handler is called (no: 204).\<close>

definition hu_CORS :: "CORSConfig \<Rightarrow> string \<Rightarrow> string \<Rightarrow> (string \<times> string) list \<times> bool" where
  "hu_CORS cfg method origin =
     (let methods = join_comma (cc_AllowedMethods cfg); headers = join_comma (cc_AllowedHeaders cfg);
          exposed = join_comma (cc_ExposeHeaders cfg);
          (allowed, isStar) = (if origin \<noteq> [] then checkOrigin origin (cc_AllowedOrigins cfg) (cc_AllowCredentials cfg) else (False, False));
          out = (if allowed then
                   (if isStar then [(''Access-Control-Allow-Origin'', ''*'')]
                    else (''Access-Control-Allow-Origin'', origin) #
                         (if cc_AllowCredentials cfg then [(''Access-Control-Allow-Credentials'', ''true'')] else [])) @
                   (if methods \<noteq> [] then [(''Access-Control-Allow-Methods'', methods)] else []) @
                   (if headers \<noteq> [] then [(''Access-Control-Allow-Headers'', headers)] else []) @
                   (if exposed \<noteq> [] then [(''Access-Control-Expose-Headers'', exposed)] else [])
                 else [])
      in (out, method \<noteq> ''OPTIONS''))"

definition origin_matches :: "string \<Rightarrow> bool \<Rightarrow> string \<Rightarrow> bool" where
  "origin_matches origin creds o' \<longleftrightarrow>
     (let t = trim_space o' in if t = ''*'' then \<not> creds else t = origin \<or> (take 2 t = ''*.'' \<and> has_suffix origin (drop 1 t)))"

lemma checkOrigin_Cons:
  "checkOrigin origin (o' # os) creds =
     (if origin_matches origin creds o' then (True, trim_space o' = ''*'') else checkOrigin origin os creds)"
proof -
  define dotted where "dotted \<longleftrightarrow> take 2 (trim_space o') = ''*.'' \<and> has_suffix origin (drop 1 (trim_space o'))"
  show ?thesis
    unfolding checkOrigin.simps origin_matches_def Let_def dotted_def [symmetric]
    by (cases "trim_space o' = ''*''"; cases creds; cases dotted) auto
qed

lemma checkOrigin_iff:
  "checkOrigin origin os creds = (a, w) \<Longrightarrow>
     (w \<longrightarrow> a \<and> \<not> creds) \<and> (a \<longleftrightarrow> (\<exists>o' \<in> set os. origin_matches origin creds o'))"
proof (induction os)
  case (Cons o' os)
  show ?case
  proof (cases "origin_matches origin creds o'")
    case True
    then have "a \<and> (w \<longleftrightarrow> trim_space o' = ''*'')" using Cons.prems by (simp only: checkOrigin_Cons if_True prod.inject)
    then show ?thesis using True by (auto simp: origin_matches_def Let_def)
  next
    case False
    then have "checkOrigin origin os creds = (a, w)" using Cons.prems by (simp only: checkOrigin_Cons if_False)
    moreover have "(\<exists>x \<in> set (o' # os). origin_matches origin creds x) \<longleftrightarrow> (\<exists>x \<in> set os. origin_matches origin creds x)" using False by simp
    ultimately show ?thesis using Cons.IH by metis
  qed
qed simp

text \<open>
  Credentials are allowed only together with the reflected origin, and an origin is named only if it is
  configured, exactly or by its suffix; a star entry never matches when credentials are allowed.
\<close>

lemma cors_credentials_need_listed_origin:
  assumes "hu_CORS cfg method origin = (out, fwd)"
  shows "(''Access-Control-Allow-Credentials'', ''true'') \<in> set out \<Longrightarrow>
      (''Access-Control-Allow-Origin'', origin) \<in> set out \<and> ((''Access-Control-Allow-Origin'', ''*'') \<in> set out \<longrightarrow> origin = ''*'') \<and>
      (\<exists>o' \<in> set (cc_AllowedOrigins cfg). trim_space o' = origin \<or> (take 2 (trim_space o') = ''*.'' \<and> has_suffix origin (drop 1 (trim_space o'))))"
proof -
  assume c: "(''Access-Control-Allow-Credentials'', ''true'') \<in> set out"
  obtain a w where k: "checkOrigin origin (cc_AllowedOrigins cfg) (cc_AllowCredentials cfg) = (a, w)" by fastforce
  from assms c have F: "origin \<noteq> []" "a" "\<not> w" "cc_AllowCredentials cfg"
    by (auto simp: hu_CORS_def k Let_def split: if_splits)
  have "(''Access-Control-Allow-Origin'', origin) \<in> set out \<and> ((''Access-Control-Allow-Origin'', ''*'') \<in> set out \<longrightarrow> origin = ''*'')"
    using assms F k by (auto simp: hu_CORS_def Let_def)
  moreover from F checkOrigin_iff [OF k] have
    "\<exists>o' \<in> set (cc_AllowedOrigins cfg). origin_matches origin True o'" by auto
  then have "\<exists>o' \<in> set (cc_AllowedOrigins cfg). trim_space o' = origin \<or> (take 2 (trim_space o') = ''*.'' \<and> has_suffix origin (drop 1 (trim_space o')))"
    unfolding origin_matches_def Let_def by meson
  ultimately show ?thesis by blast
qed

end
