(* ===== verification/Log_Http.thy ===== *)
theory Log_Http
  imports Log_Redact Float64
begin

text \<open>
  Request identifiers (\<open>src/requestid/requestid.go\<close>), the logger in a context (\<open>src/logger/logger.go\<close>), the access
  log (\<open>src/logger/middleware.go\<close>) and the recovery from panics (\<open>src/recovery/recovery.go\<close>). Headers are looked up
  without regard to case. A logger is the list of the attributes bound to it by \<open>With\<close>; a handler is the sequence
  of its writes, each with the number of bytes the connection takes, and the value it panics with, if it does.
  The connection is that of \<open>net/http\<close>: the first final status counts, a write without one sends 200, and
  informational statuses are sent on the side. Status codes are between 100 and 999. The stack of the recovery is
  left out, and its span is in \<open>Tracing\<close>.
\<close>

section \<open>Requests\<close>

datatype lnum = NInt int | NFloat rat

type_synonym logger = "lnum attr list"

record web_context =
  wc_requestID :: "string option"
  wc_logger :: "logger option"

record web_request =
  wr_Method :: string
  wr_Pattern :: string
  wr_Path :: string
  wr_RemoteAddr :: string
  wr_Header :: "(string, string) gomap"
  wr_Context :: web_context

text \<open>\<open>Header.Get\<close>: the keys of the map are in lower case.\<close>

definition get_header :: "string \<Rightarrow> web_request \<Rightarrow> string" where
  "get_header name r = (case map_of (wr_Header r) (to_lower name) of Some v \<Rightarrow> v | None \<Rightarrow> [])"

section \<open>Request identifiers\<close>

definition id_byte :: "char \<Rightarrow> bool" where
  "id_byte b \<longleftrightarrow> (let n = of_char b :: nat in
     97 \<le> n \<and> n \<le> 122 \<or> 65 \<le> n \<and> n \<le> 90 \<or> 48 \<le> n \<and> n \<le> 57 \<or>
     b = CHR ''-'' \<or> b = CHR ''_'' \<or> b = CHR ''.'' \<or> b = CHR '':'' \<or> b = CHR ''/'')"

definition isValidRequestID :: "string \<Rightarrow> bool" where
  "isValidRequestID id' \<longleftrightarrow> (if length id' < 1 \<or> length id' > 128 then False else list_all id_byte id')"

definition rid_Header :: string where
  "rid_Header = ''X-Request-ID''"

text \<open>The identifier that is echoed in the response, and the request passed on.\<close>

definition rid_Middleware :: "string \<Rightarrow> web_request \<Rightarrow> string \<times> web_request" where
  "rid_Middleware uuid r =
     (let h = get_header rid_Header r; id' = (if \<not> isValidRequestID h then uuid else h)
      in (id', r\<lparr>wr_Context := (wr_Context r)\<lparr>wc_requestID := Some id'\<rparr>\<rparr>))"

definition rid_FromContext :: "web_context \<Rightarrow> string" where
  "rid_FromContext ctx = (case wc_requestID ctx of Some id' \<Rightarrow> id' | None \<Rightarrow> [])"

section \<open>Loggers in contexts\<close>

datatype level = LevelDebug | LevelInfo | LevelWarn | LevelError

definition default_level :: "string \<Rightarrow> level" where
  "default_level LOG_LEVEL =
     (let s = to_lower LOG_LEVEL in
      if s = ''debug'' then LevelDebug
      else if s = ''warn'' \<or> s = ''warning'' then LevelWarn
      else if s = ''error'' then LevelError
      else LevelInfo)"

definition lg_WithContext :: "web_context \<Rightarrow> logger option \<Rightarrow> web_context" where
  "lg_WithContext ctx l = (case l of None \<Rightarrow> ctx | Some x \<Rightarrow> ctx\<lparr>wc_logger := Some x\<rparr>)"

text \<open>The default logger has no attributes.\<close>

definition lg_FromContext :: "web_context \<Rightarrow> logger" where
  "lg_FromContext ctx = (case wc_logger ctx of Some l \<Rightarrow> l | None \<Rightarrow> [])"

definition lg_WithFields :: "web_context \<Rightarrow> lnum attr list \<Rightarrow> web_context" where
  "lg_WithFields ctx args = lg_WithContext ctx (Some (lg_FromContext ctx @ args))"

definition lg_WithField :: "web_context \<Rightarrow> string \<Rightarrow> lnum avalue \<Rightarrow> web_context" where
  "lg_WithField ctx key val = lg_WithContext ctx (Some (lg_FromContext ctx @ [Attr key val]))"

section \<open>The connection and the recorder\<close>

datatype write_op = WriteHeader int | Write nat

record http_conn =
  hc_status :: "int option"
  hc_bytes :: int

definition net_WriteHeader :: "int \<Rightarrow> http_conn \<Rightarrow> http_conn" where
  "net_WriteHeader code c =
     (if hc_status c \<noteq> None \<or> 100 \<le> code \<and> code \<le> 199 \<and> code \<noteq> 101 then c else c\<lparr>hc_status := Some code\<rparr>)"

definition net_Write :: "nat \<Rightarrow> http_conn \<Rightarrow> http_conn" where
  "net_Write n c =
     c\<lparr>hc_status := (if hc_status c = None then Some 200 else hc_status c), hc_bytes := hc_bytes c + int n\<rparr>"

definition sent_status :: "http_conn \<Rightarrow> int" where
  "sent_status c = (case hc_status c of Some s \<Rightarrow> s | None \<Rightarrow> 200)"

record statusRecorder =
  sr_conn :: http_conn
  sr_statusCode :: int
  sr_bytesWritten :: int

definition sr_WriteHeader :: "int \<Rightarrow> statusRecorder \<Rightarrow> statusRecorder" where
  "sr_WriteHeader code r = r\<lparr>sr_statusCode := code, sr_conn := net_WriteHeader code (sr_conn r)\<rparr>"

definition sr_Write :: "nat \<Rightarrow> statusRecorder \<Rightarrow> statusRecorder" where
  "sr_Write n r = r\<lparr>sr_conn := net_Write n (sr_conn r), sr_bytesWritten := wrap64 (sr_bytesWritten r + int n)\<rparr>"

fun sr_ops :: "write_op list \<Rightarrow> statusRecorder \<Rightarrow> statusRecorder" where
  "sr_ops [] r = r"
| "sr_ops (WriteHeader code # ops) r = sr_ops ops (sr_WriteHeader code r)"
| "sr_ops (Write n # ops) r = sr_ops ops (sr_Write n r)"

section \<open>The access log\<close>

record lg_options =
  lo_Logger :: "logger option"
  lo_RequestIDHeader :: string
  lo_ExtraAttributes :: "(web_request \<Rightarrow> lnum attr list) option"

definition DefaultRequestIDHeader :: string where
  "DefaultRequestIDHeader = ''X-Request-ID''"

definition WithLogger :: "logger option \<Rightarrow> lg_options \<Rightarrow> lg_options" where
  "WithLogger l o' = (if l \<noteq> None then o'\<lparr>lo_Logger := l\<rparr> else o')"

definition WithRequestIDHeader :: "string \<Rightarrow> lg_options \<Rightarrow> lg_options" where
  "WithRequestIDHeader header o' = (if header \<noteq> [] then o'\<lparr>lo_RequestIDHeader := header\<rparr> else o')"

definition WithExtraAttributes :: "(web_request \<Rightarrow> lnum attr list) option \<Rightarrow> lg_options \<Rightarrow> lg_options" where
  "WithExtraAttributes fn o' = o'\<lparr>lo_ExtraAttributes := fn\<rparr>"

definition lg_config :: "(lg_options \<Rightarrow> lg_options) list \<Rightarrow> lg_options" where
  "lg_config opts =
     fold (\<lambda>opt c. opt c) opts \<lparr>lo_Logger = None, lo_RequestIDHeader = DefaultRequestIDHeader, lo_ExtraAttributes = None\<rparr>"

definition isAllowedCorrelationHeader :: "string \<Rightarrow> bool" where
  "isAllowedCorrelationHeader h \<longleftrightarrow>
     to_lower (trim_space h) \<in> {''x-request-id'', ''x-correlation-id'', ''x-trace-id'', ''request-id'', ''traceparent''}"

fun clean_id :: "string \<Rightarrow> string \<Rightarrow> string" where
  "clean_id clean [] = clean"
| "clean_id clean (b # raw) = (if id_byte b then clean_id (clean @ [b]) raw else [])"

definition redactHeaderForLogging :: "string \<Rightarrow> string" where
  "redactHeaderForLogging raw =
     (if raw = [] then [] else clean_id [] (if length raw > 128 then take 128 raw else raw))"

record access_entry =
  ae_logger :: logger
  ae_level :: level
  ae_record :: "lnum log_record"

text \<open>
  \<open>start\<close> and \<open>stop\<close> are the clock readings. The record is written after the handler has returned, so that a handler
  that panics leaves none, and the panic goes on.
\<close>

type_synonym web_handler = "web_request \<Rightarrow> write_op list \<times> string option"

definition lg_reqID :: "lg_options \<Rightarrow> web_request \<Rightarrow> string" where
  "lg_reqID cfg r =
     (if isAllowedCorrelationHeader (lo_RequestIDHeader cfg)
      then redactHeaderForLogging (get_header (lo_RequestIDHeader cfg) r) else [])"

definition lg_reqLogger :: "lg_options \<Rightarrow> web_request \<Rightarrow> logger" where
  "lg_reqLogger cfg r =
     (let baseLogger = (case lo_Logger cfg of Some l \<Rightarrow> l | None \<Rightarrow> lg_FromContext (wr_Context r))
      in if lg_reqID cfg r \<noteq> [] then baseLogger @ [Attr ''request_id'' (VString (lg_reqID cfg r))] else baseLogger)"

definition lg_passed :: "lg_options \<Rightarrow> web_request \<Rightarrow> web_request" where
  "lg_passed cfg r = r\<lparr>wr_Context := lg_WithContext (wr_Context r) (Some (lg_reqLogger cfg r))\<rparr>"

definition lg_attrs :: "lg_options \<Rightarrow> duration \<Rightarrow> string \<Rightarrow> web_request \<Rightarrow> statusRecorder \<Rightarrow> lnum attr list" where
  "lg_attrs cfg dur reqID r rec =
     [Attr ''method'' (VString (wr_Method r)),
      Attr ''path'' (VString (wr_Path r)),
      Attr ''status'' (VOther (NInt (sr_statusCode rec))),
      Attr ''duration_ms'' (VOther (NFloat (fdiv (float64_of (dur sdiv 1000)) 1000))),
      Attr ''bytes'' (VOther (NInt (sr_bytesWritten rec))),
      Attr ''remote_ip'' (VString (wr_RemoteAddr r))]
     @ (if reqID \<noteq> [] then [Attr ''request_id'' (VString reqID)] else [])
     @ (case lo_ExtraAttributes cfg of Some f \<Rightarrow> f r | None \<Rightarrow> [])"

definition level_of :: "int \<Rightarrow> level" where
  "level_of status = (if status \<ge> 500 then LevelError else if status \<ge> 400 then LevelWarn else LevelInfo)"

definition lg_Middleware ::
  "lg_options \<Rightarrow> time \<Rightarrow> time \<Rightarrow> web_handler \<Rightarrow> web_request \<Rightarrow> http_conn \<Rightarrow> http_conn \<times> (string + access_entry)" where
  "lg_Middleware cfg start stop handler r w =
     (let r1 = lg_passed cfg r;
          (ops, panic) = handler r1;
          rec = sr_ops ops \<lparr>sr_conn = w, sr_statusCode = 200, sr_bytesWritten = 0\<rparr>
      in (sr_conn rec,
          case panic of
            Some v \<Rightarrow> Inl v
          | None \<Rightarrow> Inr \<lparr>ae_logger = lg_reqLogger cfg r, ae_level = level_of (sr_statusCode rec),
                        ae_record = \<lparr>lr_Message = ''http request completed'',
                                     lr_Attrs = filter (\<lambda>a. \<not> empty_group a) (lg_attrs cfg (time_sub stop start) (lg_reqID cfg r) r1 rec)\<rparr>\<rparr>))"

section \<open>Recovery\<close>

record panic_entry =
  pe_error :: string
  pe_route :: string
  pe_path :: string

definition panic_route :: "web_request \<Rightarrow> string" where
  "panic_route r =
     (let route = (if wr_Pattern r = [] then wr_Path r else wr_Pattern r) in if route = [] then ''unmatched'' else route)"

text \<open>
  The deferred function: the handler's writes are followed by the status 500 and the JSON body, of which the
  connection takes \<open>taken\<close> bytes.
\<close>

definition recover_Middleware :: "nat \<Rightarrow> web_handler \<Rightarrow> web_request \<Rightarrow> write_op list \<times> panic_entry option" where
  "recover_Middleware taken handler r =
     (case handler r of
        (ops, None) \<Rightarrow> (ops, None)
      | (ops, Some v) \<Rightarrow>
          (ops @ [WriteHeader 500, Write taken], Some \<lparr>pe_error = v, pe_route = panic_route r, pe_path = wr_Path r\<rparr>))"

text \<open>The handler that the recovery makes of a handler never panics.\<close>

definition recovered :: "nat \<Rightarrow> web_handler \<Rightarrow> web_handler" where
  "recovered taken handler r = (fst (recover_Middleware taken handler r), None)"

section \<open>What is logged\<close>

lemma clean_id_eq: "clean_id c raw = (if list_all id_byte raw then c @ raw else [])"
  by (induction raw arbitrary: c) simp_all

lemma redactHeader_eq:
  "redactHeaderForLogging raw = (if list_all id_byte (take 128 raw) then take 128 raw else [])"
  by (simp add: redactHeaderForLogging_def clean_id_eq)

lemma redactHeader_valid: "isValidRequestID raw \<Longrightarrow> redactHeaderForLogging raw = raw"
  by (simp add: redactHeader_eq isValidRequestID_def split: if_splits)

lemma redactHeader_safe:
  "redactHeaderForLogging raw = [] \<or> isValidRequestID (redactHeaderForLogging raw)"
  by (auto simp: redactHeader_eq isValidRequestID_def)

text \<open>The value of an attribute of the entry; the middleware's own attributes come before the extra ones.\<close>

definition logged :: "string \<Rightarrow> access_entry \<Rightarrow> lnum avalue option" where
  "logged key e = map_of (map (\<lambda>a. (a_Key a, a_Value a)) (lr_Attrs (ae_record e))) key"

fun writes_only :: "write_op list \<Rightarrow> bool" where
  "writes_only [] \<longleftrightarrow> True"
| "writes_only (WriteHeader code # ops) \<longleftrightarrow> False"
| "writes_only (Write n # ops) \<longleftrightarrow> writes_only ops"

text \<open>A handler that sets its status once, before it writes, or not at all.\<close>

fun status_first :: "write_op list \<Rightarrow> bool" where
  "status_first (WriteHeader code # ops) \<longleftrightarrow> 200 \<le> code \<and> writes_only ops"
| "status_first ops \<longleftrightarrow> writes_only ops"

text \<open>The recorder agrees with the connection.\<close>

definition rec_ok :: "statusRecorder \<Rightarrow> bool" where
  "rec_ok r \<longleftrightarrow> sr_statusCode r = sent_status (sr_conn r) \<and> sr_bytesWritten r = hc_bytes (sr_conn r) \<and> 0 \<le> hc_bytes (sr_conn r)"

lemma sr_ops_bytes_mono: "hc_bytes (sr_conn r) \<le> hc_bytes (sr_conn (sr_ops ops r))"
proof (induction ops r rule: sr_ops.induct)
  case (2 code ops r)
  have "hc_bytes (net_WriteHeader code c) = hc_bytes c" for c by (simp add: net_WriteHeader_def)
  with 2 show ?case by (simp add: sr_WriteHeader_def)
next
  case (3 n ops r)
  then show ?case by (simp add: sr_Write_def net_Write_def)
qed simp

lemma rec_ok_Write:
  assumes "rec_ok r" "hc_bytes (sr_conn r) + int n < 2 ^ 63"
  shows "rec_ok (sr_Write n r)"
proof -
  have "wrap64 (hc_bytes (sr_conn r) + int n) = hc_bytes (sr_conn r) + int n"
    using assms by (intro wrap64_id) (simp add: in_int64_def rec_ok_def)
  with assms(1) show ?thesis by (simp add: rec_ok_def sr_Write_def net_Write_def sent_status_def split: option.splits)
qed

lemma rec_ok_writes:
  assumes "writes_only ops" "rec_ok r" "hc_bytes (sr_conn (sr_ops ops r)) < 2 ^ 63"
  shows "rec_ok (sr_ops ops r)"
  using assms
proof (induction ops r rule: sr_ops.induct)
  case (3 n ops r)
  then have "hc_bytes (sr_conn (sr_Write n r)) < 2 ^ 63"
    using sr_ops_bytes_mono [of "sr_Write n r" ops] by simp
  then have "rec_ok (sr_Write n r)" using 3 by (intro rec_ok_Write) (simp_all add: sr_Write_def net_Write_def)
  with 3 show ?case by simp
qed simp_all

lemma rec_ok_status_first:
  assumes "status_first ops" "hc_status c = None" "hc_bytes c = 0"
    "hc_bytes (sr_conn (sr_ops ops \<lparr>sr_conn = c, sr_statusCode = 200, sr_bytesWritten = 0\<rparr>)) < 2 ^ 63"
  shows "rec_ok (sr_ops ops \<lparr>sr_conn = c, sr_statusCode = 200, sr_bytesWritten = 0\<rparr>)"
proof (cases "writes_only ops")
  case True
  have "rec_ok \<lparr>sr_conn = c, sr_statusCode = 200, sr_bytesWritten = 0\<rparr>"
    using assms by (simp add: rec_ok_def sent_status_def)
  then show ?thesis using rec_ok_writes [OF True] assms by simp
next
  case False
  then obtain code rest where ops: "ops = WriteHeader code # rest"
    using assms(1) by (cases ops rule: status_first.cases) auto
  have "rec_ok (sr_WriteHeader code \<lparr>sr_conn = c, sr_statusCode = 200, sr_bytesWritten = 0\<rparr>)"
    using assms ops by (simp add: rec_ok_def sent_status_def sr_WriteHeader_def net_WriteHeader_def)
  then show ?thesis using rec_ok_writes [of rest] assms ops by simp
qed

lemma lg_Middleware_returns:
  assumes "lg_Middleware cfg start stop handler r w = (w1, Inr e)"
    "rec = sr_ops (fst (handler (lg_passed cfg r))) \<lparr>sr_conn = w, sr_statusCode = 200, sr_bytesWritten = 0\<rparr>"
  shows "w1 = sr_conn rec" "logged ''status'' e = Some (VOther (NInt (sr_statusCode rec)))"
    "logged ''bytes'' e = Some (VOther (NInt (sr_bytesWritten rec)))" "ae_level e = level_of (sr_statusCode rec)"
    "lg_reqID cfg r \<noteq> [] \<Longrightarrow> logged ''request_id'' e = Some (VString (lg_reqID cfg r))"
    "lg_reqID cfg r = [] \<Longrightarrow> lo_ExtraAttributes cfg = None \<Longrightarrow> logged ''request_id'' e = None"
    "ae_logger e = lg_reqLogger cfg r"
  using assms
  by (auto simp: lg_Middleware_def Let_def logged_def lg_attrs_def split: prod.splits option.splits)


definition demo_request :: "(string, string) gomap \<Rightarrow> web_request" where
  "demo_request headers =
     \<lparr>wr_Method = ''GET'', wr_Pattern = ''GET /x'', wr_Path = ''/x'', wr_RemoteAddr = ''10.0.0.1:80'', wr_Header = headers,
      wr_Context = \<lparr>wc_requestID = None, wc_logger = None\<rparr>\<rparr>"

definition demo_conn :: http_conn where
  "demo_conn = \<lparr>hc_status = None, hc_bytes = 0\<rparr>"


text \<open>
  The recorder keeps the last status, the connection the first: a status set after the first write, or an
  informational one, is logged although the client received another.
\<close>

lemma access_log_shows_last_status:
  "\<exists>e. lg_Middleware (lg_config []) 0 0 (\<lambda>_. ([Write 5, WriteHeader 500], None)) (demo_request []) demo_conn = (\<lparr>hc_status = Some 200, hc_bytes = 5\<rparr>, Inr e)
     \<and> logged ''status'' e = Some (VOther (NInt 500)) \<and> ae_level e = LevelError"
  "\<exists>e. lg_Middleware (lg_config []) 0 0 (\<lambda>_. ([WriteHeader 103, Write 5], None)) (demo_request []) demo_conn = (\<lparr>hc_status = Some 200, hc_bytes = 5\<rparr>, Inr e)
     \<and> logged ''status'' e = Some (VOther (NInt 103))"
  by (simp_all add: lg_Middleware_def demo_conn_def sr_WriteHeader_def net_WriteHeader_def sr_Write_def net_Write_def
      logged_def lg_attrs_def level_of_def Let_def)

section \<open>The middleware together\<close>

text \<open>
  Behind the request identifier middleware, a valid identifier of the client is echoed, kept in the context and
  logged; a generated one is not logged, since the access log reads the request's header.
\<close>

lemma client_id_traced:
  assumes "isValidRequestID (get_header rid_Header r)" "rid_Middleware uuid r = (echoed, r1)"
  shows "echoed = get_header rid_Header r \<and> rid_FromContext (wr_Context r1) = echoed \<and> lg_reqID (lg_config []) r1 = echoed"
proof -
  have "isAllowedCorrelationHeader rid_Header" by code_simp
  with assms show ?thesis
    by (auto simp: rid_Middleware_def rid_FromContext_def lg_reqID_def lg_config_def DefaultRequestIDHeader_def rid_Header_def
        get_header_def redactHeader_valid Let_def)
qed

lemma generated_id_not_logged:
  assumes "get_header rid_Header r = []" "rid_Middleware uuid r = (echoed, r1)"
  shows "echoed = uuid \<and> rid_FromContext (wr_Context r1) = uuid \<and> lg_reqID (lg_config []) r1 = []"
  using assms
  by (auto simp: rid_Middleware_def rid_FromContext_def lg_reqID_def lg_config_def DefaultRequestIDHeader_def rid_Header_def
      get_header_def redactHeader_eq isValidRequestID_def Let_def)

text \<open>
  With the recovery inside, every request is logged, and a panic before the first write as a 500 that the client also
  receives; with the recovery outside, a panic leaves no access log entry.
\<close>

lemma recovered_logged: "\<exists>w1 e. lg_Middleware cfg start stop (recovered taken handler) r w = (w1, Inr e)"
  by (simp add: lg_Middleware_def recovered_def Let_def split: prod.splits)

lemma recovered_panic_logged:
  assumes "handler (lg_passed cfg r) = ([], Some v)"
    and "lg_Middleware cfg start stop (recovered taken handler) r demo_conn = (w, Inr e)"
  shows "hc_status w = Some 500 \<and> logged ''status'' e = Some (VOther (NInt 500)) \<and> ae_level e = LevelError"
  using assms
  by (auto simp: lg_Middleware_def recovered_def recover_Middleware_def demo_conn_def sr_WriteHeader_def net_WriteHeader_def
      sr_Write_def net_Write_def logged_def lg_attrs_def level_of_def Let_def)

lemma panic_outside_not_logged:
  "handler (lg_passed cfg r) = (ops, Some v) \<Longrightarrow> snd (lg_Middleware cfg start stop handler r w) = Inl v"
  by (simp add: lg_Middleware_def Let_def)

end
