(* ===== verification/Gin_Handlers.thy ===== *)
theory Gin_Handlers
  imports Gin_Metrics Http_Response Log_Http
begin

text \<open>
  The remaining adapters for Gin and what they wrap: security headers (\<open>src/securityheaders/securityheaders.go\<close>,
  \<open>src/ginmw/security.go\<close>), request identifiers and the access log (\<open>src/ginmw/requestid.go\<close>, \<open>src/ginmw/logger.go\<close>),
  the recovery and the error handler (\<open>src/ginmw/recovery.go\<close>, \<open>src/ginmw/error_handler.go\<close>, \<open>RouteLabel\<close> of \<open>src/ginmw/telemetry.go\<close>), the response envelopes
  (\<open>src/ginmw/response.go\<close>) and the limits on request bodies (\<open>src/bodylimit/bodylimit.go\<close>, \<open>src/ginmw/bodylimit.go\<close>).
  Response headers are a map; the spans are in \<open>Tracing\<close>.
\<close>

section \<open>Security headers\<close>

record sec_Config =
  sc_ServerName :: string
  sc_HSTSMaxAge :: int
  sc_CSP :: string
  sc_PermissionsPolicy :: string

definition sec_WithServerName :: "string \<Rightarrow> sec_Config \<Rightarrow> sec_Config" where "sec_WithServerName name c = c\<lparr>sc_ServerName := name\<rparr>"
definition WithHSTSMaxAge :: "int \<Rightarrow> sec_Config \<Rightarrow> sec_Config" where "WithHSTSMaxAge maxAge c = c\<lparr>sc_HSTSMaxAge := maxAge\<rparr>"
definition WithCSP :: "string \<Rightarrow> sec_Config \<Rightarrow> sec_Config" where "WithCSP policy c = c\<lparr>sc_CSP := policy\<rparr>"
definition WithPermissionsPolicy :: "string \<Rightarrow> sec_Config \<Rightarrow> sec_Config" where
  "WithPermissionsPolicy policy c = c\<lparr>sc_PermissionsPolicy := policy\<rparr>"

definition sec_DefaultConfig :: sec_Config where
  "sec_DefaultConfig =
     \<lparr>sc_ServerName = ''api'', sc_HSTSMaxAge = 63072000,
      sc_CSP = ''default-src '' @ CHR 0x27 # ''none'' @ CHR 0x27 # ''; frame-ancestors '' @ CHR 0x27 # ''none'' @ CHR 0x27 # '';'',
      sc_PermissionsPolicy = ''geolocation=(), microphone=(), camera=()''\<rparr>"

definition sec_config :: "(sec_Config \<Rightarrow> sec_Config) list \<Rightarrow> sec_Config" where
  "sec_config opts =
     (let cfg = fold (\<lambda>opt c. opt c) opts sec_DefaultConfig;
          cfg = (if sc_ServerName cfg = [] then cfg\<lparr>sc_ServerName := sc_ServerName sec_DefaultConfig\<rparr> else cfg);
          cfg = (if sc_HSTSMaxAge cfg = 0 then cfg\<lparr>sc_HSTSMaxAge := sc_HSTSMaxAge sec_DefaultConfig\<rparr> else cfg);
          cfg = (if sc_CSP cfg = [] then cfg\<lparr>sc_CSP := sc_CSP sec_DefaultConfig\<rparr> else cfg)
      in if sc_PermissionsPolicy cfg = [] then cfg\<lparr>sc_PermissionsPolicy := sc_PermissionsPolicy sec_DefaultConfig\<rparr> else cfg)"

type_synonym headers = "(string, string) gomap"

definition sec_New :: "(sec_Config \<Rightarrow> sec_Config) list \<Rightarrow> headers \<Rightarrow> headers" where
  "sec_New opts h =
     (let cfg = sec_config opts; hsts = ''max-age='' @ itoa (sc_HSTSMaxAge cfg) @ ''; includeSubDomains; preload''
      in fold (\<lambda>(k, v) h. mput k v h)
           [(''X-Frame-Options'', ''DENY''),
            (''X-Content-Type-Options'', ''nosniff''),
            (''X-XSS-Protection'', ''1; mode=block''),
            (''Referrer-Policy'', ''strict-origin-when-cross-origin''),
            (''Strict-Transport-Security'', hsts),
            (''Permissions-Policy'', sc_PermissionsPolicy cfg),
            (''Content-Security-Policy'', sc_CSP cfg),
            (''Cache-Control'', ''no-store''),
            (''Pragma'', ''no-cache''),
            (''Server'', sc_ServerName cfg)] h)"

definition SecurityHeaders :: "string list \<Rightarrow> headers \<Rightarrow> headers" where
  "SecurityHeaders serverName h =
     (let name = (case serverName of s # _ \<Rightarrow> if s \<noteq> [] then s else ''api'' | [] \<Rightarrow> ''api'') in sec_New [sec_WithServerName name] h)"

section \<open>Request identifiers and the access log\<close>

text \<open>The response writer of a request starts with the status 200.\<close>

record gin_writer =
  gw_status :: int
  gw_written :: bool

record gin_req =
  gr_request :: web_request
  gr_fullPath :: string
  gr_clientIP :: string
  gr_strings :: "(string, string) gomap"
  gr_headers :: headers
  gr_writer :: gin_writer

definition RequestID :: "string \<Rightarrow> gin_req \<Rightarrow> gin_req" where
  "RequestID uuid c =
     (let (echoed, r) = rid_Middleware uuid (gr_request c)
      in c\<lparr>gr_headers := mput rid_Header echoed (gr_headers c), gr_request := r\<rparr>)"

definition GetRequestID :: "web_context \<Rightarrow> string" where
  "GetRequestID ctx = rid_FromContext ctx"

text \<open>The record that is written after the handlers have returned; \<open>c\<close> is the context then.\<close>

definition gin_Logger :: "time \<Rightarrow> time \<Rightarrow> gin_req \<Rightarrow> lnum attr list" where
  "gin_Logger start stop c =
     (let s = (case map_of (gr_strings c) ''request_id'' of Some v \<Rightarrow> v | None \<Rightarrow> []);
          reqID = (if s = [] then rid_FromContext (wr_Context (gr_request c)) else s)
      in [Attr ''request_id'' (VString reqID),
          Attr ''method'' (VString (wr_Method (gr_request c))),
          Attr ''path'' (VString (wr_Path (gr_request c))),
          Attr ''status'' (VOther (NInt (gw_status (gr_writer c)))),
          Attr ''latency'' (VOther (NInt (time_sub stop start))),
          Attr ''client_ip'' (VString (gr_clientIP c))])"

section \<open>Errors\<close>

definition RouteLabel :: "gin_req option \<Rightarrow> string" where
  "RouteLabel c = (case c of None \<Rightarrow> ''unmatched'' | Some c \<Rightarrow> if gr_fullPath c \<noteq> [] then gr_fullPath c else ''unmatched'')"

text \<open>
  The recovery answers a panic with 500 unless the handler has already written, and logs it; \<open>c\<close> is the context
  when the handlers have ended, with the value they panicked with, if they did.
\<close>

definition gin_Recovery :: "gin_req \<Rightarrow> string option \<Rightarrow> gin_req \<times> panic_entry option" where
  "gin_Recovery c panic =
     (case panic of
        None \<Rightarrow> (c, None)
      | Some v \<Rightarrow>
          (if gw_written (gr_writer c) then c else c\<lparr>gr_writer := \<lparr>gw_status = 500, gw_written = True\<rparr>\<rparr>,
           Some \<lparr>pe_error = v, pe_route = RouteLabel (Some c), pe_path = wr_Path (gr_request c)\<rparr>))"

text \<open>
  What the error handler does after the handlers have returned with the errors \<open>errs\<close>: what it logs, and the reply it
  writes if none has been written.
\<close>

record error_entry =
  ee_error :: derror
  ee_route :: string
  ee_count :: nat

definition ErrorHandler :: "bool \<Rightarrow> derror list \<Rightarrow> gin_req \<Rightarrow> error_entry option \<times> 'd http_reply option" where
  "ErrorHandler has_logger errs c =
     (if length errs = 0 then (None, None)
      else
        let route = RouteLabel (Some c); lastErr = last errs in
        (if has_logger then Some \<lparr>ee_error = lastErr, ee_route = route, ee_count = length errs\<rparr> else None,
         if \<not> gw_written (gr_writer c) then Some (ErrorFromDomain lastErr) else None))"

section \<open>Envelopes\<close>

record APIError =
  ap_Code :: string
  ap_Message :: string
  ap_Detail :: string

record 'a Envelope =
  en_Success :: bool
  en_Data :: "'a option"
  en_Error :: "APIError option"

definition RespondSuccess :: "'a \<Rightarrow> int \<times> 'a Envelope" where
  "RespondSuccess d = (200, \<lparr>en_Success = True, en_Data = Some d, en_Error = None\<rparr>)"

definition RespondCreated :: "'a \<Rightarrow> int \<times> 'a Envelope" where
  "RespondCreated d = (201, \<lparr>en_Success = True, en_Data = Some d, en_Error = None\<rparr>)"

definition RespondError :: "int \<Rightarrow> string \<Rightarrow> string \<Rightarrow> int \<times> 'a Envelope" where
  "RespondError status code msg =
     (status, \<lparr>en_Success = False, en_Data = None, en_Error = Some \<lparr>ap_Code = code, ap_Message = msg, ap_Detail = []\<rparr>\<rparr>)"

definition RespondErrorWithDetail :: "int \<Rightarrow> string \<Rightarrow> string \<Rightarrow> string \<Rightarrow> int \<times> 'a Envelope" where
  "RespondErrorWithDetail status code msg detail =
     (status, \<lparr>en_Success = False, en_Data = None, en_Error = Some \<lparr>ap_Code = code, ap_Message = msg, ap_Detail = detail\<rparr>\<rparr>)"

section \<open>Body limits\<close>

text \<open>
  \<open>http.MaxBytesReader\<close> with the limit \<open>n\<close>: what reading a body to its end gives, and whether it fails because the
  body is longer. A negative limit counts as zero.
\<close>

definition max_bytes :: "int \<Rightarrow> string \<Rightarrow> string \<times> bool" where
  "max_bytes n body = (let l = nat n in (take l body, l < length body))"

definition bodylimit_New :: "int \<Rightarrow> string option \<Rightarrow> (string \<times> bool) option" where
  "bodylimit_New maxBytes body = map_option (max_bytes maxBytes) body"

definition MB :: "int \<Rightarrow> string option \<Rightarrow> (string \<times> bool) option" where
  "MB n = bodylimit_New (wrap64 (n * 2 ^ 20))"

definition KB :: "int \<Rightarrow> string option \<Rightarrow> (string \<times> bool) option" where
  "KB n = bodylimit_New (wrap64 (n * 2 ^ 10))"

definition bodylimit_String :: "int \<Rightarrow> string" where
  "bodylimit_String bytes =
     (if bytes \<ge> 2 ^ 20 then itoa (bytes div 2 ^ 20) @ '' MB''
      else if bytes \<ge> 2 ^ 10 then itoa (bytes div 2 ^ 10) @ '' KB''
      else itoa bytes @ '' B'')"

definition LimitBodyDefault :: "string \<Rightarrow> string \<times> bool" where
  "LimitBodyDefault body = max_bytes (2 * 2 ^ 20) body"

definition LimitBodyAuth :: "string \<Rightarrow> string \<times> bool" where
  "LimitBodyAuth body = max_bytes (4 * 2 ^ 10) body"

section \<open>What the adapters guarantee\<close>

lemma fold_mput_other: "k \<notin> fst ` set kvs \<Longrightarrow> map_of (fold (\<lambda>(k, v) h. mput k v h) kvs h) k = map_of h k"
  by (induction kvs arbitrary: h) (auto simp: go_map)

lemma fold_mput_lookup:
  assumes "distinct (map fst kvs)" "(k, v) \<in> set kvs"
  shows "map_of (fold (\<lambda>(k, v) h. mput k v h) kvs h) k = Some v"
  using assms
proof (induction kvs arbitrary: h)
  case (Cons kv kvs)
  obtain a b where kv: "kv = (a, b)" by (cases kv)
  show ?case
  proof (cases "(k, v) \<in> set kvs")
    case True
    with Cons show ?thesis by (simp add: kv)
  next
    case False
    with Cons.prems kv have "k = a" "v = b" by auto
    with Cons.prems kv fold_mput_other [of a kvs "mput a b h"] show ?thesis by (simp add: go_map)
  qed
qed simp

text \<open>Whatever the options leave empty has its default, and every header replaces what was set before.\<close>

lemma sec_config_filled:
  "sc_CSP (sec_config opts) \<noteq> []" "sc_ServerName (sec_config opts) \<noteq> []" "sc_HSTSMaxAge (sec_config opts) \<noteq> 0"
  by (simp_all add: sec_config_def sec_DefaultConfig_def Let_def)

lemma security_headers_set:
  "(k, v) \<in> {(''X-Frame-Options'', ''DENY''), (''X-Content-Type-Options'', ''nosniff''), (''Cache-Control'', ''no-store''),
     (''Content-Security-Policy'', sc_CSP (sec_config opts)), (''Server'', sc_ServerName (sec_config opts))}
   \<Longrightarrow> map_of (sec_New opts h) k = Some v"
  unfolding sec_New_def Let_def by (rule fold_mput_lookup) auto

text \<open>
  The access log for Gin shows the identifier that is echoed to the client, also when it was generated, unless a
  handler has set another one under \<open>request_id\<close>.
\<close>

lemma gin_logs_echoed_id:
  assumes "map_of (gr_strings c) ''request_id'' = None" "c' = RequestID uuid c"
  shows "\<exists>id'. map_of (gr_headers c') rid_Header = Some id' \<and> Attr ''request_id'' (VString id') \<in> set (gin_Logger start stop c') \<and>
    (id' = uuid \<or> id' = get_header rid_Header (gr_request c))"
  using assms by (auto simp: RequestID_def rid_Middleware_def gin_Logger_def rid_FromContext_def Let_def go_map)

text \<open>
  Errors that handlers leave in the context are answered with the status of the last one, unless a response
  has been written; a request without errors is left alone.
\<close>

lemma error_handler_answers:
  assumes "errs \<noteq> []" "\<not> gw_written (gr_writer c)" "as_api (last errs) = Some (AppError code msg d cause)"
  shows "\<exists>reply. snd (ErrorHandler l errs c) = Some reply \<and> hr_status reply = GetStatus code"
  using assms by (simp add: ErrorHandler_def ErrorFromDomain_def WriteJSON_def Let_def)

lemma error_handler_silent:
  "ErrorHandler l [] c = (None, None)" "gw_written (gr_writer c) \<Longrightarrow> snd (ErrorHandler l errs c) = None"
  by (simp_all add: ErrorHandler_def Let_def)

text \<open>A handler never reads more than the limit, and the whole of a body that fits.\<close>

lemma max_bytes_bound:
  "length (fst (max_bytes n body)) \<le> nat n" "int (length body) \<le> n \<Longrightarrow> max_bytes n body = (body, False)"
  "snd (max_bytes n body) \<longleftrightarrow> nat n < length body"
  by (auto simp: max_bytes_def Let_def)

text \<open>The number of megabytes wraps around: a limit of \<open>2^43\<close> megabytes or more lets nothing through.\<close>

lemma MB_wraps: "MB (2 ^ 43) (Some body) = Some ([], body \<noteq> [])" "MB (2 ^ 44) (Some body) = Some ([], body \<noteq> [])"
  by (simp_all add: MB_def bodylimit_New_def max_bytes_def wrap64_def)

text \<open>
  The deferred function of the metrics reads the writer's status when it runs. With the recovery inside the
  metrics a panic is counted as the 500 that the client receives; with the recovery outside, it is counted as a success.
\<close>

lemma panic_counted_as_success:
  assumes "gr_writer c = \<lparr>gw_status = 200, gw_written = False\<rparr>"
  shows "gw_status (gr_writer (fst (gin_Recovery c (Some v)))) = 500"
    "mt_Status2xx (class_count (gw_status (gr_writer c)) t) = mt_Status2xx t + 1" "error_count (gw_status (gr_writer c)) t = t"
    "mt_Status5xx (class_count (gw_status (gr_writer (fst (gin_Recovery c (Some v))))) t) = mt_Status5xx t + 1"
  using assms by (simp_all add: gin_Recovery_def error_count_def)

end
