(* ===== verification/Shutdown.thy ===== *)
theory Shutdown
  imports Go_Quote
begin

text \<open>
  The shutdown manager (\<open>src/shutdown/shutdown.go\<close>). \<open>Execute\<close> starts one goroutine per hook and one that waits for
  all of them, and selects between their end and the end of its context: \<open>sd_step\<close> has a rule for every
  step that the others can observe. What a hook does is chosen by the step: it returns nil or an error,
  or it panics; it may also never end. The channel \<open>errs\<close> has room for one error per hook.
\<close>

section \<open>The manager\<close>

text \<open>A hook is its name; its callback is what the steps choose.\<close>

record Manager =
  sm_hooks :: "string list"
  sm_timeout :: duration

definition sm_New :: "duration \<Rightarrow> Manager" where
  "sm_New timeout = \<lparr>sm_hooks = [], sm_timeout = timeout\<rparr>"

definition sm_Register :: "string \<Rightarrow> Manager \<Rightarrow> Manager" where
  "sm_Register name m = m\<lparr>sm_hooks := sm_hooks m @ [name]\<rparr>"

section \<open>Execute\<close>

datatype hook_outcome = HReturns "error option" | HPanics string

text \<open>The error a hook's goroutine sends for an outcome, if any; a recovered panic is one.\<close>

fun hook_error :: "string \<Rightarrow> hook_outcome \<Rightarrow> error option" where
  "hook_error name (HReturns e) = e"
| "hook_error name (HPanics v) = Some (Err (''shutdown hook '' @ go_quote name @ '' panicked: '' @ v))"

text \<open>A hook's goroutine: inside the callback; after it, the error sent if there was one; after \<open>wg.Done\<close>.\<close>

datatype hook_pc = HRun | HEnded "error option" | HDone "error option"

text \<open>The caller: in the select; receiving after all hooks are done; receiving after the context has ended; returned.\<close>

datatype main_pc = MSelect | MCollect "error option" | MDrain error | MReturned "error option"

record sd =
  sd_names :: "string list"
  sd_hooks :: "hook_pc list"
  sd_errs :: "error list"
  sd_closed :: bool
  sd_done :: bool
  sd_ctx :: ctx_err
  sd_main :: main_pc
  sd_panic :: bool

definition sd_start :: "Manager \<Rightarrow> ctx_err \<Rightarrow> sd" where
  "sd_start m ctx =
     \<lparr>sd_names = sm_hooks m, sd_hooks = replicate (length (sm_hooks m)) HRun, sd_errs = [], sd_closed = False, sd_done = False,
      sd_ctx = ctx, sd_main = (if sm_hooks m = [] then MReturned ctx else MSelect), sd_panic = False\<rparr>"

definition join_err :: "error option \<Rightarrow> error \<Rightarrow> error option" where
  "join_err finalErr err = (case finalErr of None \<Rightarrow> Some err | Some f \<Rightarrow> Some (Join [f, err]))"

text \<open>Sending on a closed channel panics; on a full one it blocks (no step).\<close>

inductive sd_step :: "sd \<Rightarrow> sd \<Rightarrow> bool" where
  hook_quiet: "i < length (sd_hooks v) \<Longrightarrow> sd_hooks v ! i = HRun \<Longrightarrow> hook_error (sd_names v ! i) out = None \<Longrightarrow>
    sd_step v (v\<lparr>sd_hooks := (sd_hooks v)[i := HEnded None]\<rparr>)"
| hook_send: "i < length (sd_hooks v) \<Longrightarrow> sd_hooks v ! i = HRun \<Longrightarrow> hook_error (sd_names v ! i) out = Some e \<Longrightarrow>
    \<not> sd_closed v \<Longrightarrow> length (sd_errs v) < length (sd_names v) \<Longrightarrow>
    sd_step v (v\<lparr>sd_hooks := (sd_hooks v)[i := HEnded (Some e)], sd_errs := sd_errs v @ [e]\<rparr>)"
| hook_crash: "i < length (sd_hooks v) \<Longrightarrow> sd_hooks v ! i = HRun \<Longrightarrow> hook_error (sd_names v ! i) out = Some e \<Longrightarrow>
    sd_closed v \<Longrightarrow> sd_step v (v\<lparr>sd_panic := True\<rparr>)"
| hook_done: "i < length (sd_hooks v) \<Longrightarrow> sd_hooks v ! i = HEnded r \<Longrightarrow>
    sd_step v (v\<lparr>sd_hooks := (sd_hooks v)[i := HDone r]\<rparr>)"
| waiter: "\<forall>h \<in> set (sd_hooks v). \<exists>r. h = HDone r \<Longrightarrow> sd_step v (v\<lparr>sd_done := True\<rparr>)"
| ctx_end: "sd_ctx v = None \<Longrightarrow> sd_step v (v\<lparr>sd_ctx := Some e\<rparr>)"
| main_done: "sd_main v = MSelect \<Longrightarrow> sd_done v \<Longrightarrow> sd_step v (v\<lparr>sd_closed := True, sd_main := MCollect None\<rparr>)"
| main_ctx: "sd_main v = MSelect \<Longrightarrow> sd_ctx v = Some e \<Longrightarrow> sd_step v (v\<lparr>sd_main := MDrain e\<rparr>)"
| collect: "sd_main v = MCollect f \<Longrightarrow> sd_errs v = e # es \<Longrightarrow>
    sd_step v (v\<lparr>sd_errs := es, sd_main := MCollect (join_err f e)\<rparr>)"
| collect_end: "sd_main v = MCollect f \<Longrightarrow> sd_errs v = [] \<Longrightarrow> sd_closed v \<Longrightarrow> sd_step v (v\<lparr>sd_main := MReturned f\<rparr>)"
| drain: "sd_main v = MDrain f \<Longrightarrow> sd_errs v = e # es \<Longrightarrow>
    sd_step v (v\<lparr>sd_errs := es, sd_main := MDrain (Join [f, e])\<rparr>)"
| drain_end: "sd_main v = MDrain f \<Longrightarrow> sd_errs v = [] \<Longrightarrow> sd_step v (v\<lparr>sd_main := MReturned (Some f)\<rparr>)"

text \<open>\<open>Wait\<close> runs \<open>Execute\<close> with a new context that ends after the manager's timeout.\<close>

definition sd_wait :: "Manager \<Rightarrow> sd" where
  "sd_wait m = sd_start m None"

section \<open>Invariants\<close>

fun sent_by :: "hook_pc \<Rightarrow> error list" where
  "sent_by (HEnded (Some e)) = [e]"
| "sent_by (HDone (Some e)) = [e]"
| "sent_by _ = []"

definition reported :: "sd \<Rightarrow> error list" where
  "reported v = concat (map sent_by (sd_hooks v))"

text \<open>The errors an error has been joined from, as \<open>errors.Is\<close> sees them.\<close>

fun has_err :: "main_pc \<Rightarrow> error \<Rightarrow> bool" where
  "has_err MSelect e = False"
| "has_err (MCollect f) e = (case f of None \<Rightarrow> False | Some x \<Rightarrow> errors_is x e)"
| "has_err (MDrain f) e = errors_is f e"
| "has_err (MReturned f) e = (case f of None \<Rightarrow> False | Some x \<Rightarrow> errors_is x e)"

definition all_done :: "sd \<Rightarrow> bool" where
  "all_done v \<longleftrightarrow> (\<forall>h \<in> set (sd_hooks v). \<exists>r. h = HDone r)"

text \<open>How many hooks have not ended their callback.\<close>

definition running :: "sd \<Rightarrow> nat" where
  "running v = length (filter (\<lambda>h. h = HRun) (sd_hooks v))"

definition sd_inv :: "sd \<Rightarrow> bool" where
  "sd_inv v \<longleftrightarrow>
     length (sd_hooks v) = length (sd_names v) \<and> \<not> sd_panic v \<and>
     (sd_done v \<longrightarrow> all_done v) \<and> (sd_closed v \<longrightarrow> sd_done v) \<and>
     length (sd_errs v) + running v \<le> length (sd_names v) \<and>
     set (sd_errs v) \<subseteq> set (reported v) \<and> (\<forall>e \<in> set (reported v). e \<in> set (sd_errs v) \<or> has_err (sd_main v) e)"

definition main_inv :: "sd \<Rightarrow> bool" where
  "main_inv v \<longleftrightarrow>
     (case sd_main v of
        MSelect \<Rightarrow> True
      | MCollect f \<Rightarrow> sd_closed v \<and> (f \<noteq> None \<longrightarrow> reported v \<noteq> [])
      | MDrain f \<Rightarrow> (\<exists>e. sd_ctx v = Some e \<and> errors_is f e)
      | MReturned f \<Rightarrow> sd_names v = [] \<or> (all_done v \<and> sd_errs v = [] \<and> (f \<noteq> None \<longrightarrow> reported v \<noteq> [])) \<or>
          (\<exists>e x. sd_ctx v = Some e \<and> f = Some x \<and> errors_is x e))"

lemma join_err_has: "has_err (MCollect (join_err f e)) t \<longleftrightarrow> has_err (MCollect f) t \<or> errors_is e t \<or> (\<exists>x. f = Some x \<and> t = Join [x, e])"
  by (auto simp: join_err_def split: option.splits)

lemma concat_update:
  "i < length xs \<Longrightarrow> set (concat (map f (xs[i := y]))) \<subseteq> set (f y) \<union> set (concat (map f xs)) \<and>
   (f (xs ! i) = [] \<or> f (xs ! i) = f y \<longrightarrow> set (concat (map f (xs[i := y]))) = set (f y) \<union> set (concat (map f xs)))"
  by (induction xs arbitrary: i) (auto split: nat.splits)

lemma reported_update:
  assumes "i < length (sd_hooks v)" and "sent_by (sd_hooks v ! i) = [] \<or> sent_by (sd_hooks v ! i) = sent_by h"
  shows "set (concat (map sent_by ((sd_hooks v)[i := h]))) = set (sent_by h) \<union> set (reported v)"
  using concat_update [OF assms(1), of sent_by h] assms(2) by (simp add: reported_def)

lemma filter_update_len:
  "i < length xs \<Longrightarrow> P (xs ! i) \<Longrightarrow> \<not> P y \<Longrightarrow> Suc (length (filter P (xs[i := y]))) = length (filter P xs)"
  by (induction xs arbitrary: i) (auto split: nat.splits)

lemma filter_update_same:
  "i < length xs \<Longrightarrow> \<not> P (xs ! i) \<Longrightarrow> \<not> P y \<Longrightarrow> length (filter P (xs[i := y])) = length (filter P xs)"
  by (induction xs arbitrary: i) (auto split: nat.splits)

lemma not_all_done: "i < length (sd_hooks v) \<Longrightarrow> sd_hooks v ! i = HRun \<Longrightarrow> \<not> all_done v"
  by (auto simp: all_done_def set_conv_nth)

lemma all_done_update: "i < length (sd_hooks v) \<Longrightarrow> sd_hooks v ! i = HEnded r \<Longrightarrow> \<not> all_done v"
  by (auto simp: all_done_def set_conv_nth)

lemma same_hooks:
  assumes "sd_hooks v' = sd_hooks v"
  shows "reported v' = reported v" and "running v' = running v" and "all_done v' = all_done v"
  using assms by (simp_all add: reported_def running_def all_done_def)

text \<open>A step of a hook or of the goroutine that waits for them.\<close>

lemma sd_inv_hook:
  assumes "sd_inv v" and "sd_names v' = sd_names v" and "length (sd_hooks v') = length (sd_hooks v)" and "\<not> sd_panic v'"
    and "sd_done v' = sd_done v" and "sd_closed v' = sd_closed v" and "sd_main v' = sd_main v" and "\<not> all_done v"
    and "length (sd_errs v') + running v' \<le> length (sd_errs v) + running v"
    and "set (sd_errs v') = set es \<union> set (sd_errs v)" and "set (reported v') = set es \<union> set (reported v)"
  shows "sd_inv v'"
  using assms unfolding sd_inv_def by auto

lemma sd_step_inv:
  assumes "sd_step v v'" and "sd_inv v"
  shows "sd_inv v'"
  using assms(1)
proof cases
  case (hook_quiet i out)
  have "set (reported v') = set (reported v)" "Suc (running v') = running v"
    using reported_update [of i v "HEnded None"] filter_update_len [of i "sd_hooks v" "\<lambda>h. h = HRun" "HEnded None"] hook_quiet
    by (simp_all add: reported_def running_def)
  with assms(2) not_all_done [OF hook_quiet(2,3)] hook_quiet(1) show ?thesis
    by (intro sd_inv_hook [of v v' "[]"]) (auto simp: sd_inv_def)
next
  case (hook_send i out e)
  have "set (reported v') = set [e] \<union> set (reported v)" "Suc (running v') = running v"
    using reported_update [of i v "HEnded (Some e)"] filter_update_len [of i "sd_hooks v" "\<lambda>h. h = HRun" "HEnded (Some e)"] hook_send
    by (simp_all add: reported_def running_def)
  with assms(2) not_all_done [OF hook_send(2,3)] hook_send(1) show ?thesis
    by (intro sd_inv_hook [of v v' "[e]"]) (auto simp: sd_inv_def)
next
  case (hook_crash i out e)
  with assms(2) not_all_done [OF hook_crash(2,3)] show ?thesis by (auto simp: sd_inv_def)
next
  case (hook_done i r)
  have "set (sent_by (HDone r)) \<subseteq> set (reported v)"
    using hook_done(2,3) nth_mem [of i "sd_hooks v"] by (cases r) (force simp: reported_def)+
  then have "set (reported v') = set (reported v)"
    using reported_update [of i v "HDone r"] hook_done by (cases r) (simp_all add: reported_def insert_absorb)
  moreover have "running v' = running v"
    using filter_update_same [of i "sd_hooks v" "\<lambda>h. h = HRun" "HDone r"] hook_done by (simp add: running_def)
  ultimately show ?thesis using assms(2) all_done_update [OF hook_done(2,3)] hook_done(1)
    by (intro sd_inv_hook [of v v' "[]"]) (auto simp: sd_inv_def)
next
  case waiter
  with same_hooks [of v' v] assms(2) show ?thesis by (simp add: sd_inv_def all_done_def)
next
  case (ctx_end e)
  with same_hooks [of v' v] assms(2) show ?thesis by (simp add: sd_inv_def)
next
  case main_done
  with same_hooks [of v' v] assms(2) show ?thesis by (auto simp: sd_inv_def)
next
  case (main_ctx e)
  with same_hooks [of v' v] assms(2) show ?thesis by (auto simp: sd_inv_def)
next
  case (collect f e es)
  with same_hooks [of v' v] assms(2) show ?thesis by (auto simp: sd_inv_def join_err_has simp del: has_err.simps(2))
next
  case (collect_end f)
  with same_hooks [of v' v] assms(2) show ?thesis by (auto simp: sd_inv_def)
next
  case (drain f e es)
  with same_hooks [of v' v] assms(2) show ?thesis by (auto simp: sd_inv_def)
next
  case (drain_end f)
  with same_hooks [of v' v] assms(2) show ?thesis by (auto simp: sd_inv_def)
qed

lemma reported_grows:
  assumes "sd_step v v'" and "reported v \<noteq> []"
  shows "reported v' \<noteq> []"
proof -
  from assms(2) obtain e where e: "e \<in> set (reported v)" by (cases "reported v") auto
  from assms(1) have "e \<in> set (reported v')"
  proof cases
    case (hook_quiet i out)
    with reported_update [of i v "HEnded None"] e show ?thesis by (simp add: reported_def)
  next
    case (hook_send i out x)
    with reported_update [of i v "HEnded (Some x)"] e show ?thesis by (simp add: reported_def)
  next
    case (hook_done i r)
    with reported_update [of i v "HDone r"] e show ?thesis by (cases r) (simp_all add: reported_def)
  qed (use e same_hooks(1) [of v' v] in simp_all)
  then show ?thesis by auto
qed

lemma sd_step_main:
  assumes "sd_step v v'" and "sd_inv v" and "main_inv v"
  shows "main_inv v'"
proof (cases "sd_main v' = sd_main v")
  case True
  have "sd_names v' = sd_names v" "sd_closed v \<Longrightarrow> sd_closed v'" "sd_ctx v \<noteq> None \<Longrightarrow> sd_ctx v' = sd_ctx v"
    using assms(1) by (cases; simp)+
  moreover have "all_done v' \<and> sd_errs v' = []" if "all_done v" "sd_errs v = []" "\<exists>f. sd_main v = MReturned f"
    using assms(1)
  proof cases
    case (hook_quiet i out)
    with not_all_done that(1) show ?thesis by blast
  next
    case (hook_send i out e)
    with not_all_done that(1) show ?thesis by blast
  next
    case (hook_done i r)
    with all_done_update that(1) show ?thesis by blast
  qed (use that same_hooks(3) [of v' v] in auto)
  ultimately show ?thesis
    using True assms(3) reported_grows [OF assms(1)]
    by (cases "sd_main v") (auto simp: main_inv_def)
next
  case False
  with assms(1) show ?thesis
  proof cases
    case main_done
    then show ?thesis by (simp add: main_inv_def)
  next
    case (main_ctx e)
    then show ?thesis by (simp add: main_inv_def)
  next
    case (collect f e es)
    then have "e \<in> set (reported v)" using assms(2) by (auto simp: sd_inv_def)
    then have "reported v' \<noteq> []" using same_hooks(1) [of v' v] collect(1) by auto
    with collect assms(3) show ?thesis by (auto simp: main_inv_def)
  next
    case (collect_end f)
    then have "all_done v'" using assms(2,3) same_hooks(3) [of v' v] by (auto simp: sd_inv_def main_inv_def)
    moreover have "reported v' = reported v" using same_hooks(1) [of v' v] collect_end by simp
    ultimately show ?thesis using collect_end assms(3) by (auto simp: main_inv_def)
  next
    case (drain f e es)
    with assms(3) show ?thesis by (auto simp: main_inv_def)
  next
    case (drain_end f)
    with assms(3) show ?thesis by (auto simp: main_inv_def)
  qed auto
qed

lemma reach_inv:
  assumes "sd_step\<^sup>*\<^sup>* (sd_start m ctx) v"
  shows "sd_inv v" and "main_inv v"
proof -
  have "filter (\<lambda>h. h = HRun) (replicate n HRun) = replicate n HRun" "concat (map sent_by (replicate n HRun)) = []" for n
    by (induction n) simp_all
  then have "sd_inv (sd_start m ctx) \<and> main_inv (sd_start m ctx)"
    by (simp add: sd_inv_def main_inv_def sd_start_def reported_def running_def)
  with assms have "sd_inv v \<and> main_inv v"
    by (rule rtranclp_invariant) (blast intro: sd_step_inv sd_step_main)
  then show "sd_inv v" "main_inv v" by auto
qed

section \<open>What Execute promises\<close>

text \<open>
  C22: under every interleaving of the hooks, the end of the context and the caller, no goroutine sends on the
  closed channel and none is blocked by a full one. When \<open>Execute\<close> has returned, either every hook has ended
  and the result is nil exactly if no hook reported an error, and otherwise contains every reported error,
  recovered panics included; or the context has ended and the result contains its error.
\<close>

theorem shutdown_result:
  assumes "sd_step\<^sup>*\<^sup>* (sd_start m ctx) v" and "sm_hooks m \<noteq> []"
  shows "\<not> sd_panic v \<and>
    (\<forall>i < length (sd_hooks v). sd_hooks v ! i = HRun \<longrightarrow> \<not> sd_closed v \<and> length (sd_errs v) < length (sd_hooks v)) \<and>
    (\<forall>f. sd_main v = MReturned f \<longrightarrow>
       (all_done v \<and> (f = None \<longleftrightarrow> reported v = []) \<and> (\<forall>e \<in> set (reported v). \<exists>x. f = Some x \<and> errors_is x e)) \<or>
       (\<exists>e x. sd_ctx v = Some e \<and> f = Some x \<and> errors_is x e))"
proof -
  note I = reach_inv [OF assms(1)]
  have names: "sd_names v = sm_hooks m"
    using assms(1) by (rule rtranclp_invariant) (auto simp: sd_start_def elim: sd_step.cases)
  have room: "\<not> sd_closed v \<and> length (sd_errs v) < length (sd_hooks v)" if "i < length (sd_hooks v)" "sd_hooks v ! i = HRun" for i
  proof -
    have "HRun \<in> set (filter (\<lambda>h. h = HRun) (sd_hooks v))" using nth_mem [OF that(1)] that(2) by simp
    then have "0 < running v" by (cases "filter (\<lambda>h. h = HRun) (sd_hooks v)") (auto simp: running_def)
    with I(1) not_all_done [OF that] show ?thesis by (auto simp: sd_inv_def)
  qed
  have "(all_done v \<and> (f = None \<longleftrightarrow> reported v = []) \<and> (\<forall>e \<in> set (reported v). \<exists>x. f = Some x \<and> errors_is x e)) \<or>
       (\<exists>e x. sd_ctx v = Some e \<and> f = Some x \<and> errors_is x e)" if f: "sd_main v = MReturned f" for f
  proof -
    from I(2) f names assms(2) consider "all_done v" "sd_errs v = []" "f \<noteq> None \<longrightarrow> reported v \<noteq> []"
      | "\<exists>e x. sd_ctx v = Some e \<and> f = Some x \<and> errors_is x e" by (auto simp: main_inv_def)
    then show ?thesis
    proof cases
      case 1
      then have r: "\<forall>e \<in> set (reported v). \<exists>x. f = Some x \<and> errors_is x e"
        using I(1) f by (auto simp: sd_inv_def split: option.splits)
      moreover have "f = None \<longleftrightarrow> reported v = []" using 1(3) r by (cases "reported v") auto
      ultimately show ?thesis using 1(1) by blast
    qed simp
  qed
  with room I(1) show ?thesis by (auto simp: sd_inv_def)
qed

text \<open>Steps of the caller that are still to come, counting the errors that may still arrive.\<close>

fun main_rank :: "sd \<Rightarrow> nat" where
  "main_rank v = (case sd_main v of MSelect \<Rightarrow> 2 | MReturned f \<Rightarrow> 0 | _ \<Rightarrow> 1) * (1 + length (sd_errs v) + running v)"

text \<open>
  \<open>Execute\<close> returns although hooks hang. Once the context has ended, or all hooks are done, the caller
  always has a step of its own towards its return; the number of such steps is bounded and no step of
  another goroutine increases the bound.
\<close>

theorem shutdown_returns:
  assumes "sd_step\<^sup>*\<^sup>* (sd_start m ctx) v"
  shows "(sd_step v v' \<longrightarrow> main_rank v' \<le> main_rank v) \<and>
    ((sd_ctx v \<noteq> None \<or> sd_done v) \<and> (\<forall>f. sd_main v \<noteq> MReturned f) \<longrightarrow> (\<exists>v'. sd_step v v' \<and> main_rank v' < main_rank v)) \<and>
    (main_rank v = 0 \<longleftrightarrow> (\<exists>f. sd_main v = MReturned f))"
proof -
  note I = reach_inv [OF assms]
  have "main_rank v' \<le> main_rank v" if "sd_step v v'"
    using that
  proof cases
    case (hook_quiet i out)
    then have "Suc (running v') = running v" using filter_update_len [of i "sd_hooks v" "\<lambda>h. h = HRun" "HEnded None"] by (simp add: running_def)
    with hook_quiet(1) show ?thesis by (simp split: main_pc.splits)
  next
    case (hook_send i out e)
    then have "Suc (running v') = running v" using filter_update_len [of i "sd_hooks v" "\<lambda>h. h = HRun" "HEnded (Some e)"] by (simp add: running_def)
    with hook_send(1) show ?thesis by (simp split: main_pc.splits)
  next
    case (hook_done i r)
    then have "running v' = running v" using filter_update_same [of i "sd_hooks v" "\<lambda>h. h = HRun" "HDone r"] by (simp add: running_def)
    with hook_done(1) show ?thesis by (simp split: main_pc.splits)
  qed (use same_hooks(2) [of v' v] in \<open>auto split: main_pc.splits\<close>)
  moreover have "\<exists>v'. sd_step v v' \<and> main_rank v' < main_rank v"
    if "sd_ctx v \<noteq> None \<or> sd_done v" "\<forall>f. sd_main v \<noteq> MReturned f"
  proof (cases "sd_main v")
    case MSelect
    from that(1) show ?thesis
    proof
      assume "sd_ctx v \<noteq> None"
      then obtain e where "sd_ctx v = Some e" by blast
      from main_ctx [OF MSelect this] MSelect show ?thesis by (intro exI conjI) (assumption, simp add: running_def)
    next
      assume "sd_done v"
      from main_done [OF MSelect this] MSelect show ?thesis by (intro exI conjI) (assumption, simp add: running_def)
    qed
  next
    case (MCollect f)
    then have "sd_closed v" using I(2) by (simp add: main_inv_def)
    then show ?thesis
      using collect [OF MCollect] collect_end [OF MCollect] MCollect
      by (cases "sd_errs v") (auto intro!: exI conjI simp: running_def)
  next
    case (MDrain f)
    then show ?thesis
      using drain [OF MDrain] drain_end [OF MDrain]
      by (cases "sd_errs v") (auto intro!: exI conjI simp: running_def)
  qed (use that(2) in blast)
  moreover have "main_rank v = 0 \<longleftrightarrow> (\<exists>f. sd_main v = MReturned f)" by (auto split: main_pc.splits)
  ultimately show ?thesis by blast
qed

text \<open>A run: the only hook fails, and its error is the result.\<close>

definition demo_manager :: Manager where
  "demo_manager = sm_Register ''db'' (sm_New (30 * second))"

definition demo_state :: "hook_pc \<Rightarrow> error list \<Rightarrow> bool \<Rightarrow> bool \<Rightarrow> main_pc \<Rightarrow> sd" where
  "demo_state h es cl dn mn =
     \<lparr>sd_names = [''db''], sd_hooks = [h], sd_errs = es, sd_closed = cl, sd_done = dn, sd_ctx = None, sd_main = mn, sd_panic = False\<rparr>"

lemma demo_start: "sd_start demo_manager None = demo_state HRun [] False False MSelect"
  by (simp add: sd_start_def demo_manager_def sm_Register_def sm_New_def demo_state_def)

lemma demo_reach:
  defines "e \<equiv> Err ''close failed''"
  shows "sd_step\<^sup>*\<^sup>* (sd_start demo_manager None) (demo_state (HDone (Some e)) [] True True (MReturned (Some e)))"
    and "sd_step\<^sup>*\<^sup>* (sd_start demo_manager None) (demo_state (HDone (Some e)) [e] False True MSelect)"
proof -
  have 1: "sd_step (demo_state HRun [] False False MSelect) (demo_state (HEnded (Some e)) [e] False False MSelect)"
    using hook_send [of 0 "demo_state HRun [] False False MSelect" "HReturns (Some e)" e] by (simp add: demo_state_def)
  have 2: "sd_step (demo_state (HEnded (Some e)) [e] False False MSelect) (demo_state (HDone (Some e)) [e] False False MSelect)"
    using hook_done [of 0 "demo_state (HEnded (Some e)) [e] False False MSelect" "Some e"] by (simp add: demo_state_def)
  have 3: "sd_step (demo_state (HDone (Some e)) [e] False False MSelect) (demo_state (HDone (Some e)) [e] False True MSelect)"
    using waiter [of "demo_state (HDone (Some e)) [e] False False MSelect"] by (simp add: demo_state_def)
  have 4: "sd_step (demo_state (HDone (Some e)) [e] False True MSelect) (demo_state (HDone (Some e)) [e] True True (MCollect None))"
    using main_done [of "demo_state (HDone (Some e)) [e] False True MSelect"] by (simp add: demo_state_def)
  have 5: "sd_step (demo_state (HDone (Some e)) [e] True True (MCollect None)) (demo_state (HDone (Some e)) [] True True (MCollect (Some e)))"
    using collect [of "demo_state (HDone (Some e)) [e] True True (MCollect None)" None e "[]"] by (simp add: demo_state_def join_err_def)
  have 6: "sd_step (demo_state (HDone (Some e)) [] True True (MCollect (Some e))) (demo_state (HDone (Some e)) [] True True (MReturned (Some e)))"
    using collect_end [of "demo_state (HDone (Some e)) [] True True (MCollect (Some e))" "Some e"] by (simp add: demo_state_def)
  note go = converse_rtranclp_into_rtranclp [where r = sd_step] and once = r_into_rtranclp [where r = sd_step]
  show "sd_step\<^sup>*\<^sup>* (sd_start demo_manager None) (demo_state (HDone (Some e)) [e] False True MSelect)"
    unfolding demo_start by (rule go [OF 1 go [OF 2 once [OF 3]]])
  then show "sd_step\<^sup>*\<^sup>* (sd_start demo_manager None) (demo_state (HDone (Some e)) [] True True (MReturned (Some e)))"
    by (rule rtranclp_trans) (rule go [OF 4 go [OF 5 once [OF 6]]])
qed

theorem shutdown_result_witness:
  "\<not> sd_panic (demo_state (HDone (Some (Err ''close failed''))) [] True True (MReturned (Some (Err ''close failed''))))"
proof -
  have "sm_hooks demo_manager \<noteq> []" by (simp add: demo_manager_def sm_Register_def)
  from shutdown_result [OF demo_reach(1) this] show ?thesis by blast
qed

theorem shutdown_returns_witness:
  "\<exists>v'. sd_step (demo_state (HDone (Some (Err ''close failed''))) [Err ''close failed''] False True MSelect) v' \<and>
     main_rank v' < main_rank (demo_state (HDone (Some (Err ''close failed''))) [Err ''close failed''] False True MSelect)"
  using shutdown_returns [OF demo_reach(2)] by (simp add: demo_state_def)

end
