(* ===== verification/Health.thy ===== *)
theory Health
  imports Go_Prelude "HOL-Library.Multiset"
begin

text \<open>
  The health service (\<open>src/health/health.go\<close>). The checkers of a request run in parallel, each in a goroutine that
  sends its result to a channel with room for all of them; the handler waits for all and then reads the
  channel until it is closed. The runtime figures and the uptime string are left out, and so is the
  encoding of the reply as JSON. A checker returns for the request, with the text of an error if it fails, or it never
  returns: the handler gives it a context that ends after five seconds, but waits for it all the same. One that panics ends
  the process.
\<close>

record CheckResult =
  cr_Status :: string
  cr_Message :: string

record health_Response =
  hr_Status :: string
  hr_Checks :: "(string, CheckResult) gomap"

datatype Checker = CReturns "string option" | CHangs

record Service =
  hs_startTime :: time
  hs_checkers :: "(string, Checker) gomap"
  hs_withRuntime :: bool

definition WithStartTime :: "time \<Rightarrow> Service \<Rightarrow> Service" where
  "WithStartTime t s = s\<lparr>hs_startTime := t\<rparr>"

definition WithChecker :: "string \<Rightarrow> Checker \<Rightarrow> Service \<Rightarrow> Service" where
  "WithChecker name fn s = s\<lparr>hs_checkers := mput name fn (hs_checkers s)\<rparr>"

definition WithRuntimeInfo :: "Service \<Rightarrow> Service" where
  "WithRuntimeInfo s = s\<lparr>hs_withRuntime := True\<rparr>"

definition health_New :: "time \<Rightarrow> (Service \<Rightarrow> Service) list \<Rightarrow> Service" where
  "health_New now opts = fold (\<lambda>opt s. opt s) opts \<lparr>hs_startTime = now, hs_checkers = [], hs_withRuntime = False\<rparr>"

section \<open>The handler\<close>

text \<open>The check that a goroutine sends.\<close>

record checkOutput =
  co_name :: string
  co_res :: CheckResult
  co_pass :: bool

definition run_check :: "string \<Rightarrow> string option \<Rightarrow> checkOutput" where
  "run_check name err =
     (case err of
        Some err \<Rightarrow> \<lparr>co_name = name, co_res = \<lparr>cr_Status = ''fail'', cr_Message = err\<rparr>, co_pass = False\<rparr>
      | None \<Rightarrow> \<lparr>co_name = name, co_res = \<lparr>cr_Status = ''pass'', cr_Message = []\<rparr>, co_pass = True\<rparr>)"

text \<open>
  A request in progress: the checkers whose goroutine has not been started, those that run, the channel, and where
  the handler is. \<open>cap\<close> is the capacity of the channel; a send blocks when it is full.
\<close>

datatype health_pc =
    HStart
  | HWait
  | HRead "(string, CheckResult) gomap" bool
  | HReplied int health_Response

record health_run =
  hn_todo :: "(string \<times> Checker) list"
  hn_running :: "(string \<times> Checker) list"
  hn_chan :: "checkOutput list"
  hn_cap :: nat
  hn_pc :: health_pc

definition health_begin :: "(string \<times> Checker) list \<Rightarrow> health_run" where
  "health_begin order = \<lparr>hn_todo = order, hn_running = [], hn_chan = [], hn_cap = length order, hn_pc = HStart\<rparr>"

definition health_reply :: "(string, CheckResult) gomap \<Rightarrow> bool \<Rightarrow> health_pc" where
  "health_reply checks allPass =
     HReplied (if \<not> allPass then 503 else 200) \<lparr>hr_Status = (if \<not> allPass then ''degraded'' else ''healthy''), hr_Checks = checks\<rparr>"

inductive health_step :: "health_run \<Rightarrow> health_run \<Rightarrow> bool" where
  start_check: "hn_pc s = HStart \<Longrightarrow> hn_todo s = c # cs \<Longrightarrow> health_step s (s\<lparr>hn_todo := cs, hn_running := hn_running s @ [c]\<rparr>)"
| all_started: "hn_pc s = HStart \<Longrightarrow> hn_todo s = [] \<Longrightarrow> health_step s (s\<lparr>hn_pc := HWait\<rparr>)"
| send_result: "hn_running s = xs @ (name, CReturns err) # ys \<Longrightarrow> length (hn_chan s) < hn_cap s \<Longrightarrow>
    health_step s (s\<lparr>hn_running := xs @ ys, hn_chan := hn_chan s @ [run_check name err]\<rparr>)"
| wait_done: "hn_pc s = HWait \<Longrightarrow> hn_running s = [] \<Longrightarrow> health_step s (s\<lparr>hn_pc := HRead [] True\<rparr>)"
| read_result: "hn_pc s = HRead checks allPass \<Longrightarrow> hn_chan s = out # outs \<Longrightarrow>
    health_step s (s\<lparr>hn_chan := outs, hn_pc := HRead (mput (co_name out) (co_res out) checks) (allPass \<and> co_pass out)\<rparr>)"
| read_done: "hn_pc s = HRead checks allPass \<Longrightarrow> hn_chan s = [] \<Longrightarrow> health_step s (s\<lparr>hn_pc := health_reply checks allPass\<rparr>)"

definition LivenessHandler :: "int \<times> string" where
  "LivenessHandler = (200, ''{'' @ CHR 0x22 # ''status'' @ CHR 0x22 # '':'' @ CHR 0x22 # ''ok'' @ CHR 0x22 # ''}'')"

section \<open>The report\<close>

fun returned :: "Checker \<Rightarrow> string option" where
  "returned (CReturns err) = err"
| "returned CHangs = None"

definition checked :: "string \<times> Checker \<Rightarrow> checkOutput" where
  "checked c = run_check (fst c) (returned (snd c))"

definition results :: "(string \<times> Checker) list \<Rightarrow> (string, CheckResult) gomap" where
  "results cs = map (\<lambda>c. (fst c, co_res (checked c))) cs"

text \<open>
  Where the handler is, the checkers whose results it has read (\<open>read\<close>) and those whose results are in the
  channel (\<open>left\<close>).
\<close>

fun pc_ok :: "health_run \<Rightarrow> (string \<times> Checker) list \<Rightarrow> (string \<times> Checker) list \<Rightarrow> health_pc \<Rightarrow> bool" where
  "pc_ok s read left HStart \<longleftrightarrow> read = []"
| "pc_ok s read left HWait \<longleftrightarrow> read = [] \<and> hn_todo s = []"
| "pc_ok s read left (HRead checks allPass) \<longleftrightarrow>
     hn_todo s = [] \<and> hn_running s = [] \<and> map_of checks = map_of (results (rev read)) \<and> allPass = list_all (\<lambda>c. co_pass (checked c)) read"
| "pc_ok s read left (HReplied status r) \<longleftrightarrow>
     hn_todo s = [] \<and> hn_running s = [] \<and> left = [] \<and> map_of (hr_Checks r) = map_of (results (rev read)) \<and>
     status = (if list_all (\<lambda>c. co_pass (checked c)) read then 200 else 503) \<and>
     hr_Status r = (if list_all (\<lambda>c. co_pass (checked c)) read then ''healthy'' else ''degraded'')"

definition health_inv :: "(string \<times> Checker) list \<Rightarrow> health_run \<Rightarrow> bool" where
  "health_inv order s \<longleftrightarrow> hn_cap s = length order \<and>
     (\<exists>read left. mset (hn_todo s @ hn_running s @ read @ left) = mset order \<and> hn_chan s = map checked left \<and> pc_ok s read left (hn_pc s) \<and>
        CHangs \<notin> snd ` set (read @ left))"

lemma results_simps [simp]: "results [] = []" "results (c # cs) = (fst c, co_res (checked c)) # results cs" "results (xs @ ys) = results xs @ results ys"
  by (simp_all add: results_def)

lemma health_invE:
  assumes "health_inv order s"
  obtains read left where "mset (hn_todo s @ hn_running s @ read @ left) = mset order" "hn_chan s = map checked left"
    "pc_ok s read left (hn_pc s)" "hn_cap s = length order" "CHangs \<notin> snd ` set (read @ left)"
  using assms unfolding health_inv_def by blast

lemma health_inv_step: "health_step s s' \<Longrightarrow> health_inv order s \<Longrightarrow> health_inv order s'"
proof (induction rule: health_step.induct)
  case (start_check s c cs)
  then show ?case by (auto simp: health_inv_def)
next
  case (all_started s)
  then show ?case by (auto simp: health_inv_def)
next
  case (send_result s xs name err ys)
  then obtain read left where I: "mset (hn_todo s @ hn_running s @ read @ left) = mset order" "hn_chan s = map checked left"
    "pc_ok s read left (hn_pc s)" "hn_cap s = length order" "CHangs \<notin> snd ` set (read @ left)" by (elim health_invE)
  have "pc_ok (s\<lparr>hn_running := xs @ ys, hn_chan := hn_chan s @ [run_check name err]\<rparr>) read (left @ [(name, CReturns err)]) (hn_pc s)"
    using I(3) send_result(1) by (cases "hn_pc s") auto
  moreover have "mset (hn_todo s @ (xs @ ys) @ read @ left @ [(name, CReturns err)]) = mset order"
    using I(1) send_result(1) by simp
  ultimately show ?case
    using I(2,4,5) unfolding health_inv_def by (intro conjI exI [of _ read] exI [of _ "left @ [(name, CReturns err)]"]) (simp_all add: checked_def)
next
  case (wait_done s)
  then obtain left where "mset (hn_todo s @ hn_running s @ [] @ left) = mset order" "hn_chan s = map checked left"
    "hn_todo s = []" "hn_cap s = length order" "CHangs \<notin> snd ` set left" by (auto simp: health_inv_def)
  with wait_done show ?case unfolding health_inv_def by (intro conjI exI [of _ "[]"] exI [of _ left]) simp_all
next
  case (read_result s checks allPass out outs)
  from health_invE [OF this(3)] obtain read left where
    J: "mset (hn_todo s @ hn_running s @ read @ left) = mset order" "hn_chan s = map checked left"
      "pc_ok s read left (hn_pc s)" "hn_cap s = length order" "CHangs \<notin> snd ` set (read @ left)" .
  note I = J(1,2) J(3) [unfolded read_result(1)] J(4,5)
  from I obtain c cs where left: "left = c # cs" "out = checked c" "outs = map checked cs" using read_result(2) by (cases left) auto
  have "co_name (checked c) = fst c" by (simp add: checked_def run_check_def split: option.splits)
  with I read_result left show ?case
    unfolding health_inv_def
    by (intro conjI exI [of _ "read @ [c]"] exI [of _ cs]) (auto simp: go_map fun_upd_def)
next
  case (read_done s checks allPass)
  then show ?case by (auto simp: health_inv_def health_reply_def)
qed

lemma health_inv_begin: "health_inv order (health_begin order)"
  by (simp add: health_inv_def health_begin_def)

lemma health_inv_reachable:
  assumes "health_step\<^sup>*\<^sup>* (health_begin order) s"
  shows "health_inv order s"
  using assms by (induction rule: rtranclp_induct) (auto intro: health_inv_begin health_inv_step)

fun pc_rank :: "health_pc \<Rightarrow> nat" where
  "pc_rank HStart = 3"
| "pc_rank HWait = 2"
| "pc_rank (HRead _ _) = 1"
| "pc_rank (HReplied _ _) = 0"

definition health_rank :: "health_run \<Rightarrow> nat" where
  "health_rank s = 3 * length (hn_todo s) + 2 * length (hn_running s) + length (hn_chan s) + pc_rank (hn_pc s)"

lemma health_rank_step: "health_step s s' \<Longrightarrow> health_rank s' < health_rank s"
  by (induction rule: health_step.induct) (auto simp: health_rank_def health_reply_def)

text \<open>If every checker returns, no state but a reply is stuck: the channel has room for every result.\<close>

lemma health_progress:
  assumes "health_inv order s" "\<forall>status r. hn_pc s \<noteq> HReplied status r" "CHangs \<notin> snd ` set order"
  shows "\<exists>s'. health_step s s'"
proof (cases "hn_pc s")
  case HStart
  then show ?thesis by (cases "hn_todo s") (blast intro: health_step.intros)+
next
  case HWait
  obtain read left where I: "mset (hn_todo s @ hn_running s @ read @ left) = mset order" "hn_chan s = map checked left"
    "hn_cap s = length order" using assms(1) by (auto simp: health_inv_def)
  show ?thesis
  proof (cases "hn_running s")
    case Nil
    with HWait show ?thesis by (blast intro: health_step.intros)
  next
    case (Cons c cs)
    have "length (hn_todo s @ hn_running s @ read @ left) = length order" using I(1) mset_eq_length by blast
    then have "length (hn_chan s) < hn_cap s" using I(2,3) Cons by simp
    moreover have "c \<in> set order" using I(1) Cons by (metis in_set_conv_decomp mset_eq_setD Un_iff set_append)
    then obtain err where "c = (fst c, CReturns err)" using assms(3) by (cases "snd c") (auto simp: prod_eq_iff image_iff)
    ultimately show ?thesis using Cons send_result [of s "[]" "fst c" err cs] by auto
  qed
next
  case (HRead checks allPass)
  then show ?thesis by (cases "hn_chan s") (blast intro: health_step.intros)+
next
  case (HReplied status r)
  with assms show ?thesis by blast
qed

lemma results_lookup: "map_of (results cs) name = map_option (\<lambda>fn. co_res (run_check name (returned fn))) (map_of cs name)"
  by (induction cs) (auto simp: checked_def)

lemma map_of_mset:
  assumes "map_ok m" "mset cs = mset m"
  shows "map_of cs = map_of m"
proof -
  have "distinct (map fst cs)" using assms by (metis map_ok_def mset_eq_imp_distinct_iff mset_map)
  with assms show ?thesis by (metis map_of_inject_set map_ok_def mset_eq_setD)
qed

lemma co_pass_checked: "co_pass (checked c) \<longleftrightarrow> returned (snd c) = None"
  by (simp add: checked_def run_check_def split: option.splits)

lemma replied_inv:
  assumes "health_inv order s" "hn_pc s = HReplied status r"
  shows "\<exists>read. mset read = mset order \<and> map_of (hr_Checks r) = map_of (results (rev read)) \<and>
    status = (if list_all (\<lambda>c. co_pass (checked c)) read then 200 else 503) \<and>
    hr_Status r = (if list_all (\<lambda>c. co_pass (checked c)) read then ''healthy'' else ''degraded'') \<and> CHangs \<notin> snd ` set read"
proof -
  from health_invE [OF assms(1)] obtain read left where
    J: "mset (hn_todo s @ hn_running s @ read @ left) = mset order" "pc_ok s read left (hn_pc s)" "CHangs \<notin> snd ` set (read @ left)" by metis
  from J(2) [unfolded assms(2)] J(1,3) show ?thesis by (intro exI [of _ read]) simp
qed

text \<open>One checker that never returns blocks the request for good, although its context has ended.\<close>

lemma hanging_checker_blocks:
  assumes "health_step\<^sup>*\<^sup>* (health_begin order) s" "(name, CHangs) \<in> set order"
  shows "hn_pc s \<noteq> HReplied status r"
proof
  assume "hn_pc s = HReplied status r"
  from replied_inv [OF health_inv_reachable [OF assms(1)] this] obtain read
    where "mset read = mset order" "CHangs \<notin> snd ` set read" by blast
  with assms(2) show False by (metis image_eqI mset_eq_setD snd_conv)
qed

text \<open>
  C23: However the checkers of a request interleave, a reply names every registered checker with its own result and
  nothing else; it is 200 and \<open>healthy\<close> if all of them passed and 503 and \<open>degraded\<close> otherwise. Every step brings the reply
  closer, and if every checker returns there is always a next step, so that the request is answered. If a checker
  never returns there is no reply: the end of its context is not waited for.
\<close>

theorem health_report:
  assumes "map_ok (hs_checkers svc)" "mset order = mset (hs_checkers svc)"
    and "health_step\<^sup>*\<^sup>* (health_begin order) s"
  shows "(\<forall>status r. hn_pc s = HReplied status r \<longrightarrow>
            CHangs \<notin> snd ` set (hs_checkers svc) \<and>
            (\<forall>name. map_of (hr_Checks r) name = map_option (\<lambda>fn. co_res (run_check name (returned fn))) (map_of (hs_checkers svc) name)) \<and>
            (if \<forall>(name, fn) \<in> set (hs_checkers svc). fn = CReturns None then status = 200 \<and> hr_Status r = ''healthy''
             else status = 503 \<and> hr_Status r = ''degraded'')) \<and>
         ((\<forall>status r. hn_pc s \<noteq> HReplied status r) \<and> CHangs \<notin> snd ` set (hs_checkers svc) \<longrightarrow> (\<exists>s'. health_step s s')) \<and>
         (\<forall>s'. health_step s s' \<longrightarrow> health_rank s' < health_rank s)"
proof -
  have inv: "health_inv order s" using assms(3) by (rule health_inv_reachable)
  have o: "set order = set (hs_checkers svc)" using assms(2) by (metis mset_eq_setD)
  have A: "CHangs \<notin> snd ` set (hs_checkers svc) \<and>
      (\<forall>name. map_of (hr_Checks r) name = map_option (\<lambda>fn. co_res (run_check name (returned fn))) (map_of (hs_checkers svc) name)) \<and>
      (if \<forall>(name, fn) \<in> set (hs_checkers svc). fn = CReturns None then status = 200 \<and> hr_Status r = ''healthy''
       else status = 503 \<and> hr_Status r = ''degraded'')" if r: "hn_pc s = HReplied status r" for status r
  proof -
    obtain read where I: "mset read = mset order" "map_of (hr_Checks r) = map_of (results (rev read))"
      "status = (if list_all (\<lambda>c. co_pass (checked c)) read then 200 else 503)"
      "hr_Status r = (if list_all (\<lambda>c. co_pass (checked c)) read then ''healthy'' else ''degraded'')" "CHangs \<notin> snd ` set read"
      using replied_inv [OF inv r] by blast
    have "map_of (rev read) = map_of (hs_checkers svc)" using assms(1,2) I(1) by (intro map_of_mset) simp_all
    moreover have rd: "set read = set (hs_checkers svc)" using I(1) o by (metis mset_eq_setD)
    moreover have "returned fn = None \<longleftrightarrow> fn = CReturns None" if "fn \<noteq> CHangs" for fn using that by (cases fn) auto
    then have "co_pass (checked c) \<longleftrightarrow> snd c = CReturns None" if "c \<in> set read" for c
      using I(5) that by (metis co_pass_checked image_eqI)
    then have "list_all (\<lambda>c. co_pass (checked c)) read \<longleftrightarrow> (\<forall>(name, fn) \<in> set (hs_checkers svc). fn = CReturns None)"
      unfolding rd [symmetric] list_all_iff by (simp add: split_beta)
    ultimately show ?thesis using I(2-5) by (simp add: results_lookup)
  qed
  have B: "\<exists>s'. health_step s s'" if "\<forall>status r. hn_pc s \<noteq> HReplied status r" "CHangs \<notin> snd ` set (hs_checkers svc)"
    using health_progress [OF inv that(1)] that(2) unfolding o .
  show ?thesis
  proof (intro conjI)
    show "(\<forall>status r. hn_pc s \<noteq> HReplied status r) \<and> CHangs \<notin> snd ` set (hs_checkers svc) \<longrightarrow> (\<exists>s'. health_step s s')"
      using B by (intro impI) simp
    show "\<forall>s'. health_step s s' \<longrightarrow> health_rank s' < health_rank s" by (intro allI impI) (rule health_rank_step)
  qed (intro allI impI, rule A)
qed

definition demo_service :: Service where
  "demo_service = health_New 0 [WithChecker ''db'' (CReturns (Some ''down''))]"

definition demo_replied :: health_run where
  "demo_replied = \<lparr>hn_todo = [], hn_running = [], hn_chan = [], hn_cap = 1,
     hn_pc = HReplied 503 \<lparr>hr_Status = ''degraded'', hr_Checks = [(''db'', \<lparr>cr_Status = ''fail'', cr_Message = ''down''\<rparr>)]\<rparr>\<rparr>"

lemma demo_checkers: "hs_checkers demo_service = [(''db'', CReturns (Some ''down''))]"
  by (simp add: demo_service_def health_New_def WithChecker_def)

lemma demo_reply_reached: "health_step\<^sup>*\<^sup>* (health_begin [(''db'', CReturns (Some ''down''))]) demo_replied"
proof -
  let ?c = "(''db'', CReturns (Some ''down''))" and ?res = "\<lparr>cr_Status = ''fail'', cr_Message = ''down''\<rparr>"
  let ?out = "run_check ''db'' (Some ''down'')"
  let ?s = "\<lambda>todo running chan pc. \<lparr>hn_todo = todo, hn_running = running, hn_chan = chan, hn_cap = 1, hn_pc = pc\<rparr>"
  have b: "health_begin [?c] = ?s [?c] [] [] HStart" by (simp add: health_begin_def)
  have s1: "health_step (?s [?c] [] [] HStart) (?s [] [?c] [] HStart)"
    using start_check [of "?s [?c] [] [] HStart" ?c "[]"] by simp
  have s2: "health_step (?s [] [?c] [] HStart) (?s [] [?c] [] HWait)"
    using all_started [of "?s [] [?c] [] HStart"] by simp
  have s3: "health_step (?s [] [?c] [] HWait) (?s [] [] [?out] HWait)"
    using send_result [of "?s [] [?c] [] HWait" "[]"] by simp
  have s4: "health_step (?s [] [] [?out] HWait) (?s [] [] [?out] (HRead [] True))"
    using wait_done [of "?s [] [] [?out] HWait"] by simp
  have s5: "health_step (?s [] [] [?out] (HRead [] True)) (?s [] [] [] (HRead [(''db'', ?res)] False))"
    using read_result [of "?s [] [] [?out] (HRead [] True)" "[]" True ?out "[]"] by (simp add: run_check_def)
  have s6: "health_step (?s [] [] [] (HRead [(''db'', ?res)] False)) demo_replied"
    using read_done [of "?s [] [] [] (HRead [(''db'', ?res)] False)" _ False] by (simp add: health_reply_def demo_replied_def)
  show ?thesis unfolding b
    by (rule converse_rtranclp_into_rtranclp [OF s1 converse_rtranclp_into_rtranclp [OF s2 converse_rtranclp_into_rtranclp [OF s3
          converse_rtranclp_into_rtranclp [OF s4 converse_rtranclp_into_rtranclp [OF s5 r_into_rtranclp [of health_step, OF s6]]]]]])
qed

theorem health_report_witness:
  "hn_pc demo_replied = HReplied 503 \<lparr>hr_Status = ''degraded'', hr_Checks = [(''db'', \<lparr>cr_Status = ''fail'', cr_Message = ''down''\<rparr>)]\<rparr> \<and>
   (\<forall>name. map_of [(''db'', \<lparr>cr_Status = ''fail'', cr_Message = ''down''\<rparr>)] name =
      map_option (\<lambda>fn. co_res (run_check name (returned fn))) (map_of (hs_checkers demo_service) name))"
proof -
  have pc: "hn_pc demo_replied = HReplied 503 \<lparr>hr_Status = ''degraded'', hr_Checks = [(''db'', \<lparr>cr_Status = ''fail'', cr_Message = ''down''\<rparr>)]\<rparr>"
    by (simp add: demo_replied_def)
  have "map_ok (hs_checkers demo_service)" "mset [(''db'', CReturns (Some ''down''))] = mset (hs_checkers demo_service)"
    by (simp_all add: demo_checkers map_ok_def)
  from conjunct1 [OF health_report [OF this demo_reply_reached]] pc
  have "\<forall>name. map_of (hr_Checks \<lparr>hr_Status = ''degraded'', hr_Checks = [(''db'', \<lparr>cr_Status = ''fail'', cr_Message = ''down''\<rparr>)]\<rparr>) name =
      map_option (\<lambda>fn. co_res (run_check name (returned fn))) (map_of (hs_checkers demo_service) name)" by blast
  with pc show ?thesis by simp
qed

end
