(* ===== verification/Jwks.thy ===== *)
theory Jwks
  imports Pagination
begin

text \<open>
  The resolver of public keys (\<open>src/jwks/jwks.go\<close>): a cache of keys with a lifetime, filled from a key set. The
  request is a parameter: \<open>fetch url\<close> is what the server answers (an error, or a status and the decoded set,
  if it could be decoded). \<open>order\<close> is the order in which \<open>range\<close> visits the cache. A key is the pair of its
  coordinates. A call is one step: the check under the read lock is repeated under the write lock, which is held
  while the key set is fetched; \<open>done'\<close> is the time when the answer has been read.
\<close>

record Key =
  jk_KID :: string
  jk_KTY :: string
  jk_Alg :: string
  jk_Crv :: string
  jk_X :: string
  jk_Y :: string

type_synonym pubkey = "nat \<times> nat"

record Resolver =
  rv_cache :: "(string, pubkey) gomap"
  rv_lastFetch :: time
  rv_cacheTTL :: duration
  rv_defaultURL :: string

definition NewResolver :: Resolver where
  "NewResolver = \<lparr>rv_cache = [], rv_lastFetch = zero_time, rv_cacheTTL = 2 * hour, rv_defaultURL = []\<rparr>"

type_synonym fetch_fn = "string \<Rightarrow> error + int \<times> Key list option"
type_synonym key_order = "(string \<times> pubkey) list \<Rightarrow> (string \<times> pubkey) list"

text \<open>\<open>base64.RawURLEncoding\<close> is the encoding of the cursors.\<close>

definition parseECP256Key :: "Key \<Rightarrow> pubkey option" where
  "parseECP256Key k =
     (case (DecodeCursor (jk_X k), DecodeCursor (jk_Y k)) of
        (Some xBytes, Some yBytes) \<Rightarrow> Some (big_endian xBytes, big_endian yBytes)
      | _ \<Rightarrow> None)"

definition usable_key :: "Key \<Rightarrow> pubkey option" where
  "usable_key k = (if jk_KTY k = ''EC'' \<and> jk_Crv k = ''P-256'' then parseECP256Key k else None)"

definition cache_keys :: "Key list \<Rightarrow> (string, pubkey) gomap \<Rightarrow> (string, pubkey) gomap" where
  "cache_keys keys c = foldl (\<lambda>c k. case usable_key k of Some p \<Rightarrow> mput (jk_KID k) p c | None \<Rightarrow> c) c keys"

definition fetchAndCacheKeys :: "fetch_fn \<Rightarrow> time \<Rightarrow> string \<Rightarrow> Resolver \<Rightarrow> Resolver \<times> error option" where
  "fetchAndCacheKeys fetch done' targetURL r =
     (case fetch targetURL of
        Inl e \<Rightarrow> (r, Some (Wrap (''failed to fetch JWKS from '' @ targetURL) e))
      | Inr (status, set') \<Rightarrow>
          if status \<noteq> 200 then (r, Some (Err (''failed to fetch JWKS: received HTTP '' @ itoa status @ '' from '' @ targetURL)))
          else
            case set' of
              None \<Rightarrow> (r, Some (Err ''failed to decode JWKS payload''))
            | Some keys \<Rightarrow> (r\<lparr>rv_cache := cache_keys keys (rv_cache r), rv_lastFetch := done'\<rparr>, None))"

definition resolveJWKSURL :: "(string \<Rightarrow> string) \<Rightarrow> string \<Rightarrow> Resolver \<Rightarrow> error + string" where
  "resolveJWKSURL env jwksURL r =
     (if jwksURL \<noteq> [] then Inr jwksURL
      else if rv_defaultURL r \<noteq> [] then Inr (rv_defaultURL r)
      else if env ''AUTH_JWKS_URL'' \<noteq> [] then Inr (trim_space (env ''AUTH_JWKS_URL''))
      else if env ''AUTH_ISSUER_URL'' \<noteq> [] then Inr (trim_suffix (trim_space (env ''AUTH_ISSUER_URL'')) ''/'' @ ''/.well-known/jwks.json'')
      else Inl (Err ''failed to fetch JWKS: no jwksURL provided and AUTH_JWKS_URL/AUTH_ISSUER_URL not set''))"

definition getCachedKey :: "time \<Rightarrow> string \<Rightarrow> Resolver \<Rightarrow> pubkey option" where
  "getCachedKey now kid r =
     (case map_of (rv_cache r) kid of
        Some key \<Rightarrow> if time_sub now (rv_lastFetch r) < rv_cacheTTL r then Some key else None
      | None \<Rightarrow> None)"

definition GetECPublicKey ::
  "key_order \<Rightarrow> (string \<Rightarrow> string) \<Rightarrow> fetch_fn \<Rightarrow> time \<Rightarrow> time \<Rightarrow> string \<Rightarrow> string \<Rightarrow> Resolver \<Rightarrow> Resolver \<times> (error + pubkey)" where
  "GetECPublicKey order env fetch now done' kid jwksURL r =
     (case getCachedKey now kid r of
        Some key \<Rightarrow> (r, Inr key)
      | None \<Rightarrow>
          case resolveJWKSURL env jwksURL r of
            Inl err \<Rightarrow> (r, Inl err)
          | Inr targetURL \<Rightarrow>
              case fetchAndCacheKeys fetch done' targetURL r of
                (r1, Some err) \<Rightarrow>
                  (r1, case map_of (rv_cache r1) kid of Some cachedKey \<Rightarrow> Inr cachedKey | None \<Rightarrow> Inl err)
              | (r1, None) \<Rightarrow>
                  (r1, case map_of (rv_cache r1) kid of
                         Some found \<Rightarrow> Inr found
                       | None \<Rightarrow> (case order (rv_cache r1) of
                                    (_, k) # _ \<Rightarrow> Inr k
                                  | [] \<Rightarrow> Inl (Err (''public key with kid '' @ CHR 0x27 # kid @ CHR 0x27 # '' not found in JWKS'')))))"

section \<open>Where a key comes from\<close>

text \<open>
  A run of calls, each with its time, key identifier, URL and what the server answers then. The keys that
  were usable in some answer so far are those a call can return.
\<close>

record jwks_call =
  jc_now :: time
  jc_done :: time
  jc_kid :: string
  jc_url :: string
  jc_fetch :: fetch_fn

definition served :: "fetch_fn \<Rightarrow> (string \<times> pubkey) set" where
  "served fetch = {(jk_KID k, p) | url keys k p. fetch url = Inr (200, Some keys) \<and> k \<in> set keys \<and>
     jk_KTY k = ''EC'' \<and> jk_Crv k = ''P-256'' \<and> parseECP256Key k = Some p}"

definition jwks_get :: "key_order \<Rightarrow> (string \<Rightarrow> string) \<Rightarrow> jwks_call \<Rightarrow> Resolver \<Rightarrow> Resolver \<times> (error + pubkey)" where
  "jwks_get order env c r = GetECPublicKey order env (jc_fetch c) (jc_now c) (jc_done c) (jc_kid c) (jc_url c) r"

fun jwks_run :: "key_order \<Rightarrow> (string \<Rightarrow> string) \<Rightarrow> jwks_call list \<Rightarrow> Resolver \<Rightarrow> Resolver" where
  "jwks_run order env [] r = r"
| "jwks_run order env (c # cs) r = jwks_run order env cs (fst (jwks_get order env c r))"

definition visits_keys :: "key_order \<Rightarrow> bool" where
  "visits_keys order \<longleftrightarrow> (\<forall>c. set (order c) = set c)"

lemma cache_keys_origin:
  "x \<in> set (cache_keys keys c) \<Longrightarrow> x \<in> set c \<or> (\<exists>k p. x = (jk_KID k, p) \<and> k \<in> set keys \<and> usable_key k = Some p)"
proof (induction keys arbitrary: c)
  case (Cons k keys)
  then have *: "x \<in> set (cache_keys keys (case usable_key k of Some p \<Rightarrow> mput (jk_KID k) p c | None \<Rightarrow> c))"
    by (simp add: cache_keys_def)
  show ?case
  proof (cases "usable_key k")
    case None
    with Cons.IH [of c] * show ?thesis by auto
  next
    case (Some p)
    with Cons.IH [of "mput (jk_KID k) p c"] * set_mput_subset [of "jk_KID k" p c] show ?thesis by fastforce
  qed
qed (simp add: cache_keys_def)

lemma usable_keyD: "usable_key k = Some p \<Longrightarrow> jk_KTY k = ''EC'' \<and> jk_Crv k = ''P-256'' \<and> parseECP256Key k = Some p"
  by (simp add: usable_key_def split: if_splits)

lemma fetch_cache: "set (rv_cache (fst (fetchAndCacheKeys fetch done' url r))) \<subseteq> set (rv_cache r) \<union> served fetch"
proof (cases "\<exists>keys. fetch url = Inr (200, Some keys)")
  case True
  then obtain keys where "fetch url = Inr (200, Some keys)" by blast
  then show ?thesis
    by (auto simp: fetchAndCacheKeys_def served_def dest!: cache_keys_origin usable_keyD) blast
next
  case False
  then show ?thesis by (auto simp: fetchAndCacheKeys_def split: sum.splits option.splits)
qed

lemma fetch_subset:
  "fetchAndCacheKeys fetch done' url r = (r1, e) \<Longrightarrow> set (rv_cache r1) \<subseteq> set (rv_cache r) \<union> served fetch"
  using fetch_cache [of fetch done' url r] by simp

lemma jwks_get_cache:
  "set (rv_cache (fst (jwks_get order env c r))) \<subseteq> set (rv_cache r) \<union> served (jc_fetch c)"
  by (auto simp: jwks_get_def GetECPublicKey_def split: option.splits sum.splits prod.splits dest!: fetch_subset)

lemma jwks_run_cache:
  "set (rv_cache (jwks_run order env cs r)) \<subseteq> set (rv_cache r) \<union> (\<Union>c \<in> set cs. served (jc_fetch c))"
proof (induction cs arbitrary: r)
  case (Cons c cs)
  from Cons [of "fst (jwks_get order env c r)"] jwks_get_cache [of order env c r] show ?case by fastforce
qed simp

text \<open>A key that is returned is in the cache afterwards, under the identifier asked for if the cache has it.\<close>

lemma jwks_get_cached:
  assumes "visits_keys order" "jwks_get order env c r = (r1, Inr key)"
  shows "map_of (rv_cache r1) (jc_kid c) = Some key \<or> map_of (rv_cache r1) (jc_kid c) = None \<and> key \<in> snd ` set (rv_cache r1)"
proof -
  have "key \<in> snd ` set m" if "order m = (kid', key) # rest" for m kid' key and rest :: "(string \<times> pubkey) list"
    using assms(1) that unfolding visits_keys_def by (metis list.set_intros(1) rev_image_eqI snd_conv)
  then show ?thesis
    using assms(2)
    by (auto simp: jwks_get_def GetECPublicKey_def getCachedKey_def
        split: option.splits sum.splits prod.splits list.splits if_splits)
qed

text \<open>
  C39: Every key the resolver returns was in a key set that a server answered with status 200 in this or in an earlier
  call: as an EC key on P-256 whose coordinates decode, and under the identifier that was asked for, unless the cache
  knows no key of that identifier after this call, when it is the key of another identifier.
\<close>

theorem jwks_key_origin:
  assumes "visits_keys order"
    and "jwks_get order env c (jwks_run order env cs NewResolver) = (r1, Inr key)"
  shows "(jc_kid c, key) \<in> (\<Union>c' \<in> set (cs @ [c]). served (jc_fetch c')) \<or>
         jc_kid c \<notin> fst ` set (rv_cache r1) \<and> (\<exists>kid'. (kid', key) \<in> (\<Union>c' \<in> set (cs @ [c]). served (jc_fetch c')))"
proof -
  have sub: "set (rv_cache r1) \<subseteq> (\<Union>c' \<in> set (cs @ [c]). served (jc_fetch c'))"
    using jwks_get_cache [of order env c "jwks_run order env cs NewResolver"] jwks_run_cache [of order env cs NewResolver]
      assms(2) by (fastforce simp: NewResolver_def)
  from jwks_get_cached [OF assms] show ?thesis
  proof
    assume "map_of (rv_cache r1) (jc_kid c) = Some key"
    from map_of_SomeD [OF this] sub have "(jc_kid c, key) \<in> (\<Union>c' \<in> set (cs @ [c]). served (jc_fetch c'))" by (rule rev_subsetD)
    then show ?thesis ..
  next
    assume *: "map_of (rv_cache r1) (jc_kid c) = None \<and> key \<in> snd ` set (rv_cache r1)"
    then obtain kid' where "(kid', key) \<in> set (rv_cache r1)" by force
    from this sub have "(kid', key) \<in> (\<Union>c' \<in> set (cs @ [c]). served (jc_fetch c'))" by (rule rev_subsetD)
    moreover from * have "jc_kid c \<notin> fst ` set (rv_cache r1)" by (simp only: map_of_eq_None_iff not_False_eq_True)
    ultimately show ?thesis by (intro disjI2 conjI exI)
  qed
qed

definition jwks_demo_key :: Key where
  "jwks_demo_key = \<lparr>jk_KID = ''k1'', jk_KTY = ''EC'', jk_Alg = ''ES256'', jk_Crv = ''P-256'', jk_X = ''AQ'', jk_Y = ''Ag''\<rparr>"

definition jwks_demo_fetch :: "Key list \<Rightarrow> fetch_fn" where
  "jwks_demo_fetch keys url = Inr (200, Some keys)"

lemma jwks_demo_eval:
  "jwks_get (\<lambda>c. c) (\<lambda>_. []) \<lparr>jc_now = 10, jc_done = 11, jc_kid = ''k1'', jc_url = ''u'', jc_fetch = jwks_demo_fetch [jwks_demo_key]\<rparr> NewResolver
   = (NewResolver\<lparr>rv_cache := [(''k1'', 1, 2)], rv_lastFetch := 11\<rparr>, Inr (1, 2))"
  by code_simp

theorem jwks_key_origin_witness:
  "\<exists>kid'. (kid', 1, 2) \<in> served (jwks_demo_fetch [jwks_demo_key])"
  using jwks_key_origin [of "\<lambda>c. c" "\<lambda>_. []" "\<lparr>jc_now = 10, jc_done = 11, jc_kid = ''k1'', jc_url = ''u'', jc_fetch = jwks_demo_fetch [jwks_demo_key]\<rparr>" "[]"]
    jwks_demo_eval
  by (auto simp: visits_keys_def)

section \<open>Known identifiers\<close>

lemma cache_keys_lookup:
  "map_of (cache_keys keys c) kid \<noteq> None" if "map_of c kid \<noteq> None"
  using that
  by (induction keys arbitrary: c) (auto simp: cache_keys_def go_map split: option.splits)

lemma cache_keys_other: "\<forall>k \<in> set keys. jk_KID k \<noteq> kid \<Longrightarrow> map_of (cache_keys keys c) kid = map_of c kid"
  by (induction keys arbitrary: c) (auto simp: cache_keys_def go_map split: option.splits)

text \<open>
  A key that was read less than the lifetime ago is returned without a request. After that an identifier the
  cache knows is still answered, whatever the server does, as long as there is a URL to ask.
\<close>

lemma jwks_fresh:
  assumes "map_of (rv_cache r) (jc_kid c) = Some key" "time_sub (jc_now c) (rv_lastFetch r) < rv_cacheTTL r"
  shows "jwks_get order env c r = (r, Inr key)"
  using assms by (simp add: jwks_get_def GetECPublicKey_def getCachedKey_def)

lemma jwks_known_identifier_answered:
  assumes "map_of (rv_cache r) (jc_kid c) \<noteq> None" "resolveJWKSURL env (jc_url c) r = Inr url"
  shows "\<exists>key. snd (jwks_get order env c r) = Inr key"
proof -
  have "map_of (rv_cache (fst (fetchAndCacheKeys (jc_fetch c) (jc_done c) url r))) (jc_kid c) \<noteq> None"
    using assms(1) cache_keys_lookup by (auto simp: fetchAndCacheKeys_def split: sum.splits option.splits)
  with assms show ?thesis
    by (auto simp: jwks_get_def GetECPublicKey_def split: option.splits prod.splits)
qed

text \<open>
  The cache is never emptied: a key that the server has withdrawn is still returned, after a refresh that
  no longer lists it.
\<close>

lemma jwks_withdrawn_key_returned:
  assumes "map_of (rv_cache r) (jc_kid c) = Some key" "resolveJWKSURL env (jc_url c) r = Inr url"
    and "jc_fetch c url = Inr (200, Some keys)" "\<forall>k \<in> set keys. jk_KID k \<noteq> jc_kid c"
  shows "snd (jwks_get order env c r) = Inr key"
  using assms cache_keys_other [OF assms(4), of "rv_cache r"]
  by (auto simp: jwks_get_def GetECPublicKey_def getCachedKey_def fetchAndCacheKeys_def split: option.splits)

text \<open>An identifier that no key set has is answered with another identifier's key.\<close>

lemma jwks_unknown_identifier_answered:
  "snd (jwks_get (\<lambda>c. c) (\<lambda>_. []) \<lparr>jc_now = 10, jc_done = 11, jc_kid = ''forged'', jc_url = ''u'', jc_fetch = jwks_demo_fetch [jwks_demo_key]\<rparr> NewResolver)
   = Inr (1, 2)"
  by code_simp

end
