(* ===== verification/Log_Sampling.thy ===== *)
theory Log_Sampling
  imports Float64
begin

text \<open>
  The sampling log handler (\<open>src/logger/sampler.go\<close>): records below a level pass a token bucket whose tokens are
  floating-point numbers. The wrapped handler is of any type; what is modelled of \<open>Handle\<close> is whether the
  record is passed on to it. Handlers derived by \<open>WithAttrs\<close> and \<open>WithGroup\<close> share the sampler, whose state is
  therefore kept apart from the handler. A custom sampler is a parameter.
\<close>

record slog_record =
  sl_Level :: int
  sl_Message :: string

definition slog_LevelWarn :: int where
  "slog_LevelWarn = 4"

section \<open>The token bucket\<close>

record tokenBucketSampler =
  ts_burst :: int
  ts_refillInterval :: duration
  ts_tokens :: rat
  ts_lastRefill :: time

definition newTokenBucketSampler :: "time \<Rightarrow> int \<Rightarrow> duration \<Rightarrow> tokenBucketSampler" where
  "newTokenBucketSampler now burst refillInterval =
     (let b = (if burst \<le> 0 then 1 else burst); i = (if refillInterval \<le> 0 then second else refillInterval)
      in \<lparr>ts_burst = b, ts_refillInterval = i, ts_tokens = float64_of b, ts_lastRefill = now\<rparr>)"

definition ts_refill :: "time \<Rightarrow> tokenBucketSampler \<Rightarrow> tokenBucketSampler" where
  "ts_refill now s =
     (let elapsed = time_sub now (ts_lastRefill s) in
      if elapsed > 0 then
        let delta = fdiv (float64_of elapsed) (float64_of (ts_refillInterval s));
            tokens = fadd (ts_tokens s) delta
        in s\<lparr>ts_tokens := (if tokens > float64_of (ts_burst s) then float64_of (ts_burst s) else tokens), ts_lastRefill := now\<rparr>
      else s)"

definition ts_Allow :: "time \<Rightarrow> tokenBucketSampler \<Rightarrow> tokenBucketSampler \<times> bool" where
  "ts_Allow now s =
     (let s1 = ts_refill now s in
      if ts_tokens s1 \<ge> 1 then (s1\<lparr>ts_tokens := fadd (ts_tokens s1) (- 1)\<rparr>, True) else (s1, False))"

section \<open>The handler\<close>

datatype 's sampler = TokenBucket tokenBucketSampler | Custom 's

record 's samplingOptions =
  so_bypassLevel :: int
  so_keyFunc :: "(slog_record \<Rightarrow> string) option"
  so_sampler :: "'s option"

definition WithBypassLevel :: "int \<Rightarrow> 's samplingOptions \<Rightarrow> 's samplingOptions" where
  "WithBypassLevel level o' = o'\<lparr>so_bypassLevel := level\<rparr>"

definition WithSamplingKeyFunc :: "(slog_record \<Rightarrow> string) option \<Rightarrow> 's samplingOptions \<Rightarrow> 's samplingOptions" where
  "WithSamplingKeyFunc fn o' = o'\<lparr>so_keyFunc := fn\<rparr>"

definition WithSampler :: "'s option \<Rightarrow> 's samplingOptions \<Rightarrow> 's samplingOptions" where
  "WithSampler s o' = o'\<lparr>so_sampler := s\<rparr>"

record 'h SamplingHandler =
  sh_next :: 'h
  sh_bypassLevel :: int
  sh_keyFunc :: "(slog_record \<Rightarrow> string) option"

definition NewSamplingHandler ::
  "time \<Rightarrow> 'h \<Rightarrow> int \<Rightarrow> duration \<Rightarrow> ('s samplingOptions \<Rightarrow> 's samplingOptions) option list \<Rightarrow> 'h SamplingHandler \<times> 's sampler" where
  "NewSamplingHandler now nxt burst refillInterval opts =
     (let cfg = fold (\<lambda>opt c. case opt of None \<Rightarrow> c | Some f \<Rightarrow> f c) opts
            \<lparr>so_bypassLevel = slog_LevelWarn, so_keyFunc = None, so_sampler = None\<rparr>
      in (\<lparr>sh_next = nxt, sh_bypassLevel = so_bypassLevel cfg, sh_keyFunc = so_keyFunc cfg\<rparr>,
          case so_sampler cfg of Some s \<Rightarrow> Custom s | None \<Rightarrow> TokenBucket (newTokenBucketSampler now burst refillInterval)))"

definition sampler_Allow :: "('s \<Rightarrow> 's \<times> bool) \<Rightarrow> time \<Rightarrow> 's sampler \<Rightarrow> 's sampler \<times> bool" where
  "sampler_Allow custom now s =
     (case s of TokenBucket b \<Rightarrow> map_prod TokenBucket id (ts_Allow now b) | Custom c \<Rightarrow> map_prod Custom id (custom c))"

definition sh_Handle :: "('s \<Rightarrow> 's \<times> bool) \<Rightarrow> time \<Rightarrow> slog_record \<Rightarrow> 'h SamplingHandler \<Rightarrow> 's sampler \<Rightarrow> 's sampler \<times> bool" where
  "sh_Handle custom now r h s = (if sl_Level r \<ge> sh_bypassLevel h then (s, True) else sampler_Allow custom now s)"

definition sh_WithAttrs :: "('h \<Rightarrow> 'a \<Rightarrow> 'h) \<Rightarrow> 'a \<Rightarrow> 'h SamplingHandler \<Rightarrow> 'h SamplingHandler" where
  "sh_WithAttrs next_WithAttrs attrs h = h\<lparr>sh_next := next_WithAttrs (sh_next h) attrs\<rparr>"

definition sh_WithGroup :: "('h \<Rightarrow> string \<Rightarrow> 'h) \<Rightarrow> string \<Rightarrow> 'h SamplingHandler \<Rightarrow> 'h SamplingHandler" where
  "sh_WithGroup next_WithGroup name h = h\<lparr>sh_next := next_WithGroup (sh_next h) name\<rparr>"

section \<open>Runs\<close>

text \<open>The records handled by the handler and those derived from it, in order, with the decision for each.\<close>

fun sh_run :: "('s \<Rightarrow> 's \<times> bool) \<Rightarrow> (time \<times> slog_record) list \<Rightarrow> 'h SamplingHandler \<Rightarrow> 's sampler \<Rightarrow> bool list" where
  "sh_run custom [] h s = []"
| "sh_run custom ((now, r) # rs) h s = (case sh_Handle custom now r h s of (s1, b) \<Rightarrow> b # sh_run custom rs h s1)"

fun times_from :: "time \<Rightarrow> (time \<times> slog_record) list \<Rightarrow> bool" where
  "times_from t [] \<longleftrightarrow> True"
| "times_from t ((now, r) # rs) \<longleftrightarrow> t \<le> now \<and> times_from now rs"

text \<open>The records below the bypass level that were passed on.\<close>

definition sampled :: "'h SamplingHandler \<Rightarrow> (time \<times> slog_record) list \<Rightarrow> bool list \<Rightarrow> nat" where
  "sampled h rs bs = length (filter (\<lambda>((now, r), b). sl_Level r < sh_bypassLevel h \<and> b) (zip rs bs))"

definition ts_ok :: "tokenBucketSampler \<Rightarrow> bool" where
  "ts_ok s \<longleftrightarrow> 0 < ts_burst s \<and> ts_burst s \<le> 2 ^ 53 \<and> 0 < ts_refillInterval s \<and> ts_refillInterval s \<le> 2 ^ 53 \<and>
     0 \<le> ts_tokens s \<and> ts_tokens s \<le> of_int (ts_burst s)"

lemma ts_ok_new:
  assumes "burst \<le> 2 ^ 53" "refillInterval \<le> 2 ^ 53"
  shows "ts_ok (newTokenBucketSampler now burst refillInterval)"
  using assms by (auto simp: ts_ok_def newTokenBucketSampler_def Let_def float64_of_exact second_def)

text \<open>Rounding makes up for at most \<open>2^-53\<close> of the time that has passed and of the capacity.\<close>

lemma ts_delta_bounds:
  assumes "0 < d" "d \<le> 2 ^ 53" "0 < i" "i \<le> 2 ^ 53"
  shows "0 \<le> fdiv (float64_of d) (float64_of i)"
    and "fdiv (float64_of d) (float64_of i) \<le> of_int d / of_int i * (1 + 1 / 2 ^ 53)"
proof -
  have e: "float64_of d = of_int d" "float64_of i = of_int i" using assms by (simp_all add: float64_of_exact)
  have p: "0 \<le> (of_int d :: rat) / of_int i" using assms by simp
  then show "0 \<le> fdiv (float64_of d) (float64_of i)" by (simp add: fdiv_def e)
  from fl64_error [OF p] show "fdiv (float64_of d) (float64_of i) \<le> of_int d / of_int i * (1 + 1 / 2 ^ 53)"
    unfolding fdiv_def e by (simp add: distrib_left)
qed

lemma fl64_within:
  assumes "0 \<le> x" "x \<le> of_int b"
  shows "fl64 x \<le> x + of_int b / 2 ^ 53"
proof -
  have "x / 2 ^ 53 \<le> of_int b / 2 ^ 53" using assms by (simp add: divide_right_mono)
  with fl64_error [OF assms(1)] show ?thesis by linarith
qed

lemma time_sub_small: "t \<le> now \<Longrightarrow> now - t \<le> 2 ^ 53 \<Longrightarrow> time_sub now t = now - t"
  by (simp add: time_sub_def saturate64_def)

lemma ts_refill_bound:
  assumes "ts_ok s" "ts_lastRefill s \<le> now" "now - ts_lastRefill s \<le> 2 ^ 53"
  shows "ts_ok (ts_refill now s)"
    and "ts_tokens (ts_refill now s) \<le> ts_tokens s + of_int (now - ts_lastRefill s) / of_int (ts_refillInterval s) * (1 + 1 / 2 ^ 53)
           + of_int (ts_burst s) / 2 ^ 53"
proof -
  let ?d = "now - ts_lastRefill s" and ?b = "of_int (ts_burst s) :: rat"
  let ?x = "of_int ?d / of_int (ts_refillInterval s) * (1 + 1 / 2 ^ 53) :: rat"
  let ?delta = "fdiv (float64_of ?d) (float64_of (ts_refillInterval s))"
  have d: "time_sub now (ts_lastRefill s) = ?d" using assms by (simp only: time_sub_small)
  have b: "float64_of (ts_burst s) = ?b" "0 \<le> ?b" using assms by (simp_all add: ts_ok_def float64_of_exact)
  have t: "0 \<le> ts_tokens s" "ts_tokens s \<le> ?b" using assms by (simp_all add: ts_ok_def)
  have main: "ts_ok (ts_refill now s) \<and> ts_tokens (ts_refill now s) \<le> ts_tokens s + ?x + ?b / 2 ^ 53"
  proof (cases "0 < ?d")
    case True
    have delta: "0 \<le> ?delta" "?delta \<le> ?x" using True assms by (simp_all only: ts_delta_bounds ts_ok_def)
    define y where "y = fadd (ts_tokens s) ?delta"
    have e: "ts_refill now s = s\<lparr>ts_tokens := (if y > ?b then ?b else y), ts_lastRefill := now\<rparr>"
      using True by (simp add: ts_refill_def d b Let_def y_def)
    have "0 \<le> y" using t delta by (simp add: y_def fadd_def)
    moreover have "min y ?b \<le> ts_tokens s + ?delta + ?b / 2 ^ 53"
    proof (cases "ts_tokens s + ?delta \<le> ?b")
      case True
      with fl64_within [of "ts_tokens s + ?delta" "ts_burst s"] t delta show ?thesis unfolding y_def fadd_def by linarith
    next
      case False
      have "0 \<le> ?b / 2 ^ 53" using b by simp
      with False show ?thesis by linarith
    qed
    ultimately show ?thesis using assms(1) delta(2) unfolding e by (auto simp: ts_ok_def min_def split: if_splits)
  next
    case False
    have "0 \<le> ?x + ?b / 2 ^ 53" using assms(1,2) b by (simp add: ts_ok_def)
    with False assms(1) show ?thesis by (simp add: ts_refill_def d)
  qed
  then show "ts_ok (ts_refill now s)" "ts_tokens (ts_refill now s) \<le> ts_tokens s + ?x + ?b / 2 ^ 53" by blast+
qed

lemma ts_refill_fields [simp]:
  "ts_burst (ts_refill now s) = ts_burst s" "ts_refillInterval (ts_refill now s) = ts_refillInterval s"
  by (simp_all add: ts_refill_def Let_def)

lemma ts_Allow_fields [simp]:
  "ts_burst (fst (ts_Allow now s)) = ts_burst s" "ts_refillInterval (fst (ts_Allow now s)) = ts_refillInterval s"
  by (simp_all add: ts_Allow_def Let_def)

lemma ts_Allow_lastRefill:
  assumes "ts_lastRefill s \<le> now" "now - ts_lastRefill s \<le> 2 ^ 53"
  shows "ts_lastRefill (fst (ts_Allow now s)) = now"
  using assms by (auto simp: ts_Allow_def ts_refill_def Let_def time_sub_small)

text \<open>One call: an admission costs a token, up to rounding.\<close>

lemma ts_Allow_bound:
  assumes "ts_ok s" "ts_lastRefill s \<le> now" "now - ts_lastRefill s \<le> 2 ^ 53" "ts_Allow now s = (s1, b)"
  shows "ts_ok s1"
    and "of_bool b + ts_tokens s1 \<le> ts_tokens s + of_int (now - ts_lastRefill s) / of_int (ts_refillInterval s) * (1 + 1 / 2 ^ 53)
           + 2 * (of_int (ts_burst s) / 2 ^ 53)"
proof -
  let ?r = "ts_refill now s" and ?b = "of_int (ts_burst s) :: rat"
  note R = ts_refill_bound [OF assms(1-3)]
  have t: "0 \<le> ts_tokens ?r" "ts_tokens ?r \<le> ?b" using R(1) by (simp_all add: ts_ok_def)
  have b: "0 \<le> ?b / 2 ^ 53" using assms(1) by (simp add: ts_ok_def)
  have "ts_ok s1 \<and> of_bool b + ts_tokens s1 \<le> ts_tokens ?r + ?b / 2 ^ 53"
  proof (cases "1 \<le> ts_tokens ?r")
    case True
    let ?y = "ts_tokens ?r - 1"
    have s1: "s1 = ?r\<lparr>ts_tokens := fl64 ?y\<rparr>" "b" using assms(4) True by (auto simp: ts_Allow_def Let_def fadd_def)
    have "fl64 ?y \<le> ?b" using True t assms(1) by (intro fl64_le_int) (simp_all add: ts_ok_def)
    moreover have "0 \<le> fl64 ?y" using True by simp
    moreover have "fl64 ?y \<le> ?y + ?b / 2 ^ 53" using True t by (intro fl64_within) simp_all
    ultimately show ?thesis using R(1) s1 by (simp add: ts_ok_def)
  next
    case False
    then have "s1 = ?r" "\<not> b" using assms(4) by (auto simp: ts_Allow_def Let_def)
    with R(1) b show ?thesis by simp
  qed
  with R(2) show "ts_ok s1"
    "of_bool b + ts_tokens s1 \<le> ts_tokens s + of_int (now - ts_lastRefill s) / of_int (ts_refillInterval s) * (1 + 1 / 2 ^ 53)
       + 2 * (of_int (ts_burst s) / 2 ^ 53)"
    by linarith+
qed

lemma sampled_Cons:
  "sampled h ((now, r) # rs) (b # bs) = (if sl_Level r < sh_bypassLevel h \<and> b then 1 else 0) + sampled h rs bs"
  by (simp add: sampled_def)

lemma sampled_bound:
  assumes "ts_ok s" "times_from t rs" "ts_lastRefill s \<le> t" "\<forall>(now, r) \<in> set rs. now \<le> hi" "ts_lastRefill s \<le> hi"
    "hi - ts_lastRefill s \<le> 2 ^ 53"
  shows "of_nat (sampled h rs (sh_run custom rs h (TokenBucket s))) \<le>
           ts_tokens s + of_int (hi - ts_lastRefill s) / of_int (ts_refillInterval s) * (1 + 1 / 2 ^ 53)
             + of_nat (length rs) * (2 * (of_int (ts_burst s) / 2 ^ 53))"
  using assms
proof (induction rs arbitrary: s t)
  case Nil
  then have "0 \<le> of_int (hi - ts_lastRefill s) / of_int (ts_refillInterval s) * (1 + 1 / 2 ^ 53 :: rat)"
    by (simp add: ts_ok_def)
  with Nil show ?case by (simp add: sampled_def ts_ok_def)
next
  case (Cons nr rs)
  obtain now r where nr: "nr = (now, r)" by (cases nr)
  let ?e = "2 * (of_int (ts_burst s) / 2 ^ 53) :: rat"
  have e: "0 \<le> ?e" using Cons.prems(1) by (simp add: ts_ok_def)
  have now: "t \<le> now" "now \<le> hi" "times_from now rs" "ts_lastRefill s \<le> now" "now - ts_lastRefill s \<le> 2 ^ 53"
    using Cons.prems nr by auto
  have len: "of_nat (length (nr # rs)) * ?e = ?e + of_nat (length rs) * ?e" by (simp add: distrib_right)
  show ?case
  proof (cases "sl_Level r \<ge> sh_bypassLevel h")
    case True
    with Cons.IH [of s now] Cons.prems now e show ?thesis
      unfolding len by (simp add: nr sh_Handle_def sampled_Cons)
  next
    case False
    obtain s1 b where sb: "ts_Allow now s = (s1, b)" by (cases "ts_Allow now s")
    note B = ts_Allow_bound [OF Cons.prems(1) now(4,5) sb]
    have f: "ts_burst s1 = ts_burst s" "ts_refillInterval s1 = ts_refillInterval s" "ts_lastRefill s1 = now"
      using ts_Allow_fields [of now s] ts_Allow_lastRefill [OF now(4,5)] by (simp_all add: sb)
    have run: "sampled h (nr # rs) (sh_run custom (nr # rs) h (TokenBucket s))
        = (if b then 1 else 0) + sampled h rs (sh_run custom rs h (TokenBucket s1))"
      using False by (simp add: nr sh_Handle_def sampler_Allow_def sb sampled_Cons)
    have IH: "of_nat (sampled h rs (sh_run custom rs h (TokenBucket s1))) \<le>
        ts_tokens s1 + of_int (hi - now) / of_int (ts_refillInterval s) * (1 + 1 / 2 ^ 53) + of_nat (length rs) * ?e"
      using Cons.IH [of s1 now] Cons.prems now B(1) f by simp
    have split: "of_int (hi - ts_lastRefill s) / of_int (ts_refillInterval s) * (1 + 1 / 2 ^ 53) =
        of_int (now - ts_lastRefill s) / of_int (ts_refillInterval s) * (1 + 1 / 2 ^ 53) +
        of_int (hi - now) / of_int (ts_refillInterval s) * (1 + 1 / 2 ^ 53 :: rat)"
      by (simp only: distrib_right [symmetric] add_divide_distrib [symmetric] of_int_add [symmetric]) simp
    have "of_nat (sampled h (nr # rs) (sh_run custom (nr # rs) h (TokenBucket s))) =
        of_bool b + (of_nat (sampled h rs (sh_run custom rs h (TokenBucket s1))) :: rat)"
      unfolding run by simp
    with IH B(2) show ?thesis unfolding len split by linarith
  qed
qed

lemma bypass_kept:
  "i < length rs \<Longrightarrow> sh_bypassLevel h \<le> sl_Level (snd (rs ! i)) \<Longrightarrow> sh_run custom rs h s ! i"
  by (induction custom rs h s arbitrary: i rule: sh_run.induct)
    (auto simp: sh_Handle_def nth_Cons split: prod.splits nat.splits)

lemma sh_run_length [simp]: "length (sh_run custom rs h s) = length rs"
  by (induction custom rs h s rule: sh_run.induct) (auto split: prod.splits)

text \<open>
  A sampling handler with the built-in sampler passes on every record at or above its bypass level. Of the records
  below it, it passes on at most the burst and one per refill interval since it was created, up to the rounding of
  the floating-point tokens: a fraction of \<open>2^-53\<close> of the intervals that have passed and of twice the burst per record.
\<close>

theorem sampling_bound:
  fixes hs :: "'h SamplingHandler \<times> 's sampler"
  assumes "hs = NewSamplingHandler start nxt burst interval opts" "snd hs = TokenBucket init"
    and "0 < burst" "burst \<le> 2 ^ 53" "0 < interval" "interval \<le> 2 ^ 53"
    and "times_from start rs" "\<forall>(now, r) \<in> set rs. now \<le> start + elapsed" "0 \<le> elapsed" "elapsed \<le> 2 ^ 53"
  shows "(\<forall>i < length rs. sh_bypassLevel (fst hs) \<le> sl_Level (snd (rs ! i)) \<longrightarrow> sh_run custom rs (fst hs) (snd hs) ! i) \<and>
         rat_of_nat (sampled (fst hs) rs (sh_run custom rs (fst hs) (snd hs))) \<le>
           of_int burst + of_int elapsed / of_int interval * (1 + 1 / 2 ^ 53) + of_nat (length rs) * (2 * (of_int burst / 2 ^ 53))"
proof -
  have init: "init = newTokenBucketSampler start burst interval"
    using assms(1,2) by (auto simp: NewSamplingHandler_def Let_def split: option.splits)
  have "ts_ok init" unfolding init using assms by (intro ts_ok_new) simp_all
  moreover have "ts_lastRefill init = start" "ts_burst init = burst" "ts_refillInterval init = interval" "ts_tokens init = of_int burst"
    using assms(3-6) by (simp_all add: init newTokenBucketSampler_def float64_of_exact)
  moreover have "\<forall>i < length rs. sh_bypassLevel (fst hs) \<le> sl_Level (snd (rs ! i)) \<longrightarrow> sh_run custom rs (fst hs) (snd hs) ! i"
    using bypass_kept by blast
  ultimately show ?thesis
    using sampled_bound [of init start rs "start + elapsed" "fst hs" custom] assms(2,7-10) by simp
qed

theorem sampling_bound_witness:
  "rat_of_nat (sampled \<lparr>sh_next = (), sh_bypassLevel = 4, sh_keyFunc = None\<rparr>
     (replicate 5 (10, \<lparr>sl_Level = 0, sl_Message = ''tick''\<rparr>))
     (sh_run (\<lambda>c :: unit. (c, True)) (replicate 5 (10, \<lparr>sl_Level = 0, sl_Message = ''tick''\<rparr>))
        \<lparr>sh_next = (), sh_bypassLevel = 4, sh_keyFunc = None\<rparr> (TokenBucket (newTokenBucketSampler 0 2 second)))) < 3"
proof -
  let ?hs = "NewSamplingHandler 0 () 2 second [] :: unit SamplingHandler \<times> unit sampler"
  have hs: "?hs = (\<lparr>sh_next = (), sh_bypassLevel = 4, sh_keyFunc = None\<rparr>, TokenBucket (newTokenBucketSampler 0 2 second))"
    by (simp add: NewSamplingHandler_def slog_LevelWarn_def)
  have rs: "replicate 5 x = [x, x, x, x, x]" for x :: "time \<times> slog_record" by (simp add: numeral_eq_Suc)
  let ?x = "(10 :: time, \<lparr>sl_Level = 0, sl_Message = ''tick''\<rparr>)"
  have "rat_of_nat (sampled (fst ?hs) [?x, ?x, ?x, ?x, ?x] (sh_run (\<lambda>c. (c, True)) [?x, ?x, ?x, ?x, ?x] (fst ?hs) (snd ?hs)))
      \<le> of_int 2 + of_int 10 / of_int second * (1 + 1 / 2 ^ 53) + of_nat (length [?x, ?x, ?x, ?x, ?x]) * (2 * (of_int 2 / 2 ^ 53))"
    by (rule conjunct2 [OF sampling_bound [where start = 0 and nxt = "()" and opts = "[]" and init = "newTokenBucketSampler 0 2 second"]])
      (simp_all add: NewSamplingHandler_def second_def)
  also have "\<dots> < 3" by (simp add: second_def)
  finally show ?thesis unfolding hs rs by simp
qed

text \<open>
  A record is passed on once a refill interval has gone by since the sampler's last refill, whatever was logged
  before.
\<close>

lemma sampler_recovers:
  assumes "ts_ok s" "ts_lastRefill s + ts_refillInterval s \<le> now" "now - ts_lastRefill s \<le> 2 ^ 53"
  shows "snd (sh_Handle custom now r h (TokenBucket s))"
proof -
  let ?d = "now - ts_lastRefill s" and ?i = "ts_refillInterval s"
  have i: "0 < ?i" "?i \<le> 2 ^ 53" "0 < ?d" using assms by (simp_all add: ts_ok_def)
  have e: "float64_of ?d = of_int ?d" "float64_of ?i = of_int ?i" using assms i by (simp_all add: float64_of_exact)
  have "(1 :: rat) \<le> of_int ?d / of_int ?i" using assms i by (simp add: le_divide_eq flip: of_int_le_iff)
  then have delta: "1 \<le> fdiv (float64_of ?d) (float64_of ?i)"
    unfolding fdiv_def e using fl64_ge_int [of 1] by simp
  have "1 \<le> fadd (ts_tokens s) (fdiv (float64_of ?d) (float64_of ?i))"
    unfolding fadd_def using delta assms(1) fl64_ge_int [of 1] by (simp add: ts_ok_def)
  moreover have "1 \<le> float64_of (ts_burst s)" using assms(1) by (simp add: ts_ok_def float64_of_exact)
  moreover have "time_sub now (ts_lastRefill s) = ?d" using assms i by (intro time_sub_small) simp_all
  ultimately have "1 \<le> ts_tokens (ts_refill now s)" using i by (simp add: ts_refill_def Let_def)
  then show ?thesis by (simp add: sh_Handle_def sampler_Allow_def ts_Allow_def Let_def)
qed

text \<open>The key function is stored but plays no part: all records share one bucket.\<close>

lemma sampling_ignores_key_function: "sh_run custom rs (h\<lparr>sh_keyFunc := f\<rparr>) s = sh_run custom rs h s"
  by (induction rs arbitrary: s) (auto simp: sh_Handle_def split: prod.splits)

text \<open>Handlers derived with attributes or a group decide as the handler they come from.\<close>

lemma sampling_derived_handlers:
  "sh_Handle custom now r (sh_WithAttrs f attrs h) s = sh_Handle custom now r h s"
  "sh_Handle custom now r (sh_WithGroup g name h) s = sh_Handle custom now r h s"
  by (simp_all add: sh_Handle_def sh_WithAttrs_def sh_WithGroup_def)

end
