(* ===== verification/Collections.thy ===== *)
theory Collections
  imports Go_Prelude "HOL-Library.Multiset"
begin

text \<open>
  The helpers on slices and maps (\<open>src/sliceutil/sliceutil.go\<close>, \<open>src/maputil/maputil.go\<close>). A nil slice is the empty
  list. \<open>None\<close> is a panic: the only one is \<open>Chunk\<close>'s, when the capacity it asks for is negative.
\<close>

section \<open>Slices\<close>

fun Reduce :: "'a list \<Rightarrow> 'u \<Rightarrow> ('u \<Rightarrow> 'a \<Rightarrow> 'u) \<Rightarrow> 'u" where
  "Reduce [] acc fn = acc"
| "Reduce (v # s) acc fn = Reduce s (fn acc v) fn"

definition group_add :: "('a \<Rightarrow> 'k) \<Rightarrow> ('k, 'a list) gomap \<Rightarrow> 'a \<Rightarrow> ('k, 'a list) gomap" where
  "group_add fn out v = (let k = fn v in mput k ((case map_of out k of Some vs \<Rightarrow> vs | None \<Rightarrow> []) @ [v]) out)"

definition GroupBy :: "'a list \<Rightarrow> ('a \<Rightarrow> 'k) \<Rightarrow> ('k, 'a list) gomap" where
  "GroupBy s fn = Reduce s [] (group_add fn)"

function chunk_loop :: "int \<Rightarrow> 'a list \<Rightarrow> 'a list list \<Rightarrow> 'a list list" where
  "chunk_loop sz s chunks =
     (if length s > 0 \<and> sz > 0 then
        let end' = (if sz > int (length s) then int (length s) else sz)
        in chunk_loop sz (drop (nat end') s) (chunks @ [take (nat end') s])
      else chunks)"
  by pat_completeness auto
termination
  by (relation "measure (\<lambda>(sz, s, chunks). length s)") (auto split: if_splits)

declare chunk_loop.simps [simp del]

definition Chunk :: "'a list \<Rightarrow> int \<Rightarrow> 'a list list option" where
  "Chunk s sz =
     (if sz \<le> 0 then Some []
      else if length s = 0 then Some []
      else if wrap64 (int (length s) + sz - 1) sdiv sz < 0 then None
      else Some (chunk_loop sz s []))"

fun unique_loop :: "'a list \<Rightarrow> ('a, unit) gomap \<Rightarrow> 'a list \<Rightarrow> 'a list" where
  "unique_loop [] seen out = out"
| "unique_loop (v # s) seen out =
     (case map_of seen v of
        None \<Rightarrow> unique_loop s (mput v () seen) (out @ [v])
      | Some _ \<Rightarrow> unique_loop s seen out)"

definition Unique :: "'a list \<Rightarrow> 'a list" where
  "Unique s = unique_loop s [] []"

definition Flatten :: "'a list list \<Rightarrow> 'a list" where
  "Flatten slices = Reduce slices [] (\<lambda>out s. out @ s)"

fun First :: "'a list \<Rightarrow> ('a \<Rightarrow> bool) \<Rightarrow> 'a option" where
  "First [] fn = None"
| "First (v # s) fn = (if fn v then Some v else First s fn)"

section \<open>Maps\<close>

text \<open>\<open>order\<close> is the order in which \<open>range\<close> visits a map.\<close>

type_synonym ('k, 'v) map_order = "('k, 'v) gomap \<Rightarrow> ('k \<times> 'v) list"

definition Merge :: "('k, 'v) map_order \<Rightarrow> ('k, 'v) gomap list \<Rightarrow> ('k, 'v) gomap" where
  "Merge order maps = fold (\<lambda>m out. fold (\<lambda>(k, v) out. mput k v out) (order m) out) maps []"

definition Filter :: "('k, 'v) map_order \<Rightarrow> ('k, 'v) gomap \<Rightarrow> ('k \<Rightarrow> 'v \<Rightarrow> bool) \<Rightarrow> ('k, 'v) gomap" where
  "Filter order m fn = fold (\<lambda>(k, v) out. if fn k v then mput k v out else out) (order m) []"

section \<open>Reduce, GroupBy, Unique, Flatten, First\<close>

lemma Reduce_foldl: "Reduce s acc fn = foldl fn acc s"
  by (induction s arbitrary: acc) simp_all

lemma group_add_lookup:
  "map_of (foldl (group_add fn) out s) k =
     (if filter (\<lambda>v. fn v = k) s = [] then map_of out k
      else Some ((case map_of out k of Some vs \<Rightarrow> vs | None \<Rightarrow> []) @ filter (\<lambda>v. fn v = k) s))"
  by (induction s arbitrary: out) (auto simp: group_add_def go_map Let_def split: option.splits)

text \<open>A group holds the elements of its key in their order, and there is no empty group.\<close>

lemma GroupBy_lookup:
  "map_of (GroupBy s fn) k = (if filter (\<lambda>v. fn v = k) s = [] then None else Some (filter (\<lambda>v. fn v = k) s))"
  by (simp add: GroupBy_def Reduce_foldl group_add_lookup)

lemma remdups_snoc: "remdups (ys @ [v]) = filter (\<lambda>x. x \<noteq> v) (remdups ys) @ [v]"
  by (induction ys) auto

lemma rev_remdups_Cons: "rev (remdups (rev (v # xs))) = v # rev (remdups (rev (filter (\<lambda>x. x \<noteq> v) xs)))"
  by (simp add: remdups_snoc flip: rev_filter) (simp add: rev_filter remdups_filter)

lemma unique_loop_eq:
  "(\<And>v. map_of seen v \<noteq> None \<longleftrightarrow> v \<in> set out) \<Longrightarrow>
   unique_loop s seen out = out @ rev (remdups (rev (filter (\<lambda>v. v \<notin> set out) s)))"
proof (induction s arbitrary: seen out)
  case (Cons v s)
  show ?case
  proof (cases "v \<in> set out")
    case True
    with Cons.prems [of v] Cons.IH [OF Cons.prems] show ?thesis by (simp split: option.splits)
  next
    case False
    have "map_of seen v = None" using Cons.prems [of v] False by (cases "map_of seen v") auto
    moreover have "unique_loop s (mput v () seen) (out @ [v]) = (out @ [v]) @ rev (remdups (rev (filter (\<lambda>w. w \<notin> set (out @ [v])) s)))"
      by (rule Cons.IH) (use Cons.prems in \<open>auto simp: go_map\<close>)
    moreover have "rev (remdups (rev (filter (\<lambda>w. w \<notin> set out) (v # s)))) =
        v # rev (remdups (rev (filter (\<lambda>w. w \<notin> set (out @ [v])) s)))"
      using False rev_remdups_Cons [of v "filter (\<lambda>w. w \<notin> set out) s"] by (simp add: conj_commute)
    ultimately show ?thesis by simp
  qed
qed simp

text \<open>The first occurrences, in their order: the reference keeps the last occurrences of the reversed list.\<close>

lemma Unique_first_occurrences: "Unique s = rev (remdups (rev s))"
  by (simp add: Unique_def unique_loop_eq)

lemma Flatten_concat: "Flatten slices = concat slices"
proof -
  have "foldl (\<lambda>out s. out @ s) acc slices = acc @ concat slices" for acc by (induction slices arbitrary: acc) simp_all
  then show ?thesis by (simp add: Flatten_def Reduce_foldl)
qed

lemma First_find: "First s fn = List.find fn s"
  by (induction s) simp_all

section \<open>Chunks\<close>

text \<open>The reference: the chunk with number \<open>i\<close> starts at \<open>i * k\<close>.\<close>

definition chunks_of :: "nat \<Rightarrow> 'a list \<Rightarrow> 'a list list" where
  "chunks_of k s = map (\<lambda>i. take k (drop (i * k) s)) [0..<(length s + k - 1) div k]"

lemma chunks_of_Nil: "0 < k \<Longrightarrow> chunks_of k [] = []"
  by (simp add: chunks_of_def)

lemma chunk_count:
  assumes "0 < k" "0 < n"
  shows "(n + k - 1) div k = Suc ((n - k + k - 1) div k)"
proof (cases "k \<le> n")
  case True
  have e: "n + k - 1 = (n - k + k - 1) + k" using assms True by simp
  have "((n - k + k - 1) + k) div k = Suc ((n - k + k - 1) div k)" using assms(1) by (intro div_add_self2 [THEN trans]) simp_all
  then show ?thesis by (simp only: e)
next
  case False
  have e: "n + k - 1 = (n - 1) + k" using assms by simp
  have "((n - 1) + k) div k = Suc ((n - 1) div k)" using assms(1) by (intro div_add_self2 [THEN trans]) simp_all
  moreover have "(n - 1) div k = 0" using False by (intro div_less) simp
  moreover have "(n - k + k - 1) div k = 0" using False assms by (intro div_less) simp
  ultimately show ?thesis by (simp only: e)
qed

lemma chunks_of_Cons:
  assumes "0 < k" "s \<noteq> []"
  shows "chunks_of k s = take k s # chunks_of k (drop k s)"
proof -
  have "(length s + k - 1) div k = Suc ((length (drop k s) + k - 1) div k)"
    using assms chunk_count [of k "length s"] by simp
  then show ?thesis unfolding chunks_of_def
    by (simp add: upt_conv_Cons map_Suc_upt [symmetric] comp_def add.commute del: upt_Suc)
qed

lemma concat_chunks_of: "0 < k \<Longrightarrow> concat (chunks_of k s) = s"
proof (induction s rule: measure_induct_rule [of length])
  case (less s)
  then show ?case
    by (cases "s = []") (simp_all add: chunks_of_Nil chunks_of_Cons)
qed

lemma chunk_loop_eq: "0 < sz \<Longrightarrow> chunk_loop sz s chunks = chunks @ chunks_of (nat sz) s"
proof (induction sz s chunks rule: chunk_loop.induct)
  case (1 sz s chunks)
  show ?case
  proof (cases "s = []")
    case True
    then show ?thesis using 1(2) by (simp add: chunk_loop.simps chunks_of_Nil)
  next
    case False
    define e where "e = (if sz > int (length s) then int (length s) else sz)"
    have "take (nat e) s = take (nat sz) s" "drop (nat e) s = drop (nat sz) s" by (auto simp: e_def)
    moreover have "chunk_loop sz (drop (nat e) s) (chunks @ [take (nat e) s]) = (chunks @ [take (nat e) s]) @ chunks_of (nat sz) (drop (nat e) s)"
      using 1(1) [of e] 1(2) False by (simp add: e_def)
    ultimately show ?thesis
      using 1(2) False by (subst chunk_loop.simps) (simp add: Let_def chunks_of_Cons flip: e_def)
  qed
qed

lemma Chunk_eq:
  assumes "0 < sz" "int (length s) + sz \<le> 2 ^ 63"
  shows "Chunk s sz = Some (chunks_of (nat sz) s)"
proof (cases "s = []")
  case True
  with assms(1) show ?thesis by (simp add: Chunk_def chunks_of_Nil)
next
  case False
  have "0 \<le> int (length s) + sz - 1" using assms(1) by simp
  then have "0 \<le> (int (length s) + sz - 1) sdiv sz" using assms(1) by (simp only: sdiv_nonneg_div pos_imp_zdiv_nonneg_iff)
  moreover have "wrap64 (int (length s) + sz - 1) = int (length s) + sz - 1"
    using assms by (intro wrap64_id) (simp add: in_int64_def)
  ultimately show ?thesis using assms(1) False by (simp only: Chunk_def not_less [symmetric] if_False) (simp add: chunk_loop_eq)
qed

lemma chunk_nonempty:
  assumes "0 < k" "i < (length s + k - 1) div k"
  shows "take k (drop (i * k) s) \<noteq> []"
proof -
  have "Suc i * k \<le> (length s + k - 1) div k * k" using assms(2) by (intro mult_le_mono1) simp
  also have "\<dots> \<le> length s + k - 1" by (rule div_times_less_eq_dividend)
  finally have "i * k < length s" using assms(1) by simp
  with assms(1) show ?thesis by simp
qed

lemma chunks_of_nth: "i < (length s + k - 1) div k \<Longrightarrow> chunks_of k s ! i = take k (drop (i * k) s)"
  by (simp add: chunks_of_def)

text \<open>
  For a positive size, and unless the rounded-up number of elements overflows, \<open>Chunk\<close> returns the slice cut into
  consecutive pieces: piece \<open>i\<close> holds the elements from \<open>i * size\<close> on, the pieces joined are the slice, there are as many
  as the quotient rounded up, none is empty and none longer than the size. \<open>Flatten\<close> undoes it.
\<close>

theorem Chunk_partitions:
  assumes "0 < sz" "int (length s) + sz \<le> 2 ^ 63"
  shows "\<exists>cs. Chunk s sz = Some cs \<and> Flatten cs = s \<and> length cs = (length s + nat sz - 1) div nat sz \<and>
    (\<forall>i < length cs. cs ! i = take (nat sz) (drop (i * nat sz) s) \<and> cs ! i \<noteq> [])"
proof (intro exI conjI)
  have k: "0 < nat sz" using assms(1) by simp
  show "Chunk s sz = Some (chunks_of (nat sz) s)" using assms by (rule Chunk_eq)
  show "Flatten (chunks_of (nat sz) s) = s" by (simp only: Flatten_concat concat_chunks_of [OF k])
  show len: "length (chunks_of (nat sz) s) = (length s + nat sz - 1) div nat sz" by (simp only: chunks_of_def length_map length_upt diff_zero)
  show "\<forall>i < length (chunks_of (nat sz) s). chunks_of (nat sz) s ! i = take (nat sz) (drop (i * nat sz) s) \<and> chunks_of (nat sz) s ! i \<noteq> []"
    unfolding len by (metis chunk_nonempty chunks_of_nth k)
qed

theorem Chunk_partitions_witness: "\<exists>cs. Chunk [1, 2, 3, 4, 5 :: int] 2 = Some cs \<and> Flatten cs = [1, 2, 3, 4, 5] \<and> length cs = 3"
  using Chunk_partitions [of 2 "[1, 2, 3, 4, 5 :: int]"] by auto

text \<open>The capacity \<open>(len(s)+size-1)/size\<close> overflows for a size near the largest integer, and \<open>make\<close> panics.\<close>

lemma Chunk_panics: "Chunk [1, 2 :: int] (2 ^ 63 - 1) = None"
  by (simp add: Chunk_def wrap64_def signed_divide_int_def)

section \<open>Merge and Filter\<close>

lemma fold_put_lookup:
  "map_of (fold (\<lambda>(k, v) out. mput k v out) kvs out) k = (case map_of (rev kvs) k of Some v \<Rightarrow> Some v | None \<Rightarrow> map_of out k)"
proof (induction kvs arbitrary: out)
  case (Cons kv kvs)
  obtain a b where "kv = (a, b)" by (cases kv)
  with Cons show ?case by (simp add: go_map map_add_def split: option.split)
qed simp

text \<open>Whatever order maps are visited in, a later map wins, and a filter keeps exactly the entries it accepts.\<close>

lemma visited_lookup:
  assumes "map_ok m" "mset (order m) = mset m"
  shows "map_of (rev (order m)) = map_of m" "map_of (order m) = map_of m"
proof -
  have d: "distinct (map fst (order m))" "distinct (map fst (rev (order m)))"
    using assms by (metis map_ok_def mset_eq_imp_distinct_iff mset_map, metis distinct_rev map_ok_def mset_eq_imp_distinct_iff mset_map rev_map)
  from assms(2) have "set (order m) = set m" by (metis mset_eq_setD)
  with d assms(1) show "map_of (rev (order m)) = map_of m" "map_of (order m) = map_of m"
    by (metis map_of_inject_set map_ok_def set_rev)+
qed

lemma Merge_lookup:
  assumes "\<And>m. m \<in> set maps \<Longrightarrow> map_ok m \<and> mset (order m) = mset m"
  shows "map_of (Merge order maps) k = foldl (\<lambda>acc m. case map_of m k of Some v \<Rightarrow> Some v | None \<Rightarrow> acc) None maps"
proof -
  have "map_of (fold (\<lambda>m out. fold (\<lambda>(k, v) out. mput k v out) (order m) out) maps out) k =
      foldl (\<lambda>acc m. case map_of m k of Some v \<Rightarrow> Some v | None \<Rightarrow> acc) (map_of out k) maps" for out
    using assms
  proof (induction maps arbitrary: out)
    case (Cons m maps)
    then show ?case using visited_lookup [of m order] by (simp add: fold_put_lookup)
  qed simp
  then show ?thesis by (simp add: Merge_def)
qed

lemma map_of_filter_distinct:
  "distinct (map fst kvs) \<Longrightarrow>
   map_of (filter (\<lambda>(k, v). fn k v) kvs) k = (case map_of kvs k of Some v \<Rightarrow> if fn k v then Some v else None | None \<Rightarrow> None)"
  by (induction kvs) (auto simp: map_of_eq_None_iff image_iff split: option.splits)

lemma Filter_lookup:
  assumes "map_ok m" "mset (order m) = mset m"
  shows "map_of (Filter order m fn) k = (case map_of m k of Some v \<Rightarrow> if fn k v then Some v else None | None \<Rightarrow> None)"
proof -
  have e: "fold (\<lambda>(k, v) out. if fn k v then mput k v out else out) kvs out = fold (\<lambda>(k, v) out. mput k v out) (filter (\<lambda>(k, v). fn k v) kvs) out"
    for kvs out by (induction kvs arbitrary: out) auto
  have "distinct (map fst (rev (order m)))"
    using assms by (metis distinct_rev map_ok_def mset_eq_imp_distinct_iff mset_map rev_map)
  then have "map_of (rev (filter (\<lambda>(k, v). fn k v) (order m))) k = (case map_of (rev (order m)) k of Some v \<Rightarrow> if fn k v then Some v else None | None \<Rightarrow> None)"
    unfolding rev_filter by (rule map_of_filter_distinct)
  then show ?thesis using visited_lookup [of m order, OF assms] by (simp add: Filter_def e fold_put_lookup split: option.splits)
qed

end
