(* ===== verification/Random_Text.thy ===== *)
theory Random_Text
  imports Go_Strings "HOL-Library.Log_Nat"
begin

text \<open>
  Random strings and passwords (\<open>RandomStringFromReader\<close> and its callers in \<open>src/stringutil/stringutil.go\<close>,
  \<open>src/cryptoutil/cryptoutil.go\<close>). The source of randomness is the string of bytes it delivers. \<open>rand.Int\<close> of the
  standard library is written out: it draws blocks of as many bytes as the bound needs, clears the surplus bits and
  rejects a block that is not below the bound. The hash functions of the bcrypt package are parameters.
\<close>

section \<open>Random numbers\<close>

definition bit_len :: "nat \<Rightarrow> nat" where
  "bit_len n = nat (bitlen (int n))"

definition block_len :: "nat \<Rightarrow> nat" where
  "block_len bitLen = (bitLen + 7) div 8"

definition top_bits :: "nat \<Rightarrow> nat" where
  "top_bits bitLen = (let b = bitLen mod 8 in if b = 0 then 8 else b)"

text \<open>The number of a block: the first byte is masked to the bits that are needed.\<close>

fun block_value :: "nat \<Rightarrow> string \<Rightarrow> nat" where
  "block_value bitLen [] = 0"
| "block_value bitLen (c # cs) = big_endian (char_of (of_char c mod 2 ^ top_bits bitLen :: nat) # cs)"

function draw :: "nat \<Rightarrow> nat \<Rightarrow> string \<Rightarrow> error + nat \<times> string" where
  "draw mx bitLen bs =
     (let k = block_len bitLen in
      if k = 0 then Inr (0, bs)
      else if length bs < k then Inl (Err ''EOF'')
      else let n = block_value bitLen (take k bs) in
        if n < mx then Inr (n, drop k bs) else draw mx bitLen (drop k bs))"
  by pat_completeness auto
termination
  by (relation "measure (\<lambda>(mx, bitLen, bs). length bs)") auto

declare draw.simps [simp del]

definition rand_Int :: "nat \<Rightarrow> string \<Rightarrow> error + nat \<times> string" where
  "rand_Int mx bs = draw mx (bit_len (mx - 1)) bs"

section \<open>Random strings\<close>

fun random_bytes :: "string \<Rightarrow> nat \<Rightarrow> string \<Rightarrow> error + string \<times> string" where
  "random_bytes charset 0 bs = Inr ([], bs)"
| "random_bytes charset (Suc i) bs =
     (case rand_Int (length charset) bs of
        Inl e \<Rightarrow> Inl e
      | Inr (n, bs1) \<Rightarrow>
          (case random_bytes charset i bs1 of
             Inl e \<Rightarrow> Inl e
           | Inr (s, bs2) \<Rightarrow> Inr (charset ! n # s, bs2)))"

text \<open>A negative length panics in \<open>make\<close>: \<open>None\<close>.\<close>

definition RandomStringFromReader :: "string \<Rightarrow> int \<Rightarrow> string \<Rightarrow> (error + string \<times> string) option" where
  "RandomStringFromReader r len charset =
     (if charset = [] then Some (Inl (Err ''stringutil: charset cannot be empty''))
      else if len < 0 then None
      else Some (random_bytes charset (nat len) r))"

definition RandomStringFromCharset :: "string \<Rightarrow> int \<Rightarrow> string \<Rightarrow> (error + string \<times> string) option" where
  "RandomStringFromCharset randReader len charset = RandomStringFromReader randReader len charset"

definition RandomSecureString :: "string \<Rightarrow> int \<Rightarrow> (error + string \<times> string) option" where
  "RandomSecureString randReader len =
     RandomStringFromCharset randReader len ''abcdefghijklmnopqrstuvwxyzABCDEFGHIJKLMNOPQRSTUVWXYZ0123456789!@#$''"

definition RandomAlphanumeric :: "string \<Rightarrow> int \<Rightarrow> (error + string \<times> string) option" where
  "RandomAlphanumeric randReader len =
     RandomStringFromCharset randReader len ''abcdefghijklmnopqrstuvwxyzABCDEFGHIJKLMNOPQRSTUVWXYZ0123456789''"

section \<open>Passwords\<close>

definition passwordChars :: string where
  "passwordChars = ''ABCDEFGHJKLMNPQRSTUVWXYZ'' @ ''abcdefghijkmnpqrstuvwxyz'' @ ''23456789'' @ ''!@#$%^&*''"

definition ErrPasswordTooShort :: error where
  "ErrPasswordTooShort = Err ''cryptoutil: password length must be >= 8''"

definition ErrInvalidHash :: error where
  "ErrInvalidHash = Err ''cryptoutil: invalid password hash''"

definition GenerateTempPassword :: "string \<Rightarrow> int \<Rightarrow> (error + string \<times> string) option" where
  "GenerateTempPassword randReader len =
     (if len < 8 then Some (Inl ErrPasswordTooShort) else RandomStringFromReader randReader len passwordChars)"

definition BcryptCost :: int where
  "BcryptCost = 12"

definition HashPassword :: "(string \<Rightarrow> int \<Rightarrow> error + string) \<Rightarrow> string \<Rightarrow> error + string" where
  "HashPassword generate password = (case generate password BcryptCost of Inl e \<Rightarrow> Inl e | Inr b \<Rightarrow> Inr b)"

text \<open>\<open>compare\<close> is bcrypt's comparison and \<open>mismatch\<close> its \<open>ErrMismatchedHashAndPassword\<close>.\<close>

definition ComparePassword :: "(string \<Rightarrow> string \<Rightarrow> error option) \<Rightarrow> error \<Rightarrow> string \<Rightarrow> string \<Rightarrow> error option" where
  "ComparePassword compare mismatch hash password =
     (case compare hash password of
        Some err \<Rightarrow> if errors_is err mismatch then Some err else Some (Join [ErrInvalidHash, err])
      | None \<Rightarrow> None)"

definition IsCorrectPassword :: "(string \<Rightarrow> string \<Rightarrow> error option) \<Rightarrow> error \<Rightarrow> string \<Rightarrow> string \<Rightarrow> bool" where
  "IsCorrectPassword compare mismatch hash password \<longleftrightarrow> ComparePassword compare mismatch hash password = None"

section \<open>Every number below the bound is equally likely\<close>

lemma bit_len_bound: "n < 2 ^ bit_len n"
proof (cases "n = 0")
  case False
  then have "int n < 2 ^ bit_len n" using bitlen_bounds [of "int n"] by (simp add: bit_len_def)
  then show ?thesis by (metis of_nat_less_iff of_nat_numeral of_nat_power)
qed (simp add: bit_len_def)

lemma block_bits: "0 < bl \<Longrightarrow> 8 * (block_len bl - 1) + top_bits bl = bl \<and> 0 < block_len bl \<and> top_bits bl \<le> 8"
proof (cases "bl mod 8 = 0")
  case True
  moreover assume "0 < bl"
  ultimately obtain q where q: "bl = 8 * q" "0 < q" by (auto simp: mod_eq_0_iff_dvd)
  have "(8 * q + 7) div 8 = q" by simp
  with q show ?thesis by (simp add: block_len_def top_bits_def)
next
  case False
  define q m where "q = bl div 8" and "m = bl mod 8"
  have m: "0 < m" "m < 8" "bl = 8 * q + m" using False by (simp_all add: q_def m_def)
  have "(m + 7) div 8 = 1" using m(1,2) by (simp add: div_nat_eqI)
  then have "(8 * q + m + 7) div 8 = q + 1" by (simp only: add.assoc div_mult_self4 [of 8 "m + 7"])
  with m show ?thesis by (simp add: block_len_def top_bits_def)
qed

lemma big_endian_Cons: "big_endian (c # cs) = of_char c * 256 ^ length cs + big_endian cs"
proof (induction cs rule: rev_induct)
  case Nil
  show ?case using big_endian_snoc [of "[]" c] by simp
next
  case (snoc d cs)
  show ?case
    using snoc big_endian_snoc [of "c # cs" d] big_endian_snoc [of cs d] by (simp add: algebra_simps)
qed

lemma block_value_mod:
  assumes "0 < bl" "length bs = block_len bl"
  shows "block_value bl bs = big_endian bs mod 2 ^ bl"
proof (cases bs)
  case (Cons c cs)
  let ?M = "256 ^ length cs :: nat" and ?b = "top_bits bl"
  have "block_len bl = Suc (length cs)" using assms(2) Cons by simp
  then have l: "bl = 8 * length cs + ?b" using block_bits [OF assms(1)] by simp
  have p: "(2 :: nat) ^ bl = ?M * 2 ^ ?b" by (subst l) (simp add: power_add power_mult)
  have "(of_char c mod 2 ^ ?b :: nat) < 256" by (rule le_less_trans [OF mod_less_eq_dividend]) simp
  then have "block_value bl bs = of_char c mod 2 ^ ?b * ?M + big_endian cs" by (simp add: Cons big_endian_Cons of_char_of)
  moreover have "big_endian bs mod (?M * 2 ^ ?b) = ?M * (of_char c mod 2 ^ ?b) + big_endian cs"
    unfolding mod_mult2_eq using big_endian_less [of cs] by (simp add: Cons big_endian_Cons)
  ultimately show ?thesis by (simp only: p mult.commute)
qed (use assms block_bits in simp)

lemma card_residue: "v < m \<Longrightarrow> card {n. n < q * m \<and> n mod m = v} = (q :: nat)"
proof -
  assume v: "v < m"
  have "{n. n < q * m \<and> n mod m = v} = (\<lambda>j. j * m + v) ` {..<q}"
  proof (intro equalityI subsetI)
    fix n assume "n \<in> {n. n < q * m \<and> n mod m = v}"
    then have "n = n div m * m + v" "n div m < q" using v by (auto simp: less_mult_imp_div_less)
    then show "n \<in> (\<lambda>j. j * m + v) ` {..<q}" by blast
  next
    fix n assume "n \<in> (\<lambda>j. j * m + v) ` {..<q}"
    then obtain j where j: "n = j * m + v" "j < q" by blast
    have "j * m + v < Suc j * m" using v by simp
    also have "\<dots> \<le> q * m" using j(2) by (intro mult_le_mono1) simp
    finally show "n \<in> {n. n < q * m \<and> n mod m = v}" using v j(1) by simp
  qed
  moreover have "inj_on (\<lambda>j. j * m + v) {..<q}" using v by (auto simp: inj_on_def)
  ultimately show ?thesis by (simp add: card_image)
qed

lemma card_blocks:
  assumes "0 < bl" "v < 2 ^ bl"
  shows "card {bs. length bs = block_len bl \<and> block_value bl bs = v} = 2 ^ (8 * block_len bl - bl)"
proof -
  let ?k = "block_len bl"
  have le: "bl \<le> 8 * ?k" unfolding block_len_def by simp
  have "(256 :: nat) ^ ?k = 2 ^ (8 * ?k)" by (simp add: power_mult)
  also have "\<dots> = 2 ^ (8 * ?k - bl) * 2 ^ bl" using le by (simp flip: power_add)
  finally have e: "(256 :: nat) ^ ?k = 2 ^ (8 * ?k - bl) * 2 ^ bl" .
  have "{bs. length bs = ?k \<and> block_value bl bs = v} = {bs \<in> {bs. length bs = ?k}. big_endian bs mod 2 ^ bl = v}"
    using block_value_mod [OF assms(1)] by auto
  moreover have "bij_betw big_endian {bs \<in> {bs. length bs = ?k}. big_endian bs mod 2 ^ bl = v} {n \<in> {..<256 ^ ?k}. n mod 2 ^ bl = v}"
  proof (rule bij_betw_imageI)
    show "inj_on big_endian {bs \<in> {bs. length bs = ?k}. big_endian bs mod 2 ^ bl = v}" using big_endian_inj by (auto simp: inj_on_def)
    show "big_endian ` {bs \<in> {bs. length bs = ?k}. big_endian bs mod 2 ^ bl = v} = {n \<in> {..<256 ^ ?k}. n mod 2 ^ bl = v}"
    proof (intro equalityI subsetI)
      fix n assume "n \<in> {n \<in> {..<256 ^ ?k}. n mod 2 ^ bl = v}"
      then show "n \<in> big_endian ` {bs \<in> {bs. length bs = ?k}. big_endian bs mod 2 ^ bl = v}"
        using big_endian_surj [of n ?k] by auto
    next
      fix n assume "n \<in> big_endian ` {bs \<in> {bs. length bs = ?k}. big_endian bs mod 2 ^ bl = v}"
      then obtain bs where "length bs = ?k" "big_endian bs mod 2 ^ bl = v" "n = big_endian bs" by auto
      then show "n \<in> {n \<in> {..<256 ^ ?k}. n mod 2 ^ bl = v}" using big_endian_less [of bs] by simp
    qed
  qed
  ultimately show ?thesis
    using card_residue [OF assms(2), of "2 ^ (8 * ?k - bl)"] by (simp add: bij_betw_same_card e)
qed

section \<open>Draws\<close>

lemma draw_result: "draw mx bl bs = Inr (n, rest) \<Longrightarrow> 0 < mx \<Longrightarrow> n < mx \<and> length rest + block_len bl \<le> length bs"
proof (induction mx bl bs rule: draw.induct)
  case (1 mx bl bs)
  show ?case
  proof (cases "block_len bl = 0 \<or> length bs < block_len bl")
    case True
    with 1(2,3) show ?thesis by (subst (asm) draw.simps) (auto simp: Let_def split: if_splits)
  next
    case False
    show ?thesis
    proof (cases "block_value bl (take (block_len bl) bs) < mx")
      case True
      with 1(2) False show ?thesis by (subst (asm) draw.simps) (auto simp: Let_def)
    next
      case rejected: False
      have "draw mx bl (drop (block_len bl) bs) = Inr (n, rest)"
        using 1(2) False rejected by (subst (asm) draw.simps) (simp add: Let_def)
      from 1(1) [OF refl _ _ refl rejected this 1(3)] False show ?thesis by auto
    qed
  qed
qed

text \<open>The first block decides exactly when it is below the bound.\<close>

lemma draw_first_block:
  assumes "0 < bl" "0 < mx" "length block = block_len bl"
  shows "draw mx bl (block @ rest) = Inr (n, rest) \<longleftrightarrow> block_value bl block = n \<and> n < mx"
proof (cases "block_value bl block < mx")
  case True
  then show ?thesis using assms block_bits [OF assms(1)] by (subst draw.simps) (auto simp: Let_def)
next
  case False
  have "draw mx bl (block @ rest) = draw mx bl rest"
    using False assms block_bits [OF assms(1)] by (subst draw.simps) (simp add: Let_def)
  moreover have "draw mx bl rest \<noteq> Inr (n, rest)"
    using draw_result [of mx bl rest n rest] assms(2) block_bits [OF assms(1)] by auto
  ultimately show ?thesis using False by auto
qed

lemma random_bytes_result:
  "random_bytes charset n bs = Inr (s, rest) \<Longrightarrow> charset \<noteq> [] \<Longrightarrow> length s = n \<and> set s \<subseteq> set charset"
proof (induction charset n bs arbitrary: s rest rule: random_bytes.induct)
  case (2 charset i bs)
  then obtain n bs1 s1 where *: "rand_Int (length charset) bs = Inr (n, bs1)" "random_bytes charset i bs1 = Inr (s1, rest)" "s = charset ! n # s1"
    by (auto split: sum.splits prod.splits)
  have "n < length charset" using draw_result [of "length charset" _ bs n bs1] *(1) 2(3) by (simp add: rand_Int_def)
  with 2(1) [OF *(1) refl *(2) 2(3)] *(3) show ?case by simp
qed simp

text \<open>
  A random string has the length asked for and only characters of the set; and every position of the set is equally
  likely: the number of blocks of random bytes that select it is the same power of two for each, so that reduction
  of the bytes to the set is without bias. Blocks that select none are drawn again.
\<close>

theorem random_string_unbiased:
  assumes "charset \<noteq> []" "bl = bit_len (length charset - 1)"
  shows "(\<forall>r n s rest. RandomStringFromReader r n charset = Some (Inr (s, rest)) \<longrightarrow> int (length s) = n \<and> set s \<subseteq> set charset) \<and>
         (\<forall>i < length charset. \<forall>rest.
            card {block. length block = block_len bl \<and> rand_Int (length charset) (block @ rest) = Inr (i, rest)} = 2 ^ (8 * block_len bl - bl))"
proof (intro conjI allI impI)
  fix r n s rest
  assume "RandomStringFromReader r n charset = Some (Inr (s, rest))"
  then show "int (length s) = n" "set s \<subseteq> set charset"
    using random_bytes_result [of charset "nat n" r s rest] assms(1) by (auto simp: RandomStringFromReader_def split: if_splits)
next
  fix i and rest :: string
  assume i: "i < length charset"
  show "card {block. length block = block_len bl \<and> rand_Int (length charset) (block @ rest) = Inr (i, rest)} = 2 ^ (8 * block_len bl - bl)"
  proof (cases "bl = 0")
    case True
    then have "length charset - 1 = 0" using bit_len_bound [of "length charset - 1"] assms(2) by simp
    then have "i = 0" using i by simp
    have k: "block_len bl = 0" using True by (simp add: block_len_def)
    then have "draw (length charset) bl rest = Inr (i, rest)" using \<open>i = 0\<close> by (subst draw.simps) simp
    then have "{block. length block = block_len bl \<and> rand_Int (length charset) (block @ rest) = Inr (i, rest)} = {[]}"
      using k unfolding rand_Int_def assms(2) [symmetric] by auto
    then show ?thesis using k by simp
  next
    case False
    have "i < 2 ^ bl" using i bit_len_bound [of "length charset - 1"] assms(2) by simp
    moreover have "{block. length block = block_len bl \<and> rand_Int (length charset) (block @ rest) = Inr (i, rest)} =
        {block. length block = block_len bl \<and> block_value bl block = i}"
      using draw_first_block [of bl "length charset" _ rest i] False i assms(1) unfolding rand_Int_def assms(2) [symmetric] by auto
    ultimately show ?thesis using card_blocks [of bl i] False by simp
  qed
qed

theorem random_string_unbiased_witness:
  "card {block. length block = 1 \<and> rand_Int 64 (block @ ''rest'') = Inr (63, ''rest'')} = 4"
proof -
  have "length passwordChars = 64" "passwordChars \<noteq> []" by (simp_all add: passwordChars_def)
  moreover have "bit_len (64 - 1) = 6" "block_len 6 = 1" by (simp_all add: bit_len_def block_len_def) code_simp
  ultimately show ?thesis using random_string_unbiased [of passwordChars 6] by simp
qed

section \<open>Temporary passwords\<close>

lemma bit_len_63: "bit_len 63 = 6"
  by code_simp

lemma password_byte: "rand_Int 64 (c # rest) = Inr (of_char c mod 64, rest)"
proof -
  have "block_value 6 [c] = big_endian [c] mod 2 ^ 6" by (rule block_value_mod) (simp_all add: block_len_def)
  then have "block_value 6 [c] = of_char c mod 64" using big_endian_snoc [of "[]" c] by simp
  then have "draw 64 6 ([c] @ rest) = Inr (of_char c mod 64, rest)"
    using draw_first_block [of 6 64 "[c]" rest "of_char c mod 64"] by (simp add: block_len_def)
  then show ?thesis by (simp add: rand_Int_def bit_len_63)
qed

text \<open>
  The set for passwords has 64 characters, none of them ambiguous: every byte gives one character, so that a
  password of at least eight characters needs exactly as many bytes, and no request for a shorter one is granted.
\<close>

lemma password_chars: "length passwordChars = 64" "distinct passwordChars" "set passwordChars \<inter> set ''0OIl1o'' = {}"
  by code_simp+

lemma temp_password_exact:
  assumes "8 \<le> n" "n \<le> int (length r)"
  shows "GenerateTempPassword r n = Some (Inr (map (\<lambda>c. passwordChars ! (of_char c mod 64)) (take (nat n) r), drop (nat n) r))"
proof -
  have "random_bytes passwordChars k bs = Inr (map (\<lambda>c. passwordChars ! (of_char c mod 64)) (take k bs), drop k bs)"
    if "k \<le> length bs" for k bs
    using that
  proof (induction k arbitrary: bs)
    case (Suc k)
    then obtain c cs where "bs = c # cs" "k \<le> length cs" by (cases bs) auto
    with Suc.IH [of cs] show ?case by (simp add: password_chars password_byte)
  qed simp
  moreover have "passwordChars \<noteq> []" using password_chars(1) by auto
  ultimately show ?thesis using assms by (simp add: GenerateTempPassword_def RandomStringFromReader_def)
qed

lemma temp_password_too_short: "n < 8 \<Longrightarrow> GenerateTempPassword r n = Some (Inl ErrPasswordTooShort)"
  by (simp add: GenerateTempPassword_def)

text \<open>A password is accepted exactly if bcrypt accepts it; other errors than a mismatch name the invalid hash too.\<close>

lemma compare_password:
  "IsCorrectPassword compare mismatch hash password \<longleftrightarrow> compare hash password = None"
  "compare hash password = Some err \<Longrightarrow> \<not> errors_is err mismatch \<Longrightarrow>
     \<exists>e. ComparePassword compare mismatch hash password = Some e \<and> errors_is e ErrInvalidHash \<and> errors_is e err"
  by (auto simp: IsCorrectPassword_def ComparePassword_def split: option.splits)

end
