(* ===== verification/Text_Util.thy ===== *)
theory Text_Util
  imports Go_Strings "HOL-Library.Sublist"
begin

text \<open>
  String helpers (\<open>src/stringutil/stringutil.go\<close>). A string is its bytes; \<open>[]rune(s)\<close> and \<open>string(runes)\<close> are the UTF-8
  decoder and encoder of the language, which take an invalid byte for U+FFFD. \<open>TrimAndLower\<close>, \<open>IsBlank\<close> and
  \<open>ContainsAny\<close> are modelled for ASCII strings.
\<close>

section \<open>UTF-8\<close>

definition in_range :: "nat \<Rightarrow> nat \<Rightarrow> nat \<Rightarrow> bool" where
  "in_range lo hi b \<longleftrightarrow> lo \<le> b \<and> b \<le> hi"

abbreviation cont :: "nat \<Rightarrow> bool" where
  "cont \<equiv> in_range 0x80 0xBF"

text \<open>The second byte that may follow a first byte of a sequence of three or four bytes.\<close>

definition second3 :: "nat \<Rightarrow> nat \<Rightarrow> bool" where
  "second3 b0 b1 \<longleftrightarrow> (if b0 = 0xE0 then in_range 0xA0 0xBF b1 else if b0 = 0xED then in_range 0x80 0x9F b1 else cont b1)"

definition second4 :: "nat \<Rightarrow> nat \<Rightarrow> bool" where
  "second4 b0 b1 \<longleftrightarrow> (if b0 = 0xF0 then in_range 0x90 0xBF b1 else if b0 = 0xF4 then in_range 0x80 0x8F b1 else cont b1)"

definition rune_error :: nat where
  "rune_error = 0xFFFD"

text \<open>The runes of a string of bytes.\<close>

fun decode :: "nat list \<Rightarrow> nat list" where
  "decode [] = []"
| "decode (b0 # bs) =
     (if b0 < 0x80 then b0 # decode bs
      else if in_range 0xC2 0xDF b0 then
        (case bs of
           b1 # rest \<Rightarrow> if cont b1 then ((b0 - 0xC0) * 64 + (b1 - 0x80)) # decode rest else rune_error # decode bs
         | [] \<Rightarrow> [rune_error])
      else if in_range 0xE0 0xEF b0 then
        (case bs of
           b1 # b2 # rest \<Rightarrow>
             if second3 b0 b1 \<and> cont b2 then ((b0 - 0xE0) * 4096 + (b1 - 0x80) * 64 + (b2 - 0x80)) # decode rest
             else rune_error # decode bs
         | _ \<Rightarrow> rune_error # decode bs)
      else if in_range 0xF0 0xF4 b0 then
        (case bs of
           b1 # b2 # b3 # rest \<Rightarrow>
             if second4 b0 b1 \<and> cont b2 \<and> cont b3
             then ((b0 - 0xF0) * 262144 + (b1 - 0x80) * 4096 + (b2 - 0x80) * 64 + (b3 - 0x80)) # decode rest
             else rune_error # decode bs
         | _ \<Rightarrow> rune_error # decode bs)
      else rune_error # decode bs)"

definition scalar :: "nat \<Rightarrow> bool" where
  "scalar r \<longleftrightarrow> r < 0xD800 \<or> 0xE000 \<le> r \<and> r < 0x110000"

definition encode_rune :: "nat \<Rightarrow> nat list" where
  "encode_rune r =
     (if r < 0x80 then [r]
      else if r < 0x800 then [0xC0 + r div 64, 0x80 + r mod 64]
      else if \<not> scalar r then [0xEF, 0xBF, 0xBD]
      else if r < 0x10000 then [0xE0 + r div 4096, 0x80 + r div 64 mod 64, 0x80 + r mod 64]
      else [0xF0 + r div 262144, 0x80 + r div 4096 mod 64, 0x80 + r div 64 mod 64, 0x80 + r mod 64])"

definition bytes_of :: "string \<Rightarrow> nat list" where
  "bytes_of s = map of_char s"

definition string_of :: "nat list \<Rightarrow> string" where
  "string_of bs = map char_of bs"

definition runes :: "string \<Rightarrow> nat list" where
  "runes s = decode (bytes_of s)"

definition of_runes :: "nat list \<Rightarrow> string" where
  "of_runes rs = string_of (concat (map encode_rune rs))"

section \<open>The helpers\<close>

definition OrDefault :: "string \<Rightarrow> string \<Rightarrow> string" where
  "OrDefault s defaultVal = (if s = [] then defaultVal else s)"

definition Truncate :: "string \<Rightarrow> int \<Rightarrow> string" where
  "Truncate s n =
     (if n \<le> 0 then []
      else let rs = runes s in if int (length rs) \<le> n then s else of_runes (take (nat n) rs))"

definition last_index :: "char \<Rightarrow> string \<Rightarrow> int" where
  "last_index c s = (if c \<in> set s then int (length s) - 1 - int (length (takeWhile (\<lambda>x. x \<noteq> c) (rev s))) else - 1)"

definition MaskEmail :: "string \<Rightarrow> string" where
  "MaskEmail email =
     (let at = last_index (CHR ''@'') email in
      if at < 1 then ''**@**''
      else
        let local = take (nat at) email; domain = drop (nat at) email; rs = runes local;
            visible = (if length rs < 2 then length rs else 2)
        in of_runes (take visible rs) @ replicate (length rs - visible) (CHR ''*'') @ domain)"

definition MaskPhone :: "string \<Rightarrow> string" where
  "MaskPhone phone =
     (let rs = runes phone in
      if length rs < 4 then ''****''
      else if length rs > 0 \<and> rs ! 0 = 43 then
        (if length rs < 5 then ''****''
         else CHR ''+'' # replicate (length rs - 5) (CHR ''*'') @ of_runes (drop (length rs - 4) rs))
      else replicate (length rs - 4) (CHR ''*'') @ of_runes (drop (length rs - 4) rs))"

definition TrimAndLower :: "string \<Rightarrow> string" where
  "TrimAndLower s = to_lower (trim_space s)"

definition IsBlank :: "string \<Rightarrow> bool" where
  "IsBlank s \<longleftrightarrow> trim_space s = []"

fun ContainsAny :: "string \<Rightarrow> string list \<Rightarrow> bool" where
  "ContainsAny s [] = False"
| "ContainsAny s (sub # subs) = (if sublist sub s then True else ContainsAny s subs)"

section \<open>Decoding and encoding\<close>

lemma three_bytes: "r div 4096 * 4096 + r div 64 mod 64 * 64 + r mod 64 = (r :: nat)"
proof -
  have "r div 64 = r div 4096 * 64 + r div 64 mod 64" using div_mult_mod_eq [of "r div 64" 64] by (simp flip: div_mult2_eq)
  then have "r div 64 * 64 = r div 4096 * 4096 + r div 64 mod 64 * 64" by simp
  with div_mult_mod_eq [of r 64] show ?thesis by simp
qed

lemma four_bytes: "r div 262144 * 262144 + r div 4096 mod 64 * 4096 + r div 64 mod 64 * 64 + r mod 64 = (r :: nat)"
proof -
  have "r div 4096 = r div 262144 * 64 + r div 4096 mod 64" using div_mult_mod_eq [of "r div 4096" 64] by (simp flip: div_mult2_eq)
  then have "r div 4096 * 4096 = r div 262144 * 262144 + r div 4096 mod 64 * 4096" by simp
  with three_bytes [of r] show ?thesis by simp
qed

lemma cont_add [simp]: "m < 64 \<Longrightarrow> cont (128 + m)"
  by (simp add: in_range_def)

lemma second3_encode:
  assumes "0x800 \<le> r" "r < 0x10000" "scalar r"
  shows "second3 (0xE0 + r div 4096) (0x80 + r div 64 mod 64)"
proof -
  have d: "r div 64 = r div 4096 * 64 + r div 64 mod 64" using div_mult_mod_eq [of "r div 64" 64] by (simp flip: div_mult2_eq)
  have "32 \<le> r div 64" using assms(1) by (simp add: less_eq_div_iff_mult_less_eq)
  moreover have "r div 64 < 864 \<or> 896 \<le> r div 64"
    using assms(3) by (auto simp: scalar_def less_eq_div_iff_mult_less_eq div_less_iff_less_mult)
  moreover have "r div 64 mod 64 < 64" by simp
  ultimately show ?thesis using d unfolding second3_def in_range_def by (auto split: if_splits)
qed

lemma second4_encode:
  assumes "0x10000 \<le> r" "r < 0x110000"
  shows "second4 (0xF0 + r div 262144) (0x80 + r div 4096 mod 64)"
proof -
  have d: "r div 4096 = r div 262144 * 64 + r div 4096 mod 64" using div_mult_mod_eq [of "r div 4096" 64] by (simp flip: div_mult2_eq)
  have "16 \<le> r div 4096" "r div 4096 < 272" using assms by (simp_all add: less_eq_div_iff_mult_less_eq div_less_iff_less_mult)
  moreover have "r div 4096 mod 64 < 64" by simp
  ultimately show ?thesis using d unfolding second4_def in_range_def by (auto split: if_splits)
qed

lemma decode_encode_rune:
  assumes "scalar r"
  shows "decode (encode_rune r @ bs) = r # decode bs"
proof -
  consider "r < 0x80" | "0x80 \<le> r" "r < 0x800" | "0x800 \<le> r" "r < 0x10000" | "0x10000 \<le> r" "r < 0x110000"
    using assms by (force simp: scalar_def)
  then show ?thesis
  proof cases
    case 1
    then show ?thesis by (simp add: encode_rune_def)
  next
    case 2
    have "2 \<le> r div 64" "r div 64 < 32" using 2 by (simp_all add: less_eq_div_iff_mult_less_eq div_less_iff_less_mult)
    then have "in_range 0xC2 0xDF (0xC0 + r div 64)" by (simp add: in_range_def)
    with 2 show ?thesis by (simp add: encode_rune_def div_mult_mod_eq)
  next
    case 3
    have q: "r div 4096 < 16" using 3 by (simp add: div_less_iff_less_mult)
    then have "\<not> in_range 0xC2 0xDF (0xE0 + r div 4096)" "in_range 0xE0 0xEF (0xE0 + r div 4096)" by (simp_all add: in_range_def)
    with 3 second3_encode [OF 3 assms] assms three_bytes [of r] show ?thesis by (simp add: encode_rune_def)
  next
    case 4
    have q: "r div 262144 < 5" using 4 by (simp add: div_less_iff_less_mult)
    then have "\<not> in_range 0xC2 0xDF (0xF0 + r div 262144)" "\<not> in_range 0xE0 0xEF (0xF0 + r div 262144)"
      "in_range 0xF0 0xF4 (0xF0 + r div 262144)" by (simp_all add: in_range_def)
    with 4 second4_encode [OF 4] assms four_bytes [of r] show ?thesis by (simp add: encode_rune_def)
  qed
qed

lemma encode_rune_bytes: "b \<in> set (encode_rune r) \<Longrightarrow> b < 256"
proof -
  have "r div 64 < 32" if "r < 0x800" using that by (simp add: div_less_iff_less_mult)
  moreover have "r div 4096 < 16" if "r < 0x10000" using that by (simp add: div_less_iff_less_mult)
  moreover have "r div 262144 < 5" if "scalar r" using that by (auto simp: scalar_def div_less_iff_less_mult)
  moreover have "x mod 64 < 64" for x :: nat by simp
  moreover assume "b \<in> set (encode_rune r)"
  ultimately show ?thesis unfolding encode_rune_def by (auto split: if_splits intro: less_le_trans)
qed

lemma scalar_decoded:
  "in_range 0xC2 0xDF b0 \<Longrightarrow> cont b1 \<Longrightarrow> scalar ((b0 - 0xC0) * 64 + (b1 - 0x80))"
  "in_range 0xE0 0xEF b0 \<Longrightarrow> second3 b0 b1 \<Longrightarrow> cont b2 \<Longrightarrow> scalar ((b0 - 0xE0) * 4096 + (b1 - 0x80) * 64 + (b2 - 0x80))"
  "in_range 0xF0 0xF4 b0 \<Longrightarrow> second4 b0 b1 \<Longrightarrow> cont b2 \<Longrightarrow> cont b3 \<Longrightarrow>
     scalar ((b0 - 0xF0) * 262144 + (b1 - 0x80) * 4096 + (b2 - 0x80) * 64 + (b3 - 0x80))"
  by (auto simp: scalar_def in_range_def second3_def second4_def split: if_splits)

declare decode.simps(2) [simp del]

lemma decode_step: "\<exists>r rest. decode (b0 # bs) = r # decode rest \<and> scalar r \<and> length rest \<le> length bs"
proof -
  have e: "scalar rune_error" by (simp add: scalar_def rune_error_def)
  consider "b0 < 0x80" | "\<not> b0 < 0x80" "in_range 0xC2 0xDF b0" | "\<not> b0 < 0x80" "\<not> in_range 0xC2 0xDF b0" "in_range 0xE0 0xEF b0"
    | "\<not> b0 < 0x80" "\<not> in_range 0xC2 0xDF b0" "\<not> in_range 0xE0 0xEF b0" "in_range 0xF0 0xF4 b0"
    | "\<not> b0 < 0x80" "\<not> in_range 0xC2 0xDF b0" "\<not> in_range 0xE0 0xEF b0" "\<not> in_range 0xF0 0xF4 b0" by blast
  then show ?thesis
  proof cases
    case 1
    then show ?thesis by (intro exI [of _ b0] exI [of _ bs]) (simp add: decode.simps(2) [of b0] scalar_def)
  next
    case 2
    show ?thesis
    proof (cases "\<exists>b1 rest. bs = b1 # rest \<and> cont b1")
      case True
      then obtain b1 rest where "bs = b1 # rest" "cont b1" by blast
      with 2 scalar_decoded(1) [OF 2(2)] show ?thesis by (intro exI [of _ "(b0 - 0xC0) * 64 + (b1 - 0x80)"] exI [of _ rest]) (simp add: decode.simps(2) [of b0])
    next
      case False
      with 2 e show ?thesis by (intro exI [of _ rune_error] exI [of _ bs]) (auto simp: decode.simps(2) [of b0] split: list.splits)
    qed
  next
    case 3
    show ?thesis
    proof (cases "\<exists>b1 b2 rest. bs = b1 # b2 # rest \<and> second3 b0 b1 \<and> cont b2")
      case True
      then obtain b1 b2 rest where "bs = b1 # b2 # rest" "second3 b0 b1" "cont b2" by blast
      with 3 scalar_decoded(2) [OF 3(3)] show ?thesis
        by (intro exI [of _ "(b0 - 0xE0) * 4096 + (b1 - 0x80) * 64 + (b2 - 0x80)"] exI [of _ rest]) (simp add: decode.simps(2) [of b0])
    next
      case False
      with 3 e show ?thesis by (intro exI [of _ rune_error] exI [of _ bs]) (auto simp: decode.simps(2) [of b0] split: list.splits)
    qed
  next
    case 4
    show ?thesis
    proof (cases "\<exists>b1 b2 b3 rest. bs = b1 # b2 # b3 # rest \<and> second4 b0 b1 \<and> cont b2 \<and> cont b3")
      case True
      then obtain b1 b2 b3 rest where "bs = b1 # b2 # b3 # rest" "second4 b0 b1" "cont b2" "cont b3" by blast
      with 4 scalar_decoded(3) [OF 4(4)] show ?thesis
        by (intro exI [of _ "(b0 - 0xF0) * 262144 + (b1 - 0x80) * 4096 + (b2 - 0x80) * 64 + (b3 - 0x80)"] exI [of _ rest]) (simp add: decode.simps(2) [of b0])
    next
      case False
      with 4 e show ?thesis by (intro exI [of _ rune_error] exI [of _ bs]) (auto simp: decode.simps(2) [of b0] split: list.splits)
    qed
  next
    case 5
    with e show ?thesis by (intro exI [of _ rune_error] exI [of _ bs]) (simp add: decode.simps(2) [of b0])
  qed
qed

lemma decode_scalar: "r \<in> set (decode bs) \<Longrightarrow> scalar r"
proof (induction bs rule: measure_induct_rule [of length])
  case (less bs)
  show ?case
  proof (cases bs)
    case Nil
    with less.prems show ?thesis by simp
  next
    case (Cons b0 bs')
    obtain r' rest where d: "decode (b0 # bs') = r' # decode rest" "scalar r'" "length rest \<le> length bs'" using decode_step by blast
    with less Cons show ?thesis by (metis d(1) length_Cons less_Suc_eq_le set_ConsD)
  qed
qed

lemma bytes_of_string_of: "\<forall>b \<in> set bs. b < 256 \<Longrightarrow> bytes_of (string_of bs) = bs"
  by (induction bs) (simp_all add: bytes_of_def string_of_def of_char_of)

lemma decode_concat: "\<forall>r \<in> set rs. scalar r \<Longrightarrow> decode (concat (map encode_rune rs)) = rs"
  by (induction rs) (simp_all add: decode_encode_rune)

lemma runes_of_runes: "\<forall>r \<in> set rs. scalar r \<Longrightarrow> runes (of_runes rs) = rs"
  using encode_rune_bytes by (simp add: runes_def of_runes_def bytes_of_string_of decode_concat)

lemma runes_scalar: "r \<in> set (runes s) \<Longrightarrow> scalar r"
  by (simp add: runes_def decode_scalar)

text \<open>
  \<open>Truncate\<close> keeps exactly the first \<open>n\<close> characters of any string of bytes, whether it is valid UTF-8 or not, and
  never cuts a character in two; a string of at most \<open>n\<close> characters is returned byte for byte. Decoding what was
  encoded gives the characters back, for every sequence of Unicode scalar values.
\<close>

theorem Truncate_keeps_characters:
  "runes (Truncate s n) = take (nat n) (runes s) \<and>
   (int (length (runes s)) \<le> n \<and> 0 < n \<longrightarrow> Truncate s n = s) \<and>
   ((\<forall>r \<in> set rs. scalar r) \<longrightarrow> runes (of_runes rs) = rs)"
proof (intro conjI impI)
  have "\<forall>r \<in> set (take (nat n) (runes s)). scalar r" using runes_scalar in_set_takeD by fast
  from runes_of_runes [OF this] show "runes (Truncate s n) = take (nat n) (runes s)"
    by (auto simp: Truncate_def Let_def runes_def bytes_of_def)
qed (auto simp: Truncate_def runes_of_runes)

theorem Truncate_keeps_characters_witness:
  "runes (of_runes [0x48, 0xE9, 0x20AC, 0x1F600]) = [0x48, 0xE9, 0x20AC, 0x1F600] \<and>
   runes (Truncate (of_runes [0x48, 0xE9, 0x20AC, 0x1F600]) 3) = [0x48, 0xE9, 0x20AC]"
proof -
  have s: "\<forall>r \<in> set [0x48, 0xE9, 0x20AC, 0x1F600]. scalar r" by (simp add: scalar_def)
  show ?thesis
    using Truncate_keeps_characters [of "of_runes [0x48, 0xE9, 0x20AC, 0x1F600]" 3 "[0x48, 0xE9, 0x20AC, 0x1F600]"] s
    by simp
qed

section \<open>Masks\<close>

text \<open>A local part of one or two characters, and a phone number of four, are not masked at all.\<close>

lemma masks_show_short_values:
  "MaskEmail ''jo@example.com'' = ''jo@example.com''" "MaskEmail ''j@example.com'' = ''j@example.com''" "MaskPhone ''1234'' = ''1234''"
  by code_simp+

text \<open>Otherwise the masked phone number shows its last four characters, and a leading plus.\<close>

lemma MaskPhone_shape:
  assumes "runes phone = rs @ last4" "length last4 = 4" "rs \<noteq> []"
  shows "MaskPhone phone = (if hd rs = 43 then CHR ''+'' # replicate (length rs - 1) (CHR ''*'') else replicate (length rs) (CHR ''*'')) @ of_runes last4"
proof -
  obtain r rs' where "rs = r # rs'" using assms(3) by (cases rs) auto
  with assms show ?thesis by (auto simp: MaskPhone_def Let_def)
qed

lemma MaskEmail_shape:
  assumes "email = local @ CHR ''@'' # domain" "CHR ''@'' \<notin> set domain" "local \<noteq> []" "runes local = a # b # rs"
  shows "MaskEmail email = of_runes [a, b] @ replicate (length rs) (CHR ''*'') @ CHR ''@'' # domain"
proof -
  have "takeWhile (\<lambda>x. x \<noteq> CHR ''@'') (rev email) = rev domain" 
    using assms(2) unfolding assms(1) by (simp, subst takeWhile_append2) auto
  then have "last_index (CHR ''@'') email = int (length local)" using assms(1) by (simp add: last_index_def)
  with assms show ?thesis by (simp add: MaskEmail_def Let_def)
qed

text \<open>An empty substring is contained in every string.\<close>

lemma ContainsAny_iff: "ContainsAny s subs \<longleftrightarrow> (\<exists>sub \<in> set subs. sublist sub s)"
  by (induction subs) auto

lemma IsBlank_iff: "IsBlank s \<longleftrightarrow> (\<forall>c \<in> set s. is_space c)"
proof -
  have "(\<forall>c \<in> set (dropWhile is_space s). is_space c) \<longleftrightarrow> (\<forall>c \<in> set s. is_space c)" by (induction s) auto
  then show ?thesis by (simp add: IsBlank_def trim_space_def)
qed

end
