(* ===== verification/Env.thy ===== *)
theory Env
  imports Go_Strings Float64
begin

text \<open>
  Typed environment variables (\<open>src/env/env.go\<close>). The environment is a function from names to values, empty for a
  variable that is not set. \<open>strconv.Atoi\<close>, \<open>strconv.ParseBool\<close> and \<open>time.ParseDuration\<close> of the standard library are
  written out; a panic is \<open>None\<close>.
\<close>

section \<open>Durations\<close>

definition is_digit :: "char \<Rightarrow> bool" where
  "is_digit c \<longleftrightarrow> 48 \<le> (of_char c :: nat) \<and> (of_char c :: nat) \<le> 57"

text \<open>\<open>leadingInt\<close>: the digits at the front, an error if they leave the range.\<close>

fun leadingInt :: "nat \<Rightarrow> string \<Rightarrow> (nat \<times> string) option" where
  "leadingInt x [] = Some (x, [])"
| "leadingInt x (c # s) =
     (if \<not> is_digit c then Some (x, c # s)
      else if x > 2 ^ 63 div 10 then None
      else let y = x * 10 + (of_char c - 48) in if y > 2 ^ 63 then None else leadingInt y s)"

text \<open>\<open>leadingFraction\<close>: further digits are skipped once the value would leave the range.\<close>

fun leadingFraction :: "nat \<Rightarrow> rat \<Rightarrow> bool \<Rightarrow> string \<Rightarrow> nat \<times> rat \<times> string" where
  "leadingFraction x scale over [] = (x, scale, [])"
| "leadingFraction x scale over (c # s) =
     (if \<not> is_digit c then (x, scale, c # s)
      else if over then leadingFraction x scale over s
      else if x > (2 ^ 63 - 1) div 10 then leadingFraction x scale True s
      else let y = x * 10 + (of_char c - 48) in
        if y > 2 ^ 63 then leadingFraction x scale True s else leadingFraction y (fmul scale 10) over s)"

definition unitMap :: "string \<Rightarrow> nat option" where
  "unitMap u = map_of
     [(''ns'', 1), (''us'', 1000), ([CHR 0xC2, CHR 0xB5, CHR ''s''], 1000), ([CHR 0xCE, CHR 0xBC, CHR ''s''], 1000),
      (''ms'', 1000000), (''s'', 1000000000), (''m'', 60 * 1000000000), (''h'', 3600 * 1000000000)] u"

definition unit_char :: "char \<Rightarrow> bool" where
  "unit_char c \<longleftrightarrow> c \<noteq> CHR ''.'' \<and> \<not> is_digit c"

text \<open>The fraction, if there is one, and whether it has digits.\<close>

definition dur_fraction :: "string \<Rightarrow> nat \<times> rat \<times> string \<times> bool" where
  "dur_fraction s =
     (case s of
        c # t \<Rightarrow> if c = CHR ''.'' then (case leadingFraction 0 1 False t of (f, scale, t1) \<Rightarrow> (f, scale, t1, length t1 \<noteq> length t))
                 else (0, 1, s, False)
      | [] \<Rightarrow> (0, 1, s, False))"

text \<open>The unit, and the nanoseconds of the number \<open>v\<close> with the fraction \<open>f / scale\<close>.\<close>

definition dur_unit :: "nat \<Rightarrow> nat \<Rightarrow> rat \<Rightarrow> string \<Rightarrow> (nat \<times> string) option" where
  "dur_unit v f scale s =
     (let u = takeWhile unit_char s; rest = dropWhile unit_char s in
      if u = [] then None
      else
        case unitMap u of
          None \<Rightarrow> None
        | Some un \<Rightarrow>
            if v > 2 ^ 63 div un then None
            else
              let v1 = v * un;
                  v2 = (if f > 0 then v1 + nat (trunc_int (fmul (float64_of (int f)) (fdiv (float64_of (int un)) scale))) else v1)
              in if f > 0 \<and> v2 > 2 ^ 63 then None else Some (v2, rest))"

text \<open>One number with its unit: its nanoseconds and what follows.\<close>

definition dur_part :: "string \<Rightarrow> (nat \<times> string) option" where
  "dur_part s =
     (if \<not> (case s of c # _ \<Rightarrow> c = CHR ''.'' \<or> is_digit c | [] \<Rightarrow> False) then None
      else
        case leadingInt 0 s of
          None \<Rightarrow> None
        | Some (v, s1) \<Rightarrow>
            let pre = (length s1 \<noteq> length s); (f, scale, s2, post) = dur_fraction s1
            in if \<not> pre \<and> \<not> post then None else dur_unit v f scale s2)"

lemma leadingInt_shorter: "leadingInt x s = Some (v, rest) \<Longrightarrow> length rest \<le> length s"
  by (induction x s rule: leadingInt.induct) (auto simp: Let_def split: if_splits)

lemma leadingFraction_shorter: "leadingFraction x scale over s = (f, sc, rest) \<Longrightarrow> length rest \<le> length s"
proof (induction s arbitrary: x scale over)
  case (Cons c s)
  from Cons.prems Cons.IH show ?case by (auto simp: Let_def split: if_splits intro: le_SucI)
qed simp

lemma dur_fraction_shorter: "dur_fraction s = (f, scale, rest, post) \<Longrightarrow> length rest \<le> length s"
  by (auto simp: dur_fraction_def le_SucI leadingFraction_shorter split: list.splits if_splits prod.splits)

lemma dropWhile_shorter: "takeWhile P s \<noteq> [] \<Longrightarrow> length (dropWhile P s) < length s"
  by (cases s) (auto simp: less_Suc_eq_le length_dropWhile_le split: if_splits)

lemma dur_unit_shorter: "dur_unit v f scale s = Some (n, rest) \<Longrightarrow> length rest < length s"
  using dropWhile_shorter [of unit_char s] by (auto simp: dur_unit_def Let_def split: if_splits option.splits)

lemma dur_part_shorter:
  assumes "dur_part s = Some (v, rest)"
  shows "length rest < length s"
proof -
  obtain n s1 where s1: "leadingInt 0 s = Some (n, s1)" using assms by (auto simp: dur_part_def split: if_splits option.splits)
  obtain f scale s2 post where s2: "dur_fraction s1 = (f, scale, s2, post)" by (metis prod_cases4)
  have "dur_unit n f scale s2 = Some (v, rest)" using assms by (auto simp: dur_part_def s1 s2 Let_def split: if_splits)
  then have "length rest < length s2" by (rule dur_unit_shorter)
  also have "length s2 \<le> length s1" using s2 by (rule dur_fraction_shorter)
  also have "length s1 \<le> length s" using s1 by (rule leadingInt_shorter)
  finally show ?thesis .
qed

function dur_parts :: "nat \<Rightarrow> string \<Rightarrow> nat option" where
  "dur_parts d s =
     (if s = [] then Some d
      else case dur_part s of
        None \<Rightarrow> None
      | Some (v, rest) \<Rightarrow> let d1 = (d + v) mod 2 ^ 64 in if d1 > 2 ^ 63 then None else dur_parts d1 rest)"
  by pat_completeness auto
termination
  by (relation "measure (\<lambda>(d, s). length s)") (auto dest: dur_part_shorter)

declare dur_parts.simps [simp del]

definition ParseDuration :: "string \<Rightarrow> duration option" where
  "ParseDuration s0 =
     (let (neg, s) = (case s0 of c # t \<Rightarrow> if c = CHR ''-'' \<or> c = CHR ''+'' then (c = CHR ''-'', t) else (False, s0) | [] \<Rightarrow> (False, []))
      in if s = ''0'' then Some 0
         else if s = [] then None
         else case dur_parts 0 s of
           None \<Rightarrow> None
         | Some d \<Rightarrow> if neg then Some (- int d) else if d > 2 ^ 63 - 1 then None else Some (int d))"

section \<open>Variables\<close>

definition env_String :: "(string \<Rightarrow> string) \<Rightarrow> string \<Rightarrow> string \<Rightarrow> string" where
  "env_String getenv key defaultVal = (if getenv key \<noteq> [] then getenv key else defaultVal)"

definition env_Int :: "(string \<Rightarrow> string) \<Rightarrow> string \<Rightarrow> int \<Rightarrow> int" where
  "env_Int getenv key defaultVal =
     (if getenv key = [] then defaultVal else case atoi (getenv key) of Some n \<Rightarrow> n | None \<Rightarrow> defaultVal)"

definition ParseBool :: "string \<Rightarrow> bool option" where
  "ParseBool s =
     (if s \<in> {''1'', ''t'', ''T'', ''true'', ''TRUE'', ''True''} then Some True
      else if s \<in> {''0'', ''f'', ''F'', ''false'', ''FALSE'', ''False''} then Some False
      else None)"

definition env_Bool :: "(string \<Rightarrow> string) \<Rightarrow> string \<Rightarrow> bool \<Rightarrow> bool" where
  "env_Bool getenv key defaultVal =
     (if getenv key = [] then defaultVal else case ParseBool (trim_space (getenv key)) of Some b \<Rightarrow> b | None \<Rightarrow> defaultVal)"

definition env_Duration :: "(string \<Rightarrow> string) \<Rightarrow> string \<Rightarrow> duration \<Rightarrow> duration" where
  "env_Duration getenv key defaultVal =
     (if getenv key = [] then defaultVal else case ParseDuration (getenv key) of Some d \<Rightarrow> d | None \<Rightarrow> defaultVal)"

definition MustString :: "(string \<Rightarrow> string) \<Rightarrow> string \<Rightarrow> string option" where
  "MustString getenv key = (if getenv key = [] then None else Some (getenv key))"

definition MustInt :: "(string \<Rightarrow> string) \<Rightarrow> string \<Rightarrow> int option" where
  "MustInt getenv key = (case MustString getenv key of None \<Rightarrow> None | Some val \<Rightarrow> atoi val)"

section \<open>What the readers return\<close>

lemma itoa_nat_digits: "c \<in> set (itoa_nat n) \<Longrightarrow> is_digit c"
proof (induction n rule: itoa_nat.induct)
  case (1 n)
  have d: "is_digit (char_of (48 + m))" if "m < 10" for m :: nat using that by (simp add: is_digit_def)
  show ?case
  proof (cases "n < 10")
    case True
    with 1(2) d show ?thesis by (simp add: itoa_nat.simps [of n])
  next
    case False
    with 1 d [of "n mod 10"] show ?thesis by (auto simp: itoa_nat.simps [of n])
  qed
qed

lemma leadingInt_itoa: "n \<le> 2 ^ 63 \<Longrightarrow> leadingInt 0 (itoa_nat n @ t) = leadingInt n t"
proof (induction n arbitrary: t rule: itoa_nat.induct)
  case (1 n)
  have d: "leadingInt x (char_of (48 + m) # t) = leadingInt (x * 10 + m) t" if "m < 10" "x * 10 + m \<le> 2 ^ 63" for x m :: nat
  proof -
    have "of_char (char_of (48 + m) :: char) = 48 + m" "is_digit (char_of (48 + m))" using that by (simp_all add: is_digit_def)
    moreover have "\<not> 2 ^ 63 div 10 < x" using that(2) by simp
    ultimately show ?thesis using that(2) by (simp add: Let_def)
  qed
  show ?case
  proof (cases "n < 10")
    case True
    with d [of n 0] 1(2) show ?thesis by (simp add: itoa_nat.simps [of n])
  next
    case False
    have "n div 10 * 10 + n mod 10 = n" by simp
    then show ?thesis
      using 1(1) [OF False, of "char_of (48 + n mod 10) # t"] d [of "n mod 10" "n div 10"] False 1(2) by (simp add: itoa_nat.simps [of n])
  qed
qed

lemma unit_letters:
  assumes "unitMap u = Some un"
  shows "u \<noteq> []" "list_all unit_char u" "0 < un"
proof -
  have "u \<in> {''ns'', ''us'', [CHR 0xC2, CHR 0xB5, CHR ''s''], [CHR 0xCE, CHR 0xBC, CHR ''s''], ''ms'', ''s'', ''m'', ''h''}"
    using assms unfolding unitMap_def by (auto split: if_splits)
  then show "u \<noteq> []" "list_all unit_char u" "0 < un"
    using assms unfolding unitMap_def by (auto simp: unit_char_def is_digit_def split: if_splits)
qed

lemma dur_part_whole:
  assumes "unitMap u = Some un" "n * un \<le> 2 ^ 63"
  shows "dur_part (itoa_nat n @ u) = Some (n * un, [])"
proof -
  note U = unit_letters [OF assms(1)]
  obtain c cs where u: "u = c # cs" "unit_char c" using U(1,2) by (cases u) auto
  have n: "n \<le> 2 ^ 63" using assms(2) U(3) by (metis le_trans mult.right_neutral mult_le_mono2 One_nat_def Suc_leI)
  have "leadingInt n u = Some (n, u)" using u by (simp add: unit_char_def)
  then have li: "leadingInt 0 (itoa_nat n @ u) = Some (n, u)" using leadingInt_itoa [OF n] by simp
  have first: "case itoa_nat n @ u of c # _ \<Rightarrow> c = CHR ''.'' \<or> is_digit c | [] \<Rightarrow> False"
    using itoa_nat_digits [of "hd (itoa_nat n)" n] itoa_nat_hd [of n] by (cases "itoa_nat n") auto
  have "dur_fraction u = (0, 1, u, False)" using u by (simp add: dur_fraction_def unit_char_def)
  moreover have "length u \<noteq> length (itoa_nat n @ u)" using itoa_nat_hd [of n] by simp
  moreover have "dur_unit n 0 1 u = Some (n * un, [])"
    using assms U by (simp add: dur_unit_def Let_def takeWhile_eq_all_conv [THEN iffD2] dropWhile_eq_Nil_conv [THEN iffD2] list_all_iff less_eq_div_iff_mult_less_eq not_less)
  ultimately show ?thesis using first by (simp add: dur_part_def li Let_def)
qed

text \<open>
  A whole number with a unit is read as that many units, with either sign, as long as the result fits; a value that
  does not parse, and a variable that is not set, give the default.
\<close>

lemma env_Duration_whole:
  assumes "unitMap u = Some un" "int n * int un < 2 ^ 63"
  shows "getenv key = itoa_nat n @ u \<Longrightarrow> env_Duration getenv key dflt = int n * int un"
    and "getenv key = CHR ''-'' # itoa_nat n @ u \<Longrightarrow> env_Duration getenv key dflt = - (int n * int un)"
proof -
  have n: "n * un < 2 ^ 63" using assms(2) by (metis of_nat_less_iff of_nat_mult of_nat_numeral of_nat_power)
  have ne: "itoa_nat n @ u \<noteq> []" "itoa_nat n @ u \<noteq> ''0''" "hd (itoa_nat n @ u) \<noteq> CHR ''-''" "hd (itoa_nat n @ u) \<noteq> CHR ''+''"
    using itoa_nat_hd [of n] unit_letters(1) [OF assms(1)] by (cases "itoa_nat n"; auto)+
  have parts: "dur_parts 0 (itoa_nat n @ u) = Some (n * un)"
    unfolding dur_parts.simps [of 0 "itoa_nat n @ u"] using dur_part_whole [OF assms(1), of n] n ne(1)
    by (auto simp: Let_def dur_parts.simps [of _ "[]"])
  obtain c t where ct: "itoa_nat n @ u = c # t" "c \<noteq> CHR ''-''" "c \<noteq> CHR ''+''" using ne(1,3,4) by (cases "itoa_nat n @ u") auto
  have "ParseDuration (itoa_nat n @ u) = Some (int n * int un)" "ParseDuration (CHR ''-'' # itoa_nat n @ u) = Some (- (int n * int un))"
    using parts n ne(2) ct by (auto simp: ParseDuration_def)
  then show "getenv key = itoa_nat n @ u \<Longrightarrow> env_Duration getenv key dflt = int n * int un"
    "getenv key = CHR ''-'' # itoa_nat n @ u \<Longrightarrow> env_Duration getenv key dflt = - (int n * int un)"
    using ne(1) by (auto simp: env_Duration_def)
qed

lemma env_Int_roundtrip: "in_int64 n \<Longrightarrow> getenv key = itoa n \<Longrightarrow> env_Int getenv key dflt = n \<and> MustInt getenv key = Some n"
  using atoi_itoa [of n] by (auto simp: env_Int_def MustInt_def MustString_def atoi_def)

lemma env_defaults:
  assumes "getenv key = []"
  shows "env_String getenv key s = s" "env_Int getenv key n = n" "env_Bool getenv key b = b" "env_Duration getenv key d = d"
    "MustString getenv key = None" "MustInt getenv key = None"
  using assms by (simp_all add: env_String_def env_Int_def env_Bool_def env_Duration_def MustString_def MustInt_def)

text \<open>\<open>Bool\<close> trims blanks before it parses, the other readers do not.\<close>

lemma env_trims_only_Bool:
  "env_Bool (\<lambda>_. '' true '') key False" "env_Int (\<lambda>_. '' 7 '') key 0 = 0"
  by code_simp+

end
