(* ===== verification/Time_Zones.thy ===== *)
theory Time_Zones
  imports Timeutil Go_Strings Go_Quote
begin

text \<open>
  The part of package \<open>timeutil\<close> (\<open>src/timeutil/timeutil.go\<close>) that works in a location: the first and the last
  moment of a day, the current time, parsing with a list of layouts. A location is what package \<open>time\<close> keeps of
  it, the offsets from UTC and the instants at which they change; \<open>time.Date\<close> is written out. A date is its day
  number, as in \<open>Timeutil\<close>. The parser and the formatter of package \<open>time\<close> are parameters.
\<close>

section \<open>Locations\<close>

record Location =
  loc_offset :: duration
  loc_tx :: "(time \<times> duration) list"

definition time_UTC :: Location where
  "time_UTC = \<lparr>loc_offset = 0, loc_tx = []\<rparr>"

text \<open>
  \<open>Location.lookup\<close>: the offset at an instant, and since when and until when it is in use; \<open>None\<close> stands for the
  beginning and the end of time.
\<close>

fun lookup_from :: "time option \<Rightarrow> duration \<Rightarrow> (time \<times> duration) list \<Rightarrow> time \<Rightarrow> duration \<times> time option \<times> time option" where
  "lookup_from start off [] t = (off, start, None)"
| "lookup_from start off ((at, off') # tx) t =
     (if t < at then (off, start, Some at) else lookup_from (Some at) off' tx t)"

definition loc_lookup :: "Location \<Rightarrow> time \<Rightarrow> duration \<times> time option \<times> time option" where
  "loc_lookup loc t = lookup_from None (loc_offset loc) (loc_tx loc) t"

definition offset_at :: "Location \<Rightarrow> time \<Rightarrow> duration" where
  "offset_at loc t = fst (loc_lookup loc t)"

text \<open>A time together with the offset its location has at that instant.\<close>

record zoned =
  z_instant :: time
  z_offset :: duration

definition time_In :: "time \<Rightarrow> Location \<Rightarrow> zoned" where
  "time_In t loc = \<lparr>z_instant = t, z_offset = offset_at loc t\<rparr>"

definition day_len :: duration where
  "day_len = 24 * hour"

text \<open>What a clock on the wall shows, in nanoseconds since the beginning of 1970, and its date.\<close>

definition wall :: "zoned \<Rightarrow> int" where
  "wall z = z_instant z + z_offset z"

definition z_day :: "zoned \<Rightarrow> int" where
  "z_day z = wall z div day_len"

text \<open>
  \<open>time.Date\<close>: it guesses the offset by reading the wall clock as UTC, and takes the offset of the corrected instant
  if that lies beyond a change.
\<close>

definition time_Date :: "int \<Rightarrow> duration \<Rightarrow> Location \<Rightarrow> zoned" where
  "time_Date d clock loc =
     (let unix = d * day_len + clock in
      case loc_lookup loc unix of (offset, start, end') \<Rightarrow>
        let offset' =
          (if offset = 0 then 0
           else
             let utc = unix - offset in
             if (case start of Some s \<Rightarrow> utc < s | None \<Rightarrow> False) \<or> (case end' of Some e \<Rightarrow> utc \<ge> e | None \<Rightarrow> False)
             then offset_at loc utc else offset)
        in time_In (unix - offset') loc)"

section \<open>The functions of the package\<close>

definition or_UTC :: "Location option \<Rightarrow> Location" where
  "or_UTC loc = (case loc of None \<Rightarrow> time_UTC | Some l \<Rightarrow> l)"

definition StartOfDay :: "time \<Rightarrow> Location option \<Rightarrow> zoned" where
  "StartOfDay t loc = (let l = or_UTC loc in time_Date (z_day (time_In t l)) 0 l)"

definition EndOfDay :: "time \<Rightarrow> Location option \<Rightarrow> zoned" where
  "EndOfDay t loc = (let l = or_UTC loc in time_Date (z_day (time_In t l)) (23 * hour + 59 * minute + 59 * second + 999999999) l)"

definition NowIn :: "time \<Rightarrow> Location option \<Rightarrow> zoned" where
  "NowIn now loc = time_In now (or_UTC loc)"

definition FormatIn :: "(zoned \<Rightarrow> string \<Rightarrow> string) \<Rightarrow> time \<Rightarrow> Location option \<Rightarrow> string \<Rightarrow> string" where
  "FormatIn format t loc layout =
     (let layout' = (if layout = [] then ''2006-01-02T15:04:05Z07:00'' else layout) in format (time_In t (or_UTC loc)) layout')"

definition BusinessDays :: "gotime \<Rightarrow> gotime \<Rightarrow> int" where
  "BusinessDays start end' = BusinessDaysBetween start end'"

definition ErrInvalidTimeFormat :: error where
  "ErrInvalidTimeFormat = Err ''timeutil: invalid time format''"

definition CommonLayouts :: "string list" where
  "CommonLayouts =
     [''2006-01-02T15:04:05.999999999Z07:00'', ''2006-01-02T15:04:05Z07:00'', ''2006-01-02 15:04:05'', ''2006-01-02'', ''15:04:05'',
      ''2006-01-02 15:04:05.999999999'', ''2006-01-02 15:04:05'', ''2006/01/02 15:04:05'', ''2006/01/02'', ''02-01-2006'', ''02/01/2006'',
      ''Mon, 02 Jan 2006 15:04:05 -0700'', ''Mon, 02 Jan 2006 15:04:05 MST'', ''02 Jan 06 15:04 -0700'', ''02 Jan 06 15:04 MST'',
      ''Mon Jan _2 15:04:05 2006'', ''Mon Jan _2 15:04:05 MST 2006'', ''Mon Jan 02 15:04:05 -0700 2006'']"

fun try_layouts :: "(string \<Rightarrow> string \<Rightarrow> error + zoned) \<Rightarrow> string \<Rightarrow> string list \<Rightarrow> zoned option" where
  "try_layouts parse s [] = None"
| "try_layouts parse s (layout # ls) = (case parse layout s of Inr t \<Rightarrow> Some t | Inl _ \<Rightarrow> try_layouts parse s ls)"

definition ParseTime :: "(string \<Rightarrow> string \<Rightarrow> error + zoned) \<Rightarrow> string \<Rightarrow> string list \<Rightarrow> error + zoned" where
  "ParseTime parse s layouts =
     (if s = [] then Inl (Wrap ''empty input'' ErrInvalidTimeFormat)
      else
        let ls = (if layouts = [] then CommonLayouts else layouts)
        in case try_layouts parse s ls of Some t \<Rightarrow> Inr t | None \<Rightarrow> Inl (Wrap (go_quote s) ErrInvalidTimeFormat))"

section \<open>Changes of the offset\<close>

definition in_span :: "time option \<Rightarrow> time option \<Rightarrow> time \<Rightarrow> bool" where
  "in_span s e t \<longleftrightarrow> (case s of Some x \<Rightarrow> x \<le> t | None \<Rightarrow> True) \<and> (case e of Some y \<Rightarrow> t < y | None \<Rightarrow> True)"

text \<open>Offsets are at most a day, and changes are at least two days apart.\<close>

fun spaced :: "time option \<Rightarrow> (time \<times> duration) list \<Rightarrow> bool" where
  "spaced start [] = True"
| "spaced start ((at, off) # tx) \<longleftrightarrow>
     (case start of Some s \<Rightarrow> s + 2 * day_len \<le> at | None \<Rightarrow> True) \<and> \<bar>off\<bar> \<le> day_len \<and> spaced (Some at) tx"

definition loc_ok :: "Location \<Rightarrow> bool" where
  "loc_ok loc \<longleftrightarrow> \<bar>loc_offset loc\<bar> \<le> day_len \<and> spaced None (loc_tx loc)"

lemma day_len_pos: "0 < day_len"
  by (simp add: day_len_def hour_def minute_def second_def)

lemma lookup_from_span:
  assumes "spaced start tx" and "lookup_from start off tx t = (off', s, e)" and "\<forall>a. start = Some a \<longrightarrow> a \<le> t" and "\<bar>off\<bar> \<le> day_len"
  shows "in_span s e t \<and> (\<forall>u. in_span s e u \<longrightarrow> lookup_from start off tx u = (off', s, e)) \<and>
    (\<forall>a. start = Some a \<longrightarrow> (\<exists>x. s = Some x \<and> a \<le> x)) \<and> \<bar>off'\<bar> \<le> day_len \<and> (\<forall>x y. s = Some x \<and> e = Some y \<longrightarrow> x + 2 * day_len \<le> y)"
  using assms
proof (induction start off tx t rule: lookup_from.induct)
  case (2 start off at o1 tx t)
  show ?case
  proof (cases "t < at")
    case True
    then show ?thesis using 2 by (auto simp: in_span_def split: option.splits)
  next
    case False
    then have "in_span s e t \<and> (\<forall>u. in_span s e u \<longrightarrow> lookup_from (Some at) o1 tx u = (off', s, e)) \<and>
      (\<forall>a. Some at = Some a \<longrightarrow> (\<exists>x. s = Some x \<and> a \<le> x)) \<and> \<bar>off'\<bar> \<le> day_len \<and> (\<forall>x y. s = Some x \<and> e = Some y \<longrightarrow> x + 2 * day_len \<le> y)"
      using 2 by (intro "2.IH") auto
    then show ?thesis using 2 day_len_pos by (auto simp: in_span_def split: option.splits)
  qed
qed (auto simp: in_span_def split: option.splits)

lemma loc_span:
  assumes "loc_ok loc" and "loc_lookup loc t = (off, s, e)"
  shows "in_span s e t" and "in_span s e u \<Longrightarrow> loc_lookup loc u = (off, s, e)" and "\<bar>off\<bar> \<le> day_len"
    and "s = Some x \<Longrightarrow> e = Some y \<Longrightarrow> x + 2 * day_len \<le> y"
  using lookup_from_span [of None "loc_tx loc" "loc_offset loc" t off s e] assms
  by (auto simp: loc_ok_def loc_lookup_def)

lemma loc_span_next:
  assumes "loc_ok loc" and "loc_lookup loc t = (off, s, Some y)"
  obtains off' e' where "loc_lookup loc y = (off', Some y, e')"
proof -
  obtain off' s' e' where L: "loc_lookup loc y = (off', s', e')" by (metis prod_cases3)
  note t = loc_span [OF assms] and y = loc_span [OF assms(1) L]
  have "s' = Some y"
  proof (rule ccontr)
    assume "s' \<noteq> Some y"
    then have "in_span s' e' (y - 1)" using y(1) by (auto simp: in_span_def split: option.splits)
    then have "loc_lookup loc (y - 1) = (off', s', e')" by (rule y(2))
    moreover have "in_span s (Some y) (y - 1)" using t(1) by (auto simp: in_span_def split: option.splits)
    then have "loc_lookup loc (y - 1) = (off, s, Some y)" by (rule t(2))
    ultimately show False using y(1) by (auto simp: in_span_def)
  qed
  with L that show ?thesis by blast
qed

lemma loc_span_prev:
  assumes "loc_ok loc" and "loc_lookup loc t = (off, Some x, e)"
  obtains off' s' where "loc_lookup loc (x - 1) = (off', s', Some x)"
proof -
  obtain off' s' e' where L: "loc_lookup loc (x - 1) = (off', s', e')" by (metis prod_cases3)
  note t = loc_span [OF assms] and p = loc_span [OF assms(1) L]
  have x: "loc_lookup loc x = (off, Some x, e)" using t(1) by (intro t(2)) (auto simp: in_span_def split: option.splits)
  have "\<not> in_span s' e' x"
  proof
    assume "in_span s' e' x"
    then have "s' = Some x" using p(2) [of x] x by simp
    then show False using p(1) by (simp add: in_span_def)
  qed
  then have "e' = Some x" using p(1) by (auto simp: in_span_def split: option.splits)
  with L that show ?thesis by blast
qed

text \<open>
  Whatever the changes of the offset, \<open>time.Date\<close> returns a time whose wall clock shows what was asked for, if
  there is any such time at all.
\<close>

lemma time_Date_shows:
  assumes "loc_ok loc" and "wall (time_In u loc) = d * day_len + clock"
  shows "wall (time_Date d clock loc) = d * day_len + clock"
proof -
  define unix where "unix = d * day_len + clock"
  obtain off s e where L: "loc_lookup loc unix = (off, s, e)" by (metis prod_cases3)
  note t = loc_span [OF assms(1) L]
  obtain offu su eu where Lu: "loc_lookup loc u = (offu, su, eu)" by (metis prod_cases3)
  have u: "u + offu = unix" using assms(2) by (simp add: wall_def time_In_def offset_at_def Lu unix_def)
  have u': "\<bar>offu\<bar> \<le> day_len" by (rule loc_span(3) [OF assms(1) Lu])
  have wall: "wall (time_In (unix - o1) loc) = unix" if "loc_lookup loc (unix - o1) = (o1, s1, e1)" for o1 s1 e1
    using that by (simp add: wall_def time_In_def offset_at_def)
  let ?utc = "unix - off"
  have "off = 0 \<or> in_span s e ?utc \<or> off \<noteq> 0 \<and> (\<exists>y. e = Some y \<and> y \<le> ?utc) \<or> off \<noteq> 0 \<and> (\<exists>x. s = Some x \<and> ?utc < x)"
    by (cases s; cases e) (auto simp: in_span_def)
  then consider (same) "off = 0 \<or> in_span s e ?utc" | (later) y where "off \<noteq> 0" "e = Some y" "y \<le> ?utc"
    | (earlier) x where "off \<noteq> 0" "s = Some x" "?utc < x"
    by blast
  then have "wall (case loc_lookup loc unix of (offset, start, end') \<Rightarrow>
        let offset' = (if offset = 0 then 0
           else let utc = unix - offset in
             if (case start of Some s \<Rightarrow> utc < s | None \<Rightarrow> False) \<or> (case end' of Some e \<Rightarrow> utc \<ge> e | None \<Rightarrow> False)
             then offset_at loc utc else offset)
        in time_In (unix - offset') loc) = unix"
  proof cases
    case same
    have "loc_lookup loc ?utc = (off, s, e)" using same L t(2) by auto
    then have "wall (time_In ?utc loc) = unix" by (rule wall)
    then show ?thesis using same by (cases "off = 0") (auto simp: L Let_def in_span_def split: option.splits)
  next
    case later
    obtain o' e' where N: "loc_lookup loc y = (o', Some y, e')" using loc_span_next [OF assms(1) L [unfolded later(2)]] .
    note n = loc_span [OF assms(1) N]
    have b: "unix < y" using t(1) later(2) by (simp add: in_span_def)
    have after: "loc_lookup loc v = (o', Some y, e')" if "y \<le> v" "v < y + 2 * day_len" for v
      using that n(4) [of y] by (intro n(2)) (auto simp: in_span_def split: option.splits)
    have utc: "loc_lookup loc ?utc = (o', Some y, e')" using later b t(3) day_len_pos by (intro after) auto
    have "y \<le> unix - o'"
    proof (rule ccontr)
      assume r: "\<not> y \<le> unix - o'"
      show False
      proof (cases "u < y")
        case True
        have "in_span s e u" using True later t(3) t(4) [of _ y] u u' by (auto simp: in_span_def split: option.splits)
        then show False using t(2) [of u] Lu u later True by simp
      next
        case False
        then have "loc_lookup loc u = (o', Some y, e')" using u u' b day_len_pos by (intro after) auto
        then show False using Lu u r False by simp
      qed
    qed
    then have "loc_lookup loc (unix - o') = (o', Some y, e')" using b n(3) day_len_pos by (intro after) auto
    then show ?thesis using later utc wall [of o'] by (simp add: L Let_def offset_at_def)
  next
    case earlier
    obtain o' s' where N: "loc_lookup loc (x - 1) = (o', s', Some x)" using loc_span_prev [OF assms(1) L [unfolded earlier(2)]] .
    note n = loc_span [OF assms(1) N]
    have b: "x \<le> unix" using t(1) earlier(2) by (simp add: in_span_def)
    have before: "loc_lookup loc v = (o', s', Some x)" if "v < x" "x - 2 * day_len \<le> v" for v
      using that n(4) [of _ x] by (intro n(2)) (auto simp: in_span_def split: option.splits)
    have utc: "loc_lookup loc ?utc = (o', s', Some x)" using earlier b t(3) day_len_pos by (intro before) auto
    have "unix - o' < x"
    proof (rule ccontr)
      assume r: "\<not> unix - o' < x"
      show False
      proof (cases "u < x")
        case True
        then have "loc_lookup loc u = (o', s', Some x)" using u u' b day_len_pos by (intro before) auto
        then show False using Lu u r True by simp
      next
        case False
        have "in_span s e u" using False earlier t(3) t(4) [of x] u u' by (auto simp: in_span_def split: option.splits)
        then show False using t(2) [of u] Lu u earlier False by simp
      qed
    qed
    then have "loc_lookup loc (unix - o') = (o', s', Some x)" using b n(3) day_len_pos by (intro before) auto
    then show ?thesis using earlier utc wall [of o'] by (auto simp: L Let_def offset_at_def split: option.splits)
  qed
  then show ?thesis by (simp only: time_Date_def Let_def unix_def [symmetric])
qed


text \<open>The first moment of a day, wherever it exists, is the midnight at which the date begins, and the last one shows 23:59:59.999999999.\<close>

lemma StartOfDay_midnight:
  assumes "loc_ok loc" and "wall (time_In u loc) = z_day (time_In t loc) * day_len"
  shows "wall (StartOfDay t (Some loc)) = z_day (time_In t loc) * day_len" and "z_day (StartOfDay t (Some loc)) = z_day (time_In t loc)"
proof -
  show "wall (StartOfDay t (Some loc)) = z_day (time_In t loc) * day_len"
    using time_Date_shows [OF assms(1), of u _ 0] assms(2) by (simp add: StartOfDay_def or_UTC_def)
  then show "z_day (StartOfDay t (Some loc)) = z_day (time_In t loc)"
    using day_len_pos by (simp add: z_day_def [of "StartOfDay t (Some loc)"])
qed

lemma EndOfDay_last:
  assumes "loc_ok loc" and "wall (time_In u loc) = (z_day (time_In t loc) + 1) * day_len - 1"
  shows "wall (EndOfDay t (Some loc)) = (z_day (time_In t loc) + 1) * day_len - 1" and "z_day (EndOfDay t (Some loc)) = z_day (time_In t loc)"
proof -
  have c: "23 * hour + 59 * minute + 59 * second + 999999999 = day_len - 1"
    by (simp add: day_len_def hour_def minute_def second_def)
  show w: "wall (EndOfDay t (Some loc)) = (z_day (time_In t loc) + 1) * day_len - 1"
    using time_Date_shows [OF assms(1), of u _ "day_len - 1"] assms(2) by (simp add: EndOfDay_def or_UTC_def c ring_distribs)
  show "z_day (EndOfDay t (Some loc)) = z_day (time_In t loc)"
    using day_len_pos w by (subst z_day_def) (auto simp: ring_distribs intro!: int_div_pos_eq)
qed

text \<open>In a location with one offset every day has both moments, around all of its times and 24 hours apart.\<close>

lemma day_of_fixed_offset:
  assumes "\<bar>off\<bar> \<le> day_len"
  defines "loc \<equiv> \<lparr>loc_offset = off, loc_tx = []\<rparr>"
  shows "z_instant (StartOfDay t (Some loc)) \<le> t \<and> t \<le> z_instant (EndOfDay t (Some loc)) \<and>
         z_instant (EndOfDay t (Some loc)) = z_instant (StartOfDay t (Some loc)) + day_len - 1"
proof -
  have ok: "loc_ok loc" using assms by (simp add: loc_ok_def)
  have off: "offset_at loc v = off" for v by (simp add: offset_at_def loc_lookup_def loc_def)
  have w: "wall (time_In v loc) = v + off" for v by (simp add: wall_def time_In_def off)
  have d: "wall (time_Date k clock loc) = z_instant (time_Date k clock loc) + off" for k clock
    by (simp add: time_Date_def wall_def time_In_def off Let_def split: prod.splits)
  let ?k = "z_day (time_In t loc)"
  have "wall (StartOfDay t (Some loc)) = ?k * day_len" by (rule StartOfDay_midnight(1) [OF ok, of "?k * day_len - off"]) (simp add: w)
  moreover have "wall (EndOfDay t (Some loc)) = (?k + 1) * day_len - 1"
    by (rule EndOfDay_last(1) [OF ok, of "(?k + 1) * day_len - 1 - off"]) (simp add: w)
  moreover have "?k * day_len \<le> t + off" "t + off < (?k + 1) * day_len"
    using pos_mod_bound [OF day_len_pos, of "t + off"] pos_mod_sign [OF day_len_pos, of "t + off"]
    by (simp_all add: z_day_def w ring_distribs minus_mod_eq_div_mult [symmetric])
  ultimately show ?thesis by (simp add: StartOfDay_def EndOfDay_def or_UTC_def d ring_distribs)
qed

text \<open>
  Where clocks go forward at midnight the day has none: here at 03:00 UTC, from three to two hours behind. The
  first moment of that day is then 23:00 of the day before.
\<close>

definition midnight_gap :: Location where
  "midnight_gap = \<lparr>loc_offset = - 3 * hour, loc_tx = [(3 * hour, - 2 * hour)]\<rparr>"

lemma StartOfDay_on_previous_day:
  "z_day (time_In (4 * hour) midnight_gap) = 0"
  "z_day (StartOfDay (4 * hour) (Some midnight_gap)) = - 1"
  "wall (StartOfDay (4 * hour) (Some midnight_gap)) = - 1 * hour"
  by code_simp+

text \<open>Parsing takes the first layout that fits, and every failure is an \<open>ErrInvalidTimeFormat\<close>.\<close>

lemma ParseTime_first:
  assumes "s \<noteq> []" and "layouts = us @ l # vs" and "\<forall>u \<in> set us. \<exists>e. parse u s = Inl e" and "parse l s = Inr t"
  shows "ParseTime parse s layouts = Inr t"
proof -
  have "try_layouts parse s (us @ l # vs) = Some t"
    using assms(3) by (induction us) (auto simp: assms(4))
  with assms show ?thesis by (simp add: ParseTime_def)
qed

lemma ParseTime_error:
  "ParseTime parse s layouts = Inl e \<Longrightarrow>
     errors_is e ErrInvalidTimeFormat \<and>
     (s = [] \<or> (\<forall>l \<in> set (if layouts = [] then CommonLayouts else layouts). \<exists>e. parse l s = Inl e))"
proof -
  have "try_layouts parse s ls = None \<Longrightarrow> \<forall>l \<in> set ls. \<exists>e. parse l s = Inl e" for ls
    by (induction ls) (auto split: sum.splits)
  then show "ParseTime parse s layouts = Inl e \<Longrightarrow> ?thesis"
    by (auto simp: ParseTime_def Let_def split: if_splits option.splits)
qed

text \<open>The next business day: the following day, or the Monday after a Friday or a weekend.\<close>

lemma AddBusinessDays_1:
  "AddBusinessDays d 1 = (if Weekday d = 5 then d + 3 else if Weekday d = 6 then d + 2 else d + 1)"
proof -
  have w: "weekend (d + k) \<longleftrightarrow> (d + k + 4) mod 7 = 6 \<or> (d + k + 4) mod 7 = 0" for k by (simp add: weekend_def Weekday_def)
  consider "Weekday d = 0" | "Weekday d = 5" | "Weekday d = 6" | "Weekday d \<in> {1, 2, 3, 4}"
    using pos_mod_bound [of 7 "d + 4"] pos_mod_sign [of 7 "d + 4"] unfolding Weekday_def by force
  then show ?thesis
  proof cases
    case 4
    then have "\<not> weekend (d + 1)" by (auto simp: w Weekday_def) presburger+
    with 4 show ?thesis by (auto simp: AddBusinessDays_def addPositiveBusinessDays_def bd_forward.simps [of d "Suc 0"] bd_forward.simps [of "d + 1" 0])
  next
    case 2
    then have "weekend (d + 1)" "weekend (d + 2)" "\<not> weekend (d + 3)" unfolding w Weekday_def by presburger+
    moreover have step: "bd_forward k (Suc 0) = (if weekend (k + 1) then bd_forward (k + 1) (Suc 0) else k + 1)" for k
      by (subst bd_forward.simps) (simp add: Let_def bd_forward.simps [of _ 0])
    ultimately have "bd_forward d (Suc 0) = d + 3"
      using step [of d] step [of "d + 1"] step [of "d + 2"] by (simp add: add.assoc)
    with 2 show ?thesis by (simp add: AddBusinessDays_def addPositiveBusinessDays_def)
  qed (auto simp: AddBusinessDays_def addPositiveBusinessDays_def)
qed

end
