(* ===== verification/Microservice.thy ===== *)
theory Microservice
  imports Cache_Typed Http_Client Http_Response Pagination Time_Zones Collections Env Gin_Metrics Worker_Pool Health Shutdown
begin

text \<open>
  The reference service that composes the packages (\<open>src/examples/microservice/main.go\<close>): its configuration, its
  metrics, how its components are wired together and its handlers. A handler is a function of the request, of
  what its environment decides and of the components it uses; \<open>None\<close> as a reply is a panic. The breaker of the
  service is one object that two components share: the handler of quotes runs its work through it, and the HTTP
  client that this work uses runs every request through it again. Redirects are followed as \<open>http.Client\<close> does it, each
  with a round trip of its own. Query parameters are ASCII.
\<close>

section \<open>Configuration and metrics\<close>

record app_Config =
  ac_Port :: string
  ac_ReadHeaderTimeout :: duration
  ac_WorkerPoolSize :: int
  ac_WorkerQueueCap :: int
  ac_ShutdownTimeout :: duration
  ac_QuoteServiceURL :: string

definition LoadConfig :: "(string \<Rightarrow> string) \<Rightarrow> app_Config" where
  "LoadConfig getenv =
     \<lparr>ac_Port = env_String getenv ''PORT'' '':8080'',
      ac_ReadHeaderTimeout = env_Duration getenv ''READ_HEADER_TIMEOUT'' (5 * second),
      ac_WorkerPoolSize = env_Int getenv ''WORKER_POOL_SIZE'' 4,
      ac_WorkerQueueCap = env_Int getenv ''WORKER_QUEUE_CAP'' 100,
      ac_ShutdownTimeout = env_Duration getenv ''SHUTDOWN_TIMEOUT'' (10 * second),
      ac_QuoteServiceURL = env_String getenv ''QUOTE_SERVICE_URL'' []\<rparr>"

record app_Item =
  it_ID :: string
  it_Name :: string
  it_Category :: string

record Quote =
  qu_Symbol :: string
  qu_Price :: rat
  qu_FetchedAt :: zoned
  qu_ValidUntil :: zoned

text \<open>
  Atomic counters and gauges of 64 bits; \<open>ovf\<close> is the conversion of a float beyond the range, which depends on the
  implementation.
\<close>

definition counter_Inc :: "64 word \<Rightarrow> 64 word" where
  "counter_Inc c = c + 1"

definition counter_Add :: "(rat \<Rightarrow> 64 word) \<Rightarrow> rat \<Rightarrow> 64 word \<Rightarrow> 64 word" where
  "counter_Add ovf delta c = (if delta \<le> 0 then c else c + (if delta < 2 ^ 64 then of_int (trunc_int delta) else ovf delta))"

definition gauge_Set :: "(rat \<Rightarrow> int) \<Rightarrow> rat \<Rightarrow> 64 word \<Rightarrow> 64 word" where
  "gauge_Set ovf v g = of_int (float_to_int64 ovf v)"

definition gauge_Add :: "(rat \<Rightarrow> int) \<Rightarrow> rat \<Rightarrow> 64 word \<Rightarrow> 64 word" where
  "gauge_Add ovf delta g = g + of_int (float_to_int64 ovf delta)"

record AppMetrics =
  am_BreakerRequests :: "64 word"
  am_BreakerFailures :: "64 word"
  am_BreakerState :: "64 word"
  am_PoolSubmitted :: "64 word"
  am_PoolCompleted :: "64 word"
  am_PoolDropped :: "64 word"
  am_PoolPanics :: "64 word"
  am_PoolQueueSize :: "64 word"
  am_CacheHits :: "64 word"
  am_CacheMisses :: "64 word"
  am_CacheEvictions :: "64 word"
  am_HTTPRequestsTotal :: "64 word"
  am_HTTPResponses2xx :: "64 word"
  am_HTTPResponses4xx :: "64 word"
  am_HTTPResponses5xx :: "64 word"
  am_HTTPDurationSumMs :: "64 word"

definition NewAppMetrics :: AppMetrics where
  "NewAppMetrics =
     \<lparr>am_BreakerRequests = 0, am_BreakerFailures = 0, am_BreakerState = 0, am_PoolSubmitted = 0, am_PoolCompleted = 0,
      am_PoolDropped = 0, am_PoolPanics = 0, am_PoolQueueSize = 0, am_CacheHits = 0, am_CacheMisses = 0, am_CacheEvictions = 0,
      am_HTTPRequestsTotal = 0, am_HTTPResponses2xx = 0, am_HTTPResponses4xx = 0, am_HTTPResponses5xx = 0, am_HTTPDurationSumMs = 0\<rparr>"

section \<open>The service\<close>

record app =
  ap_Config :: app_Config
  ap_Cache :: "app_Item list typedCache"
  ap_Pool :: "string Pool"
  ap_Health :: Service
  ap_Shutdown :: Manager
  ap_Metrics :: AppMetrics
  ap_client :: hc_options
  ap_http :: "(unit, ConsecutiveBreaker) hc_state"

definition quote_retry :: retry_Config where
  "quote_retry = \<lparr>Attempts = 3, InitialWait = 20 * 1000000, MaxWait = 100 * 1000000, rStrategy = ExponentialJitter, ShouldRetry = None\<rparr>"

text \<open>
  \<open>NewApp\<close> without options. The breaker is in \<open>ap_http\<close>; the handlers use the same object. The only panic is the one
  of \<open>workerpool.New\<close>. The checkers of the health service find both components initialised.
\<close>

definition NewApp :: "(string \<Rightarrow> string) \<Rightarrow> time \<Rightarrow> app option" where
  "NewApp getenv now =
     (let cfg = LoadConfig getenv;
          itemCache = NewTypedCache [] [];
          cb = NewConsecutiveBreaker 5 (15 * second) [WithOnStateChange True];
          (clientOpts, client) = NewRoundTripper [Some (WithCircuitBreaker (Some cb)), Some (WithRetry quote_retry)];
          healthSvc = health_New now [WithChecker ''cache'' (CReturns None), WithChecker ''workerpool'' (CReturns None)];
          sm = sm_Register ''cache'' (sm_Register ''workerpool'' (sm_New (ac_ShutdownTimeout cfg)))
      in case pool_New (ac_WorkerPoolSize cfg) (ac_WorkerQueueCap cfg) False of
           None \<Rightarrow> None
         | Some pool \<Rightarrow>
             Some \<lparr>ap_Config = cfg, ap_Cache = itemCache, ap_Pool = pool, ap_Health = healthSvc, ap_Shutdown = sm,
               ap_Metrics = NewAppMetrics, ap_client = clientOpts, ap_http = client\<rparr>)"

text \<open>The middleware that counts requests, after the handlers behind it have returned.\<close>

definition count_http :: "(rat \<Rightarrow> 64 word) \<Rightarrow> int \<Rightarrow> int \<Rightarrow> AppMetrics \<Rightarrow> AppMetrics" where
  "count_http ovf durationMs status m0 =
     (let m = m0\<lparr>am_HTTPRequestsTotal := counter_Add ovf 1 (am_HTTPRequestsTotal m0),
                 am_HTTPDurationSumMs := counter_Add ovf (float64_of durationMs) (am_HTTPDurationSumMs m0)\<rparr>
      in if 200 \<le> status \<and> status < 300 then m\<lparr>am_HTTPResponses2xx := counter_Add ovf 1 (am_HTTPResponses2xx m)\<rparr>
         else if 400 \<le> status \<and> status < 500 then m\<lparr>am_HTTPResponses4xx := counter_Add ovf 1 (am_HTTPResponses4xx m)\<rparr>
         else if status \<ge> 500 then m\<lparr>am_HTTPResponses5xx := counter_Add ovf 1 (am_HTTPResponses5xx m)\<rparr>
         else m)"

section \<open>The handlers\<close>

datatype app_data =
    DItems "app_Item TypedResponse"
  | DChunks "app_Item list list" int int
  | DItem app_Item
  | DQuote Quote
  | DTask string

type_synonym app_reply = "app_data http_reply"

text \<open>An error of the standard library or of a package as the error of a response.\<close>

fun to_derror :: "error \<Rightarrow> derror" where
  "to_derror Canceled = Plain ''context canceled''"
| "to_derror DeadlineExceeded = Plain ''context deadline exceeded''"
| "to_derror (Err m) = Plain m"
| "to_derror (Wrap m e) = Wrapped m (to_derror e)"
| "to_derror (Join es) = Joined (map to_derror es)"

definition err_msg :: "error \<Rightarrow> string" where
  "err_msg e = err_text (to_derror e)"

subsection \<open>Items\<close>

definition items_key :: "Params \<Rightarrow> string" where
  "items_key p = ''items:page:'' @ itoa (p_Page p) @ '':limit:'' @ itoa (p_Limit p)"

definition make_item :: "int \<Rightarrow> app_Item" where
  "make_item idx =
     \<lparr>it_ID = ''item-'' @ itoa idx, it_Name = ''Product '' @ itoa idx,
      it_Category = (if idx smod 2 = 0 then ''premium'' else ''standard'')\<rparr>"

fun items_loop :: "Params \<Rightarrow> int list \<Rightarrow> app_Item list" where
  "items_loop p [] = []"
| "items_loop p (i # is) =
     (let idx = wrap64 (p_Offset p + i + 1) in if idx > 100 then [] else make_item idx # items_loop p is)"

definition fetch_items :: "Params \<Rightarrow> app_Item list" where
  "fetch_items p = items_loop p [0 .. p_Limit p - 1]"

definition filter_items :: "string \<Rightarrow> app_Item list \<Rightarrow> app_Item list" where
  "filter_items categoryFilter items =
     (if categoryFilter \<noteq> [] then filter (\<lambda>it. to_lower (it_Category it) = to_lower categoryFilter) items else items)"

text \<open>What is done with the items of the page.\<close>

definition render_items :: "(string \<Rightarrow> string) \<Rightarrow> app_Item list \<Rightarrow> app_reply option" where
  "render_items query items =
     (let params = Parse query; filtered = filter_items (query ''category'') items; chunkSizeStr = query ''chunk_size'';
          page = hu_OK (DItems (NewTypedResponse filtered 100 params))
      in if chunkSizeStr \<noteq> [] then
           case atoi chunkSizeStr of
             Some sz \<Rightarrow>
               if sz > 0 then
                 map_option (\<lambda>chunks. hu_OK (DChunks chunks (int (length chunks)) (int (length filtered)))) (Chunk filtered sz)
               else Some page
           | None \<Rightarrow> Some page
         else Some page)"

text \<open>A request with what its environment decides: the context and the clock at both ends of the fetch.\<close>

record items_req =
  ir_query :: "string \<Rightarrow> string"
  ir_ctx1 :: ctx_err
  ir_now1 :: time
  ir_now2 :: time
  ir_ctx2 :: ctx_err

definition handleGetItems ::
  "app_Item list range_order \<Rightarrow> (nat \<Rightarrow> time) \<Rightarrow> items_req \<Rightarrow> app_Item list typedCache \<Rightarrow> app_Item list typedCache \<times> app_reply option" where
  "handleGetItems order ticks rq cache =
     (let params = Parse (ir_query rq) in
      case t_GetOrFetch order ticks [] (ir_ctx1 rq) (ir_now1 rq) (items_key params) (2 * minute) (Inr (fetch_items params))
             (ir_now2 rq) (ir_ctx2 rq) cache of
        None \<Rightarrow> (cache, None)
      | Some (cache', Inl err, _) \<Rightarrow> (cache', Some (hu_Error (err_msg err) 500))
      | Some (cache', Inr items, _) \<Rightarrow> (cache', render_items (ir_query rq) items))"

definition handleGetItemByID :: "string \<Rightarrow> app_reply" where
  "handleGetItemByID item_id =
     (if item_id = [] then ErrorFromDomain (ae_BadRequest ''missing item id'')
      else if take 5 item_id \<noteq> ''item-'' then ErrorFromDomain (ae_NotFound (''item '' @ go_quote item_id @ '' not found''))
      else hu_OK (DItem \<lparr>it_ID = item_id, it_Name = ''Product '' @ drop 5 item_id, it_Category = ''standard''\<rparr>))"

subsection \<open>Quotes\<close>

text \<open>
  \<open>AddBusinessDays\<close> of a time with a fixed offset, such as UTC or the zone of a decoded timestamp: it moves by whole
  days and keeps the time of the day.
\<close>

definition add_business_days :: "zoned \<Rightarrow> int \<Rightarrow> zoned" where
  "add_business_days t n = t\<lparr>z_instant := z_instant t + (AddBusinessDays (z_day t) n - z_day t) * day_len\<rparr>"

definition z_IsZero :: "zoned \<Rightarrow> bool" where
  "z_IsZero t \<longleftrightarrow> z_instant t = zero_time"

text \<open>
  What the environment decides for a request: the contexts and times of the outer call of the breaker, of the outer
  retries, and for the \<open>i\<close>-th of these the host of the parsed URL, the round trip of each hop (the request and the redirects that
  follow it), the \<open>Location\<close> of the response of a hop, what the body decodes to, and the clock; \<open>qe_resolve\<close> makes a
  location and the URL it is relative to the URL and host of the next hop.
\<close>

record quote_env =
  qe_ctx1 :: ctx_err
  qe_now1 :: time
  qe_ctx2 :: ctx_err
  qe_now2 :: time
  qe_rctx :: "nat \<Rightarrow> ctx_err"
  qe_rnd :: "nat \<Rightarrow> rat"
  qe_wctx :: "nat \<Rightarrow> ctx_err"
  qe_host :: "string \<Rightarrow> error + string"
  qe_http :: "nat \<Rightarrow> nat \<Rightarrow> hc_env"
  qe_location :: "nat \<Rightarrow> nat \<Rightarrow> string"
  qe_resolve :: "string \<Rightarrow> string \<Rightarrow> error + string \<times> string"
  qe_decode :: "nat \<Rightarrow> error + Quote"
  qe_clock :: "nat \<Rightarrow> time"
  qe_end :: time

type_synonym quote_client = "(unit, ConsecutiveBreaker) hc_state"

definition quote_URL :: "string \<Rightarrow> string \<Rightarrow> string" where
  "quote_URL quoteServiceURL symbol =
     rev (dropWhile (\<lambda>c. c = CHR ''/'') (rev quoteServiceURL)) @ ''/quotes?symbol='' @ symbol"

text \<open>
  \<open>http.Client.Do\<close> of a \<open>GET\<close> without a body: the errors of the transport are wrapped in a \<open>url.Error\<close>, and a response that
  redirects is closed and followed, at most nine times. \<open>client_send\<close> is one hop, \<open>k\<close> the number of redirects that may
  still be followed.
\<close>

definition url_error :: "string \<Rightarrow> error \<Rightarrow> error" where
  "url_error url err = Wrap (''Get '' @ go_quote url) err"

definition client_send ::
  "(rat \<Rightarrow> int) \<Rightarrow> hc_options \<Rightarrow> hc_env \<Rightarrow> string \<Rightarrow> string \<Rightarrow> quote_client \<Rightarrow> quote_client \<times> (error + hc_resp)" where
  "client_send ovf opts env url host s =
     (case RoundTrip (\<lambda>_ _ l. (l, True)) cb_Execute cb_admits ovf opts env \<lparr>hq_Host = host, hq_Body = None, hq_GetBody = None\<rparr> s of
        (s1, Some resp, _) \<Rightarrow> (s1, Inr resp)
      | (s1, None, Some err) \<Rightarrow> (s1, Inl (url_error url err))
      | (s1, None, None) \<Rightarrow>
          (s1, Inl (url_error url (Err ''http: RoundTripper implementation returned a nil *Response with a nil error''))))"

definition redirects :: "hc_resp \<Rightarrow> bool" where
  "redirects resp \<longleftrightarrow> hr_StatusCode resp \<in> {301, 302, 303, 307, 308}"

fun client_hops ::
  "(rat \<Rightarrow> int) \<Rightarrow> hc_options \<Rightarrow> quote_env \<Rightarrow> nat \<Rightarrow> nat \<Rightarrow> string \<Rightarrow> string \<Rightarrow> quote_client \<Rightarrow> quote_client \<times> (error + hc_resp)" where
  "client_hops ovf opts env i k url host s =
     (case client_send ovf opts (qe_http env i (9 - k)) url host s of
        (s1, Inl err) \<Rightarrow> (s1, Inl err)
      | (s1, Inr resp) \<Rightarrow>
          let loc = qe_location env i (9 - k) in
          if \<not> redirects resp \<or> loc = [] then (s1, Inr resp)
          else
            let s2 = close_resp (Some resp) s1 in
            (case qe_resolve env url loc of
               Inl err \<Rightarrow>
                 (s2, Inl (url_error url (Err (''failed to parse Location header '' @ go_quote loc @ '': '' @ err_msg err))))
             | Inr (url', host') \<Rightarrow>
                 (case k of
                    0 \<Rightarrow> (s2, Inl (url_error loc (Err ''stopped after 10 redirects'')))
                  | Suc k' \<Rightarrow> client_hops ovf opts env i k' url' host' s2)))"

declare client_hops.simps [simp del]

definition client_Do ::
  "(rat \<Rightarrow> int) \<Rightarrow> hc_options \<Rightarrow> quote_env \<Rightarrow> nat \<Rightarrow> string \<Rightarrow> string \<Rightarrow> quote_client \<Rightarrow> quote_client \<times> (error + hc_resp)" where
  "client_Do ovf opts env i targetURL host s = client_hops ovf opts env i 9 targetURL host s"

definition FetchQuoteHTTP ::
  "(rat \<Rightarrow> int) \<Rightarrow> hc_options \<Rightarrow> quote_env \<Rightarrow> string \<Rightarrow> string \<Rightarrow> nat \<Rightarrow> quote_client \<Rightarrow> quote_client \<times> (error + Quote)" where
  "FetchQuoteHTTP ovf opts env quoteServiceURL symbol i s =
     (let targetURL = quote_URL quoteServiceURL symbol in
      case qe_host env targetURL of
        Inl err \<Rightarrow> (s, Inl err)
      | Inr host \<Rightarrow>
          case client_Do ovf opts env i targetURL host s of
            (s1, Inl err) \<Rightarrow> (s1, Inl err)
          | (s1, Inr resp) \<Rightarrow>
              let s2 = close_resp (Some resp) s1 in
              if hr_StatusCode resp \<noteq> 200 then (s2, Inl (Err (''quote upstream returned status '' @ itoa (hr_StatusCode resp))))
              else
                case qe_decode env i of
                  Inl err \<Rightarrow> (s2, Inl err)
                | Inr q \<Rightarrow>
                    let q1 = (if z_IsZero (qu_FetchedAt q) then q\<lparr>qu_FetchedAt := time_In (qe_clock env i) time_UTC\<rparr> else q);
                        q2 = (if z_IsZero (qu_ValidUntil q1) then q1\<lparr>qu_ValidUntil := add_business_days (qu_FetchedAt q1) 1\<rparr> else q1)
                    in (s2, Inr q2))"

definition FetchQuote ::
  "(rat \<Rightarrow> int) \<Rightarrow> hc_options \<Rightarrow> quote_env \<Rightarrow> string \<Rightarrow> string \<Rightarrow> nat \<Rightarrow> quote_client \<Rightarrow> quote_client \<times> (error + Quote)" where
  "FetchQuote ovf opts env quoteServiceURL symbol i s =
     (if quoteServiceURL \<noteq> [] then FetchQuoteHTTP ovf opts env quoteServiceURL symbol i s
      else
        let now = time_In (qe_clock env i) time_UTC
        in (s, Inr \<lparr>qu_Symbol = symbol, qu_Price = 285 / 2, qu_FetchedAt = now, qu_ValidUntil = add_business_days now 1\<rparr>))"

text \<open>\<open>DoWithResult\<close> with a function that changes the state: the state after a number of calls, and after the last one.\<close>

fun after_calls :: "(nat \<Rightarrow> 's \<Rightarrow> 's \<times> 'r) \<Rightarrow> nat \<Rightarrow> 's \<Rightarrow> 's" where
  "after_calls f 0 s = s"
| "after_calls f (Suc i) s = fst (f i (after_calls f i s))"

definition retry_state ::
  "retry_Config \<Rightarrow> (nat \<Rightarrow> ctx_err) \<Rightarrow> (nat \<Rightarrow> 's \<Rightarrow> 's \<times> (error + 'v)) \<Rightarrow> (nat \<Rightarrow> rat) \<Rightarrow> (nat \<Rightarrow> ctx_err) \<Rightarrow> 's \<Rightarrow> 's \<times> (error + 'v)" where
  "retry_state cfg ctx f rnd wctx s =
     (case DoWithResult cfg ctx (\<lambda>i. snd (f i (after_calls f i s))) rnd wctx of
        (r, calls, waits) \<Rightarrow> (after_calls f calls s, r))"

text \<open>
  \<open>a.Breaker.Execute\<close>: the function that is run finds the breaker as the admission left it, in the client it uses, and
  the result is recorded on the breaker as that function leaves it. The value is the one the function assigned.
\<close>

definition shared_Execute ::
  "ctx_err \<Rightarrow> time \<Rightarrow> (quote_client \<Rightarrow> quote_client \<times> (error + 'v)) \<Rightarrow> ctx_err \<Rightarrow> time \<Rightarrow> quote_client \<Rightarrow> quote_client \<times> outcome \<times> 'v option" where
  "shared_Execute ctx1 now1 f ctx2 now2 s =
     (case hs_circuitBreaker s of
        None \<Rightarrow> (s, Panics, None)
      | Some b \<Rightarrow>
          let b1 = cb_incRequests (fst (cb_canExecute now1 b));
              (s2, r) = (if ctx1 = None \<and> cb_admits now1 b then f (s\<lparr>hs_circuitBreaker := Some b1\<rparr>) else (s, Inl Canceled));
              b2 = (case hs_circuitBreaker s2 of Some b2 \<Rightarrow> b2 | None \<Rightarrow> b1);
              err = (case r of Inl e \<Rightarrow> Some e | Inr _ \<Rightarrow> None);
              (out, b3, ns) = cb_Execute ctx1 now1 (\<lambda>_. (b2, Returns err)) ctx2 now2 b
          in (s2\<lparr>hs_circuitBreaker := Some b3\<rparr>, out, case r of Inl _ \<Rightarrow> None | Inr v \<Rightarrow> Some v))"

definition finish_quote :: "time \<Rightarrow> Quote \<Rightarrow> Quote" where
  "finish_quote now quote =
     (if z_IsZero (qu_ValidUntil quote) then
        let baseTime = (if z_IsZero (qu_FetchedAt quote) then time_In now time_UTC else qu_FetchedAt quote)
        in quote\<lparr>qu_ValidUntil := add_business_days baseTime 1\<rparr>
      else quote)"

definition handleGetQuote ::
  "(rat \<Rightarrow> int) \<Rightarrow> hc_options \<Rightarrow> string \<Rightarrow> quote_env \<Rightarrow> string \<Rightarrow> quote_client \<Rightarrow> quote_client \<times> app_reply option" where
  "handleGetQuote ovf opts quoteServiceURL env symbol s =
     (if symbol = [] then (s, Some (ErrorFromDomain (ae_BadRequest ''symbol query parameter is required'')))
      else
        case shared_Execute (qe_ctx1 env) (qe_now1 env)
               (retry_state quote_retry (qe_rctx env) (FetchQuote ovf opts env quoteServiceURL symbol) (qe_rnd env) (qe_wctx env))
               (qe_ctx2 env) (qe_now2 env) s of
          (s', Returns (Some err), q) \<Rightarrow>
            (s', Some (if errors_is err ErrCircuitOpen
                       then ErrorFromDomain (ae_Unavailable ''external quote service is currently unavailable'')
                       else ErrorFromDomain (ae_Wrap (to_derror err) CodeInternal ''failed to fetch quote'')))
        | (s', Returns None, Some q) \<Rightarrow> (s', Some (hu_OK (DQuote (finish_quote (qe_end env) q))))
        | (s', _, _) \<Rightarrow> (s', None))"

subsection \<open>Tasks\<close>

text \<open>\<open>Submit\<close> of a task that is not nil, when no other call interferes.\<close>

definition submit_task :: "'t \<Rightarrow> 't Pool \<Rightarrow> 't Pool \<times> ctx_err" where
  "submit_task t p =
     (if p_isClosed p \<or> p_closed p then (p_drop p, Some (Err ''workerpool: pool is closed''))
      else if int (length (p_tasks p)) < p_cap p then (p_count (p_send p t), None)
      else (p_drop p, Some (Err ''workerpool: queue full'')))"

definition handleCreateTask :: "error + string \<Rightarrow> string Pool \<Rightarrow> string Pool \<times> app_reply" where
  "handleCreateTask bound p =
     (case bound of
        Inl err \<Rightarrow> (p, ValidationError (err_msg err))
      | Inr payload \<Rightarrow>
          case submit_task payload p of
            (p', Some err) \<Rightarrow> (p', hu_Error (err_msg err) 503)
          | (p', None) \<Rightarrow> (p', hu_Created (DTask payload)))"

section \<open>The cache of items is transparent\<close>

text \<open>What a page holds: the items of its numbers, up to the hundredth.\<close>

definition page_items :: "Params \<Rightarrow> app_Item list" where
  "page_items p = map make_item [(p_Page p - 1) * p_Limit p + 1 .. min (p_Page p * p_Limit p) 100]"

definition valid_params :: "Params \<Rightarrow> bool" where
  "valid_params p \<longleftrightarrow> 1 \<le> p_Page p \<and> p_Page p \<le> 10000 \<and> 1 \<le> p_Limit p \<and> p_Limit p \<le> 100"

lemma valid_Parse: "valid_params (Parse query)"
  using parseIntClamp_range [of 1 DefaultPage 10000 "query ''page''"] parseIntClamp_range [of 1 DefaultLimit MaxLimit "query ''limit''"]
  by (simp add: valid_params_def Parse_def DefaultPage_def DefaultLimit_def MaxLimit_def)

lemma items_loop_upto:
  assumes "p_Offset p = off" "0 \<le> off" "off + b < 2 ^ 62" "0 \<le> a"
  shows "items_loop p [a .. b] = map make_item [off + a + 1 .. min (off + b + 1) 100]"
  using assms
proof (induction a b rule: upto.induct)
  case (1 a b)
  show ?case
  proof (cases "a \<le> b")
    case True
    have w: "wrap64 (off + a + 1) = off + a + 1" using 1 True by (intro wrap64_id) (simp add: in_int64_def)
    show ?thesis
    proof (cases "off + a + 1 > 100")
      case False
      then have "[off + a + 1 .. min (off + b + 1) 100] = (off + a + 1) # [off + (a + 1) + 1 .. min (off + b + 1) 100]"
        using True by (simp add: upto_rec1 algebra_simps)
      then show ?thesis using 1 True False w by (simp add: upto_rec1 [OF True] Let_def)
    qed (use 1 True w in \<open>simp add: upto_rec1 [OF True] Let_def\<close>)
  qed simp
qed

lemma fetch_items_page: "valid_params p \<Longrightarrow> fetch_items p = page_items p"
proof -
  assume v: "valid_params p"
  define off where "off = (p_Page p - 1) * p_Limit p"
  have b: "0 \<le> off" "off \<le> 9999 * 100"
    using v mult_mono [of "p_Page p - 1" 9999 "p_Limit p" 100] by (simp_all add: valid_params_def off_def)
  then have "p_Offset p = off" by (simp add: p_Offset_def off_def [symmetric] wrap64_id in_int64_def)
  then have "items_loop p [0 .. p_Limit p - 1] = map make_item [off + 0 + 1 .. min (off + (p_Limit p - 1) + 1) 100]"
    using b v by (intro items_loop_upto) (simp_all add: valid_params_def)
  moreover have "off + p_Limit p = p_Page p * p_Limit p" by (simp add: off_def algebra_simps)
  ultimately show ?thesis by (simp add: fetch_items_def page_items_def off_def [symmetric])
qed

text \<open>The key of a page determines its number and its length.\<close>

lemma itoa_no_colon: "CHR '':'' \<notin> set (itoa n)"
proof -
  have "\<not> is_digit CHR '':''" by (simp add: is_digit_def)
  then have "CHR '':'' \<notin> set (itoa_nat k)" for k using itoa_nat_digits by blast
  then show ?thesis by (simp add: itoa_def)
qed

lemma append_sep_inject: "c \<notin> set xs \<Longrightarrow> c \<notin> set ys \<Longrightarrow> xs @ c # us = ys @ c # vs \<Longrightarrow> xs = ys \<and> us = vs"
  by (induction xs arbitrary: ys) (auto simp: Cons_eq_append_conv append_eq_Cons_conv)

lemma itoa_inject: "in_int64 m \<Longrightarrow> in_int64 n \<Longrightarrow> itoa m = itoa n \<Longrightarrow> m = n"
  by (metis atoi_itoa option.inject)

lemma items_key_inject:
  assumes "valid_params p" "valid_params q" "items_key p = items_key q"
  shows "p = q"
proof -
  have "itoa (p_Page p) @ CHR '':'' # ''limit:'' @ itoa (p_Limit p) = itoa (p_Page q) @ CHR '':'' # ''limit:'' @ itoa (p_Limit q)"
    using assms(3) by (simp add: items_key_def)
  from append_sep_inject [OF itoa_no_colon itoa_no_colon this]
  have "itoa (p_Page p) = itoa (p_Page q)" "itoa (p_Limit p) = itoa (p_Limit q)" by simp_all
  moreover have "in_int64 (p_Page p)" "in_int64 (p_Page q)" "in_int64 (p_Limit p)" "in_int64 (p_Limit q)"
    using assms(1,2) by (simp_all add: valid_params_def in_int64_def)
  ultimately show ?thesis by (simp add: itoa_inject)
qed

text \<open>The cache is a memo table: whatever it holds for the key of a page is what fetching the page gives.\<close>

definition memo_ok :: "app_Item list typedCache \<Rightarrow> bool" where
  "memo_ok c \<longleftrightarrow> t_policy c = EvictionSampledLRU \<and> s_capacity (t_s c) = 0 \<and>
     (\<forall>p item. valid_params p \<and> map_of (s_data (t_s c)) (items_key p) = Some item \<longrightarrow> i_value item = fetch_items p)"

lemma memo_ok_New: "memo_ok (NewTypedCache [] [])"
  by (simp add: memo_ok_def NewTypedCache_def zero_TypedCache_def s_New_def DefaultCapacity_def)

lemma memo_ok_swap:
  assumes "memo_ok c" "valid_params p" "i_value item = fetch_items p"
  shows "memo_ok (c\<lparr>t_s := s_swap (items_key p) item (t_s c)\<rparr>)"
  using assms items_key_inject [OF _ assms(2)] by (auto simp: memo_ok_def s_swap_def map_of_mput)

lemma fetch_through_cache:
  assumes "memo_ok c" "valid_params p"
    and "t_GetOrFetch order ticks [] ctx1 now1 (items_key p) ttl (Inr (fetch_items p)) now2 ctx2 c = Some (c', r, called)"
  shows "memo_ok c'" and "r = Inr (fetch_items p) \<or> (\<exists>e. r = Inl e \<and> (ctx1 = Some e \<or> ctx2 = Some e))"
proof -
  obtain s where s: "getOrFetchSampledLRU order ticks ctx1 now1 (items_key p) ttl (Inr (fetch_items p)) now2 ctx2 (t_s c) = (s, r, called)"
      "c' = (t_ensureInit [] c)\<lparr>t_s := s\<rparr>"
    using assms(1,3) by (auto simp: memo_ok_def t_GetOrFetch_def t_ensureInit_def Let_def split: if_splits prod.splits)
  have i: "t_policy (t_ensureInit [] c) = EvictionSampledLRU" "t_s (t_ensureInit [] c) = t_s c"
    using assms(1) by (simp_all add: memo_ok_def t_ensureInit_def)
  have m: "memo_ok (c\<lparr>t_s := s\<rparr>)"
  proof -
    let ?item = "\<lparr>i_value = fetch_items p, i_expiration = exp_of now2 [ttl], i_createdAt = unix_nano now2\<rparr>"
    have "memo_ok (c\<lparr>t_s := (t_s c)\<lparr>s_metrics := m\<rparr>\<rparr>)" for m using assms(1) by (simp add: memo_ok_def)
    moreover from memo_ok_swap [OF this assms(2), of ?item]
    have "memo_ok (c\<lparr>t_s := s_store order ticks (items_key p) ?item ((t_s c)\<lparr>s_metrics := m\<rparr>)\<rparr>)" for m
      using assms(1) by (simp add: memo_ok_def s_store_def)
    ultimately show ?thesis using s(1) assms(1)
      by (auto simp: getOrFetchSampledLRU_def Let_def split: option.splits if_splits)
  qed
  then show "memo_ok c'" using i by (simp add: s(2) memo_ok_def)
  show "r = Inr (fetch_items p) \<or> (\<exists>e. r = Inl e \<and> (ctx1 = Some e \<or> ctx2 = Some e))"
    using s(1) assms(1,2) by (auto simp: getOrFetchSampledLRU_def memo_ok_def Let_def split: option.splits if_splits)
qed

fun items_run :: "(app_Item list range_order \<times> (nat \<Rightarrow> time) \<times> items_req) list \<Rightarrow> app_Item list typedCache \<Rightarrow> app_Item list typedCache" where
  "items_run [] c = c"
| "items_run ((order, ticks, rq) # rqs) c = items_run rqs (fst (handleGetItems order ticks rq c))"

lemma t_GetOrFetch_sampled: "memo_ok c \<Longrightarrow> \<exists>x. t_GetOrFetch order ticks [] ctx1 now1 k ttl f now2 ctx2 c = Some x"
  by (auto simp: memo_ok_def t_GetOrFetch_def t_ensureInit_def Let_def split: prod.splits)

lemma handleGetItems_step:
  assumes "memo_ok c"
  shows "memo_ok (fst (handleGetItems order ticks rq c))"
    and "snd (handleGetItems order ticks rq c) = render_items (ir_query rq) (page_items (Parse (ir_query rq))) \<or>
         (\<exists>e. (ir_ctx1 rq = Some e \<or> ir_ctx2 rq = Some e) \<and> snd (handleGetItems order ticks rq c) = Some (hu_Error (err_msg e) 500))"
proof -
  let ?p = "Parse (ir_query rq)"
  obtain c' r called where g: "t_GetOrFetch order ticks [] (ir_ctx1 rq) (ir_now1 rq) (items_key ?p) (2 * minute) (Inr (fetch_items ?p))
      (ir_now2 rq) (ir_ctx2 rq) c = Some (c', r, called)" using t_GetOrFetch_sampled [OF assms] by (metis prod_cases3)
  note F = fetch_through_cache [OF assms valid_Parse g]
  have h: "handleGetItems order ticks rq c =
      (c', case r of Inl err \<Rightarrow> Some (hu_Error (err_msg err) 500) | Inr items \<Rightarrow> render_items (ir_query rq) items)"
    by (simp add: handleGetItems_def g Let_def split: sum.splits)
  show "memo_ok (fst (handleGetItems order ticks rq c))" using F(1) by (simp add: h)
  show "snd (handleGetItems order ticks rq c) = render_items (ir_query rq) (page_items ?p) \<or>
         (\<exists>e. (ir_ctx1 rq = Some e \<or> ir_ctx2 rq = Some e) \<and> snd (handleGetItems order ticks rq c) = Some (hu_Error (err_msg e) 500))"
    using F(2) fetch_items_page [OF valid_Parse] by (auto simp: h)
qed

lemma memo_ok_run: "memo_ok c \<Longrightarrow> memo_ok (items_run rqs c)"
  by (induction rqs c rule: items_run.induct) (simp_all add: handleGetItems_step)

text \<open>
  C28: \<open>GET /api/v1/items\<close> answers as if there were no cache. After any requests, for any pages, filters, times and
  iteration orders, the reply to a request is made from the items of its page, numbered from \<open>(page - 1) * limit + 1\<close>
  and at most the hundredth, filtered and cut into chunks as its query says; the only other reply is the error of
  the request's own context.
\<close>

theorem items_cache_transparent:
  assumes "NewApp getenv t = Some a" and "c = items_run rqs (ap_Cache a)"
  shows "(snd (handleGetItems order ticks rq c) = render_items (ir_query rq) (page_items (Parse (ir_query rq))) \<or>
          (\<exists>e. (ir_ctx1 rq = Some e \<or> ir_ctx2 rq = Some e) \<and> snd (handleGetItems order ticks rq c) = Some (hu_Error (err_msg e) 500)))"
proof -
  have "memo_ok (ap_Cache a)" using assms(1) memo_ok_New by (auto simp: NewApp_def Let_def split: option.splits prod.splits)
  then show ?thesis using handleGetItems_step(2) memo_ok_run assms(2) by blast
qed

definition items_demo_req :: "string \<Rightarrow> items_req" where
  "items_demo_req page = \<lparr>ir_query = (\<lambda>_. [])(''page'' := page, ''limit'' := ''40''), ir_ctx1 = None, ir_now1 = 0, ir_now2 = 0, ir_ctx2 = None\<rparr>"

theorem items_cache_transparent_witness:
  "snd (handleGetItems (\<lambda>_ d. d) (\<lambda>_. 0) (items_demo_req ''3'')
     (items_run (map (\<lambda>k. (\<lambda>_ d. d, \<lambda>_. 0, items_demo_req k)) [''1'', ''3'', ''2'']) (ap_Cache (the (NewApp (\<lambda>_. []) 0))))) =
   render_items (ir_query (items_demo_req ''3'')) (map make_item [81 .. 100])"
proof -
  have "NewApp (\<lambda>_. []) 0 \<noteq> None" by code_simp
  then have a: "NewApp (\<lambda>_. []) 0 = Some (the (NewApp (\<lambda>_. []) 0))" by auto
  have "Parse (ir_query (items_demo_req ''3'')) = \<lparr>p_Page = 3, p_Limit = 40\<rparr>" by code_simp
  then have p: "map make_item [81 .. 100] = page_items (Parse (ir_query (items_demo_req ''3'')))" by (simp add: page_items_def)
  have "ir_ctx1 (items_demo_req ''3'') = None" "ir_ctx2 (items_demo_req ''3'') = None" by (simp_all add: items_demo_req_def)
  then show ?thesis
    unfolding p using items_cache_transparent [OF a refl, of "\<lambda>_ d. d" "\<lambda>_. 0" "items_demo_req ''3''"] by (metis option.distinct(1))
qed

section \<open>The circuit of the quotes\<close>

text \<open>A half-open breaker whose only probe is in flight, and a breaker that no quote can close.\<close>

definition cb_busy :: "ConsecutiveBreaker \<Rightarrow> bool" where
  "cb_busy b \<longleftrightarrow> cb_state b = StateHalfOpen \<and> cb_maxHalfOpen b \<le> 1 \<and> 1 \<le> cb_halfOpenInFlight b"

definition cb_stuck :: "ConsecutiveBreaker \<Rightarrow> bool" where
  "cb_stuck b \<longleftrightarrow> cb_state b \<noteq> StateClosed \<and> cb_maxHalfOpen b \<le> 1 \<and> 0 \<le> cb_halfOpenInFlight b"

definition on_breaker :: "(ConsecutiveBreaker \<Rightarrow> bool) \<Rightarrow> quote_client \<Rightarrow> bool" where
  "on_breaker P s \<longleftrightarrow> (\<exists>b. hs_circuitBreaker s = Some b \<and> P b)"

lemma busy_refuses: "cb_busy b \<Longrightarrow> \<not> cb_admits now b \<and> cb_busy (fst (cb_canExecute now b))"
  by (auto simp: cb_busy_def cb_admits_def cb_canExecute_def cb_initDefaults_def Let_def)

lemma stuck_canExecute:
  assumes "cb_stuck b" "cb_canExecute now b = (b1, allowed, probe, n)"
  shows "allowed \<Longrightarrow> probe \<and> cb_busy (cb_incRequests b1)" and "\<not> allowed \<Longrightarrow> cb_stuck b1"
  using assms
  by (auto simp: cb_stuck_def cb_busy_def cb_canExecute_def cb_initDefaults_def cb_incRequests_def cb_transition_def Let_def
      split: State.splits if_splits)

lemma busy_record:
  assumes "cb_busy b"
  shows "cb_stuck (fst (cb_recordResult True (Some e) now b))" and "snd (snd (cb_recordResult True (Some e) now b)) = Some e"
  using assms
  by (auto simp: cb_stuck_def cb_busy_def cb_recordResult_def cb_decrementHalfOpen_def cb_transition_def cb_incFailures_def Let_def)

text \<open>The calls of the client while the probe of its caller is in flight.\<close>

lemma RoundTrip_busy:
  assumes "on_breaker cb_busy s" and "RoundTrip allow cb_Execute cb_admits ovf opts env req s = (s', resp, err)"
  shows "on_breaker cb_busy s'" "hs_sent s' = hs_sent s" "resp = None" "\<exists>e. err = Some e"
proof -
  obtain b where b: "hs_circuitBreaker s = Some b" "cb_busy b" using assms(1) by (auto simp: on_breaker_def)
  have "on_breaker cb_busy s' \<and> hs_sent s' = hs_sent s \<and> resp = None \<and> (\<exists>e. err = Some e)"
  proof (cases "prepareRequestBody (e_readErr env) req")
    case (Inl e)
    then show ?thesis using assms by (auto simp: RoundTrip_def)
  next
    case (Inr req')
    obtain s1 lim where C: "checkRateLimit allow opts (e_now env) req' s = (s1, lim)" by (metis surj_pair)
    note fr = checkRateLimit_frame [OF C]
    note L = assms(2) [unfolded RoundTrip_def Inr sum.case C prod.case]
    show ?thesis
    proof (cases lim)
      case (Some e)
      then show ?thesis using L fr assms(1) by (auto simp: on_breaker_def)
    next
      case None
      then have R: "roundTripCircuitBreaker cb_Execute cb_admits ovf opts env req' b s1 = (s', resp, err)" using L fr b by simp
      have n: "\<not> cb_admits now b" "cb_busy (fst (cb_canExecute now b))" for now using busy_refuses [OF b(2)] by blast+
      obtain b1 pr ns where c: "cb_canExecute (e_cb_now1 env) b = (b1, False, pr, ns)" "cb_busy b1"
        using n [of "e_cb_now1 env"] by (cases "cb_canExecute (e_cb_now1 env) b") (auto simp: cb_admits_def)
      show ?thesis
      proof (cases "e_cb_ctx1 env")
        case None
        then show ?thesis using R n(1) c fr by (auto simp: roundTripCircuitBreaker_def cb_Execute_def on_breaker_def)
      next
        case (Some e)
        then have "s' = s1\<lparr>hs_circuitBreaker := Some b\<rparr> \<and> resp = None \<and> err = Some e"
          using R by (auto simp: roundTripCircuitBreaker_def cb_Execute_def Let_def split: if_splits)
        then show ?thesis using b(2) fr by (simp add: on_breaker_def)
      qed
    qed
  qed
  then show "on_breaker cb_busy s'" "hs_sent s' = hs_sent s" "resp = None" "\<exists>e. err = Some e" by blast+
qed

lemma client_Do_busy:
  assumes "on_breaker cb_busy s"
  shows "\<exists>s1 e. client_Do ovf opts env i url host s = (s1, Inl e) \<and> on_breaker cb_busy s1 \<and> hs_sent s1 = hs_sent s"
proof -
  obtain s1 resp err where R: "RoundTrip (\<lambda>_ _ l. (l, True)) cb_Execute cb_admits ovf opts (qe_http env i (9 - 9))
      \<lparr>hq_Host = host, hq_Body = None, hq_GetBody = None\<rparr> s = (s1, resp, err)" by (metis prod_cases3)
  from RoundTrip_busy [OF assms R] R show ?thesis
    unfolding client_Do_def client_hops.simps [of _ _ _ _ 9] client_send_def by auto
qed

lemma FetchQuote_busy:
  assumes "on_breaker cb_busy s" "url \<noteq> []" and "FetchQuote ovf opts env url symbol i s = (s', r)"
  shows "on_breaker cb_busy s' \<and> hs_sent s' = hs_sent s \<and> (\<exists>e. r = Inl e)"
proof (cases "qe_host env (quote_URL url symbol)")
  case (Inl e)
  then show ?thesis using assms by (auto simp: FetchQuote_def FetchQuoteHTTP_def)
next
  case (Inr host)
  obtain s1 e where "client_Do ovf opts env i (quote_URL url symbol) host s = (s1, Inl e)" "on_breaker cb_busy s1" "hs_sent s1 = hs_sent s"
    using client_Do_busy [OF assms(1)] by metis
  then show ?thesis using assms(2,3) Inr by (auto simp: FetchQuote_def FetchQuoteHTTP_def)
qed

lemma after_calls_busy:
  assumes "on_breaker cb_busy s" "url \<noteq> []"
  shows "on_breaker cb_busy (after_calls (FetchQuote ovf opts env url symbol) n s) \<and>
         hs_sent (after_calls (FetchQuote ovf opts env url symbol) n s) = hs_sent s"
proof (induction n)
  case (Suc n)
  then show ?case
    using FetchQuote_busy [OF _ assms(2), of "after_calls (FetchQuote ovf opts env url symbol) n s"]
    by (metis after_calls.simps(2) prod.collapse)
qed (simp add: assms)

lemma retry_loop_fails:
  assumes "\<forall>i. \<exists>e. fn i = Inl e"
  shows "\<exists>e. fst (retry_loop cfg sr ctx fn rnd wctx attempts lastErr attempt) = Inl e"
proof (induction "attempts - attempt" arbitrary: attempt lastErr rule: less_induct)
  case less
  obtain err where f: "fn attempt = Inl err" using assms by blast
  have IH: "\<exists>e. fst (retry_loop cfg sr ctx fn rnd wctx attempts err (Suc attempt)) = Inl e" if "attempt < attempts"
    using less that by simp
  show ?case
    using IH by (subst retry_loop.simps) (auto simp: f Let_def split: option.splits prod.splits)
qed

lemma retry_state_busy:
  assumes "on_breaker cb_busy s" "url \<noteq> []"
    and "retry_state cfg ctx (FetchQuote ovf opts env url symbol) rnd wctx s = (s', r)"
  shows "on_breaker cb_busy s' \<and> hs_sent s' = hs_sent s \<and> (\<exists>e. r = Inl e)"
proof -
  let ?f = "FetchQuote ovf opts env url symbol"
  let ?fn = "\<lambda>i. snd (?f i (after_calls ?f i s))"
  have "\<forall>i. \<exists>e. ?fn i = Inl e"
    using FetchQuote_busy [OF _ assms(2)] after_calls_busy [OF assms(1,2)] by (metis prod.collapse)
  then have "\<exists>e. fst (DoWithResult cfg ctx ?fn rnd wctx) = Inl e"
    by (simp add: DoWithResult_def doInternal_def Let_def retry_loop_fails)
  moreover obtain calls ws where "DoWithResult cfg ctx ?fn rnd wctx = (r, calls, ws)" "s' = after_calls ?f calls s"
    using assms(3) by (auto simp: retry_state_def split: prod.splits)
  ultimately show ?thesis using after_calls_busy [OF assms(1,2)] by auto
qed

lemma shared_Execute_stuck:
  assumes "on_breaker cb_stuck s"
    and f: "\<And>s1 s2 r. on_breaker cb_busy s1 \<Longrightarrow> f s1 = (s2, r) \<Longrightarrow> on_breaker cb_busy s2 \<and> hs_sent s2 = hs_sent s1 \<and> (\<exists>e. r = Inl e)"
    and "shared_Execute ctx1 now1 f ctx2 now2 s = (s', out, q)"
  shows "on_breaker cb_stuck s' \<and> hs_sent s' = hs_sent s \<and> (\<exists>e. out = Returns (Some e))"
proof -
  obtain b where b: "hs_circuitBreaker s = Some b" "cb_stuck b" using assms(1) by (auto simp: on_breaker_def)
  obtain b1 allowed probe n where c: "cb_canExecute now1 b = (b1, allowed, probe, n)" by (metis prod_cases4)
  note K = stuck_canExecute [OF b(2) c]
  show ?thesis
  proof (cases "ctx1 = None \<and> allowed")
    case False
    then show ?thesis using assms(3) b c K(2)
      by (auto simp: shared_Execute_def cb_admits_def cb_Execute_def on_breaker_def Let_def split: option.splits)
  next
    case True
    let ?s1 = "s\<lparr>hs_circuitBreaker := Some (cb_incRequests b1)\<rparr>"
    obtain s2 r where F: "f ?s1 = (s2, r)" by fastforce
    have "on_breaker cb_busy ?s1" using K(1) True by (simp add: on_breaker_def)
    from f [OF this F] obtain b2 e where r: "hs_circuitBreaker s2 = Some b2" "cb_busy b2" "hs_sent s2 = hs_sent s" "r = Inl e"
      by (auto simp: on_breaker_def)
    obtain b3 n2 e3 where rec: "cb_recordResult True (Some e) now2 b2 = (b3, n2, e3)" by (metis prod_cases3)
    have "cb_stuck b3" "e3 = Some e" using busy_record [OF r(2), of e now2] rec by simp_all
    moreover have "probe" using K(1) True by blast
    ultimately show ?thesis
      using assms(3) True by (auto simp: shared_Execute_def b(1) c cb_admits_def F r cb_Execute_def rec on_breaker_def)
  qed
qed

fun quote_run :: "(rat \<Rightarrow> int) \<Rightarrow> hc_options \<Rightarrow> string \<Rightarrow> (quote_env \<times> string) list \<Rightarrow> quote_client \<Rightarrow> quote_client" where
  "quote_run ovf opts url [] s = s"
| "quote_run ovf opts url ((env, symbol) # rqs) s = quote_run ovf opts url rqs (fst (handleGetQuote ovf opts url env symbol s))"

lemma handleGetQuote_stuck:
  assumes "on_breaker cb_stuck s" "url \<noteq> []" and "handleGetQuote ovf opts url env symbol s = (s', reply)"
  shows "on_breaker cb_stuck s' \<and> hs_sent s' = hs_sent s \<and> (\<exists>r. reply = Some r \<and> hr_status r \<in> {400, 500, 503})"
proof (cases "symbol = []")
  case True
  then show ?thesis using assms by (auto simp: handleGetQuote_def ErrorFromDomain_def ae_BadRequest_def ae_New_def WriteJSON_def)
next
  case False
  let ?f = "retry_state quote_retry (qe_rctx env) (FetchQuote ovf opts env url symbol) (qe_rnd env) (qe_wctx env)"
  obtain s1 out q where E: "shared_Execute (qe_ctx1 env) (qe_now1 env) ?f (qe_ctx2 env) (qe_now2 env) s = (s1, out, q)" by (metis prod_cases3)
  have "on_breaker cb_stuck s1 \<and> hs_sent s1 = hs_sent s \<and> (\<exists>e. out = Returns (Some e))"
    by (rule shared_Execute_stuck [OF assms(1) _ E]) (rule retry_state_busy [OF _ assms(2)])
  then obtain e where "on_breaker cb_stuck s1" "hs_sent s1 = hs_sent s" "out = Returns (Some e)" by blast
  then show ?thesis using assms(3) False E
    by (auto simp: handleGetQuote_def ErrorFromDomain_def ae_Unavailable_def ae_New_def ae_Wrap_def WriteJSON_def)
qed

lemma quote_run_stuck:
  assumes "on_breaker cb_stuck s" "url \<noteq> []"
  shows "on_breaker cb_stuck (quote_run ovf opts url rqs s) \<and> hs_sent (quote_run ovf opts url rqs s) = hs_sent s"
  using assms(1)
proof (induction rqs arbitrary: s)
  case (Cons rq rqs)
  obtain env symbol where rq: "rq = (env, symbol)" by fastforce
  obtain s1 reply where h: "handleGetQuote ovf opts url env symbol s = (s1, reply)" by fastforce
  from handleGetQuote_stuck [OF Cons.prems assms(2) h] Cons.IH [of s1] show ?case by (simp add: rq h)
qed simp

text \<open>
  C31: once the circuit of the quotes has opened it never closes again, when the quotes come from a service. The
  handler holds the only probe of the half-open breaker while the client it calls asks the same breaker for a
  second one. So for any requests, one after the other, at any times and however well the service is: the circuit
  does not close, no request reaches the service, and every reply is an error.
\<close>

theorem quote_circuit_never_closes:
  assumes "url \<noteq> []" and "hs_circuitBreaker s = Some b" and "cb_state b \<noteq> StateClosed"
    and "cb_maxHalfOpen b \<le> 1" and "0 \<le> cb_halfOpenInFlight b"
  shows "\<exists>b'. hs_circuitBreaker (quote_run ovf opts url rqs s) = Some b' \<and> cb_state b' \<noteq> StateClosed \<and>
      hs_sent (quote_run ovf opts url rqs s) = hs_sent s \<and>
      (\<forall>env symbol. \<exists>r. snd (handleGetQuote ovf opts url env symbol (quote_run ovf opts url rqs s)) = Some r \<and> hr_status r \<in> {400, 500, 503})"
proof -
  have "on_breaker cb_stuck s" using assms by (simp add: on_breaker_def cb_stuck_def)
  from quote_run_stuck [OF this assms(1)]
  have S: "on_breaker cb_stuck (quote_run ovf opts url rqs s)" "hs_sent (quote_run ovf opts url rqs s) = hs_sent s" by blast+
  have "\<exists>r. snd (handleGetQuote ovf opts url env symbol (quote_run ovf opts url rqs s)) = Some r \<and> hr_status r \<in> {400, 500, 503}" for env symbol
    using handleGetQuote_stuck [OF S(1) assms(1)] by (metis prod.collapse)
  with S show ?thesis by (auto simp: on_breaker_def cb_stuck_def)
qed

text \<open>
  It does open: when the service is down, two quotes make four requests through the client, and their four failures
  and the one of the first handler open the circuit. A day later the service is well, and nothing is sent to it.
\<close>

definition quote_demo_http :: "time \<Rightarrow> error + hc_resp \<Rightarrow> hc_env" where
  "quote_demo_http now answer =
     \<lparr>e_readErr = None, e_now = now, e_cb_ctx1 = None, e_cb_now1 = now, e_cb_ctx2 = None, e_cb_now2 = now, e_ctx = (\<lambda>_. None),
      e_transport = (\<lambda>_ _. answer), e_timedout = (\<lambda>_. False), e_rest = (\<lambda>_. None), e_rnd = (\<lambda>_. 0), e_wait = (\<lambda>_. None)\<rparr>"

definition quote_demo_env :: "time \<Rightarrow> error + hc_resp \<Rightarrow> quote_env" where
  "quote_demo_env now answer =
     \<lparr>qe_ctx1 = None, qe_now1 = now, qe_ctx2 = None, qe_now2 = now, qe_rctx = (\<lambda>_. None), qe_rnd = (\<lambda>_. 0), qe_wctx = (\<lambda>_. None),
      qe_host = (\<lambda>_. Inr ''q''), qe_http = (\<lambda>_ _. quote_demo_http now answer), qe_location = (\<lambda>_ _. []),
      qe_resolve = (\<lambda>_ loc. Inr (loc, ''q'')), qe_decode = (\<lambda>_. Inl (Err ''EOF'')), qe_clock = (\<lambda>_. now), qe_end = now\<rparr>"

definition quote_demo_app :: app where
  "quote_demo_app = the (NewApp (\<lambda>_. []) 0)"

definition quote_demo_open :: quote_client where
  "quote_demo_open =
     quote_run (\<lambda>_. 0) (ap_client quote_demo_app) ''http://q/'' (replicate 2 (quote_demo_env 0 (Inl (Err ''down'')), ''A'')) (ap_http quote_demo_app)"

theorem quote_circuit_never_closes_witness:
  "length (hs_sent quote_demo_open) = 12 \<and>
   hs_sent (quote_run (\<lambda>_. 0) (ap_client quote_demo_app) ''http://q/''
     (replicate 3 (quote_demo_env (24 * hour) (Inr \<lparr>hr_StatusCode = 200, hr_id = 7\<rparr>), ''A'')) quote_demo_open) = hs_sent quote_demo_open"
proof -
  have "map_option (\<lambda>b. (cb_state b, cb_maxHalfOpen b, cb_halfOpenInFlight b)) (hs_circuitBreaker quote_demo_open) = Some (StateOpen, 1, 0)"
    by code_simp
  then obtain b where "hs_circuitBreaker quote_demo_open = Some b" "cb_state b \<noteq> StateClosed" "cb_maxHalfOpen b \<le> 1" "0 \<le> cb_halfOpenInFlight b"
    by auto
  moreover have "length (hs_sent quote_demo_open) = 12" by code_simp
  ultimately show ?thesis using quote_circuit_never_closes [of "''http://q/''" quote_demo_open b] by blast
qed

section \<open>What a quote costs\<close>

lemma retry_loop_calls: "attempt \<le> attempts \<Longrightarrow> fst (snd (retry_loop cfg sr ctx fn rnd wctx attempts lastErr attempt)) \<le> attempts"
proof (induction "attempts - attempt" arbitrary: attempt lastErr rule: less_induct)
  case less
  have IH: "fst (snd (retry_loop cfg sr ctx fn rnd wctx attempts e (Suc attempt))) \<le> attempts" if "attempt < attempts" for e
    using less that by simp
  show ?case
  proof (cases "attempt < attempts")
    case True
    show ?thesis
      using IH [OF True] True by (subst retry_loop.simps) (auto simp: Let_def split: option.splits prod.splits sum.splits, metis fst_conv snd_conv)
  qed (use less.prems in \<open>subst retry_loop.simps, simp\<close>)
qed

text \<open>At most \<open>k\<close> attempts, all of them counted and without a body, and every response closed.\<close>

definition quote_effect :: "nat \<Rightarrow> quote_client \<Rightarrow> quote_client \<Rightarrow> bool" where
  "quote_effect k s s' \<longleftrightarrow> hs_open s' = hs_open s \<and>
     (\<exists>n \<le> k. hs_requests s' = hs_requests s + n \<and> hs_sent s' = hs_sent s @ replicate n None)"

lemma quote_effect_refl: "quote_effect k s s"
  by (auto simp: quote_effect_def)

lemma quote_effect_trans:
  assumes "quote_effect k s s1" "quote_effect l s1 s2" shows "quote_effect (k + l) s s2"
proof -
  obtain n where n: "n \<le> k" "hs_requests s1 = hs_requests s + n" "hs_sent s1 = hs_sent s @ replicate n None" "hs_open s1 = hs_open s"
    using assms(1) by (auto simp: quote_effect_def)
  obtain m where "m \<le> l" "hs_requests s2 = hs_requests s1 + m" "hs_sent s2 = hs_sent s1 @ replicate m None" "hs_open s2 = hs_open s1"
    using assms(2) by (auto simp: quote_effect_def)
  with n show ?thesis by (auto simp: quote_effect_def replicate_add intro!: exI [of _ "n + m"])
qed

lemma quote_effect_mono: "quote_effect k s s' \<Longrightarrow> k \<le> l \<Longrightarrow> quote_effect l s s'"
  by (auto simp: quote_effect_def)

definition contexts_ok :: "quote_env \<Rightarrow> bool" where
  "contexts_ok env \<longleftrightarrow> (\<forall>i j. e_cb_ctx2 (qe_http env i j) \<in> {None, Some Canceled, Some DeadlineExceeded})"

text \<open>A round trip, and the hops of one call of the client: at most three attempts each, ten hops.\<close>

lemma client_send_effect:
  assumes "e_cb_ctx2 env \<in> {None, Some Canceled, Some DeadlineExceeded}" "ho_retryCfg opts = quote_retry"
    and "client_send ovf opts env url host s = (s1, r)"
  shows "case r of Inl e \<Rightarrow> quote_effect 3 s s1 | Inr resp \<Rightarrow> quote_effect 3 s (close_resp (Some resp) s1)"
proof -
  obtain s2 resp err where R: "RoundTrip (\<lambda>_ _ l. (l, True)) cb_Execute cb_admits ovf opts env
      \<lparr>hq_Host = host, hq_Body = None, hq_GetBody = None\<rparr> s = (s2, resp, err)" by (metis prod_cases3)
  have e: "hc_effect None 3 s s2 resp err"
    using hcb.round_trip_effect [OF _ _ R] assms(1) by (simp add: body_ok_def assms(2) quote_retry_def)
  show ?thesis
    using e R assms(3)
    by (auto simp: client_send_def hc_effect_def quote_effect_def close_resp_def split: option.splits sum.splits)
qed

lemma client_hops_effect:
  assumes "contexts_ok env" "ho_retryCfg opts = quote_retry"
  shows "case client_hops ovf opts env i k url host s of
           (s1, Inl e) \<Rightarrow> quote_effect (3 * Suc k) s s1
         | (s1, Inr resp) \<Rightarrow> quote_effect (3 * Suc k) s (close_resp (Some resp) s1)"
proof (induction k arbitrary: url host s)
  case (0 url host s)
  obtain s1 r where S: "client_send ovf opts (qe_http env i (9 - 0)) url host s = (s1, r)" by fastforce
  have "case r of Inl e \<Rightarrow> quote_effect 3 s s1 | Inr resp \<Rightarrow> quote_effect 3 s (close_resp (Some resp) s1)"
    using assms(1) by (intro client_send_effect [OF _ assms(2) S]) (simp add: contexts_ok_def)
  then show ?case
    unfolding client_hops.simps [of _ _ _ _ 0] S by (auto simp: Let_def split: sum.splits prod.splits)
next
  case (Suc k url host s)
  obtain s1 r where S: "client_send ovf opts (qe_http env i (9 - Suc k)) url host s = (s1, r)" by fastforce
  have E: "case r of Inl e \<Rightarrow> quote_effect 3 s s1 | Inr resp \<Rightarrow> quote_effect 3 s (close_resp (Some resp) s1)"
    using assms(1) by (intro client_send_effect [OF _ assms(2) S]) (simp add: contexts_ok_def)
  show ?case
  proof (cases r)
    case (Inl e)
    then show ?thesis using quote_effect_mono [of 3 s s1 "3 * Suc (Suc k)"] E
      unfolding client_hops.simps [of _ _ _ _ "Suc k"] S by simp
  next
    case (Inr resp)
    let ?s2 = "close_resp (Some resp) s1" and ?loc = "qe_location env i (9 - Suc k)"
    have e: "quote_effect 3 s ?s2" "quote_effect (3 * Suc (Suc k)) s ?s2" using E Inr quote_effect_mono [of 3 s ?s2 "3 * Suc (Suc k)"] by simp_all
    show ?thesis
    proof (cases "redirects resp \<and> ?loc \<noteq> []")
      case False
      then show ?thesis using e(2) unfolding client_hops.simps [of _ _ _ _ "Suc k"] S Inr by (simp add: Let_def)
    next
      case True
      show ?thesis
      proof (cases "qe_resolve env url ?loc")
        case (Inl err)
        then show ?thesis using e(2) True unfolding client_hops.simps [of _ _ _ _ "Suc k"] S Inr by (simp add: Let_def)
      next
        case R: (Inr p)
        obtain url' host' where p: "p = (url', host')" by fastforce
        have "client_hops ovf opts env i (Suc k) url host s = client_hops ovf opts env i k url' host' ?s2"
          using True R p unfolding client_hops.simps [of _ _ _ _ "Suc k"] S Inr by (simp add: Let_def)
        moreover have "quote_effect (3 * Suc k) ?s2 x \<Longrightarrow> quote_effect (3 * Suc (Suc k)) s x" for x
          using quote_effect_trans [OF e(1), of "3 * Suc k" x] by simp
        ultimately show ?thesis
          using Suc.IH [where url = url' and host = host' and s = ?s2] by (auto simp only: split: prod.splits sum.splits)
      qed
    qed
  qed
qed

text \<open>Without a location there is one hop only.\<close>

definition hops :: "quote_env \<Rightarrow> nat" where
  "hops env = (if \<forall>i j. qe_location env i j = [] then 1 else 10)"

lemma client_Do_effect:
  assumes "contexts_ok env" "ho_retryCfg opts = quote_retry" and "client_Do ovf opts env i url host s = (s1, r)"
  shows "case r of Inl e \<Rightarrow> quote_effect (3 * hops env) s s1 | Inr resp \<Rightarrow> quote_effect (3 * hops env) s (close_resp (Some resp) s1)"
proof (cases "\<forall>i j. qe_location env i j = []")
  case False
  then have "hops env = Suc 9" by (simp add: hops_def)
  then show ?thesis
    using client_hops_effect [OF assms(1,2), where k = 9 and ovf = ovf and i = i and url = url and host = host and s = s] assms(3) by (auto simp only: client_Do_def prod.case split: sum.splits)
next
  case True
  then have "client_send ovf opts (qe_http env i (9 - 9)) url host s = (s1, r)"
    using assms(3) unfolding client_Do_def client_hops.simps [of _ _ _ _ 9] by (auto simp: Let_def split: prod.splits sum.splits)
  from client_send_effect [OF _ assms(2) this] assms(1) have
    "case r of Inl e \<Rightarrow> quote_effect 3 s s1 | Inr resp \<Rightarrow> quote_effect 3 s (close_resp (Some resp) s1)" by (simp add: contexts_ok_def)
  moreover have "3 * hops env = 3" using True by (simp add: hops_def)
  ultimately show ?thesis by (simp only:)
qed

lemma FetchQuote_effect:
  assumes "contexts_ok env" "ho_retryCfg opts = quote_retry"
  shows "quote_effect (3 * hops env) s (fst (FetchQuote ovf opts env url symbol i s))"
proof (cases "url = [] \<or> (\<exists>e. qe_host env (quote_URL url symbol) = Inl e)")
  case True
  then show ?thesis by (auto simp: FetchQuote_def FetchQuoteHTTP_def Let_def quote_effect_refl)
next
  case False
  then obtain host where host: "url \<noteq> []" "qe_host env (quote_URL url symbol) = Inr host"
    by (cases "qe_host env (quote_URL url symbol)") auto
  obtain s1 r where C: "client_Do ovf opts env i (quote_URL url symbol) host s = (s1, r)" by fastforce
  from client_Do_effect [OF assms C] show ?thesis using host C by (auto simp: FetchQuote_def FetchQuoteHTTP_def Let_def split: sum.splits)
qed

lemma after_calls_effect:
  assumes "\<And>i s. quote_effect m s (fst (f i s))" shows "quote_effect (m * n) s (after_calls f n s)"
proof (induction n)
  case (Suc n)
  from quote_effect_trans [OF Suc assms [of _ n]] show ?case by (simp add: algebra_simps)
qed (simp add: quote_effect_refl)

lemma retry_state_effect:
  assumes "\<And>i s. quote_effect m s (fst (f i s))" shows "quote_effect (3 * m) s (fst (retry_state quote_retry ctx f rnd wctx s))"
proof -
  obtain r calls ws where D: "DoWithResult quote_retry ctx (\<lambda>i. snd (f i (after_calls f i s))) rnd wctx = (r, calls, ws)" by (metis prod_cases3)
  have "fst (snd (DoWithResult quote_retry ctx (\<lambda>i. snd (f i (after_calls f i s))) rnd wctx)) \<le> 3"
    using retry_loop_calls [of 0 3] by (simp add: DoWithResult_def doInternal_def quote_retry_def)
  then have "calls \<le> 3" using D by simp
  then show ?thesis
    using quote_effect_mono [OF after_calls_effect [of m f calls s, OF assms], of "3 * m"] D by (simp add: retry_state_def)
qed

lemma shared_Execute_effect:
  assumes "\<And>s. quote_effect k s (fst (f s))" shows "quote_effect k s (fst (shared_Execute ctx1 now1 f ctx2 now2 s))"
proof (cases "hs_circuitBreaker s")
  case None
  then show ?thesis by (simp add: shared_Execute_def quote_effect_refl)
next
  case (Some b)
  have u: "quote_effect k (s\<lparr>hs_circuitBreaker := x\<rparr>) s2 \<Longrightarrow> quote_effect k s (s2\<lparr>hs_circuitBreaker := y\<rparr>)" for x y s2
    by (simp add: quote_effect_def)
  have v: "quote_effect k s (s\<lparr>hs_circuitBreaker := y\<rparr>)" for y by (auto simp: quote_effect_def)
  let ?s1 = "s\<lparr>hs_circuitBreaker := Some (cb_incRequests (fst (cb_canExecute now1 b)))\<rparr>"
  have "fst (shared_Execute ctx1 now1 f ctx2 now2 s) \<in> range (\<lambda>y. (fst (f ?s1))\<lparr>hs_circuitBreaker := y\<rparr>) \<union> range (\<lambda>y. s\<lparr>hs_circuitBreaker := y\<rparr>)"
    by (auto simp: shared_Execute_def Some Let_def split: prod.splits)
  then consider y where "fst (shared_Execute ctx1 now1 f ctx2 now2 s) = (fst (f ?s1))\<lparr>hs_circuitBreaker := y\<rparr>"
    | y where "fst (shared_Execute ctx1 now1 f ctx2 now2 s) = s\<lparr>hs_circuitBreaker := y\<rparr>" by blast
  then show ?thesis by cases (simp_all only: u [OF assms] v)
qed

text \<open>
  C29: A request for a quote makes at most ninety attempts to send a request, three tries of the handler times ten hops
  (the request and nine redirects) times three attempts of the client, each counted once, and leaves no response body open,
  however the service and its redirects, the contexts and the breaker behave. If the service does not redirect,
  there are at most nine.
\<close>

theorem quote_attempts_bounded:
  assumes "NewApp getenv t = Some a" and "contexts_ok env"
    and "handleGetQuote ovf (ap_client a) url env symbol s = (s', reply)"
  shows "hs_open s' = hs_open s \<and> (\<exists>n \<le> (if \<forall>i j. qe_location env i j = [] then 9 else 90). hs_requests s' = hs_requests s + n \<and> hs_sent s' = hs_sent s @ replicate n None)"
proof -
  have o: "ho_retryCfg (ap_client a) = quote_retry"
    using assms(1) by (auto simp: NewApp_def NewRoundTripper_def WithRetry_def WithCircuitBreaker_def Let_def split: option.splits)
  let ?f = "retry_state quote_retry (qe_rctx env) (FetchQuote ovf (ap_client a) env url symbol) (qe_rnd env) (qe_wctx env)"
  have "quote_effect (3 * (3 * hops env)) s (fst (shared_Execute (qe_ctx1 env) (qe_now1 env) ?f (qe_ctx2 env) (qe_now2 env) s))"
    by (rule shared_Execute_effect) (rule retry_state_effect, rule FetchQuote_effect [OF assms(2) o])
  moreover have "s' = s \<or> s' = fst (shared_Execute (qe_ctx1 env) (qe_now1 env) ?f (qe_ctx2 env) (qe_now2 env) s)"
    using assms(3) by (auto simp: handleGetQuote_def split: if_splits prod.splits outcome.splits option.splits)
  ultimately have "quote_effect (3 * (3 * hops env)) s s'" using quote_effect_refl by metis
  then show ?thesis by (cases "\<forall>i j. qe_location env i j = []") (simp_all only: quote_effect_def hops_def if_True if_False simp_thms, simp_all)
qed

theorem quote_attempts_bounded_witness:
  "\<exists>n \<le> 9. hs_sent (fst (handleGetQuote (\<lambda>_. 0) (ap_client quote_demo_app) ''http://q/'' (quote_demo_env 0 (Inl (Err ''down''))) ''A'' (ap_http quote_demo_app))) =
     replicate n None"
proof -
  have "NewApp (\<lambda>_. []) 0 \<noteq> None" by code_simp
  then have a: "NewApp (\<lambda>_. []) 0 = Some quote_demo_app" by (auto simp: quote_demo_app_def)
  have c: "contexts_ok (quote_demo_env 0 (Inl (Err ''down'')))" by (simp add: contexts_ok_def quote_demo_env_def quote_demo_http_def)
  have "hs_sent (ap_http quote_demo_app) = []" by code_simp
  moreover have "\<forall>i j. qe_location (quote_demo_env 0 (Inl (Err ''down''))) i j = []" by (simp add: quote_demo_env_def)
  ultimately show ?thesis
    using quote_attempts_bounded [OF a c prod.collapse [symmetric], of "\<lambda>_. 0" "''http://q/''" "''A''" "ap_http quote_demo_app"]
    by (auto simp del: replicate.simps)
qed

section \<open>Further handlers\<close>

text \<open>Without a service the quote is valid until the next business day, at the same time of the day.\<close>

lemma add_business_days_later: "z_instant t < z_instant (add_business_days t 1)"
  using day_len_pos by (simp add: add_business_days_def AddBusinessDays_1)

lemma simulated_quote:
  assumes "symbol \<noteq> []" "hs_circuitBreaker s = Some b" "cb_state b = StateClosed"
    and "qe_ctx1 env = None" "qe_ctx2 env = None" "qe_rctx env 0 = None" "zero_time \<le> qe_clock env 0"
  shows "snd (handleGetQuote ovf opts [] env symbol s) =
    Some (hu_OK (DQuote \<lparr>qu_Symbol = symbol, qu_Price = 285 / 2, qu_FetchedAt = time_In (qe_clock env 0) time_UTC,
      qu_ValidUntil = add_business_days (time_In (qe_clock env 0) time_UTC) 1\<rparr>))"
proof -
  let ?f = "FetchQuote ovf opts env [] symbol"
  let ?now = "time_In (qe_clock env 0) time_UTC"
  let ?q = "\<lparr>qu_Symbol = symbol, qu_Price = 285 / 2, qu_FetchedAt = ?now, qu_ValidUntil = add_business_days ?now 1\<rparr>"
  have r: "retry_state quote_retry (qe_rctx env) ?f (qe_rnd env) (qe_wctx env) s1 = (s1, Inr ?q)" for s1
    by (simp add: retry_state_def DoWithResult_def doInternal_def quote_retry_def retry_loop.simps [of _ _ _ _ _ _ _ _ 0] assms(6)
        FetchQuote_def Let_def)
  have nz: "\<not> z_IsZero (add_business_days ?now 1)"
    using assms(7) add_business_days_later [of ?now] by (simp add: z_IsZero_def time_In_def)
  have c: "cb_canExecute (qe_now1 env) b = (cb_initDefaults b, True, False, None)"
    using assms(3) by (simp add: cb_canExecute_def cb_initDefaults_def)
  have cl: "cb_state (cb_incRequests (cb_initDefaults b)) = StateClosed" using assms(3) by (simp add: cb_incRequests_def cb_initDefaults_def)
  show ?thesis
    using assms(1-5) nz
    by (simp add: handleGetQuote_def shared_Execute_def r c cb_admits_def cb_Execute_def cb_recordResult_def cl finish_quote_def)
qed

text \<open>A symbol is put into the URL as it is, so a symbol with an ampersand adds a parameter of its own.\<close>

lemma quote_symbol_not_escaped: "quote_URL ''http://q/'' ''A&symbol=B'' = ''http://q/quotes?symbol=A&symbol=B''"
  by code_simp

text \<open>
  The list and the single item disagree on the category of every second item, and an item that the list does not have is
  found.
\<close>

lemma item_by_id_disagrees:
  "hr_body (handleGetItemByID ''item-2'') = PData (DItem ((make_item 2)\<lparr>it_Category := ''standard''\<rparr>))"
  "it_Category (make_item 2) = ''premium''"
  "hr_status (handleGetItemByID ''item-none'') = 200"
  by code_simp+

text \<open>A chunk size close to the largest integer makes the handler of the items panic.\<close>

lemma items_chunk_size_panics:
  "render_items ((\<lambda>_. [])(''chunk_size'' := itoa (2 ^ 63 - 1))) [make_item 1, make_item 2] = None"
proof -
  have "itoa (2 ^ 63 - 1) \<noteq> []" using itoa_nat_hd by (simp add: itoa_def)
  moreover have "atoi (itoa (2 ^ 63 - 1)) = Some (2 ^ 63 - 1)" by (rule atoi_itoa) (simp add: in_int64_def)
  moreover have "Chunk [make_item 1, make_item 2] (2 ^ 63 - 1) = None" by (simp add: Chunk_def wrap64_def signed_divide_int_def)
  ultimately show ?thesis by (simp add: render_items_def filter_items_def Let_def)
qed

text \<open>
  A task is queued if and only if the pool is open and has room; the reply says which, and the pool counts it either
  way.
\<close>

lemma handleCreateTask_result:
  assumes "handleCreateTask (Inr payload) p = (p', r)"
  shows "(hr_status r = 201 \<longleftrightarrow> p_tasks p' = p_tasks p @ [payload]) \<and> (hr_status r = 201 \<or> hr_status r = 503 \<and> p_tasks p' = p_tasks p) \<and>
         (hr_status r = 201 \<longleftrightarrow> \<not> p_isClosed p \<and> \<not> p_closed p \<and> has_room p) \<and>
         p_submitted p' + p_dropped p' = p_submitted p + p_dropped p + 1"
  using assms
  by (auto simp: handleCreateTask_def submit_task_def has_room_def p_drop_def p_count_def p_send_def hu_Error_def hu_Created_def WriteJSON_def
      split: if_splits)

section \<open>The endpoint of the metrics\<close>

text \<open>
  The counters that the components increment are of 64 bits; the gauge of the breaker's state is set to the number of
  the state.
\<close>

fun state_number :: "State \<Rightarrow> int" where
  "state_number StateClosed = 0"
| "state_number StateOpen = 1"
| "state_number StateHalfOpen = 2"

definition collect :: "app \<Rightarrow> AppMetrics" where
  "collect a =
     (let m = ap_Metrics a; p = ap_Pool a; c = s_metrics (t_s (ap_Cache a)) in
      case hs_circuitBreaker (ap_http a) of
        None \<Rightarrow> m
      | Some b \<Rightarrow>
          m\<lparr>am_BreakerRequests := of_nat (mRequests (cb_metrics b)), am_BreakerFailures := of_nat (mFailures (cb_metrics b)),
            am_BreakerState := of_int (state_number (mState (cb_metrics b))), am_PoolSubmitted := of_nat (p_submitted p),
            am_PoolCompleted := of_nat (p_completed p), am_PoolDropped := of_nat (p_dropped p), am_PoolPanics := of_nat (p_panics p),
            am_PoolQueueSize := of_int (p_queueSize p), am_CacheHits := of_nat (c_hits c), am_CacheMisses := of_nat (c_misses c),
            am_CacheEvictions := of_nat (c_evictions c)\<rparr>)"

lemma counter_Inc_pow: "(counter_Inc ^^ n) 0 = of_nat n"
  by (induction n) (simp_all add: counter_Inc_def)

definition metric_head :: "string \<Rightarrow> string \<Rightarrow> string \<Rightarrow> string" where
  "metric_head name kind help = ''# HELP '' @ name @ '' '' @ help @ nl @ ''# TYPE '' @ name @ '' '' @ kind @ nl"

definition metric :: "string \<Rightarrow> string \<Rightarrow> string \<Rightarrow> string \<Rightarrow> string" where
  "metric name kind help v = metric_head name kind help @ name @ '' '' @ v @ nl @ nl"

definition http_metrics_text :: "AppMetrics \<Rightarrow> string" where
  "http_metrics_text m =
     metric_head ''http_requests_total'' ''counter'' ''Total number of HTTP requests processed'' @
     ''http_requests_total{status='' @ quoted ''2xx'' @ ''} '' @ u64 (am_HTTPResponses2xx m) @ nl @
     ''http_requests_total{status='' @ quoted ''4xx'' @ ''} '' @ u64 (am_HTTPResponses4xx m) @ nl @
     ''http_requests_total{status='' @ quoted ''5xx'' @ ''} '' @ u64 (am_HTTPResponses5xx m) @ nl @ nl @
     metric_head ''http_request_duration_ms_total'' ''counter'' ''Total duration of HTTP requests in milliseconds'' @
     ''http_request_duration_ms_total '' @ u64 (am_HTTPDurationSumMs m) @ nl"

definition app_metrics_text :: "AppMetrics \<Rightarrow> string" where
  "app_metrics_text m =
     metric ''app_circuit_breaker_requests_total'' ''counter'' ''Total number of requests through circuit breaker'' (u64 (am_BreakerRequests m)) @
     metric ''app_circuit_breaker_failures_total'' ''counter'' ''Total number of failed requests through circuit breaker'' (u64 (am_BreakerFailures m)) @
     metric ''app_circuit_breaker_state'' ''gauge'' ''Current state of circuit breaker (0=Closed, 1=HalfOpen, 2=Open)'' (i64 (am_BreakerState m)) @
     metric ''app_workerpool_tasks_submitted_total'' ''counter'' ''Total number of tasks submitted to worker pool'' (u64 (am_PoolSubmitted m)) @
     metric ''app_workerpool_tasks_completed_total'' ''counter'' ''Total number of tasks completed by worker pool'' (u64 (am_PoolCompleted m)) @
     metric ''app_workerpool_tasks_dropped_total'' ''counter'' ''Total number of tasks dropped by worker pool'' (u64 (am_PoolDropped m)) @
     metric ''app_workerpool_queue_size'' ''gauge'' ''Current queue size of worker pool'' (i64 (am_PoolQueueSize m)) @
     metric ''app_cache_hits_total'' ''counter'' ''Total number of cache hits'' (u64 (am_CacheHits m)) @
     metric ''app_cache_misses_total'' ''counter'' ''Total number of cache misses'' (u64 (am_CacheMisses m)) @
     metric ''app_cache_evictions_total'' ''counter'' ''Total number of cache evictions'' (u64 (am_CacheEvictions m)) @
     http_metrics_text m"

definition app_metrics_json :: "AppMetrics \<Rightarrow> (string \<times> (string \<times> int) list) list" where
  "app_metrics_json m =
     [(''http'',
       [(''requests_total'', uint (am_HTTPRequestsTotal m)), (''responses_2xx'', uint (am_HTTPResponses2xx m)),
        (''responses_4xx'', uint (am_HTTPResponses4xx m)), (''responses_5xx'', uint (am_HTTPResponses5xx m)),
        (''duration_ms_total'', uint (am_HTTPDurationSumMs m))]),
      (''circuit_breaker'',
       [(''requests'', uint (am_BreakerRequests m)), (''failures'', uint (am_BreakerFailures m)), (''state'', sint (am_BreakerState m))]),
      (''worker_pool'',
       [(''submitted'', uint (am_PoolSubmitted m)), (''completed'', uint (am_PoolCompleted m)), (''dropped'', uint (am_PoolDropped m)),
        (''queue_size'', sint (am_PoolQueueSize m))]),
      (''cache'', [(''hits'', uint (am_CacheHits m)), (''misses'', uint (am_CacheMisses m)), (''evictions'', uint (am_CacheEvictions m))])]"

definition handleMetrics :: "string \<Rightarrow> string \<Rightarrow> AppMetrics \<Rightarrow> (string \<times> (string \<times> int) list) list + string" where
  "handleMetrics accept format m =
     (if sublist ''text/plain'' accept \<or> sublist ''openmetrics'' accept \<or> format = ''prometheus'' then Inr (app_metrics_text m)
      else Inl (app_metrics_json m))"

text \<open>
  The text promises 1 for half-open and 2 for open; the gauge of an open breaker shows 1. After the circuit of the quotes
  has opened:
\<close>

lemma breaker_state_mislabelled:
  "sint (am_BreakerState (collect (quote_demo_app\<lparr>ap_http := quote_demo_open\<rparr>))) = 1"
proof -
  have "map_option (\<lambda>b. mState (cb_metrics b)) (hs_circuitBreaker quote_demo_open) = Some StateOpen" by code_simp
  then show ?thesis by (auto simp: collect_def Let_def)
qed

text \<open>
  The counters of the HTTP responses: the difference between the total and the sum of the classes, modulo \<open>2^64\<close>, is
  changed only by redirects and informational statuses, which are in the total only.
\<close>

definition unclassed :: "AppMetrics \<Rightarrow> 64 word" where
  "unclassed m = am_HTTPRequestsTotal m - (am_HTTPResponses2xx m + am_HTTPResponses4xx m + am_HTTPResponses5xx m)"

lemma count_http_classes:
  "unclassed (fold (\<lambda>(ms, st). count_http ovf ms st) rs m) =
     unclassed m + of_nat (length (filter (\<lambda>(ms, st). st < 200 \<or> 300 \<le> st \<and> st < 400) rs))"
proof (induction rs arbitrary: m)
  case (Cons r rs)
  obtain ms st where r: "r = (ms, st)" by fastforce
  have one: "counter_Add ovf 1 c = c + 1" for c by (simp add: counter_Add_def trunc_int_def)
  have "unclassed (count_http ovf ms st m) = unclassed m + (if st < 200 \<or> 300 \<le> st \<and> st < 400 then 1 else 0)"
    by (auto simp: unclassed_def count_http_def one Let_def)
  then show ?case using Cons.IH [of "count_http ovf ms st m"] by (simp add: r)
qed simp

end
