(* ===== verification/Load_Gen.thy ===== *)
theory Load_Gen
  imports Go_Strings
begin

text \<open>
  The load generator of the example service (\<open>src/examples/microservice/loadgen/main.go\<close>): the goroutine that paces the
  requests with a channel of tokens, the workers that send them and the atomic counters they share, as an
  interleaving of steps. The random numbers, the answers of the service and the moment at which the context ends
  are free. Flags, the period of the pacing,
  signals and the printed reports are left out.
\<close>

section \<open>Requests\<close>

record load_request =
  lq_Method :: string
  lq_URL :: string
  lq_Body :: "string option"
  lq_Headers :: "(string \<times> string) list"

text \<open>\<open>Intn i n\<close> is the \<open>i\<close>-th random number that is drawn for a request, below \<open>n\<close>; the first is the dice.\<close>

type_synonym draws = "nat \<Rightarrow> int \<Rightarrow> int"

definition simIP :: "draws \<Rightarrow> string" where
  "simIP Intn =
     (if Intn 0 100 = 99 then ''192.168.100.99''
      else ''10.0.'' @ itoa (Intn 1 8) @ ''.'' @ itoa (Intn 2 256))"

definition load_GET :: "string \<Rightarrow> load_request" where
  "load_GET url = \<lparr>lq_Method = ''GET'', lq_URL = url, lq_Body = None, lq_Headers = []\<rparr>"

definition taskPayload :: string where
  "taskPayload = ''{'' @ CHR 0x22 # ''payload'' @ CHR 0x22 # '':'' @ CHR 0x22 # ''mock background transaction'' @ CHR 0x22 # ''}''"

definition pick_request :: "string \<Rightarrow> draws \<Rightarrow> load_request" where
  "pick_request targetURL Intn =
     (let dice = Intn 0 100 in
      if dice < 60 then
        load_GET (targetURL @ ''/api/v1/items?page='' @ itoa (Intn 3 5 + 1) @ ''&limit='' @ itoa 10)
      else if dice < 75 then
        load_GET (targetURL @ ''/api/v1/quotes?symbol='' @ [''AAPL'', ''GOOG'', ''MSFT'', ''AMZN''] ! nat (Intn 3 4))
      else if dice < 85 then
        (if dice smod 2 = 0 then load_GET (targetURL @ ''/health/live'') else load_GET (targetURL @ ''/health/ready''))
      else if dice < 92 then load_GET (targetURL @ ''/api/v1/items/item-'' @ itoa (Intn 3 100 + 1))
      else if dice < 95 then load_GET (targetURL @ ''/api/v1/items/nonexistent-'' @ itoa (Intn 3 1000))
      else if dice < 98 then
        \<lparr>lq_Method = ''POST'', lq_URL = targetURL @ ''/api/v1/tasks'', lq_Body = Some taskPayload,
         lq_Headers = [(''Content-Type'', ''application/json'')]\<rparr>
      else load_GET (targetURL @ ''/api/v1/quotes?symbol=FAIL''))"

definition load_headers :: "draws \<Rightarrow> load_request \<Rightarrow> load_request" where
  "load_headers Intn req =
     req\<lparr>lq_Headers := lq_Headers req @ [(''X-Forwarded-For'', simIP Intn), (''User-Agent'', ''GoldenSignals-LoadGen/1.1'')]\<rparr>"

section \<open>Counters\<close>

record Stats =
  st_TotalRequests :: "64 word"
  st_Status200 :: "64 word"
  st_Status404 :: "64 word"
  st_Status429 :: "64 word"
  st_Status500 :: "64 word"
  st_Status503 :: "64 word"
  st_OtherStatus :: "64 word"
  st_Errors :: "64 word"

definition zero_Stats :: Stats where
  "zero_Stats = \<lparr>st_TotalRequests = 0, st_Status200 = 0, st_Status404 = 0, st_Status429 = 0, st_Status500 = 0,
     st_Status503 = 0, st_OtherStatus = 0, st_Errors = 0\<rparr>"

text \<open>How a request ends: it could not be made or sent, or it was answered.\<close>

datatype load_outcome = NoRequest | SendError | Answered int

definition count_status :: "int \<Rightarrow> Stats \<Rightarrow> Stats" where
  "count_status code s =
     (if code = 200 \<or> code = 201 then s\<lparr>st_Status200 := st_Status200 s + 1\<rparr>
      else if code = 404 then s\<lparr>st_Status404 := st_Status404 s + 1\<rparr>
      else if code = 429 then s\<lparr>st_Status429 := st_Status429 s + 1\<rparr>
      else if code = 500 then s\<lparr>st_Status500 := st_Status500 s + 1\<rparr>
      else if code = 503 then s\<lparr>st_Status503 := st_Status503 s + 1\<rparr>
      else s\<lparr>st_OtherStatus := st_OtherStatus s + 1\<rparr>)"

fun count_outcome :: "load_outcome \<Rightarrow> Stats \<Rightarrow> Stats" where
  "count_outcome NoRequest s = s\<lparr>st_Errors := st_Errors s + 1\<rparr>"
| "count_outcome SendError s = s\<lparr>st_Errors := st_Errors s + 1\<rparr>"
| "count_outcome (Answered code) s = count_status code s"

section \<open>The goroutines\<close>

text \<open>
  A worker waits for a token, has taken one, is sending a request that it has counted, or has returned. \<open>ld_ticks\<close>
  is the number of ticks of the pacing goroutine so far and \<open>ld_sent\<close> the requests handed to the client, oldest
  first; both only record what has happened.
\<close>

datatype load_worker = LWait | LToken | LSending | LGone

record load_state =
  ld_done :: bool
  ld_pacing :: bool
  ld_tokens :: nat
  ld_workers :: "load_worker list"
  ld_stats :: Stats
  ld_ticks :: nat
  ld_sent :: "load_request list"

definition tokenCap :: nat where
  "tokenCap = 10000"

definition load_start :: "nat \<Rightarrow> load_state" where
  "load_start concurrency =
     \<lparr>ld_done = False, ld_pacing = True, ld_tokens = 0, ld_workers = replicate concurrency LWait, ld_stats = zero_Stats,
      ld_ticks = 0, ld_sent = []\<rparr>"

text \<open>A tick: a token is put into the channel unless it is full.\<close>

definition load_tick :: "load_state \<Rightarrow> load_state" where
  "load_tick s =
     s\<lparr>ld_tokens := (if ld_tokens s < tokenCap then ld_tokens s + 1 else ld_tokens s), ld_ticks := ld_ticks s + 1\<rparr>"

definition count_total :: "Stats \<Rightarrow> Stats" where
  "count_total st = st\<lparr>st_TotalRequests := st_TotalRequests st + 1\<rparr>"

inductive load_step :: "string \<Rightarrow> load_state \<Rightarrow> load_state \<Rightarrow> bool" for targetURL where
  ctx_ends: "load_step targetURL s (s\<lparr>ld_done := True\<rparr>)"
| pace: "ld_pacing s \<Longrightarrow> load_step targetURL s (load_tick s)"
| pace_stop: "ld_pacing s \<Longrightarrow> ld_done s \<Longrightarrow> load_step targetURL s (s\<lparr>ld_pacing := False\<rparr>)"
| take_token: "k < length (ld_workers s) \<Longrightarrow> ld_workers s ! k = LWait \<Longrightarrow> 0 < ld_tokens s \<Longrightarrow>
    load_step targetURL s (s\<lparr>ld_tokens := ld_tokens s - 1, ld_workers := (ld_workers s)[k := LToken]\<rparr>)"
| count_request: "k < length (ld_workers s) \<Longrightarrow> ld_workers s ! k = LToken \<Longrightarrow>
    load_step targetURL s (s\<lparr>ld_stats := count_total (ld_stats s), ld_workers := (ld_workers s)[k := LSending]\<rparr>)"
| outcome: "k < length (ld_workers s) \<Longrightarrow> ld_workers s ! k = LSending \<Longrightarrow>
    load_step targetURL s
      (s\<lparr>ld_sent := (if out = NoRequest then ld_sent s else ld_sent s @ [load_headers Intn (pick_request targetURL Intn)]),
         ld_stats := count_outcome out (ld_stats s), ld_workers := (ld_workers s)[k := LWait]\<rparr>)"
| worker_stops: "k < length (ld_workers s) \<Longrightarrow> ld_workers s ! k = LWait \<Longrightarrow> ld_done s \<Longrightarrow>
    load_step targetURL s (s\<lparr>ld_workers := (ld_workers s)[k := LGone]\<rparr>)"

inductive_cases load_stepE: "load_step targetURL s s'"

section \<open>The counters are exact\<close>

definition counted :: "Stats \<Rightarrow> 64 word" where
  "counted st = st_Status200 st + st_Status404 st + st_Status429 st + st_Status500 st + st_Status503 st + st_OtherStatus st + st_Errors st"

definition busy :: "load_worker \<Rightarrow> load_state \<Rightarrow> nat" where
  "busy w s = length (filter (\<lambda>x. x = w) (ld_workers s))"

lemma length_filter_update:
  assumes "k < length xs"
  shows "length (filter P (xs[k := x])) + (if P (xs ! k) then 1 else 0) = length (filter P xs) + (if P x then 1 else 0)"
  using assms
proof (induction xs arbitrary: k)
  case (Cons a xs)
  show ?case
  proof (cases k)
    case (Suc k')
    with Cons.prems Cons.IH [of k'] show ?thesis by simp
  qed simp
qed simp

lemma busy_update:
  assumes "k < length (ld_workers s)" "ld_workers s' = (ld_workers s)[k := x]"
  shows "busy w s' + (if ld_workers s ! k = w then 1 else 0) = busy w s + (if x = w then 1 else 0)"
  using length_filter_update [OF assms(1), of "\<lambda>x. x = w" x] by (simp add: busy_def assms(2))

lemma busy_same: "ld_workers s' = ld_workers s \<Longrightarrow> busy w s' = busy w s"
  by (simp add: busy_def)

lemma counted_outcome:
  "counted (count_outcome out st) = counted st + 1" "st_TotalRequests (count_outcome out st) = st_TotalRequests st"
  by (cases out; simp add: count_status_def counted_def)+

lemma count_total_simps [simp]:
  "counted (count_total st) = counted st" "st_TotalRequests (count_total st) = st_TotalRequests st + 1"
  by (simp_all add: count_total_def counted_def)

text \<open>
  The invariant: the requests in progress are those that are counted in the total and in no class; a tick has given
  at most one token, and every token is in the channel, with a worker, or has become a request.
\<close>

definition load_inv :: "load_state \<Rightarrow> bool" where
  "load_inv s \<longleftrightarrow> ld_tokens s \<le> tokenCap \<and>
     st_TotalRequests (ld_stats s) = counted (ld_stats s) + of_nat (busy LSending s) \<and>
     (\<exists>ended. length (ld_sent s) \<le> ended \<and> counted (ld_stats s) = of_nat ended \<and>
        ended + busy LSending s + busy LToken s + ld_tokens s \<le> ld_ticks s)"

lemma load_inv_start: "load_inv (load_start n)"
  by (auto simp: load_inv_def load_start_def zero_Stats_def counted_def busy_def)

text \<open>A step keeps the invariant when it moves tokens, workers and counters in step.\<close>

lemma load_invI:
  assumes "load_inv s" and "ld_tokens s' \<le> tokenCap"
    and "st_TotalRequests (ld_stats s') + of_nat (busy LSending s) + counted (ld_stats s) =
         st_TotalRequests (ld_stats s) + of_nat (busy LSending s') + counted (ld_stats s')"
    and "counted (ld_stats s') = counted (ld_stats s) + of_nat d" and "length (ld_sent s') \<le> length (ld_sent s) + d"
    and "d + busy LSending s' + busy LToken s' + ld_tokens s' + ld_ticks s \<le> busy LSending s + busy LToken s + ld_tokens s + ld_ticks s'"
  shows "load_inv s'"
proof -
  obtain e where e: "length (ld_sent s) \<le> e" "counted (ld_stats s) = of_nat e"
    "e + busy LSending s + busy LToken s + ld_tokens s \<le> ld_ticks s"
    and t: "st_TotalRequests (ld_stats s) = counted (ld_stats s) + of_nat (busy LSending s)"
    using assms(1) by (auto simp: load_inv_def)
  have "st_TotalRequests (ld_stats s') = counted (ld_stats s') + of_nat (busy LSending s')"
    using assms(3) unfolding t by (simp add: algebra_simps)
  moreover have "length (ld_sent s') \<le> e + d" "counted (ld_stats s') = of_nat (e + d)"
    "e + d + busy LSending s' + busy LToken s' + ld_tokens s' \<le> ld_ticks s'"
    using e assms(4-6) by simp_all
  ultimately show ?thesis unfolding load_inv_def using assms(2) by blast
qed

lemma load_inv_step:
  assumes "load_inv s" "load_step url s s'"
  shows "load_inv s'"
proof -
  have cap: "ld_tokens s \<le> tokenCap" using assms(1) by (simp add: load_inv_def)
  from assms(2) show ?thesis
  proof (cases rule: load_step.cases)
    case ctx_ends
    then have "busy w s' = busy w s" for w by (intro busy_same) simp
    then show ?thesis using assms(1) ctx_ends by (simp add: load_inv_def)
  next
    case pace
    then have b: "busy w s' = busy w s" for w by (intro busy_same) (simp add: load_tick_def)
    show ?thesis
      by (rule load_invI [OF assms(1), of _ 0], unfold b) (use cap pace in \<open>simp_all add: load_tick_def\<close>)
  next
    case pace_stop
    then have "busy w s' = busy w s" for w by (intro busy_same) simp
    then show ?thesis using assms(1) pace_stop by (simp add: load_inv_def)
  next
    case (take_token k)
    then have b: "busy LSending s' = busy LSending s" "busy LToken s' = Suc (busy LToken s)"
      using busy_update [of k s s' LToken LSending] busy_update [of k s s' LToken LToken] by simp_all
    show ?thesis
      by (rule load_invI [OF assms(1), of _ 0], unfold b) (use cap take_token in \<open>simp_all\<close>)
  next
    case (count_request k)
    then have b: "busy LSending s' = Suc (busy LSending s)" "busy LToken s = Suc (busy LToken s')"
      using busy_update [of k s s' LSending LSending] busy_update [of k s s' LSending LToken] by simp_all
    show ?thesis
      by (rule load_invI [OF assms(1), of _ 0], unfold b) (use cap count_request in \<open>simp_all\<close>)
  next
    case (outcome k out Intn)
    then have b: "busy LSending s = Suc (busy LSending s')" "busy LToken s' = busy LToken s"
      using busy_update [of k s s' LWait LSending] busy_update [of k s s' LWait LToken] by simp_all
    show ?thesis
      by (rule load_invI [OF assms(1), of _ 1], unfold b) (use cap outcome in \<open>simp_all add: counted_outcome\<close>)
  next
    case (worker_stops k)
    then have "busy LSending s' = busy LSending s" "busy LToken s' = busy LToken s"
      using busy_update [of k s s' LGone LSending] busy_update [of k s s' LGone LToken] by simp_all
    then show ?thesis using assms(1) worker_stops by (simp add: load_inv_def)
  qed
qed

lemma load_inv_reachable: "(load_step url)\<^sup>*\<^sup>* (load_start n) s \<Longrightarrow> load_inv s"
  by (induction rule: rtranclp_induct) (auto intro: load_inv_start load_inv_step)

text \<open>
  The report of the load generator is exact. However its workers, its pacing and the end of its context interleave and
  whatever the service answers: the channel of tokens keeps its capacity; at most one request is sent for each tick;
  the requests counted in the total but in no class are, modulo \<open>2^64\<close>, those in progress; and when every worker has
  returned, as it has when the report is printed, the classes and the errors add up to the total.
\<close>

theorem load_report_exact:
  assumes "(load_step url)\<^sup>*\<^sup>* (load_start n) s"
  shows "ld_tokens s \<le> 10000 \<and> length (ld_sent s) \<le> ld_ticks s \<and>
     st_TotalRequests (ld_stats s) = counted (ld_stats s) + of_nat (busy LSending s) \<and>
     (set (ld_workers s) \<subseteq> {LGone} \<longrightarrow> st_TotalRequests (ld_stats s) = counted (ld_stats s))"
proof -
  have "load_inv s" using assms by (rule load_inv_reachable)
  moreover have "busy LSending s = 0" if "set (ld_workers s) \<subseteq> {LGone}"
    using that by (auto simp: busy_def filter_empty_conv)
  ultimately show ?thesis by (auto simp: load_inv_def tokenCap_def)
qed

text \<open>One worker, one request that is answered with 404, and the end.\<close>

definition load_at :: "bool \<Rightarrow> nat \<Rightarrow> load_worker \<Rightarrow> Stats \<Rightarrow> load_request list \<Rightarrow> load_state" where
  "load_at stopped tokens w st sent =
     \<lparr>ld_done = stopped, ld_pacing = True, ld_tokens = tokens, ld_workers = [w], ld_stats = st, ld_ticks = 1, ld_sent = sent\<rparr>"

definition load_demo_sent :: load_request where
  "load_demo_sent = load_headers (\<lambda>i n. n - 1) (pick_request ''u'' (\<lambda>i n. n - 1))"

definition load_demo :: load_state where
  "load_demo = load_at True 0 LGone (count_status 404 (count_total zero_Stats)) [load_demo_sent]"

lemma load_demo_steps:
  "load_step ''u'' (load_start 1) (load_at False 1 LWait zero_Stats [])"
  "load_step ''u'' (load_at False 1 LWait st []) (load_at False 0 LToken st [])"
  "load_step ''u'' (load_at False 0 LToken st []) (load_at False 0 LSending (count_total st) [])"
  "load_step ''u'' (load_at False 0 LSending st []) (load_at False 0 LWait (count_status 404 st) [load_demo_sent])"
  "load_step ''u'' (load_at False 0 LWait st sent) (load_at True 0 LWait st sent)"
  "load_step ''u'' (load_at True 0 LWait st sent) (load_at True 0 LGone st sent)"
proof -
  show "load_step ''u'' (load_start 1) (load_at False 1 LWait zero_Stats [])"
    using pace [of "load_start 1" "''u''"] by (simp add: load_tick_def load_start_def load_at_def tokenCap_def)
  show "load_step ''u'' (load_at False 1 LWait st []) (load_at False 0 LToken st [])"
    using take_token [of 0 "load_at False 1 LWait st []" "''u''"] by (simp add: load_at_def)
  show "load_step ''u'' (load_at False 0 LToken st []) (load_at False 0 LSending (count_total st) [])"
    using count_request [of 0 "load_at False 0 LToken st []" "''u''"] by (simp add: load_at_def)
  show "load_step ''u'' (load_at False 0 LSending st []) (load_at False 0 LWait (count_status 404 st) [load_demo_sent])"
    using outcome [of 0 "load_at False 0 LSending st []" "''u''" "Answered 404" "\<lambda>i n. n - 1"]
    unfolding load_demo_sent_def by (simp add: load_at_def)
  show "load_step ''u'' (load_at False 0 LWait st sent) (load_at True 0 LWait st sent)"
    using ctx_ends [of "''u''" "load_at False 0 LWait st sent"] by (simp add: load_at_def)
  show "load_step ''u'' (load_at True 0 LWait st sent) (load_at True 0 LGone st sent)"
    using worker_stops [of 0 "load_at True 0 LWait st sent" "''u''"] by (simp add: load_at_def)
qed

lemma load_demo_reachable: "(load_step ''u'')\<^sup>*\<^sup>* (load_start 1) load_demo"
  unfolding load_demo_def
  by (rule converse_rtranclp_into_rtranclp, rule load_demo_steps)+ (rule rtranclp.rtrancl_refl)

theorem load_report_exact_witness:
  "(load_step ''u'')\<^sup>*\<^sup>* (load_start 1) load_demo \<and> length (ld_sent load_demo) \<le> ld_ticks load_demo \<and>
   st_TotalRequests (ld_stats load_demo) = counted (ld_stats load_demo)"
proof -
  have "set (ld_workers load_demo) \<subseteq> {LGone}" by (simp add: load_demo_def load_at_def)
  with load_report_exact [OF load_demo_reachable] load_demo_reachable show ?thesis by blast
qed

text \<open>The mix of the requests: how many of the hundred values of the dice lead to each kind.\<close>

definition load_kind :: "int \<Rightarrow> string" where
  "load_kind dice = lq_URL (pick_request [] (\<lambda>i n. if i = 0 then dice else 0))"

lemma load_mix:
  "map (\<lambda>p. length (filter (\<lambda>d. load_kind d = p) [0 .. 99]))
     [''/api/v1/items?page=1&limit=10'', ''/api/v1/quotes?symbol=AAPL'', ''/health/live'', ''/health/ready'', ''/api/v1/items/item-1'',
      ''/api/v1/items/nonexistent-0'', ''/api/v1/tasks'', ''/api/v1/quotes?symbol=FAIL''] = [60, 15, 5, 5, 7, 3, 3, 2]"
  by code_simp

text \<open>The addresses start at \<open>10.0.0.0\<close>, not at \<open>10.0.0.1\<close>.\<close>

lemma simIP_zero: "simIP (\<lambda>i n. 0) = ''10.0.0.0''"
  by code_simp

end
