(* ===== verification/Tracing.thy ===== *)
theory Tracing
  imports Gin_Handlers
begin

text \<open>
  Tracing: the providers and options of \<open>src/telemetry/telemetry.go\<close>, the middleware of \<open>src/telemetry/middleware.go\<close>
  and the adapter \<open>Telemetry\<close> of \<open>src/ginmw/telemetry.go\<close>. OpenTelemetry is not part of the repository: providers,
  tracers, trace contexts and propagators are parameters (the types \<open>'p\<close>, \<open>'t\<close> and \<open>'c\<close>, the functions of
  \<open>propagator\<close> and \<open>otel\<close>), and a span is the list of the calls made on it, oldest first. The attribute keys of
  the package \<open>semconv\<close> are constructors. What a deferred call does stands after what the handler does, a
  panic included.
\<close>

section \<open>Providers\<close>

record tel_Config =
  tc_ServiceName :: string
  tc_ServiceVersion :: string
  tc_Environment :: string
  tc_SampleRate :: rat

definition WithServiceName :: "string \<Rightarrow> tel_Config \<Rightarrow> tel_Config" where
  "WithServiceName name c = c\<lparr>tc_ServiceName := name\<rparr>"

definition WithServiceVersion :: "string \<Rightarrow> tel_Config \<Rightarrow> tel_Config" where
  "WithServiceVersion version c = c\<lparr>tc_ServiceVersion := version\<rparr>"

definition WithEnvironment :: "string \<Rightarrow> tel_Config \<Rightarrow> tel_Config" where
  "WithEnvironment env c = c\<lparr>tc_Environment := env\<rparr>"

definition WithSampleRate :: "rat \<Rightarrow> tel_Config \<Rightarrow> tel_Config" where
  "WithSampleRate rate c = c\<lparr>tc_SampleRate := rate\<rparr>"

text \<open>The headers carry a trace context in and out.\<close>

record 'c propagator =
  pg_Extract :: "'c \<Rightarrow> headers \<Rightarrow> 'c"
  pg_Inject :: "'c \<Rightarrow> headers \<Rightarrow> headers"

text \<open>The registry of the process.\<close>

record ('p, 'c) otel =
  ot_provider :: 'p
  ot_propagator :: "'c propagator"

definition InitProvider ::
  "('c propagator list \<Rightarrow> 'c propagator) \<Rightarrow> 'c propagator \<Rightarrow> 'c propagator \<Rightarrow> 'p \<Rightarrow> ('p, 'c) otel \<Rightarrow> ('p, 'c) otel" where
  "InitProvider composite TraceContext Baggage tp g =
     (let g = g\<lparr>ot_provider := tp\<rparr> in g\<lparr>ot_propagator := composite [TraceContext, Baggage]\<rparr>)"

record 'p TracerProvider =
  tp_provider :: "'p option"
  tp_cfg :: tel_Config

definition tp_Config :: "'p TracerProvider option \<Rightarrow> tel_Config" where
  "tp_Config tp =
     (case tp of
        None \<Rightarrow> \<lparr>tc_ServiceName = [], tc_ServiceVersion = [], tc_Environment = [], tc_SampleRate = 0\<rparr>
      | Some tp \<Rightarrow> tp_cfg tp)"

definition tp_Tracer :: "('p \<Rightarrow> string \<Rightarrow> 't) \<Rightarrow> ('p, 'c) otel \<Rightarrow> 'p TracerProvider option \<Rightarrow> string \<Rightarrow> 't" where
  "tp_Tracer tracer g tp name =
     (case tp of
        Some tp \<Rightarrow> (case tp_provider tp of Some p \<Rightarrow> tracer p name | None \<Rightarrow> tracer (ot_provider g) name)
      | None \<Rightarrow> tracer (ot_provider g) name)"

definition tp_Shutdown :: "'p TracerProvider option \<Rightarrow> string option" where
  "tp_Shutdown tp = None"

text \<open>\<open>noop\<close> is the provider whose spans record nothing. The provider, what its clean-up returns, and the error.\<close>

definition NewTracerProvider ::
  "'p \<Rightarrow> (tel_Config \<Rightarrow> tel_Config) list \<Rightarrow> 'p TracerProvider \<times> string option \<times> string option" where
  "NewTracerProvider noop opts =
     (let cfg = \<lparr>tc_ServiceName = ''unknown-service'', tc_ServiceVersion = [], tc_Environment = [], tc_SampleRate = 0\<rparr>;
          cfg = fold (\<lambda>opt c. opt c) opts cfg;
          cfg = (if tc_ServiceName cfg = [] then cfg\<lparr>tc_ServiceName := ''unknown-service''\<rparr> else cfg);
          tp = \<lparr>tp_provider = Some noop, tp_cfg = cfg\<rparr>
      in (tp, tp_Shutdown (Some tp), None))"

section \<open>Spans\<close>

datatype span_attr =
    HTTPRequestMethod string
  | URLPath string
  | HTTPResponseStatusCode int
  | AttrString string string
  | AttrInt string int

datatype span_kind = KindUnspecified | KindServer

record span_start =
  sp_name :: string
  sp_kind :: span_kind
  sp_attrs :: "span_attr list"

datatype span_code = CodeOk | CodeError

datatype span_error = SpanErr derror | SpanErrorf string

datatype span_call =
    SetAttributes "span_attr list"
  | SetStatus span_code string
  | RecordError span_error
  | SpanEnd

text \<open>\<open>start\<close> puts a new span of the tracer into the context.\<close>

definition StartSpan ::
  "('p \<Rightarrow> string \<Rightarrow> 't) \<Rightarrow> ('t \<Rightarrow> 'c \<Rightarrow> span_start \<Rightarrow> 'c) \<Rightarrow> ('p, 'c) otel \<Rightarrow> 'c \<Rightarrow> string \<Rightarrow> string \<Rightarrow> 'c" where
  "StartSpan tracer start g ctx tracerName spanName =
     start (tracer (ot_provider g) tracerName) ctx \<lparr>sp_name = spanName, sp_kind = KindUnspecified, sp_attrs = []\<rparr>"

text \<open>\<open>http.StatusText\<close>, of the standard library.\<close>

definition StatusText :: "int \<Rightarrow> string" where
  "StatusText code =
     (case map_of
        [(100, ''Continue''), (101, ''Switching Protocols''), (102, ''Processing''), (103, ''Early Hints''),
         (200, ''OK''), (201, ''Created''), (202, ''Accepted''), (203, ''Non-Authoritative Information''),
         (204, ''No Content''), (205, ''Reset Content''), (206, ''Partial Content''), (207, ''Multi-Status''),
         (208, ''Already Reported''), (226, ''IM Used''),
         (300, ''Multiple Choices''), (301, ''Moved Permanently''), (302, ''Found''), (303, ''See Other''),
         (304, ''Not Modified''), (305, ''Use Proxy''), (307, ''Temporary Redirect''), (308, ''Permanent Redirect''),
         (400, ''Bad Request''), (401, ''Unauthorized''), (402, ''Payment Required''), (403, ''Forbidden''),
         (404, ''Not Found''), (405, ''Method Not Allowed''), (406, ''Not Acceptable''),
         (407, ''Proxy Authentication Required''), (408, ''Request Timeout''), (409, ''Conflict''), (410, ''Gone''),
         (411, ''Length Required''), (412, ''Precondition Failed''), (413, ''Request Entity Too Large''),
         (414, ''Request URI Too Long''), (415, ''Unsupported Media Type''),
         (416, ''Requested Range Not Satisfiable''), (417, ''Expectation Failed''), (418, ''I'' @ CHR 0x27 # ''m a teapot''),
         (421, ''Misdirected Request''), (422, ''Unprocessable Entity''), (423, ''Locked''),
         (424, ''Failed Dependency''), (425, ''Too Early''), (426, ''Upgrade Required''),
         (428, ''Precondition Required''), (429, ''Too Many Requests''),
         (431, ''Request Header Fields Too Large''), (451, ''Unavailable For Legal Reasons''),
         (500, ''Internal Server Error''), (501, ''Not Implemented''), (502, ''Bad Gateway''),
         (503, ''Service Unavailable''), (504, ''Gateway Timeout''), (505, ''HTTP Version Not Supported''),
         (506, ''Variant Also Negotiates''), (507, ''Insufficient Storage''), (508, ''Loop Detected''),
         (510, ''Not Extended''), (511, ''Network Authentication Required'')] code of
        Some s \<Rightarrow> s | None \<Rightarrow> [])"

section \<open>The middleware for \<open>net/http\<close>\<close>

type_synonym 'c tel_options = "'c propagator"

definition WithPropagator :: "'c propagator option \<Rightarrow> 'c tel_options \<Rightarrow> 'c tel_options" where
  "WithPropagator p o' = (case p of Some p \<Rightarrow> p | None \<Rightarrow> o')"

text \<open>The recorder forwards \<open>Write\<close> to the connection.\<close>

record status_rec =
  tr_conn :: http_conn
  tr_statusCode :: int

definition tr_WriteHeader :: "int \<Rightarrow> status_rec \<Rightarrow> status_rec" where
  "tr_WriteHeader code r = (let r = r\<lparr>tr_statusCode := code\<rparr> in r\<lparr>tr_conn := net_WriteHeader code (tr_conn r)\<rparr>)"

fun tr_ops :: "write_op list \<Rightarrow> status_rec \<Rightarrow> status_rec" where
  "tr_ops [] r = r"
| "tr_ops (WriteHeader code # ops) r = tr_ops ops (tr_WriteHeader code r)"
| "tr_ops (Write n # ops) r = tr_ops ops (r\<lparr>tr_conn := net_Write n (tr_conn r)\<rparr>)"

text \<open>The connection, the value of a panic that goes on, how the span was started, and the calls on it.\<close>

record traced =
  td_conn :: http_conn
  td_panic :: "string option"
  td_start :: span_start
  td_calls :: "span_call list"

definition tel_Middleware ::
  "('p \<Rightarrow> string \<Rightarrow> 't) \<Rightarrow> ('t \<Rightarrow> 'c \<Rightarrow> span_start \<Rightarrow> 'c) \<Rightarrow> ('p, 'c) otel \<Rightarrow> string \<Rightarrow> ('c tel_options \<Rightarrow> 'c tel_options) list \<Rightarrow>
   ('c \<Rightarrow> web_handler) \<Rightarrow> 'c \<Rightarrow> web_request \<Rightarrow> http_conn \<Rightarrow> traced" where
  "tel_Middleware tracer start g tracerName opts handler ctx r w =
     (let cfg = fold (\<lambda>opt c. opt c) opts (ot_propagator g);
          ctx = pg_Extract cfg ctx (wr_Header r);
          st = \<lparr>sp_name = wr_Method r @ '' '' @ wr_Path r, sp_kind = KindServer,
                sp_attrs = [HTTPRequestMethod (wr_Method r), URLPath (wr_Path r),
                            AttrString ''http.user_agent'' (get_header ''User-Agent'' r)]\<rparr>;
          ctx = start (tracer (ot_provider g) tracerName) ctx st;
          (ops, panic) = handler ctx r;
          rec = tr_ops ops \<lparr>tr_conn = w, tr_statusCode = 200\<rparr>;
          calls = (if panic \<noteq> None then []
                   else [SetAttributes [HTTPResponseStatusCode (tr_statusCode rec)],
                         if tr_statusCode rec \<ge> 500 then SetStatus CodeError (StatusText (tr_statusCode rec))
                         else SetStatus CodeOk []])
      in \<lparr>td_conn = tr_conn rec, td_panic = panic, td_start = st, td_calls = calls @ [SpanEnd]\<rparr>)"

section \<open>The adapters for Gin\<close>

datatype panic_value = PanicErr derror | PanicVal string

text \<open>\<open>%v\<close> of a value: an error prints its text.\<close>

fun panic_text :: "panic_value \<Rightarrow> string" where
  "panic_text (PanicErr e) = err_text e"
| "panic_text (PanicVal s) = s"

text \<open>What is recorded of it: an error itself, any other value in an error made for it.\<close>

fun panic_error :: "panic_value \<Rightarrow> span_error" where
  "panic_error (PanicErr e) = SpanErr e"
| "panic_error (PanicVal s) = SpanErrorf (''panic: '' @ s)"

text \<open>
  The handlers that follow: the context they leave, the errors attached to it, the value they panicked with, and the
  calls they made on the span of the request's context.
\<close>

record gin_out =
  go_ctx :: gin_req
  go_errors :: "derror list"
  go_panic :: "panic_value option"
  go_calls :: "span_call list"

type_synonym 'c gin_next = "'c \<Rightarrow> gin_req \<Rightarrow> gin_out"

definition recovery_calls :: "string \<Rightarrow> panic_value \<Rightarrow> span_call list" where
  "recovery_calls route r =
     [SetStatus CodeError (''panic: '' @ panic_text r), RecordError (panic_error r),
      SetAttributes [AttrString ''http.route'' route, AttrInt ''http.status_code'' 500]]"

definition Recovery_mw :: "'c gin_next \<Rightarrow> 'c gin_next" where
  "Recovery_mw nxt ctx c =
     (let o' = nxt ctx c in
      case go_panic o' of
        None \<Rightarrow> o'
      | Some r \<Rightarrow>
          o'\<lparr>go_ctx := fst (gin_Recovery (go_ctx o') (Some (panic_text r))), go_panic := None,
             go_calls := go_calls o' @ recovery_calls (RouteLabel (Some (go_ctx o'))) r\<rparr>)"

text \<open>The reply of the error handler, if there is one, sets the status of the writer.\<close>

definition error_handled :: "derror list \<Rightarrow> gin_req \<Rightarrow> gin_req" where
  "error_handled errs c =
     (case snd (ErrorHandler False errs c) :: string http_reply option of
        Some r \<Rightarrow> c\<lparr>gr_writer := \<lparr>gw_status = hr_status r, gw_written = True\<rparr>\<rparr>
      | None \<Rightarrow> c)"

definition ErrorHandler_mw :: "'c gin_next \<Rightarrow> 'c gin_next" where
  "ErrorHandler_mw nxt ctx c =
     (let o' = nxt ctx c; errs = go_errors o' in
      if go_panic o' \<noteq> None \<or> length errs = 0 then o'
      else
        let c1 = error_handled errs (go_ctx o') in
        o'\<lparr>go_ctx := c1,
           go_calls := go_calls o' @ [SetStatus CodeError (err_text (last errs))] @ map (\<lambda>e. RecordError (SpanErr e)) errs
             @ [SetAttributes [AttrString ''http.route'' (RouteLabel (Some (go_ctx o')))]]
             @ [SetAttributes [AttrInt ''http.status_code'' (gw_status (gr_writer c1))]]\<rparr>)"

text \<open>
  The tracing library: the tracer of a provider, the start of a span, whether the span of a context has a valid
  span context, the W3C propagator; and how Gin prints the errors of a context.
\<close>

record ('p, 't, 'c) tracing =
  tx_tracer :: "'p \<Rightarrow> string \<Rightarrow> 't"
  tx_start :: "'t \<Rightarrow> 'c \<Rightarrow> span_start \<Rightarrow> 'c"
  tx_valid :: "'c \<Rightarrow> bool"
  tx_TraceContext :: "'c propagator"
  tx_errors_String :: "derror list \<Rightarrow> string"

text \<open>What happens before the handlers: how the span is started, the trace context and the request they get.\<close>

definition gin_enter ::
  "('p, 't, 'c) tracing \<Rightarrow> ('p, 'c) otel \<Rightarrow> string \<Rightarrow> 'c \<Rightarrow> gin_req \<Rightarrow> span_start \<times> 'c \<times> gin_req" where
  "gin_enter tx g serviceName ctx c =
     (let ctx = pg_Extract (ot_propagator g) ctx (wr_Header (gr_request c));
          st = \<lparr>sp_name = RouteLabel (Some c), sp_kind = KindUnspecified, sp_attrs = []\<rparr>;
          ctx = tx_start tx (tx_tracer tx (ot_provider g) serviceName) ctx st;
          c = c\<lparr>gr_headers := pg_Inject (ot_propagator g) ctx (gr_headers c)\<rparr>;
          c = (if tx_valid tx ctx then c\<lparr>gr_headers := pg_Inject (tx_TraceContext tx) ctx (gr_headers c)\<rparr> else c)
      in (st, ctx, c))"

text \<open>What happens after them: the deferred recovery for a panic, the rest of the function otherwise.\<close>

definition gin_exit_calls :: "(derror list \<Rightarrow> string) \<Rightarrow> gin_out \<Rightarrow> span_call list" where
  "gin_exit_calls errors_String o' =
     (case go_panic o' of
        Some r \<Rightarrow> [SetStatus CodeError (''panic: '' @ panic_text r), RecordError (panic_error r)]
      | None \<Rightarrow>
          (let status = gw_status (gr_writer (go_ctx o')); errs = go_errors o' in
           SetAttributes [AttrInt ''http.status_code'' status] #
           (if length errs > 0 then SetStatus CodeError (errors_String errs) # map (\<lambda>e. RecordError (SpanErr e)) errs
            else if status \<ge> 500 then
              [SetStatus CodeError (''HTTP '' @ itoa status),
               RecordError (SpanErrorf (''HTTP '' @ itoa status @ '': '' @ StatusText status))]
            else [])))"

text \<open>The span that was started, and what the adapter leaves, with all calls on that span.\<close>

definition gin_Telemetry ::
  "('p, 't, 'c) tracing \<Rightarrow> ('p, 'c) otel \<Rightarrow> string \<Rightarrow> 'c gin_next \<Rightarrow> 'c \<Rightarrow> gin_req \<Rightarrow> span_start \<times> gin_out" where
  "gin_Telemetry tx g serviceName nxt ctx c =
     (let route = RouteLabel (Some c);
          (st, ctx1, c1) = gin_enter tx g serviceName ctx c;
          calls = [SetAttributes [AttrString ''http.route'' route, AttrString ''http.method'' (wr_Method (gr_request c))]];
          o' = nxt ctx1 c1
      in (st, o'\<lparr>go_calls := calls @ go_calls o' @ gin_exit_calls (tx_errors_String tx) o' @ [SpanEnd]\<rparr>))"

text \<open>The chain of \<open>src/ginmw/README.md\<close>: tracing, then the recovery, then the error handler.\<close>

definition traced_chain ::
  "('p, 't, 'c) tracing \<Rightarrow> ('p, 'c) otel \<Rightarrow> string \<Rightarrow> 'c gin_next \<Rightarrow> 'c \<Rightarrow> gin_req \<Rightarrow> span_start \<times> gin_out" where
  "traced_chain tx g serviceName h = gin_Telemetry tx g serviceName (Recovery_mw (ErrorHandler_mw h))"

text \<open>
  The order of \<open>src/ginmw/doc.go\<close> and of the example service: the recovery is outside. The request's context holds the span of
  the adapter by then, so that the recovery calls a span that has ended.
\<close>

definition recovery_outside ::
  "('p, 't, 'c) tracing \<Rightarrow> ('p, 'c) otel \<Rightarrow> string \<Rightarrow> 'c gin_next \<Rightarrow> 'c \<Rightarrow> gin_req \<Rightarrow> gin_out" where
  "recovery_outside tx g serviceName h = Recovery_mw (\<lambda>ctx c. snd (gin_Telemetry tx g serviceName h ctx c))"

section \<open>Spans are ended\<close>

text \<open>
  What a span shows: the calls before it is ended count. A status that was set to \<open>CodeOk\<close> is final; otherwise
  \<open>CodeError\<close> replaces what was there. \<open>marked\<close> and \<open>okayed\<close> are whether a call sets the one or the other.
\<close>

definition until_end :: "span_call list \<Rightarrow> span_call list" where
  "until_end calls = takeWhile (\<lambda>x. x \<noteq> SpanEnd) calls"

fun set_status :: "span_call \<Rightarrow> span_code option \<Rightarrow> span_code option" where
  "set_status (SetStatus CodeOk d) cur = Some CodeOk"
| "set_status (SetStatus CodeError d) cur = (if cur = Some CodeOk then cur else Some CodeError)"
| "set_status _ cur = cur"

definition span_status :: "span_call list \<Rightarrow> span_code option" where
  "span_status calls = fold set_status (until_end calls) None"

definition marked :: "span_call list \<Rightarrow> bool" where
  "marked calls \<longleftrightarrow> list_ex (\<lambda>x. case x of SetStatus CodeError _ \<Rightarrow> True | _ \<Rightarrow> False) calls"

definition okayed :: "span_call list \<Rightarrow> bool" where
  "okayed calls \<longleftrightarrow> list_ex (\<lambda>x. case x of SetStatus CodeOk _ \<Rightarrow> True | _ \<Rightarrow> False) calls"

definition span_errors :: "span_call list \<Rightarrow> span_error list" where
  "span_errors calls = List.map_filter (\<lambda>x. case x of RecordError e \<Rightarrow> Some e | _ \<Rightarrow> None) calls"

text \<open>Ended once, after every other call.\<close>

definition ended_last :: "span_call list \<Rightarrow> bool" where
  "ended_last calls \<longleftrightarrow> calls \<noteq> [] \<and> last calls = SpanEnd \<and> SpanEnd \<notin> set (butlast calls)"

lemma ended_last_append [simp]: "ended_last (calls @ [SpanEnd]) \<longleftrightarrow> SpanEnd \<notin> set calls"
  by (simp add: ended_last_def)

lemma marked_simps [simp]:
  "\<not> marked []"
  "marked (SetStatus CodeError d # calls)"
  "marked (SetStatus CodeOk d # calls) = marked calls"
  "marked (SetAttributes as # calls) = marked calls"
  "marked (RecordError e # calls) = marked calls"
  "marked (SpanEnd # calls) = marked calls"
  by (simp_all add: marked_def)

lemma okayed_simps [simp]:
  "\<not> okayed []"
  "okayed (SetStatus CodeOk d # calls)"
  "okayed (SetStatus CodeError d # calls) = okayed calls"
  "okayed (SetAttributes as # calls) = okayed calls"
  "okayed (RecordError e # calls) = okayed calls"
  "okayed (SpanEnd # calls) = okayed calls"
  by (simp_all add: okayed_def)

lemma okayed_append [simp]: "okayed (xs @ ys) \<longleftrightarrow> okayed xs \<or> okayed ys"
  by (simp add: okayed_def list_ex_iff) blast

lemma fold_set_status:
  "fold set_status calls cur =
     (if cur = Some CodeOk \<or> okayed calls then Some CodeOk else if marked calls then Some CodeError else cur)"
proof (induction calls arbitrary: cur)
  case (Cons x calls)
  show ?case by (cases "(x, cur)" rule: set_status.cases) (simp_all add: Cons)
qed simp

lemma until_end_end: "SpanEnd \<notin> set calls \<Longrightarrow> until_end (calls @ SpanEnd # rest) = calls"
  by (induction calls) (auto simp: until_end_def)

lemma until_end_id: "SpanEnd \<notin> set calls \<Longrightarrow> until_end calls = calls"
  by (induction calls) (auto simp: until_end_def)

lemma span_status_eq:
  "span_status calls = (if okayed (until_end calls) then Some CodeOk else if marked (until_end calls) then Some CodeError else None)"
  by (simp add: span_status_def fold_set_status)

lemma marked_append [simp]: "marked (xs @ ys) \<longleftrightarrow> marked xs \<or> marked ys"
  by (simp add: marked_def list_ex_iff) blast

lemma span_errors_simps [simp]:
  "span_errors [] = []"
  "span_errors (SetStatus k d # calls) = span_errors calls"
  "span_errors (SetAttributes as # calls) = span_errors calls"
  "span_errors (RecordError e # calls) = e # span_errors calls"
  "span_errors (SpanEnd # calls) = span_errors calls"
  by (simp_all add: span_errors_def List.map_filter_simps)

lemma span_errors_append [simp]: "span_errors (xs @ ys) = span_errors xs @ span_errors ys"
  by (induction xs) (simp_all add: span_errors_def List.map_filter_simps split: option.splits)

lemma span_errors_records [simp]: "span_errors (map (\<lambda>e. RecordError (SpanErr e)) errs) = map SpanErr errs"
  by (induction errs) simp_all

lemma gin_exit_marked:
  "marked (gin_exit_calls f o') \<longleftrightarrow>
     go_panic o' \<noteq> None \<or> go_errors o' \<noteq> [] \<or> gw_status (gr_writer (go_ctx o')) \<ge> 500"
  by (auto simp: gin_exit_calls_def Let_def split: option.splits)

lemma not_okayed_records [simp]: "\<not> okayed (map (\<lambda>e. RecordError (SpanErr e)) errs)"
  by (induction errs) simp_all

lemma gin_exit_not_okayed: "\<not> okayed (gin_exit_calls f o')"
  by (auto simp: gin_exit_calls_def Let_def split: option.splits)

lemma gin_exit_not_ended: "SpanEnd \<notin> set (gin_exit_calls f o')"
  by (auto simp: gin_exit_calls_def Let_def split: option.splits)

lemma gin_exit_errors: "go_panic o' = None \<Longrightarrow> SpanErr ` set (go_errors o') \<subseteq> set (span_errors (gin_exit_calls f o'))"
  by (simp add: gin_exit_calls_def Let_def)

lemma tr_ops_writes: "writes_only ops \<Longrightarrow> tr_statusCode (tr_ops ops r) = tr_statusCode r"
  by (induction ops r rule: tr_ops.induct) simp_all

lemma tr_ops_sent: "writes_only ops \<Longrightarrow> sent_status (tr_conn (tr_ops ops r)) = sent_status (tr_conn r)"
  by (induction ops r rule: tr_ops.induct) (simp_all add: net_Write_def sent_status_def split: option.splits)

lemma tr_ops_status_first:
  assumes "status_first ops" "hc_status c = None"
  shows "tr_statusCode (tr_ops ops \<lparr>tr_conn = c, tr_statusCode = 200\<rparr>)
       = sent_status (tr_conn (tr_ops ops \<lparr>tr_conn = c, tr_statusCode = 200\<rparr>))"
proof (cases "writes_only ops")
  case True
  with assms(2) show ?thesis by (simp add: tr_ops_writes tr_ops_sent) (simp add: sent_status_def)
next
  case False
  then obtain code rest where "ops = WriteHeader code # rest" "200 \<le> code" "writes_only rest"
    using assms(1) by (cases ops rule: status_first.cases) auto
  with assms(2) show ?thesis
    by (simp add: tr_ops_writes tr_ops_sent tr_WriteHeader_def) (simp add: sent_status_def net_WriteHeader_def)
qed

text \<open>What the span of a request shows after its handlers, given their own calls on it.\<close>

definition outcome_status :: "gin_out \<Rightarrow> span_code option" where
  "outcome_status o' =
     (if span_status (go_calls o') = Some CodeOk then Some CodeOk
      else if span_status (go_calls o') = Some CodeError \<or> go_panic o' \<noteq> None \<or> go_errors o' \<noteq> [] \<or> gw_status (gr_writer (go_ctx o')) \<ge> 500
      then Some CodeError else None)"

lemma outcome_status_eq:
  "SpanEnd \<notin> set (go_calls o') \<Longrightarrow> outcome_status o' =
     (if okayed (go_calls o') then Some CodeOk
      else if marked (go_calls o') \<or> go_panic o' \<noteq> None \<or> go_errors o' \<noteq> [] \<or> gw_status (gr_writer (go_ctx o')) \<ge> 500
      then Some CodeError else None)"
  by (simp add: outcome_status_def span_status_eq until_end_id)

lemma gin_Telemetry_span:
  assumes "gin_enter tx g serviceName ctx c = (st, ctx1, c1)" "nxt ctx1 c1 = o'" "SpanEnd \<notin> set (go_calls o')"
    "gin_Telemetry tx g serviceName nxt ctx c = (st', t)"
  shows "go_ctx t = go_ctx o'" "go_errors t = go_errors o'" "go_panic t = go_panic o'"
    "\<exists>calls. go_calls t = calls @ [SpanEnd] \<and> SpanEnd \<notin> set calls \<and>
       (okayed calls \<longleftrightarrow> okayed (go_calls o')) \<and>
       (marked calls \<longleftrightarrow> marked (go_calls o') \<or> go_panic o' \<noteq> None \<or> go_errors o' \<noteq> [] \<or> gw_status (gr_writer (go_ctx o')) \<ge> 500) \<and>
       span_errors calls = span_errors (go_calls o') @ span_errors (gin_exit_calls (tx_errors_String tx) o')"
proof -
  let ?calls = "[SetAttributes [AttrString ''http.route'' (RouteLabel (Some c)), AttrString ''http.method'' (wr_Method (gr_request c))]]
      @ go_calls o' @ gin_exit_calls (tx_errors_String tx) o'"
  have t: "t = o'\<lparr>go_calls := ?calls @ [SpanEnd]\<rparr>" using assms by (simp_all add: gin_Telemetry_def Let_def)
  then show "go_ctx t = go_ctx o'" "go_errors t = go_errors o'" "go_panic t = go_panic o'" by simp_all
  show "\<exists>calls. go_calls t = calls @ [SpanEnd] \<and> SpanEnd \<notin> set calls \<and>
       (okayed calls \<longleftrightarrow> okayed (go_calls o')) \<and>
       (marked calls \<longleftrightarrow> marked (go_calls o') \<or> go_panic o' \<noteq> None \<or> go_errors o' \<noteq> [] \<or> gw_status (gr_writer (go_ctx o')) \<ge> 500) \<and>
       span_errors calls = span_errors (go_calls o') @ span_errors (gin_exit_calls (tx_errors_String tx) o')"
    using assms(3) gin_exit_not_ended [of "tx_errors_String tx" o']
    by (intro exI [of _ ?calls]) (simp add: t gin_exit_marked gin_exit_not_okayed)
qed

lemma error_handled_simps:
  "errs \<noteq> [] \<Longrightarrow> \<not> gw_written (gr_writer c) \<Longrightarrow>
     gr_writer (error_handled errs c) = \<lparr>gw_status = hr_status (ErrorFromDomain (last errs) :: string http_reply), gw_written = True\<rparr>"
  "errs \<noteq> [] \<Longrightarrow> gw_written (gr_writer c) \<Longrightarrow> error_handled errs c = c"
  by (simp_all add: error_handled_def ErrorHandler_def Let_def)

text \<open>What the recovery and the error handler leave to the tracing adapter.\<close>

lemma ErrorHandler_mw_out:
  assumes "h ctx c = o'" "ErrorHandler_mw h ctx c = x"
  shows "go_panic x = go_panic o'" "go_errors x = go_errors o'"
    "SpanEnd \<in> set (go_calls x) \<longleftrightarrow> SpanEnd \<in> set (go_calls o')"
    "marked (go_calls x) \<longleftrightarrow> marked (go_calls o') \<or> go_panic o' = None \<and> go_errors o' \<noteq> []"
    "okayed (go_calls x) \<longleftrightarrow> okayed (go_calls o')"
    "span_errors (go_calls x) = span_errors (go_calls o') @ (if go_panic o' = None then map SpanErr (go_errors o') else [])"
    "go_ctx x = (if go_panic o' = None \<and> go_errors o' \<noteq> [] then error_handled (go_errors o') (go_ctx o') else go_ctx o')"
  by (auto simp: assms(2) [symmetric] ErrorHandler_mw_def assms(1) Let_def)

lemma Recovery_mw_out:
  assumes "h ctx c = o'" "Recovery_mw h ctx c = x"
  shows "go_panic x = None" "go_errors x = go_errors o'"
    "SpanEnd \<in> set (go_calls x) \<longleftrightarrow> SpanEnd \<in> set (go_calls o')"
    "marked (go_calls x) \<longleftrightarrow> marked (go_calls o') \<or> go_panic o' \<noteq> None"
    "okayed (go_calls x) \<longleftrightarrow> okayed (go_calls o')"
    "span_errors (go_calls x) = span_errors (go_calls o') @ (case go_panic o' of Some r \<Rightarrow> [panic_error r] | None \<Rightarrow> [])"
    "go_ctx x = (if go_panic o' = None then go_ctx o' else fst (gin_Recovery (go_ctx o') (Some [])))"
  using assms by (auto simp: Recovery_mw_def Let_def recovery_calls_def gin_Recovery_def split: option.splits)

lemma gin_Recovery_writer:
  "gr_writer (fst (gin_Recovery c (Some v)))
     = (if gw_written (gr_writer c) then gr_writer c else \<lparr>gw_status = 500, gw_written = True\<rparr>)"
  by (simp add: gin_Recovery_def)

lemma Recovery_mw_calls:
  assumes "h ctx c = o'" "Recovery_mw h ctx c = x"
  shows "\<exists>after. go_calls x = go_calls o' @ after \<and> SpanEnd \<notin> set after"
  using assms by (auto simp: Recovery_mw_def Let_def recovery_calls_def split: option.splits)

text \<open>What both orders share, given the calls on the span until it is ended.\<close>

lemma span_of_calls:
  assumes "calls = before @ SpanEnd # after" "SpanEnd \<notin> set before" "SpanEnd \<notin> set after"
  shows "count_list calls SpanEnd = 1" "until_end calls = before"
    "span_status calls = (if okayed before then Some CodeOk else if marked before then Some CodeError else None)"
  using assms by (simp_all add: count_list_0_iff until_end_end span_status_eq)

text \<open>The chain of the README, in terms of what the handler leaves.\<close>

lemma traced_chain_calls:
  assumes "gin_enter tx g serviceName ctx c = (st, ctx1, c1)" "h ctx1 c1 = o'" "SpanEnd \<notin> set (go_calls o')"
    "traced_chain tx g serviceName h ctx c = (st', t)"
  obtains y calls where "go_panic t = None" "go_ctx t = go_ctx y" "go_calls t = calls @ [SpanEnd]" "SpanEnd \<notin> set calls"
    "okayed calls \<longleftrightarrow> okayed (go_calls o')"
    "marked calls \<longleftrightarrow> marked (go_calls o') \<or> go_panic o' \<noteq> None \<or> go_errors o' \<noteq> [] \<or> gw_status (gr_writer (go_ctx o')) \<ge> 500"
    "span_errors calls = span_errors (go_calls o') @ (if go_panic o' = None then map SpanErr (go_errors o') else []) @
       (case go_panic o' of Some r \<Rightarrow> [panic_error r] | None \<Rightarrow> []) @ span_errors (gin_exit_calls (tx_errors_String tx) y)"
    "go_panic y = None" "go_errors y = go_errors o'"
    "go_ctx y = (if go_panic o' \<noteq> None then fst (gin_Recovery (go_ctx o') (Some []))
                 else if go_errors o' \<noteq> [] then error_handled (go_errors o') (go_ctx o') else go_ctx o')"
proof -
  obtain x where x: "ErrorHandler_mw h ctx1 c1 = x" by blast
  obtain y where y: "Recovery_mw (ErrorHandler_mw h) ctx1 c1 = y" by blast
  note X = ErrorHandler_mw_out [OF assms(2) x] and Y = Recovery_mw_out [OF x y]
  have "SpanEnd \<notin> set (go_calls y)" using X(3) Y(3) assms(3) by simp
  from gin_Telemetry_span [OF assms(1) y this assms(4) [unfolded traced_chain_def]] obtain calls where
    T: "go_ctx t = go_ctx y" "go_panic t = go_panic y" "go_calls t = calls @ [SpanEnd]" "SpanEnd \<notin> set calls"
      "okayed calls \<longleftrightarrow> okayed (go_calls y)"
      "marked calls \<longleftrightarrow> marked (go_calls y) \<or> go_panic y \<noteq> None \<or> go_errors y \<noteq> [] \<or> gw_status (gr_writer (go_ctx y)) \<ge> 500"
      "span_errors calls = span_errors (go_calls y) @ span_errors (gin_exit_calls (tx_errors_String tx) y)" by blast
  have status: "gw_status (gr_writer (go_ctx y)) = gw_status (gr_writer (go_ctx o'))" if "go_panic o' = None" "go_errors o' = []"
    using that X Y by simp
  have "marked calls \<longleftrightarrow> marked (go_calls o') \<or> go_panic o' \<noteq> None \<or> go_errors o' \<noteq> [] \<or> gw_status (gr_writer (go_ctx o')) \<ge> 500"
    unfolding T(6) using X Y status by auto
  moreover have "go_ctx y = (if go_panic o' \<noteq> None then fst (gin_Recovery (go_ctx o') (Some []))
      else if go_errors o' \<noteq> [] then error_handled (go_errors o') (go_ctx o') else go_ctx o')"
    using X(1,7) Y(7) by auto
  ultimately show ?thesis using that [of y calls] T X Y by simp
qed

text \<open>
  C30: The span of a request and its response tell how the request ended, in both documented orders of the middleware:
  \<open>t\<close> is tracing, recovery, error handler (\<open>README.md\<close>), \<open>u\<close> is the recovery outside tracing (\<open>doc.go\<close>). If the handler does not
  end the span itself, no panic leaves the chain and the span is ended exactly once, in the first order after every other
  call on it. It shows an error exactly when the handler panicked, attached an error, left a status of 500 or
  above or marked the span itself, unless the handler set its status to \<open>CodeOk\<close>, which is final; the value of the panic
  and, without one, every attached error were recorded before it ended. If the handler had written nothing, a panic
  is answered with 500, and in the first order attached errors with the status of the last one.
\<close>

theorem traced_chain_tells_outcome:
  assumes "gin_enter tx g serviceName ctx c = (st, ctx1, c1)" and "h ctx1 c1 = o'" and "SpanEnd \<notin> set (go_calls o')"
    and "t = snd (traced_chain tx g serviceName h ctx c)" and "u = recovery_outside tx g serviceName h ctx c"
  shows "(\<forall>v \<in> {t, u}. go_panic v = None \<and> count_list (go_calls v) SpanEnd = 1 \<and> span_status (go_calls v) = outcome_status o' \<and>
      (case go_panic o' of
         Some r \<Rightarrow> panic_error r \<in> set (span_errors (until_end (go_calls v)))
       | None \<Rightarrow> SpanErr ` set (go_errors o') \<subseteq> set (span_errors (until_end (go_calls v)))) \<and>
      (go_panic o' \<noteq> None \<and> \<not> gw_written (gr_writer (go_ctx o')) \<longrightarrow> gw_status (gr_writer (go_ctx v)) = 500)) \<and>
    last (go_calls t) = SpanEnd \<and>
    (go_panic o' = None \<and> go_errors o' \<noteq> [] \<and> \<not> gw_written (gr_writer (go_ctx o')) \<longrightarrow>
       gw_status (gr_writer (go_ctx t)) = hr_status (ErrorFromDomain (last (go_errors o')) :: string http_reply))"
proof -
  obtain st1 where t: "traced_chain tx g serviceName h ctx c = (st1, t)" using assms(4) by (metis prod.collapse)
  obtain y calls where T: "go_panic t = None" "go_ctx t = go_ctx y" "go_calls t = calls @ [SpanEnd]" "SpanEnd \<notin> set calls"
    "okayed calls \<longleftrightarrow> okayed (go_calls o')"
    "marked calls \<longleftrightarrow> marked (go_calls o') \<or> go_panic o' \<noteq> None \<or> go_errors o' \<noteq> [] \<or> gw_status (gr_writer (go_ctx o')) \<ge> 500"
    "span_errors calls = span_errors (go_calls o') @ (if go_panic o' = None then map SpanErr (go_errors o') else []) @
       (case go_panic o' of Some r \<Rightarrow> [panic_error r] | None \<Rightarrow> []) @ span_errors (gin_exit_calls (tx_errors_String tx) y)"
    "go_ctx y = (if go_panic o' \<noteq> None then fst (gin_Recovery (go_ctx o') (Some []))
                 else if go_errors o' \<noteq> [] then error_handled (go_errors o') (go_ctx o') else go_ctx o')"
    by (rule traced_chain_calls [OF assms(1-3) t])
  note S = span_of_calls [of "go_calls t" calls "[]", OF _ T(4)]
  obtain st2 w where w: "gin_Telemetry tx g serviceName h ctx c = (st2, w)" by fastforce
  from gin_Telemetry_span [OF assms(1-3) w] obtain before where
    W: "go_ctx w = go_ctx o'" "go_errors w = go_errors o'" "go_panic w = go_panic o'" "go_calls w = before @ [SpanEnd]" "SpanEnd \<notin> set before"
      "okayed before \<longleftrightarrow> okayed (go_calls o')"
      "marked before \<longleftrightarrow> marked (go_calls o') \<or> go_panic o' \<noteq> None \<or> go_errors o' \<noteq> [] \<or> gw_status (gr_writer (go_ctx o')) \<ge> 500"
      "span_errors before = span_errors (go_calls o') @ span_errors (gin_exit_calls (tx_errors_String tx) o')" by blast
  have u: "Recovery_mw (\<lambda>ctx c. snd (gin_Telemetry tx g serviceName h ctx c)) ctx c = u" using assms(5) by (simp add: recovery_outside_def)
  have w': "(\<lambda>ctx c. snd (gin_Telemetry tx g serviceName h ctx c)) ctx c = w" using w by simp
  note U = Recovery_mw_out [OF w' u]
  from Recovery_mw_calls [OF w' u] W(4) obtain after where a: "go_calls u = before @ SpanEnd # after" "SpanEnd \<notin> set after" by auto
  note R = span_of_calls [OF a(1) W(5) a(2)]
  have pe: "panic_error r \<in> set (span_errors (gin_exit_calls (tx_errors_String tx) o'))" if "go_panic o' = Some r" for r
    using that by (simp add: gin_exit_calls_def)
  have "span_status (go_calls t) = outcome_status o'" "span_status (go_calls u) = outcome_status o'"
    using S(3) R(3) T(3,5,6) W(6,7) by (simp_all add: outcome_status_eq [OF assms(3)])
  moreover have "case go_panic o' of Some r \<Rightarrow> panic_error r \<in> set (span_errors (until_end (go_calls t)))
      | None \<Rightarrow> SpanErr ` set (go_errors o') \<subseteq> set (span_errors (until_end (go_calls t)))"
    using S(2) T(3,7) by (auto split: option.splits)
  moreover have "case go_panic o' of Some r \<Rightarrow> panic_error r \<in> set (span_errors (until_end (go_calls u)))
      | None \<Rightarrow> SpanErr ` set (go_errors o') \<subseteq> set (span_errors (until_end (go_calls u)))"
    using R(2) W(8) pe gin_exit_errors [of o' "tx_errors_String tx"] by (auto split: option.splits)
  moreover have "gw_status (gr_writer (go_ctx v)) = 500" if "v \<in> {t, u}" "go_panic o' \<noteq> None" "\<not> gw_written (gr_writer (go_ctx o'))" for v
    using that T(2,8) U(7) W(1,3) by (auto simp: gin_Recovery_writer)
  moreover have "gw_status (gr_writer (go_ctx t)) = hr_status (ErrorFromDomain (last (go_errors o')) :: string http_reply)"
    if "go_panic o' = None" "go_errors o' \<noteq> []" "\<not> gw_written (gr_writer (go_ctx o'))"
    using that T(2,8) by (simp add: error_handled_simps)
  ultimately show ?thesis using S(1) R(1) T(1,3) U(1) by (simp add: ball_simps)
qed

text \<open>
  In the first order the errors a handler attaches are recorded twice, by the error handler and by the adapter; and
  the description of a panic is replaced: the adapter, which runs last, sees only the status.
\<close>

lemma errors_recorded_twice:
  assumes "gin_enter tx g serviceName ctx c = (st, ctx1, c1)" "h ctx1 c1 = o'" "go_calls o' = []"
    "traced_chain tx g serviceName h ctx c = (st', t)" "go_panic o' = None" "go_errors o' \<noteq> []"
  shows "span_errors (go_calls t) = map SpanErr (go_errors o') @ map SpanErr (go_errors o')"
proof -
  have "SpanEnd \<notin> set (go_calls o')" using assms(3) by simp
  from traced_chain_calls [OF assms(1,2) this assms(4)] obtain y calls where
    "go_calls t = calls @ [SpanEnd]" "go_panic y = None" "go_errors y = go_errors o'"
    "span_errors calls = span_errors (go_calls o') @ (if go_panic o' = None then map SpanErr (go_errors o') else []) @
       (case go_panic o' of Some r \<Rightarrow> [panic_error r] | None \<Rightarrow> []) @ span_errors (gin_exit_calls (tx_errors_String tx) y)" by metis
  then show ?thesis using assms by (simp add: gin_exit_calls_def Let_def)
qed

fun descriptions :: "span_call list \<Rightarrow> string list" where
  "descriptions [] = []"
| "descriptions (SetStatus k d # calls) = d # descriptions calls"
| "descriptions (_ # calls) = descriptions calls"

text \<open>A trace context that is a list of span names stands for the tracing library.\<close>

definition demo_propagator :: "string list propagator" where
  "demo_propagator = \<lparr>pg_Extract = (\<lambda>ctx h. ctx), pg_Inject = (\<lambda>ctx h. mput ''traceparent'' (concat ctx) h)\<rparr>"

definition demo_tracing :: "(string, string, string list) tracing" where
  "demo_tracing =
     \<lparr>tx_tracer = (\<lambda>p name. name), tx_start = (\<lambda>t ctx s. sp_name s # ctx), tx_valid = (\<lambda>ctx. ctx \<noteq> []),
      tx_TraceContext = demo_propagator, tx_errors_String = (\<lambda>errs. concat (map err_text errs))\<rparr>"

definition demo_otel :: "(string, string list) otel" where
  "demo_otel = \<lparr>ot_provider = ''otlp'', ot_propagator = demo_propagator\<rparr>"

definition demo_gin :: gin_req where
  "demo_gin = \<lparr>gr_request = demo_request [], gr_fullPath = ''/orders/:id'', gr_clientIP = [], gr_strings = [], gr_headers = [],
     gr_writer = \<lparr>gw_status = 200, gw_written = False\<rparr>\<rparr>"

definition demo_fails :: "string list gin_next" where
  "demo_fails ctx c =
     \<lparr>go_ctx = c, go_errors = [Plain ''x'', AppError CodeNotFound ''gone'' None None], go_panic = None, go_calls = []\<rparr>"

definition demo_panics :: "string list gin_next" where
  "demo_panics ctx c = \<lparr>go_ctx = c, go_errors = [], go_panic = Some (PanicVal ''boom''), go_calls = []\<rparr>"

theorem traced_chain_tells_outcome_witness:
  "let t = snd (traced_chain demo_tracing demo_otel ''api'' demo_fails [] demo_gin) in
     go_panic t = None \<and> last (go_calls t) = SpanEnd \<and> span_status (go_calls t) = Some CodeError \<and> gw_status (gr_writer (go_ctx t)) = 404"
proof -
  obtain st ctx1 c1 where e: "gin_enter demo_tracing demo_otel ''api'' [] demo_gin = (st, ctx1, c1)" by (metis prod_cases3)
  then have w: "gr_writer c1 = \<lparr>gw_status = 200, gw_written = False\<rparr>"
    by (auto simp: gin_enter_def Let_def demo_gin_def)
  have "hr_status (ErrorFromDomain (AppError CodeNotFound ''gone'' None None) :: string http_reply) = 404"
    by (simp add: ErrorFromDomain_def WriteJSON_def)
  moreover have "outcome_status (demo_fails ctx1 c1) = Some CodeError"
    by (simp add: outcome_status_def demo_fails_def span_status_def until_end_def)
  ultimately show ?thesis
    using traced_chain_tells_outcome [OF e refl _ refl refl] w by (simp add: demo_fails_def)
qed

lemma panic_description_replaced:
  "descriptions (go_calls (snd (traced_chain demo_tracing demo_otel ''api'' demo_panics [] demo_gin))) = [''panic: boom'', ''HTTP 500'']"
  "span_errors (go_calls (snd (traced_chain demo_tracing demo_otel ''api'' demo_panics [] demo_gin)))
     = [SpanErrorf ''panic: boom'', SpanErrorf ''HTTP 500: Internal Server Error'']"
  by code_simp+

section \<open>The spans of the middleware for \<open>net/http\<close>\<close>

lemma tel_Middleware_returns:
  assumes "tel_Middleware tracer start g tracerName opts handler ctx r \<lparr>hc_status = None, hc_bytes = 0\<rparr> = t"
    and "\<And>ctx r. snd (handler ctx r) = None" and "\<And>ctx r. status_first (fst (handler ctx r))"
  shows "td_calls t =
    [SetAttributes [HTTPResponseStatusCode (sent_status (td_conn t))],
     if sent_status (td_conn t) \<ge> 500 then SetStatus CodeError (StatusText (sent_status (td_conn t))) else SetStatus CodeOk [],
     SpanEnd]"
  unfolding assms(1) [symmetric]
  by (simp add: tel_Middleware_def Let_def case_prod_beta assms(2,3) tr_ops_status_first)

text \<open>
  A handler that panics leaves a span without a status, so that it is not counted as an error; a recovery between the
  middleware and the handler answers with 500 and so has the span marked.
\<close>

lemma tel_Middleware_panics:
  assumes "\<And>ctx r. snd (handler ctx r) = Some v"
  shows "td_calls (tel_Middleware tracer start g tracerName opts handler ctx r w) = [SpanEnd]"
    and "td_panic (tel_Middleware tracer start g tracerName opts handler ctx r w) = Some v"
  by (simp_all add: tel_Middleware_def Let_def case_prod_beta assms)

lemma tr_ops_append: "tr_ops (xs @ ys) r = tr_ops ys (tr_ops xs r)"
  by (induction xs r rule: tr_ops.induct) simp_all

lemma tel_Middleware_recovered:
  assumes "\<And>ctx r. snd (handler ctx r) = Some v"
  shows "marked (td_calls (tel_Middleware tracer start g tracerName opts (\<lambda>ctx. recovered taken (handler ctx)) ctx r w))"
proof -
  have "fst (recovered taken (handler ctx) r) = fst (handler ctx r) @ [WriteHeader 500, Write taken]" for ctx r
    using assms [of ctx r] by (cases "handler ctx r") (simp add: recovered_def recover_Middleware_def)
  then show ?thesis
    by (simp add: tel_Middleware_def Let_def tr_ops_append tr_WriteHeader_def recovered_def case_prod_beta)
qed

text \<open>The recorder keeps the last status, the connection the first.\<close>

lemma span_shows_last_status:
  "tel_Middleware (\<lambda>p n. n) (\<lambda>t ctx s. ctx) demo_otel ''api'' [] (\<lambda>ctx r. ([Write 5, WriteHeader 500], None)) [] (demo_request []) demo_conn = t \<Longrightarrow>
     hc_status (td_conn t) = Some 200 \<and> marked (td_calls t)"
  by (auto simp: tel_Middleware_def Let_def demo_conn_def net_Write_def net_WriteHeader_def tr_WriteHeader_def)

section \<open>The provider that is not global\<close>

text \<open>
  Whatever the options, and so whatever the sample rate, the provider is the one that records nothing; the service name
  is never empty.
\<close>

lemma NewTracerProvider_noop:
  assumes "NewTracerProvider noop opts = (tp, r)"
  shows "tp_Tracer tracer g (Some tp) name = tracer noop name \<and> tc_ServiceName (tp_Config (Some tp)) \<noteq> [] \<and> r = (None, None)"
  using assms by (auto simp: NewTracerProvider_def tp_Tracer_def tp_Config_def tp_Shutdown_def Let_def split: if_splits)

end
