(* ===== verification/Small_Packages.thy ===== *)
theory Small_Packages
  imports Go_Strings
begin

text \<open>
  Packages of a few functions around third-party code: the field errors of \<open>src/validation/validation.go\<close>, the
  identifiers of \<open>src/uuidutil/uuidutil.go\<close>, the database pool of \<open>src/db/db.go\<close> and \<open>src/db/context.go\<close>, the
  goroutines of \<open>src/async/async.go\<close> and the runtime figures of \<open>src/health/health.go\<close>. What the validator, the UUID
  package, the database driver and the runtime return are parameters.
\<close>

section \<open>Validation errors\<close>

text \<open>An error of the validator for one field.\<close>

record validator_FieldError =
  vf_Field :: string
  vf_Tag :: string
  vf_Param :: string

text \<open>Errors: the validator's errors, other errors, errors wrapped with a message and joined errors.\<close>

datatype verror =
    ValidationErrors "validator_FieldError list"
  | OtherError string
  | WrappedError string verror
  | JoinedErrors "verror list"

text \<open>\<open>errors.As\<close> with a target of the validator's type: the first such error, before its causes, from left to right.\<close>

fun as_validation :: "verror \<Rightarrow> validator_FieldError list option"
  and as_validations :: "verror list \<Rightarrow> validator_FieldError list option" where
  "as_validation (ValidationErrors es) = Some es"
| "as_validation (OtherError m) = None"
| "as_validation (WrappedError m e) = as_validation e"
| "as_validation (JoinedErrors es) = as_validations es"
| "as_validations [] = None"
| "as_validations (e # es) = (case as_validation e of Some v \<Rightarrow> Some v | None \<Rightarrow> as_validations es)"

text \<open>The text of an error; \<open>text\<close> prints the validator's.\<close>

fun verror_text :: "(validator_FieldError list \<Rightarrow> string) \<Rightarrow> verror \<Rightarrow> string"
  and verror_texts :: "(validator_FieldError list \<Rightarrow> string) \<Rightarrow> verror list \<Rightarrow> string" where
  "verror_text text (ValidationErrors es) = text es"
| "verror_text text (OtherError m) = m"
| "verror_text text (WrappedError m e) = m @ '': '' @ verror_text text e"
| "verror_text text (JoinedErrors es) = verror_texts text es"
| "verror_texts text [] = []"
| "verror_texts text [e] = verror_text text e"
| "verror_texts text (e # f # es) = verror_text text e @ CHR 10 # verror_texts text (f # es)"

record FieldError =
  fe_Field :: string
  fe_Message :: string

definition msgForTag :: "validator_FieldError \<Rightarrow> string" where
  "msgForTag e =
     (if vf_Tag e = ''required'' then ''This field is required''
      else if vf_Tag e = ''email'' then ''Invalid email format''
      else if vf_Tag e = ''min'' then ''Must be at least '' @ vf_Param e
      else if vf_Tag e = ''max'' then ''Must be at most '' @ vf_Param e
      else ''Invalid value'')"

definition FormatErrors :: "(validator_FieldError list \<Rightarrow> string) \<Rightarrow> verror option \<Rightarrow> FieldError list" where
  "FormatErrors text err =
     (case err of
        None \<Rightarrow> []
      | Some err \<Rightarrow>
          (case as_validation err of
             Some validationErrors \<Rightarrow>
               fold (\<lambda>e fieldErrs. fieldErrs @ [\<lparr>fe_Field = to_lower (vf_Field e), fe_Message = msgForTag e\<rparr>]) validationErrors []
           | None \<Rightarrow> [\<lparr>fe_Field = ''unknown'', fe_Message = verror_text text err\<rparr>]))"

lemma fold_snoc: "fold (\<lambda>e acc. acc @ [f e]) es acc = acc @ map f es"
  by (induction es arbitrary: acc) simp_all

text \<open>
  One field error for each error of the validator, in order, however the error was wrapped. The parameter of a rule
  is shown, its value is not; the text of an error that is not the validator's is passed on to the client unchanged.
\<close>

lemma FormatErrors_wrapped:
  "FormatErrors text (Some (foldr WrappedError ms (ValidationErrors es)))
     = map (\<lambda>e. \<lparr>fe_Field = to_lower (vf_Field e), fe_Message = msgForTag e\<rparr>) es"
proof -
  have "as_validation (foldr WrappedError ms (ValidationErrors es)) = Some es" by (induction ms) simp_all
  then show ?thesis by (simp add: FormatErrors_def fold_snoc)
qed

lemma FormatErrors_passes_text:
  "FormatErrors text (Some (foldr WrappedError ms (OtherError m)))
     = [\<lparr>fe_Field = ''unknown'', fe_Message = verror_text text (foldr WrappedError ms (OtherError m))\<rparr>]"
proof -
  have "as_validation (foldr WrappedError ms (OtherError m)) = None" by (induction ms) simp_all
  then show ?thesis by (simp add: FormatErrors_def)
qed

section \<open>Identifiers\<close>

type_synonym uuid_value = "128 word"

definition uuid_Nil :: uuid_value where
  "uuid_Nil = 0"

text \<open>\<open>parse\<close> is the parser of the UUID package. A nil pointer is \<open>None\<close>.\<close>

definition ParsePtr :: "(string \<Rightarrow> string + uuid_value) \<Rightarrow> string \<Rightarrow> string + uuid_value option" where
  "ParsePtr parse s =
     (if trim_space s = [] then Inr None
      else case parse s of Inl err \<Rightarrow> Inl err | Inr u \<Rightarrow> Inr (Some u))"

definition uuid_IsValid :: "(string \<Rightarrow> string + uuid_value) \<Rightarrow> string \<Rightarrow> bool" where
  "uuid_IsValid parse s = (case parse s of Inl err \<Rightarrow> False | Inr u \<Rightarrow> True)"

definition uuid_IsNil :: "uuid_value \<Rightarrow> bool" where
  "uuid_IsNil id' \<longleftrightarrow> id' = uuid_Nil"

lemma ParsePtr_outcome:
  "ParsePtr parse s = Inr None \<longleftrightarrow> trim_space s = []"
  "(\<exists>u. ParsePtr parse s = Inr (Some u)) \<longleftrightarrow> trim_space s \<noteq> [] \<and> uuid_IsValid parse s"
  "(\<exists>err. ParsePtr parse s = Inl err) \<longleftrightarrow> trim_space s \<noteq> [] \<and> \<not> uuid_IsValid parse s"
  by (auto simp: ParsePtr_def uuid_IsValid_def split: sum.splits)

section \<open>The database pool\<close>

text \<open>The driver's configuration, of which the options set two fields; \<open>pc_rest\<close> is the rest of it.\<close>

record 'r pg_Config =
  pc_MaxConns :: "32 word"
  pc_MinConns :: "32 word"
  pc_rest :: 'r

definition WithMaxConns :: "32 word \<Rightarrow> 'r pg_Config \<Rightarrow> 'r pg_Config" where
  "WithMaxConns maxConns c = c\<lparr>pc_MaxConns := maxConns\<rparr>"

definition WithMinConns :: "32 word \<Rightarrow> 'r pg_Config \<Rightarrow> 'r pg_Config" where
  "WithMinConns minConns c = c\<lparr>pc_MinConns := minConns\<rparr>"

text \<open>
  The driver: the parser of a connection string, the constructor of a pool (which may be a nil pointer) and the ping.
  Besides its result, \<open>Connect\<close> leaves the pools it has opened and those it has closed.
\<close>

record ('r, 'pool) driver =
  dv_ParseConfig :: "string \<Rightarrow> string + 'r pg_Config"
  dv_newWithConfig :: "'r pg_Config \<Rightarrow> string + 'pool option"
  dv_pingPool :: "'pool option \<Rightarrow> string option"

record 'pool connected =
  cn_opened :: "'pool list"
  cn_closed :: "'pool list"
  cn_result :: "string + 'pool option"

definition db_Connect ::
  "('r, 'pool) driver \<Rightarrow> string \<Rightarrow> ('r pg_Config \<Rightarrow> 'r pg_Config) list \<Rightarrow> 'pool connected" where
  "db_Connect dv databaseURL opts =
     (if databaseURL = [] then \<lparr>cn_opened = [], cn_closed = [], cn_result = Inl ''db: connection string is required''\<rparr>
      else case dv_ParseConfig dv databaseURL of
        Inl err \<Rightarrow> \<lparr>cn_opened = [], cn_closed = [], cn_result = Inl (''unable to parse database url: '' @ err)\<rparr>
      | Inr config \<Rightarrow>
          let config = fold (\<lambda>opt c. opt c) opts config in
          (case dv_newWithConfig dv config of
             Inl err \<Rightarrow> \<lparr>cn_opened = [], cn_closed = [], cn_result = Inl (''unable to create connection pool: '' @ err)\<rparr>
           | Inr pool \<Rightarrow>
               let opened = (case pool of Some p \<Rightarrow> [p] | None \<Rightarrow> []) in
               (case dv_pingPool dv pool of
                  Some err \<Rightarrow>
                    \<lparr>cn_opened = opened, cn_closed = (case pool of Some p \<Rightarrow> [p] | None \<Rightarrow> []),
                     cn_result = Inl (''unable to ping database: '' @ err)\<rparr>
                | None \<Rightarrow> \<lparr>cn_opened = opened, cn_closed = [], cn_result = Inr pool\<rparr>)))"

text \<open>No pool leaks: a pool that was opened is either returned or closed, never both.\<close>

lemma db_Connect_no_leak:
  "cn_opened (db_Connect dv url opts) =
     cn_closed (db_Connect dv url opts) @ (case cn_result (db_Connect dv url opts) of Inr (Some p) \<Rightarrow> [p] | _ \<Rightarrow> [])"
  "cn_result (db_Connect dv url opts) = Inr pool \<Longrightarrow> dv_pingPool dv pool = None"
  by (auto simp: db_Connect_def Let_def split: sum.splits option.splits if_splits)

text \<open>The value of the key in a context; a pointer to a connection may be nil.\<close>

datatype 'conn ctx_value = ConnValue "'conn option" | OtherValue

datatype ('conn, 'pool) querier = QConn "'conn option" | QPool 'pool

definition GetQuerier :: "'conn ctx_value option \<Rightarrow> 'pool \<Rightarrow> ('conn, 'pool) querier" where
  "GetQuerier v pool = (case v of Some (ConnValue conn) \<Rightarrow> QConn conn | _ \<Rightarrow> QPool pool)"

section \<open>Goroutines\<close>

text \<open>What a goroutine that is started this way logs: the value its function panics with, if it does.\<close>

record async_entry =
  ay_msg :: string
  ay_panic :: string

definition async_Go :: "(unit \<Rightarrow> string option) \<Rightarrow> async_entry list" where
  "async_Go fn =
     (case fn () of Some r \<Rightarrow> [\<lparr>ay_msg = ''async goroutine panic recovered'', ay_panic = r\<rparr>] | None \<Rightarrow> [])"

definition GoCtx :: "'ctx \<Rightarrow> ('ctx \<Rightarrow> string option) \<Rightarrow> async_entry list" where
  "GoCtx ctx fn =
     (case fn ctx of Some r \<Rightarrow> [\<lparr>ay_msg = ''async goroutine panic recovered'', ay_panic = r\<rparr>] | None \<Rightarrow> [])"

section \<open>Runtime figures\<close>

record mem_stats =
  mt_Alloc :: "64 word"
  mt_Sys :: "64 word"
  mt_NumGC :: "32 word"

record go_runtime =
  rt_Version :: string
  rt_NumGoroutine :: int
  rt_NumCPU :: int
  rt_mem :: mem_stats

record RuntimeInfo =
  ri_GoVersion :: string
  ri_Goroutines :: int
  ri_NumCPU :: int
  ri_AllocMB :: "64 word"
  ri_SysMB :: "64 word"
  ri_GCRuns :: "32 word"

definition getRuntimeInfo :: "go_runtime \<Rightarrow> RuntimeInfo" where
  "getRuntimeInfo rt =
     (let mem = rt_mem rt in
      \<lparr>ri_GoVersion = rt_Version rt, ri_Goroutines = rt_NumGoroutine rt, ri_NumCPU = rt_NumCPU rt,
       ri_AllocMB = mt_Alloc mem div 1024 div 1024, ri_SysMB = mt_Sys mem div 1024 div 1024, ri_GCRuns = mt_NumGC mem\<rparr>)"

record readiness =
  rd_headers :: "(string \<times> string) list"
  rd_Status :: string
  rd_Runtime :: RuntimeInfo

definition ReadinessHandler :: "go_runtime \<Rightarrow> readiness" where
  "ReadinessHandler rt =
     \<lparr>rd_headers = [(''Content-Type'', ''application/json''), (''Cache-Control'', ''no-store'')],
      rd_Status = ''ready'', rd_Runtime = getRuntimeInfo rt\<rparr>"

text \<open>The two divisions are one by \<open>2\<^sup>20\<close>: whole mebibytes.\<close>

lemma getRuntimeInfo_MB:
  "uint (ri_AllocMB (getRuntimeInfo rt)) = uint (mt_Alloc (rt_mem rt)) div 2 ^ 20"
  "uint (ri_SysMB (getRuntimeInfo rt)) = uint (mt_Sys (rt_mem rt)) div 2 ^ 20"
  by (simp_all add: getRuntimeInfo_def Let_def uint_div_distrib zdiv_zmult2_eq [symmetric])

end
