(* ===== verification/Spec2Isabelle.thy ===== *)
theory Spec2Isabelle
  imports Fsm Rbac Breaker_Consecutive Breaker_Ratio Rate_Middleware Cache_Typed Idem_Middleware Retry Pagination Timeutil Fake_Clock Worker_Pool Http_Client Log_Redact Async_Parallel
    Idem_Replicas Pg_Rate_Limiter Gin_Idempotency Gin_Rate_Limit Gin_Handlers Shutdown Health Jwks Log_Sampling Collections Random_Text Text_Util Env
    Microservice Load_Gen Tracing Small_Packages
begin

text \<open>
  A verification development of go-libs, the Go library under \<open>src/\<close>: shared operational primitives for
  services. Each package is small and keeps its own state behind a mutex or in a PostgreSQL table; they meet in the HTTP
  client (rate limiter, circuit breaker and retries around a transport), in the middlewares (a limiter or an
  idempotency store around a handler, in two web frameworks), in the clock that several of them read, and in the
  example service, which wires most of them together.

  \<^bold>\<open>Conventions.\<close> \<open>Go_Prelude\<close> has what the components share: \<open>int\<close> arithmetic of 64 bits with its wrap-around
  (\<open>wrap64\<close>) and the saturation of \<open>time.Sub\<close> (\<open>saturate64\<close>), times and durations in nanoseconds, Go maps as
  association lists with distinct keys (\<open>map_ok\<close>), errors with \<open>errors.Is\<close>, the error of a context at one
  moment. \<open>Go_Strings\<close> has the string functions the sources call, \<open>Float64\<close> double precision as exact rationals
  rounded to 53 bits, \<open>Go_Quote\<close> the verb \<open>%q\<close>, \<open>Dll\<close> doubly linked lists in a heap. A method is a function that returns the new
  state; a critical section of a mutex is one step; a clock that a method reads, the iteration order of a
  map, random numbers and the results of callbacks are arguments, so a theorem holds for all of them.
  Operations whose steps other goroutines can observe are step relations: \<open>brk_step\<close> (calls in flight
  through a breaker), \<open>idem_step\<close> (requests in flight through the idempotency middleware), \<open>pool_step\<close>
  (callers and workers of a pool), \<open>par_step\<close> (parallel tasks), \<open>pg_step\<close> (callers on several replicas and their SQL
  statements), \<open>replica_step\<close> (requests on several replicas and their SQL statements), \<open>sd_step\<close> (the hooks of a shutdown), \<open>health_step\<close> (the checkers of a request), \<open>red_step\<close> (atomic
  counters), \<open>load_step\<close> (the workers of the load generator). Metrics are counters of the state; what the packages log about themselves is left out.

  \<^bold>\<open>Access control.\<close> \<open>Fsm\<close> models \<open>src/fsm/fsm.go\<close>: the machine built from a configuration accepts exactly the
  declared transitions and reports the first unknown state otherwise. \<open>Rbac\<close> models \<open>src/rbac/engine.go\<close> and
  \<open>src/rbaccontext/rbaccontext.go\<close>: \<open>Match\<close> is segment-wise wildcard matching, and the context helpers
  agree with it. \<open>Gin\<close> models authentication, authorization, tenancy and CORS of \<open>src/ginmw\<close> on top of it: when a
  protected handler is run and what it finds in its context, the round trip of tokens, which tenant wins. \<open>Jwks\<close>
  models \<open>src/jwks/jwks.go\<close>: where a public key can come from, and that a withdrawn one stays.

  \<^bold>\<open>Circuit breakers\<close> (\<open>src/circuitbreaker\<close>). \<open>Breaker\<close> has the half-open protocol both breakers implement,
  the system of concurrent calls and the locale \<open>breaker\<close>, the contract of an implementation, in which the
  safety of every reachable state is proved once; \<open>Breaker_Consecutive\<close> and \<open>Breaker_Ratio\<close> are the two
  implementations and interpret it. They show at most one probe in flight and only documented transitions,
  when exactly a circuit opens for the first time (for sequential calls, with the ratio computed in double precision),
  that an open circuit fails fast, and that a probe decides after the timeout.

  \<^bold>\<open>Rate limiting\<close> (\<open>src/ratelimit\<close>). \<open>Token_Bucket\<close> and \<open>Sliding_Window\<close> model the two limiters with their sweeps
  of idle keys, and interpret the locale \<open>limiter\<close> of \<open>Rate_Limiter\<close>, whose middleware theorems hold for both;
  \<open>Pg_Rate_Limiter\<close> models the limiter on a table (\<open>src/db/ratelimit.go\<close>) and interprets the same contract;
  \<open>Real_IP\<close> models how the client address is found behind proxies, \<open>Rate_Middleware\<close> the packaged handlers,
  \<open>Gin_Rate_Limit\<close> their adapters for Gin (\<open>src/ginmw/ratelimit.go\<close>).
  The lemmas bound what a key is admitted over operations run one after the other, for refills and windows that
  fit the idle timeout of the sweeps, show that headers of untrusted peers cannot choose the key, and bound the
  requests of one client, over all replicas for the table. An operation of a limiter is one step: the code looks a
  bucket up under the lock of the limiter and takes from it under the bucket's own.

  \<^bold>\<open>Caches\<close> (\<open>src/cache\<close>). \<open>Cache_Queue\<close> (LRU and FIFO), \<open>Cache_Lfu\<close> and \<open>Cache_Sampled\<close> (the default) are the back
  ends, on an explicit heap where the code has list nodes; all interpret the locale \<open>cache_backend\<close> of
  \<open>Cache_Spec\<close>. LRU and FIFO refine lists in recency and insertion order, LFU evicts a key of least
  frequency, the sampled cache the oldest write of its sample. \<open>Cache_Typed\<close> is the dispatching cache:
  bounded, coherent, complete within its capacity, under every policy.

  \<^bold>\<open>Idempotency\<close> (\<open>src/idempotency\<close>). \<open>Idem_Store\<close> models the in-memory store and interprets the locale
  \<open>idem_store\<close>, \<open>Idem_Middleware\<close> the middleware before and after the handler; the locale \<open>idem_server\<close> is the shape of
  a middleware over a store. \<open>Idem_Postgres\<close> models the store on a table, whose \<open>Lock\<close> is several statements: a
  lease is exclusive whatever the interleaving of replicas, and the store, when no other statement comes between those
  of a call, is a second interpretation of \<open>idem_store\<close>. \<open>Idem_Replicas\<close> is the middleware of several replicas over
  one table with their statements interleaved. \<open>Gin_Idempotency\<close> is the middleware for Gin, a second interpretation of \<open>idem_server\<close>. However requests
  interleave, at most one handler runs per key, and a stored response is replayed ever after (in memory without
  lifetimes and limits, over PostgreSQL during one lease).

  \<^bold>\<open>Retries and the HTTP client.\<close> \<open>Retry\<close> models \<open>src/retry/retry.go\<close>, the four wait strategies and the loop.
  \<open>Http_Client\<close> models \<open>src/httpclient/roundtripper.go\<close> on top of it and of the limiters and breakers; the
  locale \<open>client_breaker\<close> is what it relies on in a breaker, and both breakers are instances. The composed
  client makes at most the configured attempts, each with the whole body, closes every response it does
  not return, and asks limiter, breaker and network in this order.

  \<^bold>\<open>Worker pool\<close> (\<open>src/workerpool\<close>, theory \<open>Worker_Pool\<close>): under every interleaving no call sends on the closed
  channel, every accepted task is run exactly once before \<open>StopWait\<close> returns, and \<open>Stop\<close> is not held up by
  submitters that block.

  \<^bold>\<open>Parallel tasks\<close> (\<open>src/async/parallel.go\<close>, theory \<open>Async_Parallel\<close>): the limit on running tasks holds, no task
  is started twice, after waiting every task has run or, if the context has ended, been skipped, and the result is the
  first error reported.

  \<^bold>\<open>Shutdown and health\<close> (\<open>src/shutdown/shutdown.go\<close>, \<open>src/health/health.go\<close>, theories \<open>Shutdown\<close> and \<open>Health\<close>): \<open>Execute\<close> loses no
  error, never sends on the closed channel and returns although hooks hang; a health request is answered
  with the results of all checkers, if all of them return; one that hangs blocks the reply (\<open>hanging_checker_blocks\<close>).

  \<^bold>\<open>Errors and responses\<close> (\<open>src/apperror\<close>, \<open>src/httputil\<close>, theory \<open>Http_Response\<close>): the status and code of a response for any
  tree of wrapped and joined errors, with application errors and other implementations of \<open>APIError\<close> in it; which origins are reflected. \<open>Gin_Handlers\<close> has the adapters for Gin and what they wrap
  (\<open>src/securityheaders\<close>, \<open>src/bodylimit\<close>, and the logger, recovery, error handler and envelopes of \<open>src/ginmw\<close>).

  \<^bold>\<open>Access log, sampling and request metrics\<close> (\<open>src/requestid\<close>, \<open>src/logger\<close>, \<open>src/recovery\<close>, \<open>src/ginmw/red_metrics.go\<close>, theories
  \<open>Log_Http\<close>, \<open>Log_Sampling\<close>, \<open>Gin_Metrics\<close>): the log agrees with the connection, an identifier is valid before it is
  logged, sampling passes no more than its budget, counters are exact under concurrent requests.

  \<^bold>\<open>Tracing\<close> (\<open>src/telemetry\<close>, \<open>src/ginmw/telemetry.go\<close>, and the spans of the recovery and the error handler of \<open>src/ginmw\<close>, theory \<open>Tracing\<close>):
  a span is the list of the calls made on it, and the tracing library is a parameter. In the order of the
  README and with the recovery outside tracing (\<open>recovery_outside\<close>, \<open>src/ginmw/doc.go\<close>) a span is ended once and its status
  tells how the request ended.

  \<^bold>\<open>The example service\<close> (\<open>src/examples/microservice/main.go\<close>, theory \<open>Microservice\<close>) composes the packages: the typed cache behind the list
  of items, the breaker, the retries and the HTTP client behind the quotes, the pool behind the tasks, the
  atomic counters behind \<open>/metrics\<close>. The cache is transparent; a request for a quote sends a bounded number of requests,
  the redirects that \<open>http.Client\<close> follows included (\<open>client_hops\<close>), and leaks no response; and since the handler and the client share one breaker, a circuit that has
  opened never closes again (\<open>quote_circuit_never_closes\<close>). \<open>Load_Gen\<close> models its load generator (\<open>loadgen/main.go\<close>), whose report is exact under
  every interleaving of its workers.

  \<^bold>\<open>Small packages\<close> (theory \<open>Small_Packages\<close>): the field errors of \<open>src/validation\<close>, the identifiers of \<open>src/uuidutil\<close>, the pool of \<open>src/db\<close>,
  which is returned or closed, the goroutines of \<open>src/async/async.go\<close> and the runtime figures of \<open>src/health\<close>.

  \<^bold>\<open>Helpers.\<close> \<open>Collections\<close> (\<open>src/sliceutil\<close>, \<open>src/maputil\<close>), \<open>Text_Util\<close> and \<open>Random_Text\<close> (\<open>src/stringutil\<close>, \<open>src/cryptoutil\<close>) and \<open>Env\<close>
  (\<open>src/env\<close>): chunks partition, truncation keeps whole characters, random strings are unbiased, typed
  variables parse what was printed.

  \<^bold>\<open>Log redaction\<close> (\<open>src/logger/redactor.go\<close>, theory \<open>Log_Redact\<close>): every attribute that is not a group, at any
  depth, is redacted and none is lost. The key of a group itself is not looked at (\<open>sensitive_group_is_logged\<close>), and a
  \<open>LogValuer\<close> is passed on without resolving it (\<open>log_valuer_is_logged\<close>).

  \<^bold>\<open>Time.\<close> \<open>Fake_Clock\<close> models \<open>src/clock/fake.go\<close> with timers, tickers and sleepers as objects in stores: what
  fires when the clock is set. \<open>Timeutil\<close> models the calendar part of \<open>src/timeutil/timeutil.go\<close>: the day
  number is the one of the Gregorian calendar, and the business-day functions, on day numbers without a location, agree with counting days. \<open>Time_Zones\<close>
  models the rest of it on locations given by their tables of offsets: the ends of a day show midnight and the last
  nanosecond unless the clocks skip them, and parsing takes the first layout that fits.

  \<^bold>\<open>Pagination\<close> (\<open>src/pagination\<close>, theory \<open>Pagination\<close>): the pages of a slice are a partition of it, cursors
  decode to what was encoded.

  \<^bold>\<open>Bounds and termination.\<close> No definition uses fuel: loops are structural recursions or functions with a
  measure (the remaining attempts of a retry, the distance of a ticker's deadline from the clock, the days
  to the next weekday). Hypotheses on magnitudes keep sums within 64 bits where the code does not check
  them, and are stated in the theorems; where the code goes wrong beyond them a lemma beside the theorem
  shows it on a concrete input (\<open>sw_wraps_and_sweeps\<close>, \<open>tb_sweep_refills_slow_buckets\<close>, \<open>linear_wait_wraps\<close>,
  \<open>http_wait_overflows\<close>, \<open>page_overflow_panics\<close>, \<open>memory_store_limit_gaps\<close>, \<open>cb_stale_probes_escape_the_limit\<close>,
  \<open>pg_window_truncated\<close>, \<open>rb_make_overflows\<close>, \<open>token_lifetime_wraps\<close>, \<open>Chunk_panics\<close>, \<open>MB_wraps\<close>).

  \<^bold>\<open>Parameters.\<close> Third-party code and the outside world are arguments with named laws: the chain of the Gin framework
  (\<open>gin_chain\<close>, \<open>only_serves\<close>), the token library (\<open>verifies_own\<close>, \<open>carries\<close>), what a column keeps of a time and the JSON codec
  (\<open>keeps_time_order\<close>, \<open>encodes_headers\<close>), the order in which a map is visited (\<open>visits_keys\<close>), the bcrypt
  functions, the answers of a key server, the bytes of the random source, the tracing library and its
  propagators, the validator, the UUID parser, the database driver, the parser and formatter of times.

  \<^bold>\<open>Not modelled.\<close> \<open>src/clock/real.go\<close> forwards to package \<open>time\<close>; \<open>src/metrics\<close> has interfaces and methods without effect. Left out of modelled packages: the functions of
  \<open>uuidutil\<close> that only forward to a third-party package, the timestamp and uptime of a health reply, the router and \<open>main\<close>
  of the example service, the flags and reports of the load generator, the spans of the HTTP client, and options that only store a clock, a logger or a
  metrics sink.
\<close>

end
